(* ===== verification/Prelude.thy ===== *)
theory Prelude
  imports Main "HOL-Library.Word" "HOL-Library.Monad_Syntax"
begin

section \<open>Machine types, memory and loops\<close>

text \<open>
  Shared vocabulary of the libwebp models: the C integer types as words, arrays and buffers as
  lists that are read and written through checked accesses, the C loops, and the facts about
  them that every component uses.

  A C function that touches memory is a HOL function into \<open>option\<close>: \<open>None\<close> stands for undefined
  behaviour (an access outside its buffer, a failed \<open>assert\<close>, an out-of-range shift), so a theorem
  that such a function returns \<open>Some\<close> is a memory-safety theorem.
\<close>

unbundle bit_operations_syntax

type_synonym u8 = "8 word"
type_synonym u16 = "16 word"
type_synonym u32 = "32 word"
type_synonym u64 = "64 word"

named_theorems mem_simps "checked memory accesses"
named_theorems exec_simps "equations that run the loops on concrete inputs"

lemma uint_small [simp]:
  "take_bit 8 (uint (a :: u8)) = uint a" "uint a mod 256 = uint a"
  "take_bit 16 (uint (b :: u16)) = uint b" "uint b mod 65536 = uint b"
  "take_bit 32 (uint (c :: u32)) = uint c" "uint c mod 4294967296 = uint c"
  "take_bit 64 (uint (d :: u64)) = uint d" "uint d mod 18446744073709551616 = uint d"
  using uint_lt2p[of a] uint_lt2p[of b] uint_lt2p[of c] uint_lt2p[of d]
  by (simp_all add: take_bit_eq_mod)

lemma uint_bound:
  "uint (a :: u8) < 256" "uint (b :: u16) < 65536" "uint (c :: u32) < 4294967296"
  "uint (d :: u64) < 18446744073709551616"
  using uint_lt2p[of a] uint_lt2p[of b] uint_lt2p[of c] uint_lt2p[of d] by simp_all

lemma bit_u8_over [simp]: "8 \<le> n \<Longrightarrow> \<not> bit (a :: u8) n"
  by (auto dest: bit_imp_le_length)

lemma uint_shiftr: "uint (drop_bit n w) = uint w div 2 ^ n" for w :: "'a :: len word"
proof -
  have "uint (drop_bit n w) = drop_bit n (take_bit LENGTH('a) (uint w))"
    by (simp only: unsigned_drop_bit_eq)
  also have "take_bit LENGTH('a) (uint w) = uint w"
    by (rule take_bit_int_eq_self) simp_all
  finally show ?thesis by (simp add: drop_bit_eq_div)
qed

lemma uint_not: "uint (NOT w) = 2 ^ LENGTH('a) - 1 - uint w" for w :: "'a :: len word"
proof -
  have "uint (NOT w) = (- uint w - 1 + 2 ^ LENGTH('a)) mod 2 ^ LENGTH('a)"
    unfolding unsigned_not_eq take_bit_eq_mod not_int_def by simp
  also have "\<dots> = - uint w - 1 + 2 ^ LENGTH('a)"
    using uint_lt2p[of w] uint_ge_0[of w] by (intro mod_pos_pos_trivial) linarith+
  finally show ?thesis by simp
qed

lemma sint_small: "uint w < 2 ^ (LENGTH('a) - 1) \<Longrightarrow> sint w = uint w" for w :: "'a :: len word"
  unfolding sint_uint by (intro signed_take_bit_int_eq_self) (auto intro: order_trans[of _ 0])

lemma int_div_less: "a div m < n" if "0 < m" "a < n * m" for a m n :: int
proof (rule ccontr)
  assume "\<not> a div m < n"
  then have "n * m \<le> a div m * m" using that(1) by (intro mult_right_mono) auto
  also have "\<dots> = a - a mod m" by (simp add: minus_mod_eq_div_mult)
  also have "\<dots> \<le> a" using that(1) by simp
  finally show False using that(2) by simp
qed

lemma and_ones:
  "x AND 255 = take_bit 8 x" "x AND 65535 = take_bit 16 x" "x AND 1 = take_bit (Suc 0) x"
  for x :: "'a :: len word"
  by (simp_all add: take_bit_eq_mask mask_eq_exp_minus_1)

subsection \<open>Checked memory\<close>

definition ld :: "'a list \<Rightarrow> int \<Rightarrow> 'a option" where
  "ld m i = (if 0 \<le> i \<and> i < int (length m) then Some (m ! nat i) else None)"

definition st :: "'a list \<Rightarrow> int \<Rightarrow> 'a \<Rightarrow> 'a list option" where
  "st m i v = (if 0 \<le> i \<and> i < int (length m) then Some (m[nat i := v]) else None)"

definition require :: "bool \<Rightarrow> unit option" where
  "require b = (if b then Some () else None)"

lemma require_simps [simp]: "require True = Some ()" "require False = None"
  by (simp_all add: require_def)

lemma require_eq_Some [simp]: "require b = Some u \<longleftrightarrow> b"
  by (simp add: require_def)

lemma ld_nat [mem_simps]: "i < length m \<Longrightarrow> ld m (int i) = Some (m ! i)"
  by (simp add: ld_def)

lemma st_nat [mem_simps]: "i < length m \<Longrightarrow> st m (int i) v = Some (m[i := v])"
  by (simp add: st_def)

lemma ld_eq_Some:
  "ld m i = Some v \<longleftrightarrow> 0 \<le> i \<and> i < int (length m) \<and> m ! nat i = v"
  by (auto simp: ld_def)

lemma st_eq_Some:
  "st m i v = Some m' \<longleftrightarrow> 0 \<le> i \<and> i < int (length m) \<and> m' = m[nat i := v]"
  by (auto simp: st_def)

lemma st_length: "st m i v = Some m' \<Longrightarrow> length m' = length m"
  by (auto simp: st_eq_Some)

subsection \<open>Loops\<close>

text \<open>\<open>for (i = a; i < b; ++i) body\<close>, the body a function of the index and the state.\<close>

function for_range :: "nat \<Rightarrow> nat \<Rightarrow> (nat \<Rightarrow> 's \<Rightarrow> 's option) \<Rightarrow> 's \<Rightarrow> 's option" where
  "for_range a b body s =
     (if a < b then Option.bind (body a s) (for_range (Suc a) b body) else Some s)"
  by pat_completeness auto
termination
  by (relation "measure (\<lambda>(a, b, _). b - a)") auto

declare for_range.simps [simp del]

lemma for_range_done [simp, exec_simps]: "b \<le> a \<Longrightarrow> for_range a b body s = Some s"
  by (simp add: for_range.simps)

lemma for_range_step [exec_simps]:
  "a < b \<Longrightarrow> for_range a b body s = Option.bind (body a s) (for_range (Suc a) b body)"
  by (simp add: for_range.simps)

text \<open>Total correctness of a loop: an invariant that the body keeps, without failing.\<close>

lemma for_range_inv:
  assumes "I a s" and "a \<le> b"
    and "\<And>j t. a \<le> j \<Longrightarrow> j < b \<Longrightarrow> I j t \<Longrightarrow> \<exists>t'. body j t = Some t' \<and> I (Suc j) t'"
  shows "\<exists>t. for_range a b body s = Some t \<and> I b t"
  using assms
proof (induction "b - a" arbitrary: a s)
  case 0
  then show ?case by auto
next
  case (Suc d)
  then have "a < b" by simp
  with Suc.prems obtain s' where s': "body a s = Some s'" "I (Suc a) s'" by blast
  have "\<exists>t. for_range (Suc a) b body s' = Some t \<and> I b t"
    using Suc.hyps(2) \<open>a < b\<close> s'(2) Suc.prems(3) by (intro Suc.hyps(1)) auto
  with s' \<open>a < b\<close> show ?case by (simp add: for_range_step)
qed

lemma for_range_cong:
  assumes "\<And>j t. a \<le> j \<Longrightarrow> j < b \<Longrightarrow> body j t = body' j t"
  shows "for_range a b body s = for_range a b body' s"
  using assms
proof (induction "b - a" arbitrary: a s)
  case 0
  then show ?case by simp
next
  case (Suc d)
  then have "a < b" by simp
  have "for_range (Suc a) b body t = for_range (Suc a) b body' t" for t
    using Suc.hyps(2) \<open>a < b\<close> Suc.prems by (intro Suc.hyps(1)) auto
  with \<open>a < b\<close> Suc.prems show ?case by (auto simp: for_range_step intro!: Option.bind_cong)
qed

lemma for_range_sim:
  assumes "R a s t" "a \<le> b"
    and "\<And>j s t. a \<le> j \<Longrightarrow> j < b \<Longrightarrow> R j s t \<Longrightarrow> rel_option (R (Suc j)) (f j s) (g j t)"
  shows "rel_option (R b) (for_range a b f s) (for_range a b g t)"
  using assms
proof (induction "b - a" arbitrary: a s t)
  case 0
  then show ?case by simp
next
  case (Suc d)
  then have "a < b" by simp
  have "rel_option (R (Suc a)) (f a s) (g a t)" using Suc.prems \<open>a < b\<close> by simp
  then have "rel_option (R b) (Option.bind (f a s) (for_range (Suc a) b f)) (Option.bind (g a t) (for_range (Suc a) b g))"
    by (rule option.rel_cases) (use Suc.hyps(2) \<open>a < b\<close> Suc.prems(3) in \<open>auto intro!: Suc.hyps(1)\<close>)
  with \<open>a < b\<close> show ?case by (simp add: for_range_step)
qed

subsection \<open>Regions of a buffer\<close>

definition inb :: "'a list \<Rightarrow> int \<Rightarrow> nat \<Rightarrow> bool" where
  "inb m p n \<longleftrightarrow> 0 \<le> p \<and> p + int n \<le> int (length m)"

definition blit :: "'a list \<Rightarrow> int \<Rightarrow> nat \<Rightarrow> (nat \<Rightarrow> 'a) \<Rightarrow> 'a list" where
  "blit m p n g = map (\<lambda>a. if p \<le> int a \<and> int a < p + int n then g (nat (int a - p)) else m ! a) [0..<length m]"

lemma blit_length [simp]: "length (blit m p n g) = length m"
  by (simp add: blit_def)

lemma blit_nth: "a < length m \<Longrightarrow>
    blit m p n g ! a = (if p \<le> int a \<and> int a < p + int n then g (nat (int a - p)) else m ! a)"
  by (simp add: blit_def)

lemma blit_0 [simp]: "blit m p 0 g = m"
  by (rule nth_equalityI) (auto simp: blit_nth)

lemma inb_blit [simp]: "inb (blit m p n g) q k = inb m q k"
  by (simp add: inb_def)

lemma ld_inb: "inb m p n \<Longrightarrow> j < n \<Longrightarrow> ld m (p + int j) = Some (m ! nat (p + int j))"
  by (simp add: inb_def ld_def)

lemma ld_blit_in: "inb m p n \<Longrightarrow> p \<le> q \<Longrightarrow> q < p + int n \<Longrightarrow> ld (blit m p n g) q = Some (g (nat (q - p)))"
  by (auto simp: inb_def ld_def blit_nth)

lemma ld_blit_out: "q < p \<or> p + int n \<le> q \<Longrightarrow> ld (blit m p n g) q = ld m q"
  by (auto simp: ld_def blit_nth)

lemma st_blit: "inb m p n \<Longrightarrow> j < n \<Longrightarrow> v = g j \<Longrightarrow> st (blit m p j g) (p + int j) v = Some (blit m p (Suc j) g)"
proof -
  assume *: "inb m p n" "j < n" "v = g j"
  have "(blit m p j g)[nat (p + int j) := v] = blit m p (Suc j) g"
  proof (rule nth_equalityI)
    fix a assume "a < length ((blit m p j g)[nat (p + int j) := v])"
    with * show "(blit m p j g)[nat (p + int j) := v] ! a = blit m p (Suc j) g ! a"
      by (cases "int a = p + int j") (auto simp: nth_list_update blit_nth inb_def)
  qed simp
  with * show ?thesis by (simp add: st_def inb_def)
qed

lemma for_range_blit:
  assumes "\<And>j. j < n \<Longrightarrow> body j (blit m p j g) = Some (blit m p (Suc j) g)"
  shows "for_range 0 n body m = Some (blit m p n g)"
proof -
  have "\<exists>t. for_range 0 n body m = Some t \<and> t = blit m p n g"
    by (rule for_range_inv) (auto simp: assms)
  then show ?thesis by simp
qed

lemma blit_cong: "(\<And>j. j < n \<Longrightarrow> g j = h j) \<Longrightarrow> blit m p n g = blit m p n h"
  by (rule nth_equalityI) (auto simp: blit_nth)

lemma blit_blit:
  "blit (blit m p n g) (p + int n) k h = blit m p (n + k) (\<lambda>j. if j < n then g j else h (j - n))"
  by (rule nth_equalityI) (auto simp: blit_nth nat_diff_distrib' intro!: arg_cong[where f = h])

lemma blit_extend: "blit (blit m p n g) (p + int n) k (\<lambda>j. g (j + n)) = blit m p (n + k) g"
  unfolding blit_blit by (rule blit_cong) simp

lemma blit_same: "inb m p n \<Longrightarrow> (\<And>j. j < n \<Longrightarrow> g j = m ! nat (p + int j)) \<Longrightarrow> blit m p n g = m"
  by (rule nth_equalityI) (auto simp: blit_nth inb_def)

text \<open>A loop that maps one region onto another, which may be the same one.\<close>

lemma map_loop:
  assumes "inb m src n" "inb m dst n" "dst \<le> src \<or> src + int n \<le> dst"
  shows "for_range 0 n (\<lambda>i m. do { x \<leftarrow> ld m (src + int i); st m (dst + int i) (f x) }) m =
    Some (blit m dst n (\<lambda>j. f (m ! nat (src + int j))))"
proof (rule for_range_blit)
  fix j assume "j < n"
  then have "ld (blit m dst j (\<lambda>j. f (m ! nat (src + int j)))) (src + int j) = Some (m ! nat (src + int j))"
    using assms by (subst ld_blit_out) (auto simp: ld_inb)
  with \<open>j < n\<close> assms(2) show "do { x \<leftarrow> ld (blit m dst j (\<lambda>j. f (m ! nat (src + int j)))) (src + int j);
      st (blit m dst j (\<lambda>j. f (m ! nat (src + int j)))) (dst + int j) (f x) } =
    Some (blit m dst (Suc j) (\<lambda>j. f (m ! nat (src + int j))))"
    by (simp add: st_blit)
qed

lemma same_block:
  fixes m x j :: int
  assumes "0 < m" "x \<le> j" "j < x div m * m + m"
  shows "j div m = x div m"
proof (rule antisym)
  have "j div m \<le> (x div m * m + (m - 1)) div m" using assms by (intro zdiv_mono1) auto
  also have "\<dots> = x div m" using assms(1) by (simp add: div_pos_pos_trivial)
  finally show "j div m \<le> x div m" .
qed (use assms in \<open>simp add: zdiv_mono1\<close>)

text \<open>Positions of bits in bytes.\<close>

lemma in_byte: "k < 8 \<Longrightarrow> (8 * j + k) div 8 = j" "k < 8 \<Longrightarrow> (8 * j + k) mod 8 = k" for j k :: nat
  by simp_all

lemma which_byte:
  "k = 8 * q + r \<Longrightarrow> r < 8 \<Longrightarrow> k < 32 \<Longrightarrow> k < 8 \<and> q = 0 \<and> r = k \<or> 8 \<le> k \<and> k < 16 \<and> q = 1 \<and> r = k - 8 \<or>
     16 \<le> k \<and> k < 24 \<and> q = 2 \<and> r = k - 16 \<or> 24 \<le> k \<and> q = 3 \<and> r = k - 24" for k q r :: nat
  by presburger

subsection \<open>A block of memory\<close>

definition stored :: "'a list \<Rightarrow> int \<Rightarrow> 'a list \<Rightarrow> bool" where
  "stored mem start bs \<longleftrightarrow> (\<forall>i < length bs. ld mem (start + int i) = Some (bs ! i))"

lemma stored_Nil [simp]: "stored mem start []"
  by (simp add: stored_def)

lemma stored_append: "stored mem start (xs @ ys) \<longleftrightarrow> stored mem start xs \<and> stored mem (start + int (length xs)) ys"
proof -
  have "P i" if "\<forall>i<length xs. P i" "\<forall>i<length ys. P (length xs + i)" "i < length (xs @ ys)" for P i
    using that by (cases "i < length xs") (auto dest: spec[of _ "i - length xs"])
  then have "(\<forall>i<length (xs @ ys). P i) \<longleftrightarrow> (\<forall>i<length xs. P i) \<and> (\<forall>i<length ys. P (length xs + i))" for P
    by auto
  from this[of "\<lambda>i. ld mem (start + int i) = Some ((xs @ ys) ! i)"] show ?thesis
    unfolding stored_def by (simp add: nth_append add.assoc)
qed

lemma stored_middle: "stored (pre @ bs @ post) (int (length pre)) bs"
  by (auto simp: stored_def ld_nat nth_append simp flip: of_nat_add)

lemma stored_nth: "stored mem start bs \<Longrightarrow> i < length bs \<Longrightarrow> 0 \<le> start + int i \<and> start + int i < int (length mem) \<and> mem ! nat (start + int i) = bs ! i"
  by (auto simp: stored_def ld_def split: if_splits dest: spec[of _ i])

end
