(* ===== verification/Color_Cache.thy ===== *)
theory Color_Cache
  imports Prelude
begin

section \<open>The colour cache (src/utils/color_cache_utils.[ch])\<close>

text \<open>
  A hash-indexed array of the most recent colours. \<open>VP8LColorCache\<close> is the C struct, \<open>colors\<close> its
  array, \<open>None\<close> when the pointer is \<open>NULL\<close>; the operations that write through the pointer return
  the changed struct. The encoder replaces a pixel by its cache index when \<open>VP8LColorCacheContains\<close>
  finds it, the decoder looks the index up; the locale \<open>cache_coding\<close> shows that the two stay in
  step, and is interpreted on the code's operations.
\<close>

unbundle bit_operations_syntax

subsection \<open>The operations\<close>

record VP8LColorCache =
  colors :: "u32 list option"
  hash_shift :: int
  hash_bits :: int

definition kHashMul :: u32 where
  "kHashMul = 0x1e35a7bd"

definition VP8LHashPix :: "u32 \<Rightarrow> int \<Rightarrow> int" where
  "VP8LHashPix argb shift = sint (drop_bit (nat shift) (argb * kHashMul))"

definition VP8LColorCacheLookup :: "VP8LColorCache \<Rightarrow> u32 \<Rightarrow> u32 option" where
  "VP8LColorCacheLookup cc key = do {
     require (drop_bit (nat (hash_bits cc)) key = 0);
     a \<leftarrow> colors cc;
     ld a (uint key) }"

definition VP8LColorCacheSet :: "VP8LColorCache \<Rightarrow> u32 \<Rightarrow> u32 \<Rightarrow> VP8LColorCache option" where
  "VP8LColorCacheSet cc key argb = do {
     require (drop_bit (nat (hash_bits cc)) key = 0);
     a \<leftarrow> colors cc;
     a \<leftarrow> st a (uint key) argb;
     Some (cc\<lparr>colors := Some a\<rparr>) }"

definition VP8LColorCacheInsert :: "VP8LColorCache \<Rightarrow> u32 \<Rightarrow> VP8LColorCache option" where
  "VP8LColorCacheInsert cc argb = do {
     let key = VP8LHashPix argb (hash_shift cc);
     a \<leftarrow> colors cc;
     a \<leftarrow> st a key argb;
     Some (cc\<lparr>colors := Some a\<rparr>) }"

definition VP8LColorCacheGetIndex :: "VP8LColorCache \<Rightarrow> u32 \<Rightarrow> int" where
  "VP8LColorCacheGetIndex cc argb = VP8LHashPix argb (hash_shift cc)"

definition VP8LColorCacheContains :: "VP8LColorCache \<Rightarrow> u32 \<Rightarrow> int option" where
  "VP8LColorCacheContains cc argb = do {
     let key = VP8LHashPix argb (hash_shift cc);
     a \<leftarrow> colors cc;
     c \<leftarrow> ld a key;
     Some (if c = argb then key else -1) }"

text \<open>\<open>calloc_ok\<close> tells whether the allocation of so many elements of four bytes succeeds; the
  memory it returns is zero.\<close>

definition VP8LColorCacheInit :: "(nat \<Rightarrow> bool) \<Rightarrow> VP8LColorCache \<Rightarrow> int \<Rightarrow> (int \<times> VP8LColorCache) option" where
  "VP8LColorCacheInit calloc_ok color_cache bits = do {
     let hash_size = push_bit (nat bits) (1 :: int);
     require (bits > 0);
     (if \<not> calloc_ok (nat hash_size) then Some (0, color_cache\<lparr>colors := None\<rparr>)
      else Some (1, color_cache\<lparr>colors := Some (replicate (nat hash_size) 0),
        hash_shift := 32 - bits, hash_bits := bits\<rparr>)) }"

definition VP8LColorCacheClear :: "VP8LColorCache option \<Rightarrow> VP8LColorCache option" where
  "VP8LColorCacheClear color_cache =
     (case color_cache of Some cc \<Rightarrow> Some (cc\<lparr>colors := None\<rparr>) | None \<Rightarrow> None)"

definition VP8LColorCacheCopy :: "VP8LColorCache \<Rightarrow> VP8LColorCache \<Rightarrow> VP8LColorCache option" where
  "VP8LColorCacheCopy src dst = do {
     require (hash_bits src = hash_bits dst);
     s \<leftarrow> colors src;
     d \<leftarrow> colors dst;
     let n = nat (push_bit (nat (hash_bits dst)) (1 :: int));
     require (n \<le> length s \<and> n \<le> length d);
     Some (dst\<lparr>colors := Some (take n s @ drop n d)\<rparr>) }"

subsection \<open>Well-formed caches\<close>

definition cache_ok :: "VP8LColorCache \<Rightarrow> bool" where
  "cache_ok cc \<longleftrightarrow> 0 < hash_bits cc \<and> hash_bits cc < 32 \<and> hash_shift cc = 32 - hash_bits cc \<and>
     (case colors cc of Some a \<Rightarrow> length a = 2 ^ nat (hash_bits cc) | None \<Rightarrow> False)"

lemma cache_okE:
  assumes "cache_ok cc"
  obtains a where "colors cc = Some a" "length a = 2 ^ nat (hash_bits cc)" "0 < hash_bits cc" "hash_bits cc < 32"
    "hash_shift cc = 32 - hash_bits cc"
  using assms by (auto simp: cache_ok_def split: option.splits)

lemma VP8LHashPix_range:
  assumes "0 < h" "h < 32"
  shows "0 \<le> VP8LHashPix x (32 - h)" "VP8LHashPix x (32 - h) < 2 ^ nat h"
    "VP8LHashPix x (32 - h) = uint (drop_bit (nat (32 - h)) (x * kHashMul))"
proof -
  let ?w = "drop_bit (nat (32 - h)) (x * kHashMul)"
  have "uint ?w = uint (x * kHashMul) div 2 ^ nat (32 - h)" by (rule uint_shiftr)
  also have "\<dots> < 2 ^ nat h"
  proof -
    have "2 ^ nat (32 - h) * 2 ^ nat h = (2 ^ 32 :: int)" using assms by (simp flip: power_add nat_add_distrib)
    then show ?thesis using uint_bound(3)[of "x * kHashMul"] by (intro int_div_less) (simp_all add: mult.commute)
  qed
  finally have lt: "uint ?w < 2 ^ nat h" .
  also have "(2 :: int) ^ nat h \<le> 2 ^ 31" using assms by (intro power_increasing) auto
  finally have "sint ?w = uint ?w" by (intro sint_small) simp
  with lt show "0 \<le> VP8LHashPix x (32 - h)" "VP8LHashPix x (32 - h) < 2 ^ nat h"
    "VP8LHashPix x (32 - h) = uint ?w" by (simp_all add: VP8LHashPix_def)
qed


lemma key_ok:
  assumes "cache_ok cc"
  shows "0 \<le> VP8LHashPix x (hash_shift cc)" "VP8LHashPix x (hash_shift cc) < 2 ^ nat (hash_bits cc)"
    "VP8LHashPix x (hash_shift cc) < 2 ^ 31"
proof -
  have h: "0 < hash_bits cc" "hash_bits cc < 32" "hash_shift cc = 32 - hash_bits cc"
    using assms by (auto simp: cache_ok_def)
  from VP8LHashPix_range[OF h(1,2), of x]
  show 1: "0 \<le> VP8LHashPix x (hash_shift cc)" and 2: "VP8LHashPix x (hash_shift cc) < 2 ^ nat (hash_bits cc)"
    by (simp_all add: h(3))
  have "(2 :: int) ^ nat (hash_bits cc) \<le> 2 ^ 31" using h by (intro power_increasing) auto
  with 2 show "VP8LHashPix x (hash_shift cc) < 2 ^ 31" by simp
qed

lemma key_assert:
  assumes "0 \<le> k" "k < 2 ^ n" "k < 2 ^ 31"
  shows "drop_bit n (word_of_int k :: u32) = 0" "uint (word_of_int k :: u32) = k"
proof -
  show u: "uint (word_of_int k :: u32) = k" using assms by (simp add: uint_word_of_int_eq take_bit_int_eq_self)
  have "uint (drop_bit n (word_of_int k :: u32)) = 0"
    unfolding uint_shiftr u using assms by (simp add: div_pos_pos_trivial)
  then show "drop_bit n (word_of_int k :: u32) = 0" by (intro word_uint_eqI) simp
qed

lemma insert_ok:
  assumes "cache_ok cc"
  shows "\<exists>a. colors cc = Some a \<and> VP8LHashPix x (hash_shift cc) < int (length a) \<and>
    VP8LColorCacheInsert cc x = Some (cc\<lparr>colors := Some (a[nat (VP8LHashPix x (hash_shift cc)) := x])\<rparr>)"
  using assms by (elim cache_okE) (use key_ok[OF assms, of x] in \<open>simp add: VP8LColorCacheInsert_def st_def\<close>)

subsection \<open>Coding pixels through a cache\<close>

text \<open>What a client relies on: inserting succeeds and keeps the cache well-formed, a hit gives a key at
  which the decoder finds the pixel. From this alone, an encoder that replaces hits by keys and a
  decoder that looks them up, both inserting every pixel, agree on every stream.\<close>

datatype 'p cached = Hit int | Literal 'p

locale cache_coding =
  fixes wf :: "'c \<Rightarrow> bool"
    and ins :: "'c \<Rightarrow> 'p \<Rightarrow> 'c option"
    and key_of :: "'c \<Rightarrow> 'p \<Rightarrow> int option"
    and get :: "'c \<Rightarrow> int \<Rightarrow> 'p option"
  assumes ins_wf: "wf c \<Longrightarrow> \<exists>c'. ins c x = Some c' \<and> wf c'"
    and key_total: "wf c \<Longrightarrow> \<exists>k. key_of c x = Some k"
    and key_get: "wf c \<Longrightarrow> key_of c x = Some k \<Longrightarrow> 0 \<le> k \<Longrightarrow> get c k = Some x"
begin

fun encode :: "'c \<Rightarrow> 'p list \<Rightarrow> 'p cached list option" where
  "encode c [] = Some []"
| "encode c (x # xs) = do {
     k \<leftarrow> key_of c x;
     c' \<leftarrow> ins c x;
     rest \<leftarrow> encode c' xs;
     Some ((if 0 \<le> k then Hit k else Literal x) # rest) }"

fun decode :: "'c \<Rightarrow> 'p cached list \<Rightarrow> 'p list option" where
  "decode c [] = Some []"
| "decode c (s # ss) = do {
     x \<leftarrow> (case s of Hit k \<Rightarrow> get c k | Literal x \<Rightarrow> Some x);
     c' \<leftarrow> ins c x;
     rest \<leftarrow> decode c' ss;
     Some (x # rest) }"

lemma coding_roundtrip: "wf c \<Longrightarrow> \<exists>ss. encode c xs = Some ss \<and> decode c ss = Some xs"
proof (induction xs arbitrary: c)
  case (Cons x xs)
  obtain k where k: "key_of c x = Some k" using key_total[OF Cons.prems] by blast
  obtain c' where c': "ins c x = Some c'" "wf c'" using ins_wf[OF Cons.prems] by blast
  from Cons.IH[OF c'(2)] obtain ss where "encode c' xs = Some ss" "decode c' ss = Some xs" by blast
  with k c' key_get[OF Cons.prems k] show ?case by auto
qed simp

end

interpretation pixel_cache: cache_coding cache_ok VP8LColorCacheInsert VP8LColorCacheContains
  "\<lambda>cc k. VP8LColorCacheLookup cc (word_of_int k)"
proof unfold_locales
  fix c x assume c: "cache_ok c"
  obtain a where a: "colors c = Some a" "VP8LHashPix x (hash_shift c) < int (length a)"
    "VP8LColorCacheInsert c x = Some (c\<lparr>colors := Some (a[nat (VP8LHashPix x (hash_shift c)) := x])\<rparr>)"
    using insert_ok[OF c] by blast
  with c show "\<exists>c'. VP8LColorCacheInsert c x = Some c' \<and> cache_ok c'" by (auto simp: cache_ok_def)
  show "\<exists>k. VP8LColorCacheContains c x = Some k"
    using a key_ok[OF c, of x] by (simp add: VP8LColorCacheContains_def ld_def Let_def)
  fix k assume "VP8LColorCacheContains c x = Some k" "0 \<le> k"
  then have "k = VP8LHashPix x (hash_shift c)" "a ! nat k = x"
    using a key_ok[OF c, of x] by (auto simp: VP8LColorCacheContains_def ld_def Let_def split: if_splits)
  then show "VP8LColorCacheLookup c (word_of_int k) = Some x"
    using a key_ok[OF c, of x] key_assert[of k "nat (hash_bits c)"]
    by (simp add: VP8LColorCacheLookup_def ld_def)
qed

subsection \<open>Properties\<close>




end
