(* ===== verification/Pixels.thy ===== *)
theory Pixels
  imports Prelude "HOL-Library.Signed_Division"
begin

section \<open>ARGB pixels (src/dsp/lossless_common.h, the pixel helpers of src/dsp/lossless.c)\<close>

text \<open>
  A pixel is a \<open>uint32_t\<close> of four 8-bit channels. The source adds, subtracts and averages all
  four channels at once with masked 32-bit arithmetic; \<open>chan k\<close> reads channel \<open>k\<close> (0 blue,
  1 green, 2 red, 3 alpha), and the lemmas here show that the packed operations act on every
  channel separately, modulo 256, with no carry from one channel into the next.
\<close>

unbundle bit_operations_syntax

subsection \<open>Channels\<close>


definition chan :: "nat \<Rightarrow> u32 \<Rightarrow> u8" where
  "chan k x = ucast (drop_bit (8 * k) x)"

lemma bit_chan: "bit (chan k x) n \<longleftrightarrow> n < 8 \<and> bit x (8 * k + n)"
  by (simp add: chan_def bit_simps)

lemma lt32: "(n::nat) < 32 \<Longrightarrow> \<exists>k m. k < 4 \<and> m < 8 \<and> n = 8 * k + m"
  by presburger

lemma chan_ext: assumes "\<And>k. k < 4 \<Longrightarrow> chan k a = chan k b" shows "a = b"
proof (rule bit_word_eqI)
  fix n assume "n < LENGTH(32)"
  then obtain k m where "k < 4" "m < 8" "n = 8 * k + m" using lt32[of n] by auto
  with assms[of k] show "bit a n \<longleftrightarrow> bit b n" by (auto simp: bit_chan dest: arg_cong[where f = "\<lambda>w. bit w m"])
qed

lemma less8: "j < 8 \<longleftrightarrow> j = (7::nat) \<or> j = 6 \<or> j = 5 \<or> j = 4 \<or> j = 3 \<or> j = 2 \<or> j = 1 \<or> j = 0" by auto

lemma chan_masked [simp]:
  "chan 0 (x AND 0xff00ff00) = 0"
  "chan (Suc 0) (x AND 0xff00ff00) = chan (Suc 0) x"
  "chan 2 (x AND 0xff00ff00) = 0"
  "chan 3 (x AND 0xff00ff00) = chan 3 x"
  "chan 0 (x AND 0x00ff00ff) = chan 0 x"
  "chan (Suc 0) (x AND 0x00ff00ff) = 0"
  "chan 2 (x AND 0x00ff00ff) = chan 2 x"
  "chan 3 (x AND 0x00ff00ff) = 0"
  by (rule bit_word_eqI; simp add: bit_chan bit_simps less8; elim disjE; simp add: bit_simps)+

lemma chan_or: "chan k (x OR y) = chan k x OR chan k y"
  by (rule bit_word_eqI) (simp add: bit_chan bit_simps)

lemma uint_chan: "k < 4 \<Longrightarrow> uint (chan k x) = (uint x div 2 ^ (8 * k)) mod 256"
  using uint_lt2p[of x]
  by (simp add: chan_def unsigned_ucast_eq unsigned_drop_bit_eq)
    (simp add: take_bit_eq_mod drop_bit_eq_div)

lemma chan_eq_mod: "k < 4 \<Longrightarrow> uint x mod 2 ^ 32 = z mod 2 ^ 32 \<Longrightarrow> uint (chan k x) = (z div 2 ^ (8 * k)) mod 256"
proof -
  assume k: "k < 4" and "uint x mod 2 ^ 32 = z mod 2 ^ 32"
  then have "take_bit 32 (uint x) = take_bit 32 z" by (simp add: take_bit_eq_mod)
  then have "take_bit 8 (drop_bit (8 * k) (take_bit 32 (uint x))) = take_bit 8 (drop_bit (8 * k) (take_bit 32 z))" by simp
  moreover have "8 \<le> 32 - 8 * k" using k by auto
  ultimately have "take_bit 8 (drop_bit (8 * k) (uint x)) = take_bit 8 (drop_bit (8 * k) z)"
    by (simp add: drop_bit_take_bit min_def)
  then show ?thesis using k by (simp add: uint_chan take_bit_eq_mod drop_bit_eq_div)
qed

lemma chan_add:
  assumes "k < 4" "uint x mod 2 ^ (8 * k) + uint y mod 2 ^ (8 * k) < 2 ^ (8 * k)"
  shows "chan k (x + y) = chan k x + chan k y"
proof (rule word_uint_eqI)
  have "(uint x + uint y) div 2 ^ (8 * k) = uint x div 2 ^ (8 * k) + uint y div 2 ^ (8 * k)"
    using assms(2) by (subst div_add1_eq) (simp add: div_pos_pos_trivial)
  moreover have "uint (chan k (x + y)) = ((uint x + uint y) div 2 ^ (8 * k)) mod 256"
    by (rule chan_eq_mod[OF assms(1)]) (simp add: uint_word_ariths)
  ultimately show "uint (chan k (x + y)) = uint (chan k x + chan k y)"
    unfolding uint_word_ariths uint_chan[OF assms(1)] by (simp add: mod_add_eq)
qed

lemma chan_sub:
  assumes "k < 4" "uint y mod 2 ^ (8 * k) \<le> uint x mod 2 ^ (8 * k)"
  shows "chan k (x - y) = chan k x - chan k y"
proof (rule word_uint_eqI)
  let ?m = "2 ^ (8 * k) :: int"
  have "uint x - uint y = (uint x mod ?m - uint y mod ?m) + ?m * (uint x div ?m - uint y div ?m)"
    by (simp add: algebra_simps minus_mod_eq_mult_div)
  moreover have "(uint x mod ?m - uint y mod ?m) div ?m = 0"
    using assms(2) by (intro div_pos_pos_trivial) (auto intro: le_less_trans[of _ "uint x mod ?m"])
  ultimately have "(uint x - uint y) div ?m = uint x div ?m - uint y div ?m"
    by simp
  moreover have "uint (chan k (x - y)) = ((uint x - uint y) div ?m) mod 256"
    by (rule chan_eq_mod[OF assms(1)]) (simp add: uint_word_ariths)
  ultimately show "uint (chan k (x - y)) = uint (chan k x - chan k y)"
    unfolding uint_word_ariths uint_chan[OF assms(1)] by (simp add: mod_diff_eq)
qed

lemma uint_and_mod_le: "uint (x AND y) mod 2 ^ n \<le> uint (y::u32) mod 2 ^ n"
  by (simp add: unsigned_and_eq AND_upper2 flip: take_bit_eq_mod)

lemma less4: "k < 4 \<Longrightarrow> k = 0 \<or> k = Suc 0 \<or> k = 2 \<or> k = (3::nat)" by auto


lemma mask_le:
  "uint (x AND 0xff00ff00 :: u32) mod 2 ^ (8 * Suc 0) \<le> 0"
  "uint (x AND 0xff00ff00 :: u32) mod 2 ^ (8 * 3) \<le> 0xff00"
  "uint (x AND 0x00ff00ff :: u32) mod 2 ^ (8 * 0) \<le> 0"
  "uint (x AND 0x00ff00ff :: u32) mod 2 ^ (8 * 2) \<le> 0xff"
  using uint_and_mod_le[of x "0xff00ff00" 8] uint_and_mod_le[of x "0xff00ff00" 24]
    uint_and_mod_le[of x "0x00ff00ff" 16] by simp_all

lemma chan_add_le:
  assumes "k < 4" "uint x mod 2 ^ (8 * k) \<le> c" "uint y mod 2 ^ (8 * k) \<le> d" "c + d < 2 ^ (8 * k)"
  shows "chan k (x + y) = chan k x + chan k y"
  using assms by (intro chan_add) linarith+

lemma chan_guard:
  assumes "k < 4" "uint x mod 2 ^ (8 * k) \<le> c" "uint y mod 2 ^ (8 * k) \<le> c"
    "c \<le> uint g mod 2 ^ (8 * k)" "uint g mod 2 ^ (8 * k) + c < 2 ^ (8 * k)"
  shows "chan k (g + x - y) = chan k g + chan k x - chan k y"
proof -
  let ?m = "2 ^ (8 * k) :: int"
  have dvd: "?m dvd 2 ^ 32" using assms(1) by (intro le_imp_power_dvd) simp
  have "uint (g + x) mod ?m = (uint g + uint x) mod ?m"
    unfolding uint_word_ariths by (simp add: mod_mod_cancel[OF dvd, simplified])
  also have "\<dots> = (uint g mod ?m + uint x mod ?m) mod ?m"
    by (simp only: mod_add_eq)
  also have "\<dots> = uint g mod ?m + uint x mod ?m"
    using assms(2,5) by (intro mod_pos_pos_trivial add_nonneg_nonneg) auto
  finally have "uint y mod ?m \<le> uint (g + x) mod ?m"
    using assms(3,4) by (simp add: add_increasing2 order_trans[OF assms(3)])
  then have "chan k (g + x - y) = chan k (g + x) - chan k y" by (rule chan_sub[OF assms(1)])
  also have "chan k (g + x) = chan k g + chan k x" using assms by (intro chan_add) linarith+
  finally show ?thesis .
qed

lemma chan_guards [simp]:
  "chan (Suc 0) 0x00ff00ff = 0" "chan 3 0x00ff00ff = 0" "chan 0 0xff00ff00 = 0" "chan 2 0xff00ff00 = 0"
  by (simp_all add: chan_def)

subsection \<open>Pixel sums and differences\<close>

definition VP8LAddPixels :: "u32 \<Rightarrow> u32 \<Rightarrow> u32" where
  "VP8LAddPixels a b =
     (let alpha_and_green = (a AND 0xff00ff00) + (b AND 0xff00ff00);
          red_and_blue = (a AND 0x00ff00ff) + (b AND 0x00ff00ff)
      in (alpha_and_green AND 0xff00ff00) OR (red_and_blue AND 0x00ff00ff))"

definition VP8LSubPixels :: "u32 \<Rightarrow> u32 \<Rightarrow> u32" where
  "VP8LSubPixels a b =
     (let alpha_and_green = 0x00ff00ff + (a AND 0xff00ff00) - (b AND 0xff00ff00);
          red_and_blue = 0xff00ff00 + (a AND 0x00ff00ff) - (b AND 0x00ff00ff)
      in (alpha_and_green AND 0xff00ff00) OR (red_and_blue AND 0x00ff00ff))"

lemma chan_AddPixels: "k < 4 \<Longrightarrow> chan k (VP8LAddPixels a b) = chan k a + chan k b"
proof -
  assume "k < 4"
  note l1 = chan_add_le[OF _ mask_le(1)[of a] mask_le(1)[of b], simplified]
  note l3 = chan_add_le[OF _ mask_le(2)[of a] mask_le(2)[of b], simplified]
  note l0 = chan_add_le[OF _ mask_le(3)[of a] mask_le(3)[of b], simplified]
  note l2 = chan_add_le[OF _ mask_le(4)[of a] mask_le(4)[of b], simplified]
  from less4[OF \<open>k < 4\<close>] show ?thesis
    by (elim disjE) (simp_all add: VP8LAddPixels_def Let_def chan_or l0 l1 l2 l3)
qed

lemma chan_SubPixels: "k < 4 \<Longrightarrow> chan k (VP8LSubPixels a b) = chan k a - chan k b"
proof -
  assume "k < 4"
  note l1 = chan_guard[OF _ mask_le(1)[of a] mask_le(1)[of b], of "0x00ff00ff", simplified]
  note l3 = chan_guard[OF _ mask_le(2)[of a] mask_le(2)[of b], of "0x00ff00ff", simplified]
  note l0 = chan_guard[OF _ mask_le(3)[of a] mask_le(3)[of b], of "0xff00ff00", simplified]
  note l2 = chan_guard[OF _ mask_le(4)[of a] mask_le(4)[of b], of "0xff00ff00", simplified]
  from less4[OF \<open>k < 4\<close>] show ?thesis
    by (elim disjE) (simp_all add: VP8LSubPixels_def Let_def chan_or l0 l1 l2 l3)
qed

lemma AddPixels_SubPixels: "VP8LAddPixels (VP8LSubPixels a b) b = a"
  by (rule chan_ext) (simp add: chan_AddPixels chan_SubPixels)
lemma nocarry:
  assumes "k \<le> 4" "\<And>j. j < k \<Longrightarrow> uint (chan j x) + uint (chan j y) < 256"
  shows "uint x mod 2 ^ (8 * k) + uint y mod 2 ^ (8 * k) < 2 ^ (8 * k)"
  using assms
proof (induction k)
  case 0
  then show ?case by simp
next
  case (Suc k)
  have split: "uint z mod 2 ^ (8 * Suc k) = uint z mod 2 ^ (8 * k) + 2 ^ (8 * k) * uint (chan k z)" for z
    using Suc.prems(1) mod_mult2_eq'[of "uint z" "2 ^ (8 * k)" 256] by (simp add: uint_chan power_add mult.commute)
  have "2 ^ (8 * k) * (uint (chan k x) + uint (chan k y)) \<le> 2 ^ (8 * k) * (255::int)"
    using Suc.prems(2)[of k] by (intro mult_left_mono) auto
  moreover have "uint x mod 2 ^ (8 * k) + uint y mod 2 ^ (8 * k) < 2 ^ (8 * k)"
    using Suc by auto
  ultimately show ?case unfolding split by (simp add: algebra_simps power_add)
qed

lemma plus_and_xor: "x + y = 2 * (x AND y) + (x XOR y)" for x y :: int
proof -
  have "x + y = (x OR y) + (x AND y)" using plus_and_or[of x y] by simp
  moreover have "x OR y = (x XOR y) + (x AND y)"
    by (subst disjunctive_add) (auto intro!: bit_eqI simp: bit_simps)
  ultimately show ?thesis by simp
qed

definition Average2 :: "u32 \<Rightarrow> u32 \<Rightarrow> u32" where
  "Average2 a0 a1 = drop_bit 1 ((a0 XOR a1) AND 0xfefefefe) + (a0 AND a1)"

lemma uint_average8: "uint (drop_bit 1 (x XOR y) :: u8) + uint (x AND y) = (uint x + uint y) div 2" for x y :: u8
proof -
  have half: "z div 2 = drop_bit 1 z" for z :: int by (simp add: drop_bit_Suc)
  have "(uint x XOR uint y) div 2 = drop_bit 1 (uint x XOR uint y)" by (rule half)
  also have "\<dots> = uint (drop_bit 1 (x XOR y))" by (simp add: unsigned_drop_bit_eq unsigned_xor_eq)
  finally show ?thesis unfolding plus_and_xor[of "uint x" "uint y"]
    by (simp add: unsigned_and_eq)
qed

lemma chan_half: "k < 4 \<Longrightarrow> chan k (drop_bit 1 (z AND 0xfefefefe)) = drop_bit 1 (chan k z)"
  apply (drule less4)
  apply (rule bit_word_eqI) apply (simp add: bit_chan bit_simps less8) 
  apply (elim disjE; simp add: bit_simps) done

lemma chan_and: "chan k (x AND y) = chan k x AND chan k y"
  by (rule bit_word_eqI) (auto simp: bit_chan bit_simps)
lemma chan_xor: "chan k (x XOR y) = chan k x XOR chan k y"
  by (rule bit_word_eqI) (auto simp: bit_chan bit_simps)

lemma chan_Average2:
  assumes "k < 4" shows "uint (chan k (Average2 a b)) = (uint (chan k a) + uint (chan k b)) div 2"
proof -
  define x where "x = drop_bit 1 ((a XOR b) AND 0xfefefefe)"
  have sum: "uint (chan j x) + uint (chan j (a AND b)) = (uint (chan j a) + uint (chan j b)) div 2" if "j < 4" for j
    using that unfolding x_def by (simp only: chan_half chan_and chan_xor uint_average8)
  have lt: "(uint (chan j a) + uint (chan j b)) div 2 < 256" for j
    using uint_bound(1)[of "chan j a"] uint_bound(1)[of "chan j b"] by simp
  have "chan k (x + (a AND b)) = chan k x + chan k (a AND b)"
    using assms by (intro chan_add nocarry) (auto simp: sum lt)
  then show ?thesis using sum[OF assms] lt[of k]
    unfolding Average2_def x_def[symmetric] by (simp add: uint_word_ariths)
qed

subsection \<open>Clamped gradients\<close>

definition Average3 :: "u32 \<Rightarrow> u32 \<Rightarrow> u32 \<Rightarrow> u32" where
  "Average3 a0 a1 a2 = Average2 (Average2 a0 a2) a1"

definition Average4 :: "u32 \<Rightarrow> u32 \<Rightarrow> u32 \<Rightarrow> u32 \<Rightarrow> u32" where
  "Average4 a0 a1 a2 a3 = Average2 (Average2 a0 a1) (Average2 a2 a3)"

definition Clip255 :: "u32 \<Rightarrow> u32" where
  "Clip255 a = (if a < 256 then a else drop_bit 24 (NOT a))"

definition AddSubtractComponentFull :: "int \<Rightarrow> int \<Rightarrow> int \<Rightarrow> int" where
  "AddSubtractComponentFull a b c = uint (Clip255 (word_of_int (a + b - c)))"

definition ClampedAddSubtractFull :: "u32 \<Rightarrow> u32 \<Rightarrow> u32 \<Rightarrow> u32" where
  "ClampedAddSubtractFull c0 c1 c2 =
     (let a = AddSubtractComponentFull (uint (drop_bit 24 c0)) (uint (drop_bit 24 c1)) (uint (drop_bit 24 c2));
          r = AddSubtractComponentFull (uint (drop_bit 16 c0 AND 0xff)) (uint (drop_bit 16 c1 AND 0xff))
                (uint (drop_bit 16 c2 AND 0xff));
          g = AddSubtractComponentFull (uint (drop_bit 8 c0 AND 0xff)) (uint (drop_bit 8 c1 AND 0xff))
                (uint (drop_bit 8 c2 AND 0xff));
          b = AddSubtractComponentFull (uint (c0 AND 0xff)) (uint (c1 AND 0xff)) (uint (c2 AND 0xff))
      in push_bit 24 (word_of_int a) OR word_of_int (push_bit 16 r) OR word_of_int (push_bit 8 g) OR word_of_int b)"

definition AddSubtractComponentHalf :: "int \<Rightarrow> int \<Rightarrow> int" where
  "AddSubtractComponentHalf a b = uint (Clip255 (word_of_int (a + (a - b) sdiv 2)))"

definition ClampedAddSubtractHalf :: "u32 \<Rightarrow> u32 \<Rightarrow> u32 \<Rightarrow> u32" where
  "ClampedAddSubtractHalf c0 c1 c2 =
     (let ave = Average2 c0 c1;
          a = AddSubtractComponentHalf (uint (drop_bit 24 ave)) (uint (drop_bit 24 c2));
          r = AddSubtractComponentHalf (uint (drop_bit 16 ave AND 0xff)) (uint (drop_bit 16 c2 AND 0xff));
          g = AddSubtractComponentHalf (uint (drop_bit 8 ave AND 0xff)) (uint (drop_bit 8 c2 AND 0xff));
          b = AddSubtractComponentHalf (uint (drop_bit 0 ave AND 0xff)) (uint (drop_bit 0 c2 AND 0xff))
      in push_bit 24 (word_of_int a) OR word_of_int (push_bit 16 r) OR word_of_int (push_bit 8 g) OR word_of_int b)"

definition Sub3 :: "int \<Rightarrow> int \<Rightarrow> int \<Rightarrow> int" where
  "Sub3 a b c = (let pb = b - c; pa = a - c in \<bar>pb\<bar> - \<bar>pa\<bar>)"

definition Select :: "u32 \<Rightarrow> u32 \<Rightarrow> u32 \<Rightarrow> u32" where
  "Select a b c =
     (let pa_minus_pb =
            Sub3 (uint (drop_bit 24 a)) (uint (drop_bit 24 b)) (uint (drop_bit 24 c)) +
            Sub3 (uint (drop_bit 16 a AND 0xff)) (uint (drop_bit 16 b AND 0xff)) (uint (drop_bit 16 c AND 0xff)) +
            Sub3 (uint (drop_bit 8 a AND 0xff)) (uint (drop_bit 8 b AND 0xff)) (uint (drop_bit 8 c AND 0xff)) +
            Sub3 (uint (a AND 0xff)) (uint (b AND 0xff)) (uint (c AND 0xff))
      in if pa_minus_pb \<le> 0 then a else b)"

definition clamp255 :: "int \<Rightarrow> int" where
  "clamp255 v = max 0 (min 255 v)"

lemma chan_reads:
  "uint (drop_bit 24 x) = uint (chan 3 x)"
  "uint (drop_bit 16 x AND 0xff) = uint (chan 2 x)"
  "uint (drop_bit 8 x AND 0xff) = uint (chan (Suc 0) x)"
  "uint (x AND 0xff) = uint (chan 0 x)"
proof -
  have "drop_bit 24 x = take_bit 8 (drop_bit 24 x)" by (rule bit_word_eqI) (auto simp: bit_simps dest: bit_imp_le_length)
  then have "uint (drop_bit 24 x) = uint (take_bit 8 (drop_bit 24 x))" by (rule arg_cong)
  then show "uint (drop_bit 24 x) = uint (chan 3 x)"
    by (simp add: chan_def unsigned_ucast_eq unsigned_take_bit_eq)
qed (simp_all add: chan_def unsigned_ucast_eq unsigned_take_bit_eq and_ones)

lemma Clip255_int:
  assumes "- (2 ^ 24) \<le> v" "v < 2 ^ 24"
  shows "uint (Clip255 (word_of_int v)) = clamp255 v"
proof -
  consider "v < 0" | "0 \<le> v" "v < 256" | "256 \<le> v" by linarith
  then show ?thesis
  proof cases
    case 1
    then have "uint (word_of_int v :: u32) = v + 2 ^ 32"
      using assms unfolding uint_word_of_int_eq take_bit_eq_mod
      by (subst mod_add_self2[symmetric]) (subst mod_pos_pos_trivial; simp)
    then show ?thesis using 1 assms
      by (simp add: Clip255_def clamp255_def word_less_def uint_shiftr uint_not)
  next
    case 2
    then have "uint (word_of_int v :: u32) = v" by (simp add: uint_word_of_int_eq take_bit_eq_mod)
    with 2 show ?thesis by (simp add: Clip255_def clamp255_def word_less_def)
  next
    case 3
    then have "uint (word_of_int v :: u32) = v" using assms by (simp add: uint_word_of_int_eq take_bit_eq_mod)
    with 3 assms show ?thesis by (simp add: Clip255_def clamp255_def word_less_def uint_shiftr uint_not)
  qed
qed

lemma chan_pack:
  assumes "a \<in> {0..<256}" "r \<in> {0..<256}" "g \<in> {0..<256}" "b \<in> {0..<256}"
  defines "p \<equiv> push_bit 24 (word_of_int a) OR word_of_int (push_bit 16 r) OR word_of_int (push_bit 8 g) OR word_of_int b"
  shows "uint (chan 3 p) = a" "uint (chan 2 p) = r" "uint (chan (Suc 0) p) = g" "uint (chan 0 p) = b"
proof -
  have byte: "\<exists>w :: u8. x = uint w" if "x \<in> {0..<256}" for x
    using that by (intro exI[of _ "word_of_int x"]) (simp add: uint_word_of_int_eq take_bit_eq_mod)
  obtain a' r' g' b' :: u8 where eq: "a = uint a'" "r = uint r'" "g = uint g'" "b = uint b'"
    using byte assms by meson
  have "chan 3 p = a'" "chan 2 p = r'" "chan (Suc 0) p = g'" "chan 0 p = b'"
    unfolding p_def eq by (rule bit_word_eqI; simp add: bit_chan bit_simps less8; auto simp: bit_simps)+
  then show "uint (chan 3 p) = a" "uint (chan 2 p) = r" "uint (chan (Suc 0) p) = g" "uint (chan 0 p) = b"
    by (simp_all add: eq)
qed


lemma AddSubtractComponentFull_eq:
  assumes "a \<in> {0..<256}" "b \<in> {0..<256}" "c \<in> {0..<256}"
  shows "AddSubtractComponentFull a b c = clamp255 (a + b - c)"
  unfolding AddSubtractComponentFull_def using assms by (intro Clip255_int) auto

lemma AddSubtractComponentHalf_eq:
  assumes "a \<in> {0..<256}" "b \<in> {0..<256}"
  shows "AddSubtractComponentHalf a b = clamp255 (a + (a - b) sdiv 2)"
proof -
  have "\<bar>(a - b) sdiv 2\<bar> \<le> 255"
    using assms by (auto simp: signed_divide_int_def abs_mult abs_sgn_eq)
  then show ?thesis
    unfolding AddSubtractComponentHalf_def using assms by (intro Clip255_int) auto
qed

lemma chan_drop [simp]: "chan 0 (drop_bit 8 x) = chan (Suc 0) x" "chan 0 (drop_bit 16 x) = chan 2 x"
  by (simp_all add: chan_def)

lemma clamp255_range [simp]: "0 \<le> clamp255 v" "clamp255 v < 256" "clamp255 v \<in> {0..<256}"
  by (auto simp: clamp255_def)

lemma chan_range [simp]: "uint (chan k x) \<in> {0..<256}"
  using uint_bound(1)[of "chan k x"] by simp

theorem ClampedAddSubtractFull_correct:
  assumes "k < 4"
  shows "uint (chan k (ClampedAddSubtractFull c0 c1 c2)) =
    clamp255 (uint (chan k c0) + uint (chan k c1) - uint (chan k c2))"
  using less4[OF assms]
  by (elim disjE) (simp_all add: ClampedAddSubtractFull_def Let_def chan_reads AddSubtractComponentFull_eq chan_pack del: atLeastLessThan_iff)

theorem ClampedAddSubtractHalf_correct:
  assumes "k < 4"
  shows "uint (chan k (ClampedAddSubtractHalf c0 c1 c2)) =
    (let ave = (uint (chan k c0) + uint (chan k c1)) div 2 in clamp255 (ave + (ave - uint (chan k c2)) sdiv 2))"
  using less4[OF assms] 
  by (elim disjE) (simp_all add: ClampedAddSubtractHalf_def Let_def chan_reads AddSubtractComponentHalf_eq chan_pack
    chan_Average2[symmetric] del: atLeastLessThan_iff)

end
