(* ===== verification/Predictors.thy ===== *)
theory Predictors
  imports Pixels
begin

section \<open>Spatial prediction (src/dsp/lossless.c, src/dsp/lossless_enc.c)\<close>

text \<open>
  The fourteen one-pixel predictors, the decoder's row functions that add a prediction to a
  residual (\<open>PredictorAdd\<close>), the encoder's that subtract it (\<open>PredictorSub\<close>), the two dispatch
  tables, and the tile-by-tile inverse transform of an image.

  Pointers are positions in one pixel memory, so that the rows \<open>in\<close>, \<open>upper\<close> and \<open>out\<close> may lie
  in one buffer, as they do when \<open>VP8LInverseTransform\<close> works in place.
\<close>

unbundle bit_operations_syntax

type_synonym VP8LPredictorFunc = "u32 list \<Rightarrow> int \<Rightarrow> int \<Rightarrow> u32 option"
type_synonym VP8LPredictorAddSubFunc = "u32 list \<Rightarrow> int \<Rightarrow> int \<Rightarrow> int \<Rightarrow> int \<Rightarrow> u32 list option"

definition ARGB_BLACK :: u32 where
  "ARGB_BLACK = 0xff000000"

subsection \<open>The predictors\<close>

definition VP8LPredictor0 :: VP8LPredictorFunc where
  "VP8LPredictor0 m left tp = Some ARGB_BLACK"

definition VP8LPredictor1 :: VP8LPredictorFunc where
  "VP8LPredictor1 m left tp = ld m left"

definition VP8LPredictor2 :: VP8LPredictorFunc where
  "VP8LPredictor2 m left tp = ld m tp"

definition VP8LPredictor3 :: VP8LPredictorFunc where
  "VP8LPredictor3 m left tp = ld m (tp + 1)"

definition VP8LPredictor4 :: VP8LPredictorFunc where
  "VP8LPredictor4 m left tp = ld m (tp - 1)"

definition VP8LPredictor5 :: VP8LPredictorFunc where
  "VP8LPredictor5 m left tp = do { l \<leftarrow> ld m left; t \<leftarrow> ld m tp; tr \<leftarrow> ld m (tp + 1); Some (Average3 l t tr) }"

definition VP8LPredictor6 :: VP8LPredictorFunc where
  "VP8LPredictor6 m left tp = do { l \<leftarrow> ld m left; tl \<leftarrow> ld m (tp - 1); Some (Average2 l tl) }"

definition VP8LPredictor7 :: VP8LPredictorFunc where
  "VP8LPredictor7 m left tp = do { l \<leftarrow> ld m left; t \<leftarrow> ld m tp; Some (Average2 l t) }"

definition VP8LPredictor8 :: VP8LPredictorFunc where
  "VP8LPredictor8 m left tp = do { tl \<leftarrow> ld m (tp - 1); t \<leftarrow> ld m tp; Some (Average2 tl t) }"

definition VP8LPredictor9 :: VP8LPredictorFunc where
  "VP8LPredictor9 m left tp = do { t \<leftarrow> ld m tp; tr \<leftarrow> ld m (tp + 1); Some (Average2 t tr) }"

definition VP8LPredictor10 :: VP8LPredictorFunc where
  "VP8LPredictor10 m left tp = do { l \<leftarrow> ld m left; tl \<leftarrow> ld m (tp - 1); t \<leftarrow> ld m tp; tr \<leftarrow> ld m (tp + 1); Some (Average4 l tl t tr) }"

definition VP8LPredictor11 :: VP8LPredictorFunc where
  "VP8LPredictor11 m left tp = do { t \<leftarrow> ld m tp; l \<leftarrow> ld m left; tl \<leftarrow> ld m (tp - 1); Some (Select t l tl) }"

definition VP8LPredictor12 :: VP8LPredictorFunc where
  "VP8LPredictor12 m left tp = do { l \<leftarrow> ld m left; t \<leftarrow> ld m tp; tl \<leftarrow> ld m (tp - 1); Some (ClampedAddSubtractFull l t tl) }"

definition VP8LPredictor13 :: VP8LPredictorFunc where
  "VP8LPredictor13 m left tp = do { l \<leftarrow> ld m left; t \<leftarrow> ld m tp; tl \<leftarrow> ld m (tp - 1); Some (ClampedAddSubtractHalf l t tl) }"

definition VP8LPredictors :: "VP8LPredictorFunc list" where
  "VP8LPredictors =
     [VP8LPredictor0, VP8LPredictor1, VP8LPredictor2, VP8LPredictor3, VP8LPredictor4, VP8LPredictor5, VP8LPredictor6, VP8LPredictor7, VP8LPredictor8, VP8LPredictor9, VP8LPredictor10, VP8LPredictor11, VP8LPredictor12, VP8LPredictor13, VP8LPredictor0, VP8LPredictor0]"

subsection \<open>Adding a prediction to a row of residuals\<close>

definition PredictorAdd0 :: VP8LPredictorAddSubFunc where
  "PredictorAdd0 m inp upper num_pixels out =
     for_range 0 (nat num_pixels)
       (\<lambda>x m. do { v \<leftarrow> ld m (inp + int x); st m (out + int x) (VP8LAddPixels v ARGB_BLACK) }) m"

definition PredictorAdd1 :: VP8LPredictorAddSubFunc where
  "PredictorAdd1 m inp upper num_pixels out = do {
     left \<leftarrow> ld m (out - 1);
     (m, left) \<leftarrow> for_range 0 (nat num_pixels)
       (\<lambda>i (m, left). do {
          v \<leftarrow> ld m (inp + int i);
          let left = VP8LAddPixels v left;
          m \<leftarrow> st m (out + int i) left;
          Some (m, left) }) (m, left);
     Some m }"

definition GENERATE_PREDICTOR_ADD :: "VP8LPredictorFunc \<Rightarrow> VP8LPredictorAddSubFunc" where
  "GENERATE_PREDICTOR_ADD PREDICTOR m inp upper num_pixels out =
     for_range 0 (nat num_pixels)
       (\<lambda>x m. do {
          pred \<leftarrow> PREDICTOR m (out + int x - 1) (upper + int x);
          v \<leftarrow> ld m (inp + int x);
          st m (out + int x) (VP8LAddPixels v pred) }) m"

definition PredictorAdd2 :: VP8LPredictorAddSubFunc where
  "PredictorAdd2 = GENERATE_PREDICTOR_ADD VP8LPredictor2"

definition PredictorAdd3 :: VP8LPredictorAddSubFunc where
  "PredictorAdd3 = GENERATE_PREDICTOR_ADD VP8LPredictor3"

definition PredictorAdd4 :: VP8LPredictorAddSubFunc where
  "PredictorAdd4 = GENERATE_PREDICTOR_ADD VP8LPredictor4"

definition PredictorAdd5 :: VP8LPredictorAddSubFunc where
  "PredictorAdd5 = GENERATE_PREDICTOR_ADD VP8LPredictor5"

definition PredictorAdd6 :: VP8LPredictorAddSubFunc where
  "PredictorAdd6 = GENERATE_PREDICTOR_ADD VP8LPredictor6"

definition PredictorAdd7 :: VP8LPredictorAddSubFunc where
  "PredictorAdd7 = GENERATE_PREDICTOR_ADD VP8LPredictor7"

definition PredictorAdd8 :: VP8LPredictorAddSubFunc where
  "PredictorAdd8 = GENERATE_PREDICTOR_ADD VP8LPredictor8"

definition PredictorAdd9 :: VP8LPredictorAddSubFunc where
  "PredictorAdd9 = GENERATE_PREDICTOR_ADD VP8LPredictor9"

definition PredictorAdd10 :: VP8LPredictorAddSubFunc where
  "PredictorAdd10 = GENERATE_PREDICTOR_ADD VP8LPredictor10"

definition PredictorAdd11 :: VP8LPredictorAddSubFunc where
  "PredictorAdd11 = GENERATE_PREDICTOR_ADD VP8LPredictor11"

definition PredictorAdd12 :: VP8LPredictorAddSubFunc where
  "PredictorAdd12 = GENERATE_PREDICTOR_ADD VP8LPredictor12"

definition PredictorAdd13 :: VP8LPredictorAddSubFunc where
  "PredictorAdd13 = GENERATE_PREDICTOR_ADD VP8LPredictor13"

definition VP8LPredictorsAdd :: "VP8LPredictorAddSubFunc list" where
  "VP8LPredictorsAdd =
     [PredictorAdd0, PredictorAdd1, PredictorAdd2, PredictorAdd3, PredictorAdd4, PredictorAdd5, PredictorAdd6, PredictorAdd7, PredictorAdd8, PredictorAdd9, PredictorAdd10, PredictorAdd11, PredictorAdd12, PredictorAdd13, PredictorAdd0, PredictorAdd0]"

subsection \<open>Subtracting a prediction from a row of pixels\<close>

definition PredictorSub0 :: VP8LPredictorAddSubFunc where
  "PredictorSub0 m inp upper num_pixels out =
     for_range 0 (nat num_pixels)
       (\<lambda>i m. do { v \<leftarrow> ld m (inp + int i); st m (out + int i) (VP8LSubPixels v ARGB_BLACK) }) m"

definition PredictorSub1 :: VP8LPredictorAddSubFunc where
  "PredictorSub1 m inp upper num_pixels out =
     for_range 0 (nat num_pixels)
       (\<lambda>i m. do {
          v \<leftarrow> ld m (inp + int i);
          left \<leftarrow> ld m (inp + int i - 1);
          st m (out + int i) (VP8LSubPixels v left) }) m"

definition GENERATE_PREDICTOR_SUB :: "VP8LPredictorFunc \<Rightarrow> VP8LPredictorAddSubFunc" where
  "GENERATE_PREDICTOR_SUB PREDICTOR m inp upper num_pixels out =
     for_range 0 (nat num_pixels)
       (\<lambda>x m. do {
          pred \<leftarrow> PREDICTOR m (inp + int x - 1) (upper + int x);
          v \<leftarrow> ld m (inp + int x);
          st m (out + int x) (VP8LSubPixels v pred) }) m"

definition PredictorSub2 :: VP8LPredictorAddSubFunc where
  "PredictorSub2 = GENERATE_PREDICTOR_SUB VP8LPredictor2"

definition PredictorSub3 :: VP8LPredictorAddSubFunc where
  "PredictorSub3 = GENERATE_PREDICTOR_SUB VP8LPredictor3"

definition PredictorSub4 :: VP8LPredictorAddSubFunc where
  "PredictorSub4 = GENERATE_PREDICTOR_SUB VP8LPredictor4"

definition PredictorSub5 :: VP8LPredictorAddSubFunc where
  "PredictorSub5 = GENERATE_PREDICTOR_SUB VP8LPredictor5"

definition PredictorSub6 :: VP8LPredictorAddSubFunc where
  "PredictorSub6 = GENERATE_PREDICTOR_SUB VP8LPredictor6"

definition PredictorSub7 :: VP8LPredictorAddSubFunc where
  "PredictorSub7 = GENERATE_PREDICTOR_SUB VP8LPredictor7"

definition PredictorSub8 :: VP8LPredictorAddSubFunc where
  "PredictorSub8 = GENERATE_PREDICTOR_SUB VP8LPredictor8"

definition PredictorSub9 :: VP8LPredictorAddSubFunc where
  "PredictorSub9 = GENERATE_PREDICTOR_SUB VP8LPredictor9"

definition PredictorSub10 :: VP8LPredictorAddSubFunc where
  "PredictorSub10 = GENERATE_PREDICTOR_SUB VP8LPredictor10"

definition PredictorSub11 :: VP8LPredictorAddSubFunc where
  "PredictorSub11 = GENERATE_PREDICTOR_SUB VP8LPredictor11"

definition PredictorSub12 :: VP8LPredictorAddSubFunc where
  "PredictorSub12 = GENERATE_PREDICTOR_SUB VP8LPredictor12"

definition PredictorSub13 :: VP8LPredictorAddSubFunc where
  "PredictorSub13 = GENERATE_PREDICTOR_SUB VP8LPredictor13"

definition VP8LPredictorsSub :: "VP8LPredictorAddSubFunc list" where
  "VP8LPredictorsSub =
     [PredictorSub0, PredictorSub1, PredictorSub2, PredictorSub3, PredictorSub4, PredictorSub5, PredictorSub6, PredictorSub7, PredictorSub8, PredictorSub9, PredictorSub10, PredictorSub11, PredictorSub12, PredictorSub13, PredictorSub0, PredictorSub0]"

text \<open>The encoder's row: the first pixel of a row is predicted from above, the first row from the left.
  \<open>upper\<close> is not read in the first row, where the source passes \<open>NULL\<close>.\<close>

definition PredictBatch :: "int \<Rightarrow> int \<Rightarrow> int \<Rightarrow> int \<Rightarrow> u32 list \<Rightarrow> int \<Rightarrow> int \<Rightarrow> int \<Rightarrow> u32 list option" where
  "PredictBatch mode x_start y num_pixels m current upper out = do {
     (m, x_start, out, num_pixels) \<leftarrow>
       (if x_start = 0 then do {
          m \<leftarrow> (if y = 0 then (VP8LPredictorsSub ! 0) m current 0 1 out
                else (VP8LPredictorsSub ! 2) m current upper 1 out);
          Some (m, x_start + 1, out + 1, num_pixels - 1) }
        else Some (m, x_start, out, num_pixels));
     (if y = 0 then (VP8LPredictorsSub ! 1) m (current + x_start) 0 num_pixels out
      else (VP8LPredictorsSub ! nat mode) m (current + x_start) (upper + x_start) num_pixels out) }"

subsection \<open>The inverse transform\<close>

datatype VP8LImageTransformType =
  PREDICTOR_TRANSFORM | CROSS_COLOR_TRANSFORM | SUBTRACT_GREEN_TRANSFORM | COLOR_INDEXING_TRANSFORM

record VP8LTransform =
  ttype :: VP8LImageTransformType
  tbits :: int
  txsize :: int
  tysize :: int
  tdata :: "u32 list"

definition VP8LSubSampleSize :: "u32 \<Rightarrow> nat \<Rightarrow> u32" where
  "VP8LSubSampleSize sz sampling_bits =
     drop_bit sampling_bits (sz + word_of_int (push_bit sampling_bits 1) - 1)"

lemma tile_end_gt: "(x :: int) < (x AND NOT (push_bit b 1 - 1)) + push_bit b 1"
proof -
  have "x AND NOT (mask b) = x - take_bit b x"
    by (subst disjunctive_diff_eq_and_not) (auto intro!: bit_eqI simp: bit_simps)
  moreover have "take_bit b x < push_bit b 1" by (simp add: push_bit_eq_mult)
  ultimately show ?thesis by (simp add: push_bit_eq_mult mask_eq_exp_minus_1)
qed

text \<open>One row from column \<open>x\<close> on: a run of pixels per tile, each with its tile's predictor.\<close>

function predict_tiles :: "int \<Rightarrow> nat \<Rightarrow> u32 list \<Rightarrow> u32 list \<Rightarrow> int \<Rightarrow> int \<Rightarrow> int \<Rightarrow> int \<Rightarrow> u32 list option" where
  "predict_tiles width bits data m inp out pred_mode_src x =
     (if x < width then do {
        w \<leftarrow> ld data pred_mode_src;
        let pred_func = VP8LPredictorsAdd ! unat (drop_bit 8 w AND 0xf);
        let x_end = (x AND NOT (push_bit bits 1 - 1)) + push_bit bits 1;
        let x_end = (if x_end > width then width else x_end);
        m \<leftarrow> pred_func m (inp + x) (out + x - width) (x_end - x) (out + x);
        predict_tiles width bits data m inp out (pred_mode_src + 1) x_end }
      else Some m)"
  by pat_completeness auto
termination
  by (relation "measure (\<lambda>(width, _, _, _, _, _, _, x). nat (width - x))") (use tile_end_gt in \<open>auto\<close>)

declare predict_tiles.simps [simp del]

definition PredictorInverseTransform :: "VP8LTransform \<Rightarrow> int \<Rightarrow> int \<Rightarrow> u32 list \<Rightarrow> int \<Rightarrow> int \<Rightarrow> u32 list option" where
  "PredictorInverseTransform transform y_start y_end m inp out = do {
     let width = txsize transform;
     (m, inp, out, y_start) \<leftarrow>
       (if y_start = 0 then do {
          m \<leftarrow> PredictorAdd0 m inp 0 1 out;
          m \<leftarrow> PredictorAdd1 m (inp + 1) 0 (width - 1) (out + 1);
          Some (m, inp + width, out + width, y_start + 1) }
        else Some (m, inp, out, y_start));
     let bits = nat (tbits transform);
     let tile_width = push_bit bits 1;
     let mask = tile_width - 1;
     let tiles_per_row = uint (VP8LSubSampleSize (word_of_int width) bits);
     (m, inp, out, pred_mode_base) \<leftarrow>
       for_range (nat y_start) (nat y_end)
         (\<lambda>y (m, inp, out, pred_mode_base). do {
            m \<leftarrow> PredictorAdd2 m inp (out - width) 1 out;
            m \<leftarrow> predict_tiles width bits (tdata transform) m inp out pred_mode_base 1;
            Some (m, inp + width, out + width,
              (if (int y + 1) AND mask = 0 then pred_mode_base + tiles_per_row else pred_mode_base)) })
         (m, inp, out, drop_bit bits y_start * tiles_per_row);
     Some m }"

subsection \<open>Predicted values\<close>

definition pred_val :: "nat \<Rightarrow> u32 \<Rightarrow> u32 \<Rightarrow> u32 \<Rightarrow> u32 \<Rightarrow> u32" where
  "pred_val mode l ul t tr =
     [ARGB_BLACK, l, t, tr, ul, Average3 l t tr, Average2 l ul, Average2 l t, Average2 ul t, Average2 t tr,
      Average4 l ul t tr, Select t l ul, ClampedAddSubtractFull l t ul, ClampedAddSubtractHalf l t ul,
      ARGB_BLACK, ARGB_BLACK] ! mode"

lemmas VP8LPredictor_defs =
  VP8LPredictor0_def VP8LPredictor1_def VP8LPredictor2_def VP8LPredictor3_def VP8LPredictor4_def
  VP8LPredictor5_def VP8LPredictor6_def VP8LPredictor7_def VP8LPredictor8_def VP8LPredictor9_def
  VP8LPredictor10_def VP8LPredictor11_def VP8LPredictor12_def VP8LPredictor13_def

lemmas PredictorAdd_defs =
  PredictorAdd2_def PredictorAdd3_def PredictorAdd4_def PredictorAdd5_def PredictorAdd6_def
  PredictorAdd7_def PredictorAdd8_def PredictorAdd9_def PredictorAdd10_def PredictorAdd11_def
  PredictorAdd12_def PredictorAdd13_def

lemmas PredictorSub_defs =
  PredictorSub2_def PredictorSub3_def PredictorSub4_def PredictorSub5_def PredictorSub6_def
  PredictorSub7_def PredictorSub8_def PredictorSub9_def PredictorSub10_def PredictorSub11_def
  PredictorSub12_def PredictorSub13_def

lemma less16: "k < 16 \<Longrightarrow> k = 15 \<or> k = 14 \<or> k = 13 \<or> k = 12 \<or> k = 11 \<or> k = 10 \<or> k = 9 \<or> k = 8
    \<or> k = 7 \<or> k = 6 \<or> k = 5 \<or> k = 4 \<or> k = 3 \<or> k = 2 \<or> k = Suc 0 \<or> k = 0" for k :: nat
  by presburger

lemma VP8LPredictors_val:
  assumes "mode < 16" "ld m left = Some l" "ld m (tp - 1) = Some ul" "ld m tp = Some t" "ld m (tp + 1) = Some tr"
  shows "(VP8LPredictors ! mode) m left tp = Some (pred_val mode l ul t tr)"
  using less16[OF assms(1)] assms(2-5)
  by (elim disjE) (simp_all add: VP8LPredictors_def pred_val_def VP8LPredictor_defs)

lemma VP8LPredictorsAdd_generic:
  assumes "mode < 16" "mode \<noteq> Suc 0"
  shows "(VP8LPredictorsAdd ! mode) m inp upper n out =
    GENERATE_PREDICTOR_ADD (VP8LPredictors ! mode) m inp upper n out"
  using less16[OF assms(1)] assms(2)
  by (elim disjE) (simp_all add: VP8LPredictorsAdd_def VP8LPredictors_def PredictorAdd_defs PredictorAdd0_def
    GENERATE_PREDICTOR_ADD_def VP8LPredictor0_def)

lemma VP8LPredictorsSub_generic:
  assumes "mode < 16" "mode \<noteq> Suc 0"
  shows "(VP8LPredictorsSub ! mode) m inp upper n out =
    GENERATE_PREDICTOR_SUB (VP8LPredictors ! mode) m inp upper n out"
  using less16[OF assms(1)] assms(2)
  by (elim disjE) (simp_all add: VP8LPredictorsSub_def VP8LPredictors_def PredictorSub_defs PredictorSub0_def
    GENERATE_PREDICTOR_SUB_def VP8LPredictor0_def)

text \<open>The image under reconstruction: \<open>img a\<close> is the pixel at raster position \<open>a\<close>. \<open>out\<close> holds raster position
  0, and the positions from \<open>lo\<close> up to \<open>hi\<close> have been decoded into \<open>m\<close>.\<close>

lemma generic_add_run:
  assumes img: "inb m (out + lo) (nat (a + n - lo))" "lo \<le> a" "0 \<le> n"
    and src: "\<And>j. a \<le> j \<Longrightarrow> j < a + n \<Longrightarrow> ld m (inp + j) = Some (VP8LSubPixels (img j) (pv j))"
    and overlap: "out \<le> inp \<or> inp + a + n \<le> out + lo"
    and pred: "\<And>j. a \<le> j \<Longrightarrow> j < a + n \<Longrightarrow>
      P (blit m (out + lo) (nat (j - lo)) (\<lambda>i. img (lo + int i))) (out + j - 1) (up + j) = Some (pv j)"
  shows "GENERATE_PREDICTOR_ADD P (blit m (out + lo) (nat (a - lo)) (\<lambda>i. img (lo + int i)))
      (inp + a) (up + a) n (out + a)
    = Some (blit m (out + lo) (nat (a + n - lo)) (\<lambda>i. img (lo + int i)))"
proof -
  let ?m = "\<lambda>j. blit m (out + lo) (nat (j - lo)) (\<lambda>i. img (lo + int i))"
  have "\<exists>t. GENERATE_PREDICTOR_ADD P (?m a) (inp + a) (up + a) n (out + a) = Some t \<and> t = ?m (a + int (nat n))"
    unfolding GENERATE_PREDICTOR_ADD_def
  proof (rule for_range_inv)
    fix x t assume x: "x < nat n" and t: "t = ?m (a + int x)"
    let ?j = "a + int x"
    have j: "a \<le> ?j" "?j < a + n" using x by auto
    have "P t (out + ?j - 1) (up + ?j) = Some (pv ?j)" using pred[OF j] t by simp
    moreover have "ld t (inp + ?j) = Some (VP8LSubPixels (img ?j) (pv ?j))"
      unfolding t using overlap src[OF j] j img(2) by (subst ld_blit_out) auto
    moreover have "st t (out + ?j) (img ?j) = Some (?m (?j + 1))"
    proof -
      have "st (?m ?j) ((out + lo) + int (nat (?j - lo))) (img ?j) =
        Some (blit m (out + lo) (Suc (nat (?j - lo))) (\<lambda>i. img (lo + int i)))"
        using img j by (intro st_blit[where n = "nat (a + n - lo)"]) auto
      moreover have "Suc (nat (?j - lo)) = nat (?j + 1 - lo)" using img(2) by simp
      ultimately show ?thesis using t img(2) by (simp add: algebra_simps)
    qed
    ultimately show "\<exists>t'. (do {
          pred \<leftarrow> P t (out + a + int x - 1) (up + a + int x);
          v \<leftarrow> ld t (inp + a + int x);
          st t (out + a + int x) (VP8LAddPixels v pred) }) = Some t' \<and> t' = ?m (a + int (Suc x))"
      by (simp add: add.assoc AddPixels_SubPixels) (simp add: algebra_simps)
  qed simp_all
  then show ?thesis using img(3) by simp
qed

lemma PredictorAdd1_generic:
  assumes "ld m (out - 1) = Some l"
  shows "PredictorAdd1 m inp upper n out = GENERATE_PREDICTOR_ADD VP8LPredictor1 m inp upper n out"
proof -
  let ?R = "\<lambda>i (m :: u32 list, left) m'. m = m' \<and> ld m (out + int i - 1) = Some left"
  have "rel_option (?R (nat n))
     (for_range 0 (nat n) (\<lambda>i (m, left). do {
          v \<leftarrow> ld m (inp + int i);
          let left = VP8LAddPixels v left;
          m \<leftarrow> st m (out + int i) left;
          Some (m, left) }) (m, l))
     (for_range 0 (nat n) (\<lambda>x m. do {
          pred \<leftarrow> VP8LPredictor1 m (out + int x - 1) (upper + int x);
          v \<leftarrow> ld m (inp + int x);
          st m (out + int x) (VP8LAddPixels v pred) }) m)"
  proof (rule for_range_sim)
    fix j s t assume "?R j s t"
    then show "rel_option (?R (Suc j)) (case s of (m, left) \<Rightarrow> do {
          v \<leftarrow> ld m (inp + int j);
          let left = VP8LAddPixels v left;
          m \<leftarrow> st m (out + int j) left;
          Some (m, left) }) (do {
          pred \<leftarrow> VP8LPredictor1 t (out + int j - 1) (upper + int j);
          v \<leftarrow> ld t (inp + int j);
          st t (out + int j) (VP8LAddPixels v pred) })"
      by (auto simp: VP8LPredictor1_def ld_def st_def Let_def split: prod.splits if_splits)
  qed (use assms in auto)
  then show ?thesis unfolding PredictorAdd1_def GENERATE_PREDICTOR_ADD_def using assms
    by (auto elim!: option.rel_cases split: prod.splits)
qed

text \<open>Every entry of the decoder's table undoes the subtraction of its predictor.\<close>

lemma VP8LPredictorsAdd_run:
  fixes img pv :: "int \<Rightarrow> u32"
  defines "M \<equiv> \<lambda>m out lo j. blit m (out + lo) (nat (j - lo)) (\<lambda>i. img (lo + int i))"
  assumes "mode < 16"
    and img: "inb m (out + lo) (nat (a + n - lo))" "lo \<le> a" "0 < n"
    and src: "\<And>j. a \<le> j \<Longrightarrow> j < a + n \<Longrightarrow> ld m (inp + j) = Some (VP8LSubPixels (img j) (pv j))"
    and overlap: "out \<le> inp \<or> inp + a + n \<le> out + lo"
    and pred: "\<And>j. a \<le> j \<Longrightarrow> j < a + n \<Longrightarrow>
      (VP8LPredictors ! mode) (M m out lo j) (out + j - 1) (up + j) = Some (pv j)"
  shows "(VP8LPredictorsAdd ! mode) (M m out lo a) (inp + a) (up + a) n (out + a) = Some (M m out lo (a + n))"
proof -
  have gen: "GENERATE_PREDICTOR_ADD (VP8LPredictors ! mode) (M m out lo a) (inp + a) (up + a) n (out + a) =
      Some (M m out lo (a + n))"
    unfolding M_def using assms(3-7) pred by (intro generic_add_run) (auto simp: M_def)
  show ?thesis
  proof (cases "mode = 1")
    case True
    then have "ld (M m out lo a) (out + a - 1) = Some (pv a)"
      using pred[of a] img by (simp add: VP8LPredictors_def VP8LPredictor1_def)
    then show ?thesis using gen True
      by (simp add: VP8LPredictorsAdd_def VP8LPredictors_def PredictorAdd1_generic)
  next
    case False
    with gen \<open>mode < 16\<close> show ?thesis by (simp add: VP8LPredictorsAdd_generic)
  qed
qed

subsection \<open>The inverse transform rebuilds the image\<close>

definition tiles_per_row :: "VP8LTransform \<Rightarrow> int" where
  "tiles_per_row t = (txsize t + 2 ^ nat (tbits t) - 1) div 2 ^ nat (tbits t)"

definition pred_mode :: "VP8LTransform \<Rightarrow> int \<Rightarrow> int \<Rightarrow> nat" where
  "pred_mode t x y = unat (drop_bit 8 (tdata t !
     nat (y div 2 ^ nat (tbits t) * tiles_per_row t + x div 2 ^ nat (tbits t))) AND 0xf)"

definition spatial_pred :: "VP8LTransform \<Rightarrow> (int \<Rightarrow> u32) \<Rightarrow> int \<Rightarrow> u32" where
  "spatial_pred t img a =
     (let W = txsize t; y = a div W; x = a mod W
      in if y = 0 then (if x = 0 then ARGB_BLACK else img (a - 1))
         else if x = 0 then img (a - W)
         else pred_val (pred_mode t x y) (img (a - 1)) (img (a - W - 1)) (img (a - W)) (img (a - W + 1)))"

definition transform_ok :: "VP8LTransform \<Rightarrow> bool" where
  "transform_ok t \<longleftrightarrow> 0 < tbits t \<and> tbits t < 16 \<and> 0 < txsize t \<and> txsize t < 2 ^ 30 \<and>
     (\<forall>y. 0 \<le> y \<longrightarrow> y < tysize t \<longrightarrow> (y div 2 ^ nat (tbits t) + 1) * tiles_per_row t \<le> int (length (tdata t)))"

definition decoded :: "u32 list \<Rightarrow> int \<Rightarrow> int \<Rightarrow> (int \<Rightarrow> u32) \<Rightarrow> int \<Rightarrow> u32 list" where
  "decoded m base lo img a = blit m (base + lo) (nat (a - lo)) (\<lambda>i. img (lo + int i))"

lemma tile_start: "(x :: int) AND NOT (push_bit b 1 - 1) = x div 2 ^ b * 2 ^ b"
proof -
  have "x AND NOT (mask b) = x - take_bit b x"
    by (subst disjunctive_diff_eq_and_not) (auto intro!: bit_eqI simp: bit_simps)
  then show ?thesis by (simp add: push_bit_eq_mult mask_eq_exp_minus_1 take_bit_eq_mod minus_mod_eq_div_mult)
qed

lemma VP8LSubSampleSize_eq:
  assumes "0 < w" "w < 2 ^ 30" "b < 16"
  shows "uint (VP8LSubSampleSize (word_of_int w) b) = (w + 2 ^ b - 1) div 2 ^ b"
proof -
  have "(2::int) ^ b \<le> 2 ^ 16" using assms(3) by (intro power_increasing) auto
  moreover have "word_of_int w + word_of_int (push_bit b 1) - 1 = (word_of_int (w + 2 ^ b - 1) :: u32)"
    by (simp add: push_bit_eq_mult)
  moreover have "uint (word_of_int (w + 2 ^ b - 1) :: u32) = w + 2 ^ b - 1"
  proof -
    have "1 \<le> (2::int) ^ b" by simp
    moreover have "(2::int) ^ 30 + 2 ^ 16 < 2 ^ 32" by simp
    ultimately have "0 \<le> w + 2 ^ b - 1" "w + 2 ^ b - 1 < 2 ^ 32"
      using assms(1,2) \<open>2 ^ b \<le> 2 ^ 16\<close> by linarith+
    then show ?thesis by (subst uint_word_of_int_eq) (simp add: take_bit_eq_mod)
  qed
  ultimately show ?thesis by (simp only: VP8LSubSampleSize_def uint_shiftr)
qed

lemma ld_decoded:
  assumes "inb m (base + lo) (nat (hi - lo))" "q < a" "a \<le> hi"
    and "q < lo \<Longrightarrow> ld m (base + q) = Some (img q)"
  shows "ld (decoded m base lo img a) (base + q) = Some (img q)"
proof (cases "q < lo")
  case True
  with assms show ?thesis by (simp add: decoded_def ld_blit_out)
next
  case False
  have "inb m (base + lo) (nat (a - lo))" using assms False by (auto simp: inb_def)
  with False assms show ?thesis by (simp add: decoded_def ld_blit_in)
qed

lemma pred_mode_less: "pred_mode t x y < 16"
proof -
  have "w AND 0xf = take_bit 4 w" for w :: u32 by (simp add: take_bit_eq_mask mask_eq_exp_minus_1)
  moreover have "unat (take_bit 4 w) < 16" for w :: u32
    by (simp only: unsigned_take_bit_eq) (simp add: take_bit_eq_mod)
  ultimately show ?thesis by (simp only: pred_mode_def)
qed

lemma spatial_pred_run:
  assumes W: "0 < txsize t" and b: "inb m (base + lo) (nat (hi - lo))" "j < hi"
    and prev: "\<And>q. 0 \<le> q \<Longrightarrow> lo - txsize t \<le> q \<Longrightarrow> q < lo \<Longrightarrow> ld m (base + q) = Some (img q)"
    and j: "lo \<le> j" "0 < j div txsize t" "0 < j mod txsize t" "lo mod txsize t = 0"
  shows "(VP8LPredictors ! pred_mode t (j mod txsize t) (j div txsize t)) (decoded m base lo img j)
      (base + j - 1) (base + j - txsize t) = Some (spatial_pred t img j)"
proof -
  let ?W = "txsize t"
  have "1 < ?W" using j(3) pos_mod_bound[OF W, of j] by linarith
  have "?W + 1 \<le> j"
  proof -
    have "j = j div ?W * ?W + j mod ?W" by simp
    moreover have "1 * ?W \<le> j div ?W * ?W" using j W by (intro mult_right_mono) auto
    ultimately show ?thesis using j(3) by linarith
  qed
  moreover have "lo \<noteq> j" using j by auto
  ultimately have ld: "ld (decoded m base lo img j) (base + q) = Some (img q)" if "j - ?W - 1 \<le> q" "q < j" for q
    using ld_decoded[OF b(1), of q j img] prev[of q] that b j W by auto
  have "(VP8LPredictors ! pred_mode t (j mod ?W) (j div ?W)) (decoded m base lo img j) (base + j - 1) (base + j - ?W) =
      Some (pred_val (pred_mode t (j mod ?W) (j div ?W)) (img (j - 1)) (img (j - ?W - 1)) (img (j - ?W)) (img (j - ?W + 1)))"
    using ld[of "j - 1"] ld[of "j - ?W - 1"] ld[of "j - ?W"] ld[of "j - ?W + 1"] \<open>1 < ?W\<close>
    by (intro VP8LPredictors_val[OF pred_mode_less]) (simp_all add: algebra_simps)
  then show ?thesis using j by (simp add: spatial_pred_def Let_def)
qed

lemma tile_index:
  assumes "transform_ok t" "0 \<le> y" "y < tysize t" "0 \<le> x" "x < txsize t"
  shows "0 \<le> y div 2 ^ nat (tbits t) * tiles_per_row t + x div 2 ^ nat (tbits t)"
    "y div 2 ^ nat (tbits t) * tiles_per_row t + x div 2 ^ nat (tbits t) < int (length (tdata t))"
proof -
  let ?W = "txsize t" and ?b = "nat (tbits t)"
  have "tiles_per_row t = (?W - 1 + 1 * 2 ^ ?b) div 2 ^ ?b" by (simp add: tiles_per_row_def algebra_simps)
  also have "\<dots> = (?W - 1) div 2 ^ ?b + 1" by (subst div_add_self2[symmetric]) (auto simp: algebra_simps)
  finally have "x div 2 ^ ?b < tiles_per_row t" using assms(5) zdiv_mono1[of x "?W - 1" "2 ^ ?b"] by simp
  moreover have "0 \<le> x div 2 ^ ?b" "0 \<le> y div 2 ^ ?b" using assms by (simp_all add: pos_imp_zdiv_nonneg_iff)
  moreover have "(y div 2 ^ ?b + 1) * tiles_per_row t \<le> int (length (tdata t))"
    using assms by (simp add: transform_ok_def)
  ultimately show "0 \<le> y div 2 ^ ?b * tiles_per_row t + x div 2 ^ ?b"
    "y div 2 ^ ?b * tiles_per_row t + x div 2 ^ ?b < int (length (tdata t))" by (simp_all add: algebra_simps)
qed

lemma predict_tiles_row:
  assumes t: "transform_ok t" and b: "inb m (base + lo) (nat (hi - lo))" 
    and prev: "\<And>q. 0 \<le> q \<Longrightarrow> lo - txsize t \<le> q \<Longrightarrow> q < lo \<Longrightarrow> ld m (base + q) = Some (img q)"
    and src: "\<And>j. lo \<le> j \<Longrightarrow> j < hi \<Longrightarrow> ld m (inp + j) = Some (VP8LSubPixels (img j) (spatial_pred t img j))"
    and overlap: "base \<le> inp \<or> inp + hi \<le> base + lo"
    and lo: "lo mod txsize t = 0" "lo \<le> y * txsize t"
    and y: "0 < y" "y < tysize t" "(y + 1) * txsize t \<le> hi"
  shows "0 < x \<Longrightarrow> x \<le> txsize t \<Longrightarrow> x = 1 \<or> x = txsize t \<or> x mod 2 ^ nat (tbits t) = 0 \<Longrightarrow>
    predict_tiles (txsize t) (nat (tbits t)) (tdata t) (decoded m base lo img (y * txsize t + x))
      (inp + y * txsize t) (base + y * txsize t)
      (y div 2 ^ nat (tbits t) * tiles_per_row t + (if x = 1 then 0 else x div 2 ^ nat (tbits t))) x
    = Some (decoded m base lo img ((y + 1) * txsize t))"
proof (induction "nat (txsize t - x)" arbitrary: x rule: less_induct)
  case less
  let ?W = "txsize t" and ?b = "nat (tbits t)"
  show ?case
  proof (cases "x < ?W")
    case False
    with less.prems have "x = ?W" by simp
    then show ?thesis by (simp add: predict_tiles.simps algebra_simps)
  next
    case True
    have b2: "2 \<le> (2::int) ^ ?b" using t by (auto simp: transform_ok_def intro: self_le_power[of 2 ?b])
    have W: "0 < ?W" using True less.prems by simp
    let ?x' = "x div 2 ^ ?b"
    have src_x: "(if x = 1 then 0 else ?x') = ?x'" using t by (simp add: transform_ok_def)
    define xe where "xe = (if x div 2 ^ ?b * 2 ^ ?b + 2 ^ ?b > ?W then ?W else x div 2 ^ ?b * 2 ^ ?b + 2 ^ ?b)"
    have xe: "x < xe" "xe \<le> ?W" using True tile_end_gt[of x ?b, unfolded tile_start]
      by (auto simp: xe_def tile_start push_bit_eq_mult)
    have same_tile: "j div 2 ^ ?b = ?x'" if "x \<le> j" "j < xe" for j
      using that b2 by (intro same_block) (auto simp: xe_def split: if_splits)
    have next_src: "xe = ?W \<or> xe mod 2 ^ ?b = 0 \<and> xe div 2 ^ ?b = ?x' + 1" "xe \<noteq> 1"
      using b2 xe less.prems(1) by (auto simp: xe_def)
    have row: "(y * ?W + j) div ?W = y" "(y * ?W + j) mod ?W = j" if "x \<le> j" "j < xe" for j
      using that xe less.prems(1) by auto
    have hi: "y * ?W + xe \<le> hi" using xe y(3) by (simp add: algebra_simps)
    have dlen: "0 \<le> y div 2 ^ ?b * tiles_per_row t + ?x'"
      "y div 2 ^ ?b * tiles_per_row t + ?x' < int (length (tdata t))"
      using tile_index[OF t _ y(2), of x] y(1) less.prems(1) True by simp_all
    let ?mode = "pred_mode t x y"
    have mode: "?mode = unat (drop_bit 8 (tdata t ! nat (y div 2 ^ ?b * tiles_per_row t + ?x')) AND 0xf)"
      by (simp add: pred_mode_def)
    have run: "(VP8LPredictorsAdd ! ?mode) (decoded m base lo img (y * ?W + x)) (inp + (y * ?W + x))
        (base - ?W + (y * ?W + x)) (xe - x) (base + (y * ?W + x)) =
      Some (decoded m base lo img ((y * ?W + x) + (xe - x)))"
      unfolding decoded_def
    proof (rule VP8LPredictorsAdd_run[where pv = "spatial_pred t img"])
      fix j assume j: "y * ?W + x \<le> j" "j < y * ?W + x + (xe - x)"
      have "j - y * ?W < xe" "x \<le> j - y * ?W" using j by auto
      with row[of "j - y * ?W"] have jj: "j div ?W = y" "j mod ?W = j - y * ?W" by simp_all
      show "(VP8LPredictors ! ?mode) (blit m (base + lo) (nat (j - lo)) (\<lambda>i. img (lo + int i))) (base + j - 1)
          (base - ?W + j) = Some (spatial_pred t img j)"
        using spatial_pred_run[OF W b _ prev, of j] j lo jj y(1) less.prems(1) hi 
          same_tile[of "j - y * ?W"]
        by (simp add: decoded_def pred_mode_def algebra_simps)
      show "ld m (inp + j) = Some (VP8LSubPixels (img j) (spatial_pred t img j))"
        using src j hi lo less.prems by simp
    next
      show "inb m (base + lo) (nat (y * ?W + x + (xe - x) - lo))" using b hi lo less.prems(1) xe
        by (simp add: inb_def)
    qed (use pred_mode_less lo less.prems xe overlap hi in auto)
    then have run': "(VP8LPredictorsAdd ! ?mode) (decoded m base lo img (y * ?W + x)) (inp + y * ?W + x)
        (base + y * ?W + x - ?W) (xe - x) (base + y * ?W + x) = Some (decoded m base lo img (y * ?W + xe))"
      by (simp add: algebra_simps)
    have src_xe: "xe \<noteq> ?W \<Longrightarrow> y div 2 ^ ?b * tiles_per_row t + ?x' + 1 =
        y div 2 ^ ?b * tiles_per_row t + (if xe = 1 then 0 else xe div 2 ^ ?b)"
      using next_src by auto
    have IH: "predict_tiles ?W ?b (tdata t) (decoded m base lo img (y * ?W + xe)) (inp + y * ?W) (base + y * ?W)
      (y div 2 ^ ?b * tiles_per_row t + ?x' + 1) xe = Some (decoded m base lo img ((y + 1) * ?W))"
    proof (cases "xe = ?W")
      case True
      then show ?thesis by (simp add: predict_tiles.simps algebra_simps)
    next
      case False
      then show ?thesis unfolding src_xe[OF False]
        using xe less.prems(1) next_src True by (intro less.hyps) auto
    qed
    have xe_alt: "(if ?W < (x AND NOT (push_bit ?b 1 - 1)) + push_bit ?b 1 then ?W
        else (x AND NOT (push_bit ?b 1 - 1)) + push_bit ?b 1) = xe"
      by (simp only: tile_start xe_def) (simp add: push_bit_eq_mult)
    show ?thesis unfolding src_x
      using True dlen run' IH
      by (subst predict_tiles.simps) (simp only: Let_def xe_alt if_True ld_def conj_absorb simp_thms
        mode[symmetric] Option.bind.simps)
  qed
qed

lemma predict_row:
  assumes t: "transform_ok t" and b: "inb m (base + lo) (nat (hi - lo))"
    and prev: "\<And>q. 0 \<le> q \<Longrightarrow> lo - txsize t \<le> q \<Longrightarrow> q < lo \<Longrightarrow> ld m (base + q) = Some (img q)"
    and src: "\<And>j. lo \<le> j \<Longrightarrow> j < hi \<Longrightarrow> ld m (inp + j) = Some (VP8LSubPixels (img j) (spatial_pred t img j))"
    and overlap: "base \<le> inp \<or> inp + hi \<le> base + lo"
    and lo: "lo mod txsize t = 0" "lo \<le> y * txsize t"
    and y: "0 < y" "y < tysize t" "(y + 1) * txsize t \<le> hi"
  shows "do {
      m \<leftarrow> PredictorAdd2 (decoded m base lo img (y * txsize t)) (inp + y * txsize t)
        (base + y * txsize t - txsize t) 1 (base + y * txsize t);
      predict_tiles (txsize t) (nat (tbits t)) (tdata t) m (inp + y * txsize t) (base + y * txsize t)
        (y div 2 ^ nat (tbits t) * tiles_per_row t) 1 }
    = Some (decoded m base lo img ((y + 1) * txsize t))"
proof -
  let ?W = "txsize t"
  have W: "0 < ?W" using t by (simp add: transform_ok_def)
  have y1: "?W \<le> y * ?W" using W y(1) by simp
  have hi: "y * ?W < hi" using y(3) W by (simp add: algebra_simps)
  have "(VP8LPredictorsAdd ! 2) (decoded m base lo img (y * ?W)) (inp + y * ?W) (base - ?W + y * ?W) 1 (base + y * ?W) =
      Some (decoded m base lo img (y * ?W + 1))"
    unfolding decoded_def
  proof (rule VP8LPredictorsAdd_run[where pv = "spatial_pred t img"])
    fix j assume "y * ?W \<le> j" "j < y * ?W + 1"
    then have j: "j = y * ?W" by simp
    show "ld m (inp + j) = Some (VP8LSubPixels (img j) (spatial_pred t img j))" using src j lo hi by simp
    have "ld (decoded m base lo img j) (base + (j - ?W)) = Some (img (j - ?W))"
      by (rule ld_decoded[OF b]) (use prev[of "j - ?W"] j W hi lo y1 in auto)
    then show "(VP8LPredictors ! 2) (blit m (base + lo) (nat (j - lo)) (\<lambda>i. img (lo + int i))) (base + j - 1)
        (base - ?W + j) = Some (spatial_pred t img j)"
      using j W y(1) by (simp add: VP8LPredictors_def VP8LPredictor2_def decoded_def spatial_pred_def Let_def algebra_simps)
  qed (use b lo hi overlap in \<open>auto simp: inb_def\<close>)
  then have "PredictorAdd2 (decoded m base lo img (y * ?W)) (inp + y * ?W) (base + y * ?W - ?W) 1 (base + y * ?W) =
      Some (decoded m base lo img (y * ?W + 1))"
    by (simp add: VP8LPredictorsAdd_def algebra_simps)
  moreover note predict_tiles_row[OF t b prev src overlap lo y, of 1]
  ultimately show ?thesis using W by simp
qed

lemma next_tile_row:
  assumes "0 \<le> (y :: int)"
  shows "(if (y + 1) AND (push_bit b 1 - 1) = 0 then y div 2 ^ b * w + w else y div 2 ^ b * w) = (y + 1) div 2 ^ b * w"
proof -
  obtain k where k: "y = int k" using assms nonneg_int_cases by blast
  have "Suc k div 2 ^ b = (if Suc k mod 2 ^ b = 0 then Suc (k div 2 ^ b) else k div 2 ^ b)" by (rule div_Suc)
  then have "int (Suc k div 2 ^ b) = (if int (Suc k mod 2 ^ b) = 0 then int (k div 2 ^ b) + 1 else int (k div 2 ^ b))"
    by simp
  then have "(y + 1) div 2 ^ b = (if (y + 1) mod 2 ^ b = 0 then y div 2 ^ b + 1 else y div 2 ^ b)"
    unfolding k by (simp add: zdiv_int zmod_int algebra_simps)
  moreover have "(y + 1) AND (push_bit b 1 - 1) = (y + 1) mod 2 ^ b"
    by (simp add: push_bit_eq_mult take_bit_eq_mod[symmetric] take_bit_eq_mask mask_eq_exp_minus_1)
  ultimately show ?thesis by (simp add: algebra_simps)
qed

definition predictor_input :: "VP8LTransform \<Rightarrow> (int \<Rightarrow> u32) \<Rightarrow> int \<Rightarrow> int \<Rightarrow> u32 list \<Rightarrow> int \<Rightarrow> int \<Rightarrow> bool" where
  "predictor_input t img y0 y1 m inp out \<longleftrightarrow>
     (let W = txsize t; n = (y1 - y0) * W in
      0 \<le> y0 \<and> y0 < y1 \<and> y1 \<le> tysize t \<and> inb m inp (nat n) \<and> inb m out (nat n) \<and>
      (out \<le> inp \<or> inp + n \<le> out) \<and>
      (\<forall>k. 0 \<le> k \<longrightarrow> k < n \<longrightarrow>
        m ! nat (inp + k) = VP8LSubPixels (img (y0 * W + k)) (spatial_pred t img (y0 * W + k))) \<and>
      (0 < y0 \<longrightarrow> inb m (out - W) (nat W) \<and>
        (\<forall>k. 0 \<le> k \<longrightarrow> k < W \<longrightarrow> m ! nat (out - W + k) = img ((y0 - 1) * W + k))))"

lemma PredictorInverseTransform_rows:
  assumes t: "transform_ok t" and b: "inb m (base + lo) (nat (hi - lo))"
    and prev: "\<And>q. 0 \<le> q \<Longrightarrow> lo - txsize t \<le> q \<Longrightarrow> q < lo \<Longrightarrow> ld m (base + q) = Some (img q)"
    and src: "\<And>j. lo \<le> j \<Longrightarrow> j < hi \<Longrightarrow> ld m (inp + j) = Some (VP8LSubPixels (img j) (spatial_pred t img j))"
    and overlap: "base \<le> inp \<or> inp + hi \<le> base + lo"
    and lo: "lo mod txsize t = 0" "lo \<le> int ys * txsize t"
    and y: "0 < ys" "ys \<le> ye" "int ye \<le> tysize t" "int ye * txsize t \<le> hi"
  shows "for_range ys ye
         (\<lambda>y (m, inp, out, pred_mode_base). do {
            m \<leftarrow> PredictorAdd2 m inp (out - txsize t) 1 out;
            m \<leftarrow> predict_tiles (txsize t) (nat (tbits t)) (tdata t) m inp out pred_mode_base 1;
            Some (m, inp + txsize t, out + txsize t,
              (if (int y + 1) AND (push_bit (nat (tbits t)) 1 - 1) = 0 then pred_mode_base + tiles_per_row t
               else pred_mode_base)) })
         (decoded m base lo img (int ys * txsize t), inp + int ys * txsize t, base + int ys * txsize t,
           int ys div 2 ^ nat (tbits t) * tiles_per_row t) =
     Some (decoded m base lo img (int ye * txsize t), inp + int ye * txsize t, base + int ye * txsize t,
           int ye div 2 ^ nat (tbits t) * tiles_per_row t)"
    (is "for_range ys ye ?body (?S ys) = Some (?S ye)")
proof -
  let ?W = "txsize t"
  have W: "0 < ?W" using t by (simp add: transform_ok_def)
  have "\<exists>s. for_range ys ye ?body (?S ys) = Some s \<and> s = ?S ye"
  proof (rule for_range_inv)
    fix j s assume j: "ys \<le> j" "j < ye" and s: "s = ?S j"
    have "(int j + 1) * ?W \<le> int ye * ?W" using j W by (intro mult_right_mono) auto
    moreover have "int ys * ?W \<le> int j * ?W" using j W by (intro mult_right_mono) auto
    ultimately have row: "do {
        m \<leftarrow> PredictorAdd2 (decoded m base lo img (int j * ?W)) (inp + int j * ?W)
          (base + int j * ?W - ?W) 1 (base + int j * ?W);
        predict_tiles ?W (nat (tbits t)) (tdata t) m (inp + int j * ?W) (base + int j * ?W)
          (int j div 2 ^ nat (tbits t) * tiles_per_row t) 1 }
      = Some (decoded m base lo img ((int j + 1) * ?W))"
      using j y lo by (intro predict_row[OF t b prev src overlap]) auto
    show "\<exists>s'. ?body j s = Some s' \<and> s' = ?S (Suc j)"
      using row next_tile_row[of "int j" "nat (tbits t)" "tiles_per_row t"]
      by (cases "PredictorAdd2 (decoded m base lo img (int j * ?W)) (inp + int j * ?W)
          (base + int j * ?W - ?W) 1 (base + int j * ?W)") (auto simp: s algebra_simps)
  qed (use y in simp_all)
  then show ?thesis by simp
qed

lemma first_row:
  assumes W: "0 < txsize t" and b: "inb m base (nat hi)" "txsize t \<le> hi"
    and src: "\<And>j. 0 \<le> j \<Longrightarrow> j < hi \<Longrightarrow> ld m (inp + j) = Some (VP8LSubPixels (img j) (spatial_pred t img j))"
    and overlap: "base \<le> inp \<or> inp + hi \<le> base"
  shows "do { m \<leftarrow> PredictorAdd0 m inp 0 1 base; PredictorAdd1 m (inp + 1) 0 (txsize t - 1) (base + 1) }
    = Some (decoded m base 0 img (txsize t))"
proof -
  let ?W = "txsize t"
  have "(VP8LPredictorsAdd ! 0) (decoded m base 0 img 0) (inp + 0) (0 + 0) 1 (base + 0) = Some (decoded m base 0 img (0 + 1))"
    unfolding decoded_def
  proof (rule VP8LPredictorsAdd_run[where pv = "spatial_pred t img"])
    show "inb m (base + 0) (nat (0 + 1 - 0))" using b W by (simp add: inb_def)
  qed (use src b W overlap in \<open>auto simp: VP8LPredictors_def VP8LPredictor0_def spatial_pred_def\<close>)
  then have 0: "PredictorAdd0 m inp 0 1 base = Some (decoded m base 0 img 1)"
    by (simp add: VP8LPredictorsAdd_def decoded_def)
  have 1: "PredictorAdd1 (decoded m base 0 img 1) (inp + 1) 0 (?W - 1) (base + 1) = Some (decoded m base 0 img ?W)"
  proof (cases "?W = 1")
    case True
    then show ?thesis using b by (simp add: PredictorAdd1_def decoded_def ld_def inb_def)
  next
    case False
    have "(VP8LPredictorsAdd ! 1) (decoded m base 0 img 1) (inp + 1) (- 1 + 1) (?W - 1) (base + 1) =
        Some (decoded m base 0 img (1 + (?W - 1)))"
      unfolding decoded_def
    proof (rule VP8LPredictorsAdd_run[where pv = "spatial_pred t img"])
      fix j assume j: "1 \<le> j" "j < 1 + (?W - 1)"
      have "ld (decoded m base 0 img j) (base + (j - 1)) = Some (img (j - 1))"
        by (rule ld_decoded[of _ _ _ hi]) (use j b in auto)
      then show "(VP8LPredictors ! 1) (blit m (base + 0) (nat (j - 0)) (\<lambda>i. img (0 + int i))) (base + j - 1) (- 1 + j) =
          Some (spatial_pred t img j)"
        using j by (simp add: VP8LPredictors_def VP8LPredictor1_def decoded_def spatial_pred_def Let_def algebra_simps)
      show "ld m (inp + j) = Some (VP8LSubPixels (img j) (spatial_pred t img j))" using j src b by simp
    next
      show "inb m (base + 0) (nat (1 + (?W - 1) - 0))" using b W by (simp add: inb_def)
    qed (use overlap b False W in auto)
    then show ?thesis by (simp add: VP8LPredictorsAdd_def)
  qed
  from 0 1 show ?thesis by simp
qed

lemma PredictorInverseTransform_lemma:
  assumes t: "transform_ok t" and inp: "predictor_input t img y0 y1 m inp out"
  shows "PredictorInverseTransform t y0 y1 m inp out =
    Some (blit m out (nat ((y1 - y0) * txsize t)) (\<lambda>k. img (y0 * txsize t + int k)))"
proof -
  let ?W = "txsize t" and ?b = "nat (tbits t)"
  define lo where "lo = y0 * ?W"
  define hi where "hi = y1 * ?W"
  define base where "base = out - lo"
  define ib where "ib = inp - lo"
  have W: "0 < ?W" "?W < 2 ^ 30" "?b < 16" using t by (auto simp: transform_ok_def)
  have y: "0 \<le> y0" "y0 < y1" "y1 \<le> tysize t" using inp by (auto simp: predictor_input_def Let_def)
  have n: "hi - lo = (y1 - y0) * ?W" by (simp add: hi_def lo_def algebra_simps)
  have b: "inb m (base + lo) (nat (hi - lo))" "inb m inp (nat (hi - lo))"
    using inp by (auto simp: predictor_input_def Let_def base_def n)
  have ov: "base \<le> ib \<or> ib + hi \<le> base + lo"
    using inp by (auto simp: predictor_input_def Let_def base_def ib_def n[symmetric])
  have src: "ld m (ib + j) = Some (VP8LSubPixels (img j) (spatial_pred t img j))" if "lo \<le> j" "j < hi" for j
  proof -
    have "m ! nat (inp + (j - lo)) = VP8LSubPixels (img (y0 * ?W + (j - lo))) (spatial_pred t img (y0 * ?W + (j - lo)))"
      using inp that unfolding predictor_input_def Let_def n[symmetric] by auto
    then show ?thesis using b(2) that by (simp add: ib_def ld_def inb_def lo_def algebra_simps)
  qed
  have prev: "ld m (base + q) = Some (img q)" if q: "0 \<le> q" "lo - ?W \<le> q" "q < lo" for q
  proof -
    have "0 < y0" using q W y(1) by (auto simp: lo_def zero_less_mult_iff intro: ccontr)
    then have above: "inb m (out - ?W) (nat ?W)"
      "\<forall>k. 0 \<le> k \<longrightarrow> k < ?W \<longrightarrow> m ! nat (out - ?W + k) = img ((y0 - 1) * ?W + k)"
      using inp unfolding predictor_input_def Let_def by blast+
    have "m ! nat (out - ?W + (q - lo + ?W)) = img ((y0 - 1) * ?W + (q - lo + ?W))"
      using above(2) q by (intro above(2)[rule_format]) auto
    note this above(1)
    then show ?thesis using q by (auto simp: base_def ld_def inb_def lo_def algebra_simps)
  qed
  have b0: "0 < tbits t" using t by (simp add: transform_ok_def)
  have lo0: "lo mod ?W = 0" by (simp add: lo_def)
  have tpr: "uint (VP8LSubSampleSize (word_of_int ?W) ?b) = tiles_per_row t"
    using W by (simp only: VP8LSubSampleSize_eq tiles_per_row_def)
  have res: "decoded m base lo img hi = blit m out (nat ((y1 - y0) * ?W)) (\<lambda>k. img (y0 * ?W + int k))"
    by (simp add: decoded_def base_def n) (simp add: lo_def)
  note rows = PredictorInverseTransform_rows[OF t b(1) prev src ov lo0]
  show ?thesis
  proof (cases "y0 = 0")
    case True
    then have lo: "lo = 0" by (simp add: lo_def)
    have "1 * ?W \<le> hi" using y True W unfolding hi_def by (intro mult_right_mono) auto
    then have "do { m \<leftarrow> PredictorAdd0 m inp 0 1 out; PredictorAdd1 m (inp + 1) 0 (?W - 1) (out + 1) }
      = Some (decoded m base 0 img ?W)"
      using first_row[OF W(1), of m base hi ib img] b(1) src ov lo by (simp add: base_def ib_def)
    then obtain m1 where m1: "PredictorAdd0 m inp 0 1 out = Some m1"
      "PredictorAdd1 m1 (inp + 1) 0 (?W - 1) (out + 1) = Some (decoded m base 0 img ?W)"
      by (auto simp: bind_eq_Some_conv)
    show ?thesis
      using rows[of 1 "nat y1"] y True lo m1 W res b0
      unfolding PredictorInverseTransform_def Let_def tpr
      by (simp add: base_def ib_def hi_def drop_bit_eq_div)
  next
    case False
    have "decoded m base lo img lo = m" by (simp add: decoded_def)
    then show ?thesis
      using rows[of "nat y0" "nat y1"] y False W res
      unfolding PredictorInverseTransform_def Let_def tpr
      by (simp add: base_def ib_def hi_def lo_def drop_bit_eq_div)
  qed
qed

subsection \<open>The encoder's residuals\<close>

lemma generic_sub_run:
  assumes "inb m out (nat n)"
    and src: "\<And>x. 0 \<le> x \<Longrightarrow> x < n \<Longrightarrow> inp + x < out \<or> out + n \<le> inp + x"
      "\<And>x. 0 \<le> x \<Longrightarrow> x < n \<Longrightarrow> ld m (inp + x) = Some (cur x)"
    and pred: "\<And>x k. 0 \<le> x \<Longrightarrow> x < n \<Longrightarrow> k \<le> nat n \<Longrightarrow> P (blit m out k g) (inp + x - 1) (up + x) = Some (pv x)"
    and g: "\<And>k. int k < n \<Longrightarrow> g k = VP8LSubPixels (cur (int k)) (pv (int k))"
  shows "GENERATE_PREDICTOR_SUB P m inp up n out = Some (blit m out (nat n) g)"
  unfolding GENERATE_PREDICTOR_SUB_def
proof (rule for_range_blit)
  fix j assume j: "j < nat n"
  have "ld (blit m out j g) (inp + int j) = Some (cur (int j))"
    using src[of "int j"] j by (subst ld_blit_out) auto
  with j assms(1) pred[of "int j" j] g[of j]
  show "do { pred \<leftarrow> P (blit m out j g) (inp + int j - 1) (up + int j);
      v \<leftarrow> ld (blit m out j g) (inp + int j);
      st (blit m out j g) (out + int j) (VP8LSubPixels v pred) } = Some (blit m out (Suc j) g)"
    by (simp add: st_blit)
qed

lemma VP8LPredictorsSub_any:
  assumes "mode < 16"
  shows "(VP8LPredictorsSub ! mode) m inp upper n out =
    GENERATE_PREDICTOR_SUB (VP8LPredictors ! mode) m inp upper n out"
proof (cases "mode = 1")
  case True
  have "PredictorSub1 m inp upper n out = GENERATE_PREDICTOR_SUB VP8LPredictor1 m inp upper n out"
    unfolding PredictorSub1_def GENERATE_PREDICTOR_SUB_def
  proof (rule for_range_cong)
    fix j t
    show "do { v \<leftarrow> ld t (inp + int j); left \<leftarrow> ld t (inp + int j - 1);
        st t (out + int j) (VP8LSubPixels v left) } =
      do { pred \<leftarrow> VP8LPredictor1 t (inp + int j - 1) (upper + int j); v \<leftarrow> ld t (inp + int j);
        st t (out + int j) (VP8LSubPixels v pred) }"
      by (cases "ld t (inp + int j)"; cases "ld t (inp + int j - 1)") (simp_all add: VP8LPredictor1_def)
  qed
  with True show ?thesis by (simp add: VP8LPredictorsSub_def VP8LPredictors_def)
qed (use assms VP8LPredictorsSub_generic in simp)

definition encoder_rows :: "VP8LTransform \<Rightarrow> (int \<Rightarrow> u32) \<Rightarrow> int \<Rightarrow> int \<Rightarrow> u32 list \<Rightarrow> int \<Rightarrow> int \<Rightarrow> int \<Rightarrow> int \<Rightarrow> bool" where
  "encoder_rows t img y n m current upper out mode \<longleftrightarrow>
     (let W = txsize t in
      0 \<le> y \<and> inb m out (nat n) \<and>
      (current + W \<le> out \<or> out + n \<le> current) \<and>
      (\<forall>x. 0 \<le> x \<longrightarrow> x < W \<longrightarrow> ld m (current + x) = Some (img (y * W + x))) \<and>
      (0 < y \<longrightarrow> (upper + W < out \<or> out + n \<le> upper) \<and>
        (\<forall>x. 0 \<le> x \<longrightarrow> x \<le> W \<longrightarrow> ld m (upper + x) = Some (img ((y - 1) * W + x)))))"

lemma sub_row:
  assumes rows: "encoder_rows t img y N m current upper out0 mode0" and W: "0 < txsize t"
    and mode: "mode < 16" "\<And>x. x0 \<le> x \<Longrightarrow> x < x0 + n \<Longrightarrow> 
      (if y = 0 then mode = (if x = 0 then 0 else 1) else if x = 0 then mode = 2 else mode = pred_mode t x y)"
    and x: "0 \<le> x0" "0 \<le> n" "x0 + n \<le> txsize t" "xs \<le> x0" "0 \<le> xs" "x0 + n \<le> xs + N"
    and g: "g = (\<lambda>k. VP8LSubPixels (img (y * txsize t + xs + int k)) (spatial_pred t img (y * txsize t + xs + int k)))"
    and up: "0 < y \<longrightarrow> up = upper + x0"
  shows "(VP8LPredictorsSub ! mode) (blit m out0 (nat (x0 - xs)) g) (current + x0) up n (out0 + (x0 - xs)) =
    Some (blit m out0 (nat (x0 + n - xs)) g)"
proof -
  let ?W = "txsize t" and ?m = "\<lambda>k. blit m out0 k g"
  let ?r = "y * txsize t"
  have y: "0 \<le> y" and out: "inb m out0 (nat N)" and dis: "current + ?W \<le> out0 \<or> out0 + N \<le> current"
    and cur: "\<And>x. 0 \<le> x \<Longrightarrow> x < ?W \<Longrightarrow> ld m (current + x) = Some (img (?r + x))"
    using rows by (auto simp: encoder_rows_def Let_def)
  have upr: "upper + ?W < out0 \<or> out0 + N \<le> upper"
    "\<And>x. 0 \<le> x \<Longrightarrow> x \<le> ?W \<Longrightarrow> ld m (upper + x) = Some (img ((y - 1) * ?W + x))" if "0 < y"
    using rows that by (auto simp: encoder_rows_def Let_def)
  define pv where "pv j = spatial_pred t img (?r + j)" for j
  have pred: "(VP8LPredictors ! mode) (?m k) (current + j - 1) (up + (j - x0)) = Some (pv j)"
    if "x0 \<le> j" "j < x0 + n" "int k \<le> N" for j k
  proof -
    have ld: "ld (?m k) q = ld m q" if "q < out0 \<or> out0 + N \<le> q" for q
      using that \<open>int k \<le> N\<close> by (intro ld_blit_out) auto
    have W: "j < ?W" "0 \<le> j" using that x by auto
    have left: "ld (?m k) (current + j - 1) = Some (img (?r + j - 1))" if "0 < j"
      using ld[of "current + (j - 1)"] cur[of "j - 1"] dis that W by (auto simp: algebra_simps)
    have abv: "ld (?m k) (upper + i) = Some (img (?r - ?W + i))" if "0 < y" "0 \<le> i" "i \<le> ?W" for i
      using ld[of "upper + i"] upr(1)[OF that(1)] upr(2)[of i] that by (auto simp: algebra_simps)
    have dv: "(?r + j) div ?W = y" "(?r + j) mod ?W = j" using W by auto
    have m: "if y = 0 then mode = (if j = 0 then 0 else 1) else if j = 0 then mode = 2 else mode = pred_mode t j y"
      using mode(2)[of j] that by simp
    consider "y = 0" "j = 0" | "y = 0" "0 < j" | "0 < y" "j = 0" | "0 < y" "0 < j" using y W by linarith
    then show ?thesis
    proof cases
      case 1
      with m show ?thesis by (simp add: VP8LPredictors_def VP8LPredictor0_def pv_def spatial_pred_def)
    next
      case 2
      with m left dv show ?thesis
        by (simp add: VP8LPredictors_def VP8LPredictor1_def pv_def spatial_pred_def Let_def)
    next
      case 3
      with m abv[of 0] dv up W that x show ?thesis
        by (simp add: VP8LPredictors_def VP8LPredictor2_def pv_def spatial_pred_def Let_def)
    next
      case 4
      then have "(VP8LPredictors ! mode) (?m k) (current + j - 1) (upper + j) =
        Some (pred_val mode (img (?r + j - 1)) (img (?r - ?W + (j - 1))) (img (?r - ?W + j)) (img (?r - ?W + (j + 1))))"
        using left abv[of "j - 1"] abv[of j] abv[of "j + 1"] W
        by (intro VP8LPredictors_val mode(1)) (simp_all add: algebra_simps)
      with 4 m dv up show ?thesis
        by (simp add: pv_def spatial_pred_def Let_def algebra_simps)
    qed
  qed
  let ?n0 = "nat (x0 - xs)"
  have ext: "blit (?m ?n0) (out0 + int ?n0) k (\<lambda>k. g (k + ?n0)) = ?m (?n0 + k)" for k
    by (rule blit_extend)
  have "(VP8LPredictorsSub ! mode) (?m ?n0) (current + x0) up n (out0 + int ?n0) =
    Some (blit (?m ?n0) (out0 + int ?n0) (nat n) (\<lambda>k. g (k + ?n0)))"
    unfolding VP8LPredictorsSub_any[OF mode(1)]
  proof (rule generic_sub_run[where cur = "\<lambda>j. img (?r + x0 + j)" and pv = "\<lambda>j. pv (x0 + j)"])
    fix j k assume "0 \<le> j" "j < n" "k \<le> nat n"
    then show "(VP8LPredictors ! mode) (blit (?m ?n0) (out0 + int ?n0) k (\<lambda>k. g (k + ?n0)))
        (current + x0 + j - 1) (up + j) = Some (pv (x0 + j))"
      unfolding ext using pred[of "x0 + j" "?n0 + k"] x by (simp add: algebra_simps)
  next
    fix j assume "0 \<le> j" "j < n"
    then show "ld (?m ?n0) (current + x0 + j) = Some (img (?r + x0 + j))"
      using cur[of "x0 + j"] dis x by (subst ld_blit_out) (auto simp: add.assoc)
  qed (use out dis x in \<open>auto simp: inb_def g pv_def algebra_simps\<close>)
  moreover have "?n0 + nat n = nat (x0 + n - xs)" using x by simp
  ultimately show ?thesis unfolding ext using x by simp
qed

lemma PredictBatch_lemma:
  assumes t: "0 < txsize t" and rows: "encoder_rows t img y n m current upper out mode"
    and x: "0 \<le> x" "0 < n" "x + n \<le> txsize t"
    and mode: "0 \<le> mode" "mode < 16" "\<And>i. 0 < i \<Longrightarrow> x \<le> i \<Longrightarrow> i < x + n \<Longrightarrow> nat mode = pred_mode t i y"
  shows "PredictBatch mode x y n m current upper out = Some (blit m out (nat n) (\<lambda>k. 
     VP8LSubPixels (img (y * txsize t + x + int k)) (spatial_pred t img (y * txsize t + x + int k))))"
proof -
  let ?g = "\<lambda>k. VP8LSubPixels (img (y * txsize t + x + int k)) (spatial_pred t img (y * txsize t + x + int k))"
  have y: "0 \<le> y" using rows by (simp add: encoder_rows_def Let_def)
  note sr = sub_row[OF rows t, where g = ?g and xs = x]
  have first: "(if y = 0 then (VP8LPredictorsSub ! 0) m current 0 1 out else (VP8LPredictorsSub ! 2) m current upper 1 out) =
    Some (blit m out 1 ?g)" if "x = 0"
    using sr[of "if y = 0 then 0 else 2" 0 1 "if y = 0 then 0 else upper"] that x y by auto
  have rest: "(if y = 0 then (VP8LPredictorsSub ! 1) (blit m out (nat (x0 - x)) ?g) (current + x0) 0 (n - (x0 - x)) (out + (x0 - x))
      else (VP8LPredictorsSub ! nat mode) (blit m out (nat (x0 - x)) ?g) (current + x0) (upper + x0) (n - (x0 - x)) (out + (x0 - x))) =
    Some (blit m out (nat n) ?g)" if "x0 = x \<and> 0 < x \<or> x0 = 1 \<and> x = 0" for x0
  proof -
    have "(VP8LPredictorsSub ! (if y = 0 then 1 else nat mode)) (blit m out (nat (x0 - x)) ?g) (current + x0)
        (if y = 0 then 0 else upper + x0) (n - (x0 - x)) (out + (x0 - x)) =
      Some (blit m out (nat (x0 + (n - (x0 - x)) - x)) ?g)"
    proof (rule sr)
      fix i assume "x0 \<le> i" "i < x0 + (n - (x0 - x))"
      then show "if y = 0 then (if y = 0 then 1 else nat mode) = (if i = 0 then 0 else 1)
         else if i = 0 then (if y = 0 then 1 else nat mode) = 2 else (if y = 0 then 1 else nat mode) = pred_mode t i y"
        using mode(3)[of i] that x by auto
    qed (use that x y mode in auto)
    then show ?thesis by auto
  qed
  show ?thesis using first rest[of "if x = 0 then 1 else x"] x
    by (auto simp: PredictBatch_def)
qed

subsection \<open>Properties\<close>

text \<open>C2. The inverse predictor transform is correct: given the residuals of the rows \<open>y0\<close> to \<open>y1\<close> of an image
  (every pixel minus its spatial prediction, by the mode of its tile) and, unless it starts at the
  top, the row above in front of \<open>out\<close>, it writes exactly the pixels of those rows to \<open>out\<close>, touches
  nothing else and never leaves its buffers; \<open>in\<close> and \<open>out\<close> may be the same rows.\<close>

theorem PredictorInverseTransform_correct:
  assumes "transform_ok t" and "predictor_input t img y0 y1 m inp out"
  shows "PredictorInverseTransform t y0 y1 m inp out =
    Some (blit m out (nat ((y1 - y0) * txsize t)) (\<lambda>k. img (y0 * txsize t + int k)))"
  using assms by (rule PredictorInverseTransform_lemma)

lemma PredictorInverseTransform_witness:
  "PredictorInverseTransform \<lparr>ttype = PREDICTOR_TRANSFORM, tbits = 2, txsize = 2, tysize = 2, tdata = [0x0b00]\<rparr>
     0 2 [0x01020304, 0x10, 0x00ffff00, 0x5050604] 0 0 =
   Some [0x00020304, 0x00020314, 0x00010204, 0x05070918]"
proof -
  let ?t = "\<lparr>ttype = PREDICTOR_TRANSFORM, tbits = 2, txsize = 2, tysize = 2, tdata = [0x0b00]\<rparr>"
  let ?m = "[0x01020304, 0x10, 0x00ffff00, 0x5050604] :: u32 list"
  let ?img = "\<lambda>a. [0x00020304, 0x00020314, 0x00010204, 0x05070918] ! nat a :: u32"
  have four: "k = 0 \<or> k = 1 \<or> k = 2 \<or> k = 3" if "0 \<le> k" "k < 4" for k :: int using that by auto
  have "transform_ok ?t" by (auto simp: transform_ok_def tiles_per_row_def)
  moreover have "predictor_input ?t ?img 0 2 ?m 0 0"
    unfolding predictor_input_def Let_def
    by (auto simp: inb_def VP8LSubPixels_def spatial_pred_def pred_mode_def tiles_per_row_def pred_val_def
      ARGB_BLACK_def Select_def Sub3_def dest!: four)
  ultimately have "PredictorInverseTransform ?t 0 2 ?m 0 0 = Some (blit ?m 0 (nat ((2 - 0) * 2)) (\<lambda>k. ?img (0 * 2 + int k)))"
    using PredictorInverseTransform_correct[of ?t ?img 0 2 ?m 0 0] by simp
  then show ?thesis by (simp add: blit_def)
qed

text \<open>C3. The encoder's \<open>PredictBatch\<close> produces what the decoder's transform expects: for any columns of a row it
  writes every pixel minus its spatial prediction (black for the first pixel, the left one in the first
  row, the one above in the first column, the tile's mode elsewhere) and changes nothing else.\<close>

theorem PredictBatch_correct:
  assumes "0 < txsize t" and "encoder_rows t img y n m current upper out mode"
    and "0 \<le> x" "0 < n" "x + n \<le> txsize t"
    and "0 \<le> mode" "mode < 16" "\<forall>i. 0 < i \<longrightarrow> x \<le> i \<longrightarrow> i < x + n \<longrightarrow> nat mode = pred_mode t i y"
  shows "PredictBatch mode x y n m current upper out = Some (blit m out (nat n) (\<lambda>k.
     VP8LSubPixels (img (y * txsize t + x + int k)) (spatial_pred t img (y * txsize t + x + int k))))"
  using assms by (intro PredictBatch_lemma) auto

lemma PredictBatch_witness:
  "PredictBatch 11 0 1 2 [0x00020304, 0x00020314, 0x00010204, 0x05070918, 0, 0] 2 0 4 =
    Some [0x00020304, 0x00020314, 0x00010204, 0x05070918, 0x00ffff00, 0x05050604]"
proof -
  let ?t = "\<lparr>ttype = PREDICTOR_TRANSFORM, tbits = 2, txsize = 2, tysize = 2, tdata = [0x0b00]\<rparr>"
  let ?m = "[0x00020304, 0x00020314, 0x00010204, 0x05070918, 0, 0] :: u32 list"
  let ?img = "\<lambda>a. [0x00020304, 0x00020314, 0x00010204, 0x05070918] ! nat a :: u32"
  have two: "x = 0 \<or> x = 1" if "0 \<le> x" "x < 2" for x :: int using that by auto
  have three: "x = 0 \<or> x = 1 \<or> x = 2" if "0 \<le> x" "x \<le> 2" for x :: int using that by auto
  have "encoder_rows ?t ?img 1 2 ?m 2 0 4 11"
    unfolding encoder_rows_def Let_def by (auto simp: inb_def ld_def dest!: two three)
  then have "PredictBatch 11 0 1 2 ?m 2 0 4 = Some (blit ?m 4 (nat 2) (\<lambda>k.
     VP8LSubPixels (?img (1 * 2 + 0 + int k)) (spatial_pred ?t ?img (1 * 2 + 0 + int k))))"
    using PredictBatch_correct[of ?t ?img 1 2 ?m 2 0 4 11 0]
    by (auto simp: pred_mode_def tiles_per_row_def)
  then show ?thesis
    by (simp add: blit_def VP8LSubPixels_def spatial_pred_def pred_mode_def tiles_per_row_def pred_val_def
      Select_def Sub3_def)
qed

end
