(* ===== verification/Transforms.thy ===== *)
theory Transforms
  imports Predictors
begin

section \<open>The colour transforms (src/dsp/lossless.c, src/dsp/lossless_enc.c)\<close>

text \<open>
  Subtract-green, the cross-colour transform, colour indexing (palette) with pixel bundling, and
  \<open>VP8LInverseTransform\<close>, which dispatches on the transform type. Each encoder function is next to
  the decoder function that undoes it. Memory is as in \<open>Predictors\<close>: one pixel array, pointers as
  positions.
\<close>

unbundle bit_operations_syntax

subsection \<open>Subtract green\<close>

definition VP8LAddGreenToBlueAndRed :: "u32 list \<Rightarrow> int \<Rightarrow> int \<Rightarrow> int \<Rightarrow> u32 list option" where
  "VP8LAddGreenToBlueAndRed m src num_pixels dst =
     for_range 0 (nat num_pixels)
       (\<lambda>i m. do {
          argb \<leftarrow> ld m (src + int i);
          st m (dst + int i)
            (let green = drop_bit 8 argb AND 0xff;
                 red_blue = argb AND 0x00ff00ff;
                 red_blue = red_blue + (push_bit 16 green OR green);
                 red_blue = red_blue AND 0x00ff00ff
             in (argb AND 0xff00ff00) OR red_blue) }) m"

definition AddGreenToBlueAndRed :: "u32 \<Rightarrow> u32" where
  "AddGreenToBlueAndRed argb =
     (let green = drop_bit 8 argb AND 0xff;
          red_blue = argb AND 0x00ff00ff;
          red_blue = red_blue + (push_bit 16 green OR green);
          red_blue = red_blue AND 0x00ff00ff
      in (argb AND 0xff00ff00) OR red_blue)"

definition VP8LSubtractGreenFromBlueAndRed :: "u32 list \<Rightarrow> int \<Rightarrow> int \<Rightarrow> u32 list option" where
  "VP8LSubtractGreenFromBlueAndRed m argb_data num_pixels =
     for_range 0 (nat num_pixels)
       (\<lambda>i m. do {
          x \<leftarrow> ld m (argb_data + int i);
          st m (argb_data + int i)
            (let argb = sint x;
                 green = drop_bit 8 argb AND 0xff;
                 new_r = word_of_int (((drop_bit 16 argb AND 0xff) - green) AND 0xff) :: u32;
                 new_b = word_of_int (((drop_bit 0 argb AND 0xff) - green) AND 0xff) :: u32
             in (word_of_int argb AND 0xff00ff00) OR push_bit 16 new_r OR new_b) }) m"

subsection \<open>The cross-colour transform\<close>

record VP8LMultipliers =
  green_to_red :: u8
  green_to_blue :: u8
  red_to_blue :: u8

definition ColorTransformDelta :: "u8 \<Rightarrow> u8 \<Rightarrow> int" where
  "ColorTransformDelta color_pred color = drop_bit 5 (sint color_pred * sint color)"

definition ColorCodeToMultipliers :: "u32 \<Rightarrow> VP8LMultipliers" where
  "ColorCodeToMultipliers color_code =
     \<lparr>green_to_red = ucast (drop_bit 0 color_code AND 0xff),
      green_to_blue = ucast (drop_bit 8 color_code AND 0xff),
      red_to_blue = ucast (drop_bit 16 color_code AND 0xff)\<rparr>"

definition MultipliersToColorCode :: "VP8LMultipliers \<Rightarrow> u32" where
  "MultipliersToColorCode m =
     0xff000000 OR push_bit 16 (ucast (red_to_blue m)) OR push_bit 8 (ucast (green_to_blue m)) OR
     ucast (green_to_red m)"

definition VP8LTransformColorInverse :: "VP8LMultipliers \<Rightarrow> u32 list \<Rightarrow> int \<Rightarrow> int \<Rightarrow> int \<Rightarrow> u32 list option" where
  "VP8LTransformColorInverse mult m src num_pixels dst =
     for_range 0 (nat num_pixels)
       (\<lambda>i m. do {
          argb \<leftarrow> ld m (src + int i);
          st m (dst + int i)
            (let green = ucast (drop_bit 8 argb);
                 red = drop_bit 16 argb;
                 new_red = uint (red AND 0xff);
                 new_blue = uint (argb AND 0xff);
                 new_red = new_red + ColorTransformDelta (green_to_red mult) green;
                 new_red = new_red AND 0xff;
                 new_blue = new_blue + ColorTransformDelta (green_to_blue mult) green;
                 new_blue = new_blue + ColorTransformDelta (red_to_blue mult) (word_of_int new_red);
                 new_blue = new_blue AND 0xff
             in (argb AND 0xff00ff00) OR word_of_int (push_bit 16 new_red) OR word_of_int new_blue) }) m"

definition U32ToS8 :: "u32 \<Rightarrow> u8" where
  "U32ToS8 v = ucast (v AND 0xff)"

definition VP8LTransformColor :: "VP8LMultipliers \<Rightarrow> u32 list \<Rightarrow> int \<Rightarrow> int \<Rightarrow> u32 list option" where
  "VP8LTransformColor mult m data num_pixels =
     for_range 0 (nat num_pixels)
       (\<lambda>i m. do {
          argb \<leftarrow> ld m (data + int i);
          st m (data + int i)
            (let green = U32ToS8 (drop_bit 8 argb);
                 red = U32ToS8 (drop_bit 16 argb);
                 new_red = sint red AND 0xff;
                 new_blue = uint (argb AND 0xff);
                 new_red = new_red - ColorTransformDelta (green_to_red mult) green;
                 new_red = new_red AND 0xff;
                 new_blue = new_blue - ColorTransformDelta (green_to_blue mult) green;
                 new_blue = new_blue - ColorTransformDelta (red_to_blue mult) red;
                 new_blue = new_blue AND 0xff
             in (argb AND 0xff00ff00) OR word_of_int (push_bit 16 new_red) OR word_of_int new_blue) }) m"

definition TransformColorRed :: "u8 \<Rightarrow> u32 \<Rightarrow> u8" where
  "TransformColorRed g2r argb =
     (let green = U32ToS8 (drop_bit 8 argb);
          new_red = uint (drop_bit 16 argb);
          new_red = new_red - ColorTransformDelta g2r green
      in word_of_int (new_red AND 0xff))"

definition TransformColorBlue :: "u8 \<Rightarrow> u8 \<Rightarrow> u32 \<Rightarrow> u8" where
  "TransformColorBlue g2b r2b argb =
     (let green = U32ToS8 (drop_bit 8 argb);
          red = U32ToS8 (drop_bit 16 argb);
          new_blue = uint (argb AND 0xff);
          new_blue = new_blue - ColorTransformDelta g2b green;
          new_blue = new_blue - ColorTransformDelta r2b red
      in word_of_int (new_blue AND 0xff))"

definition ColorSpaceInverseTransform :: "VP8LTransform \<Rightarrow> int \<Rightarrow> int \<Rightarrow> u32 list \<Rightarrow> int \<Rightarrow> int \<Rightarrow> u32 list option" where
  "ColorSpaceInverseTransform transform y_start y_end m src dst = do {
     let width = txsize transform;
     let bits = nat (tbits transform);
     let tile_width = push_bit bits 1;
     let mask = tile_width - 1;
     let safe_width = width AND NOT mask;
     let remaining_width = width - safe_width;
     let tiles_per_row = uint (VP8LSubSampleSize (word_of_int width) bits);
     (m, src, dst, pred_row) \<leftarrow>
       for_range (nat y_start) (nat y_end)
         (\<lambda>y (m, src, dst, pred_row). do {
            let src_end = src + width;
            (m, src, dst, pred) \<leftarrow>
              for_range 0 (nat (safe_width div tile_width))
                (\<lambda>_ (m, src, dst, pred). do {
                   code \<leftarrow> ld (tdata transform) pred;
                   m \<leftarrow> VP8LTransformColorInverse (ColorCodeToMultipliers code) m src tile_width dst;
                   Some (m, src + tile_width, dst + tile_width, pred + 1) })
                (m, src, dst, pred_row);
            (m, src, dst) \<leftarrow>
              (if src < src_end then do {
                 code \<leftarrow> ld (tdata transform) pred;
                 m \<leftarrow> VP8LTransformColorInverse (ColorCodeToMultipliers code) m src remaining_width dst;
                 Some (m, src + remaining_width, dst + remaining_width) }
               else Some (m, src, dst));
            Some (m, src, dst,
              (if (int y + 1) AND mask = 0 then pred_row + tiles_per_row else pred_row)) })
         (m, src, dst, drop_bit bits y_start * tiles_per_row);
     Some m }"

subsection \<open>Colour indexing\<close>

definition VP8GetARGBIndex :: "u32 \<Rightarrow> u32" where
  "VP8GetARGBIndex idx = drop_bit 8 idx AND 0xff"

definition VP8GetAlphaIndex :: "u8 \<Rightarrow> u32" where
  "VP8GetAlphaIndex idx = ucast idx"

definition VP8GetARGBValue :: "u32 \<Rightarrow> u32" where
  "VP8GetARGBValue val = val"

definition VP8GetAlphaValue :: "u32 \<Rightarrow> u8" where
  "VP8GetAlphaValue val = ucast (drop_bit 8 val AND 0xff)"

text \<open>The two functions that the macro \<open>COLOR_INDEX_INVERSE\<close> generates, with its accessor
  arguments; \<open>'a\<close> is \<open>uint32_t\<close> or \<open>uint8_t\<close>.\<close>

definition map_color ::
  "('a \<Rightarrow> u32) \<Rightarrow> (u32 \<Rightarrow> 'a) \<Rightarrow> 'a list \<Rightarrow> int \<Rightarrow> u32 list \<Rightarrow> int \<Rightarrow> int \<Rightarrow> int \<Rightarrow> int \<Rightarrow> 'a list option" where
  "map_color GET_INDEX GET_VALUE m src color_map dst y_start y_end width = do {
     (m, src, dst) \<leftarrow>
       for_range (nat y_start) (nat y_end)
         (\<lambda>y. for_range 0 (nat width)
           (\<lambda>x (m, src, dst). do {
              s \<leftarrow> ld m src;
              c \<leftarrow> ld color_map (uint (GET_INDEX s));
              m \<leftarrow> st m dst (GET_VALUE c);
              Some (m, src + 1, dst + 1) }))
         (m, src, dst);
     Some m }"

definition color_index_inverse ::
  "('a \<Rightarrow> u32) \<Rightarrow> (u32 \<Rightarrow> 'a) \<Rightarrow> VP8LTransform \<Rightarrow> int \<Rightarrow> int \<Rightarrow> 'a list \<Rightarrow> int \<Rightarrow> int \<Rightarrow> 'a list option" where
  "color_index_inverse GET_INDEX GET_VALUE transform y_start y_end m src dst = do {
     let bits_per_pixel = drop_bit (nat (tbits transform)) (8 :: int);
     let width = txsize transform;
     let color_map = tdata transform;
     (if bits_per_pixel < 8 then do {
        let pixels_per_byte = push_bit (nat (tbits transform)) (1 :: int);
        let count_mask = pixels_per_byte - 1;
        let bit_mask = (push_bit (nat bits_per_pixel) 1 - 1 :: u32);
        (m, src, dst) \<leftarrow>
          for_range (nat y_start) (nat y_end)
            (\<lambda>y (m, src, dst). do {
               (m, src, dst, packed_pixels) \<leftarrow>
                 for_range 0 (nat width)
                   (\<lambda>x (m, src, dst, packed_pixels). do {
                      (src, packed_pixels) \<leftarrow>
                        (if int x AND count_mask = 0
                         then do { s \<leftarrow> ld m src; Some (src + 1, GET_INDEX s) }
                         else Some (src, packed_pixels));
                      c \<leftarrow> ld color_map (uint (packed_pixels AND bit_mask));
                      m \<leftarrow> st m dst (GET_VALUE c);
                      Some (m, src, dst + 1, drop_bit (nat bits_per_pixel) packed_pixels) })
                   (m, src, dst, 0);
               Some (m, src, dst) })
            (m, src, dst);
        Some m }
      else map_color GET_INDEX GET_VALUE m src color_map dst y_start y_end width) }"

definition ColorIndexInverseTransform :: "VP8LTransform \<Rightarrow> int \<Rightarrow> int \<Rightarrow> u32 list \<Rightarrow> int \<Rightarrow> int \<Rightarrow> u32 list option" where
  "ColorIndexInverseTransform = color_index_inverse VP8GetARGBIndex VP8GetARGBValue"

definition VP8LColorIndexInverseTransformAlpha :: "VP8LTransform \<Rightarrow> int \<Rightarrow> int \<Rightarrow> u8 list \<Rightarrow> int \<Rightarrow> int \<Rightarrow> u8 list option" where
  "VP8LColorIndexInverseTransformAlpha = color_index_inverse VP8GetAlphaIndex VP8GetAlphaValue"

text \<open>The encoder bundles 2, 4 or 8 palette indices of a row into one pixel.\<close>

definition VP8LBundleColorMap :: "u8 list \<Rightarrow> int \<Rightarrow> int \<Rightarrow> u32 list \<Rightarrow> int \<Rightarrow> u32 list option" where
  "VP8LBundleColorMap row width xbits m dst =
     (if xbits > 0 then do {
        let bit_depth = push_bit (nat (3 - xbits)) (1 :: int);
        let mask = push_bit (nat xbits) 1 - 1;
        (m, code) \<leftarrow>
          for_range 0 (nat width)
            (\<lambda>x (m, code). do {
               let xsub = int x AND mask;
               let code = (if xsub = 0 then 0xff000000 else code);
               r \<leftarrow> ld row (int x);
               let code = code OR word_of_int (push_bit (nat (8 + bit_depth * xsub)) (uint r));
               m \<leftarrow> st m (dst + drop_bit (nat xbits) (int x)) code;
               Some (m, code) })
            (m, 0xff000000 :: u32);
        Some m }
      else
        for_range 0 (nat width)
          (\<lambda>x m. do { r \<leftarrow> ld row (int x); st m (dst + int x) (0xff000000 OR word_of_int (push_bit 8 (uint r))) }) m)"

subsection \<open>Dispatch\<close>

definition memmove :: "'a list \<Rightarrow> int \<Rightarrow> int \<Rightarrow> int \<Rightarrow> 'a list option" where
  "memmove m dst src n =
     (if 0 < n \<longrightarrow> inb m dst (nat n) \<and> inb m src (nat n)
      then Some (blit m dst (nat n) (\<lambda>i. m ! nat (src + int i))) else None)"

definition VP8LInverseTransform :: "VP8LTransform \<Rightarrow> int \<Rightarrow> int \<Rightarrow> u32 list \<Rightarrow> int \<Rightarrow> int \<Rightarrow> u32 list option" where
  "VP8LInverseTransform transform row_start row_end m inp out = do {
     let width = txsize transform;
     require (row_start < row_end);
     require (row_end \<le> tysize transform);
     (case ttype transform of
        SUBTRACT_GREEN_TRANSFORM \<Rightarrow>
          VP8LAddGreenToBlueAndRed m inp ((row_end - row_start) * width) out
      | PREDICTOR_TRANSFORM \<Rightarrow> do {
          m \<leftarrow> PredictorInverseTransform transform row_start row_end m inp out;
          (if row_end \<noteq> tysize transform
           then memmove m (out - width) (out + (row_end - row_start - 1) * width) width
           else Some m) }
      | CROSS_COLOR_TRANSFORM \<Rightarrow> ColorSpaceInverseTransform transform row_start row_end m inp out
      | COLOR_INDEXING_TRANSFORM \<Rightarrow>
          (if inp = out \<and> tbits transform > 0 then do {
             let out_stride = (row_end - row_start) * width;
             let in_stride = (row_end - row_start) *
               uint (VP8LSubSampleSize (word_of_int (txsize transform)) (nat (tbits transform)));
             let src = out + out_stride - in_stride;
             m \<leftarrow> memmove m src out in_stride;
             ColorIndexInverseTransform transform row_start row_end m src out }
           else ColorIndexInverseTransform transform row_start row_end m inp out)) }"

subsection \<open>Channels of the transformed pixels\<close>

lemma int_and_byte [simp]:
  "v AND 255 \<in> {0..<256::int}" "(word_of_int (v AND 255) :: u8) = word_of_int v"
proof -
  have *: "v AND 255 = take_bit 8 v" by (simp add: take_bit_eq_mask mask_eq_exp_minus_1)
  show "v AND 255 \<in> {0..<256::int}" unfolding * by (simp add: take_bit_eq_mod)
  show "(word_of_int (v AND 255) :: u8) = word_of_int v" unfolding * by (rule bit_word_eqI) (simp add: bit_simps)
qed

lemma byte_uint: "x \<in> {0..<256} \<Longrightarrow> \<exists>w :: u8. x = uint w"
  by (intro exI[of _ "word_of_int x"]) (simp add: uint_word_of_int_eq take_bit_eq_mod)

lemma chan_repack:
  assumes "r \<in> {0..<256}" "b \<in> {0..<256}"
  shows "chan 0 ((x AND 0xff00ff00) OR word_of_int (push_bit 16 r) OR word_of_int b) = word_of_int b"
    "chan (Suc 0) ((x AND 0xff00ff00) OR word_of_int (push_bit 16 r) OR word_of_int b) = chan (Suc 0) x"
    "chan 2 ((x AND 0xff00ff00) OR word_of_int (push_bit 16 r) OR word_of_int b) = word_of_int r"
    "chan 3 ((x AND 0xff00ff00) OR word_of_int (push_bit 16 r) OR word_of_int b) = chan 3 x"
proof -
  obtain r' b' :: u8 where eq: "r = uint r'" "b = uint b'"
    using assms byte_uint by meson
  show "chan 0 ((x AND 0xff00ff00) OR word_of_int (push_bit 16 r) OR word_of_int b) = word_of_int b"
    "chan (Suc 0) ((x AND 0xff00ff00) OR word_of_int (push_bit 16 r) OR word_of_int b) = chan (Suc 0) x"
    "chan 2 ((x AND 0xff00ff00) OR word_of_int (push_bit 16 r) OR word_of_int b) = word_of_int r"
    "chan 3 ((x AND 0xff00ff00) OR word_of_int (push_bit 16 r) OR word_of_int b) = chan 3 x"
    unfolding eq by (rule bit_word_eqI; simp add: bit_chan bit_simps less8; auto simp: bit_simps)+
qed

definition sub_green_px :: "u32 \<Rightarrow> u32" where
  "sub_green_px x = (let argb = sint x;
       green = drop_bit 8 argb AND 0xff;
       new_r = word_of_int (((drop_bit 16 argb AND 0xff) - green) AND 0xff) :: u32;
       new_b = word_of_int (((drop_bit 0 argb AND 0xff) - green) AND 0xff) :: u32
    in (word_of_int argb AND 0xff00ff00) OR push_bit 16 new_r OR new_b)"

definition color_px :: "VP8LMultipliers \<Rightarrow> u32 \<Rightarrow> u32" where
  "color_px mult argb = (let green = U32ToS8 (drop_bit 8 argb);
       red = U32ToS8 (drop_bit 16 argb);
       new_red = sint red AND 0xff;
       new_blue = uint (argb AND 0xff);
       new_red = new_red - ColorTransformDelta (green_to_red mult) green;
       new_red = new_red AND 0xff;
       new_blue = new_blue - ColorTransformDelta (green_to_blue mult) green;
       new_blue = new_blue - ColorTransformDelta (red_to_blue mult) red;
       new_blue = new_blue AND 0xff
   in (argb AND 0xff00ff00) OR word_of_int (push_bit 16 new_red) OR word_of_int new_blue)"

definition color_inverse_px :: "VP8LMultipliers \<Rightarrow> u32 \<Rightarrow> u32" where
  "color_inverse_px mult argb = (let green = ucast (drop_bit 8 argb);
       red = drop_bit 16 argb;
       new_red = uint (red AND 0xff);
       new_blue = uint (argb AND 0xff);
       new_red = new_red + ColorTransformDelta (green_to_red mult) green;
       new_red = new_red AND 0xff;
       new_blue = new_blue + ColorTransformDelta (green_to_blue mult) green;
       new_blue = new_blue + ColorTransformDelta (red_to_blue mult) (word_of_int new_red);
       new_blue = new_blue AND 0xff
   in (argb AND 0xff00ff00) OR word_of_int (push_bit 16 new_red) OR word_of_int new_blue)"

lemma bit_sint_low:
  "m < 32 \<Longrightarrow> bit (sint (x :: u32)) m = bit x m" "m < 8 \<Longrightarrow> bit (sint (y :: u8)) m = bit y m"
  by (cases "m = 31"; simp add: bit_sint_iff) (cases "m = 7"; simp add: bit_sint_iff)

lemma sint_byte: "drop_bit n (sint (x :: u32)) AND 0xff = uint (drop_bit n x AND 0xff)" if "n \<le> 24"
proof -
  have "drop_bit n (sint x) AND 0xff = take_bit 8 (drop_bit n (sint x))"
    by (simp add: take_bit_eq_mask mask_eq_exp_minus_1)
  also have "\<dots> = uint (take_bit 8 (drop_bit n x))"
    using that by (intro bit_eqI) (auto simp: bit_take_bit_iff bit_drop_bit_eq bit_sint_low bit_uint_iff bit_word_of_int_iff)
  finally show ?thesis by (simp add: and_ones)
qed

lemma green_chan: "ucast (drop_bit 8 x) = chan (Suc 0) x" "U32ToS8 (drop_bit 8 x) = chan (Suc 0) x"
    "U32ToS8 (drop_bit 16 x) = chan 2 x"
  by (simp_all add: chan_def U32ToS8_def and_ones bit_eq_iff bit_simps)

lemma sint_and_byte: "sint (w :: u8) AND 0xff = uint w"
proof -
  have "sint w AND 0xff = take_bit 8 (sint w)" by (simp add: take_bit_eq_mask mask_eq_exp_minus_1)
  also have "\<dots> = uint w" by (intro bit_eqI) (auto simp: bit_take_bit_iff bit_sint_low bit_uint_iff)
  finally show ?thesis .
qed

lemma push_word_of_int: "push_bit n (word_of_int v :: 'a :: len word) = word_of_int (push_bit n v)"
  by (rule bit_word_eqI) (auto simp: bit_simps)

lemma chan_sub_green:
  "chan 0 (sub_green_px x) = chan 0 x - chan (Suc 0) x" "chan (Suc 0) (sub_green_px x) = chan (Suc 0) x"
  "chan 2 (sub_green_px x) = chan 2 x - chan (Suc 0) x" "chan 3 (sub_green_px x) = chan 3 x"
proof -
  let ?r = "(uint (chan 2 x) - uint (chan (Suc 0) x)) AND 0xff"
  let ?b = "(uint (chan 0 x) - uint (chan (Suc 0) x)) AND 0xff"
  have *: "sub_green_px x = (x AND 0xff00ff00) OR word_of_int (push_bit 16 ?r) OR word_of_int ?b"
    unfolding sub_green_px_def Let_def
    using sint_byte[of 0 x]
    by (simp only: sint_byte chan_reads drop_bit_0 id_apply push_word_of_int le_numeral_extra numeral_le_iff
      le_num_simps zero_le) simp
  show "chan 0 (sub_green_px x) = chan 0 x - chan (Suc 0) x" "chan (Suc 0) (sub_green_px x) = chan (Suc 0) x"
    "chan 2 (sub_green_px x) = chan 2 x - chan (Suc 0) x" "chan 3 (sub_green_px x) = chan 3 x"
    unfolding * by (simp only: chan_repack int_and_byte; simp)+
qed

lemma chan_color_px:
  "chan 0 (color_px m x) = chan 0 x - word_of_int (ColorTransformDelta (green_to_blue m) (chan (Suc 0) x))
      - word_of_int (ColorTransformDelta (red_to_blue m) (chan 2 x))"
  "chan (Suc 0) (color_px m x) = chan (Suc 0) x"
  "chan 2 (color_px m x) = chan 2 x - word_of_int (ColorTransformDelta (green_to_red m) (chan (Suc 0) x))" 
  "chan 3 (color_px m x) = chan 3 x"
  unfolding color_px_def Let_def green_chan sint_and_byte chan_reads
  by (simp only: chan_repack int_and_byte; simp)+

lemma chan_color_inverse_px:
  "chan 0 (color_inverse_px m x) = chan 0 x + word_of_int (ColorTransformDelta (green_to_blue m) (chan (Suc 0) x))
      + word_of_int (ColorTransformDelta (red_to_blue m) (chan 2 (color_inverse_px m x)))"
  "chan (Suc 0) (color_inverse_px m x) = chan (Suc 0) x"
  "chan 2 (color_inverse_px m x) = chan 2 x + word_of_int (ColorTransformDelta (green_to_red m) (chan (Suc 0) x))" 
  "chan 3 (color_inverse_px m x) = chan 3 x"
  unfolding color_inverse_px_def Let_def green_chan sint_and_byte chan_reads
  by (simp only: chan_repack int_and_byte; simp)+

lemma color_px_inverse: "color_inverse_px m (color_px m x) = x"
  by (rule chan_ext, drule less4) (auto simp: chan_color_px chan_color_inverse_px)

lemma chan_AddGreen:
  "chan 0 (AddGreenToBlueAndRed x) = chan 0 x + chan (Suc 0) x" "chan (Suc 0) (AddGreenToBlueAndRed x) = chan (Suc 0) x"
  "chan 2 (AddGreenToBlueAndRed x) = chan 2 x + chan (Suc 0) x" "chan 3 (AddGreenToBlueAndRed x) = chan 3 x"
proof -
  define g where "g = drop_bit 8 x AND 0xff"
  define y where "y = (push_bit 16 g OR g)"
  have y: "y = y AND 0x00ff00ff"
  proof (rule chan_ext)
    have "chan (Suc 0) y = 0" "chan 3 y = 0"
      unfolding y_def g_def by (rule bit_word_eqI; simp add: bit_chan bit_simps less8; auto simp: bit_simps)+
    then show "k < 4 \<Longrightarrow> chan k y = chan k (y AND 0x00ff00ff)" for k
      by (drule_tac less4) auto
  qed
  have cy: "chan 0 y = chan (Suc 0) x" "chan 2 y = chan (Suc 0) x"
    unfolding y_def g_def by (rule bit_word_eqI; simp add: bit_chan bit_simps less8; auto simp: bit_simps)+
  note l0 = chan_add_le[OF _ mask_le(3)[of x] mask_le(3)[of y], folded y, simplified]
  note l2 = chan_add_le[OF _ mask_le(4)[of x] mask_le(4)[of y], folded y, simplified]
  have "AddGreenToBlueAndRed x = (x AND 0xff00ff00) OR (((x AND 0x00ff00ff) + y) AND 0x00ff00ff)"
    by (simp add: AddGreenToBlueAndRed_def Let_def y_def g_def)
  then show "chan 0 (AddGreenToBlueAndRed x) = chan 0 x + chan (Suc 0) x" "chan (Suc 0) (AddGreenToBlueAndRed x) = chan (Suc 0) x"
    "chan 2 (AddGreenToBlueAndRed x) = chan 2 x + chan (Suc 0) x" "chan 3 (AddGreenToBlueAndRed x) = chan 3 x"
    by (simp_all add: chan_or l0 l2 cy)
qed


lemma sub_green_inverse: "AddGreenToBlueAndRed (sub_green_px x) = x"
  by (rule chan_ext, drule less4) (auto simp: chan_sub_green chan_AddGreen)

subsection \<open>Pixel-wise transforms\<close>

text \<open>A transform of the pixels one by one, with its inverse: what the encoder does in place the
  decoder undoes, wherever its input lies.\<close>

locale pixel_transform =
  fixes fwd bwd :: "u32 \<Rightarrow> u32"
  assumes bwd_fwd: "bwd (fwd x) = x"
begin

definition fwd_loop :: "nat \<Rightarrow> u32 list \<Rightarrow> int \<Rightarrow> u32 list option" where
  "fwd_loop n m p = for_range 0 n (\<lambda>i m. do { x \<leftarrow> ld m (p + int i); st m (p + int i) (fwd x) }) m"

definition bwd_loop :: "nat \<Rightarrow> u32 list \<Rightarrow> int \<Rightarrow> int \<Rightarrow> u32 list option" where
  "bwd_loop n m src dst = for_range 0 n (\<lambda>i m. do { x \<leftarrow> ld m (src + int i); st m (dst + int i) (bwd x) }) m"

lemma roundtrip_loop:
  assumes "inb m p n" "inb m q n" "q \<le> p \<or> p + int n \<le> q"
  shows "do { m1 \<leftarrow> fwd_loop n m p; bwd_loop n m1 p q } =
    Some (blit (blit m p n (\<lambda>j. fwd (m ! nat (p + int j)))) q n (\<lambda>j. m ! nat (p + int j)))"
proof -
  let ?m1 = "blit m p n (\<lambda>j. fwd (m ! nat (p + int j)))"
  have "fwd_loop n m p = Some ?m1" unfolding fwd_loop_def using assms(1) by (intro map_loop) auto
  moreover have "bwd_loop n ?m1 p q = Some (blit ?m1 q n (\<lambda>j. bwd (?m1 ! nat (p + int j))))"
    unfolding bwd_loop_def using assms by (intro map_loop) auto
  moreover have "blit ?m1 q n (\<lambda>j. bwd (?m1 ! nat (p + int j))) = blit ?m1 q n (\<lambda>j. m ! nat (p + int j))"
    by (rule blit_cong) (use assms in \<open>auto simp: blit_nth inb_def bwd_fwd\<close>)
  ultimately show ?thesis by simp
qed

lemma roundtrip_in_place:
  assumes "inb m p n"
  shows "do { m1 \<leftarrow> fwd_loop n m p; bwd_loop n m1 p p } = Some m"
  using assms by (simp add: roundtrip_loop) (rule nth_equalityI; simp add: blit_nth inb_def)

end

interpretation subtract_green: pixel_transform sub_green_px AddGreenToBlueAndRed
  by unfold_locales (rule sub_green_inverse)

interpretation cross_color: pixel_transform "color_px mult" "color_inverse_px mult" for mult
  by unfold_locales (rule color_px_inverse)

lemma subtract_green_loops:
  "VP8LSubtractGreenFromBlueAndRed m p n = subtract_green.fwd_loop (nat n) m p"
  "VP8LAddGreenToBlueAndRed m p n q = subtract_green.bwd_loop (nat n) m p q"
  by (simp_all only: VP8LSubtractGreenFromBlueAndRed_def VP8LAddGreenToBlueAndRed_def
    subtract_green.fwd_loop_def subtract_green.bwd_loop_def sub_green_px_def AddGreenToBlueAndRed_def)

lemma cross_color_loops:
  "VP8LTransformColor mult m p n = cross_color.fwd_loop mult (nat n) m p"
  "VP8LTransformColorInverse mult m p n q = cross_color.bwd_loop mult (nat n) m p q"
  by (simp_all only: VP8LTransformColor_def VP8LTransformColorInverse_def
    cross_color.fwd_loop_def cross_color.bwd_loop_def color_px_def color_inverse_px_def)

text \<open>C4. Adding green back undoes subtracting it: for every buffer and every run of pixels in it the
  decoder's \<open>VP8LAddGreenToBlueAndRed\<close> restores what the encoder's transform changed in place.\<close>

theorem subtract_green_roundtrip:
  assumes "inb m p (nat n)"
  shows "do { m1 \<leftarrow> VP8LSubtractGreenFromBlueAndRed m p n; VP8LAddGreenToBlueAndRed m1 p n p } = Some m"
  unfolding subtract_green_loops by (rule subtract_green.roundtrip_in_place[OF assms])

lemma subtract_green_roundtrip_witness:
  "VP8LSubtractGreenFromBlueAndRed [0xff102030, 0x01feff00] 0 2 = Some [0xfff02010, 0x01ffff01] \<and>
   VP8LAddGreenToBlueAndRed [0xfff02010, 0x01ffff01] 0 2 0 = Some [0xff102030, 0x01feff00]"
proof -
  have fwd: "VP8LSubtractGreenFromBlueAndRed [0xff102030, 0x01feff00] 0 2 = Some [0xfff02010, 0x01ffff01]"
    by (simp add: VP8LSubtractGreenFromBlueAndRed_def exec_simps ld_def st_def Let_def)
  then show ?thesis
    using subtract_green_roundtrip[of "[0xff102030, 0x01feff00]" 0 2] by (simp add: inb_def)
qed

text \<open>C5. The cross-colour transform is undone by the decoder for every choice of multipliers: the red and blue
  of each pixel come back exactly, although blue is predicted from a red that was itself changed.\<close>

theorem cross_color_roundtrip:
  assumes "inb m p (nat n)"
  shows "do { m1 \<leftarrow> VP8LTransformColor mult m p n; VP8LTransformColorInverse mult m1 p n p } = Some m"
  unfolding cross_color_loops by (rule cross_color.roundtrip_in_place[OF assms])

lemma cross_color_roundtrip_witness:
  "do { m1 \<leftarrow> VP8LTransformColor \<lparr>green_to_red = 0xe5, green_to_blue = 0x20, red_to_blue = 0x91\<rparr> [0xff80c070, 0x12345678] 0 2;
    VP8LTransformColorInverse \<lparr>green_to_red = 0xe5, green_to_blue = 0x20, red_to_blue = 0x91\<rparr> m1 0 2 0 }
   = Some [0xff80c070, 0x12345678]"
  by (rule cross_color_roundtrip) (simp add: inb_def)


subsection \<open>Cross-colour over tiles\<close>

definition tile_multipliers :: "VP8LTransform \<Rightarrow> int \<Rightarrow> int \<Rightarrow> VP8LMultipliers" where
  "tile_multipliers t x y = ColorCodeToMultipliers (tdata t !
     nat (y div 2 ^ nat (tbits t) * tiles_per_row t + x div 2 ^ nat (tbits t)))"

lemma tiles_per_row_split:
  assumes "0 < W" "0 < (m::int)"
  shows "(W + m - 1) div m = W div m + (if W mod m = 0 then 0 else 1)"
proof -
  have W: "W = W div m * m + W mod m" by simp
  have pm: "0 \<le> W mod m" "W mod m < m" using assms by simp_all
  have "(W mod m + (m - 1)) div m = (if W mod m = 0 then 0 else 1)"
  proof (cases "W mod m = 0")
    case False
    then have "(W mod m - 1 + m) div m = (W mod m - 1) div m + 1" using assms by (intro div_add_self2) auto
    moreover have "(W mod m - 1) div m = 0"
      using False pm by (intro div_pos_pos_trivial) linarith+
    ultimately show ?thesis using False by (simp add: algebra_simps)
  qed (use assms in \<open>simp add: div_pos_pos_trivial\<close>)
  moreover have "(W + m - 1) div m = (W mod m + (m - 1) + W div m * m) div m"
    by (rule arg_cong[where f = "\<lambda>z. z div m"]) (subst W, simp)
  moreover have "\<dots> = W div m + (W mod m + (m - 1)) div m"
    using assms by (intro div_mult_self1) auto
  ultimately show ?thesis by (simp only:)
qed

lemma cross_color_run:
  assumes "inb m0 src N" "inb m0 dst N" "dst \<le> src \<or> src + int N \<le> dst"
    and g: "\<And>k. k < N \<Longrightarrow> g k = color_inverse_px (mult k) (m0 ! nat (src + int k))"
    and "k + n \<le> N" "\<And>i. k \<le> i \<Longrightarrow> i < k + n \<Longrightarrow> mult i = c"
  shows "VP8LTransformColorInverse c (blit m0 dst k g) (src + int k) (int n) (dst + int k) = Some (blit m0 dst (k + n) g)"
proof -
  have "VP8LTransformColorInverse c (blit m0 dst k g) (src + int k) (int n) (dst + int k) =
    Some (blit (blit m0 dst k g) (dst + int k) n (\<lambda>j. color_inverse_px c (blit m0 dst k g ! nat (src + int k + int j))))"
    unfolding cross_color_loops cross_color.bwd_loop_def nat_int
    using assms(1-3,5) by (intro map_loop) (auto simp: inb_def)
  also have "blit (blit m0 dst k g) (dst + int k) n (\<lambda>j. color_inverse_px c (blit m0 dst k g ! nat (src + int k + int j)))
    = blit (blit m0 dst k g) (dst + int k) n (\<lambda>j. g (j + k))"
    using assms by (intro blit_cong) (auto simp: g blit_nth inb_def algebra_simps)
  finally show ?thesis by (simp add: blit_extend)
qed

lemma ColorSpaceInverseTransform_lemma:
  assumes t: "transform_ok t" and y: "0 \<le> y0" "y0 < y1" "y1 \<le> tysize t"
    and mem: "inb m0 src (nat ((y1 - y0) * txsize t))" "inb m0 dst (nat ((y1 - y0) * txsize t))"
      "dst \<le> src \<or> src + (y1 - y0) * txsize t \<le> dst"
  shows "ColorSpaceInverseTransform t y0 y1 m0 src dst =
    Some (blit m0 dst (nat ((y1 - y0) * txsize t))
      (\<lambda>k. color_inverse_px (tile_multipliers t (int k mod txsize t) (y0 + int k div txsize t)) (m0 ! nat (src + int k))))"
proof -
  let ?W = "txsize t" and ?b = "nat (tbits t)"
  let ?N = "nat ((y1 - y0) * ?W)"
  let ?mult = "\<lambda>k. tile_multipliers t (int k mod ?W) (y0 + int k div ?W)"
  let ?g = "\<lambda>k. color_inverse_px (?mult k) (m0 ! nat (src + int k))"
  have W: "0 < ?W" "?W < 2 ^ 30" "?b < 16" using t by (auto simp: transform_ok_def)
  let ?tw = "2 ^ ?b :: int"
  define q where "q = ?W div ?tw"
  have tpr: "uint (VP8LSubSampleSize (word_of_int ?W) ?b) = tiles_per_row t"
    using W by (simp only: VP8LSubSampleSize_eq tiles_per_row_def)
  have tpr': "tiles_per_row t = q + (if ?W mod ?tw = 0 then 0 else 1)"
    unfolding tiles_per_row_def q_def using W by (intro tiles_per_row_split) auto
  have code: "ld (tdata t) (y div ?tw * tiles_per_row t + x div ?tw) =
      Some (tdata t ! nat (y div ?tw * tiles_per_row t + x div ?tw))"
    if "0 \<le> y" "y < tysize t" "0 \<le> x" "x < ?W" for x y
    using tile_index[OF t that] by (simp add: ld_def)
  have N: "int ?N = (y1 - y0) * ?W" using W y by simp
  have ov: "dst \<le> src \<or> src + int ?N \<le> dst" using mem(3) N by simp
  note run = cross_color_run[OF mem(1,2) ov, of ?g ?mult, OF refl]
  have safe: "?W AND NOT (push_bit ?b 1 - 1) = q * ?tw" by (simp only: tile_start q_def)
  define row where "row y = nat ((y - y0) * ?W)" for y
  let ?S = "\<lambda>y. (blit m0 dst (row (int y)) ?g, src + (int y - y0) * ?W, dst + (int y - y0) * ?W, int y div ?tw * tiles_per_row t)"
  have tiles: "for_range 0 (nat q) (\<lambda>_ (m, src, dst, pred). do {
         code \<leftarrow> ld (tdata t) pred;
         m \<leftarrow> VP8LTransformColorInverse (ColorCodeToMultipliers code) m src ?tw dst;
         Some (m, src + ?tw, dst + ?tw, pred + 1) }) (?S y) =
       Some (blit m0 dst (row (int y) + nat (q * ?tw)) ?g, src + (int y - y0) * ?W + q * ?tw, dst + (int y - y0) * ?W + q * ?tw,
         int y div ?tw * tiles_per_row t + q)" if "y0 \<le> int y" "int y < y1" for y
  proof -
    let ?I = "\<lambda>i s. s = (blit m0 dst (row (int y) + i * 2 ^ ?b) ?g, src + (int y - y0) * ?W + int i * ?tw,
        dst + (int y - y0) * ?W + int i * ?tw, int y div ?tw * tiles_per_row t + int i)"
    have q: "0 \<le> q" "q * ?tw \<le> ?W" using W
      by (simp_all add: q_def pos_imp_zdiv_nonneg_iff minus_mod_eq_div_mult[symmetric])
    have row: "int (row (int y)) = (int y - y0) * ?W" using that W by (simp add: row_def)
    have rowN: "row (int y) + nat ?W \<le> ?N"
    proof -
      have "(int y - y0 + 1) * ?W \<le> (y1 - y0) * ?W" using that W by (intro mult_right_mono) auto
      then show ?thesis using row N W by (simp add: algebra_simps)
    qed
    have "\<exists>s. for_range 0 (nat q) (\<lambda>_ (m, src, dst, pred). do {
         code \<leftarrow> ld (tdata t) pred;
         m \<leftarrow> VP8LTransformColorInverse (ColorCodeToMultipliers code) m src ?tw dst;
         Some (m, src + ?tw, dst + ?tw, pred + 1) }) (?S y) = Some s \<and> ?I (nat q) s"
    proof (rule for_range_inv)
      fix i s assume i: "i < nat q" and s: "?I i s"
      have le: "int i * ?tw + ?tw \<le> q * ?tw"
        using i mult_right_mono[of "int i + 1" q ?tw] by (simp add: algebra_simps)
      have "0 < ?tw" by simp
      then have x: "0 \<le> int i * ?tw" "int i * ?tw < ?W" using le q by (simp, linarith)
      let ?k = "row (int y) + i * 2 ^ ?b"
      have k: "?k + 2 ^ ?b \<le> ?N"
      proof -
        have "int (i * 2 ^ ?b + 2 ^ ?b) \<le> ?W" using le q by simp
        then show ?thesis using rowN by linarith
      qed
      have same: "?mult j = ColorCodeToMultipliers (tdata t ! nat (int y div ?tw * tiles_per_row t + int i))"
        if "?k \<le> j" "j < ?k + 2 ^ ?b" for j
      proof -
        define x' where "x' = int j - (int y - y0) * ?W"
        have "int ?k \<le> int j" "int j < int (?k + 2 ^ ?b)" using that by linarith+
        then have x': "int i * ?tw \<le> x'" "x' < int i * ?tw + ?tw" using row by (auto simp: x'_def)
        then have xr: "0 \<le> x'" "x' < ?W" using x' x(1) le q by linarith+
        have "int j = x' + (int y - y0) * ?W" by (simp add: x'_def)
        then have "int j mod ?W = x'" "int j div ?W = int y - y0" using xr by simp_all
        moreover have "x' div ?tw = int i" using same_block[of ?tw "int i * ?tw" x'] x' by simp
        ultimately show ?thesis by (simp add: tile_multipliers_def)
      qed
      have c: "ld (tdata t) (int y div ?tw * tiles_per_row t + int i) =
          Some (tdata t ! nat (int y div ?tw * tiles_per_row t + int i))"
        using code[of "int y" "int i * ?tw"] that y x by simp
      have "VP8LTransformColorInverse (ColorCodeToMultipliers (tdata t ! nat (int y div ?tw * tiles_per_row t + int i)))
         (blit m0 dst ?k ?g) (src + int ?k) (int (2 ^ ?b)) (dst + int ?k) = Some (blit m0 dst (?k + 2 ^ ?b) ?g)"
        using same k by (intro run) auto
      then have "VP8LTransformColorInverse (ColorCodeToMultipliers (tdata t ! nat (int y div ?tw * tiles_per_row t + int i)))
         (blit m0 dst ?k ?g) (src + (int y - y0) * ?W + int i * ?tw) ?tw (dst + (int y - y0) * ?W + int i * ?tw)
         = Some (blit m0 dst (row (int y) + Suc i * 2 ^ ?b) ?g)"
        using row by (simp add: add.assoc algebra_simps)
      with c show "\<exists>s'. (case s of (m, src, dst, pred) \<Rightarrow> do {
         code \<leftarrow> ld (tdata t) pred;
         m \<leftarrow> VP8LTransformColorInverse (ColorCodeToMultipliers code) m src ?tw dst;
         Some (m, src + ?tw, dst + ?tw, pred + 1) }) = Some s' \<and> ?I (Suc i) s'"
        by (simp add: s algebra_simps)
    qed simp_all
    moreover have "nat q * 2 ^ ?b = nat (q * ?tw)" using q by (simp add: nat_mult_distrib)
    ultimately show ?thesis using q by simp
  qed
  have rest: "(if src + (int y - y0) * ?W + q * ?tw < src + (int y - y0) * ?W + ?W then do {
       code \<leftarrow> ld (tdata t) (int y div ?tw * tiles_per_row t + q);
       m \<leftarrow> VP8LTransformColorInverse (ColorCodeToMultipliers code) (blit m0 dst (row (int y) + nat (q * ?tw)) ?g)
         (src + (int y - y0) * ?W + q * ?tw) (?W - q * ?tw) (dst + (int y - y0) * ?W + q * ?tw);
       Some (m, src + (int y - y0) * ?W + q * ?tw + (?W - q * ?tw), dst + (int y - y0) * ?W + q * ?tw + (?W - q * ?tw)) }
     else Some (blit m0 dst (row (int y) + nat (q * ?tw)) ?g, src + (int y - y0) * ?W + q * ?tw, dst + (int y - y0) * ?W + q * ?tw))
     = Some (blit m0 dst (row (int y + 1)) ?g, src + (int y + 1 - y0) * ?W, dst + (int y + 1 - y0) * ?W)"
    if "y0 \<le> int y" "int y < y1" for y
  proof -
    have q: "0 \<le> q" "q * ?tw \<le> ?W" using W
      by (simp_all add: q_def pos_imp_zdiv_nonneg_iff minus_mod_eq_div_mult[symmetric])
    have row: "int (row (int y)) = (int y - y0) * ?W" using that W by (simp add: row_def)
    have row1: "row (int y + 1) = row (int y) + nat ?W"
      using that W unfolding row_def by (subst nat_add_distrib[symmetric]) (auto simp: algebra_simps)
    have rowN: "row (int y) + nat ?W \<le> ?N"
    proof -
      have "(int y - y0 + 1) * ?W \<le> (y1 - y0) * ?W" using that W by (intro mult_right_mono) auto
      then show ?thesis using row N W by (simp add: algebra_simps)
    qed
    show ?thesis
    proof (cases "q * ?tw < ?W")
      case True
      let ?k = "row (int y) + nat (q * ?tw)" and ?n = "nat (?W - q * ?tw)"
      have kn: "?k + ?n = row (int y + 1)" using True q row1 W by (simp add: nat_diff_distrib)
      have same: "?mult j = ColorCodeToMultipliers (tdata t ! nat (int y div ?tw * tiles_per_row t + q))"
        if "?k \<le> j" "j < ?k + ?n" for j
      proof -
        define x' where "x' = int j - (int y - y0) * ?W"
        have "int ?k \<le> int j" "int j < int (?k + ?n)" using that by linarith+
        then have x': "q * ?tw \<le> x'" "x' < ?W" using row q True by (auto simp: x'_def)
        then have xr: "0 \<le> x'" using q by (auto intro: order_trans[of _ "q * ?tw"])
        have "int j = x' + (int y - y0) * ?W" by (simp add: x'_def)
        then have "int j mod ?W = x'" "int j div ?W = int y - y0" using xr x' by simp_all
        moreover have "?W mod ?tw < ?tw" by simp
        then have "x' < q * ?tw + ?tw"
          using x'(2) unfolding q_def minus_mod_eq_div_mult[symmetric] by linarith
        then have "x' div ?tw = q" using same_block[of ?tw "q * ?tw" x'] x' by simp
        ultimately show ?thesis by (simp add: tile_multipliers_def)
      qed
      have c: "ld (tdata t) (int y div ?tw * tiles_per_row t + q) =
          Some (tdata t ! nat (int y div ?tw * tiles_per_row t + q))"
        using code[of "int y" "q * ?tw"] that y q True by simp
      have "VP8LTransformColorInverse (ColorCodeToMultipliers (tdata t ! nat (int y div ?tw * tiles_per_row t + q)))
         (blit m0 dst ?k ?g) (src + int ?k) (int ?n) (dst + int ?k) = Some (blit m0 dst (?k + ?n) ?g)"
        using same kn row1 rowN by (intro run) auto
      then have "VP8LTransformColorInverse (ColorCodeToMultipliers (tdata t ! nat (int y div ?tw * tiles_per_row t + q)))
         (blit m0 dst ?k ?g) (src + (int y - y0) * ?W + q * ?tw) (?W - q * ?tw) (dst + (int y - y0) * ?W + q * ?tw)
         = Some (blit m0 dst (row (int y + 1)) ?g)"
        using row q True kn by (simp add: add.assoc)
      with c True show ?thesis by (simp add: algebra_simps)
    next
      case False
      with q have "q * ?tw = ?W" by simp
      with row1 show ?thesis by (simp add: algebra_simps)
    qed
  qed
  have "\<exists>s. for_range (nat y0) (nat y1)
         (\<lambda>y (m, src, dst, pred_row). do {
            (m, src', dst, pred) \<leftarrow>
              for_range 0 (nat q)
                (\<lambda>_ (m, src, dst, pred). do {
                   code \<leftarrow> ld (tdata t) pred;
                   m \<leftarrow> VP8LTransformColorInverse (ColorCodeToMultipliers code) m src ?tw dst;
                   Some (m, src + ?tw, dst + ?tw, pred + 1) })
                (m, src, dst, pred_row);
            (m, src', dst) \<leftarrow>
              (if src' < src + ?W then do {
                 code \<leftarrow> ld (tdata t) pred;
                 m \<leftarrow> VP8LTransformColorInverse (ColorCodeToMultipliers code) m src' (?W - q * ?tw) dst;
                 Some (m, src' + (?W - q * ?tw), dst + (?W - q * ?tw)) }
               else Some (m, src', dst));
            Some (m, src', dst,
              (if (int y + 1) AND (push_bit ?b 1 - 1) = 0 then pred_row + tiles_per_row t else pred_row)) })
         (?S (nat y0)) = Some s \<and> s = ?S (nat y1)"
  proof (rule for_range_inv)
    fix j s assume j: "nat y0 \<le> j" "j < nat y1" and s: "s = ?S j"
    then have j': "y0 \<le> int j" "int j < y1" using y by auto
    note nt = next_tile_row[of "int j" ?b "tiles_per_row t", OF of_nat_0_le_iff]
    show "\<exists>s'. (case s of (m, src, dst, pred_row) \<Rightarrow> do {
            (m, src', dst, pred) \<leftarrow>
              for_range 0 (nat q)
                (\<lambda>_ (m, src, dst, pred). do {
                   code \<leftarrow> ld (tdata t) pred;
                   m \<leftarrow> VP8LTransformColorInverse (ColorCodeToMultipliers code) m src ?tw dst;
                   Some (m, src + ?tw, dst + ?tw, pred + 1) })
                (m, src, dst, pred_row);
            (m, src', dst) \<leftarrow>
              (if src' < src + ?W then do {
                 code \<leftarrow> ld (tdata t) pred;
                 m \<leftarrow> VP8LTransformColorInverse (ColorCodeToMultipliers code) m src' (?W - q * ?tw) dst;
                 Some (m, src' + (?W - q * ?tw), dst + (?W - q * ?tw)) }
               else Some (m, src', dst));
            Some (m, src', dst,
              (if (int j + 1) AND (push_bit ?b 1 - 1) = 0 then pred_row + tiles_per_row t else pred_row)) }) = Some s'
        \<and> s' = ?S (Suc j)"
      unfolding s prod.case tiles[OF j'] Option.bind.simps rest[OF j'] nt
      by (simp add: algebra_simps)
  qed (use y in auto)
  then show ?thesis
    unfolding ColorSpaceInverseTransform_def Let_def tpr safe
    using y by (simp add: row_def drop_bit_eq_div)
qed

subsection \<open>Unbundling palette indices\<close>

text \<open>The index that pixel \<open>x\<close> of a row has in the packed pixel \<open>w\<close> that holds it.\<close>

definition unbundle_index :: "nat \<Rightarrow> u32 \<Rightarrow> int \<Rightarrow> u32" where
  "unbundle_index b w x = take_bit (8 div 2 ^ b) (drop_bit (8 div 2 ^ b * nat (x mod 2 ^ b)) w)"

definition packed_width :: "VP8LTransform \<Rightarrow> int" where
  "packed_width t = tiles_per_row t"

definition palette_input ::
  "('a \<Rightarrow> u32) \<Rightarrow> VP8LTransform \<Rightarrow> nat \<Rightarrow> 'a list \<Rightarrow> int \<Rightarrow> int \<Rightarrow> (int \<Rightarrow> int \<Rightarrow> int) \<Rightarrow> bool" where
  "palette_input GET_INDEX t rows m src dst idx \<longleftrightarrow>
     (let W = txsize t; w = packed_width t in
      0 \<le> tbits t \<and> tbits t < 4 \<and> 0 < W \<and> W < 2 ^ 30 \<and>
      inb m src (nat (int rows * w)) \<and> inb m dst (nat (int rows * W)) \<and>
      (src + int rows * w \<le> dst \<or> dst + int rows * W \<le> src + int rows * w) \<and>
      (\<forall>r x. 0 \<le> r \<longrightarrow> r < int rows \<longrightarrow> 0 \<le> x \<longrightarrow> x < W \<longrightarrow>
         uint (unbundle_index (nat (tbits t)) (GET_INDEX (m ! nat (src + r * w + x div 2 ^ nat (tbits t)))) x) = idx r x \<and>
         idx r x < int (length (tdata t))))"

lemma div_diff_le: "(x::int) \<le> y \<Longrightarrow> 0 < p \<Longrightarrow> y div p - x div p \<le> y - x"
proof -
  assume *: "x \<le> y" "0 < p"
  have "(y - x) * 1 \<le> (y - x) * p" using * by (intro mult_left_mono) auto
  then have "y div p \<le> (x + (y - x) * p) div p" using * by (intro zdiv_mono1) auto
  with * show ?thesis by simp
qed

lemma packed_width_eq:
  assumes "0 < txsize t"
  shows "packed_width t = (txsize t - 1) div 2 ^ nat (tbits t) + 1"
proof -
  have "packed_width t = (txsize t - 1 + 2 ^ nat (tbits t)) div 2 ^ nat (tbits t)"
    by (simp add: packed_width_def tiles_per_row_def algebra_simps)
  then show ?thesis by (simp add: div_add_self2)
qed

lemma packed_before:
  assumes "0 < txsize t" "0 \<le> x" "x < txsize t" "0 \<le> r" "r < R"
  shows "x div 2 ^ nat (tbits t) < packed_width t"
    and "r * txsize t + x + (R * packed_width t) \<le> R * txsize t + (r * packed_width t + x div 2 ^ nat (tbits t))"
proof -
  let ?W = "txsize t" and ?p = "2 ^ nat (tbits t) :: int"
  note w = packed_width_eq[OF assms(1)]
  show "x div ?p < packed_width t" using w zdiv_mono1[of x "?W - 1" ?p] assms by simp
  have d: "x - x div ?p \<le> ?W - packed_width t" using div_diff_le[of x "?W - 1" ?p] assms w by simp
  have "0 \<le> ?W - packed_width t" using div_diff_le[of 0 "?W - 1" ?p] assms w by simp
  then have "1 * (?W - packed_width t) \<le> (R - r) * (?W - packed_width t)" using assms by (intro mult_right_mono) auto
  with d show "r * ?W + x + (R * packed_width t) \<le> R * ?W + (r * packed_width t + x div ?p)"
    by (simp add: algebra_simps)
qed


lemma and_low_bits: "int y AND (push_bit b 1 - 1) = int (y mod 2 ^ b)"
proof -
  have "int y AND (push_bit b 1 - 1) = take_bit b (int y)"
    by (simp add: take_bit_eq_mask mask_eq_exp_minus_1 push_bit_eq_mult)
  also have "\<dots> = int (y mod 2 ^ b)" by (simp only: take_bit_eq_mod zmod_int of_nat_power of_nat_numeral)
  finally show ?thesis .
qed

definition read_so_far :: "nat \<Rightarrow> nat \<Rightarrow> int" where
  "read_so_far b x = (int x + 2 ^ b - 1) div 2 ^ b"

lemma read_so_far_Suc: "read_so_far b (Suc x) = int x div 2 ^ b + 1"
  by (simp add: read_so_far_def div_add_self2)

lemma read_so_far_cases:
  "read_so_far b x = int x div 2 ^ b + (if x mod 2 ^ b = 0 then 0 else 1)"
proof (cases "x = 0")
  case False
  have "int x mod 2 ^ b = int (x mod 2 ^ b)" by (simp add: zmod_int)
  then show ?thesis using tiles_per_row_split[of "int x" "2 ^ b"] False by (simp add: read_so_far_def)
qed (simp add: read_so_far_def div_pos_pos_trivial)

lemma bpp_values:
  assumes "b < 4" shows "drop_bit b (8 :: int) = int (8 div 2 ^ b)" "8 div 2 ^ b * 2 ^ b = (8 :: nat)"
  using assms less4[of b] by (auto simp: drop_bit_eq_div)

lemma unbundle_step:
  assumes p: "int x AND (push_bit b 1 - 1) \<noteq> 0 \<longrightarrow> packed = drop_bit (8 div 2 ^ b * (x mod 2 ^ b)) w"
    and q: "q = (if int x AND (push_bit b 1 - 1) = 0 then w else packed)"
  shows "q AND (push_bit (8 div 2 ^ b) 1 - 1) = unbundle_index b w (int x)"
    "int (Suc x) AND (push_bit b 1 - 1) \<noteq> 0 \<Longrightarrow> drop_bit (8 div 2 ^ b) q = drop_bit (8 div 2 ^ b * (Suc x mod 2 ^ b)) w"
    "int (Suc x) AND (push_bit b 1 - 1) \<noteq> 0 \<Longrightarrow> int (Suc x) div 2 ^ b = int x div 2 ^ b"
proof -
  note m = and_low_bits
  have q': "q = drop_bit (8 div 2 ^ b * (x mod 2 ^ b)) w"
    using p q unfolding m by (cases "x mod 2 ^ b = 0") auto
  have "nat (int x mod 2 ^ b) = x mod 2 ^ b" by (metis nat_int of_nat_numeral of_nat_power zmod_int)
  then show "q AND (push_bit (8 div 2 ^ b) 1 - 1) = unbundle_index b w (int x)"
    unfolding unbundle_index_def q' by (simp add: push_bit_eq_mult take_bit_eq_mask mask_eq_exp_minus_1)
  assume "int (Suc x) AND (push_bit b 1 - 1) \<noteq> 0"
  then have nz: "Suc x mod 2 ^ b \<noteq> 0" unfolding m by simp
  then have S: "Suc x mod 2 ^ b = Suc (x mod 2 ^ b)" by (simp add: mod_Suc split: if_splits)
  show "drop_bit (8 div 2 ^ b) q = drop_bit (8 div 2 ^ b * (Suc x mod 2 ^ b)) w"
    unfolding q' S by (simp add: drop_bit_drop_bit algebra_simps)
  have "int (Suc x div 2 ^ b) = int (x div 2 ^ b)" using nz by (simp add: div_Suc)
  then show "int (Suc x) div 2 ^ b = int x div 2 ^ b" by (simp only: zdiv_int of_nat_power of_nat_numeral)
qed

lemma unbundle_row:
  fixes GET_INDEX :: "'a \<Rightarrow> u32"
  assumes inp: "palette_input GET_INDEX t rows m0 src dst idx" and r: "r < rows" and b: "b = nat (tbits t)"
    and g: "g = (\<lambda>k. GET_VALUE (tdata t ! nat (idx (int k div txsize t) (int k mod txsize t))))"
  shows "\<exists>packed. for_range 0 (nat (txsize t)) (\<lambda>x (m, src, dst, packed_pixels). do {
        (src, packed_pixels) \<leftarrow>
          (if int x AND (push_bit b 1 - 1) = 0
           then do { s \<leftarrow> ld m src; Some (src + 1, GET_INDEX s) }
           else Some (src, packed_pixels));
        c \<leftarrow> ld (tdata t) (uint (packed_pixels AND (push_bit (8 div 2 ^ b) 1 - 1)));
        m \<leftarrow> st m dst (GET_VALUE c);
        Some (m, src, dst + 1, drop_bit (8 div 2 ^ b) packed_pixels) })
      (blit m0 dst (r * nat (txsize t)) g, src + int r * packed_width t, dst + int r * txsize t, 0) =
    Some (blit m0 dst (Suc r * nat (txsize t)) g, src + int (Suc r) * packed_width t, dst + int (Suc r) * txsize t, packed)"
proof -
  let ?W = "txsize t" and ?w = "packed_width t"
  let ?word = "\<lambda>x. GET_INDEX (m0 ! nat (src + int r * ?w + int x div 2 ^ b))"
  let ?I = "\<lambda>x (m, s, d, packed).
     m = blit m0 dst (r * nat ?W + x) g \<and> s = src + int r * ?w + read_so_far b x \<and> d = dst + int r * ?W + int x \<and>
     (int x AND (push_bit b 1 - 1) \<noteq> 0 \<longrightarrow> packed = drop_bit (8 div 2 ^ b * (x mod 2 ^ b)) (?word x))"
  have W: "0 < ?W" using inp by (simp add: palette_input_def Let_def)
  have mem: "inb m0 src (nat (int rows * ?w))" "inb m0 dst (nat (int rows * ?W))"
    "src + int rows * ?w \<le> dst \<or> dst + int rows * ?W \<le> src + int rows * ?w"
    using inp by (auto simp: palette_input_def Let_def)
  have idx: "uint (unbundle_index b (?word x) (int x)) = idx (int r) (int x)" "idx (int r) (int x) < int (length (tdata t))"
    if "int x < ?W" for x
    using inp that r unfolding palette_input_def Let_def b by auto
  have "\<exists>s. for_range 0 (nat ?W) (\<lambda>x (m, src, dst, packed_pixels). do {
        (src, packed_pixels) \<leftarrow>
          (if int x AND (push_bit b 1 - 1) = 0
           then do { s \<leftarrow> ld m src; Some (src + 1, GET_INDEX s) }
           else Some (src, packed_pixels));
        c \<leftarrow> ld (tdata t) (uint (packed_pixels AND (push_bit (8 div 2 ^ b) 1 - 1)));
        m \<leftarrow> st m dst (GET_VALUE c);
        Some (m, src, dst + 1, drop_bit (8 div 2 ^ b) packed_pixels) })
      (blit m0 dst (r * nat ?W) g, src + int r * ?w, dst + int r * ?W, 0) = Some s \<and> ?I (nat ?W) s"
  proof (rule for_range_inv[where I = ?I])
    show "?I 0 (blit m0 dst (r * nat ?W) g, src + int r * ?w, dst + int r * ?W, 0)"
      using read_so_far_cases[of b 0] by simp
  next
    fix x s assume x: "x < nat ?W" and I: "?I x s"
    obtain m s0 d packed where s: "s = (m, s0, d, packed)" by (cases s)
    from x have x': "int x < ?W" by simp
    note pb = packed_before[OF W _ x', of "int r" "int rows", folded b, simplified, OF r]
    note m = and_low_bits
    have rd: "ld m s0 = Some (m0 ! nat (src + int r * ?w + int x div 2 ^ b)) \<and> s0 + 1 = src + int r * ?w + read_so_far b (Suc x)"
      if z: "int x AND (push_bit b 1 - 1) = 0"
    proof -
      have c: "read_so_far b x = int x div 2 ^ b" using z unfolding m read_so_far_cases by simp
      let ?a = "src + int r * ?w + int x div 2 ^ b"
      have aw: "?a < src + int rows * ?w" "src \<le> ?a" "0 \<le> int rows * ?w"
      proof -
        have "0 \<le> int x div 2 ^ b" by (simp add: pos_imp_zdiv_nonneg_iff)
        moreover have "(int r + 1) * ?w \<le> int rows * ?w" using r pb(1) calculation by (intro mult_right_mono) auto
        moreover have "0 \<le> int r * ?w" "0 \<le> int rows * ?w" using pb(1) calculation(1) by simp_all
        ultimately show "?a < src + int rows * ?w" "src \<le> ?a" "0 \<le> int rows * ?w"
          using pb(1) by (simp_all add: algebra_simps)
      qed
      have "int (r * nat ?W + x) = int r * ?W + int x" using W by simp
      then have "?a < dst \<or> dst + int (r * nat ?W + x) \<le> ?a"
        using mem(3) pb(2) aw by linarith
      then have "ld m s0 = ld m0 ?a" using I s c by (simp add: ld_blit_out)
      also have "\<dots> = Some (m0 ! nat ?a)"
        using mem(1) aw W by (simp add: inb_def ld_def)
      finally show ?thesis using I s c by (simp add: read_so_far_Suc)
    qed
    have s1: "s0 = src + int r * ?w + read_so_far b (Suc x)" if "int x AND (push_bit b 1 - 1) \<noteq> 0"
      using that I unfolding m s by (simp add: read_so_far_Suc read_so_far_cases[of b x])
    define q where "q = (if int x AND (push_bit b 1 - 1) = 0 then ?word x else packed)"
    have "int x AND (push_bit b 1 - 1) \<noteq> 0 \<longrightarrow> packed = drop_bit (8 div 2 ^ b * (x mod 2 ^ b)) (?word x)"
      using I s by simp
    note step = unbundle_step[OF this q_def]
    have c: "ld (tdata t) (uint (q AND (push_bit (8 div 2 ^ b) 1 - 1))) = Some (tdata t ! nat (idx (int r) (int x)))"
    proof -
      have e: "uint (q AND (push_bit (8 div 2 ^ b) 1 - 1)) = idx (int r) (int x)"
        by (simp only: step(1) idx(1)[OF x'])
      then have "0 \<le> idx (int r) (int x)" by (metis uint_ge_0)
      with idx(2)[OF x'] show ?thesis unfolding e by (simp add: ld_def)
    qed
    have gk: "GET_VALUE (tdata t ! nat (idx (int r) (int x))) = g (r * nat ?W + x)"
      using W x' by (simp add: g)
    have w: "st m d (g (r * nat ?W + x)) = Some (blit m0 dst (r * nat ?W + Suc x) g)"
    proof -
      have "int (r * nat ?W + x) = int r * ?W + int x" using W by simp
      moreover have "st (blit m0 dst (r * nat ?W + x) g) (dst + int (r * nat ?W + x)) (g (r * nat ?W + x)) =
        Some (blit m0 dst (Suc (r * nat ?W + x)) g)"
      proof (rule st_blit[OF mem(2)])
        have "Suc r * nat ?W \<le> rows * nat ?W" using r by (intro mult_right_mono) auto
        moreover have "nat (int rows * ?W) = rows * nat ?W" using W by (simp add: nat_mult_distrib)
        ultimately show "r * nat ?W + x < nat (int rows * ?W)" using x by simp
      qed simp
      ultimately show ?thesis using I s W by (simp add: add.assoc)
    qed
    show "\<exists>s'. (case s of (m, src, dst, packed_pixels) \<Rightarrow> do {
        (src, packed_pixels) \<leftarrow>
          (if int x AND (push_bit b 1 - 1) = 0
           then do { s \<leftarrow> ld m src; Some (src + 1, GET_INDEX s) }
           else Some (src, packed_pixels));
        c \<leftarrow> ld (tdata t) (uint (packed_pixels AND (push_bit (8 div 2 ^ b) 1 - 1)));
        m \<leftarrow> st m dst (GET_VALUE c);
        Some (m, src, dst + 1, drop_bit (8 div 2 ^ b) packed_pixels) }) = Some s' \<and> ?I (Suc x) s'"
      unfolding s prod.case using rd s1 c w gk step(2,3) I[unfolded s prod.case]
      by (cases "int x AND (push_bit b 1 - 1) = 0") (simp_all add: q_def)
  qed simp_all
  moreover have "read_so_far b (nat ?W) = ?w" using W by (simp add: read_so_far_def packed_width_def tiles_per_row_def b)
  moreover have "r * nat ?W + nat ?W = Suc r * nat ?W" by simp
  ultimately show ?thesis using W by (auto simp: algebra_simps)
qed

definition palette_output :: "(u32 \<Rightarrow> 'a) \<Rightarrow> VP8LTransform \<Rightarrow> nat \<Rightarrow> 'a list \<Rightarrow> int \<Rightarrow> (int \<Rightarrow> int \<Rightarrow> int) \<Rightarrow> 'a list" where
  "palette_output GET_VALUE t rows m dst idx =
     blit m dst (nat (int rows * txsize t))
       (\<lambda>k. GET_VALUE (tdata t ! nat (idx (int k div txsize t) (int k mod txsize t))))"

lemma map_row:
  fixes GET_INDEX :: "'a \<Rightarrow> u32"
  assumes inp: "palette_input GET_INDEX t rows m0 src dst idx" and r: "r < rows" and b: "tbits t = 0"
    and byte: "\<And>v. take_bit 8 (GET_INDEX v) = GET_INDEX v"
    and g: "g = (\<lambda>k. GET_VALUE (tdata t ! nat (idx (int k div txsize t) (int k mod txsize t))))"
  shows "for_range 0 (nat (txsize t))
         (\<lambda>x (m, src, dst). do {
            s \<leftarrow> ld m src;
            c \<leftarrow> ld (tdata t) (uint (GET_INDEX s));
            m \<leftarrow> st m dst (GET_VALUE c);
            Some (m, src + 1, dst + 1) })
      (blit m0 dst (r * nat (txsize t)) g, src + int r * txsize t, dst + int r * txsize t) =
    Some (blit m0 dst (Suc r * nat (txsize t)) g, src + int (Suc r) * txsize t, dst + int (Suc r) * txsize t)"
proof -
  let ?W = "txsize t"
  let ?S = "\<lambda>x. (blit m0 dst (r * nat ?W + x) g, src + int r * ?W + int x, dst + int r * ?W + int x)"
  have W: "0 < ?W" using inp by (simp add: palette_input_def Let_def)
  have w: "packed_width t = ?W" using W b by (simp add: packed_width_eq)
  have mem: "inb m0 src (nat (int rows * ?W))" "inb m0 dst (nat (int rows * ?W))"
    "src + int rows * ?W \<le> dst \<or> dst \<le> src"
    using inp w by (auto simp: palette_input_def Let_def)
  have idx: "uint (GET_INDEX (m0 ! nat (src + int r * ?W + int x))) = idx (int r) (int x)"
     "idx (int r) (int x) < int (length (tdata t))" if "int x < ?W" for x
    using inp that r byte unfolding palette_input_def Let_def w b by (auto simp: unbundle_index_def)
  have "\<exists>s. for_range 0 (nat ?W)
         (\<lambda>x (m, src, dst). do {
            s \<leftarrow> ld m src;
            c \<leftarrow> ld (tdata t) (uint (GET_INDEX s));
            m \<leftarrow> st m dst (GET_VALUE c);
            Some (m, src + 1, dst + 1) })
      (blit m0 dst (r * nat ?W) g, src + int r * ?W, dst + int r * ?W) = Some s \<and> s = ?S (nat ?W)"
  proof (rule for_range_inv[where I = "\<lambda>x s. s = ?S x"])
    fix x s assume x: "x < nat ?W" and s: "s = ?S x"
    let ?k = "r * nat ?W + x"
    have k: "int ?k = int r * ?W + int x" using W by simp
    have "Suc r * nat ?W \<le> rows * nat ?W" using r by (intro mult_right_mono) auto
    moreover have N: "nat (int rows * ?W) = rows * nat ?W" using W by (simp add: nat_mult_distrib)
    ultimately have kN: "?k < nat (int rows * ?W)" using x by simp
    have "int ?k < int rows * ?W" using kN unfolding zless_nat_eq_int_zless .
    then have "ld (blit m0 dst ?k g) (src + int ?k) = ld m0 (src + int ?k)"
      using mem(3) by (intro ld_blit_out) linarith
    then have rd: "ld (blit m0 dst ?k g) (src + int r * ?W + int x) = Some (m0 ! nat (src + int r * ?W + int x))"
      using ld_inb[OF mem(1) kN] unfolding k add.assoc by simp
    have c: "ld (tdata t) (uint (GET_INDEX (m0 ! nat (src + int r * ?W + int x)))) = Some (tdata t ! nat (idx (int r) (int x)))"
    proof -
      have "int x < ?W" using x by simp
      note e = idx[OF this]
      then have "0 \<le> idx (int r) (int x)" by (metis uint_ge_0)
      with e show ?thesis by (simp add: ld_def)
    qed
    have gk: "GET_VALUE (tdata t ! nat (idx (int r) (int x))) = g ?k" using W x by (simp add: g)
    have "st (blit m0 dst ?k g) (dst + int ?k) (g ?k) = Some (blit m0 dst (Suc ?k) g)"
      by (rule st_blit[OF mem(2) kN refl])
    then have "st (blit m0 dst ?k g) (dst + int r * ?W + int x) (g ?k) = Some (blit m0 dst (r * nat ?W + Suc x) g)"
      unfolding k add.assoc by simp
    with rd c gk show "\<exists>s'. (case s of (m, src, dst) \<Rightarrow> do {
            s \<leftarrow> ld m src;
            c \<leftarrow> ld (tdata t) (uint (GET_INDEX s));
            m \<leftarrow> st m dst (GET_VALUE c);
            Some (m, src + 1, dst + 1) }) = Some s' \<and> s' = ?S (Suc x)"
      unfolding s prod.case by simp
  qed simp_all
  moreover have "r * nat ?W + nat ?W = Suc r * nat ?W" by simp
  ultimately show ?thesis using W by (simp add: algebra_simps)
qed

lemma color_index_inverse_lemma:
  fixes GET_INDEX :: "'a \<Rightarrow> u32"
  assumes inp: "palette_input GET_INDEX t (nat (y1 - y0)) m src dst idx" and y: "0 \<le> y0" "y0 \<le> y1"
    and byte: "\<And>v. take_bit 8 (GET_INDEX v) = GET_INDEX v"
  shows "color_index_inverse GET_INDEX GET_VALUE t y0 y1 m src dst =
    Some (palette_output GET_VALUE t (nat (y1 - y0)) m dst idx)"
proof -
  let ?W = "txsize t" and ?w = "packed_width t" and ?b = "nat (tbits t)" and ?R = "nat (y1 - y0)"
  define g where "g = (\<lambda>k. GET_VALUE (tdata t ! nat (idx (int k div ?W) (int k mod ?W))))"
  have W: "0 < ?W" and b: "?b < 4" using inp by (auto simp: palette_input_def Let_def)
  have out: "palette_output GET_VALUE t ?R m dst idx = blit m dst (?R * nat ?W) g"
    using W y by (simp add: palette_output_def g_def nat_mult_distrib)
  show ?thesis
  proof (cases "?b = 0")
    case False
    have bpp: "drop_bit ?b (8 :: int) = int (8 div 2 ^ ?b)" "drop_bit ?b (8 :: int) < 8"
      using bpp_values[OF b] less4[OF b] False by auto
    let ?S = "\<lambda>r. (blit m dst (r * nat ?W) g, src + int r * ?w, dst + int r * ?W)"
    have "\<exists>s. for_range (nat y0) (nat y1) (\<lambda>y (m, src, dst). do {
           (m, src, dst, packed_pixels) \<leftarrow>
             for_range 0 (nat ?W)
               (\<lambda>x (m, src, dst, packed_pixels). do {
                  (src, packed_pixels) \<leftarrow>
                    (if int x AND (push_bit ?b 1 - 1) = 0
                     then do { s \<leftarrow> ld m src; Some (src + 1, GET_INDEX s) }
                     else Some (src, packed_pixels));
                  c \<leftarrow> ld (tdata t) (uint (packed_pixels AND (push_bit (8 div 2 ^ ?b) 1 - 1)));
                  m \<leftarrow> st m dst (GET_VALUE c);
                  Some (m, src, dst + 1, drop_bit (8 div 2 ^ ?b) packed_pixels) })
               (m, src, dst, 0);
           Some (m, src, dst) }) (m, src, dst) = Some s \<and> s = ?S (nat y1 - nat y0)"
    proof (rule for_range_inv[where I = "\<lambda>r s. s = ?S (r - nat y0)"])
      fix r s assume r: "nat y0 \<le> r" "r < nat y1" and s: "s = ?S (r - nat y0)"
      have "r - nat y0 < ?R" using r y by linarith
      from unbundle_row[OF inp this refl g_def] obtain packed where
        row: "for_range 0 (nat ?W) (\<lambda>x (m, src, dst, packed_pixels). do {
                  (src, packed_pixels) \<leftarrow>
                    (if int x AND (push_bit ?b 1 - 1) = 0
                     then do { s \<leftarrow> ld m src; Some (src + 1, GET_INDEX s) }
                     else Some (src, packed_pixels));
                  c \<leftarrow> ld (tdata t) (uint (packed_pixels AND (push_bit (8 div 2 ^ ?b) 1 - 1)));
                  m \<leftarrow> st m dst (GET_VALUE c);
                  Some (m, src, dst + 1, drop_bit (8 div 2 ^ ?b) packed_pixels) })
           (blit m dst ((r - nat y0) * nat ?W) g, src + int (r - nat y0) * ?w, dst + int (r - nat y0) * ?W, 0) =
          Some (blit m dst (Suc (r - nat y0) * nat ?W) g, src + int (Suc (r - nat y0)) * ?w,
            dst + int (Suc (r - nat y0)) * ?W, packed)" by blast
      moreover have "Suc r - nat y0 = Suc (r - nat y0)" using r by simp
      ultimately show "\<exists>s'. (case s of (m, src, dst) \<Rightarrow> do {
           (m, src, dst, packed_pixels) \<leftarrow>
             for_range 0 (nat ?W)
               (\<lambda>x (m, src, dst, packed_pixels). do {
                  (src, packed_pixels) \<leftarrow>
                    (if int x AND (push_bit ?b 1 - 1) = 0
                     then do { s \<leftarrow> ld m src; Some (src + 1, GET_INDEX s) }
                     else Some (src, packed_pixels));
                  c \<leftarrow> ld (tdata t) (uint (packed_pixels AND (push_bit (8 div 2 ^ ?b) 1 - 1)));
                  m \<leftarrow> st m dst (GET_VALUE c);
                  Some (m, src, dst + 1, drop_bit (8 div 2 ^ ?b) packed_pixels) })
               (m, src, dst, 0);
           Some (m, src, dst) }) = Some s' \<and> s' = ?S (Suc r - nat y0)"
        unfolding s prod.case by (simp only: Option.bind.simps prod.case) simp
    qed (use y in auto)
    then show ?thesis
      unfolding color_index_inverse_def Let_def bpp(1) nat_int out
      using bpp y by (simp add: nat_diff_distrib)
  next
    case True
    then have b0: "tbits t = 0" using inp by (auto simp: palette_input_def Let_def)
    let ?S = "\<lambda>r. (blit m dst (r * nat ?W) g, src + int r * ?W, dst + int r * ?W)"
    have "\<exists>s. for_range (nat y0) (nat y1) (\<lambda>y. for_range 0 (nat ?W)
         (\<lambda>x (m, src, dst). do {
            s \<leftarrow> ld m src;
            c \<leftarrow> ld (tdata t) (uint (GET_INDEX s));
            m \<leftarrow> st m dst (GET_VALUE c);
            Some (m, src + 1, dst + 1) })) (m, src, dst) = Some s \<and> s = ?S (nat y1 - nat y0)"
    proof (rule for_range_inv[where I = "\<lambda>r s. s = ?S (r - nat y0)"])
      fix r s assume r: "nat y0 \<le> r" "r < nat y1" and s: "s = ?S (r - nat y0)"
      have "r - nat y0 < ?R" using r y by linarith
      note map_row[OF inp this b0 byte g_def]
      moreover have "Suc r - nat y0 = Suc (r - nat y0)" using r by simp
      ultimately show "\<exists>s'. for_range 0 (nat ?W)
         (\<lambda>x (m, src, dst). do {
            s \<leftarrow> ld m src;
            c \<leftarrow> ld (tdata t) (uint (GET_INDEX s));
            m \<leftarrow> st m dst (GET_VALUE c);
            Some (m, src + 1, dst + 1) }) s = Some s' \<and> s' = ?S (Suc r - nat y0)"
        unfolding s by simp
    qed (use y in auto)
    then show ?thesis
      unfolding color_index_inverse_def map_color_def Let_def out
      using y b0 by (simp add: nat_diff_distrib)
  qed
qed

lemma ARGBIndex_byte: "take_bit 8 (VP8GetARGBIndex v) = VP8GetARGBIndex v"
  by (simp add: VP8GetARGBIndex_def and_ones)

lemma AlphaIndex_byte: "take_bit 8 (VP8GetAlphaIndex v) = VP8GetAlphaIndex v"
  by (rule bit_word_eqI) (auto simp: VP8GetAlphaIndex_def bit_simps dest: bit_imp_le_length)

subsection \<open>Bundling palette indices\<close>

primrec bundle_word :: "u8 list \<Rightarrow> nat \<Rightarrow> nat \<Rightarrow> nat \<Rightarrow> u32" where
  "bundle_word row b c 0 = 0xff000000"
| "bundle_word row b c (Suc n) =
     bundle_word row b c n OR word_of_int (push_bit (8 + 8 div 2 ^ b * n) (uint (row ! (2 ^ b * c + n))))"

lemma bit_less_exp: "uint (r :: u8) < 2 ^ d \<Longrightarrow> bit r k \<Longrightarrow> k < d"
proof (rule ccontr)
  assume *: "uint r < 2 ^ d" "bit r k" "\<not> k < d"
  then have "take_bit d (uint r) = uint r" by (intro take_bit_int_eq_self) simp_all
  with *(2,3) have "bit (take_bit d (uint r)) k" by (auto simp: bit_uint_iff dest: bit_imp_le_length)
  with *(3) show False by (simp add: bit_take_bit_iff)
qed

lemma bit_ff: "j < 24 \<Longrightarrow> \<not> bit (0xff000000 :: u32) j"
proof -
  have "(0xff000000 :: u32) = push_bit 24 0xff" by simp
  then show "j < 24 \<Longrightarrow> \<not> bit (0xff000000 :: u32) j" by (simp only: bit_push_bit_iff) simp
qed

lemma bit_bundle_word:
  assumes "\<And>i. i < n \<Longrightarrow> uint (row ! (2 ^ b * c + i)) < 2 ^ (8 div 2 ^ b)"
    and k: "k < 8 div 2 ^ b" "8 div 2 ^ b * i + k < 8"
  shows "bit (bundle_word row b c n) (8 + 8 div 2 ^ b * i + k) \<longleftrightarrow> i < n \<and> bit (row ! (2 ^ b * c + i)) k"
  using assms(1)
proof (induction n)
  case 0
  then show ?case using bit_ff[of "8 + 8 div 2 ^ b * i + k"] k by simp
next
  case (Suc n)
  let ?d = "8 div 2 ^ b :: nat" and ?r = "row ! (2 ^ b * c + n)"
  have r: "uint ?r < 2 ^ ?d" using Suc.prems by simp
  have new: "bit (word_of_int (push_bit (8 + ?d * n) (uint ?r)) :: u32) (8 + ?d * i + k) \<longleftrightarrow> i = n \<and> bit ?r k"
  proof (cases i n rule: linorder_cases)
    case less
    then have "?d * Suc i \<le> ?d * n" by (intro mult_le_mono2) simp
    with k have "8 + ?d * i + k < 8 + ?d * n" by simp
    with less show ?thesis by (simp add: bit_word_of_int_iff bit_push_bit_iff)
  next
    case equal
    then show ?thesis using k(2) by (auto simp: bit_word_of_int_iff bit_push_bit_iff bit_uint_iff dest: bit_imp_le_length)
  next
    case greater
    then have "?d * Suc n \<le> ?d * i" by (intro mult_le_mono2) simp
    then have "?d \<le> 8 + ?d * i + k - (8 + ?d * n)" by simp
    with greater bit_less_exp[OF r] show ?thesis
      by (auto simp: bit_word_of_int_iff bit_push_bit_iff bit_uint_iff dest: leD)
  qed
  have "bit (bundle_word row b c n) (8 + ?d * i + k) \<longleftrightarrow> i < n \<and> bit (row ! (2 ^ b * c + i)) k"
    using Suc by simp
  then show ?case by (auto simp: bit_or_iff new less_Suc_eq)
qed

lemma unbundle_bundle:
  assumes "b < 4" "\<And>i. i < n \<Longrightarrow> uint (row ! (2 ^ b * c + i)) < 2 ^ (8 div 2 ^ b)" "i < n" "n \<le> 2 ^ b"
  shows "unbundle_index b (VP8GetARGBIndex (bundle_word row b c n)) (int (2 ^ b * c + i)) = ucast (row ! (2 ^ b * c + i))"
proof (rule bit_word_eqI)
  fix k assume "k < LENGTH(32)"
  let ?d = "8 div 2 ^ b :: nat"
  have "i < 2 ^ b" using assms(3,4) by simp
  have "?d * Suc i \<le> ?d * 2 ^ b" using \<open>i < 2 ^ b\<close> by (intro mult_le_mono2) simp
  then have i8: "?d * i + ?d \<le> 8" using bpp_values(2)[OF assms(1)] by simp
  have m: "nat (int (2 ^ b * c + i) mod 2 ^ b) = i"
  proof -
    have "int (2 ^ b * c + i) mod 2 ^ b = int ((2 ^ b * c + i) mod 2 ^ b)" by (simp only: zmod_int of_nat_power of_nat_numeral)
    then show ?thesis using \<open>i < 2 ^ b\<close> by simp
  qed
  have "bit (unbundle_index b (VP8GetARGBIndex (bundle_word row b c n)) (int (2 ^ b * c + i))) k \<longleftrightarrow>
    k < ?d \<and> bit (bundle_word row b c n) (8 + ?d * i + k)"
    using i8 unfolding unbundle_index_def m VP8GetARGBIndex_def and_ones
    by (auto simp: bit_take_bit_iff bit_drop_bit_eq add.assoc)
  also have "\<dots> \<longleftrightarrow> k < ?d \<and> bit (row ! (2 ^ b * c + i)) k"
    using bit_bundle_word[of n row b c k i] assms(2,3) i8 by auto
  also have "\<dots> \<longleftrightarrow> bit (row ! (2 ^ b * c + i)) k"
    using bit_less_exp assms(2,3) by blast
  finally show "bit (unbundle_index b (VP8GetARGBIndex (bundle_word row b c n)) (int (2 ^ b * c + i))) k =
    bit (ucast (row ! (2 ^ b * c + i)) :: u32) k"
    using \<open>k < LENGTH(32)\<close> by (simp add: bit_ucast_iff)
qed

definition bundled_row :: "u8 list \<Rightarrow> nat \<Rightarrow> nat \<Rightarrow> nat \<Rightarrow> u32" where
  "bundled_row row b x c = bundle_word row b c (min (2 ^ b) (x - 2 ^ b * c))"

lemma bundle_store:
  assumes "inb m dst N" "x div 2 ^ b < N"
  shows "st (blit m dst (nat (read_so_far b x)) (bundled_row row b x)) (dst + int (x div 2 ^ b))
      (bundle_word row b (x div 2 ^ b) (Suc (x mod 2 ^ b))) =
    Some (blit m dst (nat (read_so_far b (Suc x))) (bundled_row row b (Suc x)))"
proof -
  let ?p = "2 ^ b :: nat" and ?q = "x div 2 ^ b"
  have i: "int x div 2 ^ b = int ?q" by (simp only: zdiv_int of_nat_power of_nat_numeral)
  have n: "nat (read_so_far b x) = ?q + (if x mod ?p = 0 then 0 else 1)" "nat (read_so_far b (Suc x)) = Suc ?q"
    unfolding read_so_far_Suc read_so_far_cases[of b x] i by auto
  have xq: "x = ?p * ?q + x mod ?p" "x mod ?p < ?p" by simp_all
  have new: "bundled_row row b (Suc x) ?q = bundle_word row b ?q (Suc (x mod ?p))"
  proof -
    have "Suc x - ?p * ?q = Suc (x mod ?p)" using xq(1) by linarith
    moreover have "min ?p (Suc (x mod ?p)) = Suc (x mod ?p)"
      using xq(2) by (intro min_absorb2) (simp only: Suc_le_eq)
    ultimately show ?thesis by (simp only: bundled_row_def)
  qed
  have old: "bundled_row row b (Suc x) c = bundled_row row b x c" if "c < ?q" for c
  proof -
    have "?p * Suc c \<le> ?p * ?q" using that by (intro mult_le_mono2) simp
    then have "?p + ?p * c \<le> x" using xq(1) unfolding mult_Suc_right by linarith
    then have "?p \<le> x - ?p * c" "?p \<le> Suc x - ?p * c" by linarith+
    then show ?thesis by (simp add: bundled_row_def)
  qed
  have "(blit m dst (nat (read_so_far b x)) (bundled_row row b x))[nat (dst + int ?q) := bundle_word row b ?q (Suc (x mod ?p))]
    = blit m dst (Suc ?q) (bundled_row row b (Suc x))"
  proof (rule nth_equalityI)
    fix a assume "a < length ((blit m dst (nat (read_so_far b x)) (bundled_row row b x))[nat (dst + int ?q) := bundle_word row b ?q (Suc (x mod ?p))])"
    then show "(blit m dst (nat (read_so_far b x)) (bundled_row row b x))[nat (dst + int ?q) := bundle_word row b ?q (Suc (x mod ?p))] ! a
      = blit m dst (Suc ?q) (bundled_row row b (Suc x)) ! a"
      using assms new old unfolding n
      by (cases "int a = dst + int ?q") (auto simp: nth_list_update blit_nth inb_def)
  qed simp
  with assms show ?thesis unfolding n(2) by (simp add: st_def inb_def)
qed

lemma VP8LBundleColorMap_packed:
  assumes xbits: "0 < xbits" "xbits < 4" and w: "0 < width" "width \<le> int (length row)"
    and mem: "inb m dst (nat ((width + 2 ^ nat xbits - 1) div 2 ^ nat xbits))"
  shows "VP8LBundleColorMap row width xbits m dst =
    Some (blit m dst (nat ((width + 2 ^ nat xbits - 1) div 2 ^ nat xbits)) (bundled_row row (nat xbits) (nat width)))"
proof -
  let ?b = "nat xbits"
  have b: "?b < 4" using xbits by simp
  have bd: "push_bit (nat (3 - xbits)) (1 :: int) = int (8 div 2 ^ ?b)"
    using less4[OF b] xbits by (auto simp: nat_eq_iff nat_eq_iff2)
  let ?body = "\<lambda>x (m, code). do {
       let xsub = int x AND (push_bit ?b 1 - 1);
       let code = (if xsub = 0 then 0xff000000 else code);
       r \<leftarrow> ld row (int x);
       let code = code OR word_of_int (push_bit (nat (8 + int (8 div 2 ^ ?b) * xsub)) (uint r));
       m \<leftarrow> st m (dst + drop_bit ?b (int x)) code;
       Some (m, code) }"
  let ?I = "\<lambda>x (m', code). m' = blit m dst (nat (read_so_far ?b x)) (bundled_row row ?b x) \<and>
      (x mod 2 ^ ?b \<noteq> 0 \<longrightarrow> code = bundle_word row ?b (x div 2 ^ ?b) (x mod 2 ^ ?b))"
  have "\<exists>s. for_range 0 (nat width) ?body (m, 0xff000000) = Some s \<and> ?I (nat width) s"
  proof (rule for_range_inv[where I = ?I])
    show "?I 0 (m, 0xff000000)" using read_so_far_cases[of ?b 0] by simp
  next
    fix x s assume x: "x < nat width" and I: "?I x s"
    obtain m' code where s: "s = (m', code)" by (cases s)
    have N: "x div 2 ^ ?b < nat ((width + 2 ^ ?b - 1) div 2 ^ ?b)"
    proof -
      have "int x div 2 ^ ?b + 1 \<le> (width + 2 ^ ?b - 1) div 2 ^ ?b"
        using x zdiv_mono1[of "int x + 2 ^ ?b" "width + 2 ^ ?b - 1" "2 ^ ?b"] by (simp add: div_add_self2)
      then have "int (x div 2 ^ ?b) + 1 \<le> (width + 2 ^ ?b - 1) div 2 ^ ?b" by (simp add: zdiv_int)
      then show ?thesis by linarith
    qed
    have c: "(if int (x mod 2 ^ ?b) = 0 then 0xff000000 else code) OR
        word_of_int (push_bit (nat (8 + int (8 div 2 ^ ?b) * int (x mod 2 ^ ?b))) (uint (row ! x))) =
        bundle_word row ?b (x div 2 ^ ?b) (Suc (x mod 2 ^ ?b))"
    proof -
      have e: "nat (8 + int (8 div 2 ^ ?b) * int (x mod 2 ^ ?b)) = 8 + 8 div 2 ^ ?b * (x mod 2 ^ ?b)"
        by (simp add: nat_add_distrib nat_mult_distrib)
      show ?thesis unfolding e using I s by simp
    qed
    have a: "drop_bit ?b (int x) = int (x div 2 ^ ?b)" by (simp add: drop_bit_eq_div zdiv_int)
    have "?body x s = Some (blit m dst (nat (read_so_far ?b (Suc x))) (bundled_row row ?b (Suc x)),
        bundle_word row ?b (x div 2 ^ ?b) (Suc (x mod 2 ^ ?b)))"
      unfolding s prod.case and_low_bits Let_def a using bundle_store[OF mem N] c I s x w by (simp add: ld_def)
    then show "\<exists>s'. ?body x s = Some s' \<and> ?I (Suc x) s'"
      by (auto simp: mod_Suc div_Suc)
  qed simp
  moreover have "read_so_far ?b (nat width) = (width + 2 ^ ?b - 1) div 2 ^ ?b" using w by (simp add: read_so_far_def)
  ultimately show ?thesis unfolding VP8LBundleColorMap_def Let_def bd using xbits by (auto simp: Let_def)
qed

subsection \<open>Properties of colour indexing\<close>

definition packed_indices :: "('a \<Rightarrow> u32) \<Rightarrow> VP8LTransform \<Rightarrow> nat \<Rightarrow> 'a list \<Rightarrow> int \<Rightarrow> (int \<Rightarrow> int \<Rightarrow> int) \<Rightarrow> bool" where
  "packed_indices GET_INDEX t rows m src idx \<longleftrightarrow>
     (let W = txsize t; w = packed_width t in
      0 \<le> tbits t \<and> tbits t < 4 \<and> 0 < W \<and> W < 2 ^ 30 \<and> inb m src (nat (int rows * w)) \<and>
      (\<forall>r x. 0 \<le> r \<longrightarrow> r < int rows \<longrightarrow> 0 \<le> x \<longrightarrow> x < W \<longrightarrow>
         uint (unbundle_index (nat (tbits t)) (GET_INDEX (m ! nat (src + r * w + x div 2 ^ nat (tbits t)))) x) = idx r x \<and>
         idx r x < int (length (tdata t))))"

lemma palette_inputI:
  assumes "packed_indices GET_INDEX t rows m src idx" "inb m dst (nat (int rows * txsize t))"
    "src + int rows * packed_width t \<le> dst \<or> dst + int rows * txsize t \<le> src + int rows * packed_width t"
  shows "palette_input GET_INDEX t rows m src dst idx"
  using assms unfolding packed_indices_def palette_input_def Let_def by blast

lemma packed_width_bounds:
  assumes "0 < txsize t" shows "0 < packed_width t" "packed_width t \<le> txsize t"
  using packed_before[OF assms, of 0 0 1] packed_width_eq[OF assms] div_diff_le[of 0 "txsize t - 1" "2 ^ nat (tbits t)"] assms
  by auto

lemma in_place_color_index:
  assumes p: "packed_indices VP8GetARGBIndex t (nat (y1 - y0)) m out idx"
    and y: "0 \<le> y0" "y0 < y1" "y1 \<le> tysize t" and o: "inb m out (nat ((y1 - y0) * txsize t))"
    and t: "ttype t = COLOR_INDEXING_TRANSFORM" "0 < tbits t"
  shows "VP8LInverseTransform t y0 y1 m out out =
    Some (blit m out (nat ((y1 - y0) * txsize t)) (\<lambda>k. tdata t ! nat (idx (int k div txsize t) (int k mod txsize t))))"
proof -
  let ?W = "txsize t" and ?w = "packed_width t" and ?R = "nat (y1 - y0)"
  define src where "src = out + (y1 - y0) * ?W - (y1 - y0) * ?w"
  have R: "int ?R = y1 - y0" using y by simp
  have W: "0 < ?W" "?W < 2 ^ 30" "tbits t < 4" using p by (auto simp: packed_indices_def Let_def)
  note w = packed_width_bounds[OF W(1)]
  have wR: "0 < (y1 - y0) * ?w" "(y1 - y0) * ?w \<le> (y1 - y0) * ?W" using w y by (auto intro: mult_left_mono)
  have tpr: "uint (VP8LSubSampleSize (word_of_int ?W) (nat (tbits t))) = ?w"
    using W t by (simp only: VP8LSubSampleSize_eq packed_width_def tiles_per_row_def)
  define m1 where "m1 = blit m src (nat ((y1 - y0) * ?w)) (\<lambda>i. m ! nat (out + int i))"
  have inbs: "inb m src (nat ((y1 - y0) * ?w))" "inb m out (nat ((y1 - y0) * ?w))"
    using o wR by (auto simp: inb_def src_def)
  have move: "memmove m src out ((y1 - y0) * ?w) = Some m1" using inbs wR by (simp add: memmove_def m1_def)
  have "packed_indices VP8GetARGBIndex t ?R m1 src idx"
    unfolding packed_indices_def Let_def
  proof (intro conjI allI impI)
    fix r x assume rx: "0 \<le> r" "r < int ?R" "0 \<le> x" "x < ?W"
    let ?k = "r * ?w + x div 2 ^ nat (tbits t)"
    have k: "0 \<le> ?k" "?k < (y1 - y0) * ?w"
    proof -
      have "(r + 1) * ?w \<le> (y1 - y0) * ?w" using rx w R by (intro mult_right_mono) auto
      moreover note packed_before(1)[OF W(1) rx(3,4,1,2)]
      ultimately show "?k < (y1 - y0) * ?w" by (simp add: algebra_simps)
      show "0 \<le> ?k" using rx w by (simp add: pos_imp_zdiv_nonneg_iff)
    qed
    have "m1 ! nat (src + ?k) = m ! nat (out + ?k)"
      using k inbs unfolding m1_def by (subst blit_nth) (auto simp: inb_def)
    then show "uint (unbundle_index (nat (tbits t)) (VP8GetARGBIndex (m1 ! nat (src + r * ?w + x div 2 ^ nat (tbits t)))) x) = idx r x"
      "idx r x < int (length (tdata t))"
      using p rx unfolding packed_indices_def Let_def by (auto simp: add.assoc)
  qed (use p t inbs R in \<open>auto simp: packed_indices_def Let_def m1_def\<close>)
  then have "palette_input VP8GetARGBIndex t ?R m1 src out idx"
    by (rule palette_inputI) (use o R y in \<open>auto simp: m1_def src_def\<close>)
  from color_index_inverse_lemma[OF this y(1) less_imp_le[OF y(2)] ARGBIndex_byte]
  have run: "ColorIndexInverseTransform t y0 y1 m1 src out = Some (palette_output VP8GetARGBValue t ?R m1 out idx)"
    unfolding ColorIndexInverseTransform_def .
  have "palette_output VP8GetARGBValue t ?R m1 out idx =
    blit m out (nat ((y1 - y0) * ?W)) (\<lambda>k. tdata t ! nat (idx (int k div ?W) (int k mod ?W)))"
    unfolding palette_output_def R
  proof (rule nth_equalityI)
    fix a assume "a < length (blit m1 out (nat ((y1 - y0) * ?W)) (\<lambda>k. VP8GetARGBValue (tdata t ! nat (idx (int k div ?W) (int k mod ?W)))))"
    then show "blit m1 out (nat ((y1 - y0) * ?W)) (\<lambda>k. VP8GetARGBValue (tdata t ! nat (idx (int k div ?W) (int k mod ?W)))) ! a
      = blit m out (nat ((y1 - y0) * ?W)) (\<lambda>k. tdata t ! nat (idx (int k div ?W) (int k mod ?W))) ! a"
      using wR by (auto simp: blit_nth m1_def VP8GetARGBValue_def src_def)
  qed (simp add: m1_def)
  with run move show ?thesis
    using y t unfolding VP8LInverseTransform_def Let_def tpr src_def[symmetric] by simp
qed

lemma uint_ucast_u8: "uint (ucast (w :: u8) :: u32) = uint w"
  unfolding unsigned_ucast_eq using uint_bound(1)[of w] by (intro take_bit_int_eq_self) auto

lemma bundled_packed_indices:
  assumes xbits: "0 < xbits" "xbits < 4" and w: "0 < width" "width < 2 ^ 30" "width \<le> int (length row)"
    and idx: "\<And>x. int x < width \<Longrightarrow> uint (row ! x) < 2 ^ (8 div 2 ^ nat xbits) \<and> unat (row ! x) < length cmap"
    and t: "t = \<lparr>ttype = COLOR_INDEXING_TRANSFORM, tbits = xbits, txsize = width, tysize = 1, tdata = cmap\<rparr>"
    and mem: "inb m p (nat (packed_width t))"
  shows "packed_indices VP8GetARGBIndex t 1 (blit m p (nat (packed_width t)) (bundled_row row (nat xbits) (nat width))) p
    (\<lambda>r x. uint (row ! nat x))"
  unfolding packed_indices_def Let_def
proof (intro conjI allI impI)
  fix r x assume rx: "0 \<le> r" "r < int 1" "0 \<le> x" "x < txsize t"
  let ?b = "nat xbits"
  let ?p = "2 ^ ?b :: nat" and ?x = "nat x"
  let ?c = "?x div ?p" and ?i = "?x mod ?p"
  let ?m = "blit m p (nat (packed_width t)) (bundled_row row ?b (nat width))"
  have b: "?b < 4" using xbits by simp
  have x: "x = int ?x" "?x < nat width" using rx t by auto
  have c: "x div 2 ^ nat (tbits t) = int ?c"
    unfolding t by (subst x(1)) (simp only: VP8LTransform.simps zdiv_int of_nat_power of_nat_numeral)
  have "int ?c < packed_width t" using packed_before(1)[of t x 0 1] rx w t c by simp
  then have rd: "?m ! nat (p + r * packed_width t + x div 2 ^ nat (tbits t)) = bundled_row row ?b (nat width) ?c"
  proof -
    have "r = 0" using rx by simp
    with \<open>int ?c < packed_width t\<close> mem show ?thesis unfolding c by (auto simp: blit_nth inb_def)
  qed
  have xi: "?p * ?c + ?i = ?x" by simp
  define n where "n = min ?p (nat width - ?p * ?c)"
  have n: "?i < n" "n \<le> ?p" "?p * ?c + n \<le> nat width"
  proof -
    have le: "?p * ?c + ?i < nat width" using x(2) xi by simp
    then have "?i < nat width - ?p * ?c" by linarith
    moreover have "?i < ?p" by simp
    ultimately show "?i < n" by (simp only: n_def min_less_iff_conj)
    have "n \<le> nat width - ?p * ?c" by (simp only: n_def min.cobounded2)
    with le show "?p * ?c + n \<le> nat width" by linarith
  qed (simp only: n_def min.cobounded1)
  have "unbundle_index ?b (VP8GetARGBIndex (bundle_word row ?b ?c n)) (int (?p * ?c + ?i)) = ucast (row ! (?p * ?c + ?i))"
  proof (rule unbundle_bundle[OF b _ n(1,2)])
    fix i assume "i < n"
    then have "?p * ?c + i < nat width" using n(3) by linarith
    then have "int (?p * ?c + i) < width" unfolding zless_nat_eq_int_zless .
    then show "uint (row ! (?p * ?c + i)) < 2 ^ (8 div 2 ^ ?b)" using idx by blast
  qed
  then show "uint (unbundle_index (nat (tbits t)) (VP8GetARGBIndex (?m ! nat (p + r * packed_width t + x div 2 ^ nat (tbits t)))) x)
     = uint (row ! nat x)"
    unfolding rd bundled_row_def n_def[symmetric] xi x(1)[symmetric]
    by (simp add: t uint_ucast_u8)
  have "int ?x < width" using x(2) unfolding zless_nat_eq_int_zless .
  then have "int (unat (row ! ?x)) < int (length cmap)" using idx by (simp only: of_nat_less_iff)
  then show "uint (row ! nat x) < int (length (tdata t))" by (simp only: t VP8LTransform.simps uint_nat)
qed (use assms in auto)



text \<open>C7. Colour indexing round trip: the row that the encoder's \<open>VP8LBundleColorMap\<close> packs from palette indices that
  fit in the pixel's bits is unpacked by the decoder to the palette colours of those indices.\<close>

theorem color_index_roundtrip:
  assumes "0 < xbits" "xbits < 4" "0 < width" "width < 2 ^ 30" "width \<le> int (length row)"
    and "\<forall>x. int x < width \<longrightarrow> uint (row ! x) < 2 ^ (8 div 2 ^ nat xbits) \<and> unat (row ! x) < length cmap"
    and "t = \<lparr>ttype = COLOR_INDEXING_TRANSFORM, tbits = xbits, txsize = width, tysize = 1, tdata = cmap\<rparr>"
    and "inb m p (nat (packed_width t))" "inb m q (nat width)" "p + packed_width t \<le> q \<or> q + width \<le> p"
  shows "\<exists>m1. VP8LBundleColorMap row width xbits m p = Some m1 \<and>
    ColorIndexInverseTransform t 0 1 m1 p q = Some (blit m1 q (nat width) (\<lambda>x. cmap ! unat (row ! x)))"
proof -
  let ?m1 = "blit m p (nat (packed_width t)) (bundled_row row (nat xbits) (nat width))"
  have w: "packed_width t = (width + 2 ^ nat xbits - 1) div 2 ^ nat xbits"
    using assms(7) by (simp add: packed_width_def tiles_per_row_def)
  have "VP8LBundleColorMap row width xbits m p = Some ?m1"
    using assms w by (simp add: VP8LBundleColorMap_packed)
  moreover have "packed_indices VP8GetARGBIndex t 1 ?m1 p (\<lambda>r x. uint (row ! nat x))"
    using assms by (intro bundled_packed_indices) auto
  then have "palette_input VP8GetARGBIndex t (nat (1 - 0)) ?m1 p q (\<lambda>r x. uint (row ! nat x))"
    using assms packed_width_bounds(1)[of t] by (intro palette_inputI) auto
  from color_index_inverse_lemma[OF this _ _ ARGBIndex_byte, where GET_VALUE = VP8GetARGBValue]
  have "ColorIndexInverseTransform t 0 1 ?m1 p q = Some (blit ?m1 q (nat width) (\<lambda>x. cmap ! unat (row ! x)))"
    using assms(3,7) by (simp add: ColorIndexInverseTransform_def palette_output_def VP8GetARGBValue_def)
      (rule blit_cong, simp)
  ultimately show ?thesis by blast
qed

lemma color_index_roundtrip_witness:
  "\<exists>m1. VP8LBundleColorMap [2, 3, 1] 3 2 [0, 0, 0, 0] 0 = Some m1 \<and>
    ColorIndexInverseTransform \<lparr>ttype = COLOR_INDEXING_TRANSFORM, tbits = 2, txsize = 3, tysize = 1, tdata = [10, 20, 30, 40]\<rparr>
      0 1 m1 0 1 = Some (blit m1 1 3 (\<lambda>x. [10, 20, 30, 40] ! unat ([2, 3, 1 :: u8] ! x)))"
proof -
  have three: "x = 0 \<or> x = 1 \<or> x = 2" if "x < 3" for x :: nat using that by auto
  have "\<forall>x. int x < 3 \<longrightarrow> uint ([2, 3, 1 :: u8] ! x) < 2 ^ (8 div 2 ^ nat 2) \<and> unat ([2, 3, 1 :: u8] ! x) < length [10, 20, 30, 40 :: u32]"
    by (auto dest!: three)
  then show ?thesis
    using color_index_roundtrip[of 2 3 "[2, 3, 1]" "[10, 20, 30, 40]"
      "\<lparr>ttype = COLOR_INDEXING_TRANSFORM, tbits = 2, txsize = 3, tysize = 1, tdata = [10, 20, 30, 40]\<rparr>" "[0, 0, 0, 0]" 0 1]
    by (simp add: packed_width_def tiles_per_row_def inb_def)
qed

end
