(* ===== verification/Utils.thy ===== *)
theory Utils
  imports Prelude
begin

section \<open>Utilities (src/utils/utils.[ch], src/utils/endian_inl_utils.h)\<close>

text \<open>
  Byte order, logarithms, size checks and the allocator's front end. The target is a 64-bit
  little-endian machine: \<open>size_t\<close> is 64 bits wide, and \<open>memcpy\<close> of a \<open>uint32_t\<close> stores its low
  byte first. \<open>malloc\<close> and \<open>calloc\<close> of the C library are arguments of the definitions: a function
  from the number of bytes to the block, whose contents are arbitrary, or \<open>None\<close> for \<open>NULL\<close>.

  The locale \<open>byte_codec\<close> states what the container code needs of a pair of functions that store
  and load an integer at a position of a buffer; it is interpreted on the 16, 24 and 32-bit pairs.
\<close>

unbundle bit_operations_syntax

subsection \<open>Integers in memory\<close>

definition GetLE16 :: "u8 list \<Rightarrow> int \<Rightarrow> int option" where
  "GetLE16 m data = do {
     b0 \<leftarrow> ld m data;
     b1 \<leftarrow> ld m (data + 1);
     Some (push_bit 0 (uint b0) OR push_bit 8 (uint b1)) }"

definition GetLE24 :: "u8 list \<Rightarrow> int \<Rightarrow> int option" where
  "GetLE24 m data = do {
     lo \<leftarrow> GetLE16 m data;
     b2 \<leftarrow> ld m (data + 2);
     Some (lo OR push_bit 16 (uint b2)) }"

definition GetLE32 :: "u8 list \<Rightarrow> int \<Rightarrow> u32 option" where
  "GetLE32 m data = do {
     lo \<leftarrow> GetLE16 m data;
     hi \<leftarrow> GetLE16 m (data + 2);
     Some (word_of_int lo OR push_bit 16 (word_of_int hi)) }"

definition PutLE16 :: "u8 list \<Rightarrow> int \<Rightarrow> int \<Rightarrow> u8 list option" where
  "PutLE16 m data val = do {
     require (val < push_bit 16 1);
     m \<leftarrow> st m data (word_of_int (drop_bit 0 val AND 0xff));
     st m (data + 1) (word_of_int (drop_bit 8 val AND 0xff)) }"

definition PutLE24 :: "u8 list \<Rightarrow> int \<Rightarrow> int \<Rightarrow> u8 list option" where
  "PutLE24 m data val = do {
     require (val < push_bit 24 1);
     m \<leftarrow> PutLE16 m data (val AND 0xffff);
     st m (data + 2) (word_of_int (drop_bit 16 val AND 0xff)) }"

definition PutLE32 :: "u8 list \<Rightarrow> int \<Rightarrow> u32 \<Rightarrow> u8 list option" where
  "PutLE32 m data val = do {
     m \<leftarrow> PutLE16 m data (uint (val AND 0xffff));
     PutLE16 m (data + 2) (uint (drop_bit 16 val)) }"

definition BSwap16 :: "u16 \<Rightarrow> u16" where
  "BSwap16 x = drop_bit 8 x OR push_bit 8 (x AND 0xff)"

definition BSwap32 :: "u32 \<Rightarrow> u32" where
  "BSwap32 x = drop_bit 24 x OR (drop_bit 8 x AND 0xff00) OR (push_bit 8 x AND 0xff0000) OR push_bit 24 x"

definition BSwap64 :: "u64 \<Rightarrow> u64" where
  "BSwap64 x =
     (let x = drop_bit 32 (x AND 0xffffffff00000000) OR push_bit 32 (x AND 0x00000000ffffffff);
          x = drop_bit 16 (x AND 0xffff0000ffff0000) OR push_bit 16 (x AND 0x0000ffff0000ffff);
          x = drop_bit 8 (x AND 0xff00ff00ff00ff00) OR push_bit 8 (x AND 0x00ff00ff00ff00ff)
      in x)"

text \<open>\<open>memcpy\<close> between memory and an integer of a little-endian machine.\<close>

definition WebPMemToUint32 :: "u8 list \<Rightarrow> int \<Rightarrow> u32 option" where
  "WebPMemToUint32 m ptr = do {
     b0 \<leftarrow> ld m ptr; b1 \<leftarrow> ld m (ptr + 1); b2 \<leftarrow> ld m (ptr + 2); b3 \<leftarrow> ld m (ptr + 3);
     Some (ucast b0 OR push_bit 8 (ucast b1) OR push_bit 16 (ucast b2) OR push_bit 24 (ucast b3)) }"

definition WebPUint32ToMem :: "u8 list \<Rightarrow> int \<Rightarrow> u32 \<Rightarrow> u8 list option" where
  "WebPUint32ToMem m ptr val = do {
     m \<leftarrow> st m ptr (ucast val);
     m \<leftarrow> st m (ptr + 1) (ucast (drop_bit 8 val));
     m \<leftarrow> st m (ptr + 2) (ucast (drop_bit 16 val));
     st m (ptr + 3) (ucast (drop_bit 24 val)) }"

definition mem_to_uint64 :: "u8 list \<Rightarrow> int \<Rightarrow> u64 option" where
  "mem_to_uint64 m ptr = do {
     b0 \<leftarrow> ld m ptr; b1 \<leftarrow> ld m (ptr + 1); b2 \<leftarrow> ld m (ptr + 2); b3 \<leftarrow> ld m (ptr + 3);
     b4 \<leftarrow> ld m (ptr + 4); b5 \<leftarrow> ld m (ptr + 5); b6 \<leftarrow> ld m (ptr + 6); b7 \<leftarrow> ld m (ptr + 7);
     Some (ucast b0 OR push_bit 8 (ucast b1) OR push_bit 16 (ucast b2) OR push_bit 24 (ucast b3) OR
       push_bit 32 (ucast b4) OR push_bit 40 (ucast b5) OR push_bit 48 (ucast b6) OR push_bit 56 (ucast b7)) }"

subsection \<open>Logarithm and trailing zeros\<close>

definition WebPLogTable8bit :: "int list" where
  "WebPLogTable8bit =
    [0, 0, 1, 1, 2, 2, 2, 2, 3, 3, 3, 3, 3, 3, 3, 3, 4, 4, 4, 4, 4, 4, 4, 4, 4, 4, 4, 4, 4, 4, 4, 4,
     5, 5, 5, 5, 5, 5, 5, 5, 5, 5, 5, 5, 5, 5, 5, 5, 5, 5, 5, 5, 5, 5, 5, 5, 5, 5, 5, 5, 5, 5, 5, 5,
     6, 6, 6, 6, 6, 6, 6, 6, 6, 6, 6, 6, 6, 6, 6, 6, 6, 6, 6, 6, 6, 6, 6, 6, 6, 6, 6, 6, 6, 6, 6, 6,
     6, 6, 6, 6, 6, 6, 6, 6, 6, 6, 6, 6, 6, 6, 6, 6, 6, 6, 6, 6, 6, 6, 6, 6, 6, 6, 6, 6, 6, 6, 6, 6,
     7, 7, 7, 7, 7, 7, 7, 7, 7, 7, 7, 7, 7, 7, 7, 7, 7, 7, 7, 7, 7, 7, 7, 7, 7, 7, 7, 7, 7, 7, 7, 7,
     7, 7, 7, 7, 7, 7, 7, 7, 7, 7, 7, 7, 7, 7, 7, 7, 7, 7, 7, 7, 7, 7, 7, 7, 7, 7, 7, 7, 7, 7, 7, 7,
     7, 7, 7, 7, 7, 7, 7, 7, 7, 7, 7, 7, 7, 7, 7, 7, 7, 7, 7, 7, 7, 7, 7, 7, 7, 7, 7, 7, 7, 7, 7, 7,
     7, 7, 7, 7, 7, 7, 7, 7, 7, 7, 7, 7, 7, 7, 7, 7, 7, 7, 7, 7, 7, 7, 7, 7, 7, 7, 7, 7, 7, 7, 7, 7]"

text \<open>The portable version; the compilers' builtins compute the same value.\<close>

function log2_floor_loop :: "int \<Rightarrow> u32 \<Rightarrow> int option" where
  "log2_floor_loop log_value n =
     (if 256 \<le> n then log2_floor_loop (log_value + 8) (drop_bit 8 n)
      else do { t \<leftarrow> ld WebPLogTable8bit (uint n); Some (log_value + t) })"
  by pat_completeness auto
termination
proof (relation "measure (\<lambda>(_, n). unat n)")
  fix log_value :: int and n :: u32
  assume "256 \<le> n"
  then have "256 \<le> unat n" by (simp add: word_le_nat_alt)
  moreover have "unat (drop_bit 8 n) = unat n div 256"
    using uint_shiftr[of 8 n] by (simp add: nat_div_distrib flip: nat_uint_eq)
  ultimately show "((log_value + 8, drop_bit 8 n), (log_value, n)) \<in> measure (\<lambda>(_, n). unat n)" by simp
qed simp

declare log2_floor_loop.simps [simp del]

definition BitsLog2Floor :: "u32 \<Rightarrow> int option" where
  "BitsLog2Floor n = log2_floor_loop 0 n"

function bits_ctz_loop :: "nat \<Rightarrow> u32 \<Rightarrow> int" where
  "bits_ctz_loop i n =
     (if i < 32 then (if n AND 1 \<noteq> 0 then int i else bits_ctz_loop (Suc i) (drop_bit 1 n)) else 32)"
  by pat_completeness auto
termination by (relation "measure (\<lambda>(i, _). 32 - i)") auto

declare bits_ctz_loop.simps [simp del]

definition BitsCtz :: "u32 \<Rightarrow> int" where
  "BitsCtz n = bits_ctz_loop 0 n"

subsection \<open>Allocation\<close>

definition WEBP_MAX_ALLOCABLE_MEMORY :: u64 where
  "WEBP_MAX_ALLOCABLE_MEMORY = 0x400000000"

definition CheckSizeOverflow :: "u64 \<Rightarrow> bool" where
  "CheckSizeOverflow sz \<longleftrightarrow> sz = ucast (ucast sz :: u64)"

definition CheckSizeArgumentsOverflow :: "u64 \<Rightarrow> u64 \<Rightarrow> bool" where
  "CheckSizeArgumentsOverflow nmemb sz =
     (let total_size = nmemb * sz in
      if nmemb = 0 then True
      else if sz > WEBP_MAX_ALLOCABLE_MEMORY div nmemb then False
      else if \<not> CheckSizeOverflow total_size then False
      else True)"

type_synonym allocator = "nat \<Rightarrow> u8 list option"

text \<open>The outer \<open>None\<close> is the failed assertion (an allocation of zero bytes), the inner one \<open>NULL\<close>.\<close>

definition WebPSafeMalloc :: "allocator \<Rightarrow> u64 \<Rightarrow> u64 \<Rightarrow> u8 list option option" where
  "WebPSafeMalloc malloc nmemb sz =
     (if \<not> CheckSizeArgumentsOverflow nmemb sz then Some None
      else do {
        require (0 < nmemb * sz);
        Some (malloc (unat (nmemb * sz))) })"

definition WebPCopyPlane :: "u8 list \<Rightarrow> int \<Rightarrow> int \<Rightarrow> u8 list \<Rightarrow> int \<Rightarrow> int \<Rightarrow> int \<Rightarrow> int \<Rightarrow> u8 list option" where
  "WebPCopyPlane sm src src_stride dm dst dst_stride width height = do {
     require (\<bar>src_stride\<bar> \<ge> width \<and> \<bar>dst_stride\<bar> \<ge> width);
     (dm, _, _) \<leftarrow> for_range 0 (nat height)
       (\<lambda>_ (dm, src, dst). do {
          dm \<leftarrow> for_range 0 (nat width)
            (\<lambda>x dm. do { v \<leftarrow> ld sm (src + int x); st dm (dst + int x) v }) dm;
          Some (dm, src + src_stride, dst + dst_stride) }) (dm, src, dst);
     Some dm }"

subsection \<open>Correctness\<close>

definition log_entry_ok :: "int \<times> int \<Rightarrow> bool" where
  "log_entry_ok p \<longleftrightarrow> (case p of (n, t) \<Rightarrow> 0 \<le> t \<and> 2 ^ nat t \<le> n \<and> n < 2 ^ Suc (nat t))"

lemma log_table_entries: "list_all log_entry_ok (zip [1..255] (tl WebPLogTable8bit))"
  by code_simp

lemma log_table:
  assumes "1 \<le> n" "n < 256"
  shows "log_entry_ok (int n, WebPLogTable8bit ! n)"
proof -
  have len: "length [1..255] = 255" "length (tl WebPLogTable8bit) = 255" by (simp_all add: WebPLogTable8bit_def)
  have "\<forall>k<255. log_entry_ok (1 + int k, tl WebPLogTable8bit ! k)"
    using log_table_entries len unfolding list_all_length by auto
  from this[rule_format, of "n - 1"] show ?thesis using assms len by (simp add: nth_tl of_nat_diff)
qed

lemma log2_floor_loop_correct:
  "0 < uint n \<Longrightarrow> \<exists>k. log2_floor_loop l n = Some (l + int k) \<and> 2 ^ k \<le> uint n \<and> uint n < 2 ^ Suc k"
proof (induction l n rule: log2_floor_loop.induct)
  case (1 l n)
  show ?case
  proof (cases "256 \<le> n")
    case True
    then have n: "256 \<le> uint n" by (simp add: word_le_def)
    have sh: "uint (drop_bit 8 n) = uint n div 256" by (simp add: uint_shiftr)
    then have "0 < uint (drop_bit 8 n)" using n by (simp add: pos_imp_zdiv_pos_iff)
    from 1(1)[OF True this] obtain k where k: "log2_floor_loop (l + 8) (drop_bit 8 n) = Some (l + 8 + int k)"
      "2 ^ k \<le> uint n div 256" "uint n div 256 < 2 ^ Suc k" unfolding sh by blast
    have "log2_floor_loop l n = Some (l + int (k + 8))"
      using k(1) True by (subst log2_floor_loop.simps) simp
    moreover have "2 ^ (k + 8) \<le> uint n" "uint n < 2 ^ Suc (k + 8)"
      using k(2,3) by (simp_all add: power_add)
    ultimately show ?thesis by blast
  next
    case False
    then have n: "uint n < 256" by (simp add: word_le_def)
    then have "1 \<le> nat (uint n)" "nat (uint n) < 256" using 1(2) by linarith+
    from log_table[OF this] have t: "0 \<le> WebPLogTable8bit ! nat (uint n)" "2 ^ nat (WebPLogTable8bit ! nat (uint n)) \<le> uint n"
      "uint n < 2 ^ Suc (nat (WebPLogTable8bit ! nat (uint n)))" using 1(2) by (auto simp: log_entry_ok_def)
    have "ld WebPLogTable8bit (uint n) = Some (WebPLogTable8bit ! nat (uint n))"
      using n by (simp add: ld_def WebPLogTable8bit_def)
    then have "log2_floor_loop l n = Some (l + int (nat (WebPLogTable8bit ! nat (uint n))))"
      using False t(1) by (subst log2_floor_loop.simps) simp
    with t show ?thesis by blast
  qed
qed

lemma BitsLog2Floor_eq:
  assumes "2 ^ k \<le> uint n" "uint n < 2 ^ Suc k"
  shows "BitsLog2Floor n = Some (int k)"
proof -
  have "0 < uint n" using assms(1) by (smt (verit) zero_less_power)
  from log2_floor_loop_correct[OF this, of 0] obtain j where
    j: "BitsLog2Floor n = Some (int j)" "2 ^ j \<le> uint n" "uint n < 2 ^ Suc j" by (auto simp: BitsLog2Floor_def)
  have "(2::int) ^ j < 2 ^ Suc k" "(2::int) ^ k < 2 ^ Suc j" using assms j by linarith+
  then have "j < Suc k" "k < Suc j" by (simp_all only: power_strict_increasing_iff)
  with j show ?thesis by simp
qed


lemma bytes_and_ff: "(word_of_int (v AND 255) :: u8) = word_of_int v"
proof -
  have *: "v AND 255 = take_bit 8 v" by (simp add: take_bit_eq_mask mask_eq_exp_minus_1)
  show ?thesis unfolding * by (rule bit_word_eqI) (simp add: bit_simps)
qed

lemma bit_int_bound: "0 \<le> v \<Longrightarrow> v < 2 ^ k \<Longrightarrow> bit v n \<Longrightarrow> n < k" for v :: int
  by (metis bit_take_bit_iff take_bit_int_eq_self)

lemma le16_value:
  assumes "0 \<le> v" "v < 65536"
  shows "uint (word_of_int v :: u8) OR push_bit 8 (uint (word_of_int (drop_bit 8 v) :: u8)) = v"
proof (rule bit_eqI)
  fix n
  have "bit v n \<Longrightarrow> n < 16" using assms by (intro bit_int_bound) auto
  then show "bit (uint (word_of_int v :: u8) OR push_bit 8 (uint (word_of_int (drop_bit 8 v) :: u8))) n = bit v n"
    by (auto simp: bit_simps)
qed

lemma GetLE16_bytes:
  assumes "ld m p = Some (word_of_int v)" "ld m (p + 1) = Some (word_of_int (drop_bit 8 v))" "0 \<le> v" "v < 65536"
  shows "GetLE16 m p = Some v"
  using assms by (simp add: GetLE16_def le16_value)

subsection \<open>The byte codec\<close>

text \<open>The contract of a store/load pair of \<open>width\<close> bytes: storing a value that fits succeeds inside the
  buffer, changes only those bytes, and loading gives the value back; loading depends on those bytes only.\<close>

locale byte_codec =
  fixes width :: nat and fits :: "'v \<Rightarrow> bool"
    and put :: "u8 list \<Rightarrow> int \<Rightarrow> 'v \<Rightarrow> u8 list option"
    and get :: "u8 list \<Rightarrow> int \<Rightarrow> 'v option"
  assumes put_ok: "inb m p width \<Longrightarrow> fits v \<Longrightarrow> \<exists>m'. put m p v = Some m' \<and> length m' = length m \<and>
      (\<forall>q. q < p \<or> p + int width \<le> q \<longrightarrow> ld m' q = ld m q) \<and> get m' p = Some v"
    and get_local: "(\<And>q. p \<le> q \<Longrightarrow> q < p + int width \<Longrightarrow> ld m q = ld m' q) \<Longrightarrow> get m p = get m' p"
begin

lemma put_get: "inb m p width \<Longrightarrow> fits v \<Longrightarrow> do { m' \<leftarrow> put m p v; get m' p } = Some v"
  using put_ok by fastforce

lemma put_put_get:
  assumes "inb m p width" "inb m q width" "fits v" "fits w" "q + int width \<le> p \<or> p + int width \<le> q"
  shows "do { m1 \<leftarrow> put m p v; m2 \<leftarrow> put m1 q w; get m2 p } = Some v"
proof -
  obtain m1 where m1: "put m p v = Some m1" "length m1 = length m" "get m1 p = Some v"
    using put_ok[OF assms(1,3)] by blast
  then have "inb m1 q width" using assms(2) by (simp add: inb_def)
  from put_ok[OF this assms(4)] obtain m2 where m2: "put m1 q w = Some m2"
    "\<And>r. r < q \<or> q + int width \<le> r \<Longrightarrow> ld m2 r = ld m1 r" by blast
  have "get m2 p = get m1 p" by (rule get_local) (use m2(2) assms(5) in auto)
  with m1 m2 show ?thesis by simp
qed

end

lemma ld_st_same: "st m p v = Some m' \<Longrightarrow> ld m' p = Some v"
  by (auto simp: st_def ld_def split: if_splits)

lemma ld_st_other: "st m p v = Some m' \<Longrightarrow> q \<noteq> p \<Longrightarrow> ld m' q = ld m q"
  by (auto simp: st_def ld_def nth_list_update split: if_splits)

lemma st_ok: "0 \<le> p \<Longrightarrow> p < int (length m) \<Longrightarrow> st m p v = Some (m[nat p := v])"
  by (simp add: st_def)

lemma drop_byte: "0 \<le> v \<Longrightarrow> v < 2 ^ (k + n) \<Longrightarrow> 0 \<le> drop_bit k v \<and> drop_bit k v < 2 ^ n" for v :: int
  by (simp add: drop_bit_eq_div power_add int_div_less mult.commute pos_imp_zdiv_nonneg_iff)

lemma PutLE16_ok:
  assumes "inb m p 2" "0 \<le> v" "v < 65536"
  shows "\<exists>m'. PutLE16 m p v = Some m' \<and> length m' = length m \<and>
      (\<forall>q. q < p \<or> p + 2 \<le> q \<longrightarrow> ld m' q = ld m q) \<and> GetLE16 m' p = Some v"
proof -
  obtain m1 where m1: "st m p (word_of_int v) = Some m1" "length m1 = length m"
    using assms(1) by (auto simp: st_def inb_def)
  obtain m2 where m2: "st m1 (p + 1) (word_of_int (drop_bit 8 v)) = Some m2" "length m2 = length m"
    using assms(1) m1(2) by (auto simp: st_def inb_def)
  have "PutLE16 m p v = Some m2"
    using assms m1 m2 by (simp add: PutLE16_def bytes_and_ff)
  moreover have "GetLE16 m2 p = Some v"
    using ld_st_same[OF m2(1)] ld_st_other[OF m2(1), of p] ld_st_same[OF m1(1)] assms
    by (intro GetLE16_bytes) auto
  ultimately show ?thesis
    using ld_st_other[OF m2(1)] ld_st_other[OF m1(1)] m2(2) by auto
qed

lemma GetLE16_local: "(\<And>q. p \<le> q \<Longrightarrow> q < p + 2 \<Longrightarrow> ld m q = ld m' q) \<Longrightarrow> GetLE16 m p = GetLE16 m' p"
  by (simp add: GetLE16_def)

interpretation le16: byte_codec 2 "\<lambda>v. 0 \<le> v \<and> v < 65536" PutLE16 GetLE16
proof unfold_locales
  fix m :: "u8 list" and p and v :: int
  assume "inb m p 2" "0 \<le> v \<and> v < 65536"
  then show "\<exists>m'. PutLE16 m p v = Some m' \<and> length m' = length m \<and>
      (\<forall>q. q < p \<or> p + int 2 \<le> q \<longrightarrow> ld m' q = ld m q) \<and> GetLE16 m' p = Some v"
    using PutLE16_ok[of m p v] by simp
qed (rule GetLE16_local, simp)

lemma low_high: "(v AND 65535) OR push_bit 16 (drop_bit 16 v) = v" for v :: int
proof -
  have "v AND 65535 = take_bit 16 v" by (simp add: take_bit_eq_mask mask_eq_exp_minus_1)
  moreover have "bit (take_bit 16 v OR push_bit 16 (drop_bit 16 v)) n = bit v n" for n
    by (cases "n < 16") (auto simp: bit_simps)
  ultimately show ?thesis by (intro bit_eqI) simp
qed

interpretation le24: byte_codec 3 "\<lambda>v. 0 \<le> v \<and> v < 2 ^ 24" PutLE24 GetLE24
proof unfold_locales
  fix m :: "u8 list" and p and v :: int
  assume b: "inb m p 3" and v: "0 \<le> v \<and> v < 2 ^ 24"
  let ?lo = "v AND 0xffff"
  have lo: "0 \<le> ?lo" "?lo < 65536" using take_bit_int_less_exp[of 16 v]
    by (simp_all add: take_bit_eq_mask mask_eq_exp_minus_1)
  obtain m1 where m1: "PutLE16 m p ?lo = Some m1" "length m1 = length m"
    "\<forall>q. q < p \<or> p + 2 \<le> q \<longrightarrow> ld m1 q = ld m q" "GetLE16 m1 p = Some ?lo"
    using PutLE16_ok[of m p ?lo] b lo by (auto simp: inb_def)
  obtain m2 where m2: "st m1 (p + 2) (word_of_int (drop_bit 16 v)) = Some m2" "length m2 = length m"
    using b m1(2) by (auto simp: st_def inb_def)
  have g: "GetLE16 m2 p = GetLE16 m1 p" by (rule GetLE16_local) (use ld_st_other[OF m2(1)] in auto)
  have "uint (word_of_int (drop_bit 16 v) :: u8) = drop_bit 16 v"
    using drop_byte[of v 16 8] v by (simp add: uint_word_of_int_eq take_bit_int_eq_self)
  then have "GetLE24 m2 p = Some v"
    using g m1(4) ld_st_same[OF m2(1)] by (simp add: GetLE24_def low_high)
  moreover have "PutLE24 m p v = Some m2" using m1 m2 v by (simp add: PutLE24_def bytes_and_ff)
  ultimately show "\<exists>m'. PutLE24 m p v = Some m' \<and> length m' = length m \<and>
      (\<forall>q. q < p \<or> p + int 3 \<le> q \<longrightarrow> ld m' q = ld m q) \<and> GetLE24 m' p = Some v"
    using m1(3) m2(2) ld_st_other[OF m2(1)] by auto
next
  fix m m' :: "u8 list" and p
  assume eq: "\<And>q. p \<le> q \<Longrightarrow> q < p + int 3 \<Longrightarrow> ld m q = ld m' q"
  have "GetLE16 m p = GetLE16 m' p" by (rule GetLE16_local) (rule eq, simp_all)
  moreover have "ld m (p + 2) = ld m' (p + 2)" by (rule eq) simp_all
  ultimately show "GetLE24 m p = GetLE24 m' p" by (simp add: GetLE24_def)
qed

interpretation le32: byte_codec 4 "\<lambda>v. True" PutLE32 GetLE32
proof unfold_locales
  fix m :: "u8 list" and p and v :: u32
  assume b: "inb m p 4"
  let ?lo = "uint (v AND 0xffff)" and ?hi = "uint (drop_bit 16 v)"
  have "?lo = take_bit 16 (uint v)" by (simp only: and_ones unsigned_take_bit_eq)
  then have lo: "?lo < 65536" using take_bit_int_less_exp[of 16 "uint v"] by simp
  have hi: "?hi < 65536" unfolding uint_shiftr by (rule int_div_less) (use uint_bound(3)[of v] in simp_all)
  obtain m1 where m1: "PutLE16 m p ?lo = Some m1" "length m1 = length m"
    "\<forall>q. q < p \<or> p + 2 \<le> q \<longrightarrow> ld m1 q = ld m q" "GetLE16 m1 p = Some ?lo"
    using PutLE16_ok[of m p ?lo] b lo by (auto simp: inb_def)
  obtain m2 where m2: "PutLE16 m1 (p + 2) ?hi = Some m2" "length m2 = length m"
    "\<forall>q. q < p + 2 \<or> p + 2 + 2 \<le> q \<longrightarrow> ld m2 q = ld m1 q" "GetLE16 m2 (p + 2) = Some ?hi"
    using PutLE16_ok[of m1 "p + 2" ?hi] b hi m1(2) by (auto simp: inb_def)
  have g: "GetLE16 m2 p = GetLE16 m1 p" by (rule GetLE16_local) (use m2(3) in auto)
  have "(v AND 0xffff) OR push_bit 16 (drop_bit 16 v) = v"
  proof (rule bit_word_eqI)
    show "bit ((v AND 0xffff) OR push_bit 16 (drop_bit 16 v)) n = bit v n" if "n < LENGTH(32)" for n
      using that by (cases "n < 16") (auto simp: and_ones bit_simps)
  qed
  then have "GetLE32 m2 p = Some v"
    using g m1(4) m2(4) by (simp add: GetLE32_def)
  moreover have "PutLE32 m p v = Some m2" using m1 m2 by (simp add: PutLE32_def)
  ultimately show "\<exists>m'. PutLE32 m p v = Some m' \<and> length m' = length m \<and>
      (\<forall>q. q < p \<or> p + int 4 \<le> q \<longrightarrow> ld m' q = ld m q) \<and> GetLE32 m' p = Some v"
    using m1(3) m2(2,3) by auto
next
  fix m m' :: "u8 list" and p
  assume eq: "\<And>q. p \<le> q \<Longrightarrow> q < p + int 4 \<Longrightarrow> ld m q = ld m' q"
  have "GetLE16 m p = GetLE16 m' p" "GetLE16 m (p + 2) = GetLE16 m' (p + 2)"
    by (rule GetLE16_local; rule eq; simp)+
  then show "GetLE32 m p = GetLE32 m' p" by (simp add: GetLE32_def)
qed

subsection \<open>Properties\<close>

text \<open>C10. The little-endian accessors are inverse: \<open>PutLE16\<close>, \<open>PutLE24\<close> and \<open>PutLE32\<close> succeed anywhere inside a
  buffer on values that fit, and the matching \<open>GetLE\<close> at that place returns the value.\<close>

theorem put_get_le:
  assumes "inb m p 2" "0 \<le> v16" "v16 < 2 ^ 16" "inb m q 3" "0 \<le> v24" "v24 < 2 ^ 24" "inb m r 4"
  shows "do { m' \<leftarrow> PutLE16 m p v16; GetLE16 m' p } = Some v16 \<and>
    do { m' \<leftarrow> PutLE24 m q v24; GetLE24 m' q } = Some v24 \<and>
    do { m' \<leftarrow> PutLE32 m r v32; GetLE32 m' r } = Some v32"
  using assms le16.put_get[of m p v16] le24.put_get[of m q v24] le32.put_get[of m r v32] by simp

lemma put_get_le_witness:
  "do { m' \<leftarrow> PutLE24 [1, 2, 3, 4, 5] 1 0x30201; GetLE24 m' 1 } = Some 0x30201"
  using put_get_le[where m = "[1, 2, 3, 4, 5]" and p = 0 and q = 1 and r = 1 and ?v16.0 = 7 and ?v24.0 = "0x30201"] by (simp add: inb_def)

text \<open>C11. \<open>BitsLog2Floor\<close> is the integer part of the binary logarithm of every positive 32-bit value.\<close>

theorem BitsLog2Floor_correct:
  assumes "0 < uint n"
  shows "\<exists>k. BitsLog2Floor n = Some (int k) \<and> 2 ^ k \<le> uint n \<and> uint n < 2 ^ Suc k"
  using log2_floor_loop_correct[OF assms, of 0] by (auto simp: BitsLog2Floor_def)

lemma BitsLog2Floor_witness: "\<exists>k. BitsLog2Floor 70000 = Some (int k) \<and> 2 ^ k \<le> (70000 :: int) \<and> (70000 :: int) < 2 ^ Suc k"
  using BitsLog2Floor_correct[of 70000] by simp

end
