(* ===== verification/Bool_Writer.thy ===== *)
theory Bool_Writer
  imports Utils
begin

section \<open>The boolean encoder (src/utils/bit_writer_utils.[ch], VP8BitWriter)\<close>

text \<open>
  The arithmetic coder of VP8: a range of 128 to 255 values, a value with pending bits, a run of
  pending \<open>0xff\<close> bytes that a later carry may turn into \<open>0x00\<close>, and a growing output buffer.
  \<open>VP8BitWriter\<close> is the C struct; \<open>bw_buf = None\<close> is the \<open>NULL\<close> pointer. A function that can write
  out of bounds returns an option; the allocator is an argument (theory \<open>Utils\<close>). \<open>int\<close> values stay
  below \<open>2 ^ 31\<close> in magnitude, which the invariant of theory \<open>Bool_Coder\<close> implies for \<open>value\<close>.
\<close>

unbundle bit_operations_syntax

subsection \<open>The operations\<close>

record VP8BitWriter =
  bw_range :: int
  bw_value :: int
  bw_run :: int
  bw_nb_bits :: int
  bw_buf :: "u8 list option"
  bw_pos :: u64
  bw_max_pos :: u64
  bw_error :: int

definition BitWriterResize :: "allocator \<Rightarrow> VP8BitWriter \<Rightarrow> u64 \<Rightarrow> (int \<times> VP8BitWriter) option" where
  "BitWriterResize malloc bw extra_size =
     (let needed_size_64b = bw_pos bw + extra_size;
          needed_size = ucast needed_size_64b :: u64
      in if needed_size_64b \<noteq> ucast needed_size then Some (0, bw\<lparr>bw_error := 1\<rparr>)
         else if needed_size \<le> bw_max_pos bw then Some (1, bw)
         else do {
           let new_size = 2 * bw_max_pos bw;
           let new_size = (if new_size < needed_size then needed_size else new_size);
           let new_size = (if new_size < 1024 then 1024 else new_size);
           new_buf \<leftarrow> WebPSafeMalloc malloc 1 new_size;
           (case new_buf of
              None \<Rightarrow> Some (0, bw\<lparr>bw_error := 1\<rparr>)
            | Some new_buf \<Rightarrow> do {
                new_buf \<leftarrow>
                  (if bw_pos bw > 0 then do {
                     old \<leftarrow> bw_buf bw;
                     for_range 0 (unat (bw_pos bw))
                       (\<lambda>i nb. do { v \<leftarrow> ld old (int i); st nb (int i) v }) new_buf }
                   else Some new_buf);
                Some (1, bw\<lparr>bw_buf := Some new_buf, bw_max_pos := new_size\<rparr>) }) })"

definition Flush :: "allocator \<Rightarrow> VP8BitWriter \<Rightarrow> VP8BitWriter option" where
  "Flush malloc bw = do {
     let s = nat (8 + bw_nb_bits bw);
     let bits = drop_bit s (bw_value bw);
     require (bw_nb_bits bw \<ge> 0);
     let bw = bw\<lparr>bw_value := bw_value bw - push_bit s bits, bw_nb_bits := bw_nb_bits bw - 8\<rparr>;
     (if bits AND 0xff \<noteq> 0xff then do {
        let pos = bw_pos bw;
        (ok, bw) \<leftarrow> BitWriterResize malloc bw (word_of_int (bw_run bw + 1));
        (if ok = 0 then Some bw
         else do {
           buf \<leftarrow> bw_buf bw;
           buf \<leftarrow>
             (if bits AND 0x100 \<noteq> 0 then
                (if pos > 0 then do { b \<leftarrow> ld buf (uint (pos - 1)); st buf (uint (pos - 1)) (b + 1) } else Some buf)
              else Some buf);
           (buf, pos, run) \<leftarrow>
             (if bw_run bw > 0 then do {
                let value = (if bits AND 0x100 \<noteq> 0 then 0x00 else 0xff :: u8);
                for_range 0 (nat (bw_run bw))
                  (\<lambda>_ (buf, pos, run). do { buf \<leftarrow> st buf (uint pos) value; Some (buf, pos + 1, run - 1) })
                  (buf, pos, bw_run bw) }
              else Some (buf, pos, bw_run bw));
           buf \<leftarrow> st buf (uint pos) (word_of_int (bits AND 0xff));
           Some (bw\<lparr>bw_buf := Some buf, bw_run := run, bw_pos := pos + 1\<rparr>) }) }
      else Some (bw\<lparr>bw_run := bw_run bw + 1\<rparr>)) }"

definition kNorm :: "int list" where
  "kNorm =
    [7, 6, 6, 5, 5, 5, 5, 4, 4, 4, 4, 4, 4, 4, 4, 3, 3, 3, 3, 3, 3, 3, 3, 3, 3, 3, 3, 3, 3, 3, 3, 2,
     2, 2, 2, 2, 2, 2, 2, 2, 2, 2, 2, 2, 2, 2, 2, 2, 2, 2, 2, 2, 2, 2, 2, 2, 2, 2, 2, 2, 2, 2, 2, 1,
     1, 1, 1, 1, 1, 1, 1, 1, 1, 1, 1, 1, 1, 1, 1, 1, 1, 1, 1, 1, 1, 1, 1, 1, 1, 1, 1, 1, 1, 1, 1, 1,
     1, 1, 1, 1, 1, 1, 1, 1, 1, 1, 1, 1, 1, 1, 1, 1, 1, 1, 1, 1, 1, 1, 1, 1, 1, 1, 1, 1, 1, 1, 1, 0]"

definition kNewRange :: "int list" where
  "kNewRange =
    [127, 127, 191, 127, 159, 191, 223, 127, 143, 159, 175, 191, 207, 223, 239, 127, 135, 143, 151, 159,
     167, 175, 183, 191, 199, 207, 215, 223, 231, 239, 247, 127, 131, 135, 139, 143, 147, 151, 155, 159,
     163, 167, 171, 175, 179, 183, 187, 191, 195, 199, 203, 207, 211, 215, 219, 223, 227, 231, 235, 239,
     243, 247, 251, 127, 129, 131, 133, 135, 137, 139, 141, 143, 145, 147, 149, 151, 153, 155, 157, 159,
     161, 163, 165, 167, 169, 171, 173, 175, 177, 179, 181, 183, 185, 187, 189, 191, 193, 195, 197, 199,
     201, 203, 205, 207, 209, 211, 213, 215, 217, 219, 221, 223, 225, 227, 229, 231, 233, 235, 237, 239,
     241, 243, 245, 247, 249, 251, 253, 127]"

definition VP8PutBit :: "allocator \<Rightarrow> VP8BitWriter \<Rightarrow> int \<Rightarrow> int \<Rightarrow> (int \<times> VP8BitWriter) option" where
  "VP8PutBit malloc bw b prob = do {
     let split = drop_bit 8 (bw_range bw * prob);
     let bw = (if b \<noteq> 0 then bw\<lparr>bw_value := bw_value bw + (split + 1), bw_range := bw_range bw - (split + 1)\<rparr>
               else bw\<lparr>bw_range := split\<rparr>);
     bw \<leftarrow>
       (if bw_range bw < 127 then do {
          shift \<leftarrow> ld kNorm (bw_range bw);
          new_range \<leftarrow> ld kNewRange (bw_range bw);
          let bw = bw\<lparr>bw_range := new_range, bw_value := push_bit (nat shift) (bw_value bw),
            bw_nb_bits := bw_nb_bits bw + shift\<rparr>;
          (if bw_nb_bits bw > 0 then Flush malloc bw else Some bw) }
        else Some bw);
     Some (b, bw) }"

definition VP8PutBitUniform :: "allocator \<Rightarrow> VP8BitWriter \<Rightarrow> int \<Rightarrow> (int \<times> VP8BitWriter) option" where
  "VP8PutBitUniform malloc bw b = do {
     let split = drop_bit 1 (bw_range bw);
     let bw = (if b \<noteq> 0 then bw\<lparr>bw_value := bw_value bw + (split + 1), bw_range := bw_range bw - (split + 1)\<rparr>
               else bw\<lparr>bw_range := split\<rparr>);
     bw \<leftarrow>
       (if bw_range bw < 127 then do {
          new_range \<leftarrow> ld kNewRange (bw_range bw);
          let bw = bw\<lparr>bw_range := new_range, bw_value := push_bit 1 (bw_value bw),
            bw_nb_bits := bw_nb_bits bw + 1\<rparr>;
          (if bw_nb_bits bw > 0 then Flush malloc bw else Some bw) }
        else Some bw);
     Some (b, bw) }"

text \<open>The loop of \<open>VP8PutBits\<close> over the mask; the truth of \<open>value & mask\<close> is what the bit is.\<close>

function put_bits_loop :: "allocator \<Rightarrow> u32 \<Rightarrow> u32 \<Rightarrow> VP8BitWriter \<Rightarrow> VP8BitWriter option" where
  "put_bits_loop malloc value msk bw =
     (if msk \<noteq> 0 then do {
        (_, bw) \<leftarrow> VP8PutBitUniform malloc bw (sint (value AND msk));
        put_bits_loop malloc value (drop_bit 1 msk) bw }
      else Some bw)"
  by pat_completeness auto
termination
proof (relation "measure (\<lambda>(_, _, msk, _). unat msk)")
  fix malloc :: allocator and v msk :: u32 and bw x :: VP8BitWriter and y :: int and p
  assume "msk \<noteq> 0"
  then have "0 < unat msk" by (simp add: unat_gt_0)
  moreover have "unat (drop_bit 1 msk) = unat msk div 2"
    using uint_shiftr[of 1 msk] by (simp add: nat_div_distrib flip: nat_uint_eq)
  ultimately show "((malloc, v, drop_bit 1 msk, x), (malloc, v, msk, bw)) \<in> measure (\<lambda>(_, _, msk, _). unat msk)"
    by simp
qed simp

declare put_bits_loop.simps [simp del]

definition VP8PutBits :: "allocator \<Rightarrow> VP8BitWriter \<Rightarrow> u32 \<Rightarrow> int \<Rightarrow> VP8BitWriter option" where
  "VP8PutBits malloc bw value nb_bits = do {
     require (nb_bits > 0 \<and> nb_bits < 32);
     put_bits_loop malloc value (push_bit (nat (nb_bits - 1)) 1) bw }"

definition VP8PutSignedBits :: "allocator \<Rightarrow> VP8BitWriter \<Rightarrow> int \<Rightarrow> int \<Rightarrow> VP8BitWriter option" where
  "VP8PutSignedBits malloc bw value nb_bits = do {
     (bit, bw) \<leftarrow> VP8PutBitUniform malloc bw (if value \<noteq> 0 then 1 else 0);
     (if bit = 0 then Some bw
      else if value < 0 then VP8PutBits malloc bw (word_of_int (push_bit 1 (- value) OR 1)) (nb_bits + 1)
      else VP8PutBits malloc bw (word_of_int (push_bit 1 value)) (nb_bits + 1)) }"

definition VP8BitWriterInit :: "allocator \<Rightarrow> u64 \<Rightarrow> (int \<times> VP8BitWriter) option" where
  "VP8BitWriterInit malloc expected_size =
     (let bw = \<lparr>bw_range = 255 - 1, bw_value = 0, bw_run = 0, bw_nb_bits = -8, bw_buf = None,
        bw_pos = 0, bw_max_pos = 0, bw_error = 0\<rparr>
      in if expected_size > 0 then BitWriterResize malloc bw expected_size else Some (1, bw))"

definition VP8BitWriterFinish :: "allocator \<Rightarrow> VP8BitWriter \<Rightarrow> VP8BitWriter option" where
  "VP8BitWriterFinish malloc bw = do {
     bw \<leftarrow> VP8PutBits malloc bw 0 (9 - bw_nb_bits bw);
     Flush malloc (bw\<lparr>bw_nb_bits := 0\<rparr>) }"

definition VP8BitWriterAppend :: "allocator \<Rightarrow> VP8BitWriter \<Rightarrow> u8 list \<Rightarrow> u64 \<Rightarrow> (int \<times> VP8BitWriter) option" where
  "VP8BitWriterAppend malloc bw data sz =
     (if bw_nb_bits bw \<noteq> -8 then Some (0, bw)
      else do {
        (ok, bw) \<leftarrow> BitWriterResize malloc bw sz;
        (if ok = 0 then Some (0, bw)
         else do {
           buf \<leftarrow>
             (if sz = 0 then Some (bw_buf bw)
              else do {
                buf \<leftarrow> bw_buf bw;
                buf \<leftarrow> for_range 0 (unat sz)
                  (\<lambda>i b. do { v \<leftarrow> ld data (int i); st b (uint (bw_pos bw) + int i) v }) buf;
                Some (Some buf) });
           Some (1, bw\<lparr>bw_buf := buf, bw_pos := bw_pos bw + sz\<rparr>) }) })"

definition VP8BitWriterWipeOut :: "VP8BitWriter \<Rightarrow> VP8BitWriter" where
  "VP8BitWriterWipeOut bw =
     \<lparr>bw_range = 0, bw_value = 0, bw_run = 0, bw_nb_bits = 0, bw_buf = None, bw_pos = 0, bw_max_pos = 0, bw_error = 0\<rparr>"

definition VP8BitWriterPos :: "VP8BitWriter \<Rightarrow> u64" where
  "VP8BitWriterPos bw =
     (let nb_bits = word_of_int (8 + bw_nb_bits bw) :: u64
      in (bw_pos bw + word_of_int (bw_run bw)) * 8 + nb_bits)"

subsection \<open>The interval of an arithmetic coder\<close>

text \<open>The abstract coder: after \<open>T\<close> shifts the code is a number in \<open>[L, L + R]\<close>, in units of
  \<open>2 ^ - (T + 8)\<close>. A bit with probability \<open>p\<close> of being 0 takes the lower or the upper part, and the
  interval is scaled until it is again longer than 127.\<close>

definition norm_shift :: "int \<Rightarrow> nat" where
  "norm_shift r = (if r < 127 then nat (kNorm ! nat r) else 0)"

definition split_at :: "int \<Rightarrow> int \<Rightarrow> int" where
  "split_at r p = r * p div 256"

fun narrow :: "int \<times> int \<Rightarrow> bool \<Rightarrow> int \<Rightarrow> int \<times> int" where
  "narrow (l, r) b p = (if b then (l + split_at r p + 1, r - split_at r p - 1) else (l, split_at r p))"

fun scale :: "nat \<Rightarrow> int \<times> int \<Rightarrow> nat \<times> int \<times> int" where
  "scale t (l, r) = (let s = norm_shift r in (t + s, l * 2 ^ s, (r + 1) * 2 ^ s - 1))"

fun code_step :: "nat \<times> int \<times> int \<Rightarrow> bool \<times> int \<Rightarrow> nat \<times> int \<times> int" where
  "code_step (t, l, r) (b, p) = scale t (narrow (l, r) b p)"

lemma split_range:
  assumes "127 \<le> r" "r \<le> 254" "0 \<le> p" "p < 256"
  shows "0 \<le> split_at r p" "split_at r p < r"
proof -
  show "0 \<le> split_at r p" using assms by (simp add: split_at_def pos_imp_zdiv_nonneg_iff)
  have "r * p \<le> r * 255" using assms by (intro mult_left_mono) auto
  then show "split_at r p < r" using assms unfolding split_at_def by (intro int_div_less) auto
qed

definition norm_entry_ok :: "int \<times> int \<times> int \<Rightarrow> bool" where
  "norm_entry_ok e \<longleftrightarrow> (case e of (r, s, n) \<Rightarrow> 0 < s \<and> s \<le> 7 \<and> n = (r + 1) * 2 ^ nat s - 1 \<and> 127 \<le> n \<and> n \<le> 254 \<and>
     (63 \<le> r \<longrightarrow> s = 1))"

lemma norm_table_entries: "list_all norm_entry_ok (zip [0..126] (zip (take 127 kNorm) (take 127 kNewRange)))"
  by code_simp

lemma norm_tables:
  assumes "0 \<le> r" "r < 127"
  shows "norm_entry_ok (r, kNorm ! nat r, kNewRange ! nat r)"
    "ld kNorm r = Some (kNorm ! nat r)" "ld kNewRange r = Some (kNewRange ! nat r)"
proof -
  have len: "length kNorm = 128" "length kNewRange = 128" "length [0..126] = 127"
    by (simp_all add: kNorm_def kNewRange_def)
  have "\<forall>k<127. norm_entry_ok (int k, kNorm ! k, kNewRange ! k)"
    using norm_table_entries len unfolding list_all_length by auto
  from this[rule_format, of "nat r"] show "norm_entry_ok (r, kNorm ! nat r, kNewRange ! nat r)" using assms by simp
  show "ld kNorm r = Some (kNorm ! nat r)" "ld kNewRange r = Some (kNewRange ! nat r)"
    using assms len by (simp_all add: ld_def)
qed

lemma norm_shift_props:
  assumes "0 \<le> r" "r \<le> 254"
  shows "norm_shift r \<le> 7" "127 \<le> (r + 1) * 2 ^ norm_shift r - 1" "(r + 1) * 2 ^ norm_shift r - 1 \<le> 254"
    "r < 127 \<Longrightarrow> kNorm ! nat r = int (norm_shift r)" "r < 127 \<Longrightarrow> kNewRange ! nat r = (r + 1) * 2 ^ norm_shift r - 1"
    "63 \<le> r \<Longrightarrow> r < 127 \<Longrightarrow> norm_shift r = 1"
  using norm_tables(1)[of r] assms by (auto simp: norm_shift_def norm_entry_ok_def nat_le_iff)

fun interval_ok :: "nat \<times> int \<times> int \<Rightarrow> bool" where
  "interval_ok (t, l, r) \<longleftrightarrow> 0 \<le> l \<and> 127 \<le> r \<and> r \<le> 254 \<and> l + r + 1 \<le> 255 * 2 ^ t"

lemma narrow_props:
  assumes "127 \<le> r" "r \<le> 254" "0 \<le> p" "p < 256" "narrow (l, r) b p = (l', r')"
  shows "l \<le> l'" "l' + r' \<le> l + r" "0 \<le> r'" "r' \<le> 254"
  using split_range[OF assms(1-4)] assms by (auto split: if_splits)

lemma interval_ok_step:
  assumes "interval_ok s" "0 \<le> p" "p < 256" shows "interval_ok (code_step s (b, p))"
proof -
  obtain t l r where s: "s = (t, l, r)" by (cases s)
  obtain l' r' where n: "narrow (l, r) b p = (l', r')" by (cases "narrow (l, r) b p")
  have r: "127 \<le> r" "r \<le> 254" "0 \<le> l" "l + r + 1 \<le> 255 * 2 ^ t" using assms(1) s by auto
  note np = narrow_props[OF r(1,2) assms(2,3) n]
  have "(l' + r' + 1) * 2 ^ norm_shift r' \<le> 255 * 2 ^ t * 2 ^ norm_shift r'"
    using np r by (intro mult_right_mono) auto
  then show ?thesis
    using norm_shift_props[OF np(3,4)] np r by (simp add: s n Let_def algebra_simps power_add del: narrow.simps)
qed

subsection \<open>Bytes as a number\<close>

definition be :: "u8 list \<Rightarrow> int" where
  "be bs = foldl (\<lambda>a b. a * 256 + uint b) 0 bs"

lemma be_Nil [simp]: "be [] = 0" by (simp add: be_def)

lemma foldl_be: "foldl (\<lambda>a b. a * 256 + uint (b :: u8)) k bs = k * 256 ^ length bs + be bs"
proof (induction bs arbitrary: k)
  case (Cons b bs)
  have "be (b # bs) = uint b * 256 ^ length bs + be bs" using Cons.IH[of "uint b"] by (simp add: be_def)
  then show ?case using Cons.IH[of "k * 256 + uint b"] by (simp add: algebra_simps)
qed simp

lemma be_append [simp]: "be (xs @ ys) = be xs * 256 ^ length ys + be ys"
proof -
  have "be (xs @ ys) = foldl (\<lambda>a b. a * 256 + uint b) (foldl (\<lambda>a b. a * 256 + uint b) 0 xs) ys"
    by (simp only: be_def foldl_append)
  then show ?thesis by (simp add: foldl_be)
qed

lemma be_single [simp]: "be [b] = uint b" by (simp add: be_def)

lemma be_replicate: "be (replicate n 255) = 256 ^ n - 1" "be (replicate n 0) = 0"
proof -
  have "replicate (Suc n) b = replicate n b @ [b]" for n and b :: u8 by (simp add: replicate_append_same)
  then have step: "be (replicate (Suc n) b) = be (replicate n b) * 256 + uint b" for n b by simp
  show "be (replicate n 255) = 256 ^ n - 1" by (induction n) (simp_all add: step del: replicate_Suc)
  show "be (replicate n 0) = 0" by (induction n) (simp_all add: step del: replicate_Suc)
qed

lemma be_bounds: "0 \<le> be bs" "be bs < 256 ^ length bs"
proof -
  have "0 \<le> be bs \<and> be bs < 256 ^ length bs"
  proof (induction bs rule: rev_induct)
    case (snoc b bs)
    have "be bs * 256 + uint b < 256 ^ length bs * 256"
      using snoc uint_bound(1)[of b] by linarith
    with snoc show ?case by (simp add: algebra_simps)
  qed simp
  then show "0 \<le> be bs" "be bs < 256 ^ length bs" by auto
qed

subsection \<open>The writer implements the interval\<close>

definition malloc_ok :: "allocator \<Rightarrow> bool" where
  "malloc_ok malloc \<longleftrightarrow> (\<forall>n. 0 < n \<longrightarrow> n \<le> 2 ^ 34 \<longrightarrow> (\<exists>bs. malloc n = Some bs \<and> length bs = n))"

definition written :: "VP8BitWriter \<Rightarrow> u8 list" where
  "written bw = (case bw_buf bw of Some b \<Rightarrow> take (unat (bw_pos bw)) b | None \<Rightarrow> [])"

definition buffer_ok :: "nat \<Rightarrow> VP8BitWriter \<Rightarrow> bool" where
  "buffer_ok e bw \<longleftrightarrow> bw_pos bw \<le> bw_max_pos bw \<and> 0 \<le> bw_run bw \<and> bw_error bw = 0 \<and>
     (case bw_buf bw of Some b \<Rightarrow> length b = unat (bw_max_pos bw) | None \<Rightarrow> bw_max_pos bw = 0) \<and>
     uint (bw_max_pos bw) \<le> 2 * (uint (bw_pos bw) + bw_run bw) + 1024 + int e"

definition writes :: "nat \<Rightarrow> VP8BitWriter \<Rightarrow> nat \<times> int \<times> int \<Rightarrow> bool" where
  "writes e bw s \<longleftrightarrow> (case s of (t, l, r) \<Rightarrow>
     let w = nat (16 + bw_nb_bits bw); n = unat (bw_pos bw) + nat (bw_run bw) in
     interval_ok s \<and> buffer_ok e bw \<and> bw_range bw = r \<and> -8 \<le> bw_nb_bits bw \<and> bw_nb_bits bw \<le> 7 \<and>
     0 \<le> bw_value bw \<and> bw_value bw + r + 1 \<le> 2 ^ w + 254 * 2 ^ (w - 8) \<and>
     l = ((be (written bw) + 1) * 256 ^ nat (bw_run bw) - 1) * 2 ^ w + bw_value bw \<and>
     8 * n + w = 8 + t \<and> (0 < bw_pos bw \<longrightarrow> last (written bw) \<noteq> 255))"

lemma WebPSafeMalloc_ok:
  assumes "malloc_ok malloc" "0 < n" "uint n \<le> 2 ^ 34"
  shows "\<exists>bs. WebPSafeMalloc malloc 1 n = Some (Some bs) \<and> length bs = unat n"
proof -
  have "\<not> WEBP_MAX_ALLOCABLE_MEMORY < n"
    using assms(3) by (simp add: WEBP_MAX_ALLOCABLE_MEMORY_def word_less_def)
  then have "CheckSizeArgumentsOverflow 1 n"
    by (simp add: CheckSizeArgumentsOverflow_def CheckSizeOverflow_def)
  moreover have "0 < unat n" using assms(2) by (simp add: unat_gt_0 word_neq_0_conv)
  moreover have "unat n \<le> 2 ^ 34"
    using assms(3) by (metis nat_le_eq_zle[of "uint n" "2 ^ 34"] nat_uint_eq nat_power_eq zero_le_numeral nat_numeral zero_le_power)
  ultimately show ?thesis using assms(1,2) unfolding malloc_ok_def WebPSafeMalloc_def by auto
qed

lemma copy_loop:
  assumes "n \<le> length old" "n \<le> length new"
  shows "for_range 0 n (\<lambda>i nb. do { v \<leftarrow> ld old (int i); st nb (int i) v }) new = Some (blit new 0 n (\<lambda>i. old ! i))"
    "take n (blit new 0 n (\<lambda>i. old ! i)) = take n old"
proof -
  show "for_range 0 n (\<lambda>i nb. do { v \<leftarrow> ld old (int i); st nb (int i) v }) new = Some (blit new 0 n (\<lambda>i. old ! i))"
  proof (rule for_range_blit)
    fix j assume "j < n"
    then show "do { v \<leftarrow> ld old (int j); st (blit new 0 j (\<lambda>i. old ! i)) (int j) v } = Some (blit new 0 (Suc j) (\<lambda>i. old ! i))"
      using assms st_blit[of new 0 n j "old ! j" "\<lambda>i. old ! i"] by (simp add: ld_nat inb_def)
  qed
  show "take n (blit new 0 n (\<lambda>i. old ! i)) = take n old"
    by (rule nth_equalityI) (use assms in \<open>auto simp: blit_nth\<close>)
qed

lemma uint_add_small: "uint (a + b) = uint a + uint b" if "uint a + uint b < 2 ^ 64" for a b :: u64
  using that by (simp add: uint_word_ariths)

lemma uint_of_int_small: "0 \<le> k \<Longrightarrow> k < 2 ^ 64 \<Longrightarrow> uint (word_of_int k :: u64) = k"
  by (simp add: uint_word_of_int)

lemma below_64: "uint p + k < 2 ^ 33 \<Longrightarrow> k < 2 ^ 64" for p :: u64
proof -
  assume "uint p + k < 2 ^ 33"
  moreover have "0 \<le> uint p" by simp
  ultimately have "k < 2 ^ 33" by linarith
  then show ?thesis by simp
qed

lemma BitWriterResize_ok:
  assumes m: "malloc_ok malloc" and b: "buffer_ok e bw" and x: "uint (bw_pos bw) + uint x < 2 ^ 33"
  shows "\<exists>bw'. BitWriterResize malloc bw x = Some (1, bw') \<and>
    bw' = bw\<lparr>bw_buf := bw_buf bw', bw_max_pos := bw_max_pos bw'\<rparr> \<and> written bw' = written bw \<and>
    (case bw_buf bw' of Some c \<Rightarrow> length c = unat (bw_max_pos bw') | None \<Rightarrow> bw_max_pos bw' = 0) \<and>
    uint (bw_pos bw) + uint x \<le> uint (bw_max_pos bw') \<and>
    uint (bw_max_pos bw') \<le> max (uint (bw_max_pos bw)) (max (2 * (uint (bw_pos bw) + uint x)) 1024)"
proof -
  let ?need = "bw_pos bw + x"
  have need: "uint ?need = uint (bw_pos bw) + uint x" using x by (intro uint_add_small) simp
  show ?thesis
  proof (cases "?need \<le> bw_max_pos bw")
    case True
    then have "BitWriterResize malloc bw x = Some (1, bw)" by (simp add: BitWriterResize_def Let_def)
    moreover have "uint (bw_pos bw) + uint x \<le> uint (bw_max_pos bw)" using True need by (simp add: word_le_def)
    ultimately show ?thesis using b by (intro exI[of _ bw]) (auto simp: buffer_ok_def)
  next
    case False
    define n1 where "n1 = (if 2 * bw_max_pos bw < ?need then ?need else 2 * bw_max_pos bw)"
    define n2 where "n2 = (if n1 < 1024 then 1024 else n1)"
    have lt: "uint (bw_max_pos bw) < uint ?need" using False by (simp add: word_less_def not_le)
    then have mx: "uint (2 * bw_max_pos bw) = 2 * uint (bw_max_pos bw)"
      using need x by (simp add: uint_word_ariths)
    have n1: "uint ?need \<le> uint n1" "uint n1 \<le> 2 * uint ?need" using lt mx by (auto simp: n1_def word_less_def)
    have n2: "uint ?need \<le> uint n2" "uint n2 \<le> max (2 * uint ?need) 1024" "0 < n2" 
      using n1 by (auto simp: n2_def word_less_def)
    have "uint n2 \<le> 2 ^ 34" using n2(2) need x by simp
    from WebPSafeMalloc_ok[OF m n2(3) this] obtain nb where nb: "WebPSafeMalloc malloc 1 n2 = Some (Some nb)" "length nb = unat n2"
      by blast
    define nb' where "nb' = (if bw_pos bw > 0 then blit nb 0 (unat (bw_pos bw)) (\<lambda>i. the (bw_buf bw) ! i) else nb)"
    have cp: "(if bw_pos bw > 0 then do {
                     old \<leftarrow> bw_buf bw;
                     for_range 0 (unat (bw_pos bw))
                       (\<lambda>i nb. do { v \<leftarrow> ld old (int i); st nb (int i) v }) nb }
                   else Some nb) = Some nb' \<and> take (unat (bw_pos bw)) nb' = written bw"
    proof (cases "bw_pos bw > 0")
      case True
      then have "bw_buf bw \<noteq> None" using b by (cases "bw_buf bw") (auto simp: buffer_ok_def)
      then obtain old where old: "bw_buf bw = Some old" by blast
      have "unat (bw_pos bw) \<le> length old" using b old by (simp add: buffer_ok_def word_le_nat_alt)
      moreover have "unat (bw_pos bw) \<le> length nb"
      proof -
        have "uint (bw_pos bw) \<le> uint n2" using n2(1) need uint_ge_0[of x] by linarith
        then show ?thesis using nb(2) by (simp add: word_le_nat_alt flip: word_le_def)
      qed
      ultimately show ?thesis using copy_loop[of "unat (bw_pos bw)" old nb] True old by (simp add: nb'_def written_def)
    next
      case False
      then have "bw_pos bw = 0" by (metis word_gt_0)
      then show ?thesis by (simp add: nb'_def written_def split: option.split)
    qed
    have "BitWriterResize malloc bw x = Some (1, bw\<lparr>bw_buf := Some nb', bw_max_pos := n2\<rparr>)"
    proof (cases "n1 < 1024")
      case True
      then have "n2 = 1024" by (simp add: n2_def)
      then show ?thesis using False nb cp True by (simp add: BitWriterResize_def Let_def n1_def[symmetric])
    next
      case c: False
      then have "n2 = n1" by (simp add: n2_def)
      then show ?thesis using False nb cp c by (simp add: BitWriterResize_def Let_def n1_def[symmetric])
    qed
    moreover have "length nb' = unat n2" using nb by (simp add: nb'_def)
    ultimately show ?thesis using n2 need cp
      by (intro exI[of _ "bw\<lparr>bw_buf := Some nb', bw_max_pos := n2\<rparr>"]) (auto simp: written_def)
  qed
qed

text \<open>\<open>Flush\<close> moves the top byte, or a carry and the top byte, out of the pending value; the number that
  the writer holds stays the same.\<close>

lemma bits_of_value:
  fixes bits :: int
  assumes "0 \<le> bits" "bits < 510"
  shows "bits AND 255 = bits mod 256" "(bits AND 256 \<noteq> 0) = (256 \<le> bits)"
proof -
  show "bits AND 255 = bits mod 256" by (simp flip: take_bit_eq_mod[where a = bits and n = 8, simplified] add: take_bit_eq_mask mask_eq_exp_minus_1)
  have "bits AND 256 \<noteq> 0 \<longleftrightarrow> bit bits 8"
    using and_exp_eq_0_iff_not_bit[of bits 8] by simp
  also have "\<dots> \<longleftrightarrow> odd (bits div 2 ^ 8)" by (simp add: bit_iff_odd)
  also have "\<dots> \<longleftrightarrow> 256 \<le> bits"
  proof (cases "256 \<le> bits")
    case True
    then have "bits div 256 = 1" using assms int_div_pos_eq[of bits 256 1 "bits - 256"] by simp
    then show ?thesis using True by simp
  next
    case False
    then show ?thesis using assms by (simp add: div_pos_pos_trivial)
  qed
  finally show "(bits AND 256 \<noteq> 0) = (256 \<le> bits)" .
qed

lemma run_loop:
  fixes pos :: u64
  assumes "unat pos + n \<le> length buf" "n < 2 ^ 33" "uint pos < 2 ^ 33" 
  shows "for_range 0 n (\<lambda>_ (buf, pos, run). do { buf \<leftarrow> st buf (uint pos) v; Some (buf, pos + 1, run - 1) }) (buf, pos, int n)
    = Some (blit buf (uint pos) n (\<lambda>_. v), pos + word_of_nat n, 0)"
proof -
  let ?S = "\<lambda>j. (blit buf (uint pos) j (\<lambda>_. v), pos + word_of_nat j, int n - int j)"
  have "\<exists>s. for_range 0 n (\<lambda>_ (buf, pos, run). do { buf \<leftarrow> st buf (uint pos) v; Some (buf, pos + 1, run - 1) }) (buf, pos, int n)
    = Some s \<and> s = ?S n"
  proof (rule for_range_inv[where I = "\<lambda>j s. s = ?S j"])
    fix j s assume j: "j < n" and s: "s = ?S j"
    have "uint (word_of_nat j :: u64) = int j" using j assms(2) by (simp add: unsigned_of_nat take_bit_nat_eq_self)
    then have "uint (pos + word_of_nat j) = uint pos + int j"
      using j assms uint_add_small[of pos "word_of_nat j"] by simp
    moreover have "inb buf (uint pos) n" using of_nat_mono[OF assms(1), where 'a = int] by (simp add: inb_def)
    ultimately show "\<exists>s'. (case s of (buf, pos, run) \<Rightarrow> do { buf \<leftarrow> st buf (uint pos) v; Some (buf, pos + 1, run - 1) }) = Some s' \<and> s' = ?S (Suc j)"
      using j st_blit[of buf "uint pos" n j v "\<lambda>_. v"] by (simp add: s algebra_simps)
  qed simp_all
  then show ?thesis by simp
qed
lemma take_blit_const: "take (p + n) (blit m (int p) n (\<lambda>_. v)) = take p m @ replicate n v" if "p + n \<le> length m"
  by (rule nth_equalityI) (use that in \<open>auto simp: blit_nth nth_append\<close>)

lemma take_Suc_update: "take (Suc k) (xs[k := y]) = take k xs @ [y]" if "k < length xs"
  using that by (simp add: take_Suc_conv_app_nth)

lemma be_carry:
  assumes "ws \<noteq> []" "last ws \<noteq> 255"
  shows "be (ws[length ws - 1 := last ws + 1]) = be ws + 1"
proof -
  obtain xs b where ws: "ws = xs @ [b]" using assms(1) by (cases ws rule: rev_cases) auto
  have "uint b \<noteq> 255" using assms(2) ws by (auto simp: word_uint_eq_iff)
  then have "uint (b + 1) = uint b + 1" using uint_bound(1)[of b] by (simp add: uint_word_ariths)
  then show ?thesis by (simp add: ws)
qed


lemma writes_bits:
  assumes w: "writes e bw (t, l, r)" and nb: "0 \<le> bw_nb_bits bw"
  defines "s \<equiv> nat (8 + bw_nb_bits bw)"
  defines "bits \<equiv> bw_value bw div 2 ^ s" and "rest \<equiv> bw_value bw mod 2 ^ s"
  shows "0 \<le> bits" "bits < 510" "0 \<le> rest" "rest + r + 1 \<le> 2 ^ s + 254 * 2 ^ (s - 8)"
    "bw_value bw = bits * 2 ^ s + rest" "nat (16 + bw_nb_bits bw) = s + 8" "8 \<le> s"
    "drop_bit s (bw_value bw) = bits" "bw_value bw - push_bit s bits = rest"
proof -
  show s: "nat (16 + bw_nb_bits bw) = s + 8" "8 \<le> s" using nb by (auto simp: s_def)
  have v: "0 \<le> bw_value bw" "0 \<le> r" "r \<le> 254" "bw_value bw + r + 1 \<le> 2 ^ (s + 8) + 254 * 2 ^ s"
    using w s by (auto simp: writes_def Let_def)
  then have "bw_value bw < 510 * 2 ^ s" by (simp add: power_add)
  then show "bits < 510" unfolding bits_def by (simp add: int_div_less)
  show "0 \<le> bits" using v by (simp add: bits_def pos_imp_zdiv_nonneg_iff)
  show "0 \<le> rest" by (simp add: rest_def)
  have "rest < 2 ^ s" by (simp add: rest_def)
  moreover have "(1 :: int) \<le> 2 ^ (s - 8)" by simp
  ultimately show "rest + r + 1 \<le> 2 ^ s + 254 * 2 ^ (s - 8)" using v by linarith
  show "bw_value bw = bits * 2 ^ s + rest" unfolding bits_def rest_def by (rule div_mult_mod_eq[symmetric])
  show "drop_bit s (bw_value bw) = bits" by (simp add: bits_def drop_bit_eq_div)
  show "bw_value bw - push_bit s bits = rest"
    unfolding bits_def rest_def push_bit_eq_mult by (rule minus_div_mult_eq_mod)
qed

lemma Flush_run:
  assumes w: "writes e bw (t, l, r)" and nb: "0 \<le> bw_nb_bits bw"
    and ff: "bw_value bw div 2 ^ nat (8 + bw_nb_bits bw) mod 256 = 255"
  shows "\<exists>bw'. Flush malloc bw = Some bw' \<and> writes e bw' (t, l, r) \<and> bw_nb_bits bw' = bw_nb_bits bw - 8 \<and>
    bw_value bw' = bw_value bw mod 2 ^ nat (8 + bw_nb_bits bw)"
proof -
  define s where "s = nat (8 + bw_nb_bits bw)"
  define bits where "bits = bw_value bw div 2 ^ s"
  define rest where "rest = bw_value bw mod 2 ^ s"
  note wb = writes_bits[OF w nb, folded s_def, folded bits_def rest_def]
  have bits: "bits = 255"
  proof -
    have "b = 255" if "q * 256 + 255 = b" "0 \<le> b" "b < 510" for b q :: int
    proof -
      have "- 1 < q" "q < 1" using that by linarith+
      then show ?thesis using that(1) by simp
    qed
    moreover have "bits mod 256 = 255" using ff unfolding s_def[symmetric] bits_def[symmetric] .
    ultimately show ?thesis using wb(1,2) div_mult_mod_eq[of bits 256] by metis
  qed
  let ?bw = "bw\<lparr>bw_value := rest, bw_nb_bits := bw_nb_bits bw - 8, bw_run := bw_run bw + 1\<rparr>"
  have "Flush malloc bw = Some ?bw"
    using nb wb(9) bits unfolding Flush_def
    by (simp add: Let_def require_def wb(8) flip: s_def)
  moreover have "writes e ?bw (t, l, r)"
  proof -
    have "0 \<le> bw_run bw" using w by (auto simp: writes_def Let_def buffer_ok_def)
    then have run: "nat (bw_run bw + 1) = Suc (nat (bw_run bw))" "0 \<le> bw_run bw" by simp_all
    have "nat (16 + (bw_nb_bits bw - 8)) = s" by (simp add: s_def algebra_simps)
    moreover have "written ?bw = written bw" by (simp add: written_def cong: option.case_cong)
    ultimately show ?thesis
      using w wb bits run nb unfolding writes_def Let_def
      by (simp add: buffer_ok_def power_add algebra_simps split: option.splits)
  qed
  ultimately show ?thesis by (intro exI[of _ ?bw]) (simp add: rest_def s_def)
qed


text \<open>The output part of \<open>Flush\<close>: the carry into the last byte, the run, the new byte.\<close>

definition flush_bytes :: "u8 list \<Rightarrow> int \<Rightarrow> int \<Rightarrow> u8 list" where
  "flush_bytes ws run bits =
     (if 256 \<le> bits then ws[length ws - 1 := last ws + 1] @ replicate (nat run) 0 else ws @ replicate (nat run) 255)
     @ [word_of_int (bits mod 256)]"

lemma be_flush_bytes:
  assumes "0 \<le> bits" "bits < 510" "256 \<le> bits \<longrightarrow> ws \<noteq> [] \<and> last ws \<noteq> 255"
  shows "be (flush_bytes ws run bits) = (be ws + 1) * 256 ^ (nat run + 1) - 256 + bits"
proof -
  have u: "uint (word_of_int (bits mod 256) :: u8) = bits mod 256" by (simp add: uint_word_of_int)
  show ?thesis
  proof (cases "256 \<le> bits")
    case True
    then have "bits mod 256 = bits - 256" using assms int_mod_pos_eq[of bits 256 1 "bits - 256"] by simp
    moreover have "be (flush_bytes ws run bits) = (be ws + 1) * 256 ^ nat run * 256 + bits mod 256"
      using True assms(3) u be_carry[of ws] by (simp add: flush_bytes_def be_replicate)
    ultimately show ?thesis by simp
  next
    case False
    then have "bits mod 256 = bits" using assms by simp
    then show ?thesis using False u by (simp add: flush_bytes_def be_replicate algebra_simps)
  qed
qed

lemma flush_loop:
  fixes pos :: u64
  assumes len: "unat pos + nat run < length buf" and run: "0 \<le> run" and small: "uint pos + run < 2 ^ 33"
    and c: "256 \<le> bits \<longrightarrow> 0 < pos"
  shows "\<exists>buf'. (\<forall>f :: _ \<Rightarrow> _ \<Rightarrow> _ \<Rightarrow> VP8BitWriter. do {
       buf \<leftarrow> (if 256 \<le> bits then
                (if pos > 0 then do { b \<leftarrow> ld buf (uint (pos - 1)); st buf (uint (pos - 1)) (b + 1) } else Some buf)
              else Some buf);
       (buf, pos, run) \<leftarrow>
         (if run > 0 then do {
            let value = (if 256 \<le> bits then 0x00 else 0xff :: u8);
            for_range 0 (nat run)
              (\<lambda>_ (buf, pos, run). do { buf \<leftarrow> st buf (uint pos) value; Some (buf, pos + 1, run - 1) })
              (buf, pos, run) }
          else Some (buf, pos, run));
       buf \<leftarrow> st buf (uint pos) (word_of_int (bits mod 256));
       Some (f buf run (pos + 1)) } = Some (f buf' 0 (pos + word_of_int (run + 1)))) \<and>
     length buf' = length buf \<and> take (unat pos + nat run + 1) buf' = flush_bytes (take (unat pos) buf) run bits"
proof -
  define v where "v = (if 256 \<le> bits then 0x00 else 0xff :: u8)"
  define b1 where "b1 = (if 256 \<le> bits then buf[unat pos - 1 := buf ! (unat pos - 1) + 1] else buf)"
  define b2 where "b2 = blit b1 (uint pos) (nat run) (\<lambda>_. v)"
  have p1: "uint (pos - 1) = int (unat pos - 1)" if "0 < pos"
  proof -
    have "0 < uint pos" using that by (simp add: word_less_def)
    moreover from this have "uint (pos - 1) = uint pos - 1"
      using uint_bound(4)[of pos] by (simp add: uint_word_ariths)
    moreover have "Suc 0 \<le> unat pos" using that by (simp add: Suc_le_eq unat_gt_0)
    ultimately show ?thesis by (simp add: of_nat_diff)
  qed
  have last_buf: "last (take (unat pos) buf) = buf ! (unat pos - 1)" if "256 \<le> bits"
    using that c len by (subst last_conv_nth) (auto simp: unat_gt_0 min_def)
  have b1: "(if 256 \<le> bits then
                (if pos > 0 then do { b \<leftarrow> ld buf (uint (pos - 1)); st buf (uint (pos - 1)) (b + 1) } else Some buf)
              else Some buf) = Some b1"
    using c p1 len by (auto simp: b1_def ld_nat st_nat)
  have "length b1 = length buf" by (simp add: b1_def)
  have b2: "(if run > 0 then do {
            let value = (if 256 \<le> bits then 0x00 else 0xff :: u8);
            for_range 0 (nat run)
              (\<lambda>_ (buf, pos, run). do { buf \<leftarrow> st buf (uint pos) value; Some (buf, pos + 1, run - 1) })
              (b1, pos, run) }
          else Some (b1, pos, run)) = Some (b2, pos + word_of_int run, 0)"
  proof -
    have "run < 2 ^ 33" using small uint_ge_0[of pos] by linarith
    then have "nat run < 2 ^ 33" using run by (simp add: nat_less_iff)
    then show ?thesis using run_loop[of pos "nat run" b1 v] len small run \<open>length b1 = length buf\<close>
      by (auto simp: Let_def b2_def v_def[symmetric])
  qed
  have "uint (word_of_int run :: u64) = run" using run small below_64[of pos run]
    by (intro uint_of_int_small) simp_all
  then have p2: "uint (pos + word_of_int run) = int (unat pos + nat run)"
    using uint_add_small[of pos "word_of_int run"] small run by simp
  let ?b3 = "b2[unat pos + nat run := word_of_int (bits mod 256)]"
  have "length b2 = length buf" using \<open>length b1 = length buf\<close> by (simp add: b2_def)
  then have "take (unat pos + nat run + 1) ?b3 = take (unat pos + nat run) b2 @ [word_of_int (bits mod 256)]"
    using len by (simp add: take_Suc_update)
  also have "take (unat pos + nat run) b2 = take (unat pos) b1 @ replicate (nat run) v"
    using len \<open>length b1 = length buf\<close> take_blit_const[of "unat pos" "nat run" b1 v] by (simp add: b2_def)
  also have "take (unat pos) b1 = (if 256 \<le> bits then (take (unat pos) buf)[unat pos - 1 := last (take (unat pos) buf) + 1] else take (unat pos) buf)"
    using c len last_buf by (auto simp: b1_def take_update_swap unat_gt_0)
  finally have "take (unat pos + nat run + 1) ?b3 = flush_bytes (take (unat pos) buf) run bits"
    using len by (auto simp: flush_bytes_def v_def)
  moreover have "st b2 (uint (pos + word_of_int run)) (word_of_int (bits mod 256)) = Some ?b3"
    using len \<open>length b2 = length buf\<close> by (simp only: p2 st_nat)
  ultimately show ?thesis
    using b1 b2 \<open>length b2 = length buf\<close> by (intro exI[of _ ?b3]) (simp add: algebra_simps)
qed


lemma Flush_out:
  assumes w: "writes e bw (t, l, r)" and nb: "0 \<le> bw_nb_bits bw" and m: "malloc_ok malloc" and t: "t < 2 ^ 35"
    and ff: "bw_value bw div 2 ^ nat (8 + bw_nb_bits bw) mod 256 \<noteq> 255"
  shows "\<exists>bw'. Flush malloc bw = Some bw' \<and> writes e bw' (t, l, r) \<and> bw_nb_bits bw' = bw_nb_bits bw - 8 \<and>
    bw_value bw' = bw_value bw mod 2 ^ nat (8 + bw_nb_bits bw) \<and> bw_run bw' = 0"
proof -
  define s where "s = nat (8 + bw_nb_bits bw)"
  define bits where "bits = bw_value bw div 2 ^ s"
  define rest where "rest = bw_value bw mod 2 ^ s"
  define run where "run = bw_run bw"
  note wb = writes_bits[OF w nb, folded s_def, folded bits_def rest_def]
  have ff: "bits mod 256 \<noteq> 255" using ff by (simp add: s_def bits_def)
  have b: "buffer_ok e bw" and run: "0 \<le> run" and iv: "interval_ok (t, l, r)"
    using w by (auto simp: writes_def Let_def buffer_ok_def run_def)
  have pt: "8 * (unat (bw_pos bw) + nat run) + s = t"
    and l: "l = ((be (written bw) + 1) * 256 ^ nat run - 1) * 2 ^ (s + 8) + bw_value bw"
    using w wb(6) by (auto simp: writes_def Let_def run_def)
  have small: "uint (bw_pos bw) + run + 1 < 2 ^ 33"
  proof -
    have "unat (bw_pos bw) + nat run + 1 < 2 ^ 33" using pt t wb(7) by simp
    then show ?thesis using run by (simp flip: of_nat_less_iff[where 'a = int])
  qed
  have ur: "uint (word_of_int (run + 1) :: u64) = run + 1"
    using run small below_64[of "bw_pos bw" "run + 1"] by (intro uint_of_int_small) simp_all
  let ?bw = "bw\<lparr>bw_value := rest, bw_nb_bits := bw_nb_bits bw - 8\<rparr>"
  have b1: "buffer_ok e ?bw" and w1: "written ?bw = written bw"
    using b by (auto simp: buffer_ok_def written_def split: option.splits)
  from BitWriterResize_ok[OF m b1, of "word_of_int (run + 1)"] obtain bw2 where
    r2: "BitWriterResize malloc ?bw (word_of_int (run + 1)) = Some (1, bw2)"
      "bw2 = ?bw\<lparr>bw_buf := bw_buf bw2, bw_max_pos := bw_max_pos bw2\<rparr>" "written bw2 = written bw"
      "(case bw_buf bw2 of Some c \<Rightarrow> length c = unat (bw_max_pos bw2) | None \<Rightarrow> bw_max_pos bw2 = 0)"
      "uint (bw_pos bw) + (run + 1) \<le> uint (bw_max_pos bw2)"
      "uint (bw_max_pos bw2) \<le> max (uint (bw_max_pos bw)) (max (2 * (uint (bw_pos bw) + (run + 1))) 1024)"
    using small ur w1 by auto
  obtain buf where buf: "bw_buf bw2 = Some buf" "length buf = unat (bw_max_pos bw2)"
    using r2(4,5) run uint_ge_0[of "bw_pos bw"] by (cases "bw_buf bw2") auto
  have pos2: "bw_pos bw2 = bw_pos bw" by (subst r2(2)) simp
  have wr: "written bw = take (unat (bw_pos bw)) buf" using r2(3) buf(1) pos2 by (simp add: written_def)
  have len: "unat (bw_pos bw) + nat run < length buf"
  proof -
    have "int (unat (bw_pos bw) + nat run) < int (length buf)" using r2(5) run buf(2) by simp
    then show ?thesis by linarith
  qed
  have carry: "0 < bw_pos bw" if "256 \<le> bits"
  proof (rule ccontr)
    assume "\<not> 0 < bw_pos bw"
    then have "bw_pos bw = 0" by (metis word_gt_0)
    then have "written bw = []" "t = 8 * nat run + s" using pt by (auto simp: written_def split: option.splits)
    then have "l = 2 ^ (8 * nat run) * 2 ^ (s + 8) - 256 * 2 ^ s + (bits * 2 ^ s + rest)"
      using l wb(5) by (simp add: power_mult power_add left_diff_distrib)
    moreover have "256 * 2 ^ s \<le> bits * 2 ^ s" using that by (intro mult_right_mono) auto
    ultimately have "2 ^ (8 * nat run) * 2 ^ (s + 8) \<le> l" using wb(3) by linarith
    then have "256 * 2 ^ t \<le> l" using \<open>t = _\<close> by (simp add: power_add algebra_simps)
    moreover have "(0 :: int) < 2 ^ t" by simp
    ultimately show False using iv by (simp del: zero_less_power)
  qed
  from flush_loop[OF len run, of bits] small carry obtain buf' where
    loop: "\<forall>f :: _ \<Rightarrow> _ \<Rightarrow> _ \<Rightarrow> VP8BitWriter. do {
       buf \<leftarrow> (if 256 \<le> bits then
                (if bw_pos bw > 0 then do { b \<leftarrow> ld buf (uint (bw_pos bw - 1)); st buf (uint (bw_pos bw - 1)) (b + 1) } else Some buf)
              else Some buf);
       (buf, pos, run) \<leftarrow>
         (if run > 0 then do {
            let value = (if 256 \<le> bits then 0x00 else 0xff :: u8);
            for_range 0 (nat run)
              (\<lambda>_ (buf, pos, run). do { buf \<leftarrow> st buf (uint pos) value; Some (buf, pos + 1, run - 1) })
              (buf, bw_pos bw, run) }
          else Some (buf, bw_pos bw, run));
       buf \<leftarrow> st buf (uint pos) (word_of_int (bits mod 256));
       Some (f buf run (pos + 1)) } = Some (f buf' 0 (bw_pos bw + word_of_int (run + 1)))"
     "length buf' = length buf" "take (unat (bw_pos bw) + nat run + 1) buf' = flush_bytes (written bw) run bits"
    unfolding wr by auto

  let ?bw' = "bw2\<lparr>bw_buf := Some buf', bw_run := 0, bw_pos := bw_pos bw + word_of_int (run + 1)\<rparr>"
  have run2: "bw_run bw2 = run" by (subst r2(2)) (simp add: run_def)
  have "Flush malloc bw = Some ?bw'"
    using nb ff buf(1) r2(1) loop(1)[unfolded Let_def, rule_format, of "\<lambda>b r p. bw2\<lparr>bw_buf := Some b, bw_run := r, bw_pos := p\<rparr>"]
    unfolding Flush_def Let_def s_def[symmetric] wb(8,9) bits_of_value[OF wb(1,2)]
    by (simp add: require_def run2 split del: if_split flip: run_def cong: if_cong)
  moreover have "writes e ?bw' (t, l, r)"
  proof -
    have pos': "uint (bw_pos ?bw') = uint (bw_pos bw) + run + 1"
      using ur small uint_add_small[of "bw_pos bw" "word_of_int (run + 1)"] by (simp del: of_int_add)
    then have "int (unat (bw_pos ?bw')) = int (unat (bw_pos bw) + nat run + 1)" using run by (simp del: of_int_add)
    then have pn: "unat (bw_pos ?bw') = unat (bw_pos bw) + nat run + 1" by linarith
    then have wr': "written ?bw' = flush_bytes (written bw) run bits"
      using loop(3) by (simp add: written_def del: of_int_add)
    have cw: "256 \<le> bits \<longrightarrow> written bw \<noteq> [] \<and> last (written bw) \<noteq> 255"
      using carry w len wr by (auto simp: writes_def Let_def unat_gt_0)
    have b': "be (written ?bw') = (be (written bw) + 1) * 256 ^ (nat run + 1) - 256 + bits"
      unfolding wr' by (rule be_flush_bytes[OF wb(1,2) cw])
    have "uint (word_of_int (bits mod 256) :: u8) \<noteq> 255" using ff by (simp add: uint_word_of_int)
    then have last: "last (written ?bw') \<noteq> 255" unfolding wr' flush_bytes_def by auto
    have "uint (bw_max_pos bw) \<le> 2 * (uint (bw_pos bw) + run) + 1024 + int e"
      using b by (simp add: buffer_ok_def run_def)
    then have mx: "uint (bw_max_pos bw2) \<le> 2 * uint (bw_pos ?bw') + 1024 + int e"
      unfolding pos' by (intro order_trans[OF r2(6)] max.boundedI) (use run in simp_all)
    have le: "bw_pos ?bw' \<le> bw_max_pos bw2" using r2(5) pos' by (simp add: word_le_def del: of_int_add)
    have err: "bw_error bw2 = 0" using b by (subst r2(2)) (simp add: buffer_ok_def)
    have bo: "buffer_ok e ?bw'"
      using mx le err loop(2) buf(2) by (simp add: buffer_ok_def del: of_int_add)
    have fields: "bw_range ?bw' = bw_range bw" "bw_value ?bw' = rest" "bw_nb_bits ?bw' = bw_nb_bits bw - 8" "bw_run ?bw' = 0"
      by (subst r2(2), simp)+
    have s': "nat (16 + bw_nb_bits ?bw') = s" using fields(3) by (simp add: s_def algebra_simps)
    have "l = be (written ?bw') * 2 ^ s + rest"
      unfolding l b' wb(5) by (simp add: power_add algebra_simps)
    then show ?thesis
      using w wb(3,4) iv bo last pt nb unfolding writes_def Let_def prod.case fields s' pn by (simp add: s_def[symmetric])
  qed
  moreover have "bw_nb_bits ?bw' = bw_nb_bits bw - 8" "bw_value ?bw' = rest" by (subst r2(2), simp)+
  ultimately show ?thesis by (intro exI[of _ ?bw']) (simp add: rest_def s_def)
qed


lemma Flush_ok:
  assumes "writes e bw (t, l, r)" "0 \<le> bw_nb_bits bw" "malloc_ok malloc" "t < 2 ^ 35"
  shows "\<exists>bw'. Flush malloc bw = Some bw' \<and> writes e bw' (t, l, r) \<and> bw_nb_bits bw' = bw_nb_bits bw - 8 \<and>
    bw_value bw' = bw_value bw mod 2 ^ nat (8 + bw_nb_bits bw)"
  using Flush_run Flush_out assms by metis

lemma writes_scale:
  assumes w: "writes e bw (t, l, r)" and nb: "bw_nb_bits bw \<le> 0" and p: "0 \<le> p" "p < 256"
    and n: "narrow (l, r) b p = (l', r')"
  defines "s \<equiv> norm_shift r'"
  shows "writes e (bw\<lparr>bw_range := (r' + 1) * 2 ^ s - 1, bw_value := (bw_value bw + (l' - l)) * 2 ^ s,
    bw_nb_bits := bw_nb_bits bw + int s\<rparr>) (scale t (l', r'))" (is "writes e ?bw _")
proof -
  have iv: "interval_ok (t, l, r)" using w by (simp add: writes_def Let_def)
  then have r: "127 \<le> r" "r \<le> 254" by auto
  note np = narrow_props[OF r p n]
  have ok: "interval_ok (scale t (l', r'))" using interval_ok_step[OF iv p, of b] n by simp
  have s7: "s \<le> 7" unfolding s_def by (rule norm_shift_props(1)[OF np(3,4)])
  define k where "k = nat (16 + bw_nb_bits bw)"
  have nbk: "-8 \<le> bw_nb_bits bw" using w by (auto simp: k_def writes_def Let_def)
  then have k: "8 \<le> k" by (simp add: k_def)
  have v: "bw_value bw + r + 1 \<le> 2 ^ k + 254 * 2 ^ (k - 8)" "0 \<le> bw_value bw"
    and l: "l = ((be (written bw) + 1) * 256 ^ nat (bw_run bw) - 1) * 2 ^ k + bw_value bw"
    and t: "8 * (unat (bw_pos bw) + nat (bw_run bw)) + k = 8 + t"
    using w by (auto simp: k_def writes_def Let_def)
  have k': "nat (16 + bw_nb_bits ?bw) = k + s" using nbk by (simp add: k_def nat_add_distrib)
  have "(bw_value bw + (l' - l) + r' + 1) * 2 ^ s \<le> (2 ^ k + 254 * 2 ^ (k - 8)) * 2 ^ s"
    using v np by (intro mult_right_mono) auto
  also have "\<dots> = 2 ^ (k + s) + 254 * 2 ^ (k + s - 8)"
    using k by (simp add: power_add distrib_right flip: Nat.add_diff_assoc2)
  finally have v': "(bw_value bw + (l' - l)) * 2 ^ s + ((r' + 1) * 2 ^ s - 1) + 1 \<le> 2 ^ (k + s) + 254 * 2 ^ (k + s - 8)"
    by (simp add: algebra_simps)
  have l2: "l' * 2 ^ s = ((be (written bw) + 1) * 256 ^ nat (bw_run bw) - 1) * 2 ^ (k + s) + (bw_value bw + (l' - l)) * 2 ^ s"
    by (subst l) (simp add: power_add algebra_simps)
  have "buffer_ok e ?bw" "written ?bw = written bw"
    using w by (auto simp: writes_def Let_def buffer_ok_def written_def split: option.splits)
  then show ?thesis
    using ok v' l2 v(2) np(1) t nbk nb s7 w
    unfolding writes_def scale.simps Let_def prod.case k' s_def[symmetric] by (simp add: writes_def Let_def)
qed

lemma VP8PutBit_ok:
  assumes w: "writes e bw (t, l, r)" and nb: "bw_nb_bits bw \<le> 0" and p: "0 \<le> p" "p < 256"
    and m: "malloc_ok malloc" and t: "t + 7 < 2 ^ 35"
  shows "\<exists>bw'. VP8PutBit malloc bw b p = Some (b, bw') \<and> writes e bw' (code_step (t, l, r) (b \<noteq> 0, p)) \<and>
    bw_nb_bits bw' \<le> 0 \<and>
    (let s = norm_shift (snd (narrow (l, r) (b \<noteq> 0) p)) in
     if bw_nb_bits bw + int s > 0
     then bw_nb_bits bw' = bw_nb_bits bw + int s - 8 \<and> bw_value bw' < 2 ^ nat (16 + bw_nb_bits bw')
     else bw_nb_bits bw' = bw_nb_bits bw + int s \<and>
       bw_value bw' = (bw_value bw + (fst (narrow (l, r) (b \<noteq> 0) p) - l)) * 2 ^ s)"
proof -
  obtain l' r' where n: "narrow (l, r) (b \<noteq> 0) p = (l', r')" by (cases "narrow (l, r) (b \<noteq> 0) p")
  have r: "bw_range bw = r" "127 \<le> r" "r \<le> 254" "bw_nb_bits bw \<ge> -8" using w by (auto simp: writes_def Let_def)
  note np = narrow_props[OF r(2,3) p n]
  define s where "s = norm_shift r'"
  note ns = norm_shift_props[OF np(3,4), folded s_def]
  let ?n = "bw\<lparr>bw_range := r', bw_value := bw_value bw + (l' - l)\<rparr>"
  let ?s = "bw\<lparr>bw_range := (r' + 1) * 2 ^ s - 1, bw_value := (bw_value bw + (l' - l)) * 2 ^ s,
    bw_nb_bits := bw_nb_bits bw + int s\<rparr>"
  have w2: "writes e ?s (scale t (l', r'))" unfolding s_def by (rule writes_scale[OF w nb p n])
  obtain t2 l2 r2 where sc: "scale t (l', r') = (t2, l2, r2)" by (cases "scale t (l', r')")
  have t2: "t2 < 2 ^ 35" using sc t ns(1) by (auto simp: Let_def s_def)
  have 1: "(if b \<noteq> 0 then bw\<lparr>bw_value := bw_value bw + (split_at r p + 1), bw_range := bw_range bw - (split_at r p + 1)\<rparr>
               else bw\<lparr>bw_range := split_at r p\<rparr>) = ?n"
    using n r(1) by auto
  have sp: "drop_bit 8 (bw_range bw * p) = split_at r p" by (simp add: r split_at_def drop_bit_eq_div)
  have PutBit: "VP8PutBit malloc bw b p = do {
     bw \<leftarrow> (if r' < 127 then (if bw_nb_bits bw + int s > 0 then Flush malloc ?s else Some ?s) else Some ?n); Some (b, bw) }"
    unfolding VP8PutBit_def Let_def sp 1
    using ns(4,5) norm_tables(2,3)[OF np(3)] ns(1) by (auto simp: push_bit_eq_mult)
  show ?thesis
  proof (cases "r' < 127 \<and> bw_nb_bits bw + int s > 0")
    case True
    from Flush_ok[OF w2[unfolded sc] _ m t2] True obtain bw' where
      f: "Flush malloc ?s = Some bw'" "writes e bw' (t2, l2, r2)" "bw_nb_bits bw' = bw_nb_bits ?s - 8"
        "bw_value bw' = bw_value ?s mod 2 ^ nat (8 + bw_nb_bits ?s)" by auto
    have "bw_value bw' < 2 ^ nat (16 + bw_nb_bits bw')" unfolding f(4) f(3) by (simp add: algebra_simps)
    then show ?thesis using f True PutBit n sc ns(1) nb by (simp del: scale.simps add: s_def[symmetric] Let_def[of "norm_shift _"])
  next
    case False
    have "r' \<ge> 127 \<Longrightarrow> ?n = ?s" by (simp add: s_def norm_shift_def)
    then show ?thesis using False PutBit n w2 nb ns(1)
      by (cases "r' < 127") (auto simp: s_def norm_shift_def simp del: scale.simps)
  qed
qed


lemma VP8PutBitUniform_eq:
  assumes "127 \<le> bw_range bw" "bw_range bw \<le> 254"
  shows "VP8PutBitUniform malloc bw b = VP8PutBit malloc bw b 128"
proof -
  define h where "h = bw_range bw div 2"
  have d: "drop_bit 8 (bw_range bw * 128) = h" "drop_bit 1 (bw_range bw) = h"
    by (simp_all add: drop_bit_eq_div h_def)
  have k: "r < 127 \<longrightarrow> ld kNorm r = Some 1 \<and> (\<exists>n. ld kNewRange r = Some n)" if "63 \<le> r" for r
    using that norm_tables(2,3)[of r] norm_shift_props(4,6)[of r] by auto
  have "63 \<le> h" "63 \<le> bw_range bw - (h + 1)" using assms by (auto simp: h_def)
  note k = k[OF this(1)] k[OF this(2)]
  show ?thesis
  proof (cases "b = 0")
    case True
    then show ?thesis using k(1) unfolding VP8PutBitUniform_def VP8PutBit_def d Let_def by (cases "h < 127") auto
  next
    case False
    then show ?thesis using k(2) unfolding VP8PutBitUniform_def VP8PutBit_def d Let_def
      by (cases "bw_range bw - (h + 1) < 127") auto
  qed
qed

subsection \<open>Sequences of symbols and the end of the code\<close>

definition code_steps :: "nat \<times> int \<times> int \<Rightarrow> (bool \<times> int) list \<Rightarrow> nat \<times> int \<times> int" where
  "code_steps s bs = foldl code_step s bs"

text \<open>The bits of \<open>VP8PutBits\<close>, most significant first.\<close>

definition bits_of :: "nat \<Rightarrow> u32 \<Rightarrow> (bool \<times> int) list" where
  "bits_of n v = map (\<lambda>i. (bit v i, 128)) (rev [0..<n])"

lemma code_steps_simps [simp]:
  "code_steps s [] = s" "code_steps s (x # xs) = code_steps (code_step s x) xs"
  "code_steps s (xs @ ys) = code_steps (code_steps s xs) ys"
  by (simp_all add: code_steps_def)

lemma bits_of_simps: "bits_of 0 v = []" "bits_of (Suc n) v = (bit v n, 128) # bits_of n v"
  by (simp_all add: bits_of_def)

lemma code_step_time: "fst (code_step s (b, p)) \<le> fst s + 7" if "interval_ok s" "0 \<le> p" "p < 256"
proof -
  obtain t l r where s: "s = (t, l, r)" by (cases s)
  obtain l' r' where n: "narrow (l, r) b p = (l', r')" by (cases "narrow (l, r) b p")
  have r: "127 \<le> r" "r \<le> 254" using that(1) s by auto
  from norm_shift_props(1)[OF narrow_props(3,4)[OF r that(2,3) n]] show ?thesis
    by (simp add: s n Let_def del: narrow.simps)
qed

lemma code_steps_time:
  assumes "interval_ok s" "\<forall>x\<in>set bs. 0 \<le> snd x \<and> snd x < 256"
  shows "interval_ok (code_steps s bs) \<and> fst (code_steps s bs) \<le> fst s + 7 * length bs"
  using assms
proof (induction bs arbitrary: s)
  case (Cons x bs)
  obtain b p where x: "x = (b, p)" by (cases x)
  have p: "0 \<le> p" "p < 256" using Cons.prems(2) x by auto
  show ?case
    using Cons.IH[OF interval_ok_step[OF Cons.prems(1) p, of b]] Cons.prems(2) x code_step_time[OF Cons.prems(1) p, of b] by simp
qed simp

definition put_state :: "nat \<Rightarrow> VP8BitWriter \<Rightarrow> nat \<times> int \<times> int \<Rightarrow> bool" where
  "put_state e bw s \<longleftrightarrow> writes e bw s \<and> bw_nb_bits bw \<le> 0"

lemma put_state_PutBit:
  assumes "put_state e bw s" "0 \<le> p" "p < 256" "malloc_ok malloc" "fst s + 7 < 2 ^ 35"
  shows "\<exists>bw'. VP8PutBit malloc bw b p = Some (b, bw') \<and> put_state e bw' (code_step s (b \<noteq> 0, p))"
  using assms VP8PutBit_ok[of e bw "fst s" "fst (snd s)" "snd (snd s)" p malloc b] by (auto simp: put_state_def)

lemma put_state_PutBitUniform:
  assumes "put_state e bw s" "malloc_ok malloc" "fst s + 7 < 2 ^ 35"
  shows "\<exists>bw'. VP8PutBitUniform malloc bw b = Some (b, bw') \<and> put_state e bw' (code_step s (b \<noteq> 0, 128))"
proof -
  have "127 \<le> bw_range bw" "bw_range bw \<le> 254"
    using assms(1) by (auto simp: put_state_def writes_def Let_def split: prod.splits)
  then show ?thesis using put_state_PutBit[OF assms(1) _ _ assms(2,3), of 128 b] by (simp add: VP8PutBitUniform_eq)
qed

lemma bit_one_shifted: "bit (push_bit j (1 :: u32)) n \<longleftrightarrow> n = j \<and> j < 32"
  by (auto simp: bit_exp_iff)

text \<open>The loop of \<open>VP8PutBits\<close>: an invariant of the number of bits left.\<close>

lemma put_bits_loop_inv:
  assumes step: "\<And>j bw. j \<le> k \<Longrightarrow> P (Suc j) bw \<Longrightarrow>
      \<exists>b bw'. VP8PutBitUniform malloc bw (sint (v AND push_bit j 1)) = Some (b, bw') \<and> P j bw'"
    and k: "k < 32" and P: "P (Suc k) bw"
  shows "\<exists>bw'. put_bits_loop malloc v (push_bit k 1) bw = Some bw' \<and> P 0 bw'"
  using assms
proof (induction k arbitrary: bw)
  case 0
  from "0.prems"(1)[OF _ "0.prems"(3)] obtain b bw' where
    "VP8PutBitUniform malloc bw (sint (v AND 1)) = Some (b, bw')" "P 0 bw'" by auto
  then show ?case by (simp add: put_bits_loop.simps[of _ _ 1] put_bits_loop.simps[of _ _ 0])
next
  case (Suc k)
  have "push_bit j 1 \<noteq> (0 :: u32)" if "j < 32" for j using that by simp
  note nz = this[OF Suc.prems(2)]
  have dr: "drop_bit 1 (push_bit (Suc k) 1 :: u32) = push_bit k 1"
    by (rule bit_eqI) (use Suc.prems(2) in \<open>auto simp: bit_drop_bit_eq bit_one_shifted simp del: push_bit_Suc push_bit_of_1\<close>)
  from Suc.prems(1)[OF _ Suc.prems(3)] obtain b bw1 where
    1: "VP8PutBitUniform malloc bw (sint (v AND push_bit (Suc k) 1)) = Some (b, bw1)" "P (Suc k) bw1" by auto
  have "put_bits_loop malloc v (push_bit (Suc k) 1) bw = put_bits_loop malloc v (push_bit k 1) bw1"
    using 1(1) nz dr by (subst put_bits_loop.simps) (simp del: push_bit_Suc)
  then show ?case using Suc.IH[OF Suc.prems(1) _ 1(2)] Suc.prems(2) by simp
qed

lemma sint_and_bit: "sint (v AND push_bit j 1) \<noteq> 0 \<longleftrightarrow> bit v j" if "j < 32" for v :: u32
proof -
  have "v AND push_bit j 1 \<noteq> 0 \<longleftrightarrow> bit v j"
    using that by (auto simp: bit_eq_iff[of "v AND _"] bit_and_iff bit_one_shifted simp del: push_bit_of_1)
  moreover have "sint w \<noteq> 0 \<longleftrightarrow> w \<noteq> 0" for w :: u32 by (metis signed_eq_0_iff)
  ultimately show ?thesis by blast
qed

lemma put_state_PutBits:
  assumes "put_state e bw s" "malloc_ok malloc" "fst s + 7 * n < 2 ^ 35" "0 < n" "n < 32"
  shows "\<exists>bw'. VP8PutBits malloc bw v (int n) = Some bw' \<and> put_state e bw' (code_steps s (bits_of n v))"
proof -
  let ?P = "\<lambda>j bw. \<exists>s'. put_state e bw s' \<and> code_steps s' (bits_of j v) = code_steps s (bits_of n v) \<and> fst s' + 7 * j < 2 ^ 35"
  obtain k where n: "n = Suc k" using assms(4) by (cases n) auto
  have "\<exists>bw'. put_bits_loop malloc v (push_bit k 1) bw = Some bw' \<and> ?P 0 bw'"
  proof (rule put_bits_loop_inv[where P = ?P])
    fix j bw assume j: "j \<le> k" and "?P (Suc j) bw"
    then obtain s' where s': "put_state e bw s'" "code_steps s' (bits_of (Suc j) v) = code_steps s (bits_of n v)"
      "fst s' + 7 * Suc j < 2 ^ 35" by blast
    have "interval_ok s'" using s'(1) by (auto simp: put_state_def writes_def Let_def split: prod.splits)
    from code_step_time[OF this, of 128 "bit v j"] put_state_PutBitUniform[OF s'(1) assms(2), of "sint (v AND push_bit j 1)"]
    show "\<exists>b bw'. VP8PutBitUniform malloc bw (sint (v AND push_bit j 1)) = Some (b, bw') \<and> ?P j bw'"
      using s'(2,3) sint_and_bit[of j v] j n assms(5) by (fastforce simp: bits_of_simps)
  next
    show "?P (Suc k) bw" by (rule exI[of _ s]) (use assms n in simp)
  qed (use assms(5) n in simp)
  then show ?thesis using n assms(5) by (auto simp: VP8PutBits_def require_def bits_of_simps)
qed


text \<open>The end of the code: zero bits until the byte with the last bits of the code is out.\<close>

lemma pad_step:
  assumes w: "put_state e bw (t, l, r)" and r: "r \<le> 253" and m: "malloc_ok malloc" "t + 7 < 2 ^ 35"
  shows "\<exists>bw' r'. VP8PutBitUniform malloc bw 0 = Some (0, bw') \<and> put_state e bw' (t + 1, 2 * l, r') \<and> r' \<le> 253 \<and>
    bw_nb_bits bw' = (if bw_nb_bits bw = 0 then -7 else bw_nb_bits bw + 1) \<and>
    (bw_nb_bits bw = 0 \<or> bw_value bw < 2 ^ nat (16 + bw_nb_bits bw) \<longrightarrow> bw_value bw' < 2 ^ nat (16 + bw_nb_bits bw'))"
proof -
  have bw: "bw_range bw = r" "127 \<le> r" "-8 \<le> bw_nb_bits bw" "bw_nb_bits bw \<le> 0" "writes e bw (t, l, r)"
    using w by (auto simp: put_state_def writes_def Let_def)
  define r1 where "r1 = split_at r 128"
  have r1: "63 \<le> r1" "r1 < 127" using bw r by (auto simp: r1_def split_at_def)
  then have s: "norm_shift r1 = 1" using norm_shift_props(6)[of r1] by simp
  have sc: "code_step (t, l, r) (False, 128) = (t + 1, 2 * l, 2 * r1 + 1)" using s by (simp add: Let_def r1_def)
  have u: "VP8PutBitUniform malloc bw 0 = VP8PutBit malloc bw 0 128" using bw r by (intro VP8PutBitUniform_eq) auto
  have nr: "narrow (l, r) ((0 :: int) \<noteq> 0) 128 = (l, r1)" by (simp add: r1_def)
  have "128 < (256 :: int)" "0 \<le> (128 :: int)" by simp_all
  from VP8PutBit_ok[OF bw(5,4) this(2,1) m, of 0, unfolded Let_def nr fst_conv snd_conv s of_nat_1 diff_self add_0_right power_one_right] obtain bw' where
    bw': "VP8PutBit malloc bw 0 128 = Some (0, bw')" "writes e bw' (t + 1, 2 * l, 2 * r1 + 1)" "bw_nb_bits bw' \<le> 0"
      "if 0 < bw_nb_bits bw + 1 then bw_nb_bits bw' = bw_nb_bits bw + 1 - 8 \<and> bw_value bw' < 2 ^ nat (16 + bw_nb_bits bw')
       else bw_nb_bits bw' = bw_nb_bits bw + 1 \<and> bw_value bw' = bw_value bw * 2"
    by (auto simp: sc simp del: code_step.simps)
  have "nat (17 + bw_nb_bits bw) = Suc (nat (16 + bw_nb_bits bw))" using bw(3) by simp
  then have "(2 :: int) ^ nat (16 + (bw_nb_bits bw + 1)) = 2 * 2 ^ nat (16 + bw_nb_bits bw)" by (simp add: algebra_simps)
  then show ?thesis
    using bw' u r1 bw(4) by (intro exI[of _ bw'] exI[of _ "2 * r1 + 1"]) (auto simp: put_state_def split: if_splits)
qed

lemma pad_bits:
  assumes w: "put_state e bw (t, l, r)" and r: "r \<le> 253" and m: "malloc_ok malloc" and t: "t + 7 + n < 2 ^ 35"
    and n: "0 < n" "n < 32" "- bw_nb_bits bw < int n"
  shows "\<exists>bw' r'. VP8PutBits malloc bw 0 (int n) = Some bw' \<and> put_state e bw' (t + n, l * 2 ^ n, r') \<and>
    bw_value bw' < 2 ^ nat (16 + bw_nb_bits bw')"
proof -
  let ?P = "\<lambda>j bw. j \<le> n \<and> (\<exists>r'. r' \<le> 253 \<and> put_state e bw (t + (n - j), l * 2 ^ (n - j), r')) \<and>
    (- bw_nb_bits bw < int j \<or> bw_value bw < 2 ^ nat (16 + bw_nb_bits bw))"
  obtain k where k: "n = Suc k" using n(1) by (cases n) auto
  have "\<exists>bw'. put_bits_loop malloc 0 (push_bit k 1) bw = Some bw' \<and> ?P 0 bw'"
  proof (rule put_bits_loop_inv[where P = ?P])
    fix j bw assume j: "j \<le> k" and P: "?P (Suc j) bw"
    then obtain r' where r': "r' \<le> 253" "put_state e bw (t + (n - Suc j), l * 2 ^ (n - Suc j), r')" by blast
    have nj: "n - j = Suc (n - Suc j)" using j k by simp
    have nb: "bw_nb_bits bw \<le> 0" using r'(2) by (simp add: put_state_def)
    have t': "t + (n - Suc j) + 7 < 2 ^ 35" "t + (n - Suc j) + 1 = t + (n - j)" "2 * (l * 2 ^ (n - Suc j)) = l * 2 ^ (n - j)"
      using t nj by simp_all
    from pad_step[OF r'(2,1) m t'(1), unfolded t'(2,3)] obtain bw1 r1 where
      1: "VP8PutBitUniform malloc bw 0 = Some (0, bw1)" "put_state e bw1 (t + (n - j), l * 2 ^ (n - j), r1)" "r1 \<le> 253"
        "bw_nb_bits bw1 = (if bw_nb_bits bw = 0 then -7 else bw_nb_bits bw + 1)"
        "bw_nb_bits bw = 0 \<or> bw_value bw < 2 ^ nat (16 + bw_nb_bits bw) \<longrightarrow> bw_value bw1 < 2 ^ nat (16 + bw_nb_bits bw1)"
      by blast
    have "- bw_nb_bits bw1 < int j \<or> bw_value bw1 < 2 ^ nat (16 + bw_nb_bits bw1)"
      using P 1(4,5) by (auto split: if_splits)
    then show "\<exists>b bw'. VP8PutBitUniform malloc bw (sint (0 AND push_bit j 1)) = Some (b, bw') \<and> ?P j bw'"
      using 1 j k by (intro exI[of _ 0] exI[of _ bw1]) auto
  next
    show "?P (Suc k) bw" using w r n k by auto
  qed (use n k in simp)
  then obtain bw' where "put_bits_loop malloc 0 (push_bit k 1) bw = Some bw'" "?P 0 bw'" by blast
  then show ?thesis using k n put_state_def by (auto simp: VP8PutBits_def require_def)
qed


text \<open>What \<open>VP8BitWriterFinish\<close> leaves in the buffer: the lower end of the interval, as a number in
  \<open>[0, 1)\<close> with eight bits per byte.\<close>

lemma VP8BitWriterFinish_ok:
  assumes w: "put_state e bw (t, l, r)" and r: "r \<le> 253" and m: "malloc_ok malloc" and t: "t + 32 < 2 ^ 35"
  shows "\<exists>bw'. VP8BitWriterFinish malloc bw = Some bw' \<and> bw_error bw' = 0 \<and> length (written bw') = unat (bw_pos bw') \<and>
    be (written bw') * 2 ^ (t + 8) = l * 2 ^ (8 * length (written bw')) \<and> t + 16 \<le> 8 * length (written bw') \<and>
    8 * length (written bw') \<le> t + 24"
proof -
  define n where "n = nat (9 - bw_nb_bits bw)"
  have nb: "-8 \<le> bw_nb_bits bw" "bw_nb_bits bw \<le> 0" using w by (auto simp: put_state_def writes_def Let_def)
  then have n: "int n = 9 - bw_nb_bits bw" "9 \<le> n" "n \<le> 17" by (auto simp: n_def)
  have "t + 7 + n < 2 ^ 35" "0 < n" "n < 32" "- bw_nb_bits bw < int n" using t n by simp_all
  from pad_bits[OF w r m this] obtain bw1 r1 where
    1: "VP8PutBits malloc bw 0 (9 - bw_nb_bits bw) = Some bw1" "put_state e bw1 (t + n, l * 2 ^ n, r1)"
      "bw_value bw1 < 2 ^ nat (16 + bw_nb_bits bw1)"
    using n(1) by auto
  define k where "k = unat (bw_pos bw1) + nat (bw_run bw1)"
  have w0: "8 * (unat (bw_pos bw) + nat (bw_run bw)) + nat (16 + bw_nb_bits bw) = 8 + t"
    and w1: "8 * k + nat (16 + bw_nb_bits bw1) = 8 + (t + n)" "-8 \<le> bw_nb_bits bw1" "bw_nb_bits bw1 \<le> 0"
    using w 1(2) by (auto simp: put_state_def writes_def Let_def k_def)
  have "int (8 * (unat (bw_pos bw) + nat (bw_run bw))) + (8 + bw_nb_bits bw) = int t"
    "8 * int k + (8 + bw_nb_bits bw1) = int (t + n)"
    using w0 w1 nb by linarith+
  then have "bw_nb_bits bw1 = 8 * (int (unat (bw_pos bw) + nat (bw_run bw)) - int k) + 9" using n(1) by simp
  moreover have "y = -7" if "y = 8 * x + 9" "-8 \<le> y" "y \<le> 0" for x y :: int using that by presburger
  ultimately have nb1: "bw_nb_bits bw1 = -7" using w1(2,3) by blast
  have k: "8 * k + 1 = t + n" using w1(1) nb1 by simp
  have l1: "l * 2 ^ n = ((be (written bw1) + 1) * 256 ^ nat (bw_run bw1) - 1) * 2 ^ 9 + bw_value bw1"
    and iv: "interval_ok (t + n, l * 2 ^ n, r1)" and v1: "0 \<le> bw_value bw1" "bw_value bw1 < 2 ^ 9"
    and b1: "buffer_ok e bw1" "bw_range bw1 = r1" "0 < bw_pos bw1 \<longrightarrow> last (written bw1) \<noteq> 255"
    using 1(2,3) nb1 by (auto simp: put_state_def writes_def Let_def)
  have "bw_value bw1 = 0"
  proof -
    have "2 ^ n = 2 ^ (n - 9) * (2 ^ 9 :: int)" using n(2) by (simp only: power_add[symmetric] le_add_diff_inverse2)
    then have "bw_value bw1 = 2 ^ 9 * (l * 2 ^ (n - 9) - ((be (written bw1) + 1) * 256 ^ nat (bw_run bw1) - 1))"
      using l1 by (simp add: algebra_simps)
    then have "2 ^ 9 dvd bw_value bw1" by (rule dvdI)
    then show ?thesis using v1 zdvd_imp_le[of "2 ^ 9" "bw_value bw1"] by linarith
  qed
  let ?bw = "bw1\<lparr>bw_nb_bits := 0\<rparr>"
  have w2: "writes e ?bw (t + n + 7, l * 2 ^ n * 2 ^ 7, r1)"
  proof -
    have "(l * 2 ^ n + r1 + 1) * 2 ^ 7 \<le> 255 * 2 ^ (t + n) * 2 ^ 7" using iv by (intro mult_right_mono) auto
    then have "interval_ok (t + n + 7, l * 2 ^ n * 2 ^ 7, r1)" using iv by (simp add: power_add)
    moreover have "buffer_ok e ?bw" "written ?bw = written bw1"
      using b1(1) by (auto simp: buffer_ok_def written_def split: option.splits)
    moreover have "l * 2 ^ n * 2 ^ 7 = ((be (written bw1) + 1) * 256 ^ nat (bw_run bw1) - 1) * 2 ^ 16"
      unfolding l1 \<open>bw_value bw1 = 0\<close> by simp
    ultimately show ?thesis using b1 k \<open>bw_value bw1 = 0\<close> iv unfolding writes_def Let_def by (simp add: k_def)
  qed
  have "t + n + 7 < 2 ^ 35" using t n by simp
  from Flush_out[OF w2 _ m this] obtain bw2 where
    2: "Flush malloc ?bw = Some bw2" "writes e bw2 (t + n + 7, l * 2 ^ n * 2 ^ 7, r1)" "bw_nb_bits bw2 = -8"
      "bw_value bw2 = 0" "bw_run bw2 = 0"
    using \<open>bw_value bw1 = 0\<close> by auto
  have p: "8 * unat (bw_pos bw2) = t + n + 7" and l2: "l * 2 ^ n * 2 ^ 7 = be (written bw2) * 2 ^ 8" and "bw_error bw2 = 0"
    and b2: "buffer_ok e bw2"
    using 2 by (auto simp: writes_def Let_def buffer_ok_def)
  have len: "length (written bw2) = unat (bw_pos bw2)"
    using b2 p by (auto simp: buffer_ok_def written_def word_le_nat_alt split: option.splits)
  have "be (written bw2) * 2 ^ (t + 8) = l * 2 ^ (t + n + 7)"
    using l2 by (simp add: power_add)
  then show ?thesis using 1(1) 2(1) len n(2,3) p \<open>bw_error bw2 = 0\<close> by (simp add: VP8BitWriterFinish_def)
qed


end
