(* ===== verification/Bool_Reader.thy ===== *)
theory Bool_Reader
  imports Bool_Writer
begin

section \<open>The boolean decoder (src/utils/bit_reader_utils.[ch], bit_reader_inl_utils.h, VP8BitReader)\<close>

text \<open>
  The decoder of the arithmetic code, in the configuration \<open>BITS = 56\<close>: \<open>bit_t\<close> is a 64-bit word and
  \<open>range_t\<close> a 32-bit word. The pointers \<open>buf_\<close>, \<open>buf_end_\<close> and \<open>buf_max_\<close> are positions in the memory
  \<open>mem\<close> that every reading function takes (\<open>br_buf = None\<close> is \<open>NULL\<close>). A function that would read
  outside \<open>mem\<close> returns \<open>None\<close>.

  The second half connects the decoder with the encoder of theory \<open>Bool_Writer\<close>: both follow the
  interval of the abstract coder, and the decoder returns the encoded sequence.
\<close>

unbundle bit_operations_syntax

subsection \<open>The operations\<close>

record VP8BitReader =
  br_value :: u64
  br_range :: u32
  br_bits :: int
  br_buf :: "int option"
  br_buf_end :: int
  br_buf_max :: int
  br_eof :: int

definition VP8BitReaderSetBuffer :: "VP8BitReader \<Rightarrow> int \<Rightarrow> u64 \<Rightarrow> VP8BitReader" where
  "VP8BitReaderSetBuffer br start sz =
     br\<lparr>br_buf := Some start, br_buf_end := start + uint sz,
        br_buf_max := (if sz \<ge> 8 then start + uint sz - 8 + 1 else start)\<rparr>"

definition VP8LoadFinalBytes :: "u8 list \<Rightarrow> VP8BitReader \<Rightarrow> VP8BitReader option" where
  "VP8LoadFinalBytes mem br = do {
     buf \<leftarrow> br_buf br;
     (if buf < br_buf_end br then do {
        b \<leftarrow> ld mem buf;
        Some (br\<lparr>br_bits := br_bits br + 8, br_value := ucast b OR push_bit 8 (br_value br), br_buf := Some (buf + 1)\<rparr>) }
      else if br_eof br = 0 then
        Some (br\<lparr>br_value := push_bit 8 (br_value br), br_bits := br_bits br + 8, br_eof := 1\<rparr>)
      else Some (br\<lparr>br_bits := 0\<rparr>)) }"

definition VP8LoadNewBytes :: "u8 list \<Rightarrow> VP8BitReader \<Rightarrow> VP8BitReader option" where
  "VP8LoadNewBytes mem br = do {
     buf \<leftarrow> br_buf br;
     (if buf < br_buf_max br then do {
        in_bits \<leftarrow> mem_to_uint64 mem buf;
        let bits = drop_bit (64 - 56) (BSwap64 in_bits);
        Some (br\<lparr>br_buf := Some (buf + 56 div 8), br_value := bits OR push_bit 56 (br_value br),
          br_bits := br_bits br + 56\<rparr>) }
      else VP8LoadFinalBytes mem br) }"

definition VP8InitBitReader :: "u8 list \<Rightarrow> int \<Rightarrow> u64 \<Rightarrow> VP8BitReader option" where
  "VP8InitBitReader mem start sz = do {
     require (sz < 2 ^ 31);
     let br = \<lparr>br_value = 0, br_range = 255 - 1, br_bits = -8, br_buf = None, br_buf_end = 0, br_buf_max = 0, br_eof = 0\<rparr>;
     VP8LoadNewBytes mem (VP8BitReaderSetBuffer br start sz) }"

definition VP8RemapBitReader :: "VP8BitReader \<Rightarrow> int \<Rightarrow> VP8BitReader" where
  "VP8RemapBitReader br ofs =
     (case br_buf br of
        Some buf \<Rightarrow> br\<lparr>br_buf := Some (buf + ofs), br_buf_end := br_buf_end br + ofs, br_buf_max := br_buf_max br + ofs\<rparr>
      | None \<Rightarrow> br)"

definition VP8GetBit :: "u8 list \<Rightarrow> VP8BitReader \<Rightarrow> int \<Rightarrow> (int \<times> VP8BitReader) option" where
  "VP8GetBit mem br prob = do {
     let range0 = br_range br;
     br \<leftarrow> (if br_bits br < 0 then VP8LoadNewBytes mem br else Some br);
     let pos = br_bits br;
     let split = drop_bit 8 (range0 * word_of_int prob);
     let value = (ucast (drop_bit (nat pos) (br_value br)) :: u32);
     let bit_val = (if value > split then 1 else 0 :: int);
     (range1, br) \<leftarrow>
       (if bit_val \<noteq> 0 then
          Some (range0 - split, br\<lparr>br_value := br_value br - push_bit (nat pos) (ucast (split + 1))\<rparr>)
        else Some (split + 1, br));
     log \<leftarrow> BitsLog2Floor range1;
     let shift = 7 XOR log;
     let range1 = push_bit (nat shift) range1;
     Some (bit_val, br\<lparr>br_bits := br_bits br - shift, br_range := range1 - 1\<rparr>) }"

definition VP8GetSigned :: "u8 list \<Rightarrow> VP8BitReader \<Rightarrow> int \<Rightarrow> (int \<times> VP8BitReader) option" where
  "VP8GetSigned mem br v = do {
     br \<leftarrow> (if br_bits br < 0 then VP8LoadNewBytes mem br else Some br);
     let pos = br_bits br;
     let split = drop_bit 1 (br_range br);
     let value = (ucast (drop_bit (nat pos) (br_value br)) :: u32);
     let msk = drop_bit 31 (sint (split - value));
     let br = br\<lparr>br_bits := br_bits br - 1, br_range := (br_range br + word_of_int msk) OR 1,
       br_value := br_value br - push_bit (nat pos) (ucast ((split + 1) AND word_of_int msk))\<rparr>;
     Some ((v XOR msk) - msk, br) }"

definition kVP8Log2Range :: "int list" where
  "kVP8Log2Range =
    [7, 6, 6, 5, 5, 5, 5, 4, 4, 4, 4, 4, 4, 4, 4,
     3, 3, 3, 3, 3, 3, 3, 3, 3, 3, 3, 3, 3, 3, 3, 3,
     2, 2, 2, 2, 2, 2, 2, 2, 2, 2, 2, 2, 2, 2, 2, 2,
     2, 2, 2, 2, 2, 2, 2, 2, 2, 2, 2, 2, 2, 2, 2, 2,
     1, 1, 1, 1, 1, 1, 1, 1, 1, 1, 1, 1, 1, 1, 1, 1,
     1, 1, 1, 1, 1, 1, 1, 1, 1, 1, 1, 1, 1, 1, 1, 1,
     1, 1, 1, 1, 1, 1, 1, 1, 1, 1, 1, 1, 1, 1, 1, 1,
     1, 1, 1, 1, 1, 1, 1, 1, 1, 1, 1, 1, 1, 1, 1, 1,
     0]"

definition kVP8NewRange :: "u32 list" where
  "kVP8NewRange =
    [127, 127, 191, 127, 159, 191, 223, 127,
     143, 159, 175, 191, 207, 223, 239, 127,
     135, 143, 151, 159, 167, 175, 183, 191,
     199, 207, 215, 223, 231, 239, 247, 127,
     131, 135, 139, 143, 147, 151, 155, 159,
     163, 167, 171, 175, 179, 183, 187, 191,
     195, 199, 203, 207, 211, 215, 219, 223,
     227, 231, 235, 239, 243, 247, 251, 127,
     129, 131, 133, 135, 137, 139, 141, 143,
     145, 147, 149, 151, 153, 155, 157, 159,
     161, 163, 165, 167, 169, 171, 173, 175,
     177, 179, 181, 183, 185, 187, 189, 191,
     193, 195, 197, 199, 201, 203, 205, 207,
     209, 211, 213, 215, 217, 219, 221, 223,
     225, 227, 229, 231, 233, 235, 237, 239,
     241, 243, 245, 247, 249, 251, 253, 127]"

definition VP8GetBitAlt :: "u8 list \<Rightarrow> VP8BitReader \<Rightarrow> int \<Rightarrow> (int \<times> VP8BitReader) option" where
  "VP8GetBitAlt mem br prob = do {
     let range0 = br_range br;
     br \<leftarrow> (if br_bits br < 0 then VP8LoadNewBytes mem br else Some br);
     let pos = br_bits br;
     let split = drop_bit 8 (range0 * word_of_int prob);
     let value = (ucast (drop_bit (nat pos) (br_value br)) :: u32);
     (range1, br, bit_val) \<leftarrow>
       (if value > split then
          Some (range0 - (split + 1), br\<lparr>br_value := br_value br - push_bit (nat pos) (ucast (split + 1))\<rparr>, 1)
        else Some (split, br, 0 :: int));
     (range1, br) \<leftarrow>
       (if range1 \<le> 0x7e then do {
          shift \<leftarrow> ld kVP8Log2Range (uint range1);
          range2 \<leftarrow> ld kVP8NewRange (uint range1);
          Some (range2, br\<lparr>br_bits := br_bits br - shift\<rparr>) }
        else Some (range1, br));
     Some (bit_val, br\<lparr>br_range := range1\<rparr>) }"

text \<open>The loop of \<open>VP8GetValue\<close>; \<open>n\<close> is the value of \<open>bits\<close> when it is positive.\<close>

primrec get_value_loop :: "u8 list \<Rightarrow> nat \<Rightarrow> u32 \<Rightarrow> VP8BitReader \<Rightarrow> (u32 \<times> VP8BitReader) option" where
  "get_value_loop mem 0 v br = Some (v, br)"
| "get_value_loop mem (Suc n) v br = do {
     (b, br) \<leftarrow> VP8GetBit mem br 0x80;
     get_value_loop mem n (v OR word_of_int (push_bit n b)) br }"

definition VP8GetValue :: "u8 list \<Rightarrow> VP8BitReader \<Rightarrow> int \<Rightarrow> (u32 \<times> VP8BitReader) option" where
  "VP8GetValue mem br bits = get_value_loop mem (nat bits) 0 br"

definition VP8Get :: "u8 list \<Rightarrow> VP8BitReader \<Rightarrow> (int \<times> VP8BitReader) option" where
  "VP8Get mem br = VP8GetValue mem br 1 \<bind> (\<lambda>(v, br). Some (uint v, br))"

definition VP8GetSignedValue :: "u8 list \<Rightarrow> VP8BitReader \<Rightarrow> int \<Rightarrow> (int \<times> VP8BitReader) option" where
  "VP8GetSignedValue mem br bits = do {
     (v, br) \<leftarrow> VP8GetValue mem br bits;
     let value = sint v;
     (neg, br) \<leftarrow> VP8Get mem br;
     Some (if neg \<noteq> 0 then - value else value, br) }"

subsection \<open>Loading bytes\<close>

lemma int_or_shift: "0 \<le> a \<Longrightarrow> a < 2 ^ n \<Longrightarrow> a OR push_bit n b = a + b * 2 ^ n" for a b :: int
proof -
  assume "0 \<le> a" "a < 2 ^ n"
  then have "a + push_bit n b = a OR push_bit n b"
    by (intro disjunctive_add) (auto simp: bit_push_bit_iff dest: bit_int_bound)
  then show ?thesis by (simp add: push_bit_eq_mult)
qed

lemma bit_be: "bit (be bs) n \<longleftrightarrow> n < 8 * length bs \<and> bit (bs ! (length bs - 1 - n div 8)) (n mod 8)"
proof (induction bs arbitrary: n rule: rev_induct)
  case (snoc b bs)
  have e: "be (bs @ [b]) = uint b OR push_bit 8 (be bs)"
    using int_or_shift[of "uint b" 8 "be bs"] uint_bound(1)[of b] by simp
  show ?case
  proof (cases "n < 8")
    case True
    then show ?thesis by (simp add: e bit_or_iff bit_push_bit_iff bit_uint_iff del: be_append)
  next
    case False
    then have "n div 8 = Suc ((n - 8) div 8)" "(n - 8) mod 8 = n mod 8" "n < 8 + 8 * length bs \<longleftrightarrow> n - 8 < 8 * length bs" by (auto simp: le_div_geq le_mod_geq)
    then show ?thesis using False snoc[of "n - 8"]
      by (auto simp: e bit_or_iff bit_push_bit_iff bit_uint_iff nth_append simp del: be_append)
  qed
qed simp

lemma less_56: "n < 56 \<longleftrightarrow> n \<in> set [0..<56]" for n :: nat by simp

lemma load_seven:
  assumes "length bs = 8"
  shows "uint (drop_bit 8 (BSwap64 (ucast (bs ! 0) OR push_bit 8 (ucast (bs ! 1)) OR push_bit 16 (ucast (bs ! 2)) OR
    push_bit 24 (ucast (bs ! 3)) OR push_bit 32 (ucast (bs ! 4)) OR push_bit 40 (ucast (bs ! 5)) OR
    push_bit 48 (ucast (bs ! 6)) OR push_bit 56 (ucast (bs ! 7))))) = be (take 7 bs)" (is "uint ?w = _")
proof (rule bit_eqI)
  fix n
  have "\<forall>n\<in>set [0..<56]. bit ?w n = bit (bs ! (6 - n div 8)) (n mod 8)"
    by (simp add: upt_rec BSwap64_def bit_drop_bit_eq bit_or_iff bit_and_iff bit_push_bit_iff bit_ucast_iff)
      (simp add: numeral_eq_Suc)
  then show "bit (uint ?w) n = bit (be (take 7 bs)) n"
    using assms by (cases "n < 56") (auto simp: bit_be bit_uint_iff bit_drop_bit_eq dest!: bit_imp_le_length)
qed


text \<open>The decoder follows the interval \<open>(t, l, r)\<close> over the bytes \<open>bs\<close> of the code: with \<open>k\<close> bytes read,
  the pending value is the number of these bytes less the lower end of the interval.\<close>

definition reads :: "u8 list \<Rightarrow> u8 list \<Rightarrow> VP8BitReader \<Rightarrow> nat \<times> int \<times> int \<Rightarrow> bool" where
  "reads mem bs br s \<longleftrightarrow> (case s of (t, l, r) \<Rightarrow>
     \<exists>start k. br_buf br = Some (start + int k) \<and> k \<le> length bs \<and> br_buf_end br = start + int (length bs) \<and>
       br_buf_max br = (if length bs \<ge> 8 then start + int (length bs) - 8 + 1 else start) \<and>
       (\<forall>i < length bs. ld mem (start + int i) = Some (bs ! i)) \<and> br_eof br = 0 \<and>
       uint (br_range br) = r \<and> br_bits br = 8 * int k - 8 - int t \<and> -8 \<le> br_bits br \<and> br_bits br \<le> 55 \<and>
       uint (br_value br) * 2 ^ 8 + l * 2 ^ nat (br_bits br + 8) = be (take k bs) * 2 ^ 8)"

text \<open>The code, a number in \<open>[0, 1)\<close>, lies in the interval.\<close>

definition code_in :: "u8 list \<Rightarrow> nat \<times> int \<times> int \<Rightarrow> bool" where
  "code_in bs s \<longleftrightarrow> (case s of (t, l, r) \<Rightarrow>
     l * 2 ^ (8 * length bs) \<le> be bs * 2 ^ (t + 8) \<and> be bs * 2 ^ (t + 8) < (l + r + 1) * 2 ^ (8 * length bs))"

lemma code_in_scale: "code_in bs (scale t (l, r)) \<longleftrightarrow> code_in bs (t, l, r)"
proof -
  let ?s = "norm_shift r"
  have "l * 2 ^ ?s * 2 ^ (8 * length bs) \<le> be bs * 2 ^ (t + ?s + 8) \<longleftrightarrow>
      (l * 2 ^ (8 * length bs)) * 2 ^ ?s \<le> (be bs * 2 ^ (t + 8)) * 2 ^ ?s"
    by (simp add: power_add mult_ac)
  moreover have "be bs * 2 ^ (t + ?s + 8) < (l * 2 ^ ?s + ((r + 1) * 2 ^ ?s - 1) + 1) * 2 ^ (8 * length bs) \<longleftrightarrow>
      (be bs * 2 ^ (t + 8)) * 2 ^ ?s < ((l + r + 1) * 2 ^ (8 * length bs)) * 2 ^ ?s"
    by (simp add: power_add algebra_simps)
  ultimately show ?thesis by (simp add: code_in_def Let_def)
qed

lemma code_in_narrow:
  assumes "code_in bs (t, l', r')" "narrow (l, r) b p = (l', r')" "127 \<le> r" "r \<le> 254" "0 \<le> p" "p < 256"
  shows "code_in bs (t, l, r)"
    "b \<longleftrightarrow> (l + split_at r p + 1) * 2 ^ (8 * length bs) \<le> be bs * 2 ^ (t + 8)"
proof -
  note np = narrow_props[OF assms(3-6) assms(2)]
  have "l * 2 ^ (8 * length bs) \<le> l' * 2 ^ (8 * length bs)" using np by (intro mult_right_mono) auto
  moreover have "(l' + r' + 1) * 2 ^ (8 * length bs) \<le> (l + r + 1) * 2 ^ (8 * length bs)"
    using np by (intro mult_right_mono) auto
  ultimately show "code_in bs (t, l, r)" using assms(1) unfolding code_in_def prod.case by linarith
  show "b \<longleftrightarrow> (l + split_at r p + 1) * 2 ^ (8 * length bs) \<le> be bs * 2 ^ (t + 8)"
    using assms(1,2) by (auto simp: code_in_def add.assoc split: if_splits)
qed

lemma be_take:
  assumes "k \<le> length bs"
  shows "c * 2 ^ (8 * (length bs - k)) \<le> be bs \<longleftrightarrow> c \<le> be (take k bs)"
proof -
  let ?m = "256 ^ (length bs - k) :: int"
  have m: "?m = 2 ^ (8 * (length bs - k))" by (simp add: power_mult)
  have e: "be bs = be (take k bs) * ?m + be (drop k bs)"
    using be_append[of "take k bs" "drop k bs"] by simp
  have d: "0 \<le> be (drop k bs)" "be (drop k bs) < ?m" using be_bounds[of "drop k bs"] by simp_all
  show ?thesis
  proof
    assume "c \<le> be (take k bs)"
    then have "c * ?m \<le> be (take k bs) * ?m" by (intro mult_right_mono) auto
    then show "c * 2 ^ (8 * (length bs - k)) \<le> be bs" unfolding m[symmetric] using e d by linarith
  next
    assume "c * 2 ^ (8 * (length bs - k)) \<le> be bs"
    then have "c * ?m < (be (take k bs) + 1) * ?m" using e d unfolding m[symmetric] by (simp add: distrib_right)
    then have "c < be (take k bs) + 1" by (simp add: mult_less_cancel_right)
    then show "c \<le> be (take k bs)" by simp
  qed
qed


lemma pending_bound:
  assumes "code_in bs (t, l, r)" "k \<le> length bs" "8 * k = t + n"
  shows "be (take k bs) * 2 ^ 8 < (l + r + 1) * 2 ^ n"
proof -
  let ?d = "2 ^ (8 * (length bs - k)) :: int"
  have "be (take k bs) * ?d \<le> be bs" using be_take[OF assms(2), of "be (take k bs)"] by simp
  then have "be (take k bs) * ?d * 2 ^ (t + 8) \<le> be bs * 2 ^ (t + 8)" by (intro mult_right_mono) auto
  also have "\<dots> < (l + r + 1) * 2 ^ (8 * length bs)" using assms(1) by (simp add: code_in_def)
  also have "8 * length bs = 8 * (length bs - k) + (t + n)" using assms(2,3) by simp
  finally have "be (take k bs) * 2 ^ 8 * (2 ^ t * ?d) < (l + r + 1) * 2 ^ n * (2 ^ t * ?d)"
    by (simp add: power_add mult_ac)
  then show ?thesis by (simp add: mult_less_cancel_right)
qed

lemma reads_load:
  assumes start: "br_buf br = Some (start + int k)" "br_buf br' = Some (start + int (k + j))"
    and j: "k + j \<le> length bs" "8 * int j + br_bits br \<le> 55"
    and r: "reads mem bs br (t, l, r)"
    and v: "uint (br_value br') = uint (br_value br) * 256 ^ j + be (take j (drop k bs))"
    and eq: "br_bits br' = br_bits br + 8 * int j" "br_range br' = br_range br" "br_eof br' = br_eof br"
      "br_buf_end br' = br_buf_end br" "br_buf_max br' = br_buf_max br"
    and e: "br_buf_end br = start + int (length bs)"
  shows "reads mem bs br' (t, l, r)"
proof -
  from r obtain start2 k2 where r2: "br_buf br = Some (start2 + int k2)" "k2 \<le> length bs" "br_buf_end br = start2 + int (length bs)"
      "br_buf_max br = (if length bs \<ge> 8 then start2 + int (length bs) - 8 + 1 else start2)"
      "\<forall>i < length bs. ld mem (start2 + int i) = Some (bs ! i)" "br_eof br = 0"
      "uint (br_range br) = r" "br_bits br = 8 * int k2 - 8 - int t" "-8 \<le> br_bits br" "br_bits br \<le> 55"
      "uint (br_value br) * 2 ^ 8 + l * 2 ^ nat (br_bits br + 8) = be (take k2 bs) * 2 ^ 8"
    by (auto simp: reads_def)
  have [simp]: "start2 = start" "k2 = k" using r2(1,3) start e by auto
  have "be (take (k + j) bs) = be (take k bs) * 256 ^ j + be (take j (drop k bs))"
    using j by (simp add: take_add)
  moreover have "nat (br_bits br' + 8) = nat (br_bits br + 8) + 8 * j" using r2(9) eq by simp
  moreover have "(2 :: int) ^ (nat (br_bits br + 8) + 8 * j) = 2 ^ nat (br_bits br + 8) * 256 ^ j"
    by (simp add: power_add power_mult)
  moreover have "(uint (br_value br) * 2 ^ 8 + l * 2 ^ nat (br_bits br + 8)) * 256 ^ j = be (take k bs) * 2 ^ 8 * 256 ^ j"
    by (simp only: r2(11) \<open>k2 = k\<close>)
  ultimately have "uint (br_value br') * 2 ^ 8 + l * 2 ^ nat (br_bits br' + 8) = be (take (k + j) bs) * 2 ^ 8"
    by (simp add: v algebra_simps)
  then show ?thesis using r2 start j eq unfolding reads_def prod.case
    by (intro exI[of _ start] exI[of _ "k + j"]) auto
qed

lemma uint_push_small:
  fixes a :: "'a :: len word"
  assumes "uint a * 2 ^ n < 2 ^ LENGTH('a)" shows "uint (push_bit n a) = uint a * 2 ^ n"
proof -
  have "uint (push_bit n a) = push_bit n (uint a)"
    unfolding unsigned_push_bit_eq by (rule take_bit_int_eq_self) (use assms in \<open>simp_all add: push_bit_eq_mult\<close>)
  then show ?thesis by (simp add: push_bit_eq_mult)
qed

lemma uint_sub_small: "uint b \<le> uint a \<Longrightarrow> uint (a - b) = uint a - uint b" for a b :: "'a :: len word"
  by (rule uint_sub_if'[THEN trans]) simp

lemma word_or_shift:
  fixes a b :: u64
  assumes "uint a < 2 ^ n" "uint b * 2 ^ n < 2 ^ 64"
  shows "uint (a OR push_bit n b) = uint b * 2 ^ n + uint a"
proof -
  have "uint (a OR push_bit n b) = uint a OR uint (push_bit n b)" by (simp add: uint_or)
  also have "uint (push_bit n b) = push_bit n (uint b)"
    using uint_push_small[of b n] assms(2) by (simp add: push_bit_eq_mult)
  finally show ?thesis using int_or_shift[of "uint a" n] assms(1) by simp
qed

lemma uint_ucast_byte: "uint (ucast b :: u64) = uint b" for b :: u8
  unfolding unsigned_ucast_eq by (rule take_bit_int_eq_self) (use uint_bound(1)[of b] in simp_all)

lemma VP8LoadNewBytes_ok:
  assumes r: "reads mem bs br (t, l, r)" and neg: "br_bits br < 0" and more: "t + 8 \<le> 8 * length bs"
    and c: "code_in bs (t, l, r)" and r254: "r \<le> 254"
  shows "\<exists>br'. VP8LoadNewBytes mem br = Some br' \<and> reads mem bs br' (t, l, r) \<and> 0 \<le> br_bits br' \<and> br_range br' = br_range br"
proof -
  from r obtain start k where r2: "br_buf br = Some (start + int k)" "k \<le> length bs" "br_buf_end br = start + int (length bs)"
      "br_buf_max br = (if length bs \<ge> 8 then start + int (length bs) - 8 + 1 else start)"
      "\<forall>i < length bs. ld mem (start + int i) = Some (bs ! i)" "br_eof br = 0"
      "uint (br_range br) = r" "br_bits br = 8 * int k - 8 - int t" "-8 \<le> br_bits br" "br_bits br \<le> 55"
      "uint (br_value br) * 2 ^ 8 + l * 2 ^ nat (br_bits br + 8) = be (take k bs) * 2 ^ 8"
    by (auto simp: reads_def)
  have k: "k < length bs" using neg r2(8) more by linarith
  have "8 * k = t + nat (br_bits br + 8)" using r2(8,9) by simp
  from pending_bound[OF c r2(2) this]
  have "uint (br_value br) * 2 ^ 8 < (r + 1) * 2 ^ nat (br_bits br + 8)" using r2(11) by (simp add: algebra_simps)
  also have "\<dots> \<le> 255 * 2 ^ 7"
  proof (rule mult_mono)
    show "(2 :: int) ^ nat (br_bits br + 8) \<le> 2 ^ 7" using neg by (intro power_increasing) auto
  qed (use r254 in auto)
  finally have v: "uint (br_value br) < 128" by simp
  show ?thesis
  proof (cases "start + int k < br_buf_max br")
    case True
    then have len: "k + 8 \<le> length bs" using r2(4) by (auto split: if_splits)
    let ?bs = "take 8 (drop k bs)"
    have "ld mem (start + int k + int i) = Some (?bs ! i)" if "i < 8" for i
      using r2(5) len that by (auto simp: add.assoc simp flip: of_nat_add)
    note m8 = this[of 0] this[of 1] this[of 2] this[of 3] this[of 4] this[of 5] this[of 6] this[of 7]
    have m: "mem_to_uint64 mem (start + int k) = Some (ucast (?bs ! 0) OR push_bit 8 (ucast (?bs ! 1)) OR push_bit 16 (ucast (?bs ! 2)) OR
      push_bit 24 (ucast (?bs ! 3)) OR push_bit 32 (ucast (?bs ! 4)) OR push_bit 40 (ucast (?bs ! 5)) OR
      push_bit 48 (ucast (?bs ! 6)) OR push_bit 56 (ucast (?bs ! 7)))"
      unfolding mem_to_uint64_def using m8 by (simp del: nth_take nth_drop)
    have "length ?bs = 8" using len by simp
    note s7 = load_seven[OF this]
    have t7: "take 7 ?bs = take 7 (drop k bs)" by simp
    obtain w where w: "mem_to_uint64 mem (start + int k) = Some w" "uint (drop_bit 8 (BSwap64 w)) = be (take 7 (drop k bs))"
      using m s7 t7 by auto
    let ?br = "br\<lparr>br_buf := Some (start + int k + 7), br_value := drop_bit 8 (BSwap64 w) OR push_bit 56 (br_value br), br_bits := br_bits br + 56\<rparr>"
    have "VP8LoadNewBytes mem br = Some ?br" using True w(1) r2(1) by (simp add: VP8LoadNewBytes_def)
    moreover have "reads mem bs ?br (t, l, r)"
    proof (rule reads_load[where j = 7 and k = k and start = start])
      have "be (take 7 (drop k bs)) < 256 ^ 7" using be_bounds(2)[of "take 7 (drop k bs)"] len by simp
      then show "uint (br_value ?br) = uint (br_value br) * 256 ^ 7 + be (take 7 (drop k bs))"
        using word_or_shift[of "drop_bit 8 (BSwap64 w)" 56 "br_value br"] v w(2) by simp
    qed (use r2 r len neg in auto)
    ultimately show ?thesis using r2(9) by auto
  next
    case False
    have b: "ld mem (start + int k) = Some (bs ! k)" using r2(5) k by blast
    let ?br = "br\<lparr>br_bits := br_bits br + 8, br_value := ucast (bs ! k) OR push_bit 8 (br_value br), br_buf := Some (start + int k + 1)\<rparr>"
    have "VP8LoadNewBytes mem br = Some ?br" using False b r2(1,3) k by (simp add: VP8LoadNewBytes_def VP8LoadFinalBytes_def)
    moreover have "reads mem bs ?br (t, l, r)"
    proof (rule reads_load[where j = 1 and k = k and start = start])
      have "take 1 (drop k bs) = [bs ! k]" using k by (metis Cons_nth_drop_Suc One_nat_def take_Suc_Cons take_0)
      moreover have "uint (ucast (bs ! k) :: u64) = uint (bs ! k)" by (rule uint_ucast_byte)
      ultimately show "uint (br_value ?br) = uint (br_value br) * 256 ^ 1 + be (take 1 (drop k bs))"
        using word_or_shift[of "ucast (bs ! k)" 8 "br_value br"] v uint_bound(1)[of "bs ! k"] by simp
    qed (use r2 r k neg in auto)
    ultimately show ?thesis using r2(9) by auto
  qed
qed


text \<open>The decision of the decoder: the top of the pending value against the split.\<close>

lemma le_div_iff_mult: "0 < b \<Longrightarrow> x \<le> a div b \<longleftrightarrow> x * b \<le> a" for a b x :: int
proof
  assume "0 < b" "x \<le> a div b"
  then have "x * b \<le> a div b * b" by simp
  also have "\<dots> \<le> a" using \<open>0 < b\<close> div_mult_mod_eq[of a b] pos_mod_sign[of b a] by linarith
  finally show "x * b \<le> a" .
next
  assume "0 < b" "x * b \<le> a"
  then show "x \<le> a div b" using zdiv_mono1[of "x * b" a b] by simp
qed

lemma reads_compare:
  assumes r: "reads mem bs br (t, l, r)" and pos: "0 \<le> br_bits br" and c: "code_in bs (t, l, r)"
    and r254: "0 \<le> r" "r \<le> 254" and x: "0 \<le> x"
  shows "uint (drop_bit (nat (br_bits br)) (br_value br)) \<le> r"
    "x \<le> uint (drop_bit (nat (br_bits br)) (br_value br)) \<longleftrightarrow> (l + x) * 2 ^ (8 * length bs) \<le> be bs * 2 ^ (t + 8)"
proof -
  from r obtain start k where r2: "k \<le> length bs" "br_bits br = 8 * int k - 8 - int t"
      "uint (br_value br) * 2 ^ 8 + l * 2 ^ nat (br_bits br + 8) = be (take k bs) * 2 ^ 8"
    by (auto simp: reads_def)
  define p where "p = nat (br_bits br)"
  have p: "nat (br_bits br + 8) = p + 8" "8 * k = t + 8 + p" using pos r2(2) by (auto simp: p_def)
  have v: "uint (br_value br) + l * 2 ^ p = be (take k bs)" using r2(3) by (simp add: p power_add)
  have d: "uint (drop_bit p (br_value br)) = uint (br_value br) div 2 ^ p" by (rule uint_shiftr)
  have ge: "x \<le> uint (br_value br) div 2 ^ p \<longleftrightarrow> x * 2 ^ p \<le> uint (br_value br)" for x
    by (rule le_div_iff_mult) simp
  have cmp: "x \<le> uint (br_value br) div 2 ^ p \<longleftrightarrow> (l + x) * 2 ^ (8 * length bs) \<le> be bs * 2 ^ (t + 8)" for x
  proof -
    have "x * 2 ^ p \<le> uint (br_value br) \<longleftrightarrow> (l + x) * 2 ^ p \<le> be (take k bs)"
      by (simp add: v[symmetric] distrib_right)
    also have "\<dots> \<longleftrightarrow> (l + x) * 2 ^ p * 2 ^ (8 * (length bs - k)) \<le> be bs" by (rule be_take[OF r2(1), symmetric])
    also have "\<dots> \<longleftrightarrow> (l + x) * 2 ^ p * 2 ^ (8 * (length bs - k)) * 2 ^ (t + 8) \<le> be bs * 2 ^ (t + 8)"
      by (rule mult_le_cancel_right_pos[symmetric]) simp
    also have "(l + x) * 2 ^ p * 2 ^ (8 * (length bs - k)) * 2 ^ (t + 8) = (l + x) * 2 ^ (p + 8 * (length bs - k) + (t + 8))"
      by (simp only: power_add mult.assoc)
    also have "p + 8 * (length bs - k) + (t + 8) = 8 * length bs" using p(2) r2(1) by simp
    finally show ?thesis by (simp add: ge)
  qed
  show "x \<le> uint (drop_bit (nat (br_bits br)) (br_value br)) \<longleftrightarrow> (l + x) * 2 ^ (8 * length bs) \<le> be bs * 2 ^ (t + 8)"
    using cmp by (simp add: d flip: p_def)
  have "\<not> (l + (r + 1)) * 2 ^ (8 * length bs) \<le> be bs * 2 ^ (t + 8)" using c by (simp add: code_in_def add.assoc)
  then have "\<not> r + 1 \<le> uint (br_value br) div 2 ^ p" by (simp only: cmp not_False_eq_True)
  then show "uint (drop_bit (nat (br_bits br)) (br_value br)) \<le> r" by (simp add: d flip: p_def)
qed

lemma reads_subtract:
  assumes r: "reads mem bs br (t, l, r)" and pos: "0 \<le> br_bits br" 
    and l': "l' = l + d" "0 \<le> d" "d \<le> uint (drop_bit (nat (br_bits br)) (br_value br))" and s: "s \<le> 7"
    and v: "uint v = uint (br_value br) - d * 2 ^ nat (br_bits br)" and u: "uint u = (r' + 1) * 2 ^ s - 1"
  shows "reads mem bs (br\<lparr>br_value := v, br_bits := br_bits br - int s, br_range := u\<rparr>)
    (t + s, l' * 2 ^ s, (r' + 1) * 2 ^ s - 1)"
proof -
  from r obtain start k where r2: "br_buf br = Some (start + int k)" "k \<le> length bs" "br_buf_end br = start + int (length bs)"
      "br_buf_max br = (if length bs \<ge> 8 then start + int (length bs) - 8 + 1 else start)"
      "\<forall>i < length bs. ld mem (start + int i) = Some (bs ! i)" "br_eof br = 0"
      "br_bits br = 8 * int k - 8 - int t" "br_bits br \<le> 55"
      "uint (br_value br) * 2 ^ 8 + l * 2 ^ nat (br_bits br + 8) = be (take k bs) * 2 ^ 8"
    by (auto simp: reads_def)
  have n: "nat (br_bits br + 8) = nat (br_bits br) + 8" "nat (br_bits br + 8) = nat (br_bits br - int s + 8) + s"
    using pos s by auto
  have "2 ^ s * 2 ^ nat (br_bits br - int s + 8) = 2 ^ nat (br_bits br) * (2 :: int) ^ 8"
    using n by (simp only: power_add[symmetric]) (simp add: add.commute)
  then have "l' * 2 ^ s * 2 ^ nat (br_bits br - int s + 8) = l' * (2 ^ nat (br_bits br) * 2 ^ 8)"
    by (simp only: mult.assoc)
  then have "uint v * 2 ^ 8 + l' * 2 ^ s * 2 ^ nat (br_bits br - int s + 8) = be (take k bs) * 2 ^ 8"
    using r2(9) unfolding n(1) power_add by (simp add: v l'(1) algebra_simps)
  then show ?thesis using r2 pos s u unfolding reads_def prod.case
    by (intro exI[of _ start] exI[of _ k]) auto
qed


lemma log2_shift:
  assumes "0 \<le> r'" "r' \<le> 254" "uint v = r' + 1"
  shows "BitsLog2Floor v = Some (7 - int (norm_shift r'))" "7 XOR (7 - int (norm_shift r')) = int (norm_shift r')"
proof -
  let ?s = "norm_shift r'"
  note n = norm_shift_props(1-3)[OF assms(1,2)]
  have pow: "(2 :: int) ^ 7 = 2 ^ (7 - ?s) * 2 ^ ?s" "(2 :: int) ^ 8 = 2 ^ Suc (7 - ?s) * 2 ^ ?s"
    using n(1) by (simp_all only: power_add[symmetric]) simp_all
  have "2 ^ (7 - ?s) * 2 ^ ?s \<le> (r' + 1) * 2 ^ ?s" using n(2) pow(1) by simp
  then have a: "2 ^ (7 - ?s) \<le> r' + 1" by (simp add: mult_le_cancel_right)
  have "(r' + 1) * 2 ^ ?s < 2 ^ Suc (7 - ?s) * 2 ^ ?s" using n(3) unfolding pow(2)[symmetric] by simp
  then have b: "r' + 1 < 2 ^ Suc (7 - ?s)" by (simp only: mult_less_cancel_right) simp
  show "BitsLog2Floor v = Some (7 - int ?s)"
    using BitsLog2Floor_eq[of "7 - ?s" v] a b n(1) assms(3) by (simp add: of_nat_diff)
  have "\<forall>k\<in>set [0..7]. (7 :: int) XOR (7 - k) = k" by code_simp
  then show "7 XOR (7 - int ?s) = int ?s" using n(1) by simp
qed

lemma uint_sub_shifted:
  fixes x :: u32 and w :: u64
  assumes "uint x \<le> uint (drop_bit n w)"
  shows "uint (w - push_bit n (ucast x)) = uint w - uint x * 2 ^ n"
proof -
  have u: "uint (ucast x :: u64) = uint x"
    unfolding unsigned_ucast_eq by (rule take_bit_int_eq_self) (use uint_bound(3)[of x] in simp_all)
  have "uint x * 2 ^ n \<le> uint (drop_bit n w) * 2 ^ n" using assms by (intro mult_right_mono) auto
  also have "\<dots> \<le> uint w" unfolding uint_shiftr by (simp add: minus_mod_eq_div_mult[symmetric])
  finally have le: "uint x * 2 ^ n \<le> uint w" .
  then have "uint (push_bit n (ucast x :: u64)) = uint x * 2 ^ n"
    using uint_push_small[of "ucast x :: u64" n] uint_bound(4)[of w] by (simp add: u)
  then show ?thesis using uint_sub_small le by metis
qed

lemma VP8GetBit_ok:
  assumes rd: "reads mem bs br (t, l, r)" and iv: "interval_ok (t, l, r)" and p: "0 \<le> p" "p < 256"
    and c: "code_in bs (code_step (t, l, r) (b, p))" and more: "t + 8 \<le> 8 * length bs"
  shows "\<exists>br'. VP8GetBit mem br p = Some (of_bool b, br') \<and> reads mem bs br' (code_step (t, l, r) (b, p))"
proof -
  obtain l' r' where n: "narrow (l, r) b p = (l', r')" by (cases "narrow (l, r) b p")
  have r: "127 \<le> r" "r \<le> 254" using iv by auto
  note np = narrow_props[OF r p n] and sr = split_range[OF r p]
  have c': "code_in bs (t, l', r')" using c n by (simp add: code_in_scale del: narrow.simps scale.simps)
  note cn = code_in_narrow[OF c' n r p]
  define s where "s = norm_shift r'"
  have load: "\<exists>br1. (if br_bits br < 0 then VP8LoadNewBytes mem br else Some br) = Some br1 \<and> reads mem bs br1 (t, l, r) \<and>
      0 \<le> br_bits br1"
    using VP8LoadNewBytes_ok[OF rd _ more cn(1) r(2)] rd by (cases "br_bits br < 0") auto
  then obtain br1 where br1: "(if br_bits br < 0 then VP8LoadNewBytes mem br else Some br) = Some br1"
    "reads mem bs br1 (t, l, r)" "0 \<le> br_bits br1" by blast
  define v where "v = uint (drop_bit (nat (br_bits br1)) (br_value br1))"
  have v: "0 \<le> v" "v \<le> r" "b \<longleftrightarrow> split_at r p + 1 \<le> v"
    using reads_compare[OF br1(2,3) cn(1) _ r(2), of "split_at r p + 1"] cn(2) sr r by (auto simp: v_def add.assoc)
  define sp where "sp = drop_bit 8 (br_range br * word_of_int p)"
  define vw where "vw = (ucast (drop_bit (nat (br_bits br1)) (br_value br1)) :: u32)"
  have ur: "uint (br_range br) = r" using rd by (auto simp: reads_def)
  have sp: "uint sp = split_at r p"
  proof -
    have "r * p \<le> 254 * 255" using r p by (intro mult_mono) auto
    then have "uint (br_range br * word_of_int p) = r * p"
      using ur r p by (simp add: uint_word_ariths uint_word_of_int)
    then show ?thesis by (simp add: sp_def uint_shiftr split_at_def)
  qed
  have vw: "uint vw = v"
    unfolding vw_def unsigned_ucast_eq v_def[symmetric] by (rule take_bit_int_eq_self) (use v(1,2) r(2) in simp_all)
  have gt: "vw > sp \<longleftrightarrow> b" using v(3) by (auto simp: word_less_def vw sp)
  have step: "reads mem bs (br1\<lparr>br_value := w, br_bits := br_bits br1 - int s, br_range := push_bit s x - 1\<rparr>) (scale t (l', r'))"
    if w: "uint w = uint (br_value br1) - (l' - l) * 2 ^ nat (br_bits br1)" and x: "uint x = r' + 1" and d: "l' - l \<le> v" for w x
  proof -
    note ns = norm_shift_props(1-3)[OF np(3,4), folded s_def]
    have "uint (push_bit s x) = (r' + 1) * 2 ^ s"
      using uint_push_small[of x s] ns(3) by (simp add: x)
    then have "uint (push_bit s x - 1) = (r' + 1) * 2 ^ s - 1" using ns by (simp add: uint_word_ariths)
    from reads_subtract[OF br1(2,3) _ _ _ ns(1) w this, of l'] show ?thesis
      using np(1) d by (simp add: v_def s_def Let_def)
  qed
  show ?thesis
  proof (cases b)
    case True
    then have n': "l' = l + split_at r p + 1" "r' = r - split_at r p - 1" using n by auto
    let ?x = "br_range br - sp"
    let ?w = "br_value br1 - push_bit (nat (br_bits br1)) (ucast (sp + 1))"
    have x: "uint ?x = r' + 1" using uint_sub_small[of sp "br_range br"] sr by (simp add: ur sp n')
    have w: "uint ?w = uint (br_value br1) - (l' - l) * 2 ^ nat (br_bits br1)"
      using uint_sub_shifted[of "sp + 1" "nat (br_bits br1)" "br_value br1"] sr r n'(1) v(3) True
      by (simp add: uint_word_ariths sp flip: v_def)
    have d: "l' - l \<le> v" using v(3) True n' by simp
    note lg = log2_shift[OF np(3,4) x, folded s_def]
    have "VP8GetBit mem br p = Some (1, br1\<lparr>br_value := ?w, br_bits := br_bits br1 - int s, br_range := push_bit s ?x - 1\<rparr>)"
      using gt True lg unfolding VP8GetBit_def Let_def by (simp add: br1(1) flip: sp_def vw_def)
    then show ?thesis using step[OF w x d] True n by simp
  next
    case False
    then have n': "l' = l" "r' = split_at r p" using n by auto
    let ?x = "sp + 1"
    have x: "uint ?x = r' + 1" using sr r by (simp add: uint_word_ariths sp n')
    have w: "uint (br_value br1) = uint (br_value br1) - (l' - l) * 2 ^ nat (br_bits br1)" by (simp add: n')
    note lg = log2_shift[OF np(3,4) x, folded s_def]
    have "VP8GetBit mem br p = Some (0, br1\<lparr>br_bits := br_bits br1 - int s, br_range := push_bit s ?x - 1\<rparr>)"
      using gt False lg unfolding VP8GetBit_def Let_def by (simp add: br1(1) flip: sp_def vw_def)
    then show ?thesis using step[OF w x] False n n' v(1) by simp
  qed
qed


subsection \<open>The variants of reading a bit\<close>

lemma reader_tables:
  "kVP8Log2Range = kNorm" "map uint kVP8NewRange = kNewRange"
  by (simp_all add: kVP8Log2Range_def kNorm_def kVP8NewRange_def kNewRange_def)

lemma norm_word:
  fixes x :: u32
  assumes "uint x = r'" "0 \<le> r'" "r' \<le> 254"
  shows "(if x \<le> 0x7e then do {
          shift \<leftarrow> ld kVP8Log2Range (uint x);
          range2 \<leftarrow> ld kVP8NewRange (uint x);
          Some (range2, br\<lparr>br_bits := br_bits br - shift\<rparr>) }
        else Some (x, br)) =
    Some (push_bit (norm_shift r') (x + 1) - 1, br\<lparr>br_bits := br_bits br - int (norm_shift r')\<rparr>)"
proof (cases "r' < 127")
  case True
  note n = norm_shift_props[OF assms(2,3)]
  have le: "x \<le> 0x7e" using True assms(1) by (simp add: word_le_def)
  have len: "nat r' < length kVP8NewRange" using True assms(2) by (simp add: kVP8NewRange_def)
  have "uint (kVP8NewRange ! nat r') = kNewRange ! nat r'" using len reader_tables(2) by (metis nth_map)
  moreover have "uint (push_bit (norm_shift r') (x + 1)) = (r' + 1) * 2 ^ norm_shift r'"
    using uint_push_small[of "x + 1" "norm_shift r'"] n(3) assms True by (simp add: uint_word_ariths)
  then have "uint (push_bit (norm_shift r') (x + 1) - 1) = (r' + 1) * 2 ^ norm_shift r' - 1"
    using n(2,3) by (simp add: uint_word_ariths)
  ultimately have "kVP8NewRange ! nat r' = push_bit (norm_shift r') (x + 1) - 1"
    using n(5) True by (simp add: word_uint_eq_iff)
  moreover have "ld kVP8NewRange r' = Some (kVP8NewRange ! nat r')" using len assms(2) by (simp add: ld_def)
  moreover have "ld kVP8Log2Range r' = Some (int (norm_shift r'))"
    using norm_tables(2)[OF assms(2) True] n(4) True by (simp add: reader_tables)
  ultimately show ?thesis using le by (simp add: assms(1))
next
  case False
  then have "\<not> x \<le> 0x7e" using assms(1) by (simp add: word_le_def)
  then show ?thesis using False by (simp add: norm_shift_def)
qed

lemma VP8GetBitAlt_eq:
  assumes r: "127 \<le> uint (br_range br)" "uint (br_range br) \<le> 254" and p: "0 \<le> p" "p < 256"
  shows "VP8GetBitAlt mem br p = VP8GetBit mem br p"
proof (cases "if br_bits br < 0 then VP8LoadNewBytes mem br else Some br")
  case None
  then show ?thesis by (simp add: VP8GetBitAlt_def VP8GetBit_def)
next
  case (Some br1)
  define sp where "sp = drop_bit 8 (br_range br * word_of_int p)"
  have sp: "uint sp = split_at (uint (br_range br)) p"
  proof -
    have "uint (br_range br) * p \<le> 254 * 255" using r p by (intro mult_mono) auto
    then have "uint (br_range br * word_of_int p) = uint (br_range br) * p"
      using r p by (simp add: uint_word_ariths uint_word_of_int)
    then show ?thesis by (simp add: sp_def uint_shiftr split_at_def)
  qed
  note sr = split_range[OF r p]
  have u1: "uint (sp + 1) = split_at (uint (br_range br)) p + 1" using sr r by (simp add: uint_word_ariths sp)
  then have hi: "uint (br_range br - (sp + 1)) = uint (br_range br) - split_at (uint (br_range br)) p - 1"
    using uint_sub_small[of "sp + 1" "br_range br"] sr by simp
  have u2: "uint (br_range br - sp) = uint (br_range br) - split_at (uint (br_range br)) p - 1 + 1"
    using uint_sub_small[of sp "br_range br"] sr by (simp add: sp)
  have bounds: "0 \<le> uint (br_range br) - split_at (uint (br_range br)) p - 1" "uint (br_range br) - split_at (uint (br_range br)) p - 1 \<le> 254"
    "0 \<le> split_at (uint (br_range br)) p" "split_at (uint (br_range br)) p \<le> 254"
    using sr r by simp_all
  note a = norm_word[OF hi bounds(1,2)] and b = norm_word[OF sp bounds(3,4)]
  note la = log2_shift[OF bounds(1,2) u2] and lb = log2_shift[OF bounds(3,4) u1]
  have e: "br_range br - (sp + 1) + 1 = br_range br - sp" "(1 :: int) \<noteq> 0" by simp_all
  show ?thesis
  proof (cases "sp < ucast (drop_bit (nat (br_bits br1)) (br_value br1))")
    case True
    then show ?thesis unfolding VP8GetBitAlt_def VP8GetBit_def Let_def sp_def[symmetric] Some
      by (simp only: Option.bind.simps if_True prod.case a la e simp_thms nat_int)
  next
    case False
    then show ?thesis unfolding VP8GetBitAlt_def VP8GetBit_def Let_def sp_def[symmetric] Some
      by (simp only: Option.bind.simps if_False prod.case b lb simp_thms nat_int)
  qed
qed

lemma VP8GetSigned_ok:
  assumes rd: "reads mem bs br (t, l, r)" and iv: "interval_ok (t, l, r)" and r253: "r \<le> 253"
    and c: "code_in bs (code_step (t, l, r) (b, 128))" and more: "t + 8 \<le> 8 * length bs"
  shows "\<exists>br'. VP8GetSigned mem br v = Some (if b then - v else v, br') \<and> reads mem bs br' (code_step (t, l, r) (b, 128))"
proof -
  obtain l' r' where n: "narrow (l, r) b 128 = (l', r')" by (cases "narrow (l, r) b 128")
  have r: "127 \<le> r" "r \<le> 254" using iv by auto
  have p: "0 \<le> (128 :: int)" "(128 :: int) < 256" by simp_all
  note np = narrow_props[OF r p n] and sr = split_range[OF r p]
  have c': "code_in bs (t, l', r')" using c n by (simp add: code_in_scale del: narrow.simps scale.simps)
  note cn = code_in_narrow[OF c' n r p]
  have load: "\<exists>br1. (if br_bits br < 0 then VP8LoadNewBytes mem br else Some br) = Some br1 \<and> reads mem bs br1 (t, l, r) \<and>
      0 \<le> br_bits br1"
    using VP8LoadNewBytes_ok[OF rd _ more cn(1) r(2)] rd by (cases "br_bits br < 0") auto
  then obtain br1 where br1: "(if br_bits br < 0 then VP8LoadNewBytes mem br else Some br) = Some br1"
    "reads mem bs br1 (t, l, r)" "0 \<le> br_bits br1" by blast
  have r1: "br_range br1 = br_range br"
    using br1(1) VP8LoadNewBytes_ok[OF rd _ more cn(1) r(2)] by (cases "br_bits br < 0") auto
  define v0 where "v0 = uint (drop_bit (nat (br_bits br1)) (br_value br1))"
  have v0: "0 \<le> v0" "v0 \<le> r" "b \<longleftrightarrow> split_at r 128 + 1 \<le> v0"
    using reads_compare[OF br1(2,3) cn(1) _ r(2), of "split_at r 128 + 1"] cn(2) sr r by (auto simp: v0_def add.assoc)
  define sp where "sp = drop_bit 1 (br_range br)"
  define vw where "vw = (ucast (drop_bit (nat (br_bits br1)) (br_value br1)) :: u32)"
  have ur: "uint (br_range br) = r" using rd by (auto simp: reads_def)
  have half: "split_at r 128 = r div 2" by (simp add: split_at_def)
  have sp: "uint sp = r div 2" by (simp add: sp_def uint_shiftr ur)
  have vw: "uint vw = v0"
    unfolding vw_def unsigned_ucast_eq v0_def[symmetric] by (rule take_bit_int_eq_self) (use v0(1,2) r(2) in simp_all)
  have sd: "sint (sp - vw) = r div 2 - v0"
  proof -
    have "sp - vw = word_of_int (r div 2 - v0)" by (simp add: sp[symmetric] vw[symmetric])
    then have "sint (sp - vw) = signed_take_bit 31 (r div 2 - v0)" by (simp add: signed_of_int del: of_int_diff)
    also have "\<dots> = r div 2 - v0" by (rule signed_take_bit_int_eq_self) (use v0 r in simp_all)
    finally show ?thesis .
  qed
  have r': "63 \<le> r'" "r' < 127" using n r r253 half by (auto split: if_splits)
  then have s1: "norm_shift r' = 1" using norm_shift_props(6)[of r'] by simp
  have cs: "code_step (t, l, r) (b, 128) = (t + 1, l' * 2 ^ 1, (r' + 1) * 2 ^ 1 - 1)" using n s1 by simp
  show ?thesis
  proof (cases b)
    case True
    then have n': "l' = l + (r div 2 + 1)" "r' = r - r div 2 - 1" using n half by auto
    have m: "drop_bit 31 (sint (sp - vw)) = -1" unfolding sd drop_bit_eq_div using v0 True half r by simp
    have x: "(v XOR - 1) - - 1 = - v" by (simp add: not_eq_complement)
    let ?u = "(br_range br + word_of_int (- 1)) OR 1"
    let ?w = "br_value br1 - push_bit (nat (br_bits br1)) (ucast ((sp + 1) AND word_of_int (- 1)))"
    have e: "VP8GetSigned mem br v = Some (- v, br1\<lparr>br_value := ?w, br_bits := br_bits br1 - int 1, br_range := ?u\<rparr>)"
      using m unfolding VP8GetSigned_def Let_def sp_def vw_def br1(1) Option.bind.simps r1
      by (simp only: m x) simp
    have "uint (br_range br + word_of_int (- 1)) = r - 1" using uint_sub_small[of 1 "br_range br"] r by (simp add: ur)
    then have "uint ?u = (r - 1) OR 1" by (simp only: uint_or uint_1)
    then have u: "uint ?u = (r' + 1) * 2 ^ 1 - 1" unfolding n'(2) or_one_eq by simp presburger
    have "uint ?w = uint (br_value br1) - (r div 2 + 1) * 2 ^ nat (br_bits br1)"
      using uint_sub_shifted[of "sp + 1" "nat (br_bits br1)" "br_value br1"] v0(3) True half r
      by (simp add: uint_word_ariths sp flip: v0_def)
    from reads_subtract[OF br1(2,3) n'(1) _ _ _ this, of 1 ?u r'] u v0(3) True half r
    have "reads mem bs (br1\<lparr>br_value := ?w, br_bits := br_bits br1 - int 1, br_range := ?u\<rparr>) (t + 1, l' * 2 ^ 1, (r' + 1) * 2 ^ 1 - 1)"
      by (simp add: v0_def)
    then show ?thesis using e True unfolding cs by simp
  next
    case False
    then have n': "l' = l + 0" "r' = r div 2" using n half by auto
    have m: "drop_bit 31 (sint (sp - vw)) = 0" unfolding sd drop_bit_eq_div using v0 False half r by simp
    let ?u = "br_range br OR 1"
    have e: "VP8GetSigned mem br v = Some (v, br1\<lparr>br_value := br_value br1, br_bits := br_bits br1 - int 1, br_range := ?u\<rparr>)"
      using m unfolding VP8GetSigned_def Let_def sp_def vw_def br1(1) Option.bind.simps r1
      by (simp only: m) simp
    have "uint ?u = r OR 1" by (simp only: uint_or uint_1 ur)
    then have u: "uint ?u = (r' + 1) * 2 ^ 1 - 1" unfolding n'(2) or_one_eq by simp presburger
    from reads_subtract[OF br1(2,3) n'(1), of 1 "br_value br1" ?u r'] u v0
    have "reads mem bs (br1\<lparr>br_value := br_value br1, br_bits := br_bits br1 - int 1, br_range := ?u\<rparr>) (t + 1, l' * 2 ^ 1, (r' + 1) * 2 ^ 1 - 1)"
      by (simp add: v0_def)
    then show ?thesis using e False unfolding cs by simp
  qed
qed


end
