(* ===== verification/Bool_Coder.thy ===== *)
theory Bool_Coder
  imports Bool_Reader
begin

section \<open>The boolean coder: the decoder inverts the encoder\<close>

text \<open>
  The composition of \<open>Bool_Writer\<close> and \<open>Bool_Reader\<close>. The decoder's state \<open>dec\<close> says that the reader
  follows the interval of the abstract coder and that the rest of the code lies ahead; every reading
  function takes it over one item. The items are the three shapes in which src/enc/syntax_enc.c and
  src/dec/vp8_dec.c write and read the headers: bits, numbers and optional signed numbers.
\<close>

unbundle bit_operations_syntax

subsection \<open>Runs of symbols\<close>

declare code_step.simps [simp del] narrow.simps [simp del] scale.simps [simp del]

text \<open>A run of the decoder over the probabilities of a list of symbols. \<open>dec\<close> is the state the decoder
  has reached: it follows the interval and the rest of the code lies ahead of it.\<close>

definition dec :: "u8 list \<Rightarrow> u8 list \<Rightarrow> VP8BitReader \<Rightarrow> nat \<times> int \<times> int \<Rightarrow> (bool \<times> int) list \<Rightarrow> bool" where
  "dec mem bs br s xs \<longleftrightarrow> reads mem bs br s \<and> interval_ok s \<and> (\<forall>x\<in>set xs. 0 \<le> snd x \<and> snd x < 256) \<and>
     code_in bs (code_steps s xs) \<and> fst (code_steps s xs) + 8 \<le> 8 * length bs"

lemma code_step_mono: "fst s \<le> fst (code_step s x)"
proof -
  obtain t l r b p where "s = (t, l, r)" "x = (b, p)" by (cases s; cases x)
  then show ?thesis by (cases "narrow (l, r) b p") (simp add: code_step.simps scale.simps Let_def)
qed

lemma code_steps_mono: "fst s \<le> fst (code_steps s xs)"
proof (induction xs arbitrary: s)
  case (Cons x xs)
  have "fst s \<le> fst (code_step s x)" by (rule code_step_mono)
  also have "\<dots> \<le> fst (code_steps (code_step s x) xs)" by (rule Cons.IH)
  finally show ?case by simp
qed simp

lemma code_in_step:
  assumes a: "code_in bs (code_step s (b, p))" "interval_ok s" "0 \<le> p" "p < 256"
  shows "code_in bs s"
proof -
  obtain t l r where s: "s = (t, l, r)" by (cases s)
  obtain l' r' where n: "narrow (l, r) b p = (l', r')" by (cases "narrow (l, r) b p")
  have c: "code_in bs (t, l', r')" using a(1) n by (simp add: s code_in_scale code_step.simps)
  have r: "127 \<le> r" "r \<le> 254" using a(2) by (simp_all add: s)
  show ?thesis unfolding s by (rule code_in_narrow(1)[OF c n r a(3,4)])
qed

lemma code_in_steps:
  "code_in bs (code_steps s xs) \<Longrightarrow> interval_ok s \<Longrightarrow> \<forall>x\<in>set xs. 0 \<le> snd x \<and> snd x < 256 \<Longrightarrow> code_in bs s"
proof (induction xs arbitrary: s)
  case (Cons x xs)
  obtain b p where x: "x = (b, p)" by (cases x)
  have p: "0 \<le> p" "p < 256" using Cons.prems(3) x by auto
  have "code_in bs (code_step s (b, p))"
    by (rule Cons.IH[OF _ interval_ok_step[OF Cons.prems(2) p]]) (use Cons.prems(1,3) x in simp_all)
  then show ?case by (rule code_in_step[OF _ Cons.prems(2) p])
qed simp

lemma dec_Cons:
  assumes "dec mem bs br s ((b, p) # xs)"
  shows "reads mem bs br s" "interval_ok s" "0 \<le> p" "p < 256" "code_in bs (code_step s (b, p))" "fst s + 8 \<le> 8 * length bs"
    "reads mem bs br' (code_step s (b, p)) \<Longrightarrow> dec mem bs br' (code_step s (b, p)) xs"
proof -
  have d: "reads mem bs br s" "interval_ok s" "0 \<le> p" "p < 256" "\<forall>x\<in>set xs. 0 \<le> snd x \<and> snd x < 256"
    "code_in bs (code_steps (code_step s (b, p)) xs)" "fst (code_steps (code_step s (b, p)) xs) + 8 \<le> 8 * length bs"
    using assms by (simp_all add: dec_def)
  note i2 = interval_ok_step[OF d(2-4), of b]
  show "reads mem bs br s" "interval_ok s" "0 \<le> p" "p < 256" by (fact d)+
  show "code_in bs (code_step s (b, p))" by (rule code_in_steps[OF d(6) i2 d(5)])
  have "fst s \<le> fst (code_steps s ((b, p) # xs))" by (rule code_steps_mono)
  then show "fst s + 8 \<le> 8 * length bs" using d(7) by simp
  show "reads mem bs br' (code_step s (b, p)) \<Longrightarrow> dec mem bs br' (code_step s (b, p)) xs"
    using d i2 by (simp add: dec_def)
qed

lemma dec_GetBit:
  assumes "dec mem bs br s ((b, p) # xs)"
  shows "\<exists>br'. VP8GetBit mem br p = Some (of_bool b, br') \<and> dec mem bs br' (code_step s (b, p)) xs"
  using VP8GetBit_ok[of mem bs br "fst s" "fst (snd s)" "snd (snd s)" p b] dec_Cons[OF assms] by auto

lemma take_bit_Suc_or: "take_bit (Suc n) v = take_bit n v OR push_bit n (of_bool (bit v n))" for v :: u32
  by (rule bit_eqI) (auto simp: bit_or_iff bit_push_bit_iff bit_take_bit_iff bit_1_iff less_Suc_eq)

lemma dec_get_value:
  assumes "dec mem bs br s (bits_of n v @ xs)" "n \<le> 32"
  shows "\<exists>br'. get_value_loop mem n a br = Some (a OR take_bit n v, br') \<and> dec mem bs br' (code_steps s (bits_of n v)) xs"
  using assms
proof (induction n arbitrary: a br s)
  case 0
  then show ?case by (simp add: bits_of_simps)
next
  case (Suc n)
  then have "dec mem bs br s ((bit v n, 128) # bits_of n v @ xs)" by (simp add: bits_of_simps)
  from dec_GetBit[OF this] obtain br1 where
    1: "VP8GetBit mem br 128 = Some (of_bool (bit v n), br1)" "dec mem bs br1 (code_step s (bit v n, 128)) (bits_of n v @ xs)" by blast
  have w: "(word_of_int (push_bit n (of_bool (bit v n))) :: u32) = push_bit n (of_bool (bit v n))"
    by (auto simp: push_bit_eq_mult)
  have n: "n \<le> 32" using Suc.prems(2) by simp
  have e: "a OR take_bit (Suc n) v = (a OR push_bit n (of_bool (bit v n))) OR take_bit n v"
    unfolding take_bit_Suc_or by (simp only: ac_simps)
  show ?case
    using Suc.IH[OF 1(2) n, of "a OR push_bit n (of_bool (bit v n))"] 1(1) unfolding e
    by (simp add: bits_of_simps(2) w del: take_bit_Suc)
qed


text \<open>The items of a bit stream: one bit with its probability, a number of \<open>n\<close> bits, and the optional
  signed number of \<open>VP8PutSignedBits\<close>, which the decoder reads as
  \<open>VP8Get(br) ? VP8GetSignedValue(br, n) : 0\<close> (src/dec/vp8_dec.c).\<close>

datatype item = Bit bool int | Bits nat u32 | Signed nat int

fun item_ok :: "item \<Rightarrow> bool" where
  "item_ok (Bit b p) \<longleftrightarrow> 0 \<le> p \<and> p < 256"
| "item_ok (Bits n v) \<longleftrightarrow> 0 < n \<and> n < 32 \<and> uint v < 2 ^ n"
| "item_ok (Signed n v) \<longleftrightarrow> 0 < n \<and> n < 31 \<and> \<bar>v\<bar> < 2 ^ n"

fun put_item :: "allocator \<Rightarrow> item \<Rightarrow> VP8BitWriter \<Rightarrow> VP8BitWriter option" where
  "put_item malloc (Bit b p) bw = map_option snd (VP8PutBit malloc bw (of_bool b) p)"
| "put_item malloc (Bits n v) bw = VP8PutBits malloc bw v (int n)"
| "put_item malloc (Signed n v) bw = VP8PutSignedBits malloc bw v (int n)"

fun get_item :: "u8 list \<Rightarrow> item \<Rightarrow> VP8BitReader \<Rightarrow> (int \<times> VP8BitReader) option" where
  "get_item mem (Bit _ p) br = VP8GetBit mem br p"
| "get_item mem (Bits n _) br = map_option (map_prod uint id) (VP8GetValue mem br (int n))"
| "get_item mem (Signed n _) br = do {
     (flag, br) \<leftarrow> VP8Get mem br;
     (if flag \<noteq> 0 then VP8GetSignedValue mem br (int n) else Some (0, br)) }"

fun item_value :: "item \<Rightarrow> int" where
  "item_value (Bit b _) = of_bool b"
| "item_value (Bits _ v) = uint v"
| "item_value (Signed _ v) = v"

fun symbols :: "item \<Rightarrow> (bool \<times> int) list" where
  "symbols (Bit b p) = [(b, p)]"
| "symbols (Bits n v) = bits_of n v"
| "symbols (Signed n v) =
     (if v = 0 then [(False, 128)]
      else (True, 128) # bits_of n (word_of_int \<bar>v\<bar>) @ [(v < 0, 128)])"

primrec put_items :: "allocator \<Rightarrow> item list \<Rightarrow> VP8BitWriter \<Rightarrow> VP8BitWriter option" where
  "put_items malloc [] bw = Some bw"
| "put_items malloc (x # xs) bw = put_item malloc x bw \<bind> put_items malloc xs"

primrec get_items :: "u8 list \<Rightarrow> item list \<Rightarrow> VP8BitReader \<Rightarrow> (int list \<times> VP8BitReader) option" where
  "get_items mem [] br = Some ([], br)"
| "get_items mem (x # xs) br = do {
     (v, br) \<leftarrow> get_item mem x br;
     (vs, br) \<leftarrow> get_items mem xs br;
     Some (v # vs, br) }"

lemma bits_of_valid: "x \<in> set (bits_of n v) \<Longrightarrow> 0 \<le> snd x \<and> snd x < 256"
  by (auto simp: bits_of_def)

lemma length_bits_of [simp]: "length (bits_of n v) = n"
  by (simp add: bits_of_def)

lemma symbols_valid: "item_ok x \<Longrightarrow> \<forall>y\<in>set (symbols x). 0 \<le> snd y \<and> snd y < 256"
  by (cases x) (auto dest: bits_of_valid)

lemma symbols_length: "item_ok x \<Longrightarrow> 0 < length (symbols x) \<and> length (symbols x) \<le> 32"
  by (cases x) auto

lemma bits_of_sign:
  assumes "n < 31"
  shows "bits_of (Suc n) (push_bit 1 w) = bits_of n w @ [(False, 128)]"
    "bits_of (Suc n) (push_bit 1 w OR 1) = bits_of n w @ [(True, 128)]"
proof -
  have "rev [0..<Suc n] = map Suc (rev [0..<n]) @ [0]"
    by (simp add: map_Suc_upt upt_conv_Cons rev_map[symmetric] del: upt_Suc)
  then show "bits_of (Suc n) (push_bit 1 w) = bits_of n w @ [(False, 128)]"
    "bits_of (Suc n) (push_bit 1 w OR 1) = bits_of n w @ [(True, 128)]"
    using assms by (auto simp: bits_of_def bit_or_iff bit_push_bit_iff bit_1_iff simp del: upt_Suc push_bit_Suc)
qed


lemma put_state_time: "put_state e bw s \<Longrightarrow> interval_ok s"
  by (auto simp: put_state_def writes_def Let_def split: prod.splits)

lemma put_state_item:
  assumes w: "put_state e bw s" and m: "malloc_ok malloc" and t: "fst s + 7 * 32 < 2 ^ 35" and ok: "item_ok x"
  shows "\<exists>bw'. put_item malloc x bw = Some bw' \<and> put_state e bw' (code_steps s (symbols x))"
proof (cases x)
  case (Bit b p)
  then show ?thesis using put_state_PutBit[OF w _ _ m, of p "of_bool b"] ok t by auto
next
  case (Bits n v)
  then show ?thesis using put_state_PutBits[OF w m, of n v] ok t by auto
next
  case (Signed n v)
  then have n: "0 < n" "n < 31" "\<bar>v\<bar> < 2 ^ n" using ok by auto
  let ?flag = "if v \<noteq> 0 then 1 else 0 :: int"
  have fl: "(?flag \<noteq> 0) = (v \<noteq> 0)" by simp
  have "fst s + 7 < 2 ^ 35" using t by simp
  from put_state_PutBitUniform[OF w m this, of ?flag, unfolded fl] obtain bw1 where
    1: "VP8PutBitUniform malloc bw ?flag = Some (?flag, bw1)" "put_state e bw1 (code_step s (v \<noteq> 0, 128))" by blast
  show ?thesis
  proof (cases "v = 0")
    case True
    then show ?thesis using 1 Signed by (simp add: VP8PutSignedBits_def)
  next
    case False
    have tm: "fst (code_step s (True, 128)) + 7 * Suc n < 2 ^ 35"
      using code_step_time[OF put_state_time[OF w], of 128 True] t n(2) by simp
    note pb = put_state_PutBits[OF 1(2) m, of "Suc n"]
    have p: "\<exists>bw2. VP8PutBits malloc bw1 u (int (Suc n)) = Some bw2 \<and>
        put_state e bw2 (code_steps (code_step s (True, 128)) (bits_of (Suc n) u))" for u
      using pb[of u] tm n False by simp
    have neg: "(word_of_int (push_bit 1 (- v) OR 1) :: u32) = push_bit 1 (word_of_int \<bar>v\<bar>) OR 1" if "v < 0"
    proof -
      have "push_bit 1 (- v) OR 1 = 2 * \<bar>v\<bar> + 1" using that by (simp add: or_one_eq push_bit_eq_mult)
      moreover have "push_bit 1 w OR 1 = 2 * w + 1" for w :: u32 by (simp add: or_one_eq push_bit_eq_mult)
      ultimately show ?thesis by simp
    qed
    have pos: "(word_of_int (push_bit 1 v) :: u32) = push_bit 1 (word_of_int \<bar>v\<bar>)" if "\<not> v < 0"
      using that by (simp add: push_bit_eq_mult)
    define w where "w = (word_of_int \<bar>v\<bar> :: u32)"
    define u where "u = (if v < 0 then push_bit 1 w OR 1 else push_bit 1 w)"
    have "bits_of (Suc n) u = bits_of n w @ [(v < 0, 128)]" using bits_of_sign[OF n(2), of w] by (simp add: u_def)
    then obtain bw2 where 2: "VP8PutBits malloc bw1 u (int n + 1) = Some bw2"
      "put_state e bw2 (code_steps (code_step s (True, 128)) (bits_of n w @ [(v < 0, 128)]))"
      using p[of u] by (auto simp: add.commute)
    have "VP8PutSignedBits malloc bw v (int n) = VP8PutBits malloc bw1 u (int n + 1)"
    proof (cases "v < 0")
      case True
      show ?thesis unfolding VP8PutSignedBits_def 1(1) u_def w_def
        by (simp only: neg[OF True] True False if_True if_False if_not_P Option.bind.simps prod.case simp_thms one_neq_zero)
    next
      case c: False
      show ?thesis unfolding VP8PutSignedBits_def 1(1) u_def w_def
        by (simp only: pos[OF c] c False if_True if_False Option.bind.simps prod.case simp_thms one_neq_zero)
    qed
    then show ?thesis using 2 Signed False by (simp add: w_def)
  qed
qed

lemma dec_GetValue:
  assumes "dec mem bs br s (bits_of n v @ xs)" "n < 32" "uint v < 2 ^ n"
  shows "\<exists>br'. VP8GetValue mem br (int n) = Some (v, br') \<and> dec mem bs br' (code_steps s (bits_of n v)) xs"
proof -
  have "take_bit n v = v" using assms(3) by (simp add: word_uint_eq_iff unsigned_take_bit_eq take_bit_int_eq_self)
  then show ?thesis using dec_get_value[OF assms(1), of 0] assms(2) by (simp add: VP8GetValue_def)
qed

lemma dec_Get:
  assumes "dec mem bs br s ((b, 128) # xs)"
  shows "\<exists>br'. VP8Get mem br = Some (of_bool b, br') \<and> dec mem bs br' (code_step s (b, 128)) xs"
  using dec_GetValue[of mem bs br s 1 "of_bool b" xs] assms by (cases b) (auto simp: bits_of_def VP8Get_def)

lemma dec_item:
  assumes d: "dec mem bs br s (symbols x @ xs)" and ok: "item_ok x"
  shows "\<exists>br'. get_item mem x br = Some (item_value x, br') \<and> dec mem bs br' (code_steps s (symbols x)) xs"
proof (cases x)
  case (Bit b p)
  then show ?thesis using dec_GetBit[of mem bs br s b p xs] d by auto
next
  case (Bits n v)
  then show ?thesis using dec_GetValue[of mem bs br s n v xs] d ok by auto
next
  case (Signed n v)
  then have n: "0 < n" "n < 31" "\<bar>v\<bar> < 2 ^ n" using ok by auto
  show ?thesis
  proof (cases "v = 0")
    case True
    then show ?thesis using dec_Get[of mem bs br s False xs] d Signed by auto
  next
    case False
    then have "dec mem bs br s ((True, 128) # (bits_of n (word_of_int \<bar>v\<bar>) @ (v < 0, 128) # xs))" using d Signed by simp
    from dec_Get[OF this] obtain br1 where
      1: "VP8Get mem br = Some (1, br1)" "dec mem bs br1 (code_step s (True, 128)) (bits_of n (word_of_int \<bar>v\<bar>) @ (v < 0, 128) # xs)" by auto
    have u: "uint (word_of_int \<bar>v\<bar> :: u32) < 2 ^ n" "sint (word_of_int \<bar>v\<bar> :: u32) = \<bar>v\<bar>"
    proof -
      have "(2 :: int) ^ n \<le> 2 ^ 30" using n(2) by (intro power_increasing) auto
      then have b: "\<bar>v\<bar> < 2 ^ 30" using n(3) by linarith
      then have "uint (word_of_int \<bar>v\<bar> :: u32) = \<bar>v\<bar>" by (simp add: uint_word_of_int)
      then show "uint (word_of_int \<bar>v\<bar> :: u32) < 2 ^ n" using n(3) by (simp only:)
      have "sint (word_of_int \<bar>v\<bar> :: u32) = signed_take_bit 31 \<bar>v\<bar>" by (simp add: signed_of_int)
      also have "\<dots> = \<bar>v\<bar>" by (rule signed_take_bit_int_eq_self) (use b in simp_all)
      finally show "sint (word_of_int \<bar>v\<bar> :: u32) = \<bar>v\<bar>" .
    qed
    define w where "w = (word_of_int \<bar>v\<bar> :: u32)"
    note 1 = 1[folded w_def] and u = u[folded w_def]
    from dec_GetValue[OF 1(2) _ u(1)] n obtain br2 where
      2: "VP8GetValue mem br1 (int n) = Some (w, br2)"
        "dec mem bs br2 (code_steps (code_step s (True, 128)) (bits_of n w)) ((v < 0, 128) # xs)" by auto
    from dec_Get[OF 2(2)] obtain br3 where
      3: "VP8Get mem br2 = Some (of_bool (v < 0), br3)"
        "dec mem bs br3 (code_step (code_steps (code_step s (True, 128)) (bits_of n w)) (v < 0, 128)) xs" by auto
    show ?thesis using 1(1) 2(1) 3 u(2) Signed False by (simp add: VP8GetSignedValue_def Let_def flip: w_def)
  qed
qed


definition all_symbols :: "item list \<Rightarrow> (bool \<times> int) list" where
  "all_symbols xs = concat (map symbols xs)"

lemma all_symbols_simps [simp]: "all_symbols [] = []" "all_symbols (x # xs) = symbols x @ all_symbols xs"
  by (simp_all add: all_symbols_def)

lemma all_symbols_valid:
  "\<forall>x\<in>set xs. item_ok x \<Longrightarrow> \<forall>y\<in>set (all_symbols xs). 0 \<le> snd y \<and> snd y < 256"
  using symbols_valid by (auto simp: all_symbols_def)

lemma all_symbols_length: "\<forall>x\<in>set xs. item_ok x \<Longrightarrow> length (all_symbols xs) \<le> 32 * length xs"
  using symbols_length by (induction xs) (auto simp: add_mono)

lemma put_items_ok:
  assumes "put_state e bw s" "malloc_ok malloc" "\<forall>x\<in>set xs. item_ok x" "fst s + 7 * 32 * length xs < 2 ^ 35"
  shows "\<exists>bw'. put_items malloc xs bw = Some bw' \<and> put_state e bw' (code_steps s (all_symbols xs))"
  using assms
proof (induction xs arbitrary: bw s)
  case (Cons x xs)
  have "fst s + 7 * 32 < 2 ^ 35" "item_ok x" using Cons.prems by auto
  from put_state_item[OF Cons.prems(1,2) this] obtain bw1 where
    1: "put_item malloc x bw = Some bw1" "put_state e bw1 (code_steps s (symbols x))" by blast
  have "fst (code_steps s (symbols x)) \<le> fst s + 7 * 32"
    using code_steps_time[OF put_state_time[OF Cons.prems(1)] symbols_valid[OF \<open>item_ok x\<close>]] symbols_length[OF \<open>item_ok x\<close>] by linarith
  then show ?case using Cons.IH[OF 1(2) Cons.prems(2)] Cons.prems(3,4) 1(1) by simp
qed simp

lemma get_items_ok:
  assumes "dec mem bs br s (all_symbols xs)" "\<forall>x\<in>set xs. item_ok x"
  shows "\<exists>br'. get_items mem xs br = Some (map item_value xs, br')"
  using assms
proof (induction xs arbitrary: br s)
  case (Cons x xs)
  then show ?case using dec_item[of mem bs br s x "all_symbols xs"] by fastforce
qed simp

lemma VP8BitWriterInit_ok:
  assumes m: "malloc_ok malloc" and sz: "uint sz < 2 ^ 33"
  shows "\<exists>bw. VP8BitWriterInit malloc sz = Some (1, bw) \<and> put_state (2 * unat sz) bw (0, 0, 254)"
proof -
  let ?bw = "\<lparr>bw_range = 255 - 1, bw_value = 0, bw_run = 0, bw_nb_bits = -8, bw_buf = None, bw_pos = 0, bw_max_pos = 0, bw_error = 0\<rparr>"
  have b: "buffer_ok 0 ?bw" by (simp add: buffer_ok_def)
  show ?thesis
  proof (cases "sz > 0")
    case True
    from BitWriterResize_ok[OF m b, of sz] sz obtain bw where
      bw: "BitWriterResize malloc ?bw sz = Some (1, bw)" "bw = ?bw\<lparr>bw_buf := bw_buf bw, bw_max_pos := bw_max_pos bw\<rparr>"
        "written bw = written ?bw" "(case bw_buf bw of Some c \<Rightarrow> length c = unat (bw_max_pos bw) | None \<Rightarrow> bw_max_pos bw = 0)"
        "uint (bw_max_pos bw) \<le> max 0 (max (2 * uint sz) 1024)"
      by auto
    have f: "bw_range bw = 254" "bw_value bw = 0" "bw_run bw = 0" "bw_nb_bits bw = -8" "bw_pos bw = 0" "bw_error bw = 0"
      by (subst bw(2), simp)+
    have "max 0 (max (2 * u) 1024) \<le> 2 * u + 1024" if "0 \<le> u" for u :: int using that by simp
    then have "uint (bw_max_pos bw) \<le> 2 * uint sz + 1024" by (rule order_trans[OF bw(5)]) simp
    then have "buffer_ok (2 * unat sz) bw" using bw(4) f by (auto simp: buffer_ok_def)
    then have "put_state (2 * unat sz) bw (0, 0, 254)" using f bw(3) by (simp add: put_state_def writes_def Let_def written_def)
    then show ?thesis using bw(1) True by (simp add: VP8BitWriterInit_def)
  next
    case False
    then have "sz = 0" by (metis word_gt_0)
    then show ?thesis by (simp add: VP8BitWriterInit_def put_state_def writes_def Let_def written_def buffer_ok_def)
  qed
qed

lemma code_step_range: "interval_ok s \<Longrightarrow> 0 \<le> p \<Longrightarrow> p < 256 \<Longrightarrow> snd (snd (code_step s (b, p))) \<le> 253"
proof -
  assume a: "interval_ok s" "0 \<le> p" "p < 256"
  obtain t l r where s: "s = (t, l, r)" by (cases s)
  obtain l' r' where n: "narrow (l, r) b p = (l', r')" by (cases "narrow (l, r) b p")
  have r: "127 \<le> r" "r \<le> 254" using a(1) s by auto
  note np = narrow_props[OF r a(2,3) n]
  have "r' < r" using n split_range[OF r a(2,3)] by (auto simp: narrow.simps split: if_splits)
  have "(r' + 1) * 2 ^ norm_shift r' - 1 \<le> 253"
  proof (cases "norm_shift r'")
    case 0
    then show ?thesis using \<open>r' < r\<close> r by simp
  next
    case (Suc k)
    have "(r' + 1) * 2 ^ norm_shift r' = 2 * ((r' + 1) * 2 ^ k)" by (simp add: Suc)
    then show ?thesis using norm_shift_props(3)[OF np(3,4)] by presburger
  qed
  then show "snd (snd (code_step s (b, p))) \<le> 253" by (simp add: s n code_step.simps scale.simps Let_def)
qed

lemma code_steps_range:
  assumes "interval_ok s" "\<forall>x\<in>set bs. 0 \<le> snd x \<and> snd x < 256" "bs \<noteq> []"
  shows "snd (snd (code_steps s bs)) \<le> 253"
proof -
  obtain xs b p where bs: "bs = xs @ [(b, p)]" using assms(3) by (cases bs rule: rev_cases) auto
  have "interval_ok (code_steps s xs)" using code_steps_time[OF assms(1), of xs] assms(2) bs by simp
  then show ?thesis using code_step_range[of _ p b] assms(2) bs by simp
qed

lemma VP8InitBitReader_ok:
  assumes "\<forall>i < length bs. ld mem (start + int i) = Some (bs ! i)" "length bs < 2 ^ 31" "1 \<le> length bs"
    "code_in bs (code_steps (0, 0, 254) xs)" "\<forall>x\<in>set xs. 0 \<le> snd x \<and> snd x < 256"
    "fst (code_steps (0, 0, 254) xs) + 8 \<le> 8 * length bs"
  shows "\<exists>br. VP8InitBitReader mem start (of_nat (length bs)) = Some br \<and> dec mem bs br (0, 0, 254) xs"
proof -
  have u: "uint (of_nat (length bs) :: u64) = int (length bs)"
    using assms(2) by (simp add: unsigned_of_nat take_bit_nat_eq_self)
  let ?br = "\<lparr>br_value = 0, br_range = 255 - 1, br_bits = -8, br_buf = Some start, br_buf_end = start + int (length bs),
    br_buf_max = (if length bs \<ge> 8 then start + int (length bs) - 8 + 1 else start), br_eof = 0\<rparr>"
  have iv: "interval_ok (0, 0, 254)" by simp
  have "reads mem bs ?br (0, 0, 254)" using assms(1) by (auto simp: reads_def)
  moreover have c: "code_in bs (0, 0, 254)" by (rule code_in_steps[OF assms(4) iv assms(5)])
  ultimately obtain br where "VP8LoadNewBytes mem ?br = Some br" "reads mem bs br (0, 0, 254)"
    using VP8LoadNewBytes_ok[of mem bs ?br 0 0 254] assms(3) by auto
  moreover have "VP8InitBitReader mem start (of_nat (length bs)) = VP8LoadNewBytes mem ?br"
  proof -
    have "(of_nat (length bs) :: u64) < 2 ^ 31" using assms(2) u by (simp add: word_less_def)
    moreover have "(of_nat (length bs) :: u64) \<ge> 8 \<longleftrightarrow> length bs \<ge> 8" using u by (simp add: word_le_def)
    ultimately show ?thesis using u by (simp add: VP8InitBitReader_def require_def VP8BitReaderSetBuffer_def Let_def)
  qed
  ultimately show ?thesis using assms(4-6) iv by (auto simp: dec_def)
qed


lemma encode_items:
  assumes "malloc_ok malloc" "uint sz < 2 ^ 33" "xs \<noteq> []" "\<forall>x\<in>set xs. item_ok x" "length xs < 2 ^ 26"
  shows "\<exists>bw bw'. VP8BitWriterInit malloc sz = Some (1, bw) \<and> put_items malloc xs bw \<bind> VP8BitWriterFinish malloc = Some bw' \<and>
    bw_error bw' = 0 \<and> length (written bw') = unat (bw_pos bw') \<and> length (written bw') < 2 ^ 31 \<and>
    code_in (written bw') (code_steps (0, 0, 254) (all_symbols xs)) \<and>
    fst (code_steps (0, 0, 254) (all_symbols xs)) + 8 \<le> 8 * length (written bw')"
proof -
  from VP8BitWriterInit_ok[OF assms(1,2)] obtain bw where
    i: "VP8BitWriterInit malloc sz = Some (1, bw)" "put_state (2 * unat sz) bw (0, 0, 254)" by blast
  have len: "7 * 32 * length xs < 2 ^ 35 - 2 ^ 30" using assms(5) by simp
  then have "fst (0 :: nat, 0 :: int, 254 :: int) + 7 * 32 * length xs < 2 ^ 35" by simp
  from put_items_ok[OF i(2) assms(1,4) this] obtain bw1 where
    p: "put_items malloc xs bw = Some bw1" "put_state (2 * unat sz) bw1 (code_steps (0, 0, 254) (all_symbols xs))" by blast
  obtain t l r where s: "code_steps (0, 0, 254) (all_symbols xs) = (t, l, r)" by (cases "code_steps (0, 0, 254) (all_symbols xs)")
  note val = all_symbols_valid[OF assms(4)]
  obtain x ys where "xs = x # ys" using assms(3) by (cases xs) auto
  then have ne: "all_symbols xs \<noteq> []" using symbols_length[of x] assms(4) by auto
  have iv: "interval_ok (0, 0, 254)" by simp
  have r: "r \<le> 253" using code_steps_range[OF iv val ne] s by simp
  have t: "t \<le> 7 * (32 * length xs)" using code_steps_time[OF iv val] all_symbols_length[OF assms(4)] s by simp
  have r0: "0 \<le> r" using code_steps_time[OF iv val] s by simp
  have "t + 32 < 2 ^ 35" using t len by simp
  from VP8BitWriterFinish_ok[OF p(2)[unfolded s] r assms(1) this] obtain bw' where
    f: "VP8BitWriterFinish malloc bw1 = Some bw'" "bw_error bw' = 0" "length (written bw') = unat (bw_pos bw')"
      "be (written bw') * 2 ^ (t + 8) = l * 2 ^ (8 * length (written bw'))" "t + 16 \<le> 8 * length (written bw')"
      "8 * length (written bw') \<le> t + 24" by blast
  have "code_in (written bw') (t, l, r)" using f(4) r0 by (simp add: code_in_def)
  moreover have "length (written bw') < 2 ^ 31" using f(6) t assms(5) by simp
  ultimately show ?thesis using i(1) p(1) f s by (intro exI[of _ bw] exI[of _ bw']) simp
qed


subsection \<open>Properties\<close>

text \<open>C1. Everything the boolean encoder writes is read back by the boolean decoder: for every sequence of
  bits with probabilities, unsigned numbers and optional signed numbers, initialising the writer, putting
  the items and finishing succeeds without an error, and a reader set up on the bytes, wherever they lie in
  memory, returns the items in order.\<close>

theorem bool_coder_roundtrip:
  assumes "malloc_ok malloc" "uint sz < 2 ^ 33" "xs \<noteq> []" "\<forall>x\<in>set xs. item_ok x" "length xs < 2 ^ 26"
  shows "\<exists>bw bw'. VP8BitWriterInit malloc sz = Some (1, bw) \<and> put_items malloc xs bw \<bind> VP8BitWriterFinish malloc = Some bw' \<and>
    bw_error bw' = 0 \<and>
    (\<forall>pre post. \<exists>br br'. VP8InitBitReader (pre @ written bw' @ post) (int (length pre)) (of_nat (length (written bw'))) = Some br \<and>
      get_items (pre @ written bw' @ post) xs br = Some (map item_value xs, br'))"
proof -
  from encode_items[OF assms] obtain bw bw' where e: "VP8BitWriterInit malloc sz = Some (1, bw)"
    "put_items malloc xs bw \<bind> VP8BitWriterFinish malloc = Some bw'" "bw_error bw' = 0" "length (written bw') < 2 ^ 31"
    "code_in (written bw') (code_steps (0, 0, 254) (all_symbols xs))"
    "fst (code_steps (0, 0, 254) (all_symbols xs)) + 8 \<le> 8 * length (written bw')"
    by blast
  have "\<exists>br br'. VP8InitBitReader (pre @ written bw' @ post) (int (length pre)) (of_nat (length (written bw'))) = Some br \<and>
      get_items (pre @ written bw' @ post) xs br = Some (map item_value xs, br')" for pre post
  proof -
    have "\<forall>i < length (written bw'). ld (pre @ written bw' @ post) (int (length pre) + int i) = Some (written bw' ! i)"
      by (auto simp: ld_nat nth_append simp flip: of_nat_add)
    from VP8InitBitReader_ok[OF this e(4) _ e(5) all_symbols_valid[OF assms(4)] e(6)] e(6)
    show ?thesis using get_items_ok assms(4) by fastforce
  qed
  with e(1-3) show ?thesis by blast
qed

lemma bool_coder_roundtrip_witness:
  "\<exists>bw bw'. VP8BitWriterInit (\<lambda>n. Some (replicate n 0)) 16 = Some (1, bw) \<and>
    put_items (\<lambda>n. Some (replicate n 0)) [Bit True 10, Bits 3 5, Signed 4 (-3)] bw \<bind> VP8BitWriterFinish (\<lambda>n. Some (replicate n 0)) = Some bw' \<and>
    bw_error bw' = 0 \<and>
    (\<forall>pre post. \<exists>br br'. VP8InitBitReader (pre @ written bw' @ post) (int (length pre)) (of_nat (length (written bw'))) = Some br \<and>
      get_items (pre @ written bw' @ post) [Bit True 10, Bits 3 5, Signed 4 (-3)] br = Some ([1, 5, -3], br'))"
  using bool_coder_roundtrip[of "\<lambda>n. Some (replicate n 0)" 16 "[Bit True 10, Bits 3 5, Signed 4 (-3)]"]
  by (simp add: malloc_ok_def)

text \<open>C12. One bit of the encoder refines one step of the abstract interval coder: on a writer that stands for
  the interval, \<open>VP8PutBit\<close> succeeds, reports the bit, and leaves a writer that stands for the narrowed and
  rescaled interval, through every carry, pending run and growth of the buffer.\<close>

theorem VP8PutBit_refines:
  assumes "put_state e bw s" "0 \<le> p" "p < 256" "malloc_ok malloc" "fst s + 7 < 2 ^ 35"
  shows "\<exists>bw'. VP8PutBit malloc bw b p = Some (b, bw') \<and> put_state e bw' (code_step s (b \<noteq> 0, p))"
  by (rule put_state_PutBit[OF assms])

lemma VP8PutBit_refines_witness:
  "\<exists>bw bw'. VP8PutBit (\<lambda>n. Some (replicate n 0)) bw 1 200 = Some (1, bw') \<and> put_state 0 bw' (code_step (0, 0, 254) (True, 200))"
proof -
  obtain bw where "put_state (2 * unat (0 :: u64)) bw (0, 0, 254)"
    using VP8BitWriterInit_ok[of "\<lambda>n. Some (replicate n 0)" 0] by (auto simp: malloc_ok_def)
  then show ?thesis using VP8PutBit_refines[of 0 bw "(0, 0, 254)" 200 "\<lambda>n. Some (replicate n 0)" 1] by (auto simp: malloc_ok_def)
qed

text \<open>C13. The three ways to read a bit agree. \<open>VP8GetBitAlt\<close>, with its tables, is \<open>VP8GetBit\<close>, with its
  logarithm, in every state with a range of the format, errors included.\<close>

theorem VP8GetBitAlt_is_GetBit:
  assumes "127 \<le> uint (br_range br)" "uint (br_range br) \<le> 254" "0 \<le> p" "p < 256"
  shows "VP8GetBitAlt mem br p = VP8GetBit mem br p"
  by (rule VP8GetBitAlt_eq[OF assms])

lemma VP8GetBitAlt_is_GetBit_witness:
  "VP8GetBitAlt [1, 2, 3] \<lparr>br_value = 77, br_range = 180, br_bits = 0, br_buf = Some 1, br_buf_end = 3, br_buf_max = 1, br_eof = 0\<rparr> 90 =
   VP8GetBit [1, 2, 3] \<lparr>br_value = 77, br_range = 180, br_bits = 0, br_buf = Some 1, br_buf_end = 3, br_buf_max = 1, br_eof = 0\<rparr> 90"
  by (rule VP8GetBitAlt_is_GetBit) simp_all

end
