(* ===== verification/LBits.thy ===== *)
theory LBits
  imports Bool_Coder
begin

section \<open>The bit writer and reader of the lossless format
  (src/utils/bit_writer_utils.[ch], bit_reader_utils.[ch], VP8LBitWriter and VP8LBitReader)\<close>

text \<open>
  Bits are written to bytes least significant first. The writer is the 64-bit configuration: a 64-bit
  accumulator that is flushed 32 bits at a time. The pointers \<open>cur_\<close> and \<open>end_\<close> are offsets from \<open>buf_\<close>,
  and \<open>lw_buf = None\<close> is the \<open>NULL\<close> pointer. A shift by 64 or more, which C leaves undefined, and an
  access outside the buffer are \<open>None\<close>.

  The reader keeps a window of 64 bits over its buffer. The second half of the theory shows what both
  stand for, a number and a position in it, and that the reader returns what the writer put.
\<close>

unbundle bit_operations_syntax

subsection \<open>The writer\<close>

record VP8LBitWriter =
  lw_bits :: u64
  lw_used :: int
  lw_buf :: "u8 list option"
  lw_cur :: int
  lw_end :: int
  lw_error :: int

definition MIN_EXTRA_SIZE :: u64 where
  "MIN_EXTRA_SIZE = 32768"

definition VP8LBitWriterResize :: "allocator \<Rightarrow> VP8LBitWriter \<Rightarrow> u64 \<Rightarrow> (int \<times> VP8LBitWriter) option" where
  "VP8LBitWriterResize malloc bw extra_size =
     (let max_bytes = word_of_int (lw_end bw) :: u64;
          current_size = word_of_int (lw_cur bw) :: u64;
          size_required_64b = current_size + extra_size;
          size_required = ucast size_required_64b :: u64
      in if ucast size_required \<noteq> size_required_64b then Some (0, bw\<lparr>lw_error := 1\<rparr>)
         else if max_bytes > 0 \<and> size_required \<le> max_bytes then Some (1, bw)
         else do {
           let allocated_size = drop_bit 1 (3 * max_bytes);
           let allocated_size = (if allocated_size < size_required then size_required else allocated_size);
           let allocated_size = push_bit 10 (drop_bit 10 allocated_size + 1);
           allocated_buf \<leftarrow> WebPSafeMalloc malloc 1 allocated_size;
           (case allocated_buf of
              None \<Rightarrow> Some (0, bw\<lparr>lw_error := 1\<rparr>)
            | Some new_buf \<Rightarrow> do {
                new_buf \<leftarrow>
                  (if current_size > 0 then do {
                     old \<leftarrow> lw_buf bw;
                     for_range 0 (unat current_size) (\<lambda>i nb. do { v \<leftarrow> ld old (int i); st nb (int i) v }) new_buf }
                   else Some new_buf);
                Some (1, bw\<lparr>lw_buf := Some new_buf, lw_cur := uint current_size, lw_end := uint allocated_size\<rparr>) }) })"

definition VP8LBitWriterInit :: "allocator \<Rightarrow> u64 \<Rightarrow> (int \<times> VP8LBitWriter) option" where
  "VP8LBitWriterInit malloc expected_size =
     VP8LBitWriterResize malloc
       \<lparr>lw_bits = 0, lw_used = 0, lw_buf = None, lw_cur = 0, lw_end = 0, lw_error = 0\<rparr> expected_size"

definition VP8LBitWriterClone :: "allocator \<Rightarrow> VP8LBitWriter \<Rightarrow> VP8LBitWriter \<Rightarrow> (int \<times> VP8LBitWriter) option" where
  "VP8LBitWriterClone malloc src dst = do {
     require (0 \<le> lw_cur src \<and> lw_cur src \<le> lw_end src);
     (ok, dst) \<leftarrow> VP8LBitWriterResize malloc dst (word_of_int (lw_cur src));
     (if ok = 0 then Some (0, dst)
      else do {
        sbuf \<leftarrow> lw_buf src;
        dbuf \<leftarrow> lw_buf dst;
        dbuf \<leftarrow> for_range 0 (nat (lw_cur src)) (\<lambda>i nb. do { v \<leftarrow> ld sbuf (int i); st nb (int i) v }) dbuf;
        Some (1, dst\<lparr>lw_buf := Some dbuf, lw_bits := lw_bits src, lw_used := lw_used src, lw_error := lw_error src,
          lw_cur := lw_cur src\<rparr>) }) }"

definition VP8LBitWriterWipeOut :: "VP8LBitWriter \<Rightarrow> VP8LBitWriter" where
  "VP8LBitWriterWipeOut bw = \<lparr>lw_bits = 0, lw_used = 0, lw_buf = None, lw_cur = 0, lw_end = 0, lw_error = 0\<rparr>"

definition VP8LBitWriterReset :: "VP8LBitWriter \<Rightarrow> VP8LBitWriter \<Rightarrow> VP8LBitWriter option" where
  "VP8LBitWriterReset bw_init bw = do {
     let bw = bw\<lparr>lw_bits := lw_bits bw_init, lw_used := lw_used bw_init, lw_cur := lw_cur bw_init\<rparr>;
     require (lw_cur bw \<le> lw_end bw);
     Some (bw\<lparr>lw_error := lw_error bw_init\<rparr>) }"

definition VP8LBitWriterSwap :: "VP8LBitWriter \<Rightarrow> VP8LBitWriter \<Rightarrow> VP8LBitWriter \<times> VP8LBitWriter" where
  "VP8LBitWriterSwap src dst = (let tmp = src; src = dst; dst = tmp in (src, dst))"

definition VP8LPutBitsFlushBits :: "allocator \<Rightarrow> VP8LBitWriter \<Rightarrow> VP8LBitWriter option" where
  "VP8LPutBitsFlushBits malloc bw = do {
     (ok, bw) \<leftarrow>
       (if lw_cur bw + 4 > lw_end bw then do {
          let extra_size = word_of_int (lw_end bw) + MIN_EXTRA_SIZE;
          (if \<not> CheckSizeOverflow extra_size then Some (0, bw) else VP8LBitWriterResize malloc bw extra_size) }
        else Some (1, bw));
     (if ok = 0 then Some (bw\<lparr>lw_cur := 0, lw_error := 1\<rparr>)
      else do {
        buf \<leftarrow> lw_buf bw;
        buf \<leftarrow> WebPUint32ToMem buf (lw_cur bw) (ucast (lw_bits bw));
        Some (bw\<lparr>lw_buf := Some buf, lw_cur := lw_cur bw + 4, lw_bits := drop_bit 32 (lw_bits bw), lw_used := lw_used bw - 32\<rparr>) }) }"

definition VP8LPutBits :: "allocator \<Rightarrow> VP8LBitWriter \<Rightarrow> u32 \<Rightarrow> int \<Rightarrow> VP8LBitWriter option" where
  "VP8LPutBits malloc bw bits n_bits =
     (if n_bits > 0 then do {
        bw \<leftarrow> (if lw_used bw \<ge> 32 then VP8LPutBitsFlushBits malloc bw else Some bw);
        require (0 \<le> lw_used bw \<and> lw_used bw < 64);
        Some (bw\<lparr>lw_bits := lw_bits bw OR push_bit (nat (lw_used bw)) (ucast bits), lw_used := lw_used bw + n_bits\<rparr>) }
      else Some bw)"

function finish_loop :: "VP8LBitWriter \<Rightarrow> VP8LBitWriter option" where
  "finish_loop bw =
     (if lw_used bw > 0 then do {
        buf \<leftarrow> lw_buf bw;
        buf \<leftarrow> st buf (lw_cur bw) (ucast (lw_bits bw));
        finish_loop (bw\<lparr>lw_buf := Some buf, lw_cur := lw_cur bw + 1, lw_bits := drop_bit 8 (lw_bits bw), lw_used := lw_used bw - 8\<rparr>) }
      else Some bw)"
  by pat_completeness auto
termination by (relation "measure (\<lambda>bw. nat (lw_used bw))") auto

declare finish_loop.simps [simp del]

definition VP8LBitWriterFinish :: "allocator \<Rightarrow> VP8LBitWriter \<Rightarrow> VP8LBitWriter option" where
  "VP8LBitWriterFinish malloc bw = do {
     (ok, bw) \<leftarrow> VP8LBitWriterResize malloc bw (word_of_int (drop_bit 3 (lw_used bw + 7)));
     (if ok \<noteq> 0 then do { bw \<leftarrow> finish_loop bw; Some (bw\<lparr>lw_used := 0\<rparr>) } else Some bw) }"

definition VP8LBitWriterNumBytes :: "VP8LBitWriter \<Rightarrow> int" where
  "VP8LBitWriterNumBytes bw = lw_cur bw + drop_bit 3 (lw_used bw + 7)"

subsection \<open>The reader\<close>

record VP8LBitReader =
  lr_val :: u64
  lr_buf :: int
  lr_len :: u64
  lr_pos :: u64
  lr_bit_pos :: int
  lr_eos :: int

definition kBitMask :: "u32 list" where
  "kBitMask =
    [0,
     0x000001, 0x000003, 0x000007, 0x00000f,
     0x00001f, 0x00003f, 0x00007f, 0x0000ff,
     0x0001ff, 0x0003ff, 0x0007ff, 0x000fff,
     0x001fff, 0x003fff, 0x007fff, 0x00ffff,
     0x01ffff, 0x03ffff, 0x07ffff, 0x0fffff,
     0x1fffff, 0x3fffff, 0x7fffff, 0xffffff]"

definition VP8LInitBitReader :: "u8 list \<Rightarrow> int \<Rightarrow> u64 \<Rightarrow> VP8LBitReader option" where
  "VP8LInitBitReader mem start len0 = do {
     require (len0 < 0xfffffff8);
     let len = (if len0 > 8 then 8 else len0);
     value \<leftarrow> for_range 0 (unat len)
       (\<lambda>i value. do { b \<leftarrow> ld mem (start + int i); Some (value OR push_bit (8 * i) (ucast b)) }) 0;
     Some \<lparr>lr_val = value, lr_buf = start, lr_len = len0, lr_pos = len, lr_bit_pos = 0, lr_eos = 0\<rparr> }"

definition VP8LPrefetchBits :: "VP8LBitReader \<Rightarrow> u32" where
  "VP8LPrefetchBits br = ucast (drop_bit (nat (lr_bit_pos br AND 63)) (lr_val br))"

definition VP8LIsEndOfStream :: "VP8LBitReader \<Rightarrow> bool" where
  "VP8LIsEndOfStream br \<longleftrightarrow> lr_eos br \<noteq> 0 \<or> (lr_pos br = lr_len br \<and> lr_bit_pos br > 64)"

definition VP8LSetBitPos :: "VP8LBitReader \<Rightarrow> int \<Rightarrow> VP8LBitReader" where
  "VP8LSetBitPos br val = br\<lparr>lr_bit_pos := val\<rparr>"

definition VP8LBitReaderSetBuffer :: "VP8LBitReader \<Rightarrow> int \<Rightarrow> u64 \<Rightarrow> VP8LBitReader option" where
  "VP8LBitReaderSetBuffer br buf len = do {
     require (len < 0xfffffff8);
     let br = br\<lparr>lr_buf := buf, lr_len := len\<rparr>;
     Some (br\<lparr>lr_eos := (if lr_pos br > lr_len br \<or> VP8LIsEndOfStream br then 1 else 0)\<rparr>) }"

definition VP8LSetEndOfStream :: "VP8LBitReader \<Rightarrow> VP8LBitReader" where
  "VP8LSetEndOfStream br = br\<lparr>lr_eos := 1, lr_bit_pos := 0\<rparr>"

function shift_bytes_loop :: "u8 list \<Rightarrow> VP8LBitReader \<Rightarrow> VP8LBitReader option" where
  "shift_bytes_loop mem br =
     (if lr_bit_pos br \<ge> 8 \<and> lr_pos br < lr_len br then do {
        b \<leftarrow> ld mem (lr_buf br + uint (lr_pos br));
        shift_bytes_loop mem
          (br\<lparr>lr_val := drop_bit 8 (lr_val br) OR push_bit (64 - 8) (ucast b), lr_pos := lr_pos br + 1, lr_bit_pos := lr_bit_pos br - 8\<rparr>) }
      else Some br)"
  by pat_completeness auto
termination by (relation "measure (\<lambda>(_, br). nat (lr_bit_pos br))") auto

declare shift_bytes_loop.simps [simp del]

definition ShiftBytes :: "u8 list \<Rightarrow> VP8LBitReader \<Rightarrow> VP8LBitReader option" where
  "ShiftBytes mem br = do {
     br \<leftarrow> shift_bytes_loop mem br;
     Some (if VP8LIsEndOfStream br then VP8LSetEndOfStream br else br) }"

definition VP8LDoFillBitWindow :: "u8 list \<Rightarrow> VP8LBitReader \<Rightarrow> VP8LBitReader option" where
  "VP8LDoFillBitWindow mem br = do {
     require (lr_bit_pos br \<ge> 32);
     (if lr_pos br + 8 < lr_len br then do {
        w \<leftarrow> WebPMemToUint32 mem (lr_buf br + uint (lr_pos br));
        Some (br\<lparr>lr_val := drop_bit 32 (lr_val br) OR push_bit (64 - 32) (ucast w), lr_bit_pos := lr_bit_pos br - 32,
          lr_pos := lr_pos br + 4\<rparr>) }
      else ShiftBytes mem br) }"

definition VP8LFillBitWindow :: "u8 list \<Rightarrow> VP8LBitReader \<Rightarrow> VP8LBitReader option" where
  "VP8LFillBitWindow mem br = (if lr_bit_pos br \<ge> 32 then VP8LDoFillBitWindow mem br else Some br)"

definition VP8LReadBits :: "u8 list \<Rightarrow> VP8LBitReader \<Rightarrow> int \<Rightarrow> (u32 \<times> VP8LBitReader) option" where
  "VP8LReadBits mem br n_bits = do {
     require (n_bits \<ge> 0);
     (if lr_eos br = 0 \<and> n_bits \<le> 24 then do {
        msk \<leftarrow> ld kBitMask n_bits;
        let val = VP8LPrefetchBits br AND msk;
        let new_bits = lr_bit_pos br + n_bits;
        br \<leftarrow> ShiftBytes mem (br\<lparr>lr_bit_pos := new_bits\<rparr>);
        Some (val, br) }
      else Some (0, VP8LSetEndOfStream br)) }"

subsection \<open>The number a run of bytes stands for\<close>

primrec le :: "u8 list \<Rightarrow> int" where
  "le [] = 0"
| "le (b # bs) = uint b + 256 * le bs"

lemma le_append [simp]: "le (xs @ ys) = le xs + 256 ^ length xs * le ys"
  by (induction xs) (simp_all add: algebra_simps)

lemma le_bounds: "0 \<le> le bs" "le bs < 256 ^ length bs"
proof -
  have "0 \<le> le bs \<and> le bs < 256 ^ length bs"
  proof (induction bs)
    case (Cons b bs)
    then have "256 * (le bs + 1) \<le> 256 * 256 ^ length bs" by (intro mult_left_mono) auto
    then show ?case using Cons uint_bound(1)[of b] by simp
  qed simp
  then show "0 \<le> le bs" "le bs < 256 ^ length bs" by auto
qed

lemma bit_le: "bit (le bs) n \<longleftrightarrow> n < 8 * length bs \<and> bit (bs ! (n div 8)) (n mod 8)"
proof (induction bs arbitrary: n)
  case (Cons b bs)
  have e: "le (b # bs) = uint b OR push_bit 8 (le bs)"
    using int_or_shift[of "uint b" 8 "le bs"] uint_bound(1)[of b] by simp
  show ?case
  proof (cases "n < 8")
    case True
    then show ?thesis by (simp add: e bit_or_iff bit_push_bit_iff bit_uint_iff del: le.simps)
  next
    case False
    then have "n div 8 = Suc ((n - 8) div 8)" "(n - 8) mod 8 = n mod 8" "n < 8 + 8 * length bs \<longleftrightarrow> n - 8 < 8 * length bs"
      by (auto simp: le_div_geq le_mod_geq)
    then show ?thesis using False Cons.IH[of "n - 8"]
      by (auto simp: e bit_or_iff bit_push_bit_iff bit_uint_iff simp del: le.simps)
  qed
qed simp

lemma uint_less_1: "uint w < 1 \<Longrightarrow> uint w = 0"
  using uint_ge_0[of w] by linarith

subsection \<open>The writer appends to a number\<close>

definition lbuf_ok :: "VP8LBitWriter \<Rightarrow> bool" where
  "lbuf_ok bw \<longleftrightarrow> 0 \<le> lw_cur bw \<and> lw_cur bw \<le> lw_end bw \<and> lw_error bw = 0 \<and>
     (case lw_buf bw of Some b \<Rightarrow> int (length b) = lw_end bw | None \<Rightarrow> lw_end bw = 0)"

definition lwritten :: "VP8LBitWriter \<Rightarrow> u8 list" where
  "lwritten bw = (case lw_buf bw of Some b \<Rightarrow> take (nat (lw_cur bw)) b | None \<Rightarrow> [])"

text \<open>The writer stands for the number \<open>v\<close> of \<open>n\<close> bits.\<close>

definition lholds :: "VP8LBitWriter \<Rightarrow> int \<Rightarrow> nat \<Rightarrow> bool" where
  "lholds bw v n \<longleftrightarrow> lbuf_ok bw \<and> lw_buf bw \<noteq> None \<and> 0 \<le> lw_used bw \<and> lw_used bw < 64 \<and>
     uint (lw_bits bw) < 2 ^ nat (lw_used bw) \<and>
     v = le (lwritten bw) + 2 ^ (8 * nat (lw_cur bw)) * uint (lw_bits bw) \<and> n = 8 * nat (lw_cur bw) + nat (lw_used bw)"

lemma VP8LBitWriterResize_ok:
  assumes m: "malloc_ok malloc" and b: "lbuf_ok bw"
    and c: "lw_cur bw + uint x \<le> lw_end bw \<and> 0 < lw_end bw \<or> lw_end bw \<le> 2 ^ 33"
    and x: "lw_cur bw + uint x < 2 ^ 33" and e: "lw_end bw < 2 ^ 60"
  shows "\<exists>bw'. VP8LBitWriterResize malloc bw x = Some (1, bw') \<and> bw' = bw\<lparr>lw_buf := lw_buf bw', lw_end := lw_end bw'\<rparr> \<and>
    lbuf_ok bw' \<and> lwritten bw' = lwritten bw \<and> lw_buf bw' \<noteq> None \<and> lw_cur bw + uint x \<le> lw_end bw' \<and> (lw_end bw' = lw_end bw \<or> lw_end bw' \<le> 2 ^ 34)"
proof -
  have ranges: "0 \<le> lw_cur bw" "lw_cur bw \<le> lw_end bw" "lw_error bw = 0" using b by (auto simp: lbuf_ok_def)
  have ue: "uint (word_of_int (lw_end bw) :: u64) = lw_end bw" and uc: "uint (word_of_int (lw_cur bw) :: u64) = lw_cur bw"
    using ranges e by (simp_all add: uint_word_of_int)
  let ?req = "word_of_int (lw_cur bw) + x :: u64"
  have ur: "uint ?req = lw_cur bw + uint x" using uint_add_small[of "word_of_int (lw_cur bw)" x] x uc by simp
  show ?thesis
  proof (cases "0 < lw_end bw \<and> lw_cur bw + uint x \<le> lw_end bw")
    case True
    then have "VP8LBitWriterResize malloc bw x = Some (1, bw)"
      by (simp add: VP8LBitWriterResize_def Let_def word_less_def word_le_def ue ur)
    then show ?thesis using b True by (intro exI[of _ bw]) (auto simp: lbuf_ok_def split: option.splits)
  next
    case False
    then have e33: "lw_end bw \<le> 2 ^ 33" using c by auto
    define a0 where "a0 = drop_bit 1 (3 * word_of_int (lw_end bw) :: u64)"
    define a1 where "a1 = (if a0 < ?req then ?req else a0)"
    define a2 where "a2 = push_bit 10 (drop_bit 10 a1 + 1)"
    have "uint (3 * word_of_int (lw_end bw) :: u64) = 3 * lw_end bw"
      using e33 ue ranges by (simp add: uint_word_ariths)
    then have a0: "uint a0 = 3 * lw_end bw div 2" by (simp add: a0_def uint_shiftr)
    have a1: "lw_cur bw + uint x \<le> uint a1" "uint a1 \<le> 2 ^ 34 - 2 ^ 31" "0 \<le> uint a1"
      using ur x a0 e33 by (auto simp: a1_def word_less_def)
    have "uint a1 div 1024 \<le> uint a1" using zdiv_mono2[OF a1(3), of 1 1024] by simp
    then have "uint (drop_bit 10 a1 + 1) = uint a1 div 2 ^ 10 + 1"
      using a1(2,3) by (simp add: uint_word_ariths uint_shiftr)
    then have a2: "uint a2 = (uint a1 div 1024 + 1) * 1024"
      using uint_push_small[of "drop_bit 10 a1 + 1" 10] a1 by (simp add: a2_def)
    have "x < y \<and> y \<le> x + 1024" if "y = (q + 1) * 1024" "q * 1024 + r = x" "0 \<le> r" "r < 1024" for x y q r :: int
      using that by (simp add: distrib_right)
    from this[OF a2 div_mult_mod_eq] have a2b: "uint a1 < uint a2" "uint a2 \<le> uint a1 + 1024" by simp_all
    have "0 < uint a2" using a2b a1(3) by linarith
    then have pos: "0 < a2" by (simp add: word_less_def)
    from WebPSafeMalloc_ok[OF m pos] a2b a1 obtain nb where nb: "WebPSafeMalloc malloc 1 a2 = Some (Some nb)" "length nb = unat a2"
      by auto
    define nb' where "nb' = (if 0 < lw_cur bw then blit nb 0 (nat (lw_cur bw)) (\<lambda>i. the (lw_buf bw) ! i) else nb)"
    have uce: "unat (word_of_int (lw_cur bw) :: u64) = nat (lw_cur bw)" using uc by (metis nat_uint_eq)
    have cp: "(if (word_of_int (lw_cur bw) :: u64) > 0 then do {
                     old \<leftarrow> lw_buf bw;
                     for_range 0 (unat (word_of_int (lw_cur bw) :: u64)) (\<lambda>i nb. do { v \<leftarrow> ld old (int i); st nb (int i) v }) nb }
                   else Some nb) = Some nb' \<and> take (nat (lw_cur bw)) nb' = lwritten bw"
    proof (cases "0 < lw_cur bw")
      case True
      then obtain old where old: "lw_buf bw = Some old" "int (length old) = lw_end bw"
        using b by (cases "lw_buf bw") (auto simp: lbuf_ok_def)
      have "nat (lw_cur bw) \<le> length old" using old(2) ranges by simp
      moreover have "nat (lw_cur bw) \<le> length nb"
      proof -
        have "lw_cur bw \<le> uint a2" using a1(1) a2b uint_ge_0[of x] by linarith
        then have "int (nat (lw_cur bw)) \<le> int (length nb)" using nb(2) ranges by simp
        then show ?thesis by (simp only: of_nat_le_iff)
      qed
      ultimately show ?thesis using copy_loop[of "nat (lw_cur bw)" old nb] True old uc uce
        by (simp add: nb'_def lwritten_def word_less_def)
    next
      case False
      then have "lw_cur bw = 0" using ranges by simp
      then show ?thesis by (simp add: nb'_def lwritten_def split: option.split)
    qed
    let ?bw = "bw\<lparr>lw_buf := Some nb', lw_end := uint a2\<rparr>"
    have "VP8LBitWriterResize malloc bw x = Some (1, bw\<lparr>lw_buf := Some nb', lw_cur := lw_cur bw, lw_end := uint a2\<rparr>)"
      using False nb cp unfolding VP8LBitWriterResize_def Let_def ucast_id a0_def[symmetric] a1_def[symmetric] a2_def[symmetric]
      by (simp add: ue uc ur word_less_def word_le_def) blast
    moreover have "bw\<lparr>lw_buf := Some nb', lw_cur := lw_cur bw, lw_end := uint a2\<rparr> = ?bw" by simp
    moreover have "length nb' = unat a2" using nb by (simp add: nb'_def)
    moreover have "lw_cur bw \<le> uint a2" using a1(1) a2b uint_ge_0[of x] by linarith
    ultimately show ?thesis using cp a1 a2b ranges
      by (intro exI[of _ ?bw]) (auto simp: lbuf_ok_def lwritten_def)
  qed
qed


text \<open>The bytes of a word, lowest first.\<close>

definition word_bytes :: "nat \<Rightarrow> 'a :: len word \<Rightarrow> u8 list" where
  "word_bytes k w = map (\<lambda>i. ucast (drop_bit (8 * i) w)) [0..<k]"

lemma word_bytes_length [simp]: "length (word_bytes k w) = k"
  by (simp add: word_bytes_def)

lemma le_word_bytes: "le (word_bytes k w) = uint w mod 256 ^ k"
proof -
  have "le (word_bytes k w) = take_bit (8 * k) (uint w)"
  proof (rule bit_eqI)
    fix n :: nat
    have "8 * (n div 8) + n mod 8 = n" by simp
    then show "bit (le (word_bytes k w)) n = bit (take_bit (8 * k) (uint w)) n"
      by (auto simp: bit_le word_bytes_def bit_take_bit_iff bit_uint_iff bit_ucast_iff bit_drop_bit_eq)
        (erule bit_imp_le_length)
  qed
  then show ?thesis by (simp add: take_bit_eq_mod power_mult)
qed

lemma take_blit_list: "p + length ys \<le> length m \<Longrightarrow>
    take (p + length ys) (blit m (int p) (length ys) (\<lambda>i. ys ! i)) = take p m @ ys"
  by (rule nth_equalityI) (auto simp: blit_nth nth_append simp flip: of_nat_diff)

lemma WebPUint32ToMem_ok:
  assumes "p + 4 \<le> length m"
  shows "\<exists>m'. WebPUint32ToMem m (int p) w = Some m' \<and> length m' = length m \<and> take (p + 4) m' = take p m @ word_bytes 4 w"
proof -
  let ?m' = "m[p := ucast w, p + 1 := ucast (drop_bit 8 w), p + 2 := ucast (drop_bit 16 w), p + 3 := ucast (drop_bit 24 w)]"
  have "WebPUint32ToMem m (int p) w = Some ?m'"
    using assms by (simp add: WebPUint32ToMem_def st_def nat_add_distrib)
  moreover have "take (p + 4) ?m' = take p m @ word_bytes 4 w"
    by (rule nth_equalityI)
      (use assms in \<open>auto simp: nth_list_update nth_append word_bytes_def less_Suc_eq_le numeral_eq_Suc less_Suc_eq\<close>)
  ultimately show ?thesis by simp
qed

lemma VP8LPutBitsFlushBits_ok:
  assumes m: "malloc_ok malloc" and h: "lholds bw v n" and u: "32 \<le> lw_used bw" and c: "lw_cur bw < 2 ^ 31" and e: "lw_end bw < 2 ^ 60"
  shows "\<exists>bw'. VP8LPutBitsFlushBits malloc bw = Some bw' \<and> lholds bw' v n \<and> lw_used bw' = lw_used bw - 32 \<and> lw_end bw' < 2 ^ 60"
proof -
  have b: "lbuf_ok bw" and r: "0 \<le> lw_cur bw" using h by (auto simp: lholds_def lbuf_ok_def)
  have "\<exists>bw1. (if lw_cur bw + 4 > lw_end bw then do {
          let extra_size = word_of_int (lw_end bw) + MIN_EXTRA_SIZE;
          (if \<not> CheckSizeOverflow extra_size then Some (0, bw) else VP8LBitWriterResize malloc bw extra_size) }
        else Some (1, bw)) = Some (1, bw1) \<and> lholds bw1 v n \<and> lw_cur bw1 + 4 \<le> lw_end bw1 \<and> lw_used bw1 = lw_used bw \<and> lw_end bw1 < 2 ^ 60"
  proof (cases "lw_cur bw + 4 > lw_end bw")
    case True
    have ux: "uint (word_of_int (lw_end bw) + MIN_EXTRA_SIZE) = lw_end bw + 32768"
      using True c r b by (simp add: lbuf_ok_def MIN_EXTRA_SIZE_def uint_word_ariths uint_word_of_int)
    have "lw_cur bw + uint (word_of_int (lw_end bw) + MIN_EXTRA_SIZE) < 2 ^ 33" "lw_end bw \<le> 2 ^ 33"
      unfolding ux using True c by simp_all
    moreover have "lw_end bw < lw_cur bw + uint (word_of_int (lw_end bw) + MIN_EXTRA_SIZE)" unfolding ux using r by simp
    ultimately obtain bw1 where 1: "VP8LBitWriterResize malloc bw (word_of_int (lw_end bw) + MIN_EXTRA_SIZE) = Some (1, bw1)"
      "bw1 = bw\<lparr>lw_buf := lw_buf bw1, lw_end := lw_end bw1\<rparr>" "lbuf_ok bw1" "lwritten bw1 = lwritten bw" "lw_buf bw1 \<noteq> None"
      "lw_cur bw + uint (word_of_int (lw_end bw) + MIN_EXTRA_SIZE) \<le> lw_end bw1" "lw_end bw1 = lw_end bw \<or> lw_end bw1 \<le> 2 ^ 34"
      using VP8LBitWriterResize_ok[OF m b, of "word_of_int (lw_end bw) + MIN_EXTRA_SIZE"] e by blast
    have f: "lw_cur bw1 = lw_cur bw" "lw_used bw1 = lw_used bw" "lw_bits bw1 = lw_bits bw" by (subst 1(2), simp)+
    have "lholds bw1 v n" using h 1(3-5) by (simp add: lholds_def f)
    then show ?thesis using True 1(1,6,7) f r ux b by (auto simp: CheckSizeOverflow_def lbuf_ok_def)
  next
    case False
    then show ?thesis using h e by auto
  qed
  then obtain bw1 where bw1: "(if lw_cur bw + 4 > lw_end bw then do {
          let extra_size = word_of_int (lw_end bw) + MIN_EXTRA_SIZE;
          (if \<not> CheckSizeOverflow extra_size then Some (0, bw) else VP8LBitWriterResize malloc bw extra_size) }
        else Some (1, bw)) = Some (1, bw1)" "lholds bw1 v n" "lw_cur bw1 + 4 \<le> lw_end bw1" "lw_used bw1 = lw_used bw" "lw_end bw1 < 2 ^ 60"
    by blast
  obtain buf where buf: "lw_buf bw1 = Some buf" "int (length buf) = lw_end bw1" using bw1(2) by (auto simp: lholds_def lbuf_ok_def)
  define p where "p = nat (lw_cur bw1)"
  have p: "lw_cur bw1 = int p" "p + 4 \<le> length buf" using bw1(2,3) buf(2) by (auto simp: p_def lholds_def lbuf_ok_def)
  from WebPUint32ToMem_ok[OF p(2), of "ucast (lw_bits bw1)"] obtain buf' where
    buf': "WebPUint32ToMem buf (int p) (ucast (lw_bits bw1)) = Some buf'" "length buf' = length buf"
      "take (p + 4) buf' = take p buf @ word_bytes 4 (ucast (lw_bits bw1) :: u32)" by blast
  let ?bw = "bw1\<lparr>lw_buf := Some buf', lw_cur := lw_cur bw1 + 4, lw_bits := drop_bit 32 (lw_bits bw1), lw_used := lw_used bw1 - 32\<rparr>"
  have "VP8LPutBitsFlushBits malloc bw = Some ?bw"
    unfolding VP8LPutBitsFlushBits_def bw1(1) using buf buf'(1) p(1) by simp
  moreover have "lholds ?bw v n"
  proof -
    have hh: "uint (lw_bits bw1) < 2 ^ nat (lw_used bw1)" "lw_used bw1 < 64"
      "v = le (lwritten bw1) + 2 ^ (8 * nat (lw_cur bw1)) * uint (lw_bits bw1)" "n = 8 * nat (lw_cur bw1) + nat (lw_used bw1)"
      using bw1(2) by (simp_all add: lholds_def)
    have us: "nat (lw_used bw1) = 32 + nat (lw_used bw1 - 32)" using u bw1(4) by simp
    have np: "nat (lw_cur bw1 + 4) = p + 4" "nat (lw_cur bw1) = p" using p(1) by simp_all
    have "lwritten ?bw = lwritten bw1 @ word_bytes 4 (ucast (lw_bits bw1) :: u32)"
      using buf buf'(3) np by (simp add: lwritten_def)
    moreover have "length (lwritten bw1) = p" using buf p np by (simp add: lwritten_def)
    moreover have "uint (ucast (lw_bits bw1) :: u32) = uint (lw_bits bw1) mod 2 ^ 32" by (simp add: unsigned_ucast_eq take_bit_eq_mod)
    ultimately have "le (lwritten ?bw) = le (lwritten bw1) + 2 ^ (8 * p) * (uint (lw_bits bw1) mod 2 ^ 32)"
      by (simp add: le_word_bytes power_mult)
    moreover have "2 ^ (8 * p) * (a * 2 ^ 32 + c) = 2 ^ (8 * p) * c + 2 ^ (8 * (p + 4)) * a" for a c :: int
      by (simp add: power_add algebra_simps)
    from this[of "uint (lw_bits bw1) div 2 ^ 32" "uint (lw_bits bw1) mod 2 ^ 32"]
    have "2 ^ (8 * p) * uint (lw_bits bw1) = 2 ^ (8 * p) * (uint (lw_bits bw1) mod 2 ^ 32) + 2 ^ (8 * (p + 4)) * (uint (lw_bits bw1) div 2 ^ 32)"
      by (simp only: div_mult_mod_eq)
    ultimately have "v = le (lwritten ?bw) + 2 ^ (8 * (p + 4)) * uint (drop_bit 32 (lw_bits bw1))"
      by (simp add: hh(3) np uint_shiftr)
    moreover have "uint (lw_bits bw1) div 2 ^ 32 < 2 ^ nat (lw_used bw1 - 32)"
      using hh(1) unfolding us power_add by (simp add: int_div_less mult.commute)
    moreover have "lbuf_ok ?bw" using bw1(2,3) buf'(2) buf by (auto simp: lholds_def lbuf_ok_def)
    ultimately show ?thesis using hh(2,4) u bw1(4) us by (simp add: lholds_def np uint_shiftr)
  qed
  ultimately show ?thesis using bw1(4,5) by (intro exI[of _ ?bw]) simp
qed

lemma VP8LPutBits_ok:
  assumes m: "malloc_ok malloc" and h: "lholds bw v n" and k: "k \<le> 32" "uint w < 2 ^ k" and c: "n < 2 ^ 34" and e: "lw_end bw < 2 ^ 60"
  shows "\<exists>bw'. VP8LPutBits malloc bw w (int k) = Some bw' \<and> lholds bw' (v + 2 ^ n * uint w) (n + k) \<and> lw_end bw' < 2 ^ 60"
proof (cases "k = 0")
  case True
  then have "uint w < 1" using k(2) by simp
  then have "uint w = 0" using uint_ge_0[of w] by linarith
  then show ?thesis using h e True by (simp add: VP8LPutBits_def)
next
  case False
  have "\<exists>bw1. (if lw_used bw \<ge> 32 then VP8LPutBitsFlushBits malloc bw else Some bw) = Some bw1 \<and> lholds bw1 v n \<and>
      0 \<le> lw_used bw1 \<and> lw_used bw1 < 32 \<and> lw_end bw1 < 2 ^ 60"
  proof (cases "lw_used bw \<ge> 32")
    case True
    have "lw_cur bw < 2 ^ 31" using h c by (auto simp: lholds_def lbuf_ok_def)
    from VP8LPutBitsFlushBits_ok[OF m h True this e] h True show ?thesis by (auto simp: lholds_def)
  next
    case False
    then show ?thesis using h e by (auto simp: lholds_def)
  qed
  then obtain bw1 where bw1: "(if lw_used bw \<ge> 32 then VP8LPutBitsFlushBits malloc bw else Some bw) = Some bw1"
    "lholds bw1 v n" "0 \<le> lw_used bw1" "lw_used bw1 < 32" "lw_end bw1 < 2 ^ 60" by blast
  define us where "us = nat (lw_used bw1)"
  have us: "us < 32" using bw1(3,4) by (simp add: us_def)
  let ?bw = "bw1\<lparr>lw_bits := lw_bits bw1 OR push_bit us (ucast w), lw_used := lw_used bw1 + int k\<rparr>"
  have "VP8LPutBits malloc bw w (int k) = Some ?bw"
    using bw1(1,3,4) False by (simp add: VP8LPutBits_def require_def us_def)
  moreover have "lholds ?bw (v + 2 ^ n * uint w) (n + k)"
  proof -
    have bits: "uint (lw_bits bw1) < 2 ^ us" using bw1(2) by (simp add: lholds_def us_def)
    have uw: "uint (ucast w :: u64) = uint w"
      unfolding unsigned_ucast_eq by (rule take_bit_int_eq_self) (use uint_bound(3)[of w] in simp_all)
    have "(uint w + 1) * 2 ^ us \<le> 2 ^ k * 2 ^ us" using k(2) by (intro mult_right_mono) auto
    then have fit: "uint w * 2 ^ us + 2 ^ us \<le> 2 ^ (us + k)" by (simp add: power_add algebra_simps)
    have "(2 :: int) ^ (us + k) \<le> 2 ^ 63" using us k(1) by (intro power_increasing) auto
    moreover have "0 < (2 :: int) ^ us" by simp
    ultimately have "uint w * 2 ^ us < 2 ^ 63" using fit by linarith
    then have "uint w * 2 ^ us < 2 ^ 64" by simp
    then have ub: "uint (lw_bits bw1 OR push_bit us (ucast w)) = uint w * 2 ^ us + uint (lw_bits bw1)"
      using word_or_shift[of "lw_bits bw1" us "ucast w"] bits uw by simp
    have nk: "nat (lw_used bw1 + int k) = us + k" using bw1(3) by (simp add: us_def nat_add_distrib)
    have n: "n = 8 * nat (lw_cur bw1) + us" using bw1(2) by (simp add: lholds_def us_def)
    have "lbuf_ok ?bw" "lwritten ?bw = lwritten bw1"
      using bw1(2) by (auto simp: lholds_def lbuf_ok_def lwritten_def split: option.splits)
    moreover have "uint (lw_bits ?bw) < 2 ^ (us + k)" using ub bits fit by simp
    moreover have "v + 2 ^ n * uint w = le (lwritten bw1) + 2 ^ (8 * nat (lw_cur bw1)) * uint (lw_bits ?bw)"
    proof -
      have "v = le (lwritten bw1) + 2 ^ (8 * nat (lw_cur bw1)) * uint (lw_bits bw1)" using bw1(2) by (simp add: lholds_def)
      then show ?thesis by (simp add: ub n power_add algebra_simps)
    qed
    ultimately show ?thesis using bw1 k(1) us n unfolding lholds_def by (simp add: nk)
  qed
  ultimately show ?thesis using bw1(5) by auto
qed


lemma finish_loop_ok:
  assumes "lholds bw v n" "lw_cur bw + (lw_used bw + 7) div 8 \<le> lw_end bw"
  shows "\<exists>bw'. finish_loop bw = Some bw' \<and> lbuf_ok bw' \<and> lw_buf bw' \<noteq> None \<and> le (lwritten bw') = v \<and>
    length (lwritten bw') = (n + 7) div 8"
  using assms
proof (induction "nat (lw_used bw)" arbitrary: bw n rule: less_induct)
  case less
  from less.prems(1) obtain buf where buf: "lw_buf bw = Some buf" "int (length buf) = lw_end bw"
    by (auto simp: lholds_def lbuf_ok_def)
  define p where "p = nat (lw_cur bw)"
  have p: "lw_cur bw = int p" using less.prems(1) by (auto simp: p_def lholds_def lbuf_ok_def)
  have h: "0 \<le> lw_used bw" "lw_used bw < 64" "uint (lw_bits bw) < 2 ^ nat (lw_used bw)"
    "v = le (lwritten bw) + 2 ^ (8 * p) * uint (lw_bits bw)" "n = 8 * p + nat (lw_used bw)" "lbuf_ok bw"
    using less.prems(1) by (simp_all add: lholds_def p_def)
  have plen: "p \<le> length buf" using h(6) buf p by (simp add: lbuf_ok_def)
  have len: "length (lwritten bw) = p" using buf plen by (simp add: lwritten_def p_def)
  show ?case
  proof (cases "0 < lw_used bw")
    case False
    then have "lw_used bw = 0" using h(1) by simp
    moreover from this have "uint (lw_bits bw) = 0" using h(3) uint_less_1[of "lw_bits bw"] by simp
    ultimately show ?thesis using h buf len by (subst finish_loop.simps) simp
  next
    case True
    let ?bw = "bw\<lparr>lw_buf := Some (buf[p := ucast (lw_bits bw)]), lw_cur := lw_cur bw + 1, lw_bits := drop_bit 8 (lw_bits bw), lw_used := lw_used bw - 8\<rparr>"
    have "1 \<le> (lw_used bw + 7) div 8" using True by simp
    then have p2: "p < length buf" using less.prems(2) p buf(2) by linarith
    then have st: "st buf (lw_cur bw) (ucast (lw_bits bw)) = Some (buf[p := ucast (lw_bits bw)])" by (simp add: p st_nat)
    have nx: "finish_loop bw = finish_loop ?bw" using True buf st by (subst finish_loop.simps) simp
    have u8: "uint (ucast (lw_bits bw) :: u8) = uint (lw_bits bw) mod 256" by (simp add: unsigned_ucast_eq take_bit_eq_mod)
    have np: "nat (lw_cur bw + 1) = Suc p" "nat (int p + 1) = Suc p" using p by simp_all
    have wr: "lwritten ?bw = lwritten bw @ [ucast (lw_bits bw)]"
      using buf p2 by (simp add: lwritten_def np take_Suc_update p)
    have e: "2 ^ (8 * p) * (a * 256 + c) = 2 ^ (8 * p) * c + 2 ^ (8 * Suc p) * a" for a c :: int
      by (simp add: power_add algebra_simps)
    have v: "v = le (lwritten ?bw) + 2 ^ (8 * Suc p) * uint (lw_bits ?bw)"
      using e[of "uint (lw_bits bw) div 256" "uint (lw_bits bw) mod 256"] h(4) len
      by (simp add: wr u8 uint_shiftr power_mult)
    show ?thesis
    proof (cases "8 \<le> lw_used bw")
      case c: True
      have us: "nat (lw_used bw) = 8 + nat (lw_used bw - 8)" using c by simp
      have "uint (lw_bits bw) div 256 < 2 ^ nat (lw_used bw - 8)"
        using h(3) unfolding us power_add by (simp add: int_div_less mult.commute)
      then have "lholds ?bw v n" using c h p p2 buf v us np by (auto simp: lholds_def lbuf_ok_def uint_shiftr)
      then show ?thesis using less.hyps[of ?bw n] less.prems(2) c nx by simp
    next
      case c: False
      have "uint (lw_bits bw) < 2 ^ 8" 
      proof -
        have "(2 :: int) ^ nat (lw_used bw) \<le> 2 ^ 8" using c by (intro power_increasing) auto
        then show ?thesis using h(3) by linarith
      qed
      then have "uint (drop_bit 8 (lw_bits bw)) = 0" by (simp add: uint_shiftr)
      then have "le (lwritten ?bw) = v" using v by simp
      moreover have "finish_loop ?bw = Some ?bw" using c by (subst finish_loop.simps) simp
      moreover have "lbuf_ok ?bw" using h(6) p p2 buf by (auto simp: lbuf_ok_def)
      moreover have "(n + 7) div 8 = Suc p" using h(5) True c by simp
      ultimately show ?thesis using nx wr len by simp
    qed
  qed
qed

lemma VP8LBitWriterFinish_ok:
  assumes m: "malloc_ok malloc" and h: "lholds bw v n" and c: "n < 2 ^ 34" and e: "lw_end bw < 2 ^ 60"
  shows "\<exists>bw'. VP8LBitWriterFinish malloc bw = Some bw' \<and> lw_error bw' = 0 \<and> lw_buf bw' \<noteq> None \<and> le (lwritten bw') = v \<and>
    length (lwritten bw') = (n + 7) div 8 \<and> int (length (lwritten bw')) = lw_cur bw'"
proof -
  let ?x = "word_of_int (drop_bit 3 (lw_used bw + 7)) :: u64"
  have b: "lbuf_ok bw" "0 \<le> lw_used bw" "lw_used bw < 64" "n = 8 * nat (lw_cur bw) + nat (lw_used bw)"
    using h by (auto simp: lholds_def)
  have x: "uint ?x = (lw_used bw + 7) div 8" using b by (simp add: uint_word_of_int drop_bit_eq_div)
  have cur: "0 \<le> lw_cur bw" "lw_cur bw < 2 ^ 31" using b c by (auto simp: lbuf_ok_def)
  have x33: "lw_cur bw + uint ?x < 2 ^ 33" unfolding x using cur b(3) by simp
  have cond: "lw_cur bw + uint ?x \<le> lw_end bw \<and> 0 < lw_end bw \<or> lw_end bw \<le> 2 ^ 33"
    using x33 by (cases "lw_end bw \<le> 2 ^ 33") auto
  from VP8LBitWriterResize_ok[OF m b(1) cond x33 e] obtain bw1 where
    1: "VP8LBitWriterResize malloc bw ?x = Some (1, bw1)" "bw1 = bw\<lparr>lw_buf := lw_buf bw1, lw_end := lw_end bw1\<rparr>"
      "lbuf_ok bw1" "lwritten bw1 = lwritten bw" "lw_buf bw1 \<noteq> None" "lw_cur bw + uint ?x \<le> lw_end bw1" by blast
  have f: "lw_cur bw1 = lw_cur bw" "lw_used bw1 = lw_used bw" "lw_bits bw1 = lw_bits bw" by (subst 1(2), simp)+
  have "lholds bw1 v n" using h 1(3-5) by (simp add: lholds_def f)
  from finish_loop_ok[OF this] 1(6) obtain bw2 where
    2: "finish_loop bw1 = Some bw2" "lbuf_ok bw2" "lw_buf bw2 \<noteq> None" "le (lwritten bw2) = v" "length (lwritten bw2) = (n + 7) div 8"
    by (auto simp: f x)
  have "int (length (lwritten bw2)) = lw_cur bw2" using 2(2,3) by (auto simp: lbuf_ok_def lwritten_def)
  then show ?thesis using 1(1) 2 by (auto simp: VP8LBitWriterFinish_def lwritten_def lbuf_ok_def)
qed

lemma VP8LBitWriterInit_ok:
  assumes "malloc_ok malloc" "uint sz < 2 ^ 33"
  shows "\<exists>bw. VP8LBitWriterInit malloc sz = Some (1, bw) \<and> lholds bw 0 0 \<and> lw_end bw < 2 ^ 60"
proof -
  let ?bw = "\<lparr>lw_bits = 0, lw_used = 0, lw_buf = None, lw_cur = 0, lw_end = 0, lw_error = 0\<rparr> :: VP8LBitWriter"
  have "lbuf_ok ?bw" by (simp add: lbuf_ok_def)
  from VP8LBitWriterResize_ok[OF assms(1) this, of sz] assms(2) obtain bw where
    1: "VP8LBitWriterResize malloc ?bw sz = Some (1, bw)" "bw = ?bw\<lparr>lw_buf := lw_buf bw, lw_end := lw_end bw\<rparr>"
      "lbuf_ok bw" "lwritten bw = lwritten ?bw" "lw_buf bw \<noteq> None" "lw_end bw = 0 \<or> lw_end bw \<le> 2 ^ 34" by auto
  have f: "lw_cur bw = 0" "lw_used bw = 0" "lw_bits bw = 0" by (subst 1(2), simp)+
  show ?thesis using 1 f by (auto simp: VP8LBitWriterInit_def lholds_def lwritten_def)
qed


subsection \<open>The reader walks over a number\<close>

text \<open>The window of the reader shows 64 bits of the number of the buffer from byte \<open>b\<close> on, and \<open>c\<close> bits
  are consumed.\<close>

definition lreads :: "u8 list \<Rightarrow> u8 list \<Rightarrow> VP8LBitReader \<Rightarrow> nat \<Rightarrow> bool" where
  "lreads mem bs br c \<longleftrightarrow> (\<exists>b. uint (lr_len br) = int (length bs) \<and>
     (\<forall>i < length bs. ld mem (lr_buf br + int i) = Some (bs ! i)) \<and> lr_eos br = 0 \<and>
     uint (lr_pos br) = int b + int (min 8 (length bs)) \<and> b + min 8 (length bs) \<le> length bs \<and>
     (\<forall>i < 64. bit (lr_val br) i = bit (le bs) (8 * b + i)) \<and>
     0 \<le> lr_bit_pos br \<and> int c = 8 * int b + lr_bit_pos br)"

definition lshifted :: "VP8LBitReader \<Rightarrow> bool" where
  "lshifted br \<longleftrightarrow> lr_bit_pos br < 8 \<or> lr_pos br = lr_len br"

lemma shift_bytes_loop_ok:
  assumes "lreads mem bs br c" "length bs < 2 ^ 63"
  shows "\<exists>br'. shift_bytes_loop mem br = Some br' \<and> lreads mem bs br' c \<and> lshifted br'"
  using assms(1)
proof (induction "nat (lr_bit_pos br)" arbitrary: br rule: less_induct)
  case less
  from less.prems obtain b where r: "uint (lr_len br) = int (length bs)"
      "\<forall>i < length bs. ld mem (lr_buf br + int i) = Some (bs ! i)" "lr_eos br = 0"
      "uint (lr_pos br) = int b + int (min 8 (length bs))" "b + min 8 (length bs) \<le> length bs"
      "\<forall>i < 64. bit (lr_val br) i = bit (le bs) (8 * b + i)" "0 \<le> lr_bit_pos br" "int c = 8 * int b + lr_bit_pos br"
    unfolding lreads_def by blast
  show ?case
  proof (cases "lr_bit_pos br \<ge> 8 \<and> lr_pos br < lr_len br")
    case True
    then have lt: "b + min 8 (length bs) < length bs" using r(1,4) by (simp add: word_less_def)
    then have len: "min 8 (length bs) = 8" "b + 8 < length bs" by auto
    have ldp: "ld mem (lr_buf br + uint (lr_pos br)) = Some (bs ! (b + 8))" using r(2)[rule_format, of "b + 8"] r(4) len by simp
    let ?br = "br\<lparr>lr_val := drop_bit 8 (lr_val br) OR push_bit (64 - 8) (ucast (bs ! (b + 8))), lr_pos := lr_pos br + 1, lr_bit_pos := lr_bit_pos br - 8\<rparr>"
    have nx: "shift_bytes_loop mem br = shift_bytes_loop mem ?br" using True ldp by (subst shift_bytes_loop.simps) simp
    have pos: "uint (lr_pos br + 1) = int (Suc b) + 8"
      using r(4) len assms(2) uint_add_small[of "lr_pos br" 1] by simp
    have bits: "bit (drop_bit 8 (lr_val br) OR push_bit (64 - 8) (ucast (bs ! (b + 8)))) i = bit (le bs) (8 * Suc b + i)" if "i < 64" for i
    proof (cases "i < 56")
      case True
      then have "bit (lr_val br) (8 + i) = bit (le bs) (8 * b + (8 + i))" using r(6) by simp
      moreover have "8 * b + (8 + i) = 8 * Suc b + i" by simp
      ultimately show ?thesis using True that by (simp add: bit_or_iff bit_drop_bit_eq bit_push_bit_iff)
    next
      case False
      define j where "j = i - 56"
      have j: "j < 8" "i = 56 + j" using False that by (auto simp: j_def)
      have e: "8 * Suc b + i = 8 * (b + 8) + j" using j by simp
      have dm: "(8 * (b + 8) + j) div 8 = b + 8" "(8 * (b + 8) + j) mod 8 = j" by (rule in_byte[OF j(1)])+
      have "8 * (b + 8) + j < 8 * length bs" using len j(1) by simp
      then have "bit (le bs) (8 * Suc b + i) = bit (bs ! (b + 8)) j" unfolding e by (simp only: bit_le dm simp_thms)
      moreover have "\<not> bit (lr_val br) (8 + i)" using j by (auto dest: bit_imp_le_length)
      ultimately show ?thesis using j by (simp add: bit_or_iff bit_drop_bit_eq bit_push_bit_iff bit_ucast_iff)
    qed
    have "lreads mem bs ?br c"
      unfolding lreads_def by (rule exI[of _ "Suc b"]) (use r len True pos bits in simp)
    then show ?thesis using less.hyps[of ?br] True nx by simp
  next
    case False
    then have "shift_bytes_loop mem br = Some br" by (subst shift_bytes_loop.simps) auto
    moreover have "lshifted br" using False r(1,4,5) by (auto simp: lshifted_def word_less_def word_uint_eq_iff)
    ultimately show ?thesis using less.prems by blast
  qed
qed

lemma not_end_of_stream:
  assumes "lreads mem bs br c" "c \<le> 8 * max 8 (length bs)"
  shows "\<not> VP8LIsEndOfStream br"
  using assms by (auto simp: lreads_def VP8LIsEndOfStream_def min_def max_def split: if_splits)

lemma ShiftBytes_ok:
  assumes "lreads mem bs br c" "length bs < 2 ^ 63" "c \<le> 8 * max 8 (length bs)"
  shows "\<exists>br'. ShiftBytes mem br = Some br' \<and> lreads mem bs br' c \<and> lshifted br'"
  using shift_bytes_loop_ok[OF assms(1,2)] not_end_of_stream[OF _ assms(3)] by (fastforce simp: ShiftBytes_def)

lemma kBitMask_mask: "n \<le> 24 \<Longrightarrow> ld kBitMask (int n) = Some (mask n)"
proof -
  assume n: "n \<le> 24"
  have "\<forall>k\<in>set [0..<25]. kBitMask ! k = mask k" by code_simp
  then have "kBitMask ! n = mask n" using n by simp
  moreover have "length kBitMask = 25" by (simp add: kBitMask_def)
  ultimately show ?thesis using n by (simp add: ld_nat)
qed

lemma VP8LReadBits_ok:
  assumes r: "lreads mem bs br c" "lshifted br" and len: "length bs < 2 ^ 63" and n: "n \<le> 24" "c + n \<le> 8 * max 8 (length bs)"
  shows "\<exists>br' w. VP8LReadBits mem br (int n) = Some (w, br') \<and> uint w = take_bit n (drop_bit c (le bs)) \<and>
    lreads mem bs br' (c + n) \<and> lshifted br'"
proof -
  from r(1) obtain b where b: "lr_eos br = 0" "uint (lr_len br) = int (length bs)"
      "uint (lr_pos br) = int b + int (min 8 (length bs))" "b + min 8 (length bs) \<le> length bs"
      "\<forall>i < 64. bit (lr_val br) i = bit (le bs) (8 * b + i)" "0 \<le> lr_bit_pos br" "int c = 8 * int b + lr_bit_pos br"
    unfolding lreads_def by blast
  let ?br = "br\<lparr>lr_bit_pos := lr_bit_pos br + int n\<rparr>"
  have "lreads mem bs ?br (c + n)" using r(1) by (auto simp: lreads_def)
  from ShiftBytes_ok[OF this len n(2)] obtain br' where
    s: "ShiftBytes mem ?br = Some br'" "lreads mem bs br' (c + n)" "lshifted br'" by blast
  let ?w = "VP8LPrefetchBits br AND mask n"
  have "VP8LReadBits mem br (int n) = Some (?w, br')"
    using b(1) n(1) s(1) kBitMask_mask[OF n(1)] by (simp add: VP8LReadBits_def require_def Let_def)
  moreover have "uint ?w = take_bit n (drop_bit c (le bs))"
  proof (cases "n = 0")
    case False
    have "lr_bit_pos br + int n \<le> 64"
      using r(2) n b False by (auto simp: lshifted_def word_uint_eq_iff min_def max_def split: if_splits)
    then have bp: "lr_bit_pos br < 64" using False by simp
    have "lr_bit_pos br AND 63 = take_bit 6 (lr_bit_pos br)" by (simp add: take_bit_eq_mask mask_eq_exp_minus_1)
    then have sh: "lr_bit_pos br AND 63 = lr_bit_pos br" using bp b(6) by (simp add: take_bit_int_eq_self)
    have c: "c = 8 * b + nat (lr_bit_pos br)" using b(6,7) by simp
    show ?thesis
    proof (rule bit_eqI)
      fix k
      have "nat (lr_bit_pos br) + k < 64" if "k < n" using that \<open>lr_bit_pos br + int n \<le> 64\<close> b(6) by simp
      then have "k < n \<Longrightarrow> bit (lr_val br) (nat (lr_bit_pos br) + k) = bit (le bs) (c + k)" using b(5) by (simp add: c add.assoc)
      then show "bit (uint ?w) k = bit (take_bit n (drop_bit c (le bs))) k"
        using n(1) by (auto simp: VP8LPrefetchBits_def sh bit_uint_iff bit_and_iff bit_mask_iff bit_take_bit_iff bit_drop_bit_eq bit_ucast_iff)
    qed
  qed simp
  ultimately show ?thesis using s by blast
qed


lemma VP8LInitBitReader_ok:
  assumes "\<forall>i < length bs. ld mem (start + int i) = Some (bs ! i)" "length bs < 2 ^ 31"
  shows "\<exists>br. VP8LInitBitReader mem start (of_nat (length bs)) = Some br \<and> lreads mem bs br 0 \<and> lshifted br"
proof -
  let ?len = "of_nat (length bs) :: u64"
  have u: "uint ?len = int (length bs)" using assms(2) by (simp add: unsigned_of_nat take_bit_nat_eq_self)
  then have un: "unat ?len = length bs" by (simp flip: nat_uint_eq)
  let ?n = "min 8 (length bs)"
  define f where "f = (\<lambda>i value. do { b \<leftarrow> ld mem (start + int i); Some (value OR push_bit (8 * i) (ucast b)) } :: u64 option)"
  have "\<exists>v. for_range 0 ?n f 0 = Some v \<and> (\<forall>i. bit v i \<longleftrightarrow> i < 8 * ?n \<and> bit (le bs) i)"
  proof (rule for_range_inv[where I = "\<lambda>j v. \<forall>i. bit v i \<longleftrightarrow> i < 8 * j \<and> bit (le bs) i"])
    fix j and t :: u64
    assume j: "j < ?n" and t: "\<forall>i. bit t i \<longleftrightarrow> i < 8 * j \<and> bit (le bs) i"
    have "bit (t OR push_bit (8 * j) (ucast (bs ! j))) i \<longleftrightarrow> i < 8 * Suc j \<and> bit (le bs) i" for i
    proof (cases "i < 8 * j")
      case True
      then show ?thesis using t by (auto simp: bit_or_iff bit_push_bit_iff)
    next
      case False
      define k where "k = i - 8 * j"
      have i: "i = 8 * j + k" using False by (simp add: k_def)
      show ?thesis
      proof (cases "k < 8")
        case True
        have dm: "(8 * j + k) div 8 = j" "(8 * j + k) mod 8 = k" by (rule in_byte[OF True])+
        have lt: "8 * j + k < 8 * length bs" "8 * j + k < 64" using True j by simp_all
        then have "bit (le bs) i = bit (bs ! j) k" unfolding i by (simp only: bit_le dm simp_thms)
        then show ?thesis using t lt True by (simp add: bit_or_iff bit_push_bit_iff i bit_ucast_iff)
      next
        case False
        then show ?thesis using t by (auto simp: bit_or_iff bit_push_bit_iff i bit_ucast_iff dest: bit_imp_le_length)
      qed
    qed
    moreover have "ld mem (start + int j) = Some (bs ! j)" using assms(1) j by simp
    ultimately show "\<exists>t'. f j t = Some t' \<and> (\<forall>i. bit t' i \<longleftrightarrow> i < 8 * Suc j \<and> bit (le bs) i)" by (simp add: f_def)
  qed simp_all
  then obtain v where v: "for_range 0 ?n f 0 = Some v" "\<forall>i. bit v i \<longleftrightarrow> i < 8 * ?n \<and> bit (le bs) i" by blast
  let ?br = "\<lparr>lr_val = v, lr_buf = start, lr_len = ?len, lr_pos = (if ?len > 8 then 8 else ?len), lr_bit_pos = 0, lr_eos = 0\<rparr>"
  have l: "?len < 0xfffffff8" using assms(2) u by (simp add: word_less_def)
  have p: "uint (if ?len > 8 then 8 else ?len) = int ?n" "unat (if ?len > 8 then 8 else ?len) = ?n"
    using u un by (auto simp: word_less_def min_def)
  have "VP8LInitBitReader mem start ?len = Some ?br"
    unfolding VP8LInitBitReader_def Let_def p(2) using v(1) l by (simp add: require_def flip: f_def)
  moreover have "lreads mem bs ?br 0"
    unfolding lreads_def by (rule exI[of _ 0]) (use assms(1) u p(1) v(2) in \<open>auto simp: bit_le min_def split: if_splits\<close>)
  ultimately show ?thesis by (auto simp: lshifted_def)
qed


lemma WebPMemToUint32_bits:
  assumes "p + 4 \<le> length bs" "\<forall>i < length bs. ld mem (start + int i) = Some (bs ! i)"
  shows "\<exists>w. WebPMemToUint32 mem (start + int p) = Some w \<and> (\<forall>k < 32. bit w k = bit (le bs) (8 * p + k))"
proof -
  have l: "ld mem (start + int p + int i) = Some (bs ! (p + i))" if "i < 4" for i
    using assms(2)[rule_format, of "p + i"] assms(1) that by (simp add: add.assoc)
  let ?w = "ucast (bs ! p) OR push_bit 8 (ucast (bs ! (p + 1))) OR push_bit 16 (ucast (bs ! (p + 2))) OR push_bit 24 (ucast (bs ! (p + 3))) :: u32"
  have "WebPMemToUint32 mem (start + int p) = Some ?w"
    using l[of 0] l[of 1] l[of 2] l[of 3] by (simp add: WebPMemToUint32_def)
  moreover have "bit ?w k = bit (le bs) (8 * p + k)" if "k < 32" for k
  proof -
    have dm: "(8 * p + k) div 8 = p + k div 8" "(8 * p + k) mod 8 = k mod 8" by simp_all
    have "8 * p + k < 8 * length bs" using that assms(1) by simp
    then have e: "bit (le bs) (8 * p + k) = bit (bs ! (p + k div 8)) (k mod 8)" by (simp only: bit_le dm simp_thms)
    have cases: "k < 8 \<and> k div 8 = 0 \<and> k mod 8 = k \<or> 8 \<le> k \<and> k < 16 \<and> k div 8 = 1 \<and> k mod 8 = k - 8 \<or>
        16 \<le> k \<and> k < 24 \<and> k div 8 = 2 \<and> k mod 8 = k - 16 \<or> 24 \<le> k \<and> k div 8 = 3 \<and> k mod 8 = k - 24"
      using which_byte[of k "k div 8" "k mod 8"] that by simp
    then show ?thesis unfolding e using that
      by (elim disjE) (auto simp: bit_or_iff bit_push_bit_iff bit_ucast_iff dest: bit_imp_le_length)
  qed
  ultimately show ?thesis by blast
qed

lemma VP8LFillBitWindow_ok:
  assumes r: "lreads mem bs br c" and len: "length bs < 2 ^ 31" and c: "c \<le> 8 * max 8 (length bs)" and bp: "lr_bit_pos br < 64"
  shows "\<exists>br'. VP8LFillBitWindow mem br = Some br' \<and> lreads mem bs br' c \<and> (lr_bit_pos br' < 32 \<or> lr_pos br' = lr_len br')"
proof (cases "lr_bit_pos br \<ge> 32")
  case False
  then show ?thesis using r by (auto simp: VP8LFillBitWindow_def)
next
  case True
  show ?thesis
  proof (cases "lr_pos br + 8 < lr_len br")
    case fast: True
    from r obtain b where b: "lr_eos br = 0" "uint (lr_len br) = int (length bs)"
        "\<forall>i < length bs. ld mem (lr_buf br + int i) = Some (bs ! i)"
        "uint (lr_pos br) = int b + int (min 8 (length bs))" "b + min 8 (length bs) \<le> length bs"
        "\<forall>i < 64. bit (lr_val br) i = bit (le bs) (8 * b + i)" "0 \<le> lr_bit_pos br" "int c = 8 * int b + lr_bit_pos br"
      unfolding lreads_def by blast
    have "uint (lr_pos br + 8) = uint (lr_pos br) + 8" using uint_add_small[of "lr_pos br" 8] b(4,5) len by simp
    then have lt: "b + 16 < length bs" "min 8 (length bs) = 8" using fast b(2,4,5) by (auto simp: word_less_def min_def split: if_splits)
    have pos: "uint (lr_pos br) = int (b + 8)" using b(4) lt by simp
    have pos4: "uint (lr_pos br + 4) = int (b + 4) + 8"
      using uint_add_small[of "lr_pos br" 4] pos lt(1) len by simp
    from WebPMemToUint32_bits[of "b + 8" bs mem "lr_buf br"] lt(1) b(3) obtain w where
      w: "WebPMemToUint32 mem (lr_buf br + uint (lr_pos br)) = Some w" "\<forall>k < 32. bit w k = bit (le bs) (8 * (b + 8) + k)"
      by (auto simp: pos)
    let ?v = "drop_bit 32 (lr_val br) OR push_bit (64 - 32) (ucast w)"
    let ?br = "br\<lparr>lr_val := ?v, lr_bit_pos := lr_bit_pos br - 32, lr_pos := lr_pos br + 4\<rparr>"
    have v: "bit ?v i = bit (le bs) (8 * (b + 4) + i)" if "i < 64" for i
    proof (cases "i < 32")
      case i: True
      then have "bit (lr_val br) (32 + i) = bit (le bs) (8 * b + (32 + i))" using b(6) by simp
      then show ?thesis using i that by (simp add: bit_or_iff bit_drop_bit_eq bit_push_bit_iff algebra_simps)
    next
      case i: False
      then have "bit w (i - 32) = bit (le bs) (8 * (b + 8) + (i - 32))" using w(2) that by simp
      moreover have "8 * (b + 8) + (i - 32) = 8 * (b + 4) + i" using i by simp
      moreover have "\<not> bit (lr_val br) (32 + i)" using i by (auto dest: bit_imp_le_length)
      moreover have "i - 32 < 64" using that by simp
      ultimately show ?thesis using i that by (simp add: bit_or_iff bit_drop_bit_eq bit_push_bit_iff bit_ucast_iff add.commute add.left_commute)
    qed
    have "VP8LFillBitWindow mem br = Some ?br"
      using True fast w(1) by (simp add: VP8LFillBitWindow_def VP8LDoFillBitWindow_def require_def)
    moreover have "lreads mem bs ?br c"
      unfolding lreads_def by (rule exI[of _ "b + 4"]) (use b lt pos4 v True in simp)
    ultimately show ?thesis using bp by (intro exI[of _ ?br]) simp
  next
    case False
    then have "VP8LFillBitWindow mem br = ShiftBytes mem br"
      using True by (simp add: VP8LFillBitWindow_def VP8LDoFillBitWindow_def require_def)
    then show ?thesis using ShiftBytes_ok[OF r _ c] len by (fastforce simp: lshifted_def)
  qed
qed


subsection \<open>Properties\<close>

text \<open>A list of fields, each a value and its width, as the encoder writes and the decoder reads it.\<close>

primrec put_fields :: "allocator \<Rightarrow> (u32 \<times> nat) list \<Rightarrow> VP8LBitWriter \<Rightarrow> VP8LBitWriter option" where
  "put_fields malloc [] bw = Some bw"
| "put_fields malloc (f # fs) bw = VP8LPutBits malloc bw (fst f) (int (snd f)) \<bind> put_fields malloc fs"

primrec read_fields :: "u8 list \<Rightarrow> (u32 \<times> nat) list \<Rightarrow> VP8LBitReader \<Rightarrow> (u32 list \<times> VP8LBitReader) option" where
  "read_fields mem [] br = Some ([], br)"
| "read_fields mem (f # fs) br = do {
     (v, br) \<leftarrow> VP8LReadBits mem br (int (snd f));
     (vs, br) \<leftarrow> read_fields mem fs br;
     Some (v # vs, br) }"

definition fields_ok :: "(u32 \<times> nat) list \<Rightarrow> bool" where
  "fields_ok fs \<longleftrightarrow> (\<forall>f\<in>set fs. snd f \<le> 24 \<and> uint (fst f) < 2 ^ snd f)"

primrec fields_number :: "(u32 \<times> nat) list \<Rightarrow> int" where
  "fields_number [] = 0"
| "fields_number (f # fs) = uint (fst f) + 2 ^ snd f * fields_number fs"

definition fields_width :: "(u32 \<times> nat) list \<Rightarrow> nat" where
  "fields_width fs = sum_list (map snd fs)"

lemma fields_width_simps [simp]: "fields_width [] = 0" "fields_width (f # fs) = snd f + fields_width fs"
  by (simp_all add: fields_width_def)

lemma put_fields_ok:
  assumes "malloc_ok malloc" "lholds bw v n" "lw_end bw < 2 ^ 60" "fields_ok fs" "n + fields_width fs < 2 ^ 34"
  shows "\<exists>bw'. put_fields malloc fs bw = Some bw' \<and> lholds bw' (v + 2 ^ n * fields_number fs) (n + fields_width fs) \<and> lw_end bw' < 2 ^ 60"
  using assms(2-)
proof (induction fs arbitrary: bw v n)
  case (Cons f fs)
  have f: "snd f \<le> 32" "uint (fst f) < 2 ^ snd f" "fields_ok fs" "n < 2 ^ 34" "n + snd f + fields_width fs < 2 ^ 34"
    using Cons.prems by (auto simp: fields_ok_def)
  from VP8LPutBits_ok[OF assms(1) Cons.prems(1) f(1,2,4) Cons.prems(2)] obtain bw1 where
    1: "VP8LPutBits malloc bw (fst f) (int (snd f)) = Some bw1" "lholds bw1 (v + 2 ^ n * uint (fst f)) (n + snd f)" "lw_end bw1 < 2 ^ 60"
    by blast
  have "v + 2 ^ n * uint (fst f) + 2 ^ (n + snd f) * fields_number fs = v + 2 ^ n * fields_number (f # fs)"
    by (simp add: power_add algebra_simps)
  then show ?case using Cons.IH[OF 1(2,3) f(3,5)] 1(1) by (simp add: add.assoc)
qed simp

lemma read_fields_ok:
  assumes "lreads mem bs br c" "lshifted br" "length bs < 2 ^ 63" "fields_ok fs" "c + fields_width fs \<le> 8 * length bs"
    "drop_bit c (le bs) = fields_number fs"
  shows "\<exists>br'. read_fields mem fs br = Some (map fst fs, br') \<and> lr_eos br' = 0"
  using assms
proof (induction fs arbitrary: br c)
  case Nil
  then show ?case by (auto simp: lreads_def)
next
  case (Cons f fs)
  have f: "snd f \<le> 24" "0 \<le> uint (fst f)" "uint (fst f) < 2 ^ snd f" "fields_ok fs" "c + snd f \<le> 8 * length bs"
      "c + snd f + fields_width fs \<le> 8 * length bs"
    using Cons.prems by (auto simp: fields_ok_def)
  have "c + snd f \<le> 8 * max 8 (length bs)" using f(5) by simp
  from VP8LReadBits_ok[OF Cons.prems(1-3) f(1) this] obtain br1 w where
    1: "VP8LReadBits mem br (int (snd f)) = Some (w, br1)" "uint w = take_bit (snd f) (drop_bit c (le bs))"
      "lreads mem bs br1 (c + snd f)" "lshifted br1" by blast
  have "take_bit (snd f) (uint (fst f) + 2 ^ snd f * fields_number fs) = uint (fst f)"
    using f(2,3) by (simp add: take_bit_eq_mod)
  then have w: "w = fst f" using 1(2) Cons.prems(6) by (simp add: word_uint_eq_iff)
  have "drop_bit (c + snd f) (le bs) = drop_bit (snd f) (drop_bit c (le bs))"
    by (simp add: drop_bit_drop_bit add.commute)
  also have "drop_bit c (le bs) = fields_number (f # fs)" by (rule Cons.prems(6))
  also have "drop_bit (snd f) (fields_number (f # fs)) = fields_number fs" using f(2,3) by (simp add: drop_bit_eq_div)
  finally show ?case using Cons.IH[OF 1(3,4) Cons.prems(3) f(4,6)] 1(1) w by auto
qed

text \<open>C14. Every list of fields that the lossless bit writer puts is read back by the lossless bit reader:
  writing succeeds, the buffer holds exactly the bytes of the fields, and a reader on these bytes, wherever
  they lie in memory, returns the fields without reaching the end of the stream.\<close>

theorem lossless_bits_roundtrip:
  assumes "malloc_ok malloc" "uint sz < 2 ^ 33" "fields_ok fs" "fields_width fs < 2 ^ 33"
  shows "\<exists>bw bw'. VP8LBitWriterInit malloc sz = Some (1, bw) \<and> put_fields malloc fs bw \<bind> VP8LBitWriterFinish malloc = Some bw' \<and>
    lw_error bw' = 0 \<and> length (lwritten bw') = (fields_width fs + 7) div 8 \<and>
    (\<forall>pre post. \<exists>br br'. VP8LInitBitReader (pre @ lwritten bw' @ post) (int (length pre)) (of_nat (length (lwritten bw'))) = Some br \<and>
      read_fields (pre @ lwritten bw' @ post) fs br = Some (map fst fs, br') \<and> lr_eos br' = 0)"
proof -
  from VP8LBitWriterInit_ok[OF assms(1,2)] obtain bw where
    i: "VP8LBitWriterInit malloc sz = Some (1, bw)" "lholds bw 0 0" "lw_end bw < 2 ^ 60" by blast
  have "0 + fields_width fs < 2 ^ 34" using assms(4) by simp
  from put_fields_ok[OF assms(1) i(2,3) assms(3) this] obtain bw1 where
    p: "put_fields malloc fs bw = Some bw1" "lholds bw1 (fields_number fs) (fields_width fs)" "lw_end bw1 < 2 ^ 60" by auto
  have "fields_width fs < 2 ^ 34" using assms(4) by simp
  from VP8LBitWriterFinish_ok[OF assms(1) p(2) this p(3)] obtain bw' where
    f: "VP8LBitWriterFinish malloc bw1 = Some bw'" "lw_error bw' = 0" "le (lwritten bw') = fields_number fs"
      "length (lwritten bw') = (fields_width fs + 7) div 8" by blast
  have "\<exists>br br'. VP8LInitBitReader (pre @ lwritten bw' @ post) (int (length pre)) (of_nat (length (lwritten bw'))) = Some br \<and>
      read_fields (pre @ lwritten bw' @ post) fs br = Some (map fst fs, br') \<and> lr_eos br' = 0" for pre post
  proof -
    have "\<forall>i < length (lwritten bw'). ld (pre @ lwritten bw' @ post) (int (length pre) + int i) = Some (lwritten bw' ! i)"
      by (auto simp: ld_nat nth_append simp flip: of_nat_add)
    moreover have "length (lwritten bw') < 2 ^ 31" using f(4) assms(4) by simp
    ultimately obtain br where br: "VP8LInitBitReader (pre @ lwritten bw' @ post) (int (length pre)) (of_nat (length (lwritten bw'))) = Some br"
      "lreads (pre @ lwritten bw' @ post) (lwritten bw') br 0" "lshifted br" using VP8LInitBitReader_ok by blast
    have "length (lwritten bw') < 2 ^ 63" using f(4) assms(4) by simp
    moreover have "0 + fields_width fs \<le> 8 * length (lwritten bw')" using f(4) by simp
    ultimately show ?thesis using read_fields_ok[OF br(2,3) _ assms(3)] br(1) f(3) by fastforce
  qed
  then show ?thesis using i(1) p(1) f by auto
qed

lemma lossless_bits_roundtrip_witness:
  "\<exists>bw bw'. VP8LBitWriterInit (\<lambda>n. Some (replicate n 0)) 5 = Some (1, bw) \<and>
    put_fields (\<lambda>n. Some (replicate n 0)) [(5, 3), (0, 0), (70000, 20)] bw \<bind> VP8LBitWriterFinish (\<lambda>n. Some (replicate n 0)) = Some bw' \<and>
    lw_error bw' = 0 \<and> length (lwritten bw') = 3 \<and>
    (\<forall>pre post. \<exists>br br'. VP8LInitBitReader (pre @ lwritten bw' @ post) (int (length pre)) (of_nat (length (lwritten bw'))) = Some br \<and>
      read_fields (pre @ lwritten bw' @ post) [(5, 3), (0, 0), (70000, 20)] br = Some ([5, 0, 70000], br') \<and> lr_eos br' = 0)"
  using lossless_bits_roundtrip[of "\<lambda>n. Some (replicate n 0)" 5 "[(5, 3), (0, 0), (70000, 20)]"]
  by (simp add: malloc_ok_def fields_ok_def)


text \<open>C15. Every read of up to 24 bits, on every branch: while the bits lie inside the window over the data,
  the reader returns them and stands behind them; past it the end-of-stream flag is set. For buffers of
  fewer than eight bytes the window is longer than the data: there the code does not flag reads that cross
  the end of the buffer before the 64th bit, and the missing bits read as zero.\<close>

theorem VP8LReadBits_correct:
  assumes "lreads mem bs br c" "lshifted br" "length bs < 2 ^ 63" "n \<le> 24"
  shows "\<exists>w br'. VP8LReadBits mem br (int n) = Some (w, br') \<and>
    (if c + n \<le> 8 * max 8 (length bs)
     then uint w = take_bit n (drop_bit c (le bs)) \<and> lreads mem bs br' (c + n) \<and> lshifted br' \<and> lr_eos br' = 0
     else lr_eos br' = 1)"
proof (cases "c + n \<le> 8 * max 8 (length bs)")
  case True
  from VP8LReadBits_ok[OF assms True] obtain br' w where
    1: "VP8LReadBits mem br (int n) = Some (w, br')" "uint w = take_bit n (drop_bit c (le bs))" "lreads mem bs br' (c + n)" "lshifted br'"
    by blast
  moreover have "lr_eos br' = 0" using 1(3) by (auto simp: lreads_def)
  ultimately show ?thesis using True by auto
next
  case False
  let ?br = "br\<lparr>lr_bit_pos := lr_bit_pos br + int n\<rparr>"
  have eos: "lr_eos br = 0" using assms(1) by (auto simp: lreads_def)
  have "lreads mem bs ?br (c + n)" using assms(1) by (auto simp: lreads_def)
  from shift_bytes_loop_ok[OF this assms(3)] obtain br1 where
    1: "shift_bytes_loop mem ?br = Some br1" "lreads mem bs br1 (c + n)" "lshifted br1" by blast
  from 1(2) obtain b where b: "uint (lr_len br1) = int (length bs)" "b + min 8 (length bs) \<le> length bs" "int (c + n) = 8 * int b + lr_bit_pos br1"
    unfolding lreads_def by blast
  have "lr_bit_pos br1 > 64" using b(2,3) False by (auto simp: min_def max_def split: if_splits)
  then have "VP8LIsEndOfStream br1" using 1(3) by (auto simp: lshifted_def VP8LIsEndOfStream_def)
  then show ?thesis using False eos assms(4) kBitMask_mask[OF assms(4)] 1(1)
    by (auto simp: VP8LReadBits_def require_def Let_def ShiftBytes_def VP8LSetEndOfStream_def)
qed

lemma VP8LReadBits_correct_witness:
  "\<exists>br w br'. VP8LInitBitReader [0x35, 0x12] 0 2 = Some br \<and> VP8LReadBits [0x35, 0x12] br 20 = Some (w, br') \<and> uint w = 0x1235 \<and> lr_eos br' = 0"
proof -
  have "le [0x35, 0x12] = 0x1235" by simp
  moreover obtain br where "VP8LInitBitReader [0x35, 0x12] 0 2 = Some br" "lreads [0x35, 0x12] [0x35, 0x12] br 0" "lshifted br"
    using VP8LInitBitReader_ok[of "[0x35, 0x12]" "[0x35, 0x12]" 0] by (auto simp: ld_def nth_Cons split: nat.split)
  ultimately show ?thesis using VP8LReadBits_correct[of "[0x35, 0x12]" "[0x35, 0x12]" br 0 20] by (auto simp: take_bit_eq_mod)
qed




end
