(* ===== verification/Filters.thy ===== *)
theory Filters
  imports Pixels
begin

section \<open>The spatial filters of the alpha plane (src/dsp/filters.c, src/utils/filters_utils.c, src/dec/alpha_dec.c)\<close>

text \<open>
  The encoder filters a plane (its input \<open>im\<close> and output \<open>om\<close> are distinct memories, \<open>WEBP_RESTRICT\<close> in
  the code); the decoder unfilters it row by row, in one memory \<open>m\<close> in which the previous row, the input
  and the output may coincide. \<open>NULL\<close> for the previous row is \<open>None\<close>. Reads and writes outside a memory
  are \<open>None\<close> too.
\<close>

unbundle bit_operations_syntax

subsection \<open>Filtering\<close>

datatype WEBP_FILTER_TYPE = WEBP_FILTER_NONE | WEBP_FILTER_HORIZONTAL | WEBP_FILTER_VERTICAL | WEBP_FILTER_GRADIENT

definition PredictLine :: "u8 list \<Rightarrow> int \<Rightarrow> int \<Rightarrow> u8 list \<Rightarrow> int \<Rightarrow> int \<Rightarrow> u8 list option" where
  "PredictLine im src pred om dst len =
     for_range 0 (nat len)
       (\<lambda>i om. do {
          a \<leftarrow> ld im (src + int i);
          b \<leftarrow> ld im (pred + int i);
          st om (dst + int i) (word_of_int (uint a - uint b)) }) om"

definition DoHorizontalFilter :: "u8 list \<Rightarrow> int \<Rightarrow> int \<Rightarrow> int \<Rightarrow> int \<Rightarrow> u8 list \<Rightarrow> int \<Rightarrow> u8 list option" where
  "DoHorizontalFilter im inp width height stride om out = do {
     require (width > 0 \<and> height > 0 \<and> stride \<ge> width);
     let preds = inp;
     v \<leftarrow> ld im inp;
     om \<leftarrow> st om out v;
     om \<leftarrow> PredictLine im (inp + 1) preds om (out + 1) (width - 1);
     (preds, inp, out, om) \<leftarrow>
       for_range 1 (nat height)
         (\<lambda>row (preds, inp, out, om). do {
            om \<leftarrow> PredictLine im inp (preds - stride) om out 1;
            om \<leftarrow> PredictLine im (inp + 1) preds om (out + 1) (width - 1);
            Some (preds + stride, inp + stride, out + stride, om) })
         (preds + stride, inp + stride, out + stride, om);
     Some om }"

definition DoVerticalFilter :: "u8 list \<Rightarrow> int \<Rightarrow> int \<Rightarrow> int \<Rightarrow> int \<Rightarrow> u8 list \<Rightarrow> int \<Rightarrow> u8 list option" where
  "DoVerticalFilter im inp width height stride om out = do {
     require (width > 0 \<and> height > 0 \<and> stride \<ge> width);
     let preds = inp;
     v \<leftarrow> ld im inp;
     om \<leftarrow> st om out v;
     om \<leftarrow> PredictLine im (inp + 1) preds om (out + 1) (width - 1);
     (preds, inp, out, om) \<leftarrow>
       for_range 1 (nat height)
         (\<lambda>row (preds, inp, out, om). do {
            om \<leftarrow> PredictLine im inp preds om out width;
            Some (preds + stride, inp + stride, out + stride, om) })
         (preds, inp + stride, out + stride, om);
     Some om }"

definition GradientPredictor :: "u8 \<Rightarrow> u8 \<Rightarrow> u8 \<Rightarrow> int" where
  "GradientPredictor a b c =
     (let g = uint a + uint b - uint c in if g AND NOT 0xff = 0 then g else if g < 0 then 0 else 255)"

definition DoGradientFilter :: "u8 list \<Rightarrow> int \<Rightarrow> int \<Rightarrow> int \<Rightarrow> int \<Rightarrow> u8 list \<Rightarrow> int \<Rightarrow> u8 list option" where
  "DoGradientFilter im inp width height stride om out = do {
     require (width > 0 \<and> height > 0 \<and> stride \<ge> width);
     let preds = inp;
     v \<leftarrow> ld im inp;
     om \<leftarrow> st om out v;
     om \<leftarrow> PredictLine im (inp + 1) preds om (out + 1) (width - 1);
     (preds, inp, out, om) \<leftarrow>
       for_range 1 (nat height)
         (\<lambda>row (preds, inp, out, om). do {
            om \<leftarrow> PredictLine im inp (preds - stride) om out 1;
            om \<leftarrow> for_range 1 (nat width)
              (\<lambda>w om. do {
                 l \<leftarrow> ld im (preds + int w - 1);
                 t \<leftarrow> ld im (preds + int w - stride);
                 tl0 \<leftarrow> ld im (preds + int w - stride - 1);
                 x \<leftarrow> ld im (inp + int w);
                 st om (out + int w) (word_of_int (uint x - GradientPredictor l t tl0)) }) om;
            Some (preds + stride, inp + stride, out + stride, om) })
         (preds + stride, inp + stride, out + stride, om);
     Some om }"

definition HorizontalFilter :: "u8 list \<Rightarrow> int \<Rightarrow> int \<Rightarrow> int \<Rightarrow> int \<Rightarrow> u8 list \<Rightarrow> int \<Rightarrow> u8 list option" where
  "HorizontalFilter im data width height stride om filtered_data =
     DoHorizontalFilter im data width height stride om filtered_data"

definition VerticalFilter :: "u8 list \<Rightarrow> int \<Rightarrow> int \<Rightarrow> int \<Rightarrow> int \<Rightarrow> u8 list \<Rightarrow> int \<Rightarrow> u8 list option" where
  "VerticalFilter im data width height stride om filtered_data =
     DoVerticalFilter im data width height stride om filtered_data"

definition GradientFilter :: "u8 list \<Rightarrow> int \<Rightarrow> int \<Rightarrow> int \<Rightarrow> int \<Rightarrow> u8 list \<Rightarrow> int \<Rightarrow> u8 list option" where
  "GradientFilter im data width height stride om filtered_data =
     DoGradientFilter im data width height stride om filtered_data"

subsection \<open>Unfiltering\<close>

definition NoneUnfilter :: "u8 list \<Rightarrow> int option \<Rightarrow> int \<Rightarrow> int \<Rightarrow> int \<Rightarrow> u8 list option" where
  "NoneUnfilter m prev inp out width =
     (if out \<noteq> inp then do {
        require (0 \<le> width \<and> (out + width \<le> inp \<or> inp + width \<le> out));
        for_range 0 (nat width) (\<lambda>i m. do { v \<leftarrow> ld m (inp + int i); st m (out + int i) v }) m }
      else Some m)"

definition HorizontalUnfilter :: "u8 list \<Rightarrow> int option \<Rightarrow> int \<Rightarrow> int \<Rightarrow> int \<Rightarrow> u8 list option" where
  "HorizontalUnfilter m prev inp out width = do {
     pred \<leftarrow> (case prev of None \<Rightarrow> Some 0 | Some p \<Rightarrow> ld m p);
     (m, pred) \<leftarrow>
       for_range 0 (nat width)
         (\<lambda>i (m, pred). do {
            x \<leftarrow> ld m (inp + int i);
            m \<leftarrow> st m (out + int i) (word_of_int (uint pred + uint x));
            pred \<leftarrow> ld m (out + int i);
            Some (m, pred) })
         (m, pred);
     Some m }"

definition VerticalUnfilter :: "u8 list \<Rightarrow> int option \<Rightarrow> int \<Rightarrow> int \<Rightarrow> int \<Rightarrow> u8 list option" where
  "VerticalUnfilter m prev inp out width =
     (case prev of
        None \<Rightarrow> HorizontalUnfilter m None inp out width
      | Some p \<Rightarrow>
          for_range 0 (nat width)
            (\<lambda>i m. do {
               a \<leftarrow> ld m (p + int i);
               b \<leftarrow> ld m (inp + int i);
               st m (out + int i) (word_of_int (uint a + uint b)) }) m)"

definition GradientUnfilter :: "u8 list \<Rightarrow> int option \<Rightarrow> int \<Rightarrow> int \<Rightarrow> int \<Rightarrow> u8 list option" where
  "GradientUnfilter m prev inp out width =
     (case prev of
        None \<Rightarrow> HorizontalUnfilter m None inp out width
      | Some p \<Rightarrow> do {
          tp \<leftarrow> ld m p;
          (m, lft, top_left) \<leftarrow>
            for_range 0 (nat width)
              (\<lambda>i (m, lft, top_left). do {
                 tp \<leftarrow> ld m (p + int i);
                 x \<leftarrow> ld m (inp + int i);
                 let lft = (word_of_int (uint x + GradientPredictor lft tp top_left) :: u8);
                 m \<leftarrow> st m (out + int i) lft;
                 Some (m, lft, tp) })
              (m, tp, tp);
          Some m })"

fun WebPUnfilters :: "WEBP_FILTER_TYPE \<Rightarrow> u8 list \<Rightarrow> int option \<Rightarrow> int \<Rightarrow> int \<Rightarrow> int \<Rightarrow> u8 list option" where
  "WebPUnfilters WEBP_FILTER_NONE = NoneUnfilter"
| "WebPUnfilters WEBP_FILTER_HORIZONTAL = HorizontalUnfilter"
| "WebPUnfilters WEBP_FILTER_VERTICAL = VerticalUnfilter"
| "WebPUnfilters WEBP_FILTER_GRADIENT = GradientUnfilter"

text \<open>The table of the encoder; \<open>None\<close> is the \<open>NULL\<close> entry.\<close>

fun WebPFilters :: "WEBP_FILTER_TYPE \<Rightarrow> (u8 list \<Rightarrow> int \<Rightarrow> int \<Rightarrow> int \<Rightarrow> int \<Rightarrow> u8 list \<Rightarrow> int \<Rightarrow> u8 list option) option" where
  "WebPFilters WEBP_FILTER_NONE = None"
| "WebPFilters WEBP_FILTER_HORIZONTAL = Some HorizontalFilter"
| "WebPFilters WEBP_FILTER_VERTICAL = Some VerticalFilter"
| "WebPFilters WEBP_FILTER_GRADIENT = Some GradientFilter"

text \<open>The branch of \<open>ALPHDecode\<close> (src/dec/alpha_dec.c) for planes without compression: \<open>num_rows\<close> rows
  from \<open>deltas\<close> to \<open>dst\<close>; the result holds the new \<open>alpha_prev_line_\<close>.\<close>

definition ALPHDecode_rows :: "WEBP_FILTER_TYPE \<Rightarrow> u8 list \<Rightarrow> int option \<Rightarrow> int \<Rightarrow> int \<Rightarrow> int \<Rightarrow> int \<Rightarrow> (u8 list \<times> int option) option" where
  "ALPHDecode_rows filt m prev_line deltas dst width num_rows = do {
     (m, prev_line, dst, deltas) \<leftarrow>
       for_range 0 (nat num_rows)
         (\<lambda>y (m, prev_line, dst, deltas). do {
            m \<leftarrow> WebPUnfilters filt m prev_line deltas dst width;
            Some (m, Some dst, dst + width, deltas + width) })
         (m, prev_line, dst, deltas);
     Some (m, prev_line) }"

subsection \<open>The choice of a filter\<close>

definition SDIFF :: "int \<Rightarrow> int \<Rightarrow> int" where
  "SDIFF a b = drop_bit 4 \<bar>a - b\<bar>"

text \<open>\<open>bins\<close> is the table of 4 rows of 16 entries, as one list.\<close>

definition bins_pixel :: "u8 list \<Rightarrow> int \<Rightarrow> int \<Rightarrow> int \<Rightarrow> int list \<times> int \<Rightarrow> (int list \<times> int) option" where
  "bins_pixel m p width i = (\<lambda>(bins, mean). do {
     x \<leftarrow> ld m (p + i);
     l \<leftarrow> ld m (p + i - 1);
     t \<leftarrow> ld m (p + i - width);
     tl0 \<leftarrow> ld m (p + i - width - 1);
     let diff0 = SDIFF (uint x) mean;
     let diff1 = SDIFF (uint x) (uint l);
     let diff2 = SDIFF (uint x) (uint t);
     let grad_pred = GradientPredictor l t tl0;
     let diff3 = SDIFF (uint x) grad_pred;
     bins \<leftarrow> st bins (0 * 16 + diff0) 1;
     bins \<leftarrow> st bins (1 * 16 + diff1) 1;
     bins \<leftarrow> st bins (2 * 16 + diff2) 1;
     bins \<leftarrow> st bins (3 * 16 + diff3) 1;
     Some (bins, drop_bit 2 (3 * mean + uint x + 2)) })"

definition estimate_bins :: "u8 list \<Rightarrow> int \<Rightarrow> int \<Rightarrow> int \<Rightarrow> int \<Rightarrow> int list option" where
  "estimate_bins m data width height stride =
     for_range 0 (nat ((height - 2) div 2))
       (\<lambda>j bins. do {
          let p = data + (2 + 2 * int j) * stride;
          v \<leftarrow> ld m p;
          (bins, mean) \<leftarrow> for_range 0 (nat ((width - 2) div 2)) (\<lambda>i. bins_pixel m p width (2 + 2 * int i)) (bins, uint v);
          Some bins })
       (replicate 64 0)"

definition filter_of :: "nat \<Rightarrow> WEBP_FILTER_TYPE" where
  "filter_of n = [WEBP_FILTER_NONE, WEBP_FILTER_HORIZONTAL, WEBP_FILTER_VERTICAL, WEBP_FILTER_GRADIENT] ! n"

definition filter_score :: "int list \<Rightarrow> nat \<Rightarrow> int option" where
  "filter_score bins f =
     for_range 0 16 (\<lambda>i score. do { b \<leftarrow> ld bins (int (f * 16 + i)); Some (if b > 0 then score + int i else score) }) 0"

definition WebPEstimateBestFilter :: "u8 list \<Rightarrow> int \<Rightarrow> int \<Rightarrow> int \<Rightarrow> int \<Rightarrow> WEBP_FILTER_TYPE option" where
  "WebPEstimateBestFilter m data width height stride = do {
     bins \<leftarrow> estimate_bins m data width height stride;
     (best_filter, best_score) \<leftarrow>
       for_range 0 4
         (\<lambda>f (best_filter, best_score). do {
            score \<leftarrow> filter_score bins f;
            Some (if score < best_score then (filter_of f, score) else (best_filter, best_score)) })
         (WEBP_FILTER_NONE, 0x7fffffff);
     Some best_filter }"

subsection \<open>Unfiltering undoes filtering\<close>

text \<open>What the filters subtract from pixel \<open>k\<close> of a plane \<open>P\<close> of rows of \<open>w\<close> pixels.\<close>

definition plane_pred :: "WEBP_FILTER_TYPE \<Rightarrow> nat \<Rightarrow> (nat \<Rightarrow> u8) \<Rightarrow> nat \<Rightarrow> int" where
  "plane_pred f w P k =
     (if k = 0 \<or> f = WEBP_FILTER_NONE then 0
      else if k < w then uint (P (k - 1))
      else if k mod w = 0 then uint (P (k - w))
      else case f of
          WEBP_FILTER_HORIZONTAL \<Rightarrow> uint (P (k - 1))
        | WEBP_FILTER_VERTICAL \<Rightarrow> uint (P (k - w))
        | _ \<Rightarrow> GradientPredictor (P (k - 1)) (P (k - w)) (P (k - w - 1)))"

definition plane_residual :: "WEBP_FILTER_TYPE \<Rightarrow> nat \<Rightarrow> (nat \<Rightarrow> u8) \<Rightarrow> nat \<Rightarrow> u8" where
  "plane_residual f w P k = word_of_int (uint (P k) - plane_pred f w P k)"

definition pixels_at :: "'a list \<Rightarrow> int \<Rightarrow> nat \<Rightarrow> 'a" where
  "pixels_at m p k = m ! nat (p + int k)"

lemma ld_pixels: "inb m p n \<Longrightarrow> k < n \<Longrightarrow> q = p + int k \<Longrightarrow> ld m q = Some (pixels_at m p k)"
  by (simp add: pixels_at_def ld_inb)

lemma inb_le: "inb m p n \<Longrightarrow> k \<le> n \<Longrightarrow> inb m p k"
  by (simp add: inb_def)

lemma PredictLine_blit:
  assumes "inb om out (n + len)" "inb im inp N" "src = inp + int s" "pred = inp + int p" "dst = out + int n"
    "s + len \<le> N" "p + len \<le> N" "len' = int len"
    and res: "\<And>j. j < len \<Longrightarrow> g (n + j) = word_of_int (uint (pixels_at im inp (s + j)) - uint (pixels_at im inp (p + j)))"
  shows "PredictLine im src pred (blit om out n g) dst len' = Some (blit om out (n + len) g)"
proof -
  have "for_range 0 len
      (\<lambda>i om. do { a \<leftarrow> ld im (src + int i); b \<leftarrow> ld im (pred + int i); st om (dst + int i) (word_of_int (uint a - uint b)) })
      (blit om out n g) = Some (blit (blit om out n g) (out + int n) len (\<lambda>j. g (n + j)))"
  proof (rule for_range_blit)
    fix j assume j: "j < len"
    have "ld im (src + int j) = Some (pixels_at im inp (s + j))" "ld im (pred + int j) = Some (pixels_at im inp (p + j))"
      using assms j by (auto intro!: ld_pixels)
    then show "do { a \<leftarrow> ld im (src + int j); b \<leftarrow> ld im (pred + int j);
        st (blit (blit om out n g) (out + int n) j (\<lambda>j. g (n + j))) (dst + int j) (word_of_int (uint a - uint b)) } =
      Some (blit (blit om out n g) (out + int n) (Suc j) (\<lambda>j. g (n + j)))"
      using assms j by (auto intro!: st_blit simp: inb_def)
  qed
  also have "blit (blit om out n g) (out + int n) len (\<lambda>j. g (n + j)) = blit om out (n + len) g"
    using blit_extend[of om out n g len] by (simp add: add.commute)
  finally show ?thesis using assms by (simp add: PredictLine_def)
qed

lemma residual_row:
  assumes "0 < y" "j < w" "f \<noteq> WEBP_FILTER_NONE"
  shows "plane_residual f w P (y * w + j) = word_of_int (uint (P (y * w + j)) -
    (if j = 0 then uint (P ((y - 1) * w + j)) else case f of
        WEBP_FILTER_HORIZONTAL \<Rightarrow> uint (P (y * w + (j - 1)))
      | WEBP_FILTER_VERTICAL \<Rightarrow> uint (P ((y - 1) * w + j))
      | _ \<Rightarrow> GradientPredictor (P (y * w + (j - 1))) (P ((y - 1) * w + j)) (P ((y - 1) * w + (j - 1)))))"
proof -
  obtain r where r: "y = Suc r" using assms(1) by (cases y) auto
  have "(y * w + j) mod w = j" using assms(2) by simp
  moreover have "\<not> y * w + j < w" "y * w + j - w = (y - 1) * w + j" "y * w + j \<noteq> 0" using assms(2) r by auto
  moreover have "0 < j \<Longrightarrow> y * w + j - 1 = y * w + (j - 1)" "0 < j \<Longrightarrow> y * w + j - w - 1 = (y - 1) * w + (j - 1)"
    using r by auto
  ultimately show ?thesis
    using assms(3) unfolding plane_residual_def plane_pred_def by (cases "j = 0") (simp_all only: if_False if_True, auto)
qed

lemma residual_first:
  assumes "j < w" "f \<noteq> WEBP_FILTER_NONE"
  shows "plane_residual f w P j = word_of_int (uint (P j) - (if j = 0 then 0 else uint (P (j - 1))))"
  using assms by (simp add: plane_residual_def plane_pred_def)

lemma row_bound: "y < h \<Longrightarrow> y * w + w \<le> w * (h :: nat)"
  by (metis Suc_leI mult.commute mult_Suc mult_le_mono1 add.commute)

lemma row_less: "0 < h \<Longrightarrow> w - Suc 0 \<le> w * (h :: nat)"
  by (rule le_trans[OF diff_le_self]) simp

lemma first_plane_row:
  assumes "inb om out (w * h)" "inb im inp (w * h)" "0 < w" "0 < h" "f \<noteq> WEBP_FILTER_NONE"
  defines "g \<equiv> plane_residual f w (pixels_at im inp)"
  shows "ld im inp = Some (pixels_at im inp 0)" "st om out (pixels_at im inp 0) = Some (blit om out 1 g)"
    "PredictLine im (inp + 1) inp (blit om out 1 g) (out + 1) (int w - 1) = Some (blit om out w g)"
proof -
  have "0 < w * h" using assms by simp
  then show "ld im inp = Some (pixels_at im inp 0)" using assms by (intro ld_pixels[where n = "w * h"]) auto
  show "st om out (pixels_at im inp 0) = Some (blit om out 1 g)"
    using st_blit[of om out "w * h" 0 "pixels_at im inp 0" g] assms \<open>0 < w * h\<close>
    by (simp add: plane_residual_def plane_pred_def)
  have "PredictLine im (inp + 1) inp (blit om out 1 g) (out + 1) (int w - 1) = Some (blit om out (1 + (w - 1)) g)"
    using assms by (intro PredictLine_blit[where s = 1 and p = 0 and N = "w * h" and inp = inp] inb_le[OF assms(1)])
      (auto simp: residual_first row_less)
  then show "PredictLine im (inp + 1) inp (blit om out 1 g) (out + 1) (int w - 1) = Some (blit om out w g)"
    using assms by simp
qed


lemma left_column:
  assumes "inb om out (w * h)" "inb im inp (w * h)" "0 < w" "1 \<le> y" "y < h" "f \<noteq> WEBP_FILTER_NONE"
  defines "g \<equiv> plane_residual f w (pixels_at im inp)"
  shows "PredictLine im (inp + int (y * w)) (inp + int (y * w) - int w) (blit om out (y * w) g) (out + int (y * w)) 1 =
    Some (blit om out (y * w + 1) g)"
proof (rule PredictLine_blit[where N = "w * h" and inp = inp and s = "y * w" and p = "(y - 1) * w"])
  show "g (y * w + j) = word_of_int (uint (pixels_at im inp (y * w + j)) - uint (pixels_at im inp ((y - 1) * w + j)))"
    if "j < 1" for j using that assms unfolding g_def by (subst residual_row) auto
  have "y - 1 < h" using assms by simp
  note row = row_bound[OF assms(5), of w] row_bound[OF this, of w]
  show "inp + int (y * w) - int w = inp + int ((y - 1) * w)" using assms(4) by (cases y) auto
  show "inb om out (y * w + 1)" by (rule inb_le[OF assms(1)]) (use row assms in linarith)
  show "y * w + 1 \<le> w * h" "(y - 1) * w + 1 \<le> w * h" using row assms by linarith+
qed (use assms in simp_all)

lemma HorizontalFilter_blit:
  assumes "inb om out (w * h)" "inb im inp (w * h)" "0 < w" "0 < h"
  shows "DoHorizontalFilter im inp (int w) (int h) (int w) om out =
    Some (blit om out (w * h) (plane_residual WEBP_FILTER_HORIZONTAL w (pixels_at im inp)))"
proof -
  define g where "g = plane_residual WEBP_FILTER_HORIZONTAL w (pixels_at im inp)"
  define body where "body = (\<lambda>(row :: nat) (preds, inp, out, om). do {
    om \<leftarrow> PredictLine im inp (preds - int w) om out 1;
    om \<leftarrow> PredictLine im (inp + 1) preds om (out + 1) (int w - 1);
    Some (preds + int w, inp + int w, out + int w, om) })"
  define at where "at = (\<lambda>y. (inp + int (y * w), inp + int (y * w), out + int (y * w), blit om out (y * w) g))"
  have step: "body y (at y) = Some (at (Suc y))" if "1 \<le> y" "y < h" for y
  proof -
    note row = row_bound[OF that(2), of w]
    note left_column[OF assms(1-3) that, of WEBP_FILTER_HORIZONTAL, folded g_def, simplified]
    moreover have "PredictLine im (inp + int (y * w) + 1) (inp + int (y * w)) (blit om out (y * w + 1) g)
        (out + int (y * w) + 1) (int w - 1) = Some (blit om out (y * w + 1 + (w - 1)) g)"
    proof (rule PredictLine_blit[where N = "w * h" and inp = inp and s = "y * w + 1" and p = "y * w"])
      show "g (y * w + 1 + j) = word_of_int (uint (pixels_at im inp (y * w + 1 + j)) - uint (pixels_at im inp (y * w + j)))"
        if "j < w - 1" for j using that \<open>1 \<le> y\<close> residual_row[of y "Suc j" w WEBP_FILTER_HORIZONTAL] unfolding g_def by simp
    qed (use row that assms in \<open>auto intro: inb_le[OF assms(1)]\<close>)
    ultimately show ?thesis using assms by (simp add: body_def at_def algebra_simps)
  qed
  have "\<exists>t. for_range 1 h body (at 1) = Some t \<and> t = at h"
    using assms step by (intro for_range_inv[where I = "\<lambda>y t. t = at y"]) auto
  then show ?thesis
    using assms first_plane_row[OF assms(1-4), of WEBP_FILTER_HORIZONTAL]
    unfolding DoHorizontalFilter_def body_def[symmetric] Let_def
    by (simp add: at_def mult.commute[of h] flip: g_def)
qed


lemma VerticalFilter_blit:
  assumes "inb om out (w * h)" "inb im inp (w * h)" "0 < w" "0 < h"
  shows "DoVerticalFilter im inp (int w) (int h) (int w) om out =
    Some (blit om out (w * h) (plane_residual WEBP_FILTER_VERTICAL w (pixels_at im inp)))"
proof -
  define g where "g = plane_residual WEBP_FILTER_VERTICAL w (pixels_at im inp)"
  define body where "body = (\<lambda>(row :: nat) (preds, inp, out, om). do {
    om \<leftarrow> PredictLine im inp preds om out (int w);
    Some (preds + int w, inp + int w, out + int w, om) })"
  define at where "at = (\<lambda>y. (inp + int ((y - 1) * w), inp + int (y * w), out + int (y * w), blit om out (y * w) g))"
  have step: "body y (at y) = Some (at (Suc y))" if "1 \<le> y" "y < h" for y
  proof -
    have "y - 1 < h" using that by simp
    note row = row_bound[OF that(2), of w] row_bound[OF this, of w]
    have "PredictLine im (inp + int (y * w)) (inp + int ((y - 1) * w)) (blit om out (y * w) g)
        (out + int (y * w)) (int w) = Some (blit om out (y * w + w) g)"
    proof (rule PredictLine_blit[where N = "w * h" and inp = inp and s = "y * w" and p = "(y - 1) * w"])
      show "g (y * w + j) = word_of_int (uint (pixels_at im inp (y * w + j)) - uint (pixels_at im inp ((y - 1) * w + j)))"
        if "j < w" for j using that \<open>1 \<le> y\<close> residual_row[of y j w WEBP_FILTER_VERTICAL] unfolding g_def by simp
    qed (use row that assms in \<open>auto intro: inb_le[OF assms(1)]\<close>)
    moreover have "int (y * w) = int ((y - 1) * w) + int w" using that(1) by (cases y) auto
    ultimately show ?thesis using assms by (simp add: body_def at_def algebra_simps)
  qed
  have "\<exists>t. for_range 1 h body (at 1) = Some t \<and> t = at h"
    using assms step by (intro for_range_inv[where I = "\<lambda>y t. t = at y"]) auto
  then show ?thesis
    using assms first_plane_row[OF assms(1-4), of WEBP_FILTER_VERTICAL]
    unfolding DoVerticalFilter_def body_def[symmetric] Let_def
    by (simp add: at_def mult.commute[of h] flip: g_def)
qed

lemma GradientFilter_blit:
  assumes "inb om out (w * h)" "inb im inp (w * h)" "0 < w" "0 < h"
  shows "DoGradientFilter im inp (int w) (int h) (int w) om out =
    Some (blit om out (w * h) (plane_residual WEBP_FILTER_GRADIENT w (pixels_at im inp)))"
proof -
  define g where "g = plane_residual WEBP_FILTER_GRADIENT w (pixels_at im inp)"
  define px :: "int \<Rightarrow> int \<Rightarrow> int \<Rightarrow> nat \<Rightarrow> u8 list \<Rightarrow> u8 list option" where "px = (\<lambda>preds inp out (i :: nat) om. do {
    l \<leftarrow> ld im (preds + int i - 1);
    t \<leftarrow> ld im (preds + int i - int w);
    tl0 \<leftarrow> ld im (preds + int i - int w - 1);
    x \<leftarrow> ld im (inp + int i);
    st om (out + int i) (word_of_int (uint x - GradientPredictor l t tl0)) })"
  define body where "body = (\<lambda>(row :: nat) (preds, inp, out, om). do {
    om \<leftarrow> PredictLine im inp (preds - int w) om out 1;
    om \<leftarrow> for_range 1 w (px preds inp out) om;
    Some (preds + int w, inp + int w, out + int w, om) })"
  define at where "at = (\<lambda>y. (inp + int (y * w), inp + int (y * w), out + int (y * w), blit om out (y * w) g))"
  have step: "body y (at y) = Some (at (Suc y))" if "1 \<le> y" "y < h" for y
  proof -
    have "y - 1 < h" using that by simp
    note row = row_bound[OF that(2), of w] row_bound[OF this, of w]
    have up: "int (y * w) = int ((y - 1) * w) + int w" using that(1) by (cases y) auto
    note left = left_column[OF assms(1-3) that, of WEBP_FILTER_GRADIENT, folded g_def, simplified]
    have "\<exists>t. for_range 1 w (px (inp + int (y * w)) (inp + int (y * w)) (out + int (y * w))) (blit om out (y * w + 1) g) = Some t
        \<and> t = blit om out (y * w + w) g"
    proof (rule for_range_inv[where I = "\<lambda>i t. t = blit om out (y * w + i) g"])
      fix i t assume i: "1 \<le> i" "i < w" "t = blit om out (y * w + i) g"
      have "ld im (inp + int (y * w) + int i - 1) = Some (pixels_at im inp (y * w + (i - 1)))"
        "ld im (inp + int (y * w) + int i - int w) = Some (pixels_at im inp ((y - 1) * w + i))"
        "ld im (inp + int (y * w) + int i - int w - 1) = Some (pixels_at im inp ((y - 1) * w + (i - 1)))"
        "ld im (inp + int (y * w) + int i) = Some (pixels_at im inp (y * w + i))"
        using row i up by (auto intro!: ld_pixels[OF assms(2)] simp: of_nat_diff)
      moreover have "st (blit om out (y * w + i) g) (out + int (y * w + i)) (g (y * w + i)) = Some (blit om out (Suc (y * w + i)) g)"
        using row i by (intro st_blit[OF assms(1)]) auto
      ultimately show "\<exists>t'. px (inp + int (y * w)) (inp + int (y * w)) (out + int (y * w)) i t = Some t' \<and> t' = blit om out (y * w + Suc i) g"
        using residual_row[of y i w WEBP_FILTER_GRADIENT "pixels_at im inp"] i that by (simp add: px_def g_def add.assoc)
    qed (use assms in auto)
    with left show ?thesis using assms by (simp add: body_def at_def algebra_simps)
  qed
  have "\<exists>t. for_range 1 h body (at 1) = Some t \<and> t = at h"
    using assms step by (intro for_range_inv[where I = "\<lambda>y t. t = at y"]) auto
  then show ?thesis
    using assms first_plane_row[OF assms(1-4), of WEBP_FILTER_GRADIENT]
    unfolding DoGradientFilter_def px_def[symmetric] body_def[symmetric] Let_def
    by (simp add: at_def px_def body_def mult.commute[of h] flip: g_def)
qed


subsection \<open>Unfiltering a row\<close>

definition unfilter_ready :: "WEBP_FILTER_TYPE \<Rightarrow> nat \<Rightarrow> nat \<Rightarrow> (nat \<Rightarrow> u8) \<Rightarrow> u8 list \<Rightarrow> int \<Rightarrow> int \<Rightarrow> bool" where
  "unfilter_ready f w h P m deltas dst \<longleftrightarrow>
     f \<noteq> WEBP_FILTER_NONE \<and> 0 < w \<and> inb m deltas (w * h) \<and> inb m dst (w * h) \<and>
     (dst \<le> deltas \<or> deltas + int (w * h) \<le> dst) \<and>
     (\<forall>k < w * h. pixels_at m deltas k = plane_residual f w P k)"

lemma and_not_mask_0: "g AND NOT 0xff = 0 \<longleftrightarrow> 0 \<le> g \<and> g < 256" for g :: int
proof -
  have "g AND NOT 0xff = 0 \<longleftrightarrow> take_bit 8 g = g"
    using mask_eq_exp_minus_1[of 8, where 'a = int] bit_mask_iff[of 8, where 'a = int]
    by (auto simp: bit_eq_iff bit_simps)
  then show ?thesis by (simp add: take_bit_int_eq_self_iff)
qed

lemma GradientPredictor_clamp: "GradientPredictor a b c = clamp255 (uint a + uint b - uint c)"
  by (auto simp: GradientPredictor_def Let_def and_not_mask_0[simplified] clamp255_def)

lemma unfilter_reads:
  assumes "unfilter_ready f w h P m deltas dst" "n \<le> w * h"
  shows "n \<le> k \<Longrightarrow> k < w * h \<Longrightarrow> q = deltas + int k \<Longrightarrow> ld (blit m dst n P) q = Some (plane_residual f w P k)"
    "k < n \<Longrightarrow> q = dst + int k \<Longrightarrow> ld (blit m dst n P) q = Some (P k)"
    "n < w * h \<Longrightarrow> q = dst + int n \<Longrightarrow> v = P n \<Longrightarrow> st (blit m dst n P) q v = Some (blit m dst (Suc n) P)"
proof -
  note r = assms[unfolded unfilter_ready_def]
  show "ld (blit m dst n P) q = Some (plane_residual f w P k)" if "n \<le> k" "k < w * h" "q = deltas + int k"
    using r that by (subst ld_blit_out) (auto simp: ld_pixels simp del: of_nat_mult)
  show "ld (blit m dst n P) q = Some (P k)" if "k < n" "q = dst + int k"
    using r that by (subst ld_blit_in) (auto intro: inb_le)
  show "st (blit m dst n P) q v = Some (blit m dst (Suc n) P)" if "n < w * h" "q = dst + int n" "v = P n"
    using r that by (auto intro: st_blit)
qed

lemma word_of_int_pred: "word_of_int (p + uint (word_of_int (uint x - p) :: u8)) = x" for x :: u8
  by simp

lemma add_residual:
  "word_of_int (plane_pred f w P k + uint (plane_residual f w P k)) = P k"
  "word_of_int (uint (plane_residual f w P k) + plane_pred f w P k) = P k"
  using word_of_int_pred[of "plane_pred f w P k" "P k"] by (simp_all add: plane_residual_def add.commute)

lemma plane_pred_row:
  assumes "j < w" "f \<noteq> WEBP_FILTER_NONE"
  shows "plane_pred f w P (y * w + j) =
    (if j = 0 then (if y = 0 then 0 else uint (P ((y - 1) * w)))
     else if y = 0 then uint (P (j - 1))
     else case f of
        WEBP_FILTER_HORIZONTAL \<Rightarrow> uint (P (y * w + (j - 1)))
      | WEBP_FILTER_VERTICAL \<Rightarrow> uint (P ((y - 1) * w + j))
      | _ \<Rightarrow> GradientPredictor (P (y * w + (j - 1))) (P ((y - 1) * w + j)) (P ((y - 1) * w + (j - 1))))"
proof (cases y)
  case 0
  then show ?thesis using assms by (simp add: plane_pred_def)
next
  case (Suc r)
  have "(y * w + j) mod w = j" using assms by simp
  moreover have "\<not> y * w + j < w" "y * w + j - w = (y - 1) * w + j" "y * w + j \<noteq> 0" using assms Suc by auto
  moreover have "0 < j \<Longrightarrow> y * w + j - 1 = y * w + (j - 1)" "0 < j \<Longrightarrow> y * w + j - w - 1 = (y - 1) * w + (j - 1)"
    using Suc by auto
  ultimately show ?thesis
    using assms Suc unfolding plane_pred_def by (cases "j = 0") (simp_all only: if_False if_True, auto)
qed

lemma HorizontalUnfilter_row:
  assumes "unfilter_ready f w h P m deltas dst" "y < h" "f = WEBP_FILTER_HORIZONTAL \<or> y = 0"
  shows "HorizontalUnfilter (blit m dst (y * w) P) (if y = 0 then None else Some (dst + int ((y - 1) * w)))
    (deltas + int (y * w)) (dst + int (y * w)) (int w) = Some (blit m dst (y * w + w) P)"
proof -
  have fw: "f \<noteq> WEBP_FILTER_NONE" "0 < w" using assms(1) by (auto simp: unfilter_ready_def)
  note row = row_bound[OF assms(2), of w]
  define p where "p = (\<lambda>i. word_of_int (plane_pred f w P (y * w + i)) :: u8)"
  have nxt: "p (Suc i) = P (y * w + i)" if "Suc i < w" for i
    using assms(3) plane_pred_row[OF that fw(1), of P y] by (auto simp: p_def)
  have "y - 1 < h" using assms(2) by simp
  note prev_row = row_bound[OF this, of w]
  have init: "(case (if y = 0 then None else Some (dst + int ((y - 1) * w))) of None \<Rightarrow> Some 0 | Some q \<Rightarrow> ld (blit m dst (y * w) P) q)
      = Some (p 0)"
    using fw row assms(2) by (auto simp: p_def plane_pred_row[where j = 0, simplified] intro!: unfilter_reads(2)[OF assms(1)])
  let ?q = "\<lambda>i. if i < w then p i else P (y * w + (w - 1))"
  have "\<exists>t. for_range 0 w (\<lambda>i (m, pred). do {
        x \<leftarrow> ld m (deltas + int (y * w) + int i);
        m \<leftarrow> st m (dst + int (y * w) + int i) (word_of_int (uint pred + uint x));
        pred \<leftarrow> ld m (dst + int (y * w) + int i);
        Some (m, pred) }) (blit m dst (y * w) P, p 0) = Some t \<and> t = (blit m dst (y * w + w) P, ?q w)"
  proof (rule for_range_inv[where I = "\<lambda>i t. t = (blit m dst (y * w + i) P, ?q i)"])
    fix i t assume i: "i < w" "t = (blit m dst (y * w + i) P, ?q i)"
    have "ld (blit m dst (y * w + i) P) (deltas + int (y * w) + int i) = Some (plane_residual f w P (y * w + i))"
      "st (blit m dst (y * w + i) P) (dst + int (y * w) + int i) (P (y * w + i)) = Some (blit m dst (Suc (y * w + i)) P)"
      "ld (blit m dst (Suc (y * w + i)) P) (dst + int (y * w) + int i) = Some (P (y * w + i))"
      using row i by (auto intro!: unfilter_reads[OF assms(1)])
    moreover have "?q (Suc i) = P (y * w + i)"
    proof (cases "Suc i < w")
      case False
      then have "w = Suc i" using i(1) by simp
      then show ?thesis by simp
    qed (simp add: nxt)
    ultimately show "\<exists>t'. (case t of (m, pred) \<Rightarrow> do {
        x \<leftarrow> ld m (deltas + int (y * w) + int i);
        m \<leftarrow> st m (dst + int (y * w) + int i) (word_of_int (uint pred + uint x));
        pred \<leftarrow> ld m (dst + int (y * w) + int i);
        Some (m, pred) }) = Some t' \<and> t' = (blit m dst (y * w + Suc i) P, ?q (Suc i))"
      using i add_residual(1)[of f w P "y * w + i"] by (simp add: p_def)
  qed (use fw in auto)
  then show ?thesis unfolding HorizontalUnfilter_def init by simp
qed


lemma VerticalUnfilter_row:
  assumes "unfilter_ready WEBP_FILTER_VERTICAL w h P m deltas dst" "y < h"
  shows "VerticalUnfilter (blit m dst (y * w) P) (if y = 0 then None else Some (dst + int ((y - 1) * w)))
    (deltas + int (y * w)) (dst + int (y * w)) (int w) = Some (blit m dst (y * w + w) P)"
proof (cases "y = 0")
  case True
  then show ?thesis
    using HorizontalUnfilter_row[OF assms] by (simp add: VerticalUnfilter_def)
next
  case False
  note row = row_bound[OF assms(2), of w]
  have up: "y * w = (y - 1) * w + w" using False by (cases y) auto
  let ?body = "\<lambda>i m. do {
      a \<leftarrow> ld m (dst + int ((y - 1) * w) + int i);
      b \<leftarrow> ld m (deltas + int (y * w) + int i);
      st m (dst + int (y * w) + int i) (word_of_int (uint a + uint b)) }"
  have "\<exists>t. for_range 0 w ?body (blit m dst (y * w) P) = Some t \<and> t = blit m dst (y * w + w) P"
  proof (rule for_range_inv[where I = "\<lambda>i t. t = blit m dst (y * w + i) P"])
    fix i t assume i: "i < w" "t = blit m dst (y * w + i) P"
    have "ld (blit m dst (y * w + i) P) (dst + int ((y - 1) * w) + int i) = Some (P ((y - 1) * w + i))"
      "ld (blit m dst (y * w + i) P) (deltas + int (y * w) + int i) = Some (plane_residual WEBP_FILTER_VERTICAL w P (y * w + i))"
      "st (blit m dst (y * w + i) P) (dst + int (y * w) + int i) (P (y * w + i)) = Some (blit m dst (Suc (y * w + i)) P)"
      using row i up by (auto intro!: unfilter_reads[OF assms(1)])
    then show "\<exists>t'. ?body i t = Some t' \<and> t' = blit m dst (y * w + Suc i) P"
      using i False add_residual(1)[of WEBP_FILTER_VERTICAL w P "y * w + i"]
      by (simp add: plane_pred_row split: if_splits)
  qed simp_all
  then show ?thesis using False by (simp add: VerticalUnfilter_def)
qed

lemma GradientUnfilter_row:
  assumes "unfilter_ready WEBP_FILTER_GRADIENT w h P m deltas dst" "y < h"
  shows "GradientUnfilter (blit m dst (y * w) P) (if y = 0 then None else Some (dst + int ((y - 1) * w)))
    (deltas + int (y * w)) (dst + int (y * w)) (int w) = Some (blit m dst (y * w + w) P)"
proof (cases "y = 0")
  case True
  then show ?thesis
    using HorizontalUnfilter_row[OF assms] by (simp add: GradientUnfilter_def)
next
  case False
  have w: "0 < w" using assms(1) by (simp add: unfilter_ready_def)
  note row = row_bound[OF assms(2), of w]
  have up: "y * w = (y - 1) * w + w" using False by (cases y) auto
  let ?body = "\<lambda>i (m, lft, top_left). do {
      tp \<leftarrow> ld m (dst + int ((y - 1) * w) + int i);
      x \<leftarrow> ld m (deltas + int (y * w) + int i);
      let lft = (word_of_int (uint x + GradientPredictor lft tp top_left) :: u8);
      m \<leftarrow> st m (dst + int (y * w) + int i) lft;
      Some (m, lft, tp) }"
  let ?at = "\<lambda>i. (blit m dst (y * w + i) P, if i = 0 then P ((y - 1) * w) else P (y * w + (i - 1)), P ((y - 1) * w + (i - 1)))"
  have same: "GradientPredictor l t t = uint l" for l t
    using uint_bound(1)[of l] by (simp add: GradientPredictor_clamp clamp255_def)
  have "\<exists>t. for_range 0 w ?body (?at 0) = Some t \<and> t = ?at w"
  proof (rule for_range_inv[where I = "\<lambda>i t. t = ?at i"])
    fix i t assume i: "i < w" "t = ?at i"
    have "ld (blit m dst (y * w + i) P) (dst + int ((y - 1) * w) + int i) = Some (P ((y - 1) * w + i))"
      "ld (blit m dst (y * w + i) P) (deltas + int (y * w) + int i) = Some (plane_residual WEBP_FILTER_GRADIENT w P (y * w + i))"
      "st (blit m dst (y * w + i) P) (dst + int (y * w) + int i) (P (y * w + i)) = Some (blit m dst (Suc (y * w + i)) P)"
      using row i up by (auto intro!: unfilter_reads[OF assms(1)])
    then show "\<exists>t'. ?body i t = Some t' \<and> t' = ?at (Suc i)"
      using i False add_residual(2)[of WEBP_FILTER_GRADIENT w P "y * w + i"]
      by (simp add: plane_pred_row same split: if_splits)
  qed simp_all
  moreover have "ld (blit m dst (y * w) P) (dst + int ((y - 1) * w)) = Some (P ((y - 1) * w))"
    using row w up by (intro unfilter_reads(2)[OF assms(1)]) auto
  ultimately show ?thesis using False by (simp add: GradientUnfilter_def)
qed

lemma WebPUnfilters_row:
  assumes "unfilter_ready f w h P m deltas dst" "y < h"
  shows "WebPUnfilters f (blit m dst (y * w) P) (if y = 0 then None else Some (dst + int ((y - 1) * w)))
    (deltas + int (y * w)) (dst + int (y * w)) (int w) = Some (blit m dst (y * w + w) P)"
  using assms HorizontalUnfilter_row[OF assms] VerticalUnfilter_row[of w h P m deltas dst y] GradientUnfilter_row[of w h P m deltas dst y]
  by (cases f) (auto simp: unfilter_ready_def)

lemma ALPHDecode_rows_blit:
  assumes "unfilter_ready f w h P m deltas dst" "0 < h"
  shows "ALPHDecode_rows f m None deltas dst (int w) (int h) = Some (blit m dst (w * h) P, Some (dst + int ((h - 1) * w)))"
proof -
  let ?at = "\<lambda>y. (blit m dst (y * w) P, if y = 0 then None else Some (dst + int ((y - 1) * w)), dst + int (y * w), deltas + int (y * w))"
  have "\<exists>t. for_range 0 h (\<lambda>y (m, prev_line, dst, deltas). do {
      m \<leftarrow> WebPUnfilters f m prev_line deltas dst (int w);
      Some (m, Some dst, dst + int w, deltas + int w) }) (?at 0) = Some t \<and> t = ?at h"
  proof (rule for_range_inv[where I = "\<lambda>y t. t = ?at y"])
    fix y t assume y: "y < h" "t = ?at y"
    show "\<exists>t'. (case t of (m, prev_line, dst, deltas) \<Rightarrow> do {
      m \<leftarrow> WebPUnfilters f m prev_line deltas dst (int w);
      Some (m, Some dst, dst + int w, deltas + int w) }) = Some t' \<and> t' = ?at (Suc y)"
      using y(2) WebPUnfilters_row[OF assms(1) y(1)] by (simp add: algebra_simps)
  qed simp_all
  then show ?thesis using assms(2) by (simp add: ALPHDecode_rows_def mult.commute[of h])
qed

lemma WebPFilters_blit:
  assumes "WebPFilters f = Some F" "inb om out (w * h)" "inb im inp (w * h)" "0 < w" "0 < h"
  shows "F im inp (int w) (int h) (int w) om out = Some (blit om out (w * h) (plane_residual f w (pixels_at im inp)))"
  using assms HorizontalFilter_blit[OF assms(2-5)] VerticalFilter_blit[OF assms(2-5)] GradientFilter_blit[OF assms(2-5)]
  by (cases f) (auto simp: HorizontalFilter_def VerticalFilter_def GradientFilter_def)

text \<open>C16. Unfiltering undoes filtering: if a plane of \<open>w * h\<close> bytes is filtered by the horizontal, vertical or
  gradient filter of the encoder and the result is given to the row loop of the alpha decoder, the
  decoder writes exactly the bytes of the plane, stays inside its memory, and leaves the last row as the
  previous line. The output may lie before the filtered data, overlap it from below or replace it in place.\<close>

theorem alpha_filter_roundtrip:
  assumes "WebPFilters f = Some F" "inb om out (w * h)" "inb im inp (w * h)" "0 < w" "0 < h"
    and "F im inp (int w) (int h) (int w) om out = Some om'"
    and "inb m deltas (w * h)" "inb m dst (w * h)" "dst \<le> deltas \<or> deltas + int (w * h) \<le> dst"
    and "\<forall>k < w * h. pixels_at m deltas k = pixels_at om' out k"
  shows "ALPHDecode_rows f m None deltas dst (int w) (int h) =
    Some (blit m dst (w * h) (pixels_at im inp), Some (dst + int ((h - 1) * w)))"
proof -
  have "pixels_at om' out k = plane_residual f w (pixels_at im inp) k" if "k < w * h" for k
    using WebPFilters_blit[OF assms(1-5)] assms(2,6) that ld_blit_in[OF assms(2), of "out + int k"]
    by (auto simp: pixels_at_def blit_nth inb_def simp del: of_nat_mult)
  with assms have "unfilter_ready f w h (pixels_at im inp) m deltas dst"
    by (auto simp: unfilter_ready_def)
  then show ?thesis by (rule ALPHDecode_rows_blit[OF _ assms(5)])
qed


lemma alpha_filter_roundtrip_witness:
  "ALPHDecode_rows WEBP_FILTER_GRADIENT [0, 10, 10, 246, 10, 11, 253, 0, 0, 0, 0, 0, 0] None 1 7 3 2 =
    Some ([0, 10, 10, 246, 10, 11, 253, 10, 20, 10, 20, 41, 28], Some 10)"
proof -
  let ?im = "[10, 20, 10, 20, 41, 28] :: u8 list" and ?om = "[0, 0, 0, 0, 0, 0] :: u8 list"
  let ?m = "[0, 10, 10, 246, 10, 11, 253, 0, 0, 0, 0, 0, 0] :: u8 list"
  have eq: "GradientFilter ?im 0 (int 3) (int 2) (int 3) ?om 0 = Some [10, 10, 246, 10, 11, 253]"
    by (simp add: GradientFilter_def DoGradientFilter_def PredictLine_def exec_simps ld_def st_def
        GradientPredictor_clamp clamp255_def)
  have "pixels_at ?m 1 k = pixels_at [10, 10, 246, 10, 11, 253] 0 k" if "k < 6" for k
    using that by (auto simp: pixels_at_def nth_Cons' split: if_splits)
  then have "ALPHDecode_rows WEBP_FILTER_GRADIENT ?m None 1 7 (int 3) (int 2) =
      Some (blit ?m 7 (3 * 2) (pixels_at ?im 0), Some (7 + int ((2 - 1) * 3)))"
    using eq by (intro alpha_filter_roundtrip[where F = GradientFilter and om = ?om and out = 0]) (auto simp: inb_def)
  then show ?thesis by (simp add: blit_def pixels_at_def upt_rec)
qed

lemma SDIFF_bin:
  assumes "0 \<le> a" "a < 256" "0 \<le> b" "b < 256"
  shows "0 \<le> SDIFF a b" "SDIFF a b < 16"
  using assms by (auto simp: SDIFF_def drop_bit_eq_div)

lemma running_mean:
  "0 \<le> m \<Longrightarrow> m < 256 \<Longrightarrow> x < 256 \<Longrightarrow> 0 \<le> x \<Longrightarrow> 0 \<le> (3 * m + x + 2) div 4 \<and> (3 * m + x + 2) div 4 < 256"
  for m x :: int
  by presburger

lemma bins_pixel_ok:
  assumes reads: "\<And>q. lo \<le> q \<Longrightarrow> q < hi \<Longrightarrow> \<exists>v. ld m q = Some v"
    and "lo \<le> p + i - w - 1" "p + i < hi" "0 \<le> w" "length bins = 64" "0 \<le> mean" "mean < 256"
  shows "\<exists>bins' mean'. bins_pixel m p w i (bins, mean) = Some (bins', mean') \<and> length bins' = 64 \<and> 0 \<le> mean' \<and> mean' < 256"
proof -
  have "\<exists>v. ld m (p + i) = Some v" "\<exists>v. ld m (p + i - 1) = Some v"
    "\<exists>v. ld m (p + i - w) = Some v" "\<exists>v. ld m (p + i - w - 1) = Some v"
    by (rule reads; use assms in linarith)+
  then obtain x l u ul where rds: "ld m (p + i) = Some x" "ld m (p + i - 1) = Some l"
    "ld m (p + i - w) = Some u" "ld m (p + i - w - 1) = Some ul" by blast
  have d: "0 \<le> SDIFF (uint x) b" "SDIFF (uint x) b < 16" if "0 \<le> b" "b < 256" for b
    using that uint_bound(1)[of x] by (auto intro: SDIFF_bin)
  have st_bin: "st b (k * 16 + SDIFF (uint x) c) 1 = Some (b[nat (k * 16 + SDIFF (uint x) c) := 1])"
    if "length b = 64" "0 \<le> c" "c < 256" "0 \<le> k" "k < 4" for b :: "int list" and k c
    using that d[of c] by (simp add: st_def)
  have bytes: "uint l < 256" "uint u < 256" "uint ul < 256" "uint x < 256" using uint_bound(1) by auto
  show ?thesis
    unfolding bins_pixel_def using rds assms(5-7) bytes
    by (simp add: st_bin GradientPredictor_clamp Let_def drop_bit_eq_div st_bin[where k = 0, simplified] st_bin[where k = 1, simplified]
        st_bin[where k = 2, simplified] st_bin[where k = 3, simplified] running_mean)
qed

lemma estimate_bins_ok:
  assumes "0 < w" "0 < h" "w \<le> s" "inb m data (s * (h - 1) + w)"
  shows "\<exists>bins. estimate_bins m data (int w) (int h) (int s) = Some bins \<and> length bins = 64"
  unfolding estimate_bins_def
proof (rule for_range_inv[where I = "\<lambda>_ bins. length bins = 64"], goal_cases)
  case (3 j bins)
  define p where "p = data + (2 + 2 * int j) * int s"
  have "(3 + 2 * int j) * int s \<le> (int h - 1) * int s" using 3(2) by (intro mult_right_mono) auto
  then have p: "data + 2 * int s \<le> p" "p + int s \<le> data + (int h - 1) * int s"
    by (auto simp: p_def algebra_simps)
  have lim: "0 \<le> data" "data + int s * (int h - 1) + int w \<le> int (length m)"
    using assms(2,4) by (auto simp: inb_def of_nat_diff)
  have rd: "\<exists>v. ld m q = Some v" if "data \<le> q" "q < p + int w" for q
    using that p lim by (simp add: ld_def mult.commute)
  have "\<exists>t. for_range 0 (nat ((int w - 2) div 2)) (\<lambda>i. bins_pixel m p (int w) (2 + 2 * int i)) (bins, uint v) = Some t
      \<and> length (fst t) = 64 \<and> 0 \<le> snd t \<and> snd t < 256" for v :: u8
  proof (rule for_range_inv[where I = "\<lambda>_ t. length (fst t) = 64 \<and> 0 \<le> snd t \<and> snd t < 256"], goal_cases)
    case (3 i t)
    have "data \<le> p + (2 + 2 * int i) - int w - 1" "p + (2 + 2 * int i) < p + int w"
      using 3(2) p assms(3) by linarith+
    with 3(3) bins_pixel_ok[OF rd, where p = p and i = "2 + 2 * int i" and w = "int w" and bins = "fst t" and mean = "snd t"] show ?case by auto
  qed (use 3(3) uint_bound(1)[of v] in auto)
  then have row: "\<exists>bins' mean'. for_range 0 (nat ((int w - 2) div 2)) (\<lambda>i. bins_pixel m p (int w) (2 + 2 * int i)) (bins, uint v) =
      Some (bins', mean') \<and> length bins' = 64" for v :: u8 by fastforce
  obtain v where v: "ld m p = Some v" using rd[of p] p assms(1) by auto
  with row[of v] show ?case by (auto simp: p_def[symmetric])
qed simp_all

lemma filter_score_ok:
  assumes "length bins = 64" "f < 4"
  shows "\<exists>s. filter_score bins f = Some s \<and> 0 \<le> s \<and> s \<le> 16 * 16"
proof -
  have "\<exists>s. filter_score bins f = Some s \<and> 0 \<le> s \<and> s \<le> 16 * int 16"
    unfolding filter_score_def
    by (rule for_range_inv[where I = "\<lambda>i s. 0 \<le> s \<and> s \<le> 16 * int i"]) (use assms in \<open>auto simp: ld_def\<close>)
  then show ?thesis by simp
qed

text \<open>C17. The filter estimate reads only inside the plane, for every stride of at least the width, never
  indexes its table out of range, and returns a filter of the smallest score.\<close>

theorem WebPEstimateBestFilter_ok:
  assumes "0 < w" "0 < h" "w \<le> s" "inb m data (s * (h - 1) + w)"
  shows "\<exists>bins n. estimate_bins m data (int w) (int h) (int s) = Some bins \<and>
    WebPEstimateBestFilter m data (int w) (int h) (int s) = Some (filter_of n) \<and> n < 4 \<and>
    (\<forall>k < 4. \<exists>a b. filter_score bins n = Some a \<and> filter_score bins k = Some b \<and> a \<le> b)"
proof -
  obtain bins where bins: "estimate_bins m data (int w) (int h) (int s) = Some bins" "length bins = 64"
    using estimate_bins_ok[OF assms] by blast
  define sc where "sc k = the (filter_score bins k)" for k
  have sc: "filter_score bins k = Some (sc k)" "sc k < 0x7fffffff" if "k < 4" for k
    using filter_score_ok[OF bins(2) that] by (auto simp: sc_def)
  let ?body = "\<lambda>f best_filter best_score. do {
      score \<leftarrow> filter_score bins f;
      Some (if score < best_score then (filter_of f, score) else (best_filter, best_score)) }"
  define I where "I = (\<lambda>i t. (i = 0 \<longrightarrow> t = (WEBP_FILTER_NONE, 0x7fffffff)) \<and>
    (0 < i \<longrightarrow> (\<exists>n < 4. t = (filter_of n, sc n))) \<and> (\<forall>k < i. snd t \<le> sc k))"
  have "\<exists>t. for_range 0 4 (\<lambda>f (best_filter, best_score). ?body f best_filter best_score) (WEBP_FILTER_NONE, 0x7fffffff) = Some t \<and> I 4 t"
  proof (rule for_range_inv[where I = I], goal_cases)
    case (3 j t)
    obtain flt best where t: "t = (flt, best)" by (cases t)
    have best: "\<forall>k < j. best \<le> sc k" "j = 0 \<Longrightarrow> best = 0x7fffffff" "0 < j \<Longrightarrow> \<exists>n < 4. t = (filter_of n, sc n)"
      using 3(3) by (auto simp: I_def t)
    show ?case
    proof (cases "sc j < best")
      case True
      then have "\<forall>k < Suc j. sc j \<le> sc k" using best(1) by (force simp: less_Suc_eq)
      then show ?thesis using True 3(2) sc(1)[of j] by (auto simp: I_def t)
    next
      case False
      then have "0 < j" using best(2) sc(2)[OF 3(2)] by (cases "j = 0") auto
      then show ?thesis using False 3(2) sc(1)[of j] best by (auto simp: I_def t less_Suc_eq)
    qed
  qed (simp_all add: I_def)
  then obtain n where "for_range 0 4 (\<lambda>f (best_filter, best_score). ?body f best_filter best_score) (WEBP_FILTER_NONE, 0x7fffffff) = Some (filter_of n, sc n)"
    "n < 4" "\<forall>k < 4. sc n \<le> sc k" by (auto simp: I_def)
  then show ?thesis using bins sc by (auto simp: WebPEstimateBestFilter_def)
qed


lemma WebPEstimateBestFilter_witness:
  "\<exists>n < 4. WebPEstimateBestFilter (replicate 20 7) 1 4 4 5 = Some (filter_of n)"
  using WebPEstimateBestFilter_ok[of 4 4 5 "replicate 20 7" 1] by (auto simp: inb_def)


end
