(* ===== verification/Syntax_Elements.thy ===== *)
theory Syntax_Elements
  imports Bool_Coder
begin

section \<open>Syntax elements of the boolean coder\<close>

text \<open>
  A calculus for the code that writes and reads the syntax of a lossy frame (src/enc/syntax_enc.c,
  tree_enc.c, frame_enc.c against src/dec/vp8_dec.c, tree_dec.c, quant_dec.c). \<open>emits\<close> says that a piece
  of the encoder puts a list of symbols, \<open>parses\<close> that a piece of the decoder takes a list of symbols
  from the code and computes a result; each has one rule per operation of the coder. The locale
  \<open>syntax_element\<close> joins a writer and a reader of the same symbols, and its \<open>roundtrip\<close> carries the element
  through a complete buffer.
\<close>

unbundle bit_operations_syntax

type_synonym symbol = "bool \<times> int"

subsection \<open>Writing symbols\<close>

definition valid_symbols :: "symbol list \<Rightarrow> bool" where
  "valid_symbols xs \<longleftrightarrow> (\<forall>x\<in>set xs. 0 \<le> snd x \<and> snd x < 256)"

lemma valid_symbols_simps [simp]:
  "valid_symbols []" "valid_symbols ((b, p) # xs) \<longleftrightarrow> 0 \<le> p \<and> p < 256 \<and> valid_symbols xs"
  "valid_symbols (xs @ ys) \<longleftrightarrow> valid_symbols xs \<and> valid_symbols ys" "valid_symbols (bits_of n v)"
  by (auto simp: valid_symbols_def dest: bits_of_valid)

text \<open>\<open>r\<close> is the result that the code returns around the new writer.\<close>

definition emits :: "allocator \<Rightarrow> nat \<Rightarrow> (VP8BitWriter \<Rightarrow> 'r option) \<Rightarrow> symbol list \<Rightarrow> (VP8BitWriter \<Rightarrow> 'r) \<Rightarrow> bool" where
  "emits malloc e f xs r \<longleftrightarrow> valid_symbols xs \<and>
     (malloc_ok malloc \<longrightarrow> (\<forall>bw s. put_state e bw s \<longrightarrow> fst s + 7 * length xs + 7 * 32 < 2 ^ 35 \<longrightarrow>
        (\<exists>bw'. f bw = Some (r bw') \<and> put_state e bw' (code_steps s xs))))"

lemma emits_Some: "emits malloc e (\<lambda>bw. Some (r bw)) [] r"
  by (auto simp: emits_def)

lemma emits_bind:
  assumes "emits malloc e f xs r" "emits malloc e (\<lambda>bw. g (r bw)) ys r'"
  shows "emits malloc e (\<lambda>bw. f bw \<bind> g) (xs @ ys) r'"
  unfolding emits_def
proof (intro conjI impI allI)
  show "valid_symbols (xs @ ys)" using assms by (simp add: emits_def)
  fix bw s assume m: "malloc_ok malloc" and s: "put_state e bw s" and t: "fst s + 7 * length (xs @ ys) + 7 * 32 < 2 ^ 35"
  have xs: "\<forall>x\<in>set xs. 0 \<le> snd x \<and> snd x < 256" using assms(1) by (simp add: emits_def valid_symbols_def)
  from assms(1) m s t obtain bw1 where 1: "f bw = Some (r bw1)" "put_state e bw1 (code_steps s xs)"
    unfolding emits_def by fastforce
  have "fst (code_steps s xs) + 7 * length ys + 7 * 32 < 2 ^ 35"
    using code_steps_time[OF put_state_time[OF s] xs] t by simp
  with assms(2) m 1(2) obtain bw2 where "g (r bw1) = Some (r' bw2)" "put_state e bw2 (code_steps (code_steps s xs) ys)"
    unfolding emits_def by blast
  with 1(1) show "\<exists>bw'. f bw \<bind> g = Some (r' bw') \<and> put_state e bw' (code_steps s (xs @ ys))" by auto
qed

lemma emits_if:
  "(c \<Longrightarrow> emits malloc e f xs r) \<Longrightarrow> (\<not> c \<Longrightarrow> emits malloc e g ys r) \<Longrightarrow>
    emits malloc e (\<lambda>bw. if c then f bw else g bw) (if c then xs else ys) r"
  by simp

lemma emits_for:
  assumes "\<And>i. a \<le> i \<Longrightarrow> i < b \<Longrightarrow> emits malloc e (\<lambda>bw. body i (r i bw)) (xs i) (r (Suc i))" "a \<le> b"
  shows "emits malloc e (\<lambda>bw. for_range a b body (r a bw)) (concat (map xs [a..<b])) (r b)"
  using assms
proof (induction "b - a" arbitrary: a)
  case 0
  then show ?case by (simp add: emits_Some)
next
  case (Suc d)
  then have "a < b" by simp
  have "emits malloc e (\<lambda>bw. for_range (Suc a) b body (r (Suc a) bw)) (concat (map xs [Suc a..<b])) (r b)"
    using Suc.hyps(2) \<open>a < b\<close> Suc.prems(1) by (intro Suc.hyps(1)) auto
  from emits_bind[OF Suc.prems(1)[of a] this] \<open>a < b\<close> show ?case
    by (simp add: for_range_step upt_conv_Cons)
qed

lemmas emits_for_bw = emits_for[where r = "\<lambda>_ bw. bw"]

lemma emits_PutBit: "0 \<le> p \<Longrightarrow> p < 256 \<Longrightarrow> emits malloc e (\<lambda>bw. VP8PutBit malloc bw b p) [(b \<noteq> 0, p)] (Pair b)"
  using put_state_PutBit[of e _ _ p malloc b] by (fastforce simp: emits_def)

lemma emits_PutBitUniform: "emits malloc e (\<lambda>bw. VP8PutBitUniform malloc bw b) [(b \<noteq> 0, 128)] (Pair b)"
  using put_state_PutBitUniform[of e _ _ malloc b] by (fastforce simp: emits_def)

lemma emits_PutBits:
  "0 < n \<Longrightarrow> n < 32 \<Longrightarrow> k = int n \<Longrightarrow> emits malloc e (\<lambda>bw. VP8PutBits malloc bw v k) (bits_of n v) (\<lambda>bw. bw)"
  using put_state_PutBits[of e _ _ malloc n v] by (fastforce simp: emits_def)

lemma emits_PutSignedBits:
  assumes "0 < n" "n < 31" "\<bar>v\<bar> < 2 ^ n" "k = int n"
  shows "emits malloc e (\<lambda>bw. VP8PutSignedBits malloc bw v k) (symbols (Signed n v)) (\<lambda>bw. bw)"
proof -
  have ok: "item_ok (Signed n v)" using assms by simp
  show ?thesis
    unfolding emits_def assms(4) using symbols_valid[OF ok] put_state_item[OF _ _ _ ok, of e _ _ malloc]
    by (auto simp: valid_symbols_def simp del: symbols.simps)
qed

lemmas emits_bind1 = emits_bind[where xs = "[x]" for x, simplified append.simps]

lemma emits_bit:
  "0 \<le> p \<Longrightarrow> p < 256 \<Longrightarrow> c = (b \<noteq> 0) \<Longrightarrow> emits malloc e (\<lambda>bw. g (b, bw)) ys r \<Longrightarrow>
    emits malloc e (\<lambda>bw. VP8PutBit malloc bw b p \<bind> g) ((c, p) # ys) r"
  by (auto intro: emits_bind1[OF emits_PutBit])

lemma emits_uniform:
  "c = (b \<noteq> 0) \<Longrightarrow> emits malloc e (\<lambda>bw. g (b, bw)) ys r \<Longrightarrow>
    emits malloc e (\<lambda>bw. VP8PutBitUniform malloc bw b \<bind> g) ((c, 128) # ys) r"
  by (auto intro: emits_bind1[OF emits_PutBitUniform])

lemmas emits_bits = emits_bind[OF emits_PutBits]
lemmas emits_signed = emits_bind[OF emits_PutSignedBits]

subsection \<open>Reading symbols\<close>

text \<open>After the first symbol the range is below 254; the sign of a coefficient is only read then.\<close>

definition warm :: "nat \<times> int \<times> int \<Rightarrow> bool" where
  "warm s \<longleftrightarrow> snd (snd s) \<le> 253"

definition parses :: "bool \<Rightarrow> u8 list \<Rightarrow> u8 list \<Rightarrow> (VP8BitReader \<Rightarrow> 'r option) \<Rightarrow> symbol list \<Rightarrow> (VP8BitReader \<Rightarrow> 'r) \<Rightarrow> bool" where
  "parses w mem bs g xs r \<longleftrightarrow>
     (\<forall>br s ys. dec mem bs br s (xs @ ys) \<longrightarrow> (w \<longrightarrow> warm s) \<longrightarrow>
        (\<exists>br'. g br = Some (r br') \<and> dec mem bs br' (code_steps s xs) ys))"

lemma parses_Some: "parses w mem bs (\<lambda>br. Some (r br)) [] r"
  by (auto simp: parses_def)

lemma parses_weaken: "parses False mem bs g xs r \<Longrightarrow> parses w mem bs g xs r"
  by (simp add: parses_def)

lemma dec_warm: "dec mem bs br s (xs @ ys) \<Longrightarrow> w \<longrightarrow> warm s \<Longrightarrow> w \<or> xs \<noteq> [] \<Longrightarrow> warm (code_steps s xs)"
proof (cases "xs = []")
  case False
  then show "dec mem bs br s (xs @ ys) \<Longrightarrow> warm (code_steps s xs)"
    unfolding warm_def by (intro code_steps_range) (auto simp: dec_def)
qed simp

lemma parses_bind:
  assumes "parses w mem bs f xs r" "parses (w \<or> xs \<noteq> []) mem bs (\<lambda>br. g (r br)) ys r'"
  shows "parses w mem bs (\<lambda>br. f br \<bind> g) (xs @ ys) r'"
  unfolding parses_def
proof (intro impI allI)
  fix br s zs assume d: "dec mem bs br s ((xs @ ys) @ zs)" and w: "w \<longrightarrow> warm s"
  from assms(1) d w obtain br1 where 1: "f br = Some (r br1)" "dec mem bs br1 (code_steps s xs) (ys @ zs)"
    unfolding parses_def by (metis append.assoc)
  have "w \<or> xs \<noteq> [] \<longrightarrow> warm (code_steps s xs)" using dec_warm[of mem bs br s xs "ys @ zs" w] d w by simp
  with assms(2) 1(2) obtain br2 where "g (r br1) = Some (r' br2)" "dec mem bs br2 (code_steps (code_steps s xs) ys) zs"
    unfolding parses_def by blast
  with 1(1) show "\<exists>br'. f br \<bind> g = Some (r' br') \<and> dec mem bs br' (code_steps s (xs @ ys)) zs" by auto
qed

lemma dec_eof: "dec mem bs br s xs \<Longrightarrow> br_eof br = 0"
  by (cases s) (auto simp: dec_def reads_def)

lemma parses_final: "(\<And>br. br_eof br = 0 \<Longrightarrow> g br = Some (r br)) \<Longrightarrow> parses w mem bs g [] r"
  unfolding parses_def by (auto dest: dec_eof)

lemma parses_if:
  "(c \<Longrightarrow> parses w mem bs f xs r) \<Longrightarrow> (\<not> c \<Longrightarrow> parses w mem bs g ys r) \<Longrightarrow>
    parses w mem bs (\<lambda>br. if c then f br else g br) (if c then xs else ys) r"
  by simp

lemma parses_for:
  assumes "\<And>i. a \<le> i \<Longrightarrow> i < b \<Longrightarrow> parses w mem bs (\<lambda>br. body i (r i br)) (xs i) (r (Suc i))" "a \<le> b"
  shows "parses w mem bs (\<lambda>br. for_range a b body (r a br)) (concat (map xs [a..<b])) (r b)"
  using assms
proof (induction "b - a" arbitrary: a)
  case 0
  then show ?case by (simp add: parses_Some)
next
  case (Suc d)
  then have "a < b" by simp
  have "parses w mem bs (\<lambda>br. for_range (Suc a) b body (r (Suc a) br)) (concat (map xs [Suc a..<b])) (r b)"
    using Suc.hyps(2) \<open>a < b\<close> Suc.prems(1) by (intro Suc.hyps(1)) auto
  then have "parses (w \<or> xs a \<noteq> []) mem bs (\<lambda>br. for_range (Suc a) b body (r (Suc a) br)) (concat (map xs [Suc a..<b])) (r b)"
    by (auto simp: parses_def)
  from parses_bind[OF Suc.prems(1)[of a] this] \<open>a < b\<close> show ?case
    by (simp add: for_range_step upt_conv_Cons)
qed

lemma parses_GetBit: "parses w mem bs (\<lambda>br. VP8GetBit mem br p) [(b, p)] (Pair (of_bool b))"
  unfolding parses_def by (auto dest!: dec_GetBit)

lemma parses_Get: "parses w mem bs (VP8Get mem) [(b, 128)] (Pair (of_bool b))"
  unfolding parses_def by (auto dest!: dec_Get)

lemma parses_GetValue:
  "n < 32 \<Longrightarrow> uint v < 2 ^ n \<Longrightarrow> k = int n \<Longrightarrow> parses w mem bs (\<lambda>br. VP8GetValue mem br k) (bits_of n v) (Pair v)"
  unfolding parses_def using dec_GetValue by blast

lemma dec_GetBitAlt: "dec mem bs br s ((b, p) # xs) \<Longrightarrow> VP8GetBitAlt mem br p = VP8GetBit mem br p"
proof -
  assume d: "dec mem bs br s ((b, p) # xs)"
  obtain t l r where s: "s = (t, l, r)" by (cases s)
  show "VP8GetBitAlt mem br p = VP8GetBit mem br p"
    by (rule VP8GetBitAlt_eq) (use dec_Cons(1-4)[OF d] s in \<open>auto simp: reads_def\<close>)
qed

lemma parses_GetBitAlt: "parses w mem bs (\<lambda>br. VP8GetBitAlt mem br p) [(b, p)] (Pair (of_bool b))"
  unfolding parses_def by (auto simp: dec_GetBitAlt dest!: dec_GetBit)

lemma parses_GetSigned: "parses True mem bs (\<lambda>br. VP8GetSigned mem br v) [(b, 128)] (Pair (if b then - v else v))"
  unfolding parses_def
proof (intro impI allI)
  fix br s ys assume d: "dec mem bs br s ([(b, 128)] @ ys)" and w: "True \<longrightarrow> warm s"
  obtain t l r where s: "s = (t, l, r)" by (cases s)
  have d': "dec mem bs br (t, l, r) ((b, 128) # ys)" using d s by simp
  note c = dec_Cons[OF d']
  have "r \<le> 253" "t + 8 \<le> 8 * length bs" using w s c(6) by (simp_all add: warm_def)
  from VP8GetSigned_ok[OF c(1,2) this(1) c(5) this(2), of v] obtain br' where
    "VP8GetSigned mem br v = Some (if b then - v else v, br')" "reads mem bs br' (code_step (t, l, r) (b, 128))" by blast
  with c(7)[OF this(2)] show "\<exists>br'. VP8GetSigned mem br v = Some (if b then - v else v, br') \<and> dec mem bs br' (code_steps s [(b, 128)]) ys"
    by (simp add: s)
qed

text \<open>The optional signed number, \<open>VP8Get(br) ? VP8GetSignedValue(br, n) : 0\<close>.\<close>

definition get_optional :: "u8 list \<Rightarrow> int \<Rightarrow> VP8BitReader \<Rightarrow> (int \<times> VP8BitReader) option" where
  "get_optional mem n br = do {
     (flag, br) \<leftarrow> VP8Get mem br;
     (if flag \<noteq> 0 then VP8GetSignedValue mem br n else Some (0, br)) }"

lemma parses_optional:
  assumes "0 < n" "n < 31" "\<bar>v\<bar> < 2 ^ n" "k = int n"
  shows "parses w mem bs (get_optional mem k) (symbols (Signed n v)) (Pair v)"
proof -
  have "item_ok (Signed n v)" using assms by simp
  from dec_item[OF _ this, of mem bs] show ?thesis
    unfolding parses_def get_optional_def assms(4) by (fastforce simp del: symbols.simps)
qed


lemmas parses_bind1 = parses_bind[where xs = "[x]" for x, simplified append.simps list.distinct not_False_eq_True simp_thms]

lemma parses_bit: "parses True mem bs (\<lambda>br. g (of_bool b, br)) ys r \<Longrightarrow>
    parses w mem bs (\<lambda>br. VP8GetBit mem br p \<bind> g) ((b, p) # ys) r"
  by (rule parses_bind1[OF parses_GetBit])

lemma parses_get: "parses True mem bs (\<lambda>br. g (of_bool b, br)) ys r \<Longrightarrow>
    parses w mem bs (\<lambda>br. VP8Get mem br \<bind> g) ((b, 128) # ys) r"
  by (rule parses_bind1[OF parses_Get])

lemma parses_then: "parses w mem bs f xs r \<Longrightarrow> (\<And>w. parses w mem bs (\<lambda>br. g (r br)) ys r') \<Longrightarrow>
    parses w mem bs (\<lambda>br. f br \<bind> g) (xs @ ys) r'"
  by (rule parses_bind)

lemmas parses_value = parses_then[OF parses_GetValue]
lemmas parses_opt = parses_then[OF parses_optional]

subsection \<open>Round trips\<close>

lemma stream_roundtrip:
  assumes put: "\<And>e. emits malloc e put xs r" and m: "malloc_ok malloc" and sz: "uint sz < 2 ^ 33"
    and xs: "xs \<noteq> []" "length xs < 2 ^ 31"
  shows "\<exists>bw bw1 bw'. VP8BitWriterInit malloc sz = Some (1, bw) \<and> put bw = Some (r bw1) \<and>
    VP8BitWriterFinish malloc bw1 = Some bw' \<and> bw_error bw' = 0 \<and> length (written bw') < 2 ^ 31 \<and>
    length (written bw') = unat (bw_pos bw') \<and>
    (\<forall>mem start get r'. (\<forall>i < length (written bw'). ld mem (start + int i) = Some (written bw' ! i)) \<longrightarrow>
       parses False mem (written bw') get xs r' \<longrightarrow>
       (\<exists>br br'. VP8InitBitReader mem start (of_nat (length (written bw'))) = Some br \<and> get br = Some (r' br')))"
proof -
  from VP8BitWriterInit_ok[OF m sz] obtain bw where
    i: "VP8BitWriterInit malloc sz = Some (1, bw)" "put_state (2 * unat sz) bw (0, 0, 254)" by blast
  from put[of "2 * unat sz"] m i(2) xs(2) obtain bw1 where
    p: "put bw = Some (r bw1)" "put_state (2 * unat sz) bw1 (code_steps (0, 0, 254) xs)"
    unfolding emits_def by fastforce
  have val: "\<forall>x\<in>set xs. 0 \<le> snd x \<and> snd x < 256" using put[of 0] by (simp add: emits_def valid_symbols_def)
  obtain t l q where s: "code_steps (0, 0, 254) xs = (t, l, q)" by (cases "code_steps (0, 0, 254) xs")
  have iv: "interval_ok (0, 0, 254)" by simp
  have q: "q \<le> 253" using code_steps_range[OF iv val xs(1)] s by simp
  have t: "t \<le> 7 * length xs" "0 \<le> q" using code_steps_time[OF iv val] s by simp_all
  have "t + 32 < 2 ^ 35" using t(1) xs(2) by simp
  from VP8BitWriterFinish_ok[OF p(2)[unfolded s] q m this] obtain bw' where
    f: "VP8BitWriterFinish malloc bw1 = Some bw'" "bw_error bw' = 0" "length (written bw') = unat (bw_pos bw')"
      "be (written bw') * 2 ^ (t + 8) = l * 2 ^ (8 * length (written bw'))" "t + 16 \<le> 8 * length (written bw')"
      "8 * length (written bw') \<le> t + 24" by blast
  have c: "code_in (written bw') (t, l, q)" using f(4) t(2) by (simp add: code_in_def)
  have len: "length (written bw') < 2 ^ 31" using f(6) t xs(2) by simp
  have "\<exists>br br'. VP8InitBitReader mem start (of_nat (length (written bw'))) = Some br \<and> get br = Some (r' br')"
    if at: "\<forall>i < length (written bw'). ld mem (start + int i) = Some (written bw' ! i)"
      and g: "parses False mem (written bw') get xs r'" for mem start get r'
  proof -
    from VP8InitBitReader_ok[OF at len _ _ val, unfolded s, OF _ c] f(5) obtain br where
      b: "VP8InitBitReader mem start (of_nat (length (written bw'))) = Some br" "dec mem (written bw') br (0, 0, 254) xs" by auto
    from g b(2) obtain br' where "get br = Some (r' br')"
      unfolding parses_def by (metis append_Nil2)
    with b(1) show ?thesis by blast
  qed
  with i(1) p(1) f(1-3) len show ?thesis by blast
qed

text \<open>
  A writer and a reader of the same syntax element. \<open>par\<close> is what the reader already knows, and \<open>post x\<close> a
  condition on the reader's result.
\<close>

locale syntax_relation =
  fixes put :: "allocator \<Rightarrow> 'a \<Rightarrow> VP8BitWriter \<Rightarrow> 'w option" and wr :: "'a \<Rightarrow> VP8BitWriter \<Rightarrow> 'w"
    and get :: "'p \<Rightarrow> u8 list \<Rightarrow> VP8BitReader \<Rightarrow> 'r option" and post :: "'a \<Rightarrow> (VP8BitReader \<Rightarrow> 'r) \<Rightarrow> bool"
    and par :: "'a \<Rightarrow> 'p" and syms :: "'a \<Rightarrow> symbol list" and ok :: "'a \<Rightarrow> bool"
  assumes put_emits: "ok x \<Longrightarrow> emits malloc e (put malloc x) (syms x) (wr x)"
    and get_parses: "ok x \<Longrightarrow> \<exists>r. post x r \<and> parses False mem bs (get (par x) mem) (syms x) r"
begin

text \<open>The code of \<open>x\<close> serves every reader of the same symbols.\<close>

lemma relation_readers:
  assumes "ok x" "syms x \<noteq> []" "length (syms x) < 2 ^ 31" "malloc_ok malloc" "uint sz < 2 ^ 33"
  shows "\<exists>bw bw1 bw'. VP8BitWriterInit malloc sz = Some (1, bw) \<and> put malloc x bw = Some (wr x bw1) \<and>
    VP8BitWriterFinish malloc bw1 = Some bw' \<and> bw_error bw' = 0 \<and>
    (\<forall>y pre rest. ok y \<longrightarrow> syms y = syms x \<longrightarrow>
      (\<exists>r br br'. post y r \<and> VP8InitBitReader (pre @ written bw' @ rest) (int (length pre)) (of_nat (length (written bw'))) = Some br \<and>
        get (par y) (pre @ written bw' @ rest) br = Some (r br')))"
proof -
  from stream_roundtrip[OF put_emits[OF assms(1)] assms(4,5,2,3)] obtain bw bw1 bw' where
    e: "VP8BitWriterInit malloc sz = Some (1, bw)" "put malloc x bw = Some (wr x bw1)"
      "VP8BitWriterFinish malloc bw1 = Some bw'" "bw_error bw' = 0"
    and reader: "\<And>mem start (g :: VP8BitReader \<Rightarrow> 'r option) r'. (\<forall>i < length (written bw'). ld mem (start + int i) = Some (written bw' ! i)) \<Longrightarrow>
       parses False mem (written bw') g (syms x) r' \<Longrightarrow>
       (\<exists>br br'. VP8InitBitReader mem start (of_nat (length (written bw'))) = Some br \<and> g br = Some (r' br'))"
    by blast
  have "\<exists>r br br'. post y r \<and> VP8InitBitReader (pre @ written bw' @ rest) (int (length pre)) (of_nat (length (written bw'))) = Some br \<and>
       get (par y) (pre @ written bw' @ rest) br = Some (r br')" if y: "ok y" "syms y = syms x" for y pre rest
  proof -
    obtain r where r: "post y r" "parses False (pre @ written bw' @ rest) (written bw') (get (par y) (pre @ written bw' @ rest)) (syms x) r"
      using get_parses[OF y(1)] y(2) by metis
    have "\<forall>i < length (written bw'). ld (pre @ written bw' @ rest) (int (length pre) + int i) = Some (written bw' ! i)"
      by (auto simp: ld_nat nth_append simp flip: of_nat_add)
    from reader[OF this r(2)] r(1) show ?thesis by blast
  qed
  with e show ?thesis by blast
qed

lemma relation_roundtrip:
  assumes "ok x" "syms x \<noteq> []" "length (syms x) < 2 ^ 31" "malloc_ok malloc" "uint sz < 2 ^ 33"
  shows "\<exists>bw bw1 bw'. VP8BitWriterInit malloc sz = Some (1, bw) \<and> put malloc x bw = Some (wr x bw1) \<and>
    VP8BitWriterFinish malloc bw1 = Some bw' \<and> bw_error bw' = 0 \<and>
    (\<forall>pre rest. \<exists>r br br'. post x r \<and> VP8InitBitReader (pre @ written bw' @ rest) (int (length pre)) (of_nat (length (written bw'))) = Some br \<and>
        get (par x) (pre @ written bw' @ rest) br = Some (r br'))"
  using relation_readers[OF assms] assms(1) by blast

end

text \<open>A reader whose result is a function of what was written.\<close>

locale syntax_element =
  fixes put :: "allocator \<Rightarrow> 'a \<Rightarrow> VP8BitWriter \<Rightarrow> 'w option" and wr :: "'a \<Rightarrow> VP8BitWriter \<Rightarrow> 'w"
    and get :: "'p \<Rightarrow> u8 list \<Rightarrow> VP8BitReader \<Rightarrow> 'r option" and rd :: "'a \<Rightarrow> VP8BitReader \<Rightarrow> 'r"
    and par :: "'a \<Rightarrow> 'p" and syms :: "'a \<Rightarrow> symbol list" and ok :: "'a \<Rightarrow> bool"
  assumes put_emits: "ok x \<Longrightarrow> emits malloc e (put malloc x) (syms x) (wr x)"
    and get_parses: "ok x \<Longrightarrow> parses False mem bs (get (par x) mem) (syms x) (rd x)"

sublocale syntax_element \<subseteq> relation: syntax_relation put wr get "\<lambda>x r. r = rd x" par syms ok
  by unfold_locales (simp_all add: put_emits get_parses)

context syntax_element
begin

lemma roundtrip_readers:
  assumes "ok x" "syms x \<noteq> []" "length (syms x) < 2 ^ 31" "malloc_ok malloc" "uint sz < 2 ^ 33"
  shows "\<exists>bw bw1 bw'. VP8BitWriterInit malloc sz = Some (1, bw) \<and> put malloc x bw = Some (wr x bw1) \<and>
    VP8BitWriterFinish malloc bw1 = Some bw' \<and> bw_error bw' = 0 \<and>
    (\<forall>y pre post. ok y \<longrightarrow> syms y = syms x \<longrightarrow>
      (\<exists>br br'. VP8InitBitReader (pre @ written bw' @ post) (int (length pre)) (of_nat (length (written bw'))) = Some br \<and>
        get (par y) (pre @ written bw' @ post) br = Some (rd y br')))"
  using relation.relation_readers[OF assms] by simp

lemma roundtrip_family:
  assumes "\<And>i. ok (x i)" "\<And>i. syms (x i) = xs" "\<And>i. put malloc (x i) = f" "\<And>i. wr (x i) = w"
    "xs \<noteq> []" "length xs < 2 ^ 31" "malloc_ok malloc" "uint sz < 2 ^ 33"
  shows "\<exists>bw bw1 bw'. VP8BitWriterInit malloc sz = Some (1, bw) \<and> f bw = Some (w bw1) \<and>
    VP8BitWriterFinish malloc bw1 = Some bw' \<and> bw_error bw' = 0 \<and>
    (\<forall>i pre post. \<exists>br br'. VP8InitBitReader (pre @ written bw' @ post) (int (length pre)) (of_nat (length (written bw'))) = Some br \<and>
        get (par (x i)) (pre @ written bw' @ post) br = Some (rd (x i) br'))"
  using roundtrip_readers[OF assms(1), of i malloc sz for i, unfolded assms(2,3,4), OF assms(5-8)] assms(1,2) by blast

lemma roundtrip:
  assumes "ok x" "syms x \<noteq> []" "length (syms x) < 2 ^ 31" "malloc_ok malloc" "uint sz < 2 ^ 33"
  shows "\<exists>bw bw1 bw'. VP8BitWriterInit malloc sz = Some (1, bw) \<and> put malloc x bw = Some (wr x bw1) \<and>
    VP8BitWriterFinish malloc bw1 = Some bw' \<and> bw_error bw' = 0 \<and>
    (\<forall>pre post. \<exists>br br'. VP8InitBitReader (pre @ written bw' @ post) (int (length pre)) (of_nat (length (written bw'))) = Some br \<and>
       get (par x) (pre @ written bw' @ post) br = Some (rd x br'))"
  using roundtrip_readers[OF assms] assms(1) by blast

end

end
