(* ===== verification/VP8_Headers.thy ===== *)
theory VP8_Headers
  imports Syntax_Elements VP8_Tables
begin

section \<open>The headers of a lossy frame\<close>

text \<open>
  The segment, filter, quantizer and probability headers of the first partition: the writers of
  src/enc/syntax_enc.c and src/enc/tree_enc.c against the parsers of src/dec/vp8_dec.c, src/dec/quant_dec.c
  and src/dec/tree_dec.c. The encoder's and the decoder's structures are records with the fields that the
  headers carry; arrays are lists, bytes and \<open>int8_t\<close> fields integers that are truncated when they are stored.
\<close>

unbundle bit_operations_syntax

subsection \<open>The encoder\<close>

record VP8EncSegmentHeader =
  num_segments :: int
  e_update_map :: int

record VP8EncProba =
  e_segments :: "int list"
  e_skip_proba :: int
  e_coeffs :: "int list list list list"
  e_use_skip_proba :: int

record VP8EncFilterHeader =
  e_simple :: int
  e_level :: int
  e_sharpness :: int
  i4x4_lf_delta :: int

record VP8SegmentInfo =
  quant :: int
  fstrength :: int
  y1_q :: "int list"
  y2_q :: "int list"
  uv_q :: "int list"

record VP8Encoder =
  e_segment_hdr :: VP8EncSegmentHeader
  e_filter_hdr :: VP8EncFilterHeader
  e_proba :: VP8EncProba
  e_dqm :: "VP8SegmentInfo list"
  base_quant :: int
  dq_y1_dc :: int
  dq_y2_dc :: int
  dq_y2_ac :: int
  dq_uv_dc :: int
  dq_uv_ac :: int

definition put_segment_data :: "allocator \<Rightarrow> VP8Encoder \<Rightarrow> VP8BitWriter \<Rightarrow> VP8BitWriter option" where
  "put_segment_data malloc enc bw = do {
     (_, bw) \<leftarrow> VP8PutBitUniform malloc bw 1;
     bw \<leftarrow> for_range 0 4 (\<lambda>s bw. do { d \<leftarrow> ld (e_dqm enc) (int s); VP8PutSignedBits malloc bw (quant d) 7 }) bw;
     for_range 0 4 (\<lambda>s bw. do { d \<leftarrow> ld (e_dqm enc) (int s); VP8PutSignedBits malloc bw (fstrength d) 6 }) bw }"

definition put_segment_probas :: "allocator \<Rightarrow> VP8Encoder \<Rightarrow> VP8BitWriter \<Rightarrow> VP8BitWriter option" where
  "put_segment_probas malloc enc bw =
     for_range 0 3
       (\<lambda>s bw. do {
          p \<leftarrow> ld (e_segments (e_proba enc)) (int s);
          (b, bw) \<leftarrow> VP8PutBitUniform malloc bw (of_bool (p \<noteq> 255));
          (if b \<noteq> 0 then VP8PutBits malloc bw (word_of_int p) 8 else Some bw) }) bw"

definition PutSegmentHeader :: "allocator \<Rightarrow> VP8Encoder \<Rightarrow> VP8BitWriter \<Rightarrow> VP8BitWriter option" where
  "PutSegmentHeader malloc enc bw = do {
     let hdr = e_segment_hdr enc;
     (b, bw) \<leftarrow> VP8PutBitUniform malloc bw (of_bool (num_segments hdr > 1));
     (if b \<noteq> 0 then do {
        let update_data = 1;
        (_, bw) \<leftarrow> VP8PutBitUniform malloc bw (e_update_map hdr);
        (u, bw) \<leftarrow> VP8PutBitUniform malloc bw update_data;
        bw \<leftarrow> (if u \<noteq> 0 then put_segment_data malloc enc bw else Some bw);
        (if e_update_map hdr \<noteq> 0 then put_segment_probas malloc enc bw else Some bw) }
      else Some bw) }"

definition PutFilterHeader :: "allocator \<Rightarrow> VP8EncFilterHeader \<Rightarrow> VP8BitWriter \<Rightarrow> VP8BitWriter option" where
  "PutFilterHeader malloc hdr bw = do {
     let use_lf_delta = (of_bool (i4x4_lf_delta hdr \<noteq> 0) :: int);
     (_, bw) \<leftarrow> VP8PutBitUniform malloc bw (e_simple hdr);
     bw \<leftarrow> VP8PutBits malloc bw (word_of_int (e_level hdr)) 6;
     bw \<leftarrow> VP8PutBits malloc bw (word_of_int (e_sharpness hdr)) 3;
     (b, bw) \<leftarrow> VP8PutBitUniform malloc bw use_lf_delta;
     (if b \<noteq> 0 then do {
        let need_update = (of_bool (i4x4_lf_delta hdr \<noteq> 0) :: int);
        (u, bw) \<leftarrow> VP8PutBitUniform malloc bw need_update;
        (if u \<noteq> 0 then do {
           bw \<leftarrow> VP8PutBits malloc bw 0 4;
           bw \<leftarrow> VP8PutSignedBits malloc bw (i4x4_lf_delta hdr) 6;
           VP8PutBits malloc bw 0 3 }
         else Some bw) }
      else Some bw) }"

definition PutQuant :: "allocator \<Rightarrow> VP8Encoder \<Rightarrow> VP8BitWriter \<Rightarrow> VP8BitWriter option" where
  "PutQuant malloc enc bw = do {
     bw \<leftarrow> VP8PutBits malloc bw (word_of_int (base_quant enc)) 7;
     bw \<leftarrow> VP8PutSignedBits malloc bw (dq_y1_dc enc) 4;
     bw \<leftarrow> VP8PutSignedBits malloc bw (dq_y2_dc enc) 4;
     bw \<leftarrow> VP8PutSignedBits malloc bw (dq_y2_ac enc) 4;
     bw \<leftarrow> VP8PutSignedBits malloc bw (dq_uv_dc enc) 4;
     VP8PutSignedBits malloc bw (dq_uv_ac enc) 4 }"

definition enc_clip :: "int \<Rightarrow> int \<Rightarrow> int \<Rightarrow> int" where
  "enc_clip v m M = (if v < m then m else if v > M then M else v)"

text \<open>The quantizer steps of \<open>SetupMatrices\<close>; the rest of the function derives the encoder's own tables.\<close>

definition setup_steps :: "VP8Encoder \<Rightarrow> VP8SegmentInfo \<Rightarrow> VP8SegmentInfo option" where
  "setup_steps enc m = do {
     let q = quant m;
     y1dc \<leftarrow> ld enc_kDcTable (enc_clip (q + dq_y1_dc enc) 0 127);
     y1ac \<leftarrow> ld enc_kAcTable (enc_clip q 0 127);
     y2dc \<leftarrow> ld enc_kDcTable (enc_clip (q + dq_y2_dc enc) 0 127);
     y2ac \<leftarrow> ld kAcTable2 (enc_clip (q + dq_y2_ac enc) 0 127);
     uvdc \<leftarrow> ld enc_kDcTable (enc_clip (q + dq_uv_dc enc) 0 117);
     uvac \<leftarrow> ld enc_kAcTable (enc_clip (q + dq_uv_ac enc) 0 127);
     Some (m\<lparr>y1_q := [y1dc, y1ac], y2_q := [y2dc * 2, y2ac], uv_q := [uvdc, uvac]\<rparr>) }"

definition SetupMatrices_steps :: "VP8Encoder \<Rightarrow> VP8Encoder option" where
  "SetupMatrices_steps enc =
     for_range 0 (nat (num_segments (e_segment_hdr enc)))
       (\<lambda>i enc. do {
          m \<leftarrow> ld (e_dqm enc) (int i);
          m \<leftarrow> setup_steps enc m;
          d \<leftarrow> st (e_dqm enc) (int i) m;
          Some (enc\<lparr>e_dqm := d\<rparr>) }) enc"

definition ld4 :: "int list list list list \<Rightarrow> nat \<Rightarrow> nat \<Rightarrow> nat \<Rightarrow> nat \<Rightarrow> int option" where
  "ld4 t a b c d = do {
     x \<leftarrow> ld t (int a);
     y \<leftarrow> ld x (int b);
     z \<leftarrow> ld y (int c);
     ld z (int d) }"

definition st4 :: "int list list list list \<Rightarrow> nat \<Rightarrow> nat \<Rightarrow> nat \<Rightarrow> nat \<Rightarrow> int \<Rightarrow> int list list list list option" where
  "st4 t a b c d v = do {
     x \<leftarrow> ld t (int a);
     y \<leftarrow> ld x (int b);
     z \<leftarrow> ld y (int c);
     z \<leftarrow> st z (int d) v;
     y \<leftarrow> st y (int c) z;
     x \<leftarrow> st x (int b) y;
     st t (int a) x }"

definition put_proba :: "allocator \<Rightarrow> VP8EncProba \<Rightarrow> nat \<Rightarrow> nat \<Rightarrow> nat \<Rightarrow> nat \<Rightarrow> VP8BitWriter \<Rightarrow> VP8BitWriter option" where
  "put_proba malloc probas t b c p bw = do {
     p0 \<leftarrow> ld4 (e_coeffs probas) t b c p;
     d \<leftarrow> ld4 VP8CoeffsProba0 t b c p;
     u \<leftarrow> ld4 VP8CoeffsUpdateProba t b c p;
     let update = (of_bool (p0 \<noteq> d) :: int);
     (f, bw) \<leftarrow> VP8PutBit malloc bw update u;
     (if f \<noteq> 0 then VP8PutBits malloc bw (word_of_int p0) 8 else Some bw) }"

definition VP8WriteProbas :: "allocator \<Rightarrow> VP8EncProba \<Rightarrow> VP8BitWriter \<Rightarrow> VP8BitWriter option" where
  "VP8WriteProbas malloc probas bw = do {
     bw \<leftarrow> for_range 0 4 (\<lambda>t. for_range 0 8 (\<lambda>b. for_range 0 3 (\<lambda>c. for_range 0 11 (\<lambda>p.
             put_proba malloc probas t b c p)))) bw;
     (u, bw) \<leftarrow> VP8PutBitUniform malloc bw (e_use_skip_proba probas);
     (if u \<noteq> 0 then VP8PutBits malloc bw (word_of_int (e_skip_proba probas)) 8 else Some bw) }"

subsection \<open>The decoder\<close>

record VP8SegmentHeader =
  use_segment :: int
  update_map :: int
  absolute_delta :: int
  quantizer :: "int list"
  filter_strength :: "int list"

record VP8FilterHeader =
  simple :: int
  level :: int
  sharpness :: int
  use_lf_delta :: int
  ref_lf_delta :: "int list"
  mode_lf_delta :: "int list"

record VP8QuantMatrix =
  y1_mat :: "int list"
  y2_mat :: "int list"
  uv_mat :: "int list"
  uv_quant :: int
  q_dither :: int

text \<open>\<open>bands_ptr\<close> holds, for every type and position, the index of the band it points to.\<close>

record VP8Proba =
  segments :: "int list"
  bands :: "int list list list list"
  bands_ptr :: "int list list"

definition ResetSegmentHeader :: "VP8SegmentHeader \<Rightarrow> VP8SegmentHeader" where
  "ResetSegmentHeader hdr =
     hdr\<lparr>use_segment := 0, update_map := 0, absolute_delta := 1, quantizer := replicate 4 0, filter_strength := replicate 4 0\<rparr>"

definition VP8ResetProba :: "VP8Proba \<Rightarrow> VP8Proba" where
  "VP8ResetProba proba = proba\<lparr>segments := replicate 3 255\<rparr>"

definition get_segment_data :: "u8 list \<Rightarrow> VP8SegmentHeader \<Rightarrow> VP8BitReader \<Rightarrow> (VP8SegmentHeader \<times> VP8BitReader) option" where
  "get_segment_data mem hdr br = do {
     (a, br) \<leftarrow> VP8Get mem br;
     let hdr = hdr\<lparr>absolute_delta := a\<rparr>;
     (hdr, br) \<leftarrow> for_range 0 4
       (\<lambda>s (hdr, br). do {
          (v, br) \<leftarrow> get_optional mem 7 br;
          q \<leftarrow> st (quantizer hdr) (int s) (signed_take_bit 7 v);
          Some (hdr\<lparr>quantizer := q\<rparr>, br) }) (hdr, br);
     for_range 0 4
       (\<lambda>s (hdr, br). do {
          (v, br) \<leftarrow> get_optional mem 6 br;
          q \<leftarrow> st (filter_strength hdr) (int s) (signed_take_bit 7 v);
          Some (hdr\<lparr>filter_strength := q\<rparr>, br) }) (hdr, br) }"

definition get_segment_probas :: "u8 list \<Rightarrow> VP8Proba \<Rightarrow> VP8BitReader \<Rightarrow> (VP8Proba \<times> VP8BitReader) option" where
  "get_segment_probas mem proba br =
     for_range 0 3
       (\<lambda>s (proba, br). do {
          (f, br) \<leftarrow> VP8Get mem br;
          (v, br) \<leftarrow> (if f \<noteq> 0 then do { (v, br) \<leftarrow> VP8GetValue mem br 8; Some (take_bit 8 (uint v), br) }
                      else Some (255, br));
          q \<leftarrow> st (segments proba) (int s) v;
          Some (proba\<lparr>segments := q\<rparr>, br) }) (proba, br)"

definition ParseSegmentHeader :: "u8 list \<Rightarrow> VP8SegmentHeader \<Rightarrow> VP8Proba \<Rightarrow> VP8BitReader \<Rightarrow>
    (int \<times> VP8SegmentHeader \<times> VP8Proba \<times> VP8BitReader) option" where
  "ParseSegmentHeader mem hdr proba br = do {
     (u, br) \<leftarrow> VP8Get mem br;
     let hdr = hdr\<lparr>use_segment := u\<rparr>;
     (hdr, proba, br) \<leftarrow>
       (if use_segment hdr \<noteq> 0 then do {
          (m, br) \<leftarrow> VP8Get mem br;
          let hdr = hdr\<lparr>update_map := m\<rparr>;
          (d, br) \<leftarrow> VP8Get mem br;
          (hdr, br) \<leftarrow> (if d \<noteq> 0 then get_segment_data mem hdr br else Some (hdr, br));
          (proba, br) \<leftarrow> (if update_map hdr \<noteq> 0 then get_segment_probas mem proba br else Some (proba, br));
          Some (hdr, proba, br) }
        else Some (hdr\<lparr>update_map := 0\<rparr>, proba, br));
     Some (of_bool (br_eof br = 0), hdr, proba, br) }"

definition get_lf_deltas :: "u8 list \<Rightarrow> int list \<Rightarrow> VP8BitReader \<Rightarrow> (int list \<times> VP8BitReader) option" where
  "get_lf_deltas mem deltas br =
     for_range 0 4
       (\<lambda>i (deltas, br). do {
          (f, br) \<leftarrow> VP8Get mem br;
          (if f \<noteq> 0 then do {
             (v, br) \<leftarrow> VP8GetSignedValue mem br 6;
             deltas \<leftarrow> st deltas (int i) v;
             Some (deltas, br) }
           else Some (deltas, br)) }) (deltas, br)"

text \<open>The second result is \<open>dec->filter_type_\<close>.\<close>

definition ParseFilterHeader :: "u8 list \<Rightarrow> VP8FilterHeader \<Rightarrow> VP8BitReader \<Rightarrow> (int \<times> int \<times> VP8FilterHeader \<times> VP8BitReader) option" where
  "ParseFilterHeader mem hdr br = do {
     (s, br) \<leftarrow> VP8Get mem br;
     (l, br) \<leftarrow> VP8GetValue mem br 6;
     (h, br) \<leftarrow> VP8GetValue mem br 3;
     (u, br) \<leftarrow> VP8Get mem br;
     let hdr = hdr\<lparr>simple := s, level := sint l, sharpness := sint h, use_lf_delta := u\<rparr>;
     (hdr, br) \<leftarrow>
       (if use_lf_delta hdr \<noteq> 0 then do {
          (f, br) \<leftarrow> VP8Get mem br;
          (if f \<noteq> 0 then do {
             (r, br) \<leftarrow> get_lf_deltas mem (ref_lf_delta hdr) br;
             (m, br) \<leftarrow> get_lf_deltas mem (mode_lf_delta hdr) br;
             Some (hdr\<lparr>ref_lf_delta := r, mode_lf_delta := m\<rparr>, br) }
           else Some (hdr, br)) }
        else Some (hdr, br));
     Some (of_bool (br_eof br = 0), (if level hdr = 0 then 0 else if simple hdr \<noteq> 0 then 1 else 2), hdr, br) }"

definition dec_clip :: "int \<Rightarrow> int \<Rightarrow> int" where
  "dec_clip v M = (if v < 0 then 0 else if v > M then M else v)"

text \<open>The matrix of one segment; the five deltas in the order in which they are read.\<close>

definition quant_matrix :: "int \<Rightarrow> int list \<Rightarrow> VP8QuantMatrix \<Rightarrow> VP8QuantMatrix option" where
  "quant_matrix q dq m = do {
     let dqy1_dc = dq ! 0;
     let dqy2_dc = dq ! 1;
     let dqy2_ac = dq ! 2;
     let dquv_dc = dq ! 3;
     let dquv_ac = dq ! 4;
     y1dc \<leftarrow> ld kDcTable (dec_clip (q + dqy1_dc) 127);
     y1ac \<leftarrow> ld kAcTable (dec_clip (q + 0) 127);
     y2dc \<leftarrow> ld kDcTable (dec_clip (q + dqy2_dc) 127);
     y2ac \<leftarrow> ld kAcTable (dec_clip (q + dqy2_ac) 127);
     uvdc \<leftarrow> ld kDcTable (dec_clip (q + dquv_dc) 117);
     uvac \<leftarrow> ld kAcTable (dec_clip (q + dquv_ac) 127);
     let y2 = drop_bit 16 (y2ac * 101581);
     Some (m\<lparr>y1_mat := [y1dc, y1ac], y2_mat := [y2dc * 2, (if y2 < 8 then 8 else y2)], uv_mat := [uvdc, uvac],
       uv_quant := q + dquv_ac\<rparr>) }"

definition VP8ParseQuant :: "u8 list \<Rightarrow> VP8SegmentHeader \<Rightarrow> VP8QuantMatrix list \<Rightarrow> VP8BitReader \<Rightarrow>
    (VP8QuantMatrix list \<times> VP8BitReader) option" where
  "VP8ParseQuant mem hdr dqm br = do {
     (b, br) \<leftarrow> VP8GetValue mem br 7;
     let base_q0 = sint b;
     (dqy1_dc, br) \<leftarrow> get_optional mem 4 br;
     (dqy2_dc, br) \<leftarrow> get_optional mem 4 br;
     (dqy2_ac, br) \<leftarrow> get_optional mem 4 br;
     (dquv_dc, br) \<leftarrow> get_optional mem 4 br;
     (dquv_ac, br) \<leftarrow> get_optional mem 4 br;
     let dq = [dqy1_dc, dqy2_dc, dqy2_ac, dquv_dc, dquv_ac];
     dqm \<leftarrow> for_range 0 4
       (\<lambda>i dqm.
          if use_segment hdr \<noteq> 0 then do {
            q \<leftarrow> ld (quantizer hdr) (int i);
            m \<leftarrow> ld dqm (int i);
            m \<leftarrow> quant_matrix (if absolute_delta hdr = 0 then q + base_q0 else q) dq m;
            st dqm (int i) m }
          else if i > 0 then do { m \<leftarrow> ld dqm 0; st dqm (int i) m }
          else do {
            m \<leftarrow> ld dqm (int i);
            m \<leftarrow> quant_matrix base_q0 dq m;
            st dqm (int i) m }) dqm;
     Some (dqm, br) }"

definition get_proba :: "u8 list \<Rightarrow> nat \<Rightarrow> nat \<Rightarrow> nat \<Rightarrow> nat \<Rightarrow> VP8Proba \<times> VP8BitReader \<Rightarrow> (VP8Proba \<times> VP8BitReader) option" where
  "get_proba mem t b c p = (\<lambda>(proba, br). do {
     u \<leftarrow> ld4 CoeffsUpdateProba t b c p;
     (f, br) \<leftarrow> VP8GetBit mem br u;
     (v, br) \<leftarrow> (if f \<noteq> 0 then do { (v, br) \<leftarrow> VP8GetValue mem br 8; Some (sint v, br) }
                 else do { d \<leftarrow> ld4 CoeffsProba0 t b c p; Some (d, br) });
     bs \<leftarrow> st4 (bands proba) t b c p (take_bit 8 v);
     Some (proba\<lparr>bands := bs\<rparr>, br) })"

definition set_bands_ptr :: "nat \<Rightarrow> nat \<Rightarrow> VP8Proba \<times> VP8BitReader \<Rightarrow> (VP8Proba \<times> VP8BitReader) option" where
  "set_bands_ptr t b = (\<lambda>(proba, br). do {
     k \<leftarrow> ld kBands (int b);
     row \<leftarrow> ld (bands_ptr proba) (int t);
     row \<leftarrow> st row (int b) k;
     ptr \<leftarrow> st (bands_ptr proba) (int t) row;
     Some (proba\<lparr>bands_ptr := ptr\<rparr>, br) })"

text \<open>The result also holds \<open>dec->use_skip_proba_\<close> and \<open>dec->skip_p_\<close>, of which \<open>skip_p\<close> is the old one.\<close>

definition VP8ParseProba :: "u8 list \<Rightarrow> VP8Proba \<Rightarrow> int \<Rightarrow> VP8BitReader \<Rightarrow> (VP8Proba \<times> int \<times> int \<times> VP8BitReader) option" where
  "VP8ParseProba mem proba skip_p br = do {
     (proba, br) \<leftarrow>
       for_range 0 4
         (\<lambda>t s. do {
            s \<leftarrow> for_range 0 8 (\<lambda>b. for_range 0 3 (\<lambda>c. for_range 0 11 (\<lambda>p. get_proba mem t b c p))) s;
            for_range 0 (16 + 1) (\<lambda>b. set_bands_ptr t b) s })
         (proba, br);
     (use_skip, br) \<leftarrow> VP8Get mem br;
     (if use_skip \<noteq> 0 then do {
        (v, br) \<leftarrow> VP8GetValue mem br 8;
        Some (proba, use_skip, take_bit 8 (uint v), br) }
      else Some (proba, use_skip, skip_p, br)) }"

subsection \<open>The segment header\<close>

definition segment_symbols :: "VP8Encoder \<Rightarrow> symbol list" where
  "segment_symbols enc =
     (num_segments (e_segment_hdr enc) > 1, 128) #
     (if num_segments (e_segment_hdr enc) > 1 then
        (e_update_map (e_segment_hdr enc) \<noteq> 0, 128) # (True, 128) # (True, 128) #
        concat (map (\<lambda>s. symbols (Signed 7 (quant (e_dqm enc ! s)))) [0..<4]) @
        concat (map (\<lambda>s. symbols (Signed 6 (fstrength (e_dqm enc ! s)))) [0..<4]) @
        (if e_update_map (e_segment_hdr enc) \<noteq> 0 then
           concat (map (\<lambda>s. (e_segments (e_proba enc) ! s \<noteq> 255, 128) #
             (if e_segments (e_proba enc) ! s \<noteq> 255 then bits_of 8 (word_of_int (e_segments (e_proba enc) ! s)) else [])) [0..<3])
         else [])
      else [])"

definition segment_ok :: "VP8Encoder \<Rightarrow> bool" where
  "segment_ok enc \<longleftrightarrow> length (e_dqm enc) = 4 \<and> (\<forall>d\<in>set (e_dqm enc). \<bar>quant d\<bar> < 128 \<and> \<bar>fstrength d\<bar> < 64) \<and>
     length (e_segments (e_proba enc)) = 3 \<and> (\<forall>p\<in>set (e_segments (e_proba enc)). 0 \<le> p \<and> p < 256) \<and>
     (e_update_map (e_segment_hdr enc) = 0 \<or> e_update_map (e_segment_hdr enc) = 1)"

definition segment_result :: "VP8Encoder \<Rightarrow> VP8SegmentHeader \<Rightarrow> VP8SegmentHeader" where
  "segment_result enc hdr =
     (if num_segments (e_segment_hdr enc) > 1 then
        hdr\<lparr>use_segment := 1, update_map := e_update_map (e_segment_hdr enc), absolute_delta := 1,
          quantizer := map quant (e_dqm enc), filter_strength := map fstrength (e_dqm enc)\<rparr>
      else hdr\<lparr>use_segment := 0, update_map := 0\<rparr>)"

definition segment_probas :: "VP8Encoder \<Rightarrow> VP8Proba \<Rightarrow> VP8Proba" where
  "segment_probas enc proba =
     (if num_segments (e_segment_hdr enc) > 1 \<and> e_update_map (e_segment_hdr enc) \<noteq> 0
      then proba\<lparr>segments := e_segments (e_proba enc)\<rparr> else proba)"

lemma emits_signed_loop:
  assumes "\<forall>d\<in>set ds. \<bar>f d\<bar> < 2 ^ n" "length ds = k" "0 < n" "n < 31" "nb = int n"
  shows "emits malloc e (for_range 0 k (\<lambda>s bw. do { d \<leftarrow> ld ds (int s); VP8PutSignedBits malloc bw (f d) nb }))
    (concat (map (\<lambda>s. symbols (Signed n (f (ds ! s)))) [0..<k])) (\<lambda>bw. bw)"
proof (rule emits_for_bw)
  fix i assume i: "0 \<le> i" "i < k"
  then have "ld ds (int i) = Some (ds ! i)" using assms(2) by (simp add: ld_nat)
  then show "emits malloc e (\<lambda>bw. do { d \<leftarrow> ld ds (int i); VP8PutSignedBits malloc bw (f d) nb })
      (symbols (Signed n (f (ds ! i)))) (\<lambda>bw. bw)"
    using assms i by (simp add: emits_PutSignedBits del: symbols.simps)
qed simp

lemma emits_PutSegmentHeader:
  assumes "segment_ok enc"
  shows "emits malloc e (PutSegmentHeader malloc enc) (segment_symbols enc) (\<lambda>bw. bw)"
proof -
  note ok = assms[unfolded segment_ok_def]
  have data: "emits malloc e (put_segment_data malloc enc)
    ((True, 128) # concat (map (\<lambda>s. symbols (Signed 7 (quant (e_dqm enc ! s)))) [0..<4]) @
      concat (map (\<lambda>s. symbols (Signed 6 (fstrength (e_dqm enc ! s)))) [0..<4])) (\<lambda>bw. bw)"
    unfolding put_segment_data_def
    by (rule emits_uniform, simp, unfold prod.case, rule emits_bind; rule emits_signed_loop) (use ok in auto)
  have probas: "emits malloc e (put_segment_probas malloc enc)
    (concat (map (\<lambda>s. (e_segments (e_proba enc) ! s \<noteq> 255, 128) #
      (if e_segments (e_proba enc) ! s \<noteq> 255 then bits_of 8 (word_of_int (e_segments (e_proba enc) ! s)) else [])) [0..<3])) (\<lambda>bw. bw)"
    unfolding put_segment_probas_def
  proof (rule emits_for_bw)
    fix i :: nat assume "0 \<le> i" "i < 3"
    then have l: "ld (e_segments (e_proba enc)) (int i) = Some (e_segments (e_proba enc) ! i)" using ok by (simp add: ld_nat)
    show "emits malloc e (\<lambda>bw. do {
          p \<leftarrow> ld (e_segments (e_proba enc)) (int i);
          (b, bw) \<leftarrow> VP8PutBitUniform malloc bw (of_bool (p \<noteq> 255));
          (if b \<noteq> 0 then VP8PutBits malloc bw (word_of_int p) 8 else Some bw) })
        ((e_segments (e_proba enc) ! i \<noteq> 255, 128) #
      (if e_segments (e_proba enc) ! i \<noteq> 255 then bits_of 8 (word_of_int (e_segments (e_proba enc) ! i)) else [])) (\<lambda>bw. bw)"
      unfolding l Option.bind.simps
      by (rule emits_uniform) (simp_all add: emits_PutBits emits_Some)
  qed simp
  show ?thesis
    unfolding PutSegmentHeader_def segment_symbols_def Let_def
    apply (rule emits_uniform, simp)
    apply (unfold prod.case)
    apply (simp only: of_bool_eq_0_iff not_not)
    apply (rule emits_if)
     apply (rule emits_uniform, simp, unfold prod.case)
     apply (rule emits_uniform, simp, unfold prod.case)
     apply (simp only: one_neq_zero not_False_eq_True if_True simp_thms)
     apply (rule emits_bind[OF data, unfolded append.simps append_assoc])
     apply (rule emits_if[OF probas emits_Some])
    apply (rule emits_Some)
    done
qed

text \<open>A loop that reads the entries of an array.\<close>

lemma parses_store_loop:
  assumes len: "length old = k" "length new = k"
    and body: "\<And>i q. i < k \<Longrightarrow> length q = k \<Longrightarrow>
      parses w mem bs (\<lambda>br. body i (mk q, br)) (xs i) (Pair (mk (q[i := new ! i])))"
  shows "parses w mem bs (\<lambda>br. for_range 0 k body (mk old, br)) (concat (map xs [0..<k])) (Pair (mk new))"
proof -
  let ?r = "\<lambda>i. Pair (mk (take i new @ drop i old))"
  have "parses w mem bs (\<lambda>br. for_range 0 k body (?r 0 br)) (concat (map xs [0..<k])) (?r k)"
  proof (rule parses_for)
    fix i assume i: "i < k"
    have "(take i new @ drop i old)[i := new ! i] = take (Suc i) new @ drop (Suc i) old"
      using len i by (simp add: list_update_append take_Suc_conv_app_nth flip: Cons_nth_drop_Suc)
    with body[OF i, of "take i new @ drop i old"] len i
    show "parses w mem bs (\<lambda>br. body i (?r i br)) (xs i) (?r (Suc i))" by simp
  qed simp
  then show ?thesis using len by simp
qed

text \<open>\<open>flag ? VP8GetValue(br, 8) : default\<close>\<close>

lemma parses_choice:
  assumes "0 \<le> p" "p < 256" "k (word_of_int p) = p" "\<not> c \<Longrightarrow> d = p" "\<And>w. parses w mem bs (\<lambda>br. g (p, br)) [] r"
  shows "parses w mem bs (\<lambda>br. (if c then do { (v, br) \<leftarrow> VP8GetValue mem br 8; Some (k v, br) } else Some (d, br)) \<bind> g)
    (if c then bits_of 8 (word_of_int p) else []) r"
proof (cases c)
  case True
  have "uint (word_of_int p :: u32) < 2 ^ 8" using assms(1,2) by (simp add: uint_word_of_int)
  then have "parses w mem bs (\<lambda>br. do { (v, br) \<leftarrow> VP8GetValue mem br 8; Some (k v, br) }) (bits_of 8 (word_of_int p)) (Pair p)"
    using assms(3) by (intro parses_value[where ys = "[]", unfolded append_Nil2]) (auto intro!: parses_final)
  from parses_then[OF this assms(5)] show ?thesis using True by simp
qed (use assms in simp)

lemma uint_byte: "0 \<le> p \<Longrightarrow> p < 256 \<Longrightarrow> take_bit 8 (uint (word_of_int p :: u32)) = p"
  by (simp add: uint_word_of_int take_bit_int_eq_self)

lemma signed_take_bit_byte: "\<bar>v\<bar> < 128 \<Longrightarrow> signed_take_bit 7 v = v" for v :: int
  by (rule signed_take_bit_int_eq_self) auto

lemma parses_ParseSegmentHeader:
  assumes "segment_ok enc" "length (quantizer hdr) = 4" "length (filter_strength hdr) = 4" "length (segments proba) = 3"
  shows "parses w mem bs (ParseSegmentHeader mem hdr proba) (segment_symbols enc)
    (\<lambda>br. (1, segment_result enc hdr, segment_probas enc proba, br))"
proof -
  note ok = assms(1)[unfolded segment_ok_def]
  have data: "parses w mem bs (get_segment_data mem h)
    ((True, 128) # concat (map (\<lambda>s. symbols (Signed 7 (quant (e_dqm enc ! s)))) [0..<4]) @
      concat (map (\<lambda>s. symbols (Signed 6 (fstrength (e_dqm enc ! s)))) [0..<4]))
    (Pair (h\<lparr>absolute_delta := 1, quantizer := map quant (e_dqm enc), filter_strength := map fstrength (e_dqm enc)\<rparr>))"
    if h: "length (quantizer h) = 4" "length (filter_strength h) = 4" for w h
  proof -
    let ?h = "h\<lparr>absolute_delta := 1\<rparr>"
    have q: "parses w mem bs (\<lambda>br. for_range 0 4 (\<lambda>s (hdr, br). do {
          (v, br) \<leftarrow> get_optional mem 7 br;
          q \<leftarrow> st (quantizer hdr) (int s) (signed_take_bit 7 v);
          Some (hdr\<lparr>quantizer := q\<rparr>, br) }) (?h\<lparr>quantizer := quantizer h\<rparr>, br))
        (concat (map (\<lambda>s. symbols (Signed 7 (quant (e_dqm enc ! s)))) [0..<4])) (Pair (?h\<lparr>quantizer := map quant (e_dqm enc)\<rparr>))" for w
    proof (rule parses_store_loop[where mk = "\<lambda>q. ?h\<lparr>quantizer := q\<rparr>"], goal_cases)
      case (3 i q)
      then have "\<bar>quant (e_dqm enc ! i)\<bar> < 128" using ok by auto
      with 3 ok show ?case unfolding prod.case
        by (intro parses_opt[where ys = "[]", unfolded append_Nil2]) (auto intro!: parses_final simp: st_nat signed_take_bit_byte)
    qed (use h ok in auto)
    have f: "parses w mem bs (\<lambda>br. for_range 0 4 (\<lambda>s (hdr, br). do {
          (v, br) \<leftarrow> get_optional mem 6 br;
          q \<leftarrow> st (filter_strength hdr) (int s) (signed_take_bit 7 v);
          Some (hdr\<lparr>filter_strength := q\<rparr>, br) }) (?h\<lparr>quantizer := map quant (e_dqm enc), filter_strength := filter_strength h\<rparr>, br))
        (concat (map (\<lambda>s. symbols (Signed 6 (fstrength (e_dqm enc ! s)))) [0..<4]))
        (Pair (?h\<lparr>quantizer := map quant (e_dqm enc), filter_strength := map fstrength (e_dqm enc)\<rparr>))" for w
    proof (rule parses_store_loop[where mk = "\<lambda>q. ?h\<lparr>quantizer := map quant (e_dqm enc), filter_strength := q\<rparr>"], goal_cases)
      case (3 i q)
      then have b: "\<bar>fstrength (e_dqm enc ! i)\<bar> < 64" using ok by auto
      then have "\<bar>fstrength (e_dqm enc ! i)\<bar> < 128" by linarith
      with 3 b ok show ?case unfolding prod.case
        by (intro parses_opt[where ys = "[]", unfolded append_Nil2]) (auto intro!: parses_final simp: st_nat signed_take_bit_byte)
    qed (use h ok in auto)
    show ?thesis
      unfolding get_segment_data_def
    proof (rule parses_get, unfold prod.case of_bool_eq Let_def, rule parses_then[where r = "Pair (?h\<lparr>quantizer := map quant (e_dqm enc)\<rparr>)"], goal_cases)
      case 1
      then show ?case using q by simp
    next
      case 2
      then show ?case using f by simp
    qed
  qed
  have probas: "parses w mem bs (get_segment_probas mem proba)
    (concat (map (\<lambda>s. (e_segments (e_proba enc) ! s \<noteq> 255, 128) #
      (if e_segments (e_proba enc) ! s \<noteq> 255 then bits_of 8 (word_of_int (e_segments (e_proba enc) ! s)) else [])) [0..<3]))
    (Pair (proba\<lparr>segments := e_segments (e_proba enc)\<rparr>))" for w
  proof -
    have "parses w mem bs (\<lambda>br. get_segment_probas mem (proba\<lparr>segments := segments proba\<rparr>) br)
    (concat (map (\<lambda>s. (e_segments (e_proba enc) ! s \<noteq> 255, 128) #
      (if e_segments (e_proba enc) ! s \<noteq> 255 then bits_of 8 (word_of_int (e_segments (e_proba enc) ! s)) else [])) [0..<3]))
    (Pair (proba\<lparr>segments := e_segments (e_proba enc)\<rparr>))"
      unfolding get_segment_probas_def
    proof (rule parses_store_loop[where mk = "\<lambda>q. proba\<lparr>segments := q\<rparr>"], goal_cases)
      case (3 i q)
      define p where "p = e_segments (e_proba enc) ! i"
      have p: "0 \<le> p" "p < 256" using 3 ok by (auto simp: p_def)
      show ?case unfolding prod.case p_def[symmetric]
        by (rule parses_get, unfold prod.case, simp only: of_bool_eq_0_iff not_not,
            rule parses_choice[where k = "\<lambda>v. take_bit 8 (uint v)"])
          (use 3 p in \<open>auto intro!: parses_final simp: st_nat uint_byte\<close>)
    qed (use assms ok in auto)
    then show ?thesis by simp
  qed
  show ?thesis
  proof (cases "num_segments (e_segment_hdr enc) > 1")
    case True
    define um where "um = e_update_map (e_segment_hdr enc)"
    have um: "of_bool (um \<noteq> 0) = um" using ok by (auto simp: um_def)
    define C where "C = (if um \<noteq> 0 then concat (map (\<lambda>s. (e_segments (e_proba enc) ! s \<noteq> 255, 128) #
      (if e_segments (e_proba enc) ! s \<noteq> 255 then bits_of 8 (word_of_int (e_segments (e_proba enc) ! s)) else [])) [0..<3]) else [])"
    define A where "A = (True, 128) # concat (map (\<lambda>s. symbols (Signed 7 (quant (e_dqm enc ! s)))) [0..<4]) @
      concat (map (\<lambda>s. symbols (Signed 6 (fstrength (e_dqm enc ! s)))) [0..<4])"
    have sy: "segment_symbols enc = (True, 128) # ((um \<noteq> 0, 128) # (True, 128) # A @ C) @ []"
      using True by (simp add: segment_symbols_def A_def C_def um_def)
    let ?h = "hdr\<lparr>use_segment := 1\<rparr>"
    have C: "parses w mem bs (\<lambda>br. do {
        (proba, br) \<leftarrow> (if um \<noteq> 0 then get_segment_probas mem proba br else Some (proba, br));
        Some (segment_result enc hdr, proba, br) }) (C @ []) (\<lambda>br. (segment_result enc hdr, segment_probas enc proba, br))" for w
    proof (rule parses_then)
      show "parses w mem bs (\<lambda>br. if um \<noteq> 0 then get_segment_probas mem proba br else Some (proba, br)) C (Pair (segment_probas enc proba))"
        using probas True unfolding C_def by (auto simp: segment_probas_def um_def intro: parses_final)
    qed (simp add: parses_Some)
    have "parses True mem bs (\<lambda>br. do {
        (m, br) \<leftarrow> VP8Get mem br;
        let hdr = ?h\<lparr>update_map := m\<rparr>;
        (d, br) \<leftarrow> VP8Get mem br;
        (hdr, br) \<leftarrow> (if d \<noteq> 0 then get_segment_data mem hdr br else Some (hdr, br));
        (proba, br) \<leftarrow> (if update_map hdr \<noteq> 0 then get_segment_probas mem proba br else Some (proba, br));
        Some (hdr, proba, br) })
      ((um \<noteq> 0, 128) # (True, 128) # A @ C) (\<lambda>br. (segment_result enc hdr, segment_probas enc proba, br))"
    by (rule parses_get, unfold prod.case Let_def um, rule parses_get,
        unfold prod.case of_bool_eq_0_iff not_not if_True, rule parses_then[OF data[folded A_def]])
        (use C True assms in \<open>simp_all add: segment_result_def um_def\<close>)
    note inner = this[unfolded Let_def]
    have sel: "use_segment (hdr\<lparr>use_segment := 1\<rparr>) \<noteq> 0" by simp
    show ?thesis
      unfolding ParseSegmentHeader_def sy Let_def
      by (rule parses_get, unfold prod.case of_bool_eq if_P[OF sel],
        rule parses_then[OF inner]) (auto intro!: parses_final)
  next
    case False
    then show ?thesis
      unfolding ParseSegmentHeader_def segment_symbols_def Let_def
      by (simp only: if_False) (rule parses_get, auto intro!: parses_final simp: segment_result_def segment_probas_def)
  qed
qed


subsection \<open>The filter header\<close>

definition filter_symbols :: "VP8EncFilterHeader \<Rightarrow> symbol list" where
  "filter_symbols h =
     (e_simple h \<noteq> 0, 128) # bits_of 6 (word_of_int (e_level h)) @ bits_of 3 (word_of_int (e_sharpness h)) @
     (i4x4_lf_delta h \<noteq> 0, 128) #
     (if i4x4_lf_delta h \<noteq> 0 then (True, 128) # bits_of 4 0 @ symbols (Signed 6 (i4x4_lf_delta h)) @ bits_of 3 0 else [])"

definition filter_ok :: "VP8EncFilterHeader \<Rightarrow> bool" where
  "filter_ok h \<longleftrightarrow> (e_simple h = 0 \<or> e_simple h = 1) \<and> 0 \<le> e_level h \<and> e_level h < 64 \<and>
     0 \<le> e_sharpness h \<and> e_sharpness h < 8 \<and> \<bar>i4x4_lf_delta h\<bar> < 64"

definition filter_result :: "VP8EncFilterHeader \<Rightarrow> VP8FilterHeader \<Rightarrow> VP8FilterHeader" where
  "filter_result h hdr =
     (let hdr = hdr\<lparr>simple := e_simple h, level := e_level h, sharpness := e_sharpness h, use_lf_delta := of_bool (i4x4_lf_delta h \<noteq> 0)\<rparr>
      in if i4x4_lf_delta h \<noteq> 0 then hdr\<lparr>mode_lf_delta := (mode_lf_delta hdr)[0 := i4x4_lf_delta h]\<rparr> else hdr)"

lemma emits_PutFilterHeader: "filter_ok h \<Longrightarrow> emits malloc e (PutFilterHeader malloc h) (filter_symbols h) (\<lambda>bw. bw)"
  unfolding PutFilterHeader_def filter_symbols_def Let_def filter_ok_def
  apply (rule emits_uniform, simp, unfold prod.case)
  apply (rule emits_bits, simp, simp, simp)
  apply (rule emits_bits, simp, simp, simp)
  apply (rule emits_uniform, simp, unfold prod.case of_bool_eq_0_iff not_not)
  apply (rule emits_if[OF _ emits_Some])
  apply (rule emits_uniform, simp)
  apply (simp only: prod.case of_bool_eq_0_iff not_not not_False_eq_True if_True)
  apply (rule emits_bits, simp, simp, simp)
  apply (rule emits_signed, simp, simp, simp, simp)
  apply (rule emits_PutBits; simp)
  done

lemma bits_of_zero: "bits_of n 0 = replicate n (False, 128)"
  by (induction n) (simp_all add: bits_of_simps)

lemma parses_lf_deltas_zero: 
  assumes "k = 4 - a" "a \<le> 4"
  shows "parses w mem bs (\<lambda>br. for_range a 4 (\<lambda>i (deltas, br). do {
          (f, br) \<leftarrow> VP8Get mem br;
          (if f \<noteq> 0 then do {
             (v, br) \<leftarrow> VP8GetSignedValue mem br 6;
             deltas \<leftarrow> st deltas (int i) v;
             Some (deltas, br) }
           else Some (deltas, br)) }) (ds, br)) (bits_of k 0) (Pair ds)"
proof -
  have "parses w mem bs (\<lambda>br. for_range a 4 (\<lambda>i (deltas, br). do {
          (f, br) \<leftarrow> VP8Get mem br;
          (if f \<noteq> 0 then do {
             (v, br) \<leftarrow> VP8GetSignedValue mem br 6;
             deltas \<leftarrow> st deltas (int i) v;
             Some (deltas, br) }
           else Some (deltas, br)) }) (Pair ds br)) (concat (map (\<lambda>_. [(False, 128)]) [a..<4])) (Pair ds)"
  proof (rule parses_for[where r = "\<lambda>_. Pair ds"])
    show "parses w mem bs (\<lambda>br. case (ds, br) of (deltas, br) \<Rightarrow> do {
          (f, br) \<leftarrow> VP8Get mem br;
          (if f \<noteq> 0 then do {
             (v, br) \<leftarrow> VP8GetSignedValue mem br 6;
             deltas \<leftarrow> st deltas (int i) v;
             Some (deltas, br) }
           else Some (deltas, br)) }) [(False, 128)] (Pair ds)" for i
      unfolding prod.case by (rule parses_get) (auto intro!: parses_final)
  qed (fact assms(2))
  moreover have "concat (map (\<lambda>_. [(False, 128 :: int)]) [a..<4]) = bits_of k 0"
    by (simp add: bits_of_zero assms(1) map_replicate_const concat_replicate_single)
  ultimately show ?thesis by simp
qed


lemma sint_small_int: "0 \<le> v \<Longrightarrow> v < 2 ^ 31 \<Longrightarrow> sint (word_of_int v :: u32) = v"
  by (simp add: signed_of_int signed_take_bit_int_eq_self)

lemma parses_GetSignedValue:
  assumes "n < 31" "\<bar>v\<bar> < 2 ^ n" "k = int n"
  shows "parses w mem bs (\<lambda>br. VP8GetSignedValue mem br k) (bits_of n (word_of_int \<bar>v\<bar>) @ [(v < 0, 128)]) (Pair v)"
proof -
  have "(2 :: int) ^ n \<le> 2 ^ 30" using assms(1) by (intro power_increasing) auto
  then have b: "\<bar>v\<bar> < 2 ^ 31" using assms(2) by simp
  define m where "m = (word_of_int \<bar>v\<bar> :: u32)"
  have u: "uint m < 2 ^ n" "sint m = \<bar>v\<bar>"
    using b assms(2) sint_small_int[OF abs_ge_zero b] by (simp_all add: m_def uint_word_of_int)
  have "parses w mem bs (\<lambda>br. VP8Get mem br \<bind> (\<lambda>(neg, br). Some (if neg \<noteq> 0 then - sint m else sint m, br))) [(v < 0, 128)] (Pair v)" for w
    by (rule parses_get) (auto intro!: parses_final simp: u)
  with u(1) show ?thesis
    unfolding VP8GetSignedValue_def Let_def m_def[symmetric] using assms
    by (intro parses_value) simp_all
qed

lemma parses_ParseFilterHeader:
  assumes ok: "filter_ok h" and len: "length (mode_lf_delta hdr) = 4"
  shows "parses w mem bs (ParseFilterHeader mem hdr) (filter_symbols h)
    (\<lambda>br. (1, (if e_level h = 0 then 0 else if e_simple h \<noteq> 0 then 1 else 2), filter_result h hdr, br))"
proof -
  define v where "v = i4x4_lf_delta h"
  let ?hdr = "hdr\<lparr>simple := e_simple h, level := e_level h, sharpness := e_sharpness h, use_lf_delta := of_bool (v \<noteq> 0)\<rparr>"
  have b: "0 \<le> e_level h" "e_level h < 64" "0 \<le> e_sharpness h" "e_sharpness h < 8" "\<bar>v\<bar> < 64"
    "of_bool (e_simple h \<noteq> 0) = e_simple h" using ok by (auto simp: filter_ok_def v_def)
  have w: "uint (word_of_int (e_level h) :: u32) < 2 ^ 6" "uint (word_of_int (e_sharpness h) :: u32) < 2 ^ 3"
    "sint (word_of_int (e_level h) :: u32) = e_level h" "sint (word_of_int (e_sharpness h) :: u32) = e_sharpness h"
    using b by (simp_all add: uint_word_of_int sint_small_int)
  have mode: "parses w mem bs (get_lf_deltas mem (mode_lf_delta hdr)) (symbols (Signed 6 v) @ bits_of 3 0)
      (Pair ((mode_lf_delta hdr)[0 := v]))" if "v \<noteq> 0" for w
  proof -
    let ?body = "\<lambda>i (deltas, br). do {
          (f, br) \<leftarrow> VP8Get mem br;
          (if f \<noteq> 0 then do {
             (v, br) \<leftarrow> VP8GetSignedValue mem br 6;
             deltas \<leftarrow> st deltas (int i) v;
             Some (deltas, br) }
           else Some (deltas, br)) }"
    have "parses True mem bs (\<lambda>br. VP8GetSignedValue mem br 6 \<bind> (\<lambda>(v, br). do { d \<leftarrow> st (mode_lf_delta hdr) (int 0) v; Some (d, br) }))
      ((bits_of 6 (word_of_int \<bar>v\<bar>) @ [(v < 0, 128)]) @ []) (Pair ((mode_lf_delta hdr)[0 := v]))"
      by (rule parses_then[OF parses_GetSignedValue]) (use b len in \<open>auto intro!: parses_final simp: st_def\<close>)
    then have "parses w mem bs (\<lambda>br. ?body 0 (mode_lf_delta hdr, br)) (symbols (Signed 6 v)) (Pair ((mode_lf_delta hdr)[0 := v]))"
      unfolding prod.case using that by simp (rule parses_get, simp)
    then have "parses w mem bs (\<lambda>br. ?body 0 (mode_lf_delta hdr, br) \<bind> for_range 1 4 ?body) (symbols (Signed 6 v) @ bits_of 3 0)
      (Pair ((mode_lf_delta hdr)[0 := v]))"
      by (rule parses_then) (rule parses_lf_deltas_zero, simp_all)
    then show ?thesis unfolding get_lf_deltas_def by (simp add: for_range_step[of 0] del: symbols.simps)
  qed
  have deltas: "parses True mem bs (\<lambda>br. if use_lf_delta ?hdr \<noteq> 0 then do {
          (f, br) \<leftarrow> VP8Get mem br;
          (if f \<noteq> 0 then do {
             (r, br) \<leftarrow> get_lf_deltas mem (ref_lf_delta ?hdr) br;
             (m, br) \<leftarrow> get_lf_deltas mem (mode_lf_delta ?hdr) br;
             Some (?hdr\<lparr>ref_lf_delta := r, mode_lf_delta := m\<rparr>, br) }
           else Some (?hdr, br)) }
        else Some (?hdr, br))
      (if v \<noteq> 0 then (True, 128) # bits_of 4 0 @ symbols (Signed 6 v) @ bits_of 3 0 else []) (Pair (filter_result h hdr))"
  proof (cases "v = 0")
    case True
    then show ?thesis by (auto intro!: parses_final simp: filter_result_def v_def)
  next
    case False
    have zero: "parses w mem bs (get_lf_deltas mem (ref_lf_delta hdr)) (bits_of 4 0) (Pair (ref_lf_delta hdr))" for w
      unfolding get_lf_deltas_def by (rule parses_lf_deltas_zero) simp_all
    have "parses w mem bs (\<lambda>br. do {
             (m, br) \<leftarrow> get_lf_deltas mem (mode_lf_delta ?hdr) br;
             Some (?hdr\<lparr>ref_lf_delta := ref_lf_delta hdr, mode_lf_delta := m\<rparr>, br) })
        ((symbols (Signed 6 v) @ bits_of 3 0) @ []) (Pair (filter_result h hdr))" for w
      by (rule parses_then) (use mode[OF False] False in \<open>auto intro!: parses_final simp: filter_result_def v_def simp del: symbols.simps\<close>)
    then show ?thesis
      using False apply (simp del: symbols.simps)
      apply (rule parses_get)
      apply (simp del: symbols.simps)
      apply (rule parses_then[OF zero])
      apply (simp del: symbols.simps)
      done
  qed
  show ?thesis
    unfolding ParseFilterHeader_def filter_symbols_def Let_def v_def[symmetric]
    apply (intro parses_get)
    apply (unfold prod.case b(6))
    apply (rule parses_value[OF _ w(1)], simp, simp, unfold prod.case)
    apply (rule parses_value[OF _ w(2)], simp, simp, unfold prod.case)
    apply (rule parses_get, unfold prod.case w(3,4))
    apply (rule parses_then[OF deltas, where ys = "[]", unfolded append_Nil2])
    apply (rule parses_final)
    apply (simp add: filter_result_def Let_def)
    done
qed

subsection \<open>The quantizer header\<close>

definition quant_deltas :: "VP8Encoder \<Rightarrow> int list" where
  "quant_deltas enc = [dq_y1_dc enc, dq_y2_dc enc, dq_y2_ac enc, dq_uv_dc enc, dq_uv_ac enc]"

definition quant_symbols :: "VP8Encoder \<Rightarrow> symbol list" where
  "quant_symbols enc =
     bits_of 7 (word_of_int (base_quant enc)) @ symbols (Signed 4 (dq_y1_dc enc)) @ symbols (Signed 4 (dq_y2_dc enc)) @
     symbols (Signed 4 (dq_y2_ac enc)) @ symbols (Signed 4 (dq_uv_dc enc)) @ symbols (Signed 4 (dq_uv_ac enc))"

definition quant_ok :: "VP8Encoder \<Rightarrow> bool" where
  "quant_ok enc \<longleftrightarrow> 0 \<le> base_quant enc \<and> base_quant enc < 128 \<and> \<bar>dq_y1_dc enc\<bar> < 16 \<and> \<bar>dq_y2_dc enc\<bar> < 16 \<and>
     \<bar>dq_y2_ac enc\<bar> < 16 \<and> \<bar>dq_uv_dc enc\<bar> < 16 \<and> \<bar>dq_uv_ac enc\<bar> < 16"

lemma emits_PutQuant: "quant_ok enc \<Longrightarrow> emits malloc e (PutQuant malloc enc) (quant_symbols enc) (\<lambda>bw. bw)"
  unfolding PutQuant_def quant_symbols_def quant_ok_def
  by (rule emits_bits, simp, simp, simp, (rule emits_signed, simp, simp, simp, simp)+, rule emits_PutSignedBits; simp)

text \<open>The matrix of the steps that the encoder uses for a quantizer index.\<close>

definition steps_matrix :: "VP8Encoder \<Rightarrow> int \<Rightarrow> VP8QuantMatrix \<Rightarrow> VP8QuantMatrix" where
  "steps_matrix enc q m =
     m\<lparr>y1_mat := [kDcTable ! nat (dec_clip (q + dq_y1_dc enc) 127), kAcTable ! nat (dec_clip q 127)],
       y2_mat := [kDcTable ! nat (dec_clip (q + dq_y2_dc enc) 127) * 2, kAcTable2 ! nat (dec_clip (q + dq_y2_ac enc) 127)],
       uv_mat := [kDcTable ! nat (dec_clip (q + dq_uv_dc enc) 117), kAcTable ! nat (dec_clip (q + dq_uv_ac enc) 127)],
       uv_quant := q + dq_uv_ac enc\<rparr>"

lemma clip_range: "0 \<le> M \<Longrightarrow> 0 \<le> dec_clip v M \<and> dec_clip v M \<le> M"
  by (simp add: dec_clip_def)

lemma clip_same: "0 \<le> M \<Longrightarrow> enc_clip v 0 M = dec_clip v M"
  by (simp add: enc_clip_def dec_clip_def)

lemma quantizer_length: "length kDcTable = 128" "length kAcTable = 128" "length kAcTable2 = 128"
  by (simp_all add: kDcTable_def kAcTable_def kAcTable2_def)

lemma quantizer_ld:
  "M \<le> 127 \<Longrightarrow> 0 \<le> M \<Longrightarrow> ld kDcTable (dec_clip v M) = Some (kDcTable ! nat (dec_clip v M))"
  "M \<le> 127 \<Longrightarrow> 0 \<le> M \<Longrightarrow> ld kAcTable (dec_clip v M) = Some (kAcTable ! nat (dec_clip v M))"
  "M \<le> 127 \<Longrightarrow> 0 \<le> M \<Longrightarrow> ld kAcTable2 (dec_clip v M) = Some (kAcTable2 ! nat (dec_clip v M))"
  using clip_range[of M v] by (auto simp: ld_def quantizer_length)

lemma quant_matrix_steps: "quant_matrix q (quant_deltas enc) m = Some (steps_matrix enc q m)"
proof -
  define i where "i = nat (dec_clip (q + dq_y2_ac enc) 127)"
  have "i < 128" using clip_range[of 127 "q + dq_y2_ac enc"] by (simp add: i_def nat_less_iff)
  then have "kAcTable2 ! i = max 8 (drop_bit 16 (kAcTable ! i * 101581))"
    by (simp add: second_ac_table quantizer_length)
  also have "max 8 y = (if y < 8 then 8 else y)" for y :: int by simp
  finally show ?thesis
    by (simp add: quant_matrix_def steps_matrix_def quant_deltas_def quantizer_ld Let_def i_def)
qed

lemma setup_steps_matrix:
  "setup_steps enc m = Some (m\<lparr>y1_q := y1_mat (steps_matrix enc (quant m) undefined), y2_q := y2_mat (steps_matrix enc (quant m) undefined),
    uv_q := uv_mat (steps_matrix enc (quant m) undefined)\<rparr>)"
  by (simp add: setup_steps_def steps_matrix_def Let_def clip_same quantizer_tables quantizer_ld)


definition quant_result :: "VP8Encoder \<Rightarrow> VP8SegmentHeader \<Rightarrow> VP8QuantMatrix list \<Rightarrow> VP8QuantMatrix list" where
  "quant_result enc hdr dqm =
     (if use_segment hdr \<noteq> 0 then
        map (\<lambda>i. steps_matrix enc (if absolute_delta hdr = 0 then quantizer hdr ! i + base_quant enc else quantizer hdr ! i) (dqm ! i)) [0..<4]
      else replicate 4 (steps_matrix enc (base_quant enc) (dqm ! 0)))"

lemma length_4: "length xs = 4 \<Longrightarrow> \<exists>a b c d. xs = [a, b, c, d]"
  by (auto simp: length_Suc_conv eval_nat_numeral)

lemma parses_VP8ParseQuant:
  assumes ok: "quant_ok enc" and len: "length (quantizer hdr) = 4" "length dqm = 4"
  shows "parses w mem bs (VP8ParseQuant mem hdr dqm) (quant_symbols enc) (Pair (quant_result enc hdr dqm))"
proof -
  note ok = ok[unfolded quant_ok_def]
  have base: "uint (word_of_int (base_quant enc) :: u32) < 2 ^ 7" "sint (word_of_int (base_quant enc) :: u32) = base_quant enc"
    using ok by (simp_all add: uint_word_of_int sint_small_int)
  obtain m0 m1 m2 m3 where m: "dqm = [m0, m1, m2, m3]" using length_4[OF len(2)] by blast
  obtain q0 q1 q2 q3 where q: "quantizer hdr = [q0, q1, q2, q3]" using length_4[OF len(1)] by blast
  have loop: "for_range 0 4
       (\<lambda>i dqm.
          if use_segment hdr \<noteq> 0 then do {
            q \<leftarrow> ld (quantizer hdr) (int i);
            m \<leftarrow> ld dqm (int i);
            m \<leftarrow> quant_matrix (if absolute_delta hdr = 0 then q + base_quant enc else q) (quant_deltas enc) m;
            st dqm (int i) m }
          else if i > 0 then do { m \<leftarrow> ld dqm 0; st dqm (int i) m }
          else do {
            m \<leftarrow> ld dqm (int i);
            m \<leftarrow> quant_matrix (base_quant enc) (quant_deltas enc) m;
            st dqm (int i) m }) dqm = Some (quant_result enc hdr dqm)"
    by (cases "use_segment hdr = 0")
      (simp_all add: exec_simps ld_def st_def m q quant_matrix_steps quant_result_def upt_rec eval_nat_numeral)
  show ?thesis
    unfolding VP8ParseQuant_def quant_symbols_def Let_def
    apply (rule parses_value[OF _ base(1)], simp, simp, unfold prod.case base(2))
    apply (rule parses_opt, simp, simp, use ok in simp, simp, unfold prod.case)
    apply (rule parses_opt, simp, simp, use ok in simp, simp, unfold prod.case)
    apply (rule parses_opt, simp, simp, use ok in simp, simp, unfold prod.case)
    apply (rule parses_opt, simp, simp, use ok in simp, simp, unfold prod.case)
    apply (rule parses_opt[where ys = "[]", unfolded append_Nil2], simp, simp, use ok in simp, simp, unfold prod.case)
    apply (rule parses_final)
    apply (simp only: loop[unfolded quant_deltas_def] Option.bind.simps)
    done
qed

subsection \<open>The coefficient probabilities\<close>

lemma ld4_shape:
  assumes "shape4 A B C D tab" "a < A" "b < B" "c < C" "d < D"
  shows "ld4 tab a b c d = Some (tab ! a ! b ! c ! d)" "0 \<le> tab ! a ! b ! c ! d" "tab ! a ! b ! c ! d < 256"
proof -
  have 1: "length tab = A" "tab ! a \<in> set tab" using assms by (auto simp: shape4_def)
  then have 2: "length (tab ! a) = B" using assms(1) by (simp add: shape4_def)
  then have 3: "tab ! a ! b \<in> set (tab ! a)" using assms(3) by simp
  then have 4: "length (tab ! a ! b) = C" using assms(1) 1 by (simp add: shape4_def)
  then have 5: "tab ! a ! b ! c \<in> set (tab ! a ! b)" using assms(4) by simp
  then have 6: "length (tab ! a ! b ! c) = D" using assms(1) 1 3 by (simp add: shape4_def)
  then have 7: "tab ! a ! b ! c ! d \<in> set (tab ! a ! b ! c)" using assms(5) by simp
  have s: "length tab = A" "length (tab ! a) = B" "length (tab ! a ! b) = C" "length (tab ! a ! b ! c) = D"
    "0 \<le> tab ! a ! b ! c ! d \<and> tab ! a ! b ! c ! d < 256" using assms(1) 1 2 3 4 5 6 7 by (simp_all add: shape4_def)
  then show "ld4 tab a b c d = Some (tab ! a ! b ! c ! d)" "0 \<le> tab ! a ! b ! c ! d" "tab ! a ! b ! c ! d < 256"
    using assms by (auto simp: ld4_def ld_nat)
qed

text \<open>The tables in mid-loop: the entries below the counter \<open>k\<close> are the new ones.\<close>

definition build4 :: "(nat \<Rightarrow> nat \<Rightarrow> nat \<Rightarrow> nat \<Rightarrow> int) \<Rightarrow> int list list list list" where
  "build4 F = map (\<lambda>t. map (\<lambda>b. map (\<lambda>c. map (F t b c) [0..<11]) [0..<3]) [0..<8]) [0..<4]"

definition merge4 :: "nat \<Rightarrow> int list list list list \<Rightarrow> int list list list list \<Rightarrow> int list list list list" where
  "merge4 k new old = build4 (\<lambda>t b c p. if ((t * 8 + b) * 3 + c) * 11 + p < k then new ! t ! b ! c ! p else old ! t ! b ! c ! p)"

lemma build4_cong: "(\<And>t b c p. t < 4 \<Longrightarrow> b < 8 \<Longrightarrow> c < 3 \<Longrightarrow> p < 11 \<Longrightarrow> F t b c p = G t b c p) \<Longrightarrow> build4 F = build4 G"
  by (auto simp: build4_def intro!: map_cong)

lemma counter_inj:
  fixes t b c p :: nat
  assumes "b < 8" "c < 3" "p < 11" "b' < 8" "c' < 3" "p' < 11"
    "((t * 8 + b) * 3 + c) * 11 + p = ((t' * 8 + b') * 3 + c') * 11 + p'"
  shows "t = t' \<and> b = b' \<and> c = c' \<and> p = p'"
proof -
  have split: "x = x' \<and> y = y'" if "x * n + y = x' * n + y'" "y < n" "y' < n" for x y x' y' n :: nat
  proof -
    have "(x * n + y) div n = (x' * n + y') div n" "(x * n + y) mod n = (x' * n + y') mod n" using that by simp_all
    then show ?thesis using that(2,3) by simp
  qed
  from split[OF assms(7,3,6)] split[of "t * 8 + b" 3 c "t' * 8 + b'" c'] split[of t 8 b t' b'] assms show ?thesis by auto
qed

lemma map_upt_update: "(map f [0..<n])[i := y] = map (\<lambda>j. if j = i then y else f j) [0..<n]"
  by (rule nth_equalityI) (auto simp: nth_list_update)

lemma st4_build4:
  assumes "t < 4" "b < 8" "c < 3" "p < 11"
  shows "st4 (build4 F) t b c p v = Some (build4 (\<lambda>t' b' c' p'. if t' = t \<and> b' = b \<and> c' = c \<and> p' = p then v else F t' b' c' p'))"
proof -
  have "st4 (build4 F) t b c p v = Some (map (\<lambda>t'. if t' = t
      then map (\<lambda>b'. if b' = b
        then map (\<lambda>c'. if c' = c then map (\<lambda>p'. if p' = p then v else F t b c p') [0..<11] else map (F t b c') [0..<11]) [0..<3]
        else map (\<lambda>c. map (F t b' c) [0..<11]) [0..<3]) [0..<8]
      else map (\<lambda>b. map (\<lambda>c. map (F t' b c) [0..<11]) [0..<3]) [0..<8]) [0..<4])"
    unfolding st4_def build4_def using assms by (simp add: ld_nat st_nat map_upt_update del: upt_Suc)
  also have "\<dots> = Some (build4 (\<lambda>t' b' c' p'. if t' = t \<and> b' = b \<and> c' = c \<and> p' = p then v else F t' b' c' p'))"
    unfolding build4_def by (auto intro!: map_cong)
  finally show ?thesis .
qed

lemma st4_merge4:
  assumes "t < 4" "b < 8" "c < 3" "p < 11" "k = ((t * 8 + b) * 3 + c) * 11 + p" "v = new ! t ! b ! c ! p"
  shows "st4 (merge4 k new old) t b c p v = Some (merge4 (Suc k) new old)"
proof -
  have less: "((t' * 8 + b') * 3 + c') * 11 + p' < Suc k \<longleftrightarrow> (t' = t \<and> b' = b \<and> c' = c \<and> p' = p) \<or> ((t' * 8 + b') * 3 + c') * 11 + p' < k"
    if "b' < 8" "c' < 3" "p' < 11" for t' b' c' p'
    using counter_inj[OF that assms(2-4), of t' t] assms(5) by (auto simp only: less_Suc_eq)
  show ?thesis
    unfolding merge4_def st4_build4[OF assms(1-4)] assms(6)
    by (rule arg_cong[where f = Some], rule build4_cong) (simp only: less, auto)
qed

lemma list_as_map: "length xs = n \<Longrightarrow> (\<And>i. i < n \<Longrightarrow> xs ! i = f i) \<Longrightarrow> xs = map f [0..<n]"
  by (rule nth_equalityI) simp_all

definition dims4 :: "int list list list list \<Rightarrow> bool" where
  "dims4 tab \<longleftrightarrow> length tab = 4 \<and> (\<forall>x\<in>set tab. length x = 8 \<and> (\<forall>y\<in>set x. length y = 3 \<and> (\<forall>z\<in>set y. length z = 11)))"

lemma dims4_build: "dims4 tab \<Longrightarrow> tab = build4 (\<lambda>t b c p. tab ! t ! b ! c ! p)"
  unfolding build4_def dims4_def by (intro list_as_map) (auto simp: all_set_conv_all_nth)

lemma shape4_dims: "shape4 4 8 3 11 tab \<Longrightarrow> dims4 tab"
  by (auto simp: shape4_def dims4_def)

lemma merge4_ends:
  "dims4 old \<Longrightarrow> merge4 0 new old = old" "dims4 new \<Longrightarrow> 1056 \<le> k \<Longrightarrow> merge4 k new old = new"
proof -
  show "dims4 old \<Longrightarrow> merge4 0 new old = old" by (simp add: merge4_def flip: dims4_build)
  assume new: "dims4 new" and k: "1056 \<le> k"
  have "merge4 k new old = build4 (\<lambda>t b c p. new ! t ! b ! c ! p)"
    unfolding merge4_def by (rule build4_cong) (use k in simp)
  then show "merge4 k new old = new" using dims4_build[OF new] by simp
qed

definition proba_symbol :: "VP8EncProba \<Rightarrow> nat \<Rightarrow> nat \<Rightarrow> nat \<Rightarrow> nat \<Rightarrow> symbol list" where
  "proba_symbol pr t b c p =
     (e_coeffs pr ! t ! b ! c ! p \<noteq> CoeffsProba0 ! t ! b ! c ! p, CoeffsUpdateProba ! t ! b ! c ! p) #
     (if e_coeffs pr ! t ! b ! c ! p \<noteq> CoeffsProba0 ! t ! b ! c ! p then bits_of 8 (word_of_int (e_coeffs pr ! t ! b ! c ! p)) else [])"

definition type_symbols :: "VP8EncProba \<Rightarrow> nat \<Rightarrow> symbol list" where
  "type_symbols pr t = concat (map (\<lambda>b. concat (map (\<lambda>c. concat (map (proba_symbol pr t b c) [0..<11])) [0..<3])) [0..<8])"

definition proba_symbols :: "VP8EncProba \<Rightarrow> symbol list" where
  "proba_symbols pr = concat (map (type_symbols pr) [0..<4]) @
     (e_use_skip_proba pr \<noteq> 0, 128) # (if e_use_skip_proba pr \<noteq> 0 then bits_of 8 (word_of_int (e_skip_proba pr)) else [])"

definition proba_ok :: "VP8EncProba \<Rightarrow> bool" where
  "proba_ok pr \<longleftrightarrow> shape4 4 8 3 11 (e_coeffs pr) \<and> 0 \<le> e_skip_proba pr \<and> e_skip_proba pr < 256 \<and>
     (e_use_skip_proba pr = 0 \<or> e_use_skip_proba pr = 1)"

lemma emits_put_proba:
  assumes "proba_ok pr" "t < 4" "b < 8" "c < 3" "p < 11"
  shows "emits malloc e (put_proba malloc pr t b c p) (proba_symbol pr t b c p) (\<lambda>bw. bw)"
proof -
  note l = ld4_shape[of 4 8 3 11 "e_coeffs pr" t b c p] ld4_shape[OF coefficient_shapes(1) assms(2-5)]
    ld4_shape[OF coefficient_shapes(2) assms(2-5)]
  show ?thesis
    unfolding put_proba_def proba_symbol_def coefficient_tables l(4,7) using l(1) assms
    by (simp only: proba_ok_def Option.bind.simps Let_def) (rule emits_bit, use l in simp, use l in simp, simp,
      simp add: emits_PutBits emits_Some)
qed

lemma emits_VP8WriteProbas:
  assumes ok: "proba_ok pr"
  shows "emits malloc e (VP8WriteProbas malloc pr) (proba_symbols pr) (\<lambda>bw. bw)"
  unfolding VP8WriteProbas_def proba_symbols_def type_symbols_def
  apply (rule emits_bind[where r = "\<lambda>bw. bw"])
   apply ((rule emits_for_bw)+, rule emits_put_proba[OF ok], simp, simp, simp, simp, simp, simp, simp, simp)
  apply (rule emits_uniform, simp, simp only: prod.case)
  apply (rule emits_if[OF emits_PutBits emits_Some]; simp)
  done

definition proba_result :: "VP8EncProba \<Rightarrow> VP8Proba \<Rightarrow> VP8Proba" where
  "proba_result pr proba = proba\<lparr>bands := e_coeffs pr, bands_ptr := replicate 4 kBands\<rparr>"

definition proba_dims :: "VP8Proba \<Rightarrow> bool" where
  "proba_dims proba \<longleftrightarrow> dims4 (bands proba) \<and> length (bands_ptr proba) = 4 \<and> (\<forall>r\<in>set (bands_ptr proba). length r = 17)"

lemma set_bands_ptr_loop:
  assumes "t < 4" "length (bands_ptr proba) = 4" "length (bands_ptr proba ! t) = 17"
  shows "for_range 0 (16 + 1) (\<lambda>b. set_bands_ptr t b) (proba, br) = Some (proba\<lparr>bands_ptr := (bands_ptr proba)[t := kBands]\<rparr>, br)"
proof -
  have k: "length kBands = 17" by (simp add: kBands_def)
  let ?row = "\<lambda>j. take j kBands @ drop j (bands_ptr proba ! t)"
  have "\<exists>s. for_range 0 17 (\<lambda>b. set_bands_ptr t b) (proba, br) = Some s \<and> s = (proba\<lparr>bands_ptr := (bands_ptr proba)[t := ?row 17]\<rparr>, br)"
  proof (rule for_range_inv[where I = "\<lambda>j s. s = (proba\<lparr>bands_ptr := (bands_ptr proba)[t := ?row j]\<rparr>, br)"])
    fix j s assume j: "j < 17" and s: "s = (proba\<lparr>bands_ptr := (bands_ptr proba)[t := ?row j]\<rparr>, br)"
    have "(?row j)[j := kBands ! j] = ?row (Suc j)"
      using j k assms(3) by (simp add: list_update_append take_Suc_conv_app_nth flip: Cons_nth_drop_Suc)
    then show "\<exists>s'. set_bands_ptr t j s = Some s' \<and> s' = (proba\<lparr>bands_ptr := (bands_ptr proba)[t := ?row (Suc j)]\<rparr>, br)"
      using j k assms by (simp add: set_bands_ptr_def s ld_nat st_nat)
  qed simp_all
  then show ?thesis using k assms(3) by simp
qed

lemma parses_get_proba:
  assumes ok: "proba_ok pr" and i: "t < 4" "b < 8" "c < 3" "p < 11" "k = ((t * 8 + b) * 3 + c) * 11 + p"
  shows "parses w mem bs (\<lambda>br. get_proba mem t b c p (proba\<lparr>bands := merge4 k (e_coeffs pr) old\<rparr>, br)) (proba_symbol pr t b c p)
    (Pair (proba\<lparr>bands := merge4 (Suc k) (e_coeffs pr) old\<rparr>))"
proof -
  note l = ld4_shape[OF coefficient_shapes(1) i(1-4)] ld4_shape[OF coefficient_shapes(2) i(1-4)]
  define v where "v = e_coeffs pr ! t ! b ! c ! p"
  have v: "0 \<le> v" "v < 256" using ld4_shape[of 4 8 3 11 "e_coeffs pr" t b c p] ok i by (auto simp: proba_ok_def v_def)
  have s: "sint (word_of_int v :: u32) = v" "take_bit 8 v = v" using v by (simp_all add: sint_small_int take_bit_int_eq_self)
  show ?thesis
    unfolding get_proba_def proba_symbol_def l prod.case Option.bind.simps v_def[symmetric]
    by (rule parses_bit, unfold prod.case, simp only: of_bool_eq_0_iff not_not, rule parses_choice[where k = sint])
      (use v s i in \<open>auto intro!: parses_final simp: st4_merge4 v_def\<close>)
qed

lemma parses_type:
  assumes ok: "proba_ok pr" and t: "t < 4"
  shows "parses w mem bs (\<lambda>br. for_range 0 8 (\<lambda>b. for_range 0 3 (\<lambda>c. for_range 0 11 (\<lambda>p. get_proba mem t b c p)))
        (proba\<lparr>bands := merge4 (t * 264) (e_coeffs pr) old\<rparr>, br)) (type_symbols pr t)
    (Pair (proba\<lparr>bands := merge4 (Suc t * 264) (e_coeffs pr) old\<rparr>))"
proof -
  let ?r = "\<lambda>k. Pair (proba\<lparr>bands := merge4 k (e_coeffs pr) old\<rparr>)"
  have p: "parses w mem bs (\<lambda>br. for_range 0 11 (\<lambda>p. get_proba mem t b c p) (?r (((t * 8 + b) * 3 + c) * 11) br))
      (concat (map (proba_symbol pr t b c) [0..<11])) (?r (((t * 8 + b) * 3 + c) * 11 + 11))" if "b < 8" "c < 3" for w b c
    using parses_for[where r = "\<lambda>p. ?r (((t * 8 + b) * 3 + c) * 11 + p)" and a = 0 and b = 11 and body = "\<lambda>p. get_proba mem t b c p"
        and xs = "proba_symbol pr t b c", OF _ zero_le] parses_get_proba[OF ok t that _ refl] by simp
  have c: "parses w mem bs (\<lambda>br. for_range 0 3 (\<lambda>c. for_range 0 11 (\<lambda>p. get_proba mem t b c p)) (?r ((t * 8 + b) * 33) br))
      (concat (map (\<lambda>c. concat (map (proba_symbol pr t b c) [0..<11])) [0..<3])) (?r ((t * 8 + b) * 33 + 33))" if "b < 8" for w b
  proof -
    have "parses w mem bs (\<lambda>br. for_range 0 11 (\<lambda>p. get_proba mem t b c p) (?r ((t * 8 + b) * 33 + c * 11) br))
      (concat (map (proba_symbol pr t b c) [0..<11])) (?r ((t * 8 + b) * 33 + Suc c * 11))" if "c < 3" for c
      using p[OF \<open>b < 8\<close> that, of w] by (simp add: algebra_simps)
    from parses_for[where r = "\<lambda>c. ?r ((t * 8 + b) * 33 + c * 11)" and a = 0 and b = 3, OF this zero_le] show ?thesis by simp
  qed
  have "parses w mem bs (\<lambda>br. for_range 0 3 (\<lambda>c. for_range 0 11 (\<lambda>p. get_proba mem t b c p)) (?r (t * 264 + b * 33) br))
      (concat (map (\<lambda>c. concat (map (proba_symbol pr t b c) [0..<11])) [0..<3])) (?r (t * 264 + Suc b * 33))" if "b < 8" for b
    using c[OF that, of w] by (simp add: algebra_simps)
  from parses_for[where r = "\<lambda>b. ?r (t * 264 + b * 33)" and a = 0 and b = 8, OF this zero_le] show ?thesis
    unfolding type_symbols_def by (simp add: add.commute)
qed

lemma parses_VP8ParseProba:
  assumes ok: "proba_ok pr" and dims: "proba_dims proba"
  shows "parses w mem bs (VP8ParseProba mem proba skip_p) (proba_symbols pr)
    (\<lambda>br. (proba_result pr proba, e_use_skip_proba pr, (if e_use_skip_proba pr \<noteq> 0 then e_skip_proba pr else skip_p), br))"
proof -
  let ?r = "\<lambda>t. Pair (proba\<lparr>bands_ptr := replicate t kBands @ drop t (bands_ptr proba),
      bands := merge4 (t * 264) (e_coeffs pr) (bands proba)\<rparr>)"
  have upd: "p\<lparr>bands := x, bands_ptr := y\<rparr> = p\<lparr>bands_ptr := y, bands := x\<rparr>" for p :: VP8Proba and x y by simp
  let ?body = "\<lambda>t s. do {
      s \<leftarrow> for_range 0 8 (\<lambda>b. for_range 0 3 (\<lambda>c. for_range 0 11 (\<lambda>p. get_proba mem t b c p))) s;
      for_range 0 (16 + 1) (\<lambda>b. set_bands_ptr t b) s }"
  have d: "dims4 (bands proba)" "length (bands_ptr proba) = 4" "\<forall>r\<in>set (bands_ptr proba). length r = 17"
    using dims by (simp_all add: proba_dims_def)
  have new: "dims4 (e_coeffs pr)" using ok by (auto simp: proba_ok_def intro: shape4_dims)
  have step: "parses w mem bs (\<lambda>br. ?body t (?r t br)) (type_symbols pr t @ []) (?r (Suc t))" if "t < 4" for w t
  proof (rule parses_then)
    show "parses w mem bs (\<lambda>br. for_range 0 8 (\<lambda>b. for_range 0 3 (\<lambda>c. for_range 0 11 (\<lambda>p. get_proba mem t b c p))) (?r t br))
      (type_symbols pr t) (Pair (proba\<lparr>bands_ptr := replicate t kBands @ drop t (bands_ptr proba), bands := merge4 (Suc t * 264) (e_coeffs pr) (bands proba)\<rparr>))" for w
      using parses_type[OF ok that, where w = w and proba = "proba\<lparr>bands_ptr := replicate t kBands @ drop t (bands_ptr proba)\<rparr>" and old = "bands proba"]
      by simp
    show "parses w mem bs (\<lambda>br. for_range 0 (16 + 1) (\<lambda>b. set_bands_ptr t b)
        (proba\<lparr>bands_ptr := replicate t kBands @ drop t (bands_ptr proba), bands := merge4 (Suc t * 264) (e_coeffs pr) (bands proba)\<rparr>, br)) []
      (?r (Suc t))" for w
      using that d
      by (intro parses_final, subst set_bands_ptr_loop)
        (auto simp: upd nth_append list_update_append replicate_append_same simp flip: Cons_nth_drop_Suc)
  qed
  have loop: "parses w mem bs (\<lambda>br. for_range 0 4 ?body (proba, br)) (concat (map (type_symbols pr) [0..<4])) (Pair (proba_result pr proba))"
    using parses_for[where r = ?r and a = 0 and b = 4 and body = ?body and xs = "type_symbols pr", OF _ zero_le] step d new
    by (simp add: merge4_ends proba_result_def upd)
  have use: "of_bool (e_use_skip_proba pr \<noteq> 0) = e_use_skip_proba pr" using ok by (auto simp: proba_ok_def)
  have skip: "parses w mem bs (\<lambda>br. do { (v, br) \<leftarrow> VP8GetValue mem br 8; Some (proba_result pr proba, u, take_bit 8 (uint v), br) })
      (bits_of 8 (word_of_int (e_skip_proba pr))) (\<lambda>br. (proba_result pr proba, u, e_skip_proba pr, br))" for w u
    by (rule parses_value[where ys = "[]", unfolded append_Nil2])
      (use ok in \<open>auto intro!: parses_final simp: proba_ok_def uint_word_of_int take_bit_int_eq_self\<close>)
  show ?thesis
    unfolding VP8ParseProba_def proba_symbols_def
    apply (rule parses_then[OF loop], unfold prod.case, rule parses_get, unfold prod.case)
    using skip use ok by (cases "e_use_skip_proba pr = 0") (auto intro!: parses_final simp: proba_ok_def)
qed


subsection \<open>The headers as syntax elements\<close>

text \<open>What the reader knows before it parses: the structures to fill in.\<close>

interpretation segment_header: syntax_element
  "\<lambda>malloc (enc, _). PutSegmentHeader malloc enc" "\<lambda>_ bw. bw"
  "\<lambda>(hdr, proba) mem. ParseSegmentHeader mem hdr proba" "\<lambda>(enc, hdr, proba) br. (1, segment_result enc hdr, segment_probas enc proba, br)"
  snd "\<lambda>(enc, _). segment_symbols enc"
  "\<lambda>(enc, hdr, proba). segment_ok enc \<and> length (quantizer hdr) = 4 \<and> length (filter_strength hdr) = 4 \<and> length (segments proba) = 3"
  by unfold_locales (auto intro: emits_PutSegmentHeader parses_ParseSegmentHeader)

interpretation filter_header: syntax_element
  "\<lambda>malloc (h, _). PutFilterHeader malloc h" "\<lambda>_ bw. bw" "\<lambda>hdr mem. ParseFilterHeader mem hdr"
  "\<lambda>(h, hdr) br. (1, (if e_level h = 0 then 0 else if e_simple h \<noteq> 0 then 1 else 2), filter_result h hdr, br)"
  snd "\<lambda>(h, _). filter_symbols h" "\<lambda>(h, hdr). filter_ok h \<and> length (mode_lf_delta hdr) = 4"
proof unfold_locales
  show "emits malloc e ((\<lambda>(h, _). PutFilterHeader malloc h) x) ((\<lambda>(h, _). filter_symbols h) x) (\<lambda>bw. bw)"
    if "(\<lambda>(h, hdr). filter_ok h \<and> length (mode_lf_delta hdr) = 4) x" for x :: "VP8EncFilterHeader \<times> VP8FilterHeader" and malloc e
    using that by (auto intro: emits_PutFilterHeader)
  show "parses False mem bs (ParseFilterHeader mem (snd x)) ((\<lambda>(h, _). filter_symbols h) x)
      ((\<lambda>(h, hdr) br. (1, (if e_level h = 0 then 0 else if e_simple h \<noteq> 0 then 1 else 2), filter_result h hdr, br)) x)"
    if "(\<lambda>(h, hdr). filter_ok h \<and> length (mode_lf_delta hdr) = 4) x" for x :: "VP8EncFilterHeader \<times> VP8FilterHeader" and mem bs
    using that by (cases x) (auto split del: if_split intro: parses_ParseFilterHeader)
qed

interpretation quant_header: syntax_element
  "\<lambda>malloc (enc, _). PutQuant malloc enc" "\<lambda>_ bw. bw" "\<lambda>(hdr, dqm) mem. VP8ParseQuant mem hdr dqm"
  "\<lambda>(enc, hdr, dqm). Pair (quant_result enc hdr dqm)" snd "\<lambda>(enc, _). quant_symbols enc"
  "\<lambda>(enc, hdr, dqm). quant_ok enc \<and> length (quantizer hdr) = 4 \<and> length dqm = 4"
  by unfold_locales (auto intro: emits_PutQuant parses_VP8ParseQuant)

interpretation proba_header: syntax_element
  "\<lambda>malloc (pr, _). VP8WriteProbas malloc pr" "\<lambda>_ bw. bw" "\<lambda>(proba, skip_p) mem. VP8ParseProba mem proba skip_p"
  "\<lambda>(pr, proba, skip_p) br. (proba_result pr proba, e_use_skip_proba pr, (if e_use_skip_proba pr \<noteq> 0 then e_skip_proba pr else skip_p), br)"
  snd "\<lambda>(pr, _). proba_symbols pr" "\<lambda>(pr, proba, skip_p). proba_ok pr \<and> proba_dims proba"
  by unfold_locales (auto split del: if_split intro: emits_VP8WriteProbas parses_VP8ParseProba)


subsection \<open>The round trips\<close>

text \<open>Concrete structures for the instances of the theorems.\<close>

definition sample_encoder :: VP8Encoder where
  "sample_encoder =
     \<lparr>e_segment_hdr = \<lparr>num_segments = 4, e_update_map = 1\<rparr>,
      e_filter_hdr = \<lparr>e_simple = 0, e_level = 21, e_sharpness = 3, i4x4_lf_delta = -5\<rparr>,
      e_proba = \<lparr>e_segments = [200, 255, 17], e_skip_proba = 99, e_coeffs = (CoeffsProba0)[0 := CoeffsProba0 ! 1], e_use_skip_proba = 1\<rparr>,
      e_dqm = map (\<lambda>q. \<lparr>quant = q, fstrength = 63 - q, y1_q = [], y2_q = [], uv_q = []\<rparr>) [10, 20, 90, 30],
      base_quant = 10, dq_y1_dc = 0, dq_y2_dc = 3, dq_y2_ac = 0, dq_uv_dc = -5, dq_uv_ac = 4\<rparr>"

definition sample_segment_header :: VP8SegmentHeader where
  "sample_segment_header = ResetSegmentHeader \<lparr>use_segment = 1, update_map = 1, absolute_delta = 0, quantizer = [], filter_strength = []\<rparr>"

definition sample_proba :: VP8Proba where
  "sample_proba = VP8ResetProba \<lparr>segments = [], bands = CoeffsProba0, bands_ptr = replicate 4 (replicate 17 0)\<rparr>"

lemma sample_ok:
  "segment_ok sample_encoder" "filter_ok (e_filter_hdr sample_encoder)" "quant_ok sample_encoder" "proba_ok (e_proba sample_encoder)"
  "length (quantizer sample_segment_header) = 4" "length (filter_strength sample_segment_header) = 4"
  "length (segments sample_proba) = 3" "proba_dims sample_proba" "length (e_dqm sample_encoder) = 4"
  "num_segments (e_segment_hdr sample_encoder) = 4"
proof -
  have c: "CoeffsProba0 ! 1 \<in> set CoeffsProba0" "length CoeffsProba0 = 4" using coefficient_shapes(1) by (auto simp: shape4_def)
  have "shape4 a b c d (t[0 := x])" if "shape4 a b c d t" "x \<in> set t" for a b c d t x
    using that set_update_subset_insert[of t 0 x] unfolding shape4_def length_list_update by blast
  then have "shape4 4 8 3 11 ((CoeffsProba0)[0 := CoeffsProba0 ! 1])"
    using coefficient_shapes(1) c(1) .
  then show "proba_ok (e_proba sample_encoder)" by (simp add: proba_ok_def sample_encoder_def)
  show "proba_dims sample_proba"
    using shape4_dims[OF coefficient_shapes(1)] by (simp add: proba_dims_def sample_proba_def VP8ResetProba_def)
qed (simp_all add: segment_ok_def filter_ok_def quant_ok_def sample_encoder_def sample_segment_header_def sample_proba_def
    ResetSegmentHeader_def VP8ResetProba_def)

lemma sample_malloc: "malloc_ok (\<lambda>n. Some (replicate n 0))" "uint (0 :: u64) < 2 ^ 33"
  by (simp_all add: malloc_ok_def)

lemma signed_symbols_length: "length (symbols (Signed n v)) \<le> n + 2"
  by simp

lemma concat_map_length: "(\<And>i. i < k \<Longrightarrow> length (f i) \<le> b) \<Longrightarrow> length (concat (map f [0..<k])) \<le> k * b"
proof (induction k)
  case (Suc k)
  have "length (concat (map f [0..<k])) \<le> k * b" "length (f k) \<le> b" using Suc.IH Suc.prems by simp_all
  then show ?case by simp
qed simp

lemma header_lengths:
  "length (segment_symbols enc) \<le> 200" "length (filter_symbols h) \<le> 40" "length (quant_symbols enc) \<le> 60"
  "length (proba_symbols pr) \<le> 10000"
proof -
  have s: "length (concat (map (\<lambda>s. symbols (Signed n (f s))) [0..<4])) \<le> 4 * (n + 2)" for n f
    using signed_symbols_length by (rule concat_map_length)
  have p: "length (concat (map (\<lambda>s. (e_segments (e_proba enc) ! s \<noteq> 255, 128 :: int) #
             (if e_segments (e_proba enc) ! s \<noteq> 255 then bits_of 8 (word_of_int (e_segments (e_proba enc) ! s)) else [])) [0..<3])) \<le> 3 * 9"
    by (rule concat_map_length) simp
  show "length (segment_symbols enc) \<le> 200"
    using s[of 7 "\<lambda>s. quant (e_dqm enc ! s)"] s[of 6 "\<lambda>s. fstrength (e_dqm enc ! s)"] p
    unfolding segment_symbols_def by (simp only: length_append list.size length_bits_of if_distrib [of length] split: if_split) simp
  show "length (filter_symbols h) \<le> 40" unfolding filter_symbols_def by simp
  show "length (quant_symbols enc) \<le> 60" unfolding quant_symbols_def by simp
  have t: "length (type_symbols pr t) \<le> 8 * (3 * (11 * 9))" for t
    unfolding type_symbols_def by (intro concat_map_length) (simp add: proba_symbol_def)
  have "length (concat (map (type_symbols pr) [0..<4])) \<le> 4 * (8 * (3 * (11 * 9)))"
    by (rule concat_map_length) (rule t)
  then show "length (proba_symbols pr) \<le> 10000" unfolding proba_symbols_def by simp
qed

lemma header_symbols: "segment_symbols enc \<noteq> []" "filter_symbols h \<noteq> []" "quant_symbols enc \<noteq> []" "proba_symbols pr \<noteq> []"
  by (simp_all add: segment_symbols_def filter_symbols_def quant_symbols_def proba_symbols_def bits_of_def)

lemma SetupMatrices_ok:
  assumes "length (e_dqm enc) = 4" "num_segments (e_segment_hdr enc) \<le> 4"
  shows "\<exists>d. SetupMatrices_steps enc = Some (enc\<lparr>e_dqm := d\<rparr>) \<and> length d = 4 \<and> (\<forall>i<nat (num_segments (e_segment_hdr enc)).
    setup_steps enc (e_dqm enc ! i) = Some (d ! i))"
proof -
  let ?n = "nat (num_segments (e_segment_hdr enc))"
  let ?I = "\<lambda>i s. \<exists>d. s = enc\<lparr>e_dqm := d\<rparr> \<and> length d = 4 \<and> (\<forall>j<4. if j < i then setup_steps enc (e_dqm enc ! j) = Some (d ! j) else d ! j = e_dqm enc ! j)"
  have "\<exists>s. SetupMatrices_steps enc = Some s \<and> ?I ?n s"
    unfolding SetupMatrices_steps_def
  proof (rule for_range_inv[where I = ?I])
    show "?I 0 enc" using assms(1) by (auto intro!: exI[of _ "e_dqm enc"])
  next
    fix i s assume i: "0 \<le> i" "i < ?n" and "?I i s"
    then obtain d where d: "s = enc\<lparr>e_dqm := d\<rparr>" "length d = 4" "\<forall>j<4. if j < i then setup_steps enc (e_dqm enc ! j) = Some (d ! j) else d ! j = e_dqm enc ! j"
      by blast
    have i4: "i < 4" using i(2) assms(2) by simp
    obtain m where m: "setup_steps enc (e_dqm enc ! i) = Some m" by (simp add: setup_steps_matrix)
    have st: "setup_steps s (d ! i) = Some m" using d(1,3) m i4 by (simp add: setup_steps_def)
    have I: "?I (Suc i) (enc\<lparr>e_dqm := d[i := m]\<rparr>)"
    proof (intro exI[of _ "d[i := m]"] conjI refl allI impI)
      fix j :: nat assume "j < 4"
      then show "if j < Suc i then setup_steps enc (e_dqm enc ! j) = Some (d[i := m] ! j) else d[i := m] ! j = e_dqm enc ! j"
        using d(2,3) m by (cases "j = i") (auto simp: less_Suc_eq)
    qed (use d(2) in simp)
    have "do { m \<leftarrow> ld (e_dqm s) (int i); m \<leftarrow> setup_steps s m; d \<leftarrow> st (e_dqm s) (int i) m; Some (s\<lparr>e_dqm := d\<rparr>) } =
        Some (enc\<lparr>e_dqm := d[i := m]\<rparr>)"
      using d(1,2) i4 st by (simp add: ld_nat st_nat)
    with I show "\<exists>s'. (do { m \<leftarrow> ld (e_dqm s) (int i); m \<leftarrow> setup_steps s m; d \<leftarrow> st (e_dqm s) (int i) m; Some (s\<lparr>e_dqm := d\<rparr>) }) = Some s' \<and> ?I (Suc i) s'"
      by (intro exI[of _ "enc\<lparr>e_dqm := d[i := m]\<rparr>"] conjI)
  qed simp
  then obtain d where d: "SetupMatrices_steps enc = Some (enc\<lparr>e_dqm := d\<rparr>)" "length d = 4"
    "\<And>j. j < 4 \<Longrightarrow> if j < ?n then setup_steps enc (e_dqm enc ! j) = Some (d ! j) else d ! j = e_dqm enc ! j" by blast
  have "setup_steps enc (e_dqm enc ! i) = Some (d ! i)" if "i < ?n" for i
    using d(3)[of i] that assms(2) by simp
  with d(1,2) show ?thesis by blast
qed

text \<open>C22. The segment header survives the coder: what \<open>PutSegmentHeader\<close> writes, for any quantizers and filter
  strengths of the format, \<open>ParseSegmentHeader\<close> turns into the same values, with the flags of the header, and into the
  same tree probabilities when the map is updated; a header without segments clears the decoder's flags.\<close>

theorem segment_header_roundtrip:
  assumes "segment_ok enc" "length (quantizer hdr) = 4" "length (filter_strength hdr) = 4" "length (segments proba) = 3"
    "malloc_ok malloc" "uint sz < 2 ^ 33"
  shows "\<exists>bw bw1 bw'. VP8BitWriterInit malloc sz = Some (1, bw) \<and> PutSegmentHeader malloc enc bw = Some bw1 \<and>
    VP8BitWriterFinish malloc bw1 = Some bw' \<and> bw_error bw' = 0 \<and>
    (\<forall>pre post. \<exists>br br'. VP8InitBitReader (pre @ written bw' @ post) (int (length pre)) (of_nat (length (written bw'))) = Some br \<and>
       ParseSegmentHeader (pre @ written bw' @ post) hdr proba br = Some (1,
         (if num_segments (e_segment_hdr enc) > 1 then
            hdr\<lparr>use_segment := 1, update_map := e_update_map (e_segment_hdr enc), absolute_delta := 1,
              quantizer := map quant (e_dqm enc), filter_strength := map fstrength (e_dqm enc)\<rparr>
          else hdr\<lparr>use_segment := 0, update_map := 0\<rparr>),
         (if num_segments (e_segment_hdr enc) > 1 \<and> e_update_map (e_segment_hdr enc) \<noteq> 0
          then proba\<lparr>segments := e_segments (e_proba enc)\<rparr> else proba), br'))"
  using segment_header.roundtrip[of "(enc, hdr, proba)" malloc sz] assms header_symbols(1)[of enc] header_lengths(1)[of enc]
  by (simp only: prod.case snd_conv segment_result_def segment_probas_def simp_thms) (simp add: order_le_less_trans)

text \<open>C23. The filter header survives the coder: level, sharpness, the simple flag and the delta of the 4x4 mode are read
  back, in the first mode delta, and the decoder chooses no filter for level 0 and otherwise the simple or the normal one.\<close>

theorem filter_header_roundtrip:
  assumes "filter_ok h" "length (mode_lf_delta hdr) = 4" "malloc_ok malloc" "uint sz < 2 ^ 33"
  shows "\<exists>bw bw1 bw'. VP8BitWriterInit malloc sz = Some (1, bw) \<and> PutFilterHeader malloc h bw = Some bw1 \<and>
    VP8BitWriterFinish malloc bw1 = Some bw' \<and> bw_error bw' = 0 \<and>
    (\<forall>pre post. \<exists>br br' hdr'. VP8InitBitReader (pre @ written bw' @ post) (int (length pre)) (of_nat (length (written bw'))) = Some br \<and>
       ParseFilterHeader (pre @ written bw' @ post) hdr br =
         Some (1, (if e_level h = 0 then 0 else if e_simple h \<noteq> 0 then 1 else 2), hdr', br') \<and>
       simple hdr' = e_simple h \<and> level hdr' = e_level h \<and> sharpness hdr' = e_sharpness h \<and>
       use_lf_delta hdr' = of_bool (i4x4_lf_delta h \<noteq> 0) \<and> ref_lf_delta hdr' = ref_lf_delta hdr \<and>
       mode_lf_delta hdr' = (if i4x4_lf_delta h = 0 then mode_lf_delta hdr else (mode_lf_delta hdr)[0 := i4x4_lf_delta h]))"
  using filter_header.roundtrip[of "(h, hdr)" malloc sz] assms header_symbols(2)[of h] header_lengths(2)[of h]
  by (simp only: prod.case snd_conv simp_thms) (fastforce simp add: order_le_less_trans filter_result_def Let_def)

text \<open>C20. Encoder and decoder agree on the quantizer steps. From what \<open>PutQuant\<close> writes, and a segment header that came
  through, \<open>VP8ParseQuant\<close> computes for every segment in use the very steps that \<open>SetupMatrices\<close> quantizes with: the
  tables agree, so do the clamping, and the multiplication by 101581/65536 of the decoder equals the table of the
  encoder for the second-order AC step.\<close>

theorem quantizer_roundtrip:
  assumes "quant_ok enc" "length (quantizer hdr) = 4" "length dqm = 4" "length (e_dqm enc) = 4" "malloc_ok malloc" "uint sz < 2 ^ 33"
    and "num_segments (e_segment_hdr enc) \<le> 4"
    and "(use_segment hdr = 1 \<and> absolute_delta hdr = 1 \<and> quantizer hdr = map quant (e_dqm enc)) \<or>
      (use_segment hdr = 0 \<and> num_segments (e_segment_hdr enc) = 1 \<and> base_quant enc = quant (e_dqm enc ! 0))"
  shows "\<exists>bw bw1 bw' enc'. SetupMatrices_steps enc = Some enc' \<and>
    VP8BitWriterInit malloc sz = Some (1, bw) \<and> PutQuant malloc enc bw = Some bw1 \<and>
    VP8BitWriterFinish malloc bw1 = Some bw' \<and> bw_error bw' = 0 \<and>
    (\<forall>pre post. \<exists>br br' dqm'. VP8InitBitReader (pre @ written bw' @ post) (int (length pre)) (of_nat (length (written bw'))) = Some br \<and>
       VP8ParseQuant (pre @ written bw' @ post) hdr dqm br = Some (dqm', br') \<and>
       (\<forall>i < nat (num_segments (e_segment_hdr enc)). y1_mat (dqm' ! i) = y1_q (e_dqm enc' ! i) \<and>
          y2_mat (dqm' ! i) = y2_q (e_dqm enc' ! i) \<and> uv_mat (dqm' ! i) = uv_q (e_dqm enc' ! i)))"
proof -
  obtain d where d: "SetupMatrices_steps enc = Some (enc\<lparr>e_dqm := d\<rparr>)"
    "\<And>i. i < nat (num_segments (e_segment_hdr enc)) \<Longrightarrow> setup_steps enc (e_dqm enc ! i) = Some (d ! i)"
    using SetupMatrices_ok[OF assms(4,7)] by blast
  have same: "y1_mat (quant_result enc hdr dqm ! i) = y1_q (d ! i) \<and> y2_mat (quant_result enc hdr dqm ! i) = y2_q (d ! i) \<and>
      uv_mat (quant_result enc hdr dqm ! i) = uv_q (d ! i)" if i: "i < nat (num_segments (e_segment_hdr enc))" for i
  proof -
    have "i < 4" using i assms(7) by simp
    then have "\<exists>m. quant_result enc hdr dqm ! i = steps_matrix enc (quant (e_dqm enc ! i)) m"
      using assms(4,8) i by (auto simp: quant_result_def)
    then show ?thesis using d(2)[OF i, unfolded setup_steps_matrix option.inject, symmetric] by (auto simp: steps_matrix_def)
  qed
  have "quant_symbols enc \<noteq> []" "length (quant_symbols enc) < 2 ^ 31" using header_symbols(3)[of enc] header_lengths(3)[of enc] by simp_all
  from quant_header.roundtrip[of "(enc, hdr, dqm)" malloc sz, unfolded prod.case snd_conv, OF _ this assms(5,6)] assms(1-3)
  obtain bw bw1 bw' where w: "VP8BitWriterInit malloc sz = Some (1, bw)" "PutQuant malloc enc bw = Some bw1"
      "VP8BitWriterFinish malloc bw1 = Some bw'" "bw_error bw' = 0"
    and r: "\<And>pre post. \<exists>br br'. VP8InitBitReader (pre @ written bw' @ post) (int (length pre)) (of_nat (length (written bw'))) = Some br \<and>
       VP8ParseQuant (pre @ written bw' @ post) hdr dqm br = Some (quant_result enc hdr dqm, br')"
    by blast
  have q: "\<forall>i < nat (num_segments (e_segment_hdr enc)). y1_mat (quant_result enc hdr dqm ! i) = y1_q (e_dqm (enc\<lparr>e_dqm := d\<rparr>) ! i) \<and>
      y2_mat (quant_result enc hdr dqm ! i) = y2_q (e_dqm (enc\<lparr>e_dqm := d\<rparr>) ! i) \<and>
      uv_mat (quant_result enc hdr dqm ! i) = uv_q (e_dqm (enc\<lparr>e_dqm := d\<rparr>) ! i)"
    using same by simp
  have "\<forall>pre post. \<exists>br br' dqm'. VP8InitBitReader (pre @ written bw' @ post) (int (length pre)) (of_nat (length (written bw'))) = Some br \<and>
       VP8ParseQuant (pre @ written bw' @ post) hdr dqm br = Some (dqm', br') \<and>
       (\<forall>i < nat (num_segments (e_segment_hdr enc)). y1_mat (dqm' ! i) = y1_q (e_dqm (enc\<lparr>e_dqm := d\<rparr>) ! i) \<and>
          y2_mat (dqm' ! i) = y2_q (e_dqm (enc\<lparr>e_dqm := d\<rparr>) ! i) \<and> uv_mat (dqm' ! i) = uv_q (e_dqm (enc\<lparr>e_dqm := d\<rparr>) ! i))"
    using r q by blast
  with w d(1) show ?thesis by blast
qed

text \<open>C21. The coefficient probabilities survive the coder: every table of probabilities that \<open>VP8WriteProbas\<close> sends as
  updates of the defaults is rebuilt by \<open>VP8ParseProba\<close>, which also points the sixteen positions to their bands, and
  the skip probability is read back when it is in use.\<close>

theorem probabilities_roundtrip:
  assumes "proba_ok pr" "proba_dims proba" "malloc_ok malloc" "uint sz < 2 ^ 33"
  shows "\<exists>bw bw1 bw'. VP8BitWriterInit malloc sz = Some (1, bw) \<and> VP8WriteProbas malloc pr bw = Some bw1 \<and>
    VP8BitWriterFinish malloc bw1 = Some bw' \<and> bw_error bw' = 0 \<and>
    (\<forall>pre post. \<exists>br br'. VP8InitBitReader (pre @ written bw' @ post) (int (length pre)) (of_nat (length (written bw'))) = Some br \<and>
       VP8ParseProba (pre @ written bw' @ post) proba skip_p br =
         Some (proba\<lparr>bands := e_coeffs pr, bands_ptr := replicate 4 kBands\<rparr>, e_use_skip_proba pr,
           (if e_use_skip_proba pr \<noteq> 0 then e_skip_proba pr else skip_p), br'))"
  using proba_header.roundtrip[of "(pr, proba, skip_p)" malloc sz] assms header_symbols(4)[of pr] header_lengths(4)[of pr]
  by (simp only: prod.case snd_conv proba_result_def simp_thms) (simp add: order_le_less_trans)

lemma segment_header_roundtrip_witness:
  "\<exists>bw bw1 bw'. VP8BitWriterInit (\<lambda>n. Some (replicate n 0)) 0 = Some (1, bw) \<and>
    PutSegmentHeader (\<lambda>n. Some (replicate n 0)) sample_encoder bw = Some bw1 \<and>
    VP8BitWriterFinish (\<lambda>n. Some (replicate n 0)) bw1 = Some bw' \<and> bw_error bw' = 0 \<and>
    (\<forall>pre post. \<exists>br br'. VP8InitBitReader (pre @ written bw' @ post) (int (length pre)) (of_nat (length (written bw'))) = Some br \<and>
       ParseSegmentHeader (pre @ written bw' @ post) sample_segment_header sample_proba br = Some (1,
         sample_segment_header\<lparr>use_segment := 1, update_map := 1, absolute_delta := 1,
           quantizer := [10, 20, 90, 30], filter_strength := [53, 43, -27, 33]\<rparr>,
         sample_proba\<lparr>segments := [200, 255, 17]\<rparr>, br'))"
proof -
  have e: "num_segments (e_segment_hdr sample_encoder) = 4" "e_update_map (e_segment_hdr sample_encoder) = 1"
    "map quant (e_dqm sample_encoder) = [10, 20, 90, 30]" "map fstrength (e_dqm sample_encoder) = [53, 43, -27, 33]"
    "e_segments (e_proba sample_encoder) = [200, 255, 17]" by (simp_all add: sample_encoder_def)
  show ?thesis using segment_header_roundtrip[OF sample_ok(1,5,6,7) sample_malloc, unfolded e] by simp
qed

lemma filter_header_roundtrip_witness:
  "\<exists>bw bw1 bw'. VP8BitWriterInit (\<lambda>n. Some (replicate n 0)) 0 = Some (1, bw) \<and>
    PutFilterHeader (\<lambda>n. Some (replicate n 0)) (e_filter_hdr sample_encoder) bw = Some bw1 \<and>
    VP8BitWriterFinish (\<lambda>n. Some (replicate n 0)) bw1 = Some bw' \<and> bw_error bw' = 0 \<and>
    (\<forall>pre post. \<exists>br br' hdr'. VP8InitBitReader (pre @ written bw' @ post) (int (length pre)) (of_nat (length (written bw'))) = Some br \<and>
       ParseFilterHeader (pre @ written bw' @ post) \<lparr>simple = 0, level = 0, sharpness = 0, use_lf_delta = 0,
         ref_lf_delta = [0, 0, 0, 0], mode_lf_delta = [0, 0, 0, 0]\<rparr> br = Some (1, 2, hdr', br') \<and>
       simple hdr' = 0 \<and> level hdr' = 21 \<and> sharpness hdr' = 3 \<and> use_lf_delta hdr' = 1 \<and>
       ref_lf_delta hdr' = [0, 0, 0, 0] \<and> mode_lf_delta hdr' = [-5, 0, 0, 0])"
proof -
  have e: "e_filter_hdr sample_encoder = \<lparr>e_simple = 0, e_level = 21, e_sharpness = 3, i4x4_lf_delta = -5\<rparr>" by (simp add: sample_encoder_def)
  show ?thesis
    using filter_header_roundtrip[OF sample_ok(2) _ sample_malloc, of "\<lparr>simple = 0, level = 0, sharpness = 0, use_lf_delta = 0,
      ref_lf_delta = [0, 0, 0, 0], mode_lf_delta = [0, 0, 0, 0]\<rparr>"] unfolding e by simp
qed

lemma quantizer_roundtrip_witness:
  "\<exists>bw bw1 bw' enc'. SetupMatrices_steps sample_encoder = Some enc' \<and>
    VP8BitWriterInit (\<lambda>n. Some (replicate n 0)) 0 = Some (1, bw) \<and> PutQuant (\<lambda>n. Some (replicate n 0)) sample_encoder bw = Some bw1 \<and>
    VP8BitWriterFinish (\<lambda>n. Some (replicate n 0)) bw1 = Some bw' \<and> bw_error bw' = 0 \<and>
    (\<forall>pre post. \<exists>br br' dqm'. VP8InitBitReader (pre @ written bw' @ post) (int (length pre)) (of_nat (length (written bw'))) = Some br \<and>
       VP8ParseQuant (pre @ written bw' @ post)
         (sample_segment_header\<lparr>use_segment := 1, absolute_delta := 1, quantizer := map quant (e_dqm sample_encoder)\<rparr>)
         (replicate 4 \<lparr>y1_mat = [], y2_mat = [], uv_mat = [], uv_quant = 0, q_dither = 0\<rparr>) br = Some (dqm', br') \<and>
       (\<forall>i < nat (num_segments (e_segment_hdr sample_encoder)). y1_mat (dqm' ! i) = y1_q (e_dqm enc' ! i) \<and>
          y2_mat (dqm' ! i) = y2_q (e_dqm enc' ! i) \<and> uv_mat (dqm' ! i) = uv_q (e_dqm enc' ! i)))"
  by (rule quantizer_roundtrip[OF sample_ok(3) _ _ sample_ok(9) sample_malloc]) (simp_all add: sample_ok)

lemma probabilities_roundtrip_witness:
  "\<exists>bw bw1 bw'. VP8BitWriterInit (\<lambda>n. Some (replicate n 0)) 0 = Some (1, bw) \<and>
    VP8WriteProbas (\<lambda>n. Some (replicate n 0)) (e_proba sample_encoder) bw = Some bw1 \<and>
    VP8BitWriterFinish (\<lambda>n. Some (replicate n 0)) bw1 = Some bw' \<and> bw_error bw' = 0 \<and>
    (\<forall>pre post. \<exists>br br'. VP8InitBitReader (pre @ written bw' @ post) (int (length pre)) (of_nat (length (written bw'))) = Some br \<and>
       VP8ParseProba (pre @ written bw' @ post) sample_proba 0 br =
         Some (sample_proba\<lparr>bands := (CoeffsProba0)[0 := CoeffsProba0 ! 1], bands_ptr := replicate 4 kBands\<rparr>, 1, 99, br'))"
proof -
  have e: "e_use_skip_proba (e_proba sample_encoder) = 1" "e_skip_proba (e_proba sample_encoder) = 99"
    "e_coeffs (e_proba sample_encoder) = (CoeffsProba0)[0 := CoeffsProba0 ! 1]" by (simp_all add: sample_encoder_def)
  show ?thesis using probabilities_roundtrip[OF sample_ok(4,8) sample_malloc, of 0, unfolded e] by simp
qed


end
