(* ===== verification/VP8_Tokens.thy ===== *)
theory VP8_Tokens
  imports VP8_Headers
begin

section \<open>The coefficients of a block\<close>

text \<open>
  \<open>PutCoeffs\<close> of src/enc/frame_enc.c writes the sixteen quantized coefficients of a block as tokens;
  \<open>GetCoeffs\<close> of src/dec/vp8_dec.c, in its two variants, reads them back, dequantizes them and undoes the
  zigzag order. The loops are \<open>partial_function\<close>s into \<open>option\<close>; the lemmas below show that they end.
\<close>

unbundle bit_operations_syntax

subsection \<open>The encoder\<close>

record VP8Residual =
  first :: nat
  last_nz :: int
  coeffs :: "int list"
  prob :: "int list list list"

definition VP8InitResidual :: "nat \<Rightarrow> nat \<Rightarrow> VP8Encoder \<Rightarrow> VP8Residual \<Rightarrow> VP8Residual option" where
  "VP8InitResidual fst_coeff coeff_type enc res = do {
     p \<leftarrow> ld (e_coeffs (e_proba enc)) (int coeff_type);
     Some (res\<lparr>prob := p, first := fst_coeff\<rparr>) }"

primrec find_last :: "int list \<Rightarrow> nat \<Rightarrow> int option" where
  "find_last cs 0 = Some (-1)"
| "find_last cs (Suc n) = do { c \<leftarrow> ld cs (int n); (if c \<noteq> 0 then Some (int n) else find_last cs n) }"

definition SetResidualCoeffs :: "int list \<Rightarrow> VP8Residual \<Rightarrow> VP8Residual option" where
  "SetResidualCoeffs cs res = do {
     c0 \<leftarrow> ld cs 0;
     require (first res = 0 \<or> c0 = 0);
     l \<leftarrow> find_last cs 16;
     Some (res\<lparr>last_nz := l, coeffs := cs\<rparr>) }"

text \<open>\<open>while (mask) { VP8PutBit(bw, !!(v & mask), *tab++); mask >>= 1; }\<close>\<close>

partial_function (option) put_extra_bits :: "allocator \<Rightarrow> int \<Rightarrow> int \<Rightarrow> int list \<Rightarrow> VP8BitWriter \<Rightarrow> VP8BitWriter option" where
  "put_extra_bits malloc v msk tab bw =
     (if msk \<noteq> 0 then do {
        p \<leftarrow> ld tab 0;
        (_, bw) \<leftarrow> VP8PutBit malloc bw (of_bool (v AND msk \<noteq> 0)) p;
        put_extra_bits malloc v (drop_bit 1 msk) (drop 1 tab) bw }
      else Some bw)"

definition put_category :: "allocator \<Rightarrow> int \<Rightarrow> int list \<Rightarrow> VP8BitWriter \<Rightarrow> VP8BitWriter option" where
  "put_category malloc v p bw = do {
     p8 \<leftarrow> ld p 8;
     p9 \<leftarrow> ld p 9;
     p10 \<leftarrow> ld p 10;
     (if v < 3 + push_bit 1 8 then do {
        (_, bw) \<leftarrow> VP8PutBit malloc bw 0 p8;
        (_, bw) \<leftarrow> VP8PutBit malloc bw 0 p9;
        put_extra_bits malloc (v - (3 + push_bit 0 8)) (push_bit 2 1) VP8Cat3 bw }
      else if v < 3 + push_bit 2 8 then do {
        (_, bw) \<leftarrow> VP8PutBit malloc bw 0 p8;
        (_, bw) \<leftarrow> VP8PutBit malloc bw 1 p9;
        put_extra_bits malloc (v - (3 + push_bit 1 8)) (push_bit 3 1) VP8Cat4 bw }
      else if v < 3 + push_bit 3 8 then do {
        (_, bw) \<leftarrow> VP8PutBit malloc bw 1 p8;
        (_, bw) \<leftarrow> VP8PutBit malloc bw 0 p10;
        put_extra_bits malloc (v - (3 + push_bit 2 8)) (push_bit 4 1) VP8Cat5 bw }
      else do {
        (_, bw) \<leftarrow> VP8PutBit malloc bw 1 p8;
        (_, bw) \<leftarrow> VP8PutBit malloc bw 1 p10;
        put_extra_bits malloc (v - (3 + push_bit 3 8)) (push_bit 10 1) VP8Cat6 bw }) }"

definition put_large :: "allocator \<Rightarrow> int \<Rightarrow> int list \<Rightarrow> VP8BitWriter \<Rightarrow> VP8BitWriter option" where
  "put_large malloc v p bw = do {
     p3 \<leftarrow> ld p 3;
     p4 \<leftarrow> ld p 4;
     p5 \<leftarrow> ld p 5;
     p6 \<leftarrow> ld p 6;
     p7 \<leftarrow> ld p 7;
     (b, bw) \<leftarrow> VP8PutBit malloc bw (of_bool (v > 4)) p3;
     (if b = 0 then do {
        (b, bw) \<leftarrow> VP8PutBit malloc bw (of_bool (v \<noteq> 2)) p4;
        (if b \<noteq> 0 then do { (_, bw) \<leftarrow> VP8PutBit malloc bw (of_bool (v = 4)) p5; Some bw } else Some bw) }
      else do {
        (b, bw) \<leftarrow> VP8PutBit malloc bw (of_bool (v > 10)) p6;
        (if b = 0 then do {
           (b, bw) \<leftarrow> VP8PutBit malloc bw (of_bool (v > 6)) p7;
           (if b = 0 then do { (_, bw) \<leftarrow> VP8PutBit malloc bw (of_bool (v = 6)) 159; Some bw }
            else do {
              (_, bw) \<leftarrow> VP8PutBit malloc bw (of_bool (v \<ge> 9)) 165;
              (_, bw) \<leftarrow> VP8PutBit malloc bw (of_bool (v AND 1 = 0)) 145;
              Some bw }) }
         else put_category malloc v p bw) }) }"

definition enc_band :: "int list list list \<Rightarrow> nat \<Rightarrow> nat \<Rightarrow> int list option" where
  "enc_band pr n ctx = do { k \<leftarrow> ld VP8EncBands (int n); x \<leftarrow> ld pr k; ld x (int ctx) }"

partial_function (option) put_coeffs_loop :: "allocator \<Rightarrow> VP8Residual \<Rightarrow> nat \<Rightarrow> int list \<Rightarrow> VP8BitWriter \<Rightarrow> (int \<times> VP8BitWriter) option" where
  "put_coeffs_loop malloc res n p bw =
     (if n < 16 then do {
        c \<leftarrow> ld (coeffs res) (int n);
        let n = Suc n;
        let sign = (of_bool (c < 0) :: int);
        let v = (if sign \<noteq> 0 then - c else c);
        p0 \<leftarrow> ld p 1;
        (b, bw) \<leftarrow> VP8PutBit malloc bw (of_bool (v \<noteq> 0)) p0;
        (if b = 0 then do {
           p \<leftarrow> enc_band (prob res) n 0;
           put_coeffs_loop malloc res n p bw }
         else do {
           p2 \<leftarrow> ld p 2;
           (b, bw) \<leftarrow> VP8PutBit malloc bw (of_bool (v > 1)) p2;
           (p, bw) \<leftarrow>
             (if b = 0 then do { p \<leftarrow> enc_band (prob res) n 1; Some (p, bw) }
              else do { bw \<leftarrow> put_large malloc v p bw; p \<leftarrow> enc_band (prob res) n 2; Some (p, bw) });
           (_, bw) \<leftarrow> VP8PutBitUniform malloc bw sign;
           (if n = 16 then Some (1, bw)
            else do {
              p0 \<leftarrow> ld p 0;
              (b, bw) \<leftarrow> VP8PutBit malloc bw (of_bool (int n \<le> last_nz res)) p0;
              (if b = 0 then Some (1, bw) else put_coeffs_loop malloc res n p bw) }) }) }
      else Some (1, bw))"

definition PutCoeffs :: "allocator \<Rightarrow> nat \<Rightarrow> VP8Residual \<Rightarrow> VP8BitWriter \<Rightarrow> (int \<times> VP8BitWriter) option" where
  "PutCoeffs malloc ctx res bw = do {
     let n = first res;
     x \<leftarrow> ld (prob res) (int n);
     p \<leftarrow> ld x (int ctx);
     p0 \<leftarrow> ld p 0;
     (b, bw) \<leftarrow> VP8PutBit malloc bw (of_bool (last_nz res \<ge> 0)) p0;
     (if b = 0 then Some (0, bw) else put_coeffs_loop malloc res n p bw) }"

subsection \<open>The decoder\<close>

text \<open>\<open>for (tab = kCat3456[cat]; *tab; ++tab) v += v + VP8GetBit(br, *tab);\<close>\<close>

fun get_extra_bits :: "u8 list \<Rightarrow> int list \<Rightarrow> int \<Rightarrow> VP8BitReader \<Rightarrow> (int \<times> VP8BitReader) option" where
  "get_extra_bits mem [] v br = None"
| "get_extra_bits mem (q # tab) v br =
     (if q \<noteq> 0 then do {
        (b, br) \<leftarrow> VP8GetBit mem br q;
        get_extra_bits mem tab (v + (v + b)) br }
      else Some (v, br))"

definition GetLargeValue :: "u8 list \<Rightarrow> int list \<Rightarrow> VP8BitReader \<Rightarrow> (int \<times> VP8BitReader) option" where
  "GetLargeValue mem p br = do {
     p3 \<leftarrow> ld p 3;
     (b, br) \<leftarrow> VP8GetBit mem br p3;
     (if b = 0 then do {
        p4 \<leftarrow> ld p 4;
        (b, br) \<leftarrow> VP8GetBit mem br p4;
        (if b = 0 then Some (2, br)
         else do { p5 \<leftarrow> ld p 5; (b, br) \<leftarrow> VP8GetBit mem br p5; Some (3 + b, br) }) }
      else do {
        p6 \<leftarrow> ld p 6;
        (b, br) \<leftarrow> VP8GetBit mem br p6;
        (if b = 0 then do {
           p7 \<leftarrow> ld p 7;
           (b, br) \<leftarrow> VP8GetBit mem br p7;
           (if b = 0 then do { (b, br) \<leftarrow> VP8GetBit mem br 159; Some (5 + b, br) }
            else do {
              (b, br) \<leftarrow> VP8GetBit mem br 165;
              (b', br) \<leftarrow> VP8GetBit mem br 145;
              Some (7 + 2 * b + b', br) }) }
         else do {
           p8 \<leftarrow> ld p 8;
           (bit1, br) \<leftarrow> VP8GetBit mem br p8;
           p9 \<leftarrow> ld p (9 + bit1);
           (bit0, br) \<leftarrow> VP8GetBit mem br p9;
           let cat = 2 * bit1 + bit0;
           tab \<leftarrow> ld kCat3456 cat;
           (v, br) \<leftarrow> get_extra_bits mem tab 0 br;
           Some (v + (3 + push_bit (nat cat) 8), br) }) }) }"

text \<open>The probabilities \<open>prob[n]->probas_[ctx]\<close>, through the pointers to the bands of one type.\<close>

definition dec_band :: "int list list list \<Rightarrow> int list \<Rightarrow> nat \<Rightarrow> nat \<Rightarrow> int list option" where
  "dec_band bt ptr n ctx = do { k \<leftarrow> ld ptr (int n); x \<leftarrow> ld bt k; ld x (int ctx) }"

type_synonym get_bit = "u8 list \<Rightarrow> VP8BitReader \<Rightarrow> int \<Rightarrow> (int \<times> VP8BitReader) option"

text \<open>The inner loop over a run of zeros; without probabilities when it ends the block (\<open>n = 16\<close>).\<close>

partial_function (option) get_zeros :: "get_bit \<Rightarrow> u8 list \<Rightarrow> int list list list \<Rightarrow> int list \<Rightarrow> nat \<Rightarrow> int list \<Rightarrow>
    VP8BitReader \<Rightarrow> (nat \<times> int list option \<times> VP8BitReader) option" where
  "get_zeros getbit mem bt ptr n p br = do {
     p1 \<leftarrow> ld p 1;
     (b, br) \<leftarrow> getbit mem br p1;
     (if b \<noteq> 0 then Some (n, Some p, br)
      else do {
        let n = Suc n;
        p \<leftarrow> dec_band bt ptr n 0;
        (if n = 16 then Some (16, None, br) else get_zeros getbit mem bt ptr n p br) }) }"

partial_function (option) get_coeffs_loop :: "get_bit \<Rightarrow> u8 list \<Rightarrow> int list list list \<Rightarrow> int list \<Rightarrow> int list \<Rightarrow> nat \<Rightarrow> int list \<Rightarrow>
    int list \<Rightarrow> VP8BitReader \<Rightarrow> (nat \<times> int list \<times> VP8BitReader) option" where
  "get_coeffs_loop getbit mem bt ptr dq n p out br =
     (if n < 16 then do {
        p0 \<leftarrow> ld p 0;
        (b, br) \<leftarrow> getbit mem br p0;
        (if b = 0 then Some (n, out, br)
         else do {
           (n, p, br) \<leftarrow> get_zeros getbit mem bt ptr n p br;
           (case p of
              None \<Rightarrow> Some (16, out, br)
            | Some p \<Rightarrow> do {
                p2 \<leftarrow> ld p 2;
                (b, br) \<leftarrow> getbit mem br p2;
                (v, p, br) \<leftarrow>
                  (if b = 0 then do { p \<leftarrow> dec_band bt ptr (Suc n) 1; Some (1, p, br) }
                   else do {
                     (v, br) \<leftarrow> GetLargeValue mem p br;
                     p \<leftarrow> dec_band bt ptr (Suc n) 2;
                     Some (v, p, br) });
                z \<leftarrow> ld kZigzag (int n);
                (s, br) \<leftarrow> VP8GetSigned mem br v;
                q \<leftarrow> ld dq (of_bool (n > 0));
                out \<leftarrow> st out z (signed_take_bit 15 (s * q));
                get_coeffs_loop getbit mem bt ptr dq (Suc n) p out br }) }) }
      else Some (16, out, br))"

definition GetCoeffs_by :: "get_bit \<Rightarrow> u8 list \<Rightarrow> int list list list \<Rightarrow> int list \<Rightarrow> nat \<Rightarrow> int list \<Rightarrow> nat \<Rightarrow> int list \<Rightarrow> VP8BitReader \<Rightarrow>
    (nat \<times> int list \<times> VP8BitReader) option" where
  "GetCoeffs_by getbit mem bt ptr ctx dq n out br = do {
     p \<leftarrow> dec_band bt ptr n ctx;
     get_coeffs_loop getbit mem bt ptr dq n p out br }"

definition GetCoeffsFast :: "u8 list \<Rightarrow> int list list list \<Rightarrow> int list \<Rightarrow> nat \<Rightarrow> int list \<Rightarrow> nat \<Rightarrow> int list \<Rightarrow> VP8BitReader \<Rightarrow>
    (nat \<times> int list \<times> VP8BitReader) option" where
  "GetCoeffsFast = GetCoeffs_by VP8GetBit"

definition GetCoeffsAlt :: "u8 list \<Rightarrow> int list list list \<Rightarrow> int list \<Rightarrow> nat \<Rightarrow> int list \<Rightarrow> nat \<Rightarrow> int list \<Rightarrow> VP8BitReader \<Rightarrow>
    (nat \<times> int list \<times> VP8BitReader) option" where
  "GetCoeffsAlt = GetCoeffs_by VP8GetBitAlt"

subsection \<open>The value of a token\<close>

lemmas parses_value_end = parses_value[where ys = "[]", unfolded append_Nil2]

primrec extra_symbols :: "int \<Rightarrow> int list \<Rightarrow> symbol list" where
  "extra_symbols v [] = []"
| "extra_symbols v (q # tab) = (bit v (length tab), q) # extra_symbols v tab"

definition probas_ok :: "int list \<Rightarrow> bool" where
  "probas_ok p \<longleftrightarrow> length p = 11 \<and> (\<forall>x\<in>set p. 0 \<le> x \<and> x < 256)"

lemma probas_ld:
  assumes "probas_ok p" "i < 11"
  shows "ld p (int i) = Some (p ! i)" "0 \<le> p ! i" "p ! i < 256"
  using assms by (auto simp: probas_ok_def ld_nat)

lemmas probas_lds = probas_ld[where i = 0, simplified] probas_ld[where i = 1, simplified, folded One_nat_def] probas_ld[where i = 2, simplified]
  probas_ld[where i = 3, simplified] probas_ld[where i = 4, simplified] probas_ld[where i = 5, simplified]
  probas_ld[where i = 6, simplified] probas_ld[where i = 7, simplified] probas_ld[where i = 8, simplified]
  probas_ld[where i = 9, simplified] probas_ld[where i = 10, simplified]

lemma and_power_bit: "v AND 2 ^ k \<noteq> 0 \<longleftrightarrow> bit v k" for v :: int
proof -
  have "v AND 2 ^ k = 0 \<longleftrightarrow> (\<forall>i. bit v i \<longrightarrow> i \<noteq> k)"
    by (auto simp: bit_eq_iff bit_and_iff bit_exp_iff)
  then show ?thesis by auto
qed

lemma emits_put_extra_bits:
  assumes "\<forall>q\<in>set tab. 0 \<le> q \<and> q < 256" "msk = (if tab = [] then 0 else 2 ^ (length tab - 1))"
  shows "emits malloc e (put_extra_bits malloc v msk tab) (extra_symbols v tab) (\<lambda>bw. bw)"
  using assms
proof (induction tab arbitrary: msk)
  case Nil
  then show ?case by (subst put_extra_bits.simps) (simp add: emits_Some)
next
  case (Cons q tab)
  have m: "msk = 2 ^ length tab" "msk \<noteq> 0" using Cons.prems(2) by simp_all
  have d: "drop_bit 1 msk = (if tab = [] then 0 else 2 ^ (length tab - 1))"
    by (cases tab) (simp_all add: m(1) drop_bit_Suc)
  have q: "0 \<le> q" "q < 256" "\<forall>q\<in>set tab. 0 \<le> q \<and> q < 256" using Cons.prems(1) by auto
  have "emits malloc e (\<lambda>bw. VP8PutBit malloc bw (of_bool (v AND msk \<noteq> 0)) q \<bind> (\<lambda>(_, bw). put_extra_bits malloc v (drop_bit 1 msk) tab bw))
      ((bit v (length tab), q) # extra_symbols v tab) (\<lambda>bw. bw)"
    by (rule emits_bit[OF q(1,2)], simp add: m(1) and_power_bit, unfold prod.case, rule Cons.IH[OF q(3) d])
  then show ?case using m(2) by (subst put_extra_bits.simps) (simp add: ld_def del: drop_bit_Suc)
qed

lemma parses_get_extra_bits:
  assumes "0 \<notin> set tab"
  shows "parses w mem bs (get_extra_bits mem (tab @ [0]) a) (extra_symbols v tab) (Pair (a * 2 ^ length tab + take_bit (length tab) v))"
  using assms
proof (induction tab arbitrary: a w)
  case Nil
  then show ?case by (simp add: parses_Some)
next
  case (Cons q tab)
  have e: "a * 2 ^ length (q # tab) + take_bit (length (q # tab)) v =
      (a + (a + of_bool (bit v (length tab)))) * 2 ^ length tab + take_bit (length tab) v"
    by (simp add: take_bit_Suc_from_most algebra_simps)
  have "parses w mem bs (\<lambda>br. VP8GetBit mem br q \<bind> (\<lambda>(b, br). get_extra_bits mem (tab @ [0]) (a + (a + b)) br))
      ((bit v (length tab), q) # extra_symbols v tab) (Pair ((a + (a + of_bool (bit v (length tab)))) * 2 ^ length tab + take_bit (length tab) v))"
    by (rule parses_bit, unfold prod.case, rule Cons.IH) (use Cons.prems in simp)
  then show ?case unfolding e using Cons.prems by simp
qed

lemma category_tables:
  "\<forall>q\<in>set VP8Cat3. 0 < q \<and> q < 256" "\<forall>q\<in>set VP8Cat4. 0 < q \<and> q < 256"
  "\<forall>q\<in>set VP8Cat5. 0 < q \<and> q < 256" "\<forall>q\<in>set VP8Cat6. 0 < q \<and> q < 256"
  "length VP8Cat3 = 3" "length VP8Cat4 = 4" "length VP8Cat5 = 5" "length VP8Cat6 = 11"
  by (simp_all add: VP8Cat3_def VP8Cat4_def VP8Cat5_def VP8Cat6_def)

definition category_symbols :: "int \<Rightarrow> int list \<Rightarrow> symbol list" where
  "category_symbols v p =
     (if v < 19 then (False, p ! 8) # (False, p ! 9) # extra_symbols (v - 11) VP8Cat3
      else if v < 35 then (False, p ! 8) # (True, p ! 9) # extra_symbols (v - 19) VP8Cat4
      else if v < 67 then (True, p ! 8) # (False, p ! 10) # extra_symbols (v - 35) VP8Cat5
      else (True, p ! 8) # (True, p ! 10) # extra_symbols (v - 67) VP8Cat6)"

definition large_symbols :: "int \<Rightarrow> int list \<Rightarrow> symbol list" where
  "large_symbols v p =
     (v > 4, p ! 3) #
     (if v > 4 then (v > 10, p ! 6) #
        (if v > 10 then category_symbols v p
         else (v > 6, p ! 7) # (if v > 6 then [(v \<ge> 9, 165), (v AND 1 = 0, 145)] else [(v = 6, 159)]))
      else (v \<noteq> 2, p ! 4) # (if v \<noteq> 2 then [(v = 4, p ! 5)] else []))"

lemma emits_put_category:
  assumes p: "probas_ok p"
  shows "emits malloc e (put_category malloc v p) (category_symbols v p) (\<lambda>bw. bw)"
proof -
  note l = probas_lds[OF p]
  have x: "emits malloc e (put_extra_bits malloc w msk tab) (extra_symbols w tab) (\<lambda>bw. bw)"
    if "\<forall>q\<in>set tab. 0 < q \<and> q < 256" "msk = 2 ^ (length tab - 1)" "tab \<noteq> []" for w msk tab
    by (rule emits_put_extra_bits) (use that in auto)
  have t: "VP8Cat3 \<noteq> []" "VP8Cat4 \<noteq> []" "VP8Cat5 \<noteq> []" "VP8Cat6 \<noteq> []" using category_tables(5-8) by auto
  have n: "push_bit 0 8 = (8 :: int)" "push_bit 1 8 = (16 :: int)" "push_bit 2 8 = (32 :: int)" "push_bit 3 8 = (64 :: int)" by simp_all
  have m: "(push_bit 2 1 :: int) = 2 ^ 2" "(push_bit 3 1 :: int) = 2 ^ 3" "(push_bit 4 1 :: int) = 2 ^ 4" "(push_bit 10 1 :: int) = 2 ^ 10"
    by simp_all
  have two: "emits malloc e (\<lambda>bw. VP8PutBit malloc bw b q \<bind> (\<lambda>(_, bw). VP8PutBit malloc bw b' q' \<bind> (\<lambda>(_, bw). put_extra_bits malloc w msk tab bw)))
      ((b \<noteq> 0, q) # (b' \<noteq> 0, q') # extra_symbols w tab) (\<lambda>bw. bw)"
    if "0 \<le> q" "q < 256" "0 \<le> q'" "q' < 256" "\<forall>q\<in>set tab. 0 < q \<and> q < 256" "msk = 2 ^ (length tab - 1)" "tab \<noteq> []" for b q b' q' w msk tab
    by (rule emits_bit[OF that(1,2) refl], unfold prod.case, rule emits_bit[OF that(3,4) refl], unfold prod.case, rule x[OF that(5-7)])
  have c: "v < 3 + 16 \<longleftrightarrow> v < 19" "v < 3 + 32 \<longleftrightarrow> v < 35" "v < 3 + 64 \<longleftrightarrow> v < 67" "v - (3 + 8) = v - 11" "v - (3 + 16) = v - 19"
    "v - (3 + 32) = v - 35" "v - (3 + 64) = v - 67" by simp_all
  note two' = two[OF l(26,27) l(29,30)] two[OF l(26,27) l(32,33)]
  show ?thesis
    unfolding put_category_def category_symbols_def l Option.bind.simps n c m
    apply (rule emits_if)
    using two'(1)[OF category_tables(1) _ t(1), of "2 ^ 2" 0 0 "v - 11"] apply (simp add: category_tables)
    apply (rule emits_if)
    using two'(1)[OF category_tables(2) _ t(2), of "2 ^ 3" 0 1 "v - 19"] apply (simp add: category_tables)
    apply (rule emits_if)
    using two'(2)[OF category_tables(3) _ t(3), of "2 ^ 4" 1 0 "v - 35"] apply (simp add: category_tables)
    using two'(2)[OF category_tables(4) _ t(4), of "2 ^ 10" 1 1 "v - 67"] apply (simp add: category_tables)
    done
qed


lemma emits_drop: "emits malloc e (\<lambda>bw. VP8PutBit malloc bw b q \<bind> (\<lambda>(_, bw). Some bw)) [(c, q)] (\<lambda>bw. bw)"
  if "0 \<le> q" "q < 256" "c = (b \<noteq> 0)"
  by (rule emits_bit[OF that], unfold prod.case, rule emits_Some)

lemma if_not: "(if \<not> c then x else y) = (if c then y else x)" by simp

lemma emits_put_large:
  assumes p: "probas_ok p"
  shows "emits malloc e (put_large malloc v p) (large_symbols v p) (\<lambda>bw. bw)"
proof -
  note l = probas_lds[OF p]
  show ?thesis
    unfolding put_large_def large_symbols_def l Option.bind.simps
    apply (rule emits_bit[OF l(11,12)], simp)
    apply (simp only: prod.case of_bool_eq_0_iff if_not)
    apply (rule emits_if)
     apply (rule emits_bit[OF l(20,21)], simp)
     apply (simp only: prod.case of_bool_eq_0_iff if_not)
     apply (rule emits_if)
      apply (rule emits_put_category[OF p])
     apply (rule emits_bit[OF l(23,24)], simp)
     apply (simp only: prod.case of_bool_eq_0_iff if_not)
     apply (rule emits_if)
      apply (rule emits_bit, simp, simp, simp, unfold prod.case)
      apply (rule emits_drop; simp)
     apply (rule emits_drop; simp)
    apply (rule emits_bit[OF l(14,15)], simp)
    apply (simp only: prod.case of_bool_eq_0_iff if_not)
    apply (rule emits_if)
     apply (rule emits_Some[of malloc e "\<lambda>bw. bw"])
    apply (rule emits_drop; simp add: l)
    done
qed

lemma parses_category:
  assumes p: "probas_ok p" and v: "11 \<le> v" "v < 2115"
  shows "parses True mem bs (\<lambda>br. do {
      p8 \<leftarrow> ld p 8;
      (bit1, br) \<leftarrow> VP8GetBit mem br p8;
      p9 \<leftarrow> ld p (9 + bit1);
      (bit0, br) \<leftarrow> VP8GetBit mem br p9;
      let cat = 2 * bit1 + bit0;
      tab \<leftarrow> ld kCat3456 cat;
      (v, br) \<leftarrow> get_extra_bits mem tab 0 br;
      Some (v + (3 + push_bit (nat cat) 8), br) }) (category_symbols v p) (Pair v)"
proof -
  note l = probas_lds[OF p]
  have k: "ld kCat3456 0 = Some (VP8Cat3 @ [0])" "ld kCat3456 1 = Some (VP8Cat4 @ [0])" "ld kCat3456 2 = Some (VP8Cat5 @ [0])"
    "ld kCat3456 3 = Some (VP8Cat6 @ [0])" by (simp_all add: token_tables ld_def)
  have x: "parses True mem bs (\<lambda>br. get_extra_bits mem (tab @ [0]) 0 br \<bind> (\<lambda>(v, br). Some (v + c, br))) (extra_symbols (v - c) tab) (Pair v)"
    if "\<forall>q\<in>set tab. 0 < q \<and> q < 256" "c \<le> v" "v < c + 2 ^ length tab" for tab c
  proof -
    have "take_bit (length tab) (v - c) = v - c" using that(2,3) by (intro take_bit_int_eq_self) auto
    moreover have "0 \<notin> set tab" using that(1) by auto
    ultimately have "parses True mem bs (get_extra_bits mem (tab @ [0]) 0) (extra_symbols (v - c) tab) (Pair (v - c))"
      using parses_get_extra_bits[of tab True mem bs 0 "v - c"] by simp
    then show ?thesis by (rule parses_then[where ys = "[]", unfolded append_Nil2]) (auto intro: parses_final)
  qed
  have two: "parses True mem bs (\<lambda>br. do {
      (bit1, br) \<leftarrow> VP8GetBit mem br p8;
      p9 \<leftarrow> ld p (9 + bit1);
      (bit0, br) \<leftarrow> VP8GetBit mem br p9;
      let cat = 2 * bit1 + bit0;
      tab \<leftarrow> ld kCat3456 cat;
      (v, br) \<leftarrow> get_extra_bits mem tab 0 br;
      Some (v + (3 + push_bit (nat cat) 8), br) }) ((b, p8) # (b', p9) # extra_symbols (v - c) tab) (Pair v)"
    if "\<forall>q\<in>set tab. 0 < q \<and> q < 256" "c \<le> v" "v < c + 2 ^ length tab" "ld p (9 + of_bool b) = Some p9"
      "ld kCat3456 (2 * of_bool b + of_bool b') = Some (tab @ [0])" "3 + push_bit (nat (2 * of_bool b + of_bool b')) 8 = c" for b b' p8 p9 tab c
    by (rule parses_bit, unfold prod.case that(4) Option.bind.simps, rule parses_bit, unfold prod.case Let_def that(5,6) Option.bind.simps,
        rule x[OF that(1-3)])
  show ?thesis
    unfolding category_symbols_def l Option.bind.simps
    apply (cases "v < 19")
    using v two[OF category_tables(1), of 11 False "p ! 9" False "p ! 8"] apply (simp add: category_tables l k)
    apply (cases "v < 35")
    using v two[OF category_tables(2), of 19 False "p ! 9" True "p ! 8"] apply (simp add: category_tables l k)
    apply (cases "v < 67")
    using v two[OF category_tables(3), of 35 True "p ! 10" False "p ! 8"] apply (simp add: category_tables l k)
    using v two[OF category_tables(4), of 67 True "p ! 10" True "p ! 8"] apply (simp add: category_tables l k)
    done
qed

lemma parses_GetLargeValue:
  assumes p: "probas_ok p" and v: "2 \<le> v" "v < 2115"
  shows "parses True mem bs (GetLargeValue mem p) (large_symbols v p) (Pair v)"
proof -
  note l = probas_lds[OF p]
  have fin: "parses w mem bs (\<lambda>br. VP8GetBit mem br q \<bind> (\<lambda>(b, br). Some (c + b, br))) [(b, q)] (Pair v)"
    if "v = c + of_bool b" for w c b q
    by (rule parses_bit, unfold prod.case that, rule parses_Some)
  have fin': "parses w mem bs (\<lambda>br. do { (b, br) \<leftarrow> VP8GetBit mem br 165; (b', br) \<leftarrow> VP8GetBit mem br 145; Some (7 + 2 * b + b', br) })
     [(9 \<le> v, 165), (v AND 1 = 0, 145)] (Pair v)" if "6 < v" "v \<le> 10" for w
  proof -
    from that have "v \<in> {7, 8, 9, 10}" by auto
    then have e: "7 + 2 * of_bool (9 \<le> v) + of_bool (v AND 1 = 0) = v" by (auto simp: and_one_eq)
    show ?thesis by (rule parses_bit, unfold prod.case, rule parses_bit, unfold prod.case e, rule parses_Some)
  qed
  show ?thesis
    unfolding GetLargeValue_def large_symbols_def l Option.bind.simps
    apply (rule parses_bit)
    apply (simp only: prod.case of_bool_eq_0_iff if_not)
    apply (rule parses_if)
     apply (rule parses_bit)
     apply (simp only: prod.case of_bool_eq_0_iff if_not)
     apply (rule parses_if)
      using v apply (intro parses_category[OF p, unfolded l Option.bind.simps]; simp)
     apply (rule parses_bit)
     apply (simp only: prod.case of_bool_eq_0_iff if_not)
     apply (rule parses_if)
      apply (rule fin'; simp)
     apply (rule fin, simp)
    apply (rule parses_bit)
    apply (simp only: prod.case of_bool_eq_0_iff if_not)
    apply (rule parses_if)
     using v apply (simp add: parses_Some)
    apply (rule fin[where c = 3 and b = "v = 4"])
    using v apply auto
    done
qed



subsection \<open>The tokens of a block\<close>

definition band_of :: "int list list list \<Rightarrow> nat \<Rightarrow> nat \<Rightarrow> int list" where
  "band_of pr n ctx = pr ! nat (kBands ! n) ! ctx"

definition level_ctx :: "int \<Rightarrow> nat" where
  "level_ctx c = (if c = 0 then 0 else if \<bar>c\<bar> = 1 then 1 else 2)"

text \<open>The symbols from the coefficient \<open>n\<close> on, of which the last non-zero one is at \<open>lst\<close>.\<close>

fun token_symbols :: "int list list list \<Rightarrow> int \<Rightarrow> nat \<Rightarrow> int list \<Rightarrow> int list \<Rightarrow> symbol list" where
  "token_symbols pr lst n p [] = []"
| "token_symbols pr lst n p (c # cs) =
     (c \<noteq> 0, p ! 1) #
     (if c = 0 then token_symbols pr lst (Suc n) (band_of pr (Suc n) 0) cs
      else (\<bar>c\<bar> > 1, p ! 2) # (if \<bar>c\<bar> > 1 then large_symbols \<bar>c\<bar> p else []) @ (c < 0, 128) #
        (if cs = [] then []
         else (int (Suc n) \<le> lst, band_of pr (Suc n) (level_ctx c) ! 0) #
           (if int (Suc n) \<le> lst then token_symbols pr lst (Suc n) (band_of pr (Suc n) (level_ctx c)) cs else [])))"

definition bands_ok :: "int list list list \<Rightarrow> bool" where
  "bands_ok pr \<longleftrightarrow> length pr = 8 \<and> (\<forall>x\<in>set pr. length x = 3 \<and> (\<forall>p\<in>set x. probas_ok p))"

lemma band_numbers: "length kBands = 17" "n \<le> 16 \<Longrightarrow> 0 \<le> kBands ! n \<and> kBands ! n < 8"
proof -
  show l: "length kBands = 17" by (simp add: kBands_def)
  have "\<forall>k\<in>set kBands. 0 \<le> k \<and> k < 8" by (simp add: kBands_def)
  then show "0 \<le> kBands ! n \<and> kBands ! n < 8" if "n \<le> 16" using that l by simp
qed

lemma bands:
  assumes "bands_ok pr" "n \<le> 16" "ctx < 3"
  shows "enc_band pr n ctx = Some (band_of pr n ctx)" "dec_band pr kBands n ctx = Some (band_of pr n ctx)"
    "probas_ok (band_of pr n ctx)"
proof -
  have k: "0 \<le> kBands ! n" "nat (kBands ! n) < length pr" using band_numbers(2)[OF assms(2)] assms(1) by (auto simp: bands_ok_def)
  then have x: "pr ! nat (kBands ! n) \<in> set pr" by simp
  have "band_of pr n ctx \<in> set (pr ! nat (kBands ! n))"
    using assms(1,3) x by (auto simp: bands_ok_def band_of_def)
  then show "probas_ok (band_of pr n ctx)" using assms(1) x by (auto simp: bands_ok_def)
  have "ld kBands (int n) = Some (kBands ! n)" using assms(2) band_numbers(1) by (simp add: ld_nat)
  moreover have "ld pr (kBands ! n) = Some (pr ! nat (kBands ! n))" using k by (auto simp: ld_def)
  moreover have "ld (pr ! nat (kBands ! n)) (int ctx) = Some (band_of pr n ctx)"
    using assms(1,3) x by (auto simp: ld_nat band_of_def bands_ok_def)
  ultimately show "dec_band pr kBands n ctx = Some (band_of pr n ctx)" "enc_band pr n ctx = Some (band_of pr n ctx)"
    by (simp_all add: dec_band_def enc_band_def token_tables(1))
qed

lemma emits_put_coeffs_loop:
  assumes pr: "bands_ok (prob res)" and len: "length (coeffs res) = 16"
    and p: "probas_ok p" and n: "n \<le> 16"
  shows "emits malloc e (put_coeffs_loop malloc res n p) (token_symbols (prob res) (last_nz res) n p (drop n (coeffs res))) (Pair 1)"
  using p n
proof (induction "16 - n" arbitrary: n p)
  case 0
  then have n: "n = 16" by simp
  show ?case using len unfolding n by (subst put_coeffs_loop.simps) (simp add: emits_Some)
next
  case (Suc d)
  define c where "c = coeffs res ! n"
  have n: "n < 16" "d = 16 - Suc n" "Suc n \<le> 16" using Suc.hyps(2) by simp_all
  note IH = Suc.hyps(1)[OF n(2) _ n(3)]
  note l = probas_lds[OF Suc.prems(1)]
  note b = bands[OF pr n(3)]
  have s: "ld (coeffs res) (int n) = Some c" using n len by (simp add: ld_nat c_def)
  have d: "drop n (coeffs res) = c # drop (Suc n) (coeffs res)" using n len by (simp add: c_def Cons_nth_drop_Suc)
  have e: "drop (Suc n) (coeffs res) = [] \<longleftrightarrow> Suc n = 16" using n len by auto
  have a: "(if (of_bool (c < 0) :: int) \<noteq> 0 then - c else c) = \<bar>c\<bar>" by simp
  let ?q = "band_of (prob res) (Suc n)"
  have fin: "emits malloc e (\<lambda>bw. do {
      (_, bw) \<leftarrow> VP8PutBitUniform malloc bw (of_bool (c < 0));
      (if Suc n = 16 then Some (1, bw)
       else do {
         p0 \<leftarrow> ld (?q (level_ctx c)) 0;
         (b, bw) \<leftarrow> VP8PutBit malloc bw (of_bool (int (Suc n) \<le> last_nz res)) p0;
         (if b = 0 then Some (1, bw) else put_coeffs_loop malloc res (Suc n) (?q (level_ctx c)) bw) }) })
     ((c < 0, 128) # (if drop (Suc n) (coeffs res) = [] then []
         else (int (Suc n) \<le> last_nz res, ?q (level_ctx c) ! 0) #
           (if int (Suc n) \<le> last_nz res then token_symbols (prob res) (last_nz res) (Suc n) (?q (level_ctx c)) (drop (Suc n) (coeffs res)) else []))) (Pair 1)"
  proof -
    have q: "probas_ok (?q (level_ctx c))" by (rule b(3)) (simp add: level_ctx_def)
    note l = probas_lds[OF q]
    show ?thesis
      unfolding e l Option.bind.simps
      apply (rule emits_uniform, simp, unfold prod.case)
      apply (rule emits_if[OF emits_Some])
      apply (rule emits_bit[OF l(2,3)], simp, simp only: prod.case of_bool_eq_0_iff if_not)
      apply (rule emits_if)
       apply (rule IH[OF q])
      apply (rule emits_Some)
      done
  qed
  show ?case
    apply (subst put_coeffs_loop.simps [THEN eq_reflection, abs_def])
    apply (simp only: d token_symbols.simps n(1) if_True s l Option.bind.simps Let_def a)
    apply (rule emits_bit[OF l(5,6)], simp, simp only: prod.case of_bool_eq_0_iff if_not abs_eq_0)
    apply (rule emits_if)
     apply (simp only: b(1) zero_less_numeral Option.bind.simps)
     apply (rule IH, rule b(3), simp)
    apply (rule emits_bit[OF l(8,9)], simp, simp only: prod.case of_bool_eq_0_iff if_not)
    subgoal premises c0
    proof (cases "\<bar>c\<bar> > 1")
      case True
      then have lv: "level_ctx c = 2" by (simp add: level_ctx_def)
      show ?thesis
        using emits_bind[OF emits_put_large[OF Suc.prems(1), of malloc e "\<bar>c\<bar>"] fin[unfolded lv]]
        by (simp only: True if_True if_False Option.bind_assoc b(1)[of 2, simplified] prod.case Option.bind.simps
            simp_thms lv)
    next
      case False
      then have lv: "level_ctx c = 1" using c0 by (simp add: level_ctx_def)
      have b1: "enc_band (prob res) (Suc n) 1 = Some (?q 1)" by (rule b(1)) simp
      show ?thesis
        using fin[unfolded lv]
        by (simp only: False if_True if_False b1 prod.case Option.bind.simps simp_thms lv append_Nil)
    qed
    done
qed

lemma emits_PutCoeffs:
  assumes pr: "bands_ok (prob res)" and len: "length (coeffs res) = 16" and ctx: "ctx < 3" and first: "first res \<le> 1"
  shows "emits malloc e (PutCoeffs malloc ctx res)
    ((0 \<le> last_nz res, band_of (prob res) (first res) ctx ! 0) #
      (if 0 \<le> last_nz res then token_symbols (prob res) (last_nz res) (first res) (band_of (prob res) (first res) ctx) (drop (first res) (coeffs res)) else []))
    (Pair (of_bool (0 \<le> last_nz res)))"
proof -
  let ?p = "band_of (prob res) (first res) ctx"
  have "first res \<in> {0, 1}" using first by auto
  then have k: "kBands ! first res = int (first res)" by (auto simp: kBands_def)
  have n: "first res \<le> 16" using first by simp
  note b = bands[OF pr n ctx]
  note l = probas_lds[OF b(3)]
  have x: "ld (prob res) (int (first res)) = Some (prob res ! first res)" "ld (prob res ! first res) (int ctx) = Some ?p"
    using first pr ctx by (auto simp: ld_nat bands_ok_def band_of_def k)
  show ?thesis
    unfolding PutCoeffs_def Let_def x Option.bind.simps l
    apply (rule emits_bit[OF l(2,3)], simp, simp only: prod.case of_bool_eq_0_iff if_not)
    apply (cases "0 \<le> last_nz res")
    using emits_put_coeffs_loop[OF pr len b(3) n] apply simp
    apply (simp add: emits_Some)
    done
qed

text \<open>What the decoder stores: the coefficient \<open>i\<close>, dequantized, at its place in raster order.\<close>

definition dequant :: "int list \<Rightarrow> nat \<Rightarrow> int \<Rightarrow> int" where
  "dequant dq i c = signed_take_bit 15 (c * dq ! of_bool (i > 0))"

primrec dequantized :: "int list \<Rightarrow> nat \<Rightarrow> int list \<Rightarrow> int list \<Rightarrow> int list" where
  "dequantized dq n [] out = out"
| "dequantized dq n (c # cs) out = dequantized dq (Suc n) cs (if c = 0 then out else out[nat (kZigzag ! n) := dequant dq n c])"

lemma kZigzag_range: "length kZigzag = 16" "n < 16 \<Longrightarrow> 0 \<le> kZigzag ! n \<and> kZigzag ! n < 16"
proof -
  show l: "length kZigzag = 16" by (simp add: kZigzag_def)
  have "\<forall>k\<in>set kZigzag. 0 \<le> k \<and> k < 16" by (simp add: kZigzag_def)
  then show "0 \<le> kZigzag ! n \<and> kZigzag ! n < 16" if "n < 16" using that l by simp
qed

definition get_bit_ok :: "get_bit \<Rightarrow> bool" where
  "get_bit_ok gb \<longleftrightarrow> (\<forall>w mem bs p b. parses w mem bs (\<lambda>br. gb mem br p) [(b, p)] (Pair (of_bool b)))"

lemma get_bit_ok: "get_bit_ok VP8GetBit" "get_bit_ok VP8GetBitAlt"
  using parses_GetBit parses_GetBitAlt by (simp_all add: get_bit_ok_def)

lemma parses_by:
  "get_bit_ok gb \<Longrightarrow> parses True mem bs (\<lambda>br. g (of_bool b, br)) ys r \<Longrightarrow>
    parses w mem bs (\<lambda>br. gb mem br p \<bind> g) ((b, p) # ys) r"
  by (rule parses_bind1) (simp_all add: get_bit_ok_def)

lemma dequantized_zeros: "\<forall>c\<in>set cs. c = 0 \<Longrightarrow> dequantized dq n cs out = out"
  by (induction cs arbitrary: n) auto

lemma dequantized_length [simp]: "length (dequantized dq n cs out) = length out"
  by (induction cs arbitrary: n out) auto

definition get_level :: "get_bit \<Rightarrow> u8 list \<Rightarrow> int list list list \<Rightarrow> int list \<Rightarrow> int list \<Rightarrow> int list \<Rightarrow> nat \<times> int list option \<times> VP8BitReader \<Rightarrow>
    (nat \<times> int list \<times> VP8BitReader) option" where
  "get_level getbit mem bt ptr dq out = (\<lambda>(n, p, br).
     (case p of
        None \<Rightarrow> Some (16, out, br)
      | Some p \<Rightarrow> do {
          p2 \<leftarrow> ld p 2;
          (b, br) \<leftarrow> getbit mem br p2;
          (v, p, br) \<leftarrow>
            (if b = 0 then do { p \<leftarrow> dec_band bt ptr (Suc n) 1; Some (1, p, br) }
             else do {
               (v, br) \<leftarrow> GetLargeValue mem p br;
               p \<leftarrow> dec_band bt ptr (Suc n) 2;
               Some (v, p, br) });
          z \<leftarrow> ld kZigzag (int n);
          (s, br) \<leftarrow> VP8GetSigned mem br v;
          q \<leftarrow> ld dq (of_bool (n > 0));
          out \<leftarrow> st out z (signed_take_bit 15 (s * q));
          get_coeffs_loop getbit mem bt ptr dq (Suc n) p out br }))"

lemma disj_True: "(True \<or> b) = True" by simp

lemma get_coeffs_loop_step:
  "get_coeffs_loop getbit mem bt ptr dq n p out br =
     (if n < 16 then do {
        p0 \<leftarrow> ld p 0;
        (b, br) \<leftarrow> getbit mem br p0;
        (if b = 0 then Some (n, out, br)
         else get_zeros getbit mem bt ptr n p br \<bind> get_level getbit mem bt ptr dq out) }
      else Some (16, out, br))"
  by (subst get_coeffs_loop.simps) (simp only: get_level_def)

lemma parses_levels:
  assumes gb: "get_bit_ok gb" and pr: "bands_ok pr" and cs: "length cs = 16" "\<forall>c\<in>set cs. \<bar>c\<bar> < 2115" and dq: "length dq = 2"
    and lst: "lst < 16" "cs ! lst \<noteq> 0" "\<forall>c\<in>set (drop (Suc lst) cs). c = 0"
    and p: "probas_ok p" and n: "n \<le> lst" and out: "length out = 16"
  shows "parses w mem bs (\<lambda>br. get_zeros gb mem pr kBands n p br \<bind> get_level gb mem pr kBands dq out)
     (token_symbols pr (int lst) n p (drop n cs)) (\<lambda>br. (Suc lst, dequantized dq n (drop n cs) out, br))"
  using p n out
proof (induction "lst - n" arbitrary: n p out w rule: less_induct)
  case less
  define c where "c = cs ! n"
  have n: "n < 16" "Suc n \<le> 16" using less.prems(2) lst(1) by simp_all
  have d: "drop n cs = c # drop (Suc n) cs" using n cs(1) by (simp add: c_def Cons_nth_drop_Suc)
  have c: "\<bar>c\<bar> < 2115" using cs n by (simp add: c_def)
  note l = probas_lds[OF less.prems(1)]
  note b = bands[OF pr n(2)]
  let ?q = "band_of pr (Suc n)"
  have IH: "parses w mem bs (\<lambda>br. get_zeros gb mem pr kBands (Suc n) q br \<bind> get_level gb mem pr kBands dq out')
     (token_symbols pr (int lst) (Suc n) q (drop (Suc n) cs)) (\<lambda>br. (Suc lst, dequantized dq (Suc n) (drop (Suc n) cs) out', br))"
    if "Suc n \<le> lst" "probas_ok q" "length out' = 16" for w q out'
    using less.hyps[OF _ that(2,1,3)] that(1) by simp
  show ?case
  proof (cases "c = 0")
    case True
    then have m: "Suc n \<le> lst" using less.prems(2) lst(2) unfolding c_def by (metis le_neq_implies_less Suc_leI)
    then have "Suc n \<noteq> 16" using lst(1) by simp
    then show ?thesis
      unfolding d using True IH[OF m b(3)[of 0] less.prems(3)] b(2)[of 0]
      by (subst get_zeros.simps [THEN eq_reflection, abs_def])
        (simp add: l Option.bind_assoc case_prod_beta parses_by[OF gb])
  next
    case False
    let ?out = "out[nat (kZigzag ! n) := dequant dq n c]"
    have z: "ld kZigzag (int n) = Some (kZigzag ! n)" "ld dq (of_bool (n > 0)) = Some (dq ! of_bool (n > 0))"
      "st out (kZigzag ! n) v = Some (out[nat (kZigzag ! n) := v])" for v
      using n(1) kZigzag_range less.prems(3) dq by (auto simp: ld_nat ld_def st_def)
    have sg: "(if c < 0 then - \<bar>c\<bar> else \<bar>c\<bar>) = c" by simp
    have tail: "parses True mem bs (\<lambda>br. do {
          z \<leftarrow> ld kZigzag (int n);
          (s, br) \<leftarrow> VP8GetSigned mem br \<bar>c\<bar>;
          q \<leftarrow> ld dq (of_bool (n > 0));
          out \<leftarrow> st out z (signed_take_bit 15 (s * q));
          get_coeffs_loop gb mem pr kBands dq (Suc n) (?q (level_ctx c)) out br })
        ((c < 0, 128) # (if drop (Suc n) cs = [] then []
          else (int (Suc n) \<le> int lst, ?q (level_ctx c) ! 0) #
            (if int (Suc n) \<le> int lst then token_symbols pr (int lst) (Suc n) (?q (level_ctx c)) (drop (Suc n) cs) else [])))
        (\<lambda>br. (Suc lst, dequantized dq (Suc n) (drop (Suc n) cs) ?out, br))"
    proof -
      have q: "probas_ok (?q (level_ctx c))" by (rule b(3)) (simp add: level_ctx_def)
      note lq = probas_lds[OF q]
      have "parses True mem bs (get_coeffs_loop gb mem pr kBands dq (Suc n) (?q (level_ctx c)) ?out)
         (if drop (Suc n) cs = [] then []
          else (int (Suc n) \<le> int lst, ?q (level_ctx c) ! 0) #
            (if int (Suc n) \<le> int lst then token_symbols pr (int lst) (Suc n) (?q (level_ctx c)) (drop (Suc n) cs) else []))
        (\<lambda>br. (Suc lst, dequantized dq (Suc n) (drop (Suc n) cs) ?out, br))"
      proof (cases "Suc n \<le> lst")
        case True
        then have "Suc n < 16" "drop (Suc n) cs \<noteq> []" using lst(1) cs(1) by simp_all
        then show ?thesis
          using True IH[OF True q, of ?out] less.prems(3)
          by (subst get_coeffs_loop_step [THEN eq_reflection, abs_def]) (simp add: lq parses_by[OF gb])
      next
        case False
        then have m: "n = lst" using less.prems(2) by simp
        have zs: "dequantized dq (Suc n) (drop (Suc n) cs) ?out = ?out" using lst(3) unfolding m by (rule dequantized_zeros)
        have "drop (Suc n) cs = [] \<longleftrightarrow> n = 15" using n(1) cs(1) by auto
        then show ?thesis
          unfolding zs using False n(1) unfolding m
          by (subst get_coeffs_loop_step [THEN eq_reflection, abs_def]) (auto simp add: lq[unfolded m] parses_by[OF gb] parses_Some)
      qed
      then show ?thesis
        unfolding z Option.bind.simps dequant_def
        by (intro parses_bind1[OF parses_GetSigned]) (simp add: sg z)
    qed
    have b1: "dec_band pr kBands (Suc n) 1 = Some (?q 1)" and b2: "dec_band pr kBands (Suc n) 2 = Some (?q 2)" by (rule b(2), simp)+
    have level: "parses True mem bs (\<lambda>br. get_level gb mem pr kBands dq out (n, Some p, br))
      ((\<bar>c\<bar> > 1, p ! 2) # (if \<bar>c\<bar> > 1 then large_symbols \<bar>c\<bar> p else []) @ (c < 0, 128) # (if drop (Suc n) cs = [] then []
          else (int (Suc n) \<le> int lst, ?q (level_ctx c) ! 0) #
            (if int (Suc n) \<le> int lst then token_symbols pr (int lst) (Suc n) (?q (level_ctx c)) (drop (Suc n) cs) else [])))
      (\<lambda>br. (Suc lst, dequantized dq (Suc n) (drop (Suc n) cs) ?out, br))"
    proof (cases "\<bar>c\<bar> > 1")
      case True
      then have lv: "level_ctx c = 2" by (simp add: level_ctx_def)
      have v: "2 \<le> \<bar>c\<bar>" using True by simp
      show ?thesis
        unfolding get_level_def prod.case option.case l Option.bind.simps
        apply (rule parses_by[OF gb])
        apply (simp only: True if_True prod.case of_bool_eq_0_iff not_True_eq_False if_False Option.bind_assoc b2 Option.bind.simps lv simp_thms)
        apply (rule parses_bind[OF parses_GetLargeValue[OF less.prems(1) v c]])
        apply (simp only: prod.case Option.bind.simps b2 disj_True)
        using tail[unfolded lv] by (simp only: simp_thms)
    next
      case False
      then have lv: "level_ctx c = 1" using \<open>c \<noteq> 0\<close> by (simp add: level_ctx_def)
      have v: "\<bar>c\<bar> = 1" using False \<open>c \<noteq> 0\<close> by simp
      show ?thesis
        unfolding get_level_def prod.case option.case l Option.bind.simps
        apply (rule parses_by[OF gb])
        using tail[unfolded lv] by (simp only: v less_irrefl if_False prod.case of_bool_eq_0_iff not_False_eq_True if_True b1 Option.bind.simps lv append_Nil)
    qed
    show ?thesis
      unfolding d using False level
      by (subst get_zeros.simps [THEN eq_reflection, abs_def])
        (simp add: l Option.bind_assoc case_prod_beta parses_by[OF gb])
  qed
qed

definition last_ok :: "int list \<Rightarrow> int \<Rightarrow> bool" where
  "last_ok cs l \<longleftrightarrow> -1 \<le> l \<and> l < 16 \<and> (0 \<le> l \<longrightarrow> cs ! nat l \<noteq> 0) \<and> (\<forall>i<16. l < int i \<longrightarrow> cs ! i = 0)"

lemma find_last_ok:
  "n \<le> length cs \<Longrightarrow> \<exists>l. find_last cs n = Some l \<and> -1 \<le> l \<and> l < int n \<and> (0 \<le> l \<longrightarrow> cs ! nat l \<noteq> 0) \<and> (\<forall>i<n. l < int i \<longrightarrow> cs ! i = 0)"
proof (induction n)
  case (Suc n)
  then obtain l where l: "find_last cs n = Some l" "-1 \<le> l" "l < int n" "0 \<le> l \<longrightarrow> cs ! nat l \<noteq> 0" "\<forall>i<n. l < int i \<longrightarrow> cs ! i = 0"
    by auto
  have s: "ld cs (int n) = Some (cs ! n)" using Suc.prems by (simp add: ld_nat)
  show ?case
  proof (cases "cs ! n = 0")
    case True
    then show ?thesis using s l by (auto simp: less_Suc_eq intro!: exI[of _ l])
  qed (use s in auto)
qed simp

lemma SetResidualCoeffs_ok:
  assumes "length cs = 16" "first res = 0 \<or> cs ! 0 = 0"
  shows "\<exists>l. SetResidualCoeffs cs res = Some (res\<lparr>last_nz := l, coeffs := cs\<rparr>) \<and> last_ok cs l"
proof -
  from find_last_ok[of 16 cs] assms(1) obtain l where "find_last cs 16 = Some l" "last_ok cs l"
    by (auto simp: last_ok_def)
  moreover have "ld cs 0 = Some (cs ! 0)" using assms(1) by (simp add: ld_def)
  ultimately show ?thesis using assms(2) by (auto simp: SetResidualCoeffs_def)
qed

definition levels_ok :: "nat \<Rightarrow> int list \<Rightarrow> bool" where
  "levels_ok n cs \<longleftrightarrow> n \<le> 1 \<and> length cs = 16 \<and> (\<forall>c\<in>set cs. \<bar>c\<bar> < 2115) \<and> (n = 1 \<longrightarrow> cs ! 0 = 0)"

definition block_symbols :: "int list list list \<Rightarrow> nat \<Rightarrow> nat \<Rightarrow> int list \<Rightarrow> int \<Rightarrow> symbol list" where
  "block_symbols pr n ctx cs l =
     (0 \<le> l, band_of pr n ctx ! 0) # (if 0 \<le> l then token_symbols pr l n (band_of pr n ctx) (drop n cs) else [])"

lemma parses_GetCoeffs_by:
  assumes gb: "get_bit_ok gb" and pr: "bands_ok pr" and cs: "levels_ok n cs" "last_ok cs l" and ctx: "ctx < 3"
    and dq: "length dq = 2" and out: "length out = 16"
  shows "parses w mem bs (GetCoeffs_by gb mem pr kBands ctx dq n out) (block_symbols pr n ctx cs l)
    (\<lambda>br. (if 0 \<le> l then nat l + 1 else n, dequantized dq n (drop n cs) out, br))"
proof -
  have n: "n < 16" "n \<le> 16" using cs(1) by (simp_all add: levels_ok_def)
  note b = bands[OF pr n(2) ctx]
  note lb = probas_lds[OF b(3)]
  have len: "length cs = 16" using cs(1) by (simp add: levels_ok_def)
  show ?thesis
  proof (cases "0 \<le> l")
    case True
    have nz: "cs ! nat l \<noteq> 0" "nat l < 16" using cs(2) True by (auto simp: last_ok_def)
    have "n \<le> nat l"
    proof (rule ccontr)
      assume "\<not> n \<le> nat l"
      then have "n = 1" "nat l = 0" using cs(1) by (auto simp: levels_ok_def)
      then show False using cs(1) nz by (simp add: levels_ok_def)
    qed
    moreover have "\<forall>c\<in>set (drop (Suc (nat l)) cs). c = 0"
      using cs(2) True len by (auto simp: last_ok_def in_set_conv_nth)
    moreover have "\<forall>c\<in>set cs. \<bar>c\<bar> < 2115" using cs(1) by (simp add: levels_ok_def)
    ultimately have "parses True mem bs (\<lambda>br. get_zeros gb mem pr kBands n (band_of pr n ctx) br \<bind> get_level gb mem pr kBands dq out)
      (token_symbols pr (int (nat l)) n (band_of pr n ctx) (drop n cs)) (\<lambda>br. (Suc (nat l), dequantized dq n (drop n cs) out, br))"
      using nz b(3) gb pr len dq out by (intro parses_levels) auto
    then show ?thesis
      using True n unfolding GetCoeffs_by_def b Option.bind.simps block_symbols_def
      by (subst get_coeffs_loop_step [THEN eq_reflection, abs_def]) (simp add: lb parses_by[OF gb])
  next
    case False
    then have "\<forall>i<16. cs ! i = 0" using cs(2) by (auto simp: last_ok_def)
    then have "\<forall>c\<in>set (drop n cs). c = 0" using len by (auto simp: in_set_conv_nth)
    then have zs: "dequantized dq n (drop n cs) out = out" by (rule dequantized_zeros)
    show ?thesis
      using False n unfolding GetCoeffs_by_def b Option.bind.simps block_symbols_def zs
      by (subst get_coeffs_loop_step [THEN eq_reflection, abs_def]) (simp add: lb parses_by[OF gb] parses_Some)
  qed
qed

lemma kZigzag_distinct: "i < 16 \<Longrightarrow> j < 16 \<Longrightarrow> nat (kZigzag ! i) = nat (kZigzag ! j) \<longleftrightarrow> i = j"
proof -
  assume i: "i < 16" and j: "j < 16"
  have d: "distinct kZigzag" by (simp add: kZigzag_def)
  have "nat (kZigzag ! i) = nat (kZigzag ! j) \<longleftrightarrow> kZigzag ! i = kZigzag ! j"
    using kZigzag_range(2)[OF i] kZigzag_range(2)[OF j] by auto
  then show ?thesis using d i j kZigzag_range(1) by (simp add: nth_eq_iff_index_eq)
qed

lemma dequantized_nth:
  assumes "n + length cs \<le> 16" "length out = 16" "i < 16"
  shows "dequantized dq n cs out ! nat (kZigzag ! i) =
    (if n \<le> i \<and> i < n + length cs \<and> cs ! (i - n) \<noteq> 0 then dequant dq i (cs ! (i - n)) else out ! nat (kZigzag ! i))"
  using assms(1,2)
proof (induction cs arbitrary: n out)
  case (Cons c cs)
  have "nat (kZigzag ! n) < 16" "nat (kZigzag ! i) < 16" using Cons.prems(1) kZigzag_range(2)[of n] kZigzag_range(2)[OF assms(3)] by auto
  moreover have "nat (kZigzag ! n) = nat (kZigzag ! i) \<longleftrightarrow> n = i" using Cons.prems(1) assms(3) by (intro kZigzag_distinct) simp_all
  ultimately have e: "out[nat (kZigzag ! n) := v] ! nat (kZigzag ! i) = (if n = i then v else out ! nat (kZigzag ! i))" for v
    using Cons.prems(2) by (simp add: nth_list_update)
  have IH: "dequantized dq (Suc n) cs out' ! nat (kZigzag ! i) = (if Suc n \<le> i \<and> i < Suc n + length cs \<and> cs ! (i - Suc n) \<noteq> 0
      then dequant dq i (cs ! (i - Suc n)) else out' ! nat (kZigzag ! i))" if "length out' = 16" for out'
    using Cons.IH[of "Suc n" out'] Cons.prems(1) that by simp
  show ?case
  proof (cases "n < i")
    case True
    then have "i - n = Suc (i - Suc n)" by simp
    then show ?thesis using True IH Cons.prems(2) e by (auto simp: nth_Cons')
  next
    case False
    then show ?thesis using IH Cons.prems(2) e by (cases "i = n") auto
  qed
qed simp

lemma emits_block:
  assumes "bands_ok pr" "levels_ok n cs" "ctx < 3"
  shows "emits malloc e (PutCoeffs malloc ctx \<lparr>first = n, last_nz = l, coeffs = cs, prob = pr\<rparr>) (block_symbols pr n ctx cs l) (Pair (of_bool (0 \<le> l)))"
  unfolding block_symbols_def
  using emits_PutCoeffs[of "\<lparr>first = n, last_nz = l, coeffs = cs, prob = pr\<rparr>" ctx malloc e] assms
  by (simp add: levels_ok_def cong: if_cong)

lemma parses_GetCoeffs:
  assumes "bands_ok pr" "levels_ok n cs" "last_ok cs l" "ctx < 3" "length dq = 2" "length out = 16"
  shows "parses w mem bs ((if alt then GetCoeffsAlt else GetCoeffsFast) mem pr kBands ctx dq n out) (block_symbols pr n ctx cs l)
    (\<lambda>br. (if 0 \<le> l then nat l + 1 else n, dequantized dq n (drop n cs) out, br))"
  using parses_GetCoeffs_by[OF get_bit_ok(1) assms] parses_GetCoeffs_by[OF get_bit_ok(2) assms]
  by (cases alt) (simp_all add: GetCoeffsAlt_def GetCoeffsFast_def)

text \<open>A block, with either variant of the reader.\<close>

interpretation coefficient_block: syntax_element
  "\<lambda>malloc (alt, pr, n, ctx, cs, l, dq, out). PutCoeffs malloc ctx \<lparr>first = n, last_nz = l, coeffs = cs, prob = pr\<rparr>"
  "\<lambda>(alt, pr, n, ctx, cs, l, dq, out). Pair (of_bool (0 \<le> l))"
  "\<lambda>(alt, pr, n, ctx, dq, out) mem. (if alt then GetCoeffsAlt else GetCoeffsFast) mem pr kBands ctx dq n out"
  "\<lambda>(alt, pr, n, ctx, cs, l, dq, out) br. (if 0 \<le> l then nat l + 1 else n, dequantized dq n (drop n cs) out, br)"
  "\<lambda>(alt, pr, n, ctx, cs, l, dq, out). (alt, pr, n, ctx, dq, out)"
  "\<lambda>(alt, pr, n, ctx, cs, l, dq, out). block_symbols pr n ctx cs l"
  "\<lambda>(alt :: bool, pr, n, ctx, cs, l, dq, out). bands_ok pr \<and> levels_ok n cs \<and> last_ok cs l \<and> ctx < 3 \<and> length dq = 2 \<and> length out = 16"
  by unfold_locales (auto intro: emits_block parses_GetCoeffs split del: if_split)

lemma extra_symbols_length: "length (extra_symbols v tab) = length tab"
  by (induction tab) simp_all

lemma large_symbols_length: "length (large_symbols v p) \<le> 15"
  by (simp add: large_symbols_def category_symbols_def extra_symbols_length category_tables)

lemma token_symbols_length: "length (token_symbols pr l n p cs) \<le> 19 * length cs"
proof (induction cs arbitrary: n p)
  case (Cons c cs)
  have IH: "length (token_symbols pr l (Suc n) q cs) \<le> 19 * length cs" for q by (rule Cons.IH)
  show ?case
    using large_symbols_length[of "\<bar>c\<bar>" p] IH[of "band_of pr (Suc n) (level_ctx c)"] IH[of "band_of pr (Suc n) 0"]
    by (simp split del: if_split) (auto split: if_split)
qed simp

lemma block_symbols_length: "levels_ok n cs \<Longrightarrow> length (block_symbols pr n ctx cs l) \<le> 305"
  using token_symbols_length[of pr l n "band_of pr n ctx" "drop n cs"] by (auto simp add: block_symbols_def levels_ok_def)

subsection \<open>The round trip\<close>

lemma CoeffsProba0_bands: "t < 4 \<Longrightarrow> bands_ok (CoeffsProba0 ! t)"
proof -
  assume "t < 4"
  then have "CoeffsProba0 ! t \<in> set CoeffsProba0" using coefficient_shapes(1) by (simp add: shape4_def)
  then show ?thesis using coefficient_shapes(1) unfolding shape4_def bands_ok_def probas_ok_def by blast
qed

text \<open>C19. A block of quantized coefficients survives the coder. For any probabilities, context and start
  index, the tokens that \<open>PutCoeffs\<close> writes for levels below 2115 are read back, by both variants of
  \<open>GetCoeffs\<close>, as the dequantized levels in raster order; the other places keep what they held, the number
  returned is one past the last non-zero level, and the encoder reports whether there was one.\<close>

theorem coefficient_roundtrip:
  assumes "bands_ok pr" "levels_ok n cs" "ctx < 3" "length dq = 2" "length out = 16" "malloc_ok malloc" "uint sz < 2 ^ 33"
  shows "\<exists>res l bw bw1 bw'. SetResidualCoeffs cs \<lparr>first = n, last_nz = 0, coeffs = [], prob = pr\<rparr> = Some res \<and> last_ok cs l \<and>
    VP8BitWriterInit malloc sz = Some (1, bw) \<and> PutCoeffs malloc ctx res bw = Some (of_bool (0 \<le> l), bw1) \<and>
    VP8BitWriterFinish malloc bw1 = Some bw' \<and> bw_error bw' = 0 \<and>
    (\<forall>pre post. \<forall>get \<in> {GetCoeffsFast, GetCoeffsAlt}. \<exists>br br' out'.
       VP8InitBitReader (pre @ written bw' @ post) (int (length pre)) (of_nat (length (written bw'))) = Some br \<and>
       get (pre @ written bw' @ post) pr kBands ctx dq n out br = Some (if 0 \<le> l then nat l + 1 else n, out', br') \<and>
       length out' = 16 \<and>
       (\<forall>i<16. out' ! nat (kZigzag ! i) =
          (if n \<le> i \<and> cs ! i \<noteq> 0 then signed_take_bit 15 (cs ! i * dq ! of_bool (i > 0)) else out ! nat (kZigzag ! i))))"
proof -
  have cs: "length cs = 16" "n \<le> 1" "n = 0 \<or> cs ! 0 = 0" using assms(2) by (auto simp: levels_ok_def)
  from SetResidualCoeffs_ok[of cs "\<lparr>first = n, last_nz = 0, coeffs = [], prob = pr\<rparr>"] cs obtain l where
    l: "SetResidualCoeffs cs \<lparr>first = n, last_nz = 0, coeffs = [], prob = pr\<rparr> = Some \<lparr>first = n, last_nz = l, coeffs = cs, prob = pr\<rparr>" "last_ok cs l"
    by auto
  let ?x = "\<lambda>alt. (alt, pr, n, ctx, cs, l, dq, out)"
  have ne: "block_symbols pr n ctx cs l \<noteq> []" "length (block_symbols pr n ctx cs l) < 2 ^ 31"
    using block_symbols_length[OF assms(2), of pr ctx l] by (simp_all add: block_symbols_def)
  have ok: "bands_ok pr \<and> levels_ok n cs \<and> last_ok cs l \<and> ctx < 3 \<and> length dq = 2 \<and> length out = 16" using assms l(2) by simp
  have out: "(\<forall>i<16. dequantized dq n (drop n cs) out ! nat (kZigzag ! i) =
          (if n \<le> i \<and> cs ! i \<noteq> 0 then signed_take_bit 15 (cs ! i * dq ! of_bool (i > 0)) else out ! nat (kZigzag ! i)))"
    using dequantized_nth[of n "drop n cs" out _ dq] cs assms(5) by (auto simp: dequant_def)
  from coefficient_block.roundtrip_family[of ?x "block_symbols pr n ctx cs l" malloc
      "PutCoeffs malloc ctx \<lparr>first = n, last_nz = l, coeffs = cs, prob = pr\<rparr>" "Pair (of_bool (0 \<le> l))" sz, unfolded prod.case,
      OF ok refl refl refl ne assms(6,7)]
  obtain bw bw1 bw' where w: "VP8BitWriterInit malloc sz = Some (1, bw)"
    "PutCoeffs malloc ctx \<lparr>first = n, last_nz = l, coeffs = cs, prob = pr\<rparr> bw = Some (of_bool (0 \<le> l), bw1)"
    "VP8BitWriterFinish malloc bw1 = Some bw'" "bw_error bw' = 0"
    and r: "\<And>alt pre post. \<exists>br br'. VP8InitBitReader (pre @ written bw' @ post) (int (length pre)) (of_nat (length (written bw'))) = Some br \<and>
        (if alt then GetCoeffsAlt else GetCoeffsFast) (pre @ written bw' @ post) pr kBands ctx dq n out br =
        Some (if 0 \<le> l then nat l + 1 else n, dequantized dq n (drop n cs) out, br')"
    by blast
  have rd: "\<exists>br br' out'. VP8InitBitReader (pre @ written bw' @ post) (int (length pre)) (of_nat (length (written bw'))) = Some br \<and>
       get (pre @ written bw' @ post) pr kBands ctx dq n out br = Some (if 0 \<le> l then nat l + 1 else n, out', br') \<and> length out' = 16 \<and>
       (\<forall>i<16. out' ! nat (kZigzag ! i) =
          (if n \<le> i \<and> cs ! i \<noteq> 0 then signed_take_bit 15 (cs ! i * dq ! of_bool (i > 0)) else out ! nat (kZigzag ! i)))"
    if "get \<in> {GetCoeffsFast, GetCoeffsAlt}" for pre post get
  proof -
    have "\<exists>alt. get = (if alt then GetCoeffsAlt else GetCoeffsFast)" using that by (auto intro: exI[of _ True] exI[of _ False])
    then obtain alt where "get = (if alt then GetCoeffsAlt else GetCoeffsFast)" ..
    with r[of pre post alt] out assms(5) show ?thesis by (auto simp del: if_split split del: if_split)
  qed
  show ?thesis using w l rd by blast
qed

lemma coefficient_roundtrip_witness:
  "\<exists>bw bw1 bw' br br' k out'. VP8BitWriterInit (\<lambda>n. Some (replicate n 0)) 16 = Some (1, bw) \<and>
    VP8BitWriterFinish (\<lambda>n. Some (replicate n 0)) bw1 = Some bw' \<and>
    VP8InitBitReader (written bw') 0 (of_nat (length (written bw'))) = Some br \<and>
    GetCoeffsAlt (written bw') (CoeffsProba0 ! 3) kBands 1 [10, 12] 0 (replicate 16 0) br = Some (k, out', br') \<and>
    out' ! 0 = 50 \<and> out' ! 1 = 0 \<and> out' ! 4 = -36 \<and> out' ! 8 = 2400"
proof -
  let ?cs = "[5 :: int, 0, -3, 200, 0, 0, 0, 0, 0, 0, 0, 0, 0, 0, 0, 0]"
  have lv: "levels_ok 0 ?cs" by (simp add: levels_ok_def)
  have z: "kZigzag ! 0 = 0" "kZigzag ! Suc 0 = 1" "kZigzag ! 2 = 4" "kZigzag ! 3 = 8" by (simp_all add: kZigzag_def)
  have all: "P 0 \<and> P 1 \<and> P 2 \<and> P 3" if "\<forall>i<16. P i" for P :: "nat \<Rightarrow> bool" using that by simp
  have m: "malloc_ok (\<lambda>n. Some (replicate n 0))" by (simp add: malloc_ok_def)
  have a: "(3 :: nat) < 4" "(1 :: nat) < 3" "length [10, 12 :: int] = 2" "length (replicate 16 (0 :: int)) = 16" "uint (16 :: u64) < 2 ^ 33" by simp_all
  from coefficient_roundtrip[OF CoeffsProba0_bands[OF a(1)] lv a(2-4) m a(5)]
  obtain bw bw1 bw' where w: "VP8BitWriterInit (\<lambda>n. Some (replicate n 0)) 16 = Some (1, bw)"
      "VP8BitWriterFinish (\<lambda>n. Some (replicate n 0)) bw1 = Some bw'"
    and r: "\<And>pre post. \<exists>br br' k out'. VP8InitBitReader (pre @ written bw' @ post) (int (length pre)) (of_nat (length (written bw'))) = Some br \<and>
       GetCoeffsAlt (pre @ written bw' @ post) (CoeffsProba0 ! 3) kBands 1 [10, 12] 0 (replicate 16 0) br = Some (k, out', br') \<and>
       (\<forall>i<16. out' ! nat (kZigzag ! i) = (if 0 \<le> i \<and> ?cs ! i \<noteq> 0 then signed_take_bit 15 (?cs ! i * [10, 12] ! of_bool (i > 0)) else replicate 16 0 ! nat (kZigzag ! i)))"
    by (elim exE conjE) (rule that, assumption, assumption, blast)
  from r[of "[]" "[]"] obtain br br' k out' where g: "VP8InitBitReader (written bw') 0 (of_nat (length (written bw'))) = Some br"
       "GetCoeffsAlt (written bw') (CoeffsProba0 ! 3) kBands 1 [10, 12] 0 (replicate 16 0) br = Some (k, out', br')"
    and o: "\<forall>i<16. out' ! nat (kZigzag ! i) = (if 0 \<le> i \<and> ?cs ! i \<noteq> 0 then signed_take_bit 15 (?cs ! i * [10, 12] ! of_bool (i > 0)) else replicate 16 0 ! nat (kZigzag ! i))"
    by auto
  have "out' ! 0 = 50" "out' ! 1 = 0" "out' ! 4 = -36" "out' ! 8 = 2400"
    using all[OF o] by (simp_all add: z numeral_2_eq_2 [symmetric] numeral_3_eq_3 [symmetric] signed_take_bit_int_eq_self)
  with w g show ?thesis by blast
qed


end
