(* ===== verification/Total_Decoder.thy ===== *)
theory Total_Decoder
  imports VP8_Tokens
begin

section \<open>The decoder on arbitrary data\<close>

text \<open>
  A file is untrusted input. This theory shows that the boolean decoder and the parsers of the lossy headers and
  coefficients return, without an access outside of their buffers, for every content of the memory: there is no
  assumption on the bytes. \<open>returns x Q\<close> is total correctness of a computation; \<open>reader_ok\<close> is the invariant of
  the reader.
\<close>

unbundle bit_operations_syntax

subsection \<open>Computations that return\<close>

definition returns :: "'a option \<Rightarrow> ('a \<Rightarrow> bool) \<Rightarrow> bool" where
  "returns x Q \<longleftrightarrow> (\<exists>r. x = Some r \<and> Q r)"

lemma returns_Some [simp]: "returns (Some r) Q \<longleftrightarrow> Q r"
  by (simp add: returns_def)

lemma returns_bind: "returns x Q \<Longrightarrow> (\<And>r. Q r \<Longrightarrow> returns (f r) R) \<Longrightarrow> returns (x \<bind> f) R"
  by (auto simp: returns_def)

lemma returns_mono: "returns x Q \<Longrightarrow> (\<And>r. Q r \<Longrightarrow> R r) \<Longrightarrow> returns x R"
  by (auto simp: returns_def)

lemma returns_if: "(c \<Longrightarrow> returns x Q) \<Longrightarrow> (\<not> c \<Longrightarrow> returns y Q) \<Longrightarrow> returns (if c then x else y) Q"
  by simp

lemma returns_for:
  assumes "I a s" "a \<le> b" "\<And>j t. a \<le> j \<Longrightarrow> j < b \<Longrightarrow> I j t \<Longrightarrow> returns (body j t) (I (Suc j))"
  shows "returns (for_range a b body s) (I b)"
  unfolding returns_def by (rule for_range_inv) (use assms in \<open>auto simp: returns_def\<close>)

lemma returns_ld: "0 \<le> i \<Longrightarrow> i < int (length m) \<Longrightarrow> (Q (m ! nat i)) \<Longrightarrow> returns (ld m i) Q"
  by (simp add: ld_def)

lemma bind_ld: "0 \<le> i \<Longrightarrow> i < int (length m) \<Longrightarrow> returns (f (m ! nat i)) R \<Longrightarrow> returns (ld m i \<bind> f) R"
  by (simp add: ld_def)

lemma bind_st: "0 \<le> i \<Longrightarrow> i < int (length m) \<Longrightarrow> returns (f (m[nat i := v])) R \<Longrightarrow> returns (st m i v \<bind> f) R"
  by (simp add: st_def)

subsection \<open>The invariant of the boolean decoder\<close>

definition reader_ok :: "u8 list \<Rightarrow> VP8BitReader \<Rightarrow> bool" where
  "reader_ok mem br \<longleftrightarrow>
     (\<exists>buf. br_buf br = Some buf \<and> 0 \<le> buf \<and> buf \<le> br_buf_end br \<and> br_buf_end br \<le> int (length mem) \<and>
       (br_buf_max br \<le> buf \<or> br_buf_max br + 7 \<le> br_buf_end br)) \<and>
     -8 \<le> br_bits br \<and> br_bits br \<le> 55 \<and> 127 \<le> uint (br_range br) \<and> uint (br_range br) \<le> 255 \<and>
     (br_eof br = 0 \<or> br_eof br = 1)"

lemma returns_LoadNewBytes:
  assumes "reader_ok mem br" "br_bits br < 0"
  shows "returns (VP8LoadNewBytes mem br) (\<lambda>br'. reader_ok mem br' \<and> 0 \<le> br_bits br' \<and> br_range br' = br_range br)"
proof -
  from assms(1) obtain buf where b: "br_buf br = Some buf" "0 \<le> buf" "buf \<le> br_buf_end br" "br_buf_end br \<le> int (length mem)"
      "br_buf_max br \<le> buf \<or> br_buf_max br + 7 \<le> br_buf_end br"
    by (auto simp: reader_ok_def)
  have l: "ld mem (buf + i) = Some (mem ! nat (buf + i))" if "buf < br_buf_max br" "0 \<le> i" "i < 8" for i
    using b that by (auto simp: ld_def)
  note l8 = l[of 1] l[of 2] l[of 3] l[of 4] l[of 5] l[of 6] l[of 7]
  have l0: "ld mem buf = Some (mem ! nat buf)" if "buf < br_buf_max br \<or> buf < br_buf_end br"
    using b that by (auto simp: ld_def)
  show ?thesis
    using assms b l8 l0
    by (auto simp: VP8LoadNewBytes_def VP8LoadFinalBytes_def mem_to_uint64_def reader_ok_def returns_def Let_def)
qed

lemma returns_load:
  assumes "reader_ok mem br"
  shows "returns (if br_bits br < 0 then VP8LoadNewBytes mem br else Some br) (\<lambda>br'. reader_ok mem br' \<and> 0 \<le> br_bits br' \<and> br_range br' = br_range br)"
  using returns_LoadNewBytes[OF assms] assms by auto

lemma norm_range:
  assumes "0 \<le> r'" "r' \<le> 254" "uint x = r' + 1"
  shows "returns (BitsLog2Floor x) (\<lambda>log. 0 \<le> 7 XOR log \<and> 7 XOR log \<le> 7 \<and>
    127 \<le> uint (push_bit (nat (7 XOR log)) x - 1) \<and> uint (push_bit (nat (7 XOR log)) x - 1) \<le> 254)"
proof -
  note n = norm_shift_props(1-3)[OF assms(1,2)]
  note lg = log2_shift[OF assms]
  have "uint (push_bit (norm_shift r') x) = (r' + 1) * 2 ^ norm_shift r'"
    using uint_push_small[of x "norm_shift r'"] n(3) by (simp add: assms(3))
  then have "uint (push_bit (norm_shift r') x - 1) = (r' + 1) * 2 ^ norm_shift r' - 1" using n by (simp add: uint_word_ariths)
  then show ?thesis using n lg by simp
qed

lemma returns_GetBit:
  assumes br: "reader_ok mem br" and p: "0 \<le> p" "p < 256"
  shows "returns (VP8GetBit mem br p) (\<lambda>(b, br'). reader_ok mem br' \<and> (b = 0 \<or> b = 1))"
proof -
  have r: "127 \<le> uint (br_range br)" "uint (br_range br) \<le> 255" using br by (auto simp: reader_ok_def)
  define sp where "sp = drop_bit 8 (br_range br * word_of_int p)"
  have "uint (br_range br) * p \<le> 255 * 255" using r p by (intro mult_mono) auto
  then have "uint (br_range br * word_of_int p) = uint (br_range br) * p"
    using r p by (simp add: uint_word_ariths uint_word_of_int)
  then have sp: "uint sp = uint (br_range br) * p div 256" by (simp add: sp_def uint_shiftr)
  have "uint (br_range br) * p \<le> uint (br_range br) * 255" using r p by (intro mult_left_mono) auto
  then have s: "0 \<le> uint sp" "uint sp < uint (br_range br)" unfolding sp using r p int_div_less[of 256 "uint (br_range br) * p" "uint (br_range br)"] by (auto simp: pos_imp_zdiv_nonneg_iff)
  have x1: "uint (br_range br - sp) = (uint (br_range br) - uint sp - 1) + 1" using s uint_sub_small[of sp "br_range br"] by simp
  have x2: "uint (sp + 1) = uint sp + 1" using s r by (simp add: uint_word_ariths)
  have fin: "reader_ok mem (br1\<lparr>br_value := w, br_bits := br_bits br1 - k, br_range := x\<rparr>)"
    if "reader_ok mem br1" "0 \<le> br_bits br1" "0 \<le> k" "k \<le> 7" "127 \<le> uint x" "uint x \<le> 254" for br1 w k x
    using that by (auto simp: reader_ok_def)
  have fin': "reader_ok mem (br1\<lparr>br_bits := br_bits br1 - k, br_range := x\<rparr>)"
    if "reader_ok mem br1" "0 \<le> br_bits br1" "0 \<le> k" "k \<le> 7" "127 \<le> uint x" "uint x \<le> 254" for br1 k x
    using that by (auto simp: reader_ok_def)
  show ?thesis
    unfolding VP8GetBit_def Let_def
    apply (rule returns_bind[OF returns_load[OF br]])
    apply (elim conjE)
    apply (simp only: flip: sp_def)
    subgoal for br1
      using norm_range[OF _ _ x1] norm_range[OF _ _ x2] s r
      by (auto intro!: returns_bind[where Q = "\<lambda>log. 0 \<le> 7 XOR log \<and> 7 XOR log \<le> 7 \<and>
    127 \<le> uint (push_bit (nat (7 XOR log)) _ - 1) \<and> uint (push_bit (nat (7 XOR log)) _ - 1) \<le> 254"] fin fin')
    done
qed



lemma new_range_bounds: "0 \<le> r \<Longrightarrow> r < 127 \<Longrightarrow> returns (ld kVP8Log2Range r) (\<lambda>s. 0 \<le> s \<and> s \<le> 7)"
    "0 \<le> r \<Longrightarrow> r < 127 \<Longrightarrow> returns (ld kVP8NewRange r) (\<lambda>x. 127 \<le> uint x \<and> uint x \<le> 254)"
proof -
  have "\<forall>s\<in>set kVP8Log2Range. 0 \<le> s \<and> s \<le> 7" "length kVP8Log2Range = 128" by (simp_all add: kVP8Log2Range_def)
  moreover have "\<forall>x\<in>set kVP8NewRange. 127 \<le> uint x \<and> uint x \<le> 254" "length kVP8NewRange = 128" by (simp_all add: kVP8NewRange_def)
  ultimately show "0 \<le> r \<Longrightarrow> r < 127 \<Longrightarrow> returns (ld kVP8Log2Range r) (\<lambda>s. 0 \<le> s \<and> s \<le> 7)"
    "0 \<le> r \<Longrightarrow> r < 127 \<Longrightarrow> returns (ld kVP8NewRange r) (\<lambda>x. 127 \<le> uint x \<and> uint x \<le> 254)"
    by (auto intro!: returns_ld)
qed

lemma returns_GetBitAlt:
  assumes br: "reader_ok mem br" and p: "0 \<le> p" "p < 256"
  shows "returns (VP8GetBitAlt mem br p) (\<lambda>(b, br'). reader_ok mem br' \<and> (b = 0 \<or> b = 1))"
proof (cases "uint (br_range br) \<le> 254")
  case True
  then show ?thesis using returns_GetBit[OF br p] VP8GetBitAlt_eq[OF _ True p, of mem] br by (auto simp: reader_ok_def)
next
  case False
  then have r: "uint (br_range br) = 255" using br by (auto simp: reader_ok_def)
  define sp where "sp = drop_bit 8 (br_range br * word_of_int p)"
  have "uint (br_range br * word_of_int p) = 255 * p" using r p by (simp add: uint_word_ariths uint_word_of_int)
  then have sp: "uint sp = 255 * p div 256" by (simp add: sp_def uint_shiftr)
  then have s: "0 \<le> uint sp" "uint sp \<le> 254" using p by (auto simp: pos_imp_zdiv_nonneg_iff)
  have x1: "uint (br_range br - (sp + 1)) = 254 - uint sp"
    using s r uint_sub_small[of "sp + 1" "br_range br"] by (simp add: uint_word_ariths)
  have fin: "returns (if x \<le> 0x7e then do {
          shift \<leftarrow> ld kVP8Log2Range (uint x);
          range2 \<leftarrow> ld kVP8NewRange (uint x);
          Some (range2, br1\<lparr>br_bits := br_bits br1 - shift\<rparr>) }
        else Some (x, br1)) (\<lambda>(x, br1). reader_ok mem (br1\<lparr>br_range := x\<rparr>))"
    if "reader_ok mem br1" "0 \<le> br_bits br1" "uint x \<le> 254" for br1 x
  proof (rule returns_if)
    assume "x \<le> 0x7e"
    then have x: "uint x < 127" by (simp add: word_le_def)
    show "returns (do { shift \<leftarrow> ld kVP8Log2Range (uint x); range2 \<leftarrow> ld kVP8NewRange (uint x);
        Some (range2, br1\<lparr>br_bits := br_bits br1 - shift\<rparr>) }) (\<lambda>(x, br1). reader_ok mem (br1\<lparr>br_range := x\<rparr>))"
      using that by (intro returns_bind[OF new_range_bounds(1)[OF _ x]] returns_bind[OF new_range_bounds(2)[OF _ x]]) (auto simp: reader_ok_def)
  next
    assume "\<not> x \<le> 0x7e"
    then have "127 \<le> uint x" by (simp add: word_le_def)
    then show "returns (Some (x, br1)) (\<lambda>(x, br1). reader_ok mem (br1\<lparr>br_range := x\<rparr>))"
      using that by (auto simp: reader_ok_def)
  qed
  have v: "reader_ok mem (br1\<lparr>br_value := w\<rparr>) = reader_ok mem br1" for br1 w by (simp add: reader_ok_def)
  show ?thesis
    unfolding VP8GetBitAlt_def Let_def
    apply (rule returns_bind[OF returns_load[OF br]])
    apply (elim conjE)
    apply (simp only: flip: sp_def)
    subgoal for br1
      apply (rule returns_bind[where Q = "\<lambda>(x, br2, b :: int). reader_ok mem br2 \<and> 0 \<le> br_bits br2 \<and> uint x \<le> 254 \<and> (b = 0 \<or> b = 1)"])
       apply (use s in \<open>simp add: v x1\<close>)
      apply (clarsimp split del: if_split)
      apply (rule returns_bind[OF fin]; auto)
      done
    done
qed

lemma returns_GetSigned:
  assumes br: "reader_ok mem br"
  shows "returns (VP8GetSigned mem br v) (\<lambda>(s, br'). reader_ok mem br' \<and> (s = v \<or> s = - v))"
proof -
  have m: "drop_bit 31 (sint w) = 0 \<or> drop_bit 31 (sint w) = -1" for w :: u32
  proof -
    have "- (2 ^ 31) \<le> sint w" "sint w < 2 ^ 31" using sint_ge[of w] sint_lt[of w] by simp_all
    moreover have "x div 2147483648 = 0 \<or> x div 2147483648 = -1" if "-2147483648 \<le> x" "x < 2147483648" for x :: int
    proof (cases "0 \<le> x")
      case False
      then have "x div 2147483648 = -1" using that by (intro int_div_pos_eq[of _ _ _ "x + 2147483648"]) simp_all
      then show ?thesis ..
    qed (use that in \<open>simp add: div_pos_pos_trivial\<close>)
    ultimately have "sint w div 2 ^ 31 = 0 \<or> sint w div 2 ^ 31 = -1" by simp
    then show ?thesis by (simp add: drop_bit_eq_div)
  qed
  have u: "(uint (br_range br + word_of_int msk) OR 1) \<in> {127..255}" if "msk = 0 \<or> msk = -1" for msk
  proof -
    have r: "127 \<le> uint (br_range br)" "uint (br_range br) \<le> 255" using br by (auto simp: reader_ok_def)
    then have e: "uint (br_range br + word_of_int msk) = uint (br_range br) + msk" using that uint_sub_small[of 1 "br_range br"] by (auto simp: add_uminus_conv_diff)
    have "uint (br_range br) \<in> set [127..255]" using r by (simp only: set_upto atLeastAtMost_iff)
    moreover have "\<forall>r\<in>set [127..255]. (r OR 1) \<in> {127..255 :: int} \<and> ((r + - 1) OR 1) \<in> {127..255 :: int}" by code_simp
    ultimately have "(uint (br_range br) OR 1) \<in> {127..255} \<and> ((uint (br_range br) + - 1) OR 1) \<in> {127..255}" by blast
    then show ?thesis using that unfolding e by auto
  qed
  then have fin: "reader_ok mem (br1\<lparr>br_bits := br_bits br1 - 1, br_range := (br_range br1 + word_of_int msk) OR 1, br_value := w\<rparr>)"
    if "reader_ok mem br1" "0 \<le> br_bits br1" "br_range br1 = br_range br" "msk = 0 \<or> msk = -1" for br1 w msk
    using that by (auto simp: reader_ok_def uint_or)
  have val: "(v XOR k) - k = v \<or> (v XOR k) - k = - v" if "k = 0 \<or> k = -1" for k
    using that by (auto simp: not_eq_complement)
  show ?thesis
    unfolding VP8GetSigned_def Let_def
    apply (rule returns_bind[OF returns_load[OF br]])
    apply (elim conjE)
    subgoal for br1
      using fin[of br1, OF _ _ _ m] val[OF m] by (simp only: returns_Some prod.case simp_thms)
    done
qed

lemma returns_get_value_loop:
  "reader_ok mem br \<Longrightarrow> returns (get_value_loop mem n v br) (\<lambda>(w, br'). reader_ok mem br' \<and> drop_bit n w = drop_bit n v)"
proof (induction n arbitrary: v br)
  case (Suc n)
  have d: "drop_bit (Suc n) (v OR word_of_int (push_bit n b)) = drop_bit (Suc n) v" if "b = 0 \<or> b = 1" for b
    by (rule bit_word_eqI) (use that in \<open>auto simp: bit_drop_bit_eq bit_or_iff bit_push_bit_iff bit_1_iff push_bit_of_1 bit_exp_iff\<close>)
  have s: "drop_bit (Suc n) w = drop_bit (Suc n) u" if "drop_bit n w = drop_bit n u" for w u :: u32
    using arg_cong[OF that, of "drop_bit 1"] by (simp add: drop_bit_drop_bit)
  have p: "0 \<le> (0x80 :: int)" "0x80 < (256 :: int)" by simp_all
  show ?case
    unfolding get_value_loop.simps
  proof (rule returns_bind[OF returns_GetBit[OF Suc.prems p]])
    fix r :: "int \<times> VP8BitReader" assume r: "case r of (b, br') \<Rightarrow> reader_ok mem br' \<and> (b = 0 \<or> b = 1)"
    obtain b br' where e: "r = (b, br')" "reader_ok mem br'" "b = 0 \<or> b = 1" using r by auto
    show "returns (case r of (b, br) \<Rightarrow> get_value_loop mem n (v OR word_of_int (push_bit n b)) br)
        (\<lambda>(w, br'). reader_ok mem br' \<and> drop_bit (Suc n) w = drop_bit (Suc n) v)"
      unfolding e(1) prod.case
      by (rule returns_mono[OF Suc.IH[OF e(2)]]) (elim case_prodE conjE, simp only: prod.case simp_thms, drule s, simp only: d[OF e(3)])
  qed
qed simp

lemma returns_GetValue:
  assumes "reader_ok mem br"
  shows "returns (VP8GetValue mem br n) (\<lambda>(v, br'). reader_ok mem br' \<and> uint v < 2 ^ nat n)"
proof -
  have "uint v < 2 ^ nat n" if "drop_bit (nat n) v = drop_bit (nat n) 0" for v :: u32
  proof -
    have "uint v div 2 ^ nat n = 0" using arg_cong[OF that, of uint] by (simp add: uint_shiftr)
    moreover have "uint v = 2 ^ nat n * (uint v div 2 ^ nat n) + uint v mod 2 ^ nat n" by simp
    moreover have "uint v mod 2 ^ nat n < 2 ^ nat n" by simp
    ultimately show ?thesis by simp
  qed
  then show ?thesis
    unfolding VP8GetValue_def by (intro returns_mono[OF returns_get_value_loop[OF assms]]) auto
qed

lemma returns_Get:
  assumes "reader_ok mem br"
  shows "returns (VP8Get mem br) (\<lambda>(b, br'). reader_ok mem br' \<and> (b = 0 \<or> b = 1))"
proof -
  have "uint v = 0 \<or> uint v = 1" if "uint v < 2" for v :: u32 using that uint_ge_0[of v] by linarith
  then show ?thesis
    unfolding VP8Get_def by (intro returns_bind[OF returns_GetValue[OF assms, of 1]]) auto
qed

lemma returns_GetSignedValue:
  assumes "reader_ok mem br" "0 \<le> n" "n < 32"
  shows "returns (VP8GetSignedValue mem br n) (\<lambda>(v, br'). reader_ok mem br' \<and> \<bar>v\<bar> < 2 ^ nat n)"
proof -
  have v: "sint v = uint v" if "uint v < 2 ^ nat n" for v :: u32
  proof -
    have "(2 :: int) ^ nat n \<le> 2 ^ 31" using assms(3) by (intro power_increasing) auto
    then show ?thesis using that by (intro sint_small) simp
  qed
  show ?thesis
    unfolding VP8GetSignedValue_def Let_def
    apply (rule returns_bind[OF returns_GetValue[OF assms(1), of n]])
    apply clarsimp
    apply (rule returns_bind[OF returns_Get], assumption)
    apply (auto simp: v)
    done
qed

lemma InitBitReader_reader:
  assumes "0 \<le> start" "start + uint sz \<le> int (length mem)" "uint sz < 2 ^ 31"
  shows "returns (VP8InitBitReader mem start sz) (reader_ok mem)"
proof -
  let ?br = "VP8BitReaderSetBuffer \<lparr>br_value = 0, br_range = 255 - 1, br_bits = -8, br_buf = None, br_buf_end = 0, br_buf_max = 0, br_eof = 0\<rparr> start sz"
  have z: "sz < 2 ^ 31" using assms(3) by (simp add: word_less_def)
  have "reader_ok mem ?br"
    using assms by (auto simp: reader_ok_def VP8BitReaderSetBuffer_def word_le_def)
  moreover have "br_bits ?br < 0" by (simp add: VP8BitReaderSetBuffer_def)
  ultimately have "returns (VP8LoadNewBytes mem ?br) (\<lambda>br'. reader_ok mem br' \<and> 0 \<le> br_bits br' \<and> br_range br' = br_range ?br)"
    by (rule returns_LoadNewBytes)
  then have "returns (VP8LoadNewBytes mem ?br) (reader_ok mem)" by (rule returns_mono) simp
  then show ?thesis using z by (simp add: VP8InitBitReader_def Let_def)
qed

subsection \<open>One step of a parser\<close>

lemma ret_bit: "reader_ok mem br \<Longrightarrow> 0 \<le> p \<Longrightarrow> p < 256 \<Longrightarrow> (\<And>b br'. reader_ok mem br' \<Longrightarrow> b = 0 \<or> b = 1 \<Longrightarrow> returns (g (b, br')) R) \<Longrightarrow>
    returns (VP8GetBit mem br p \<bind> g) R"
  by (rule returns_bind[OF returns_GetBit]) auto

lemma ret_get: "reader_ok mem br \<Longrightarrow> (\<And>b br'. reader_ok mem br' \<Longrightarrow> b = 0 \<or> b = 1 \<Longrightarrow> returns (g (b, br')) R) \<Longrightarrow>
    returns (VP8Get mem br \<bind> g) R"
  by (rule returns_bind[OF returns_Get]) auto

lemma ret_value: "reader_ok mem br \<Longrightarrow> (\<And>v br'. reader_ok mem br' \<Longrightarrow> uint v < 2 ^ nat n \<Longrightarrow> returns (g (v, br')) R) \<Longrightarrow>
    returns (VP8GetValue mem br n \<bind> g) R"
  by (rule returns_bind[OF returns_GetValue]) auto

lemma ret_signed_value: "reader_ok mem br \<Longrightarrow> 0 \<le> n \<Longrightarrow> n < 32 \<Longrightarrow> (\<And>v br'. reader_ok mem br' \<Longrightarrow> \<bar>v\<bar> < 2 ^ nat n \<Longrightarrow> returns (g (v, br')) R) \<Longrightarrow>
    returns (VP8GetSignedValue mem br n \<bind> g) R"
  by (rule returns_bind[OF returns_GetSignedValue]) auto

lemma ret_signed: "reader_ok mem br \<Longrightarrow> (\<And>s br'. reader_ok mem br' \<Longrightarrow> s = v \<or> s = - v \<Longrightarrow> returns (g (s, br')) R) \<Longrightarrow>
    returns (VP8GetSigned mem br v \<bind> g) R"
  by (rule returns_bind[OF returns_GetSigned]) auto

lemma returns_optional:
  assumes "reader_ok mem br" "0 \<le> n" "n < 32"
  shows "returns (get_optional mem n br) (\<lambda>(v, br'). reader_ok mem br' \<and> \<bar>v\<bar> < 2 ^ nat n)"
  unfolding get_optional_def
  by (rule ret_get[OF assms(1)]) (use assms in \<open>auto intro: returns_GetSignedValue\<close>)

lemma ret_optional: "reader_ok mem br \<Longrightarrow> 0 \<le> n \<Longrightarrow> n < 32 \<Longrightarrow> (\<And>v br'. reader_ok mem br' \<Longrightarrow> \<bar>v\<bar> < 2 ^ nat n \<Longrightarrow> returns (g (v, br')) R) \<Longrightarrow>
    returns (get_optional mem n br \<bind> g) R"
  by (rule returns_bind[OF returns_optional]) auto

lemmas ret_steps = ret_bit ret_get ret_value ret_signed_value ret_signed ret_optional

lemma all_update: "\<forall>x\<in>set xs. P x \<Longrightarrow> P v \<Longrightarrow> \<forall>x\<in>set (xs[i := v]). P x"
  using set_update_subset_insert[of xs i v] by auto

subsection \<open>The headers\<close>

definition segment_header_ok :: "VP8SegmentHeader \<Rightarrow> bool" where
  "segment_header_ok hdr \<longleftrightarrow> length (quantizer hdr) = 4 \<and> (\<forall>q\<in>set (quantizer hdr). \<bar>q\<bar> < 128) \<and>
     length (filter_strength hdr) = 4 \<and> (\<forall>f\<in>set (filter_strength hdr). \<bar>f\<bar> < 64)"

definition segment_probas_ok :: "VP8Proba \<Rightarrow> bool" where
  "segment_probas_ok proba \<longleftrightarrow> length (segments proba) = 3 \<and> (\<forall>p\<in>set (segments proba). 0 \<le> p \<and> p < 256)"

lemma segment_updates:
  "segment_header_ok h \<Longrightarrow> \<bar>v\<bar> < 128 \<Longrightarrow> segment_header_ok (h\<lparr>quantizer := (quantizer h)[i := v]\<rparr>)"
  "segment_header_ok h \<Longrightarrow> \<bar>v\<bar> < 64 \<Longrightarrow> segment_header_ok (h\<lparr>filter_strength := (filter_strength h)[i := v]\<rparr>)"
  "segment_probas_ok q \<Longrightarrow> 0 \<le> v \<Longrightarrow> v < 256 \<Longrightarrow> segment_probas_ok (q\<lparr>segments := (segments q)[i := v]\<rparr>)"
  "segment_header_ok h \<Longrightarrow> length (quantizer h) = 4" "segment_header_ok h \<Longrightarrow> length (filter_strength h) = 4"
  "segment_probas_ok q \<Longrightarrow> length (segments q) = 3"
  unfolding segment_header_ok_def segment_probas_ok_def by (auto dest!: set_update_subset_insert[THEN subsetD])

lemma returns_ParseSegmentHeader:
  assumes "reader_ok mem br" "segment_header_ok hdr" "segment_probas_ok proba"
  shows "returns (ParseSegmentHeader mem hdr proba br) (\<lambda>(ok, hdr', proba', br'). segment_header_ok hdr' \<and> segment_probas_ok proba' \<and>
    bands proba' = bands proba \<and> bands_ptr proba' = bands_ptr proba \<and> reader_ok mem br' \<and> (ok = 1 \<longleftrightarrow> br_eof br' = 0))"
proof -
  have data: "returns (get_segment_data mem h br) (\<lambda>(h', br'). segment_header_ok h' \<and> update_map h' = update_map h \<and> reader_ok mem br')"
    if "reader_ok mem br" "segment_header_ok h" for h br
    unfolding get_segment_data_def Let_def
    apply (rule ret_get[OF that(1)])
    apply (unfold prod.case)
    apply (rule returns_bind)
     apply (rule returns_for[where I = "\<lambda>_ (h', br'). segment_header_ok h' \<and> update_map h' = update_map h \<and> reader_ok mem br'"])
       apply (use that in \<open>simp add: segment_header_ok_def\<close>)
      apply simp
     apply (clarsimp, rule ret_optional, assumption, simp, simp)
     apply (simp, rule bind_st, simp, simp add: segment_updates, simp add: segment_updates signed_take_bit_byte)
    apply (clarsimp)
    apply (rule returns_for[where I = "\<lambda>_ (h', br'). segment_header_ok h' \<and> update_map h' = update_map h \<and> reader_ok mem br'"])
      apply simp
     apply simp
    apply (clarsimp, rule ret_optional, assumption, simp, simp)
    apply (simp, rule bind_st, simp, simp add: segment_updates, simp add: segment_updates signed_take_bit_byte)
    done
  have probas: "returns (get_segment_probas mem q br) (\<lambda>(q', br'). segment_probas_ok q' \<and> bands q' = bands q \<and> bands_ptr q' = bands_ptr q \<and> reader_ok mem br')"
    if "reader_ok mem br" "segment_probas_ok q" for q br
    unfolding get_segment_probas_def
    apply (rule returns_for[where I = "\<lambda>_ (q', br'). segment_probas_ok q' \<and> bands q' = bands q \<and> bands_ptr q' = bands_ptr q \<and> reader_ok mem br'"])
      apply (use that in simp)
     apply simp
    apply (clarsimp, rule ret_get, assumption, unfold prod.case)
    apply (rule returns_bind[where Q = "\<lambda>(v, br'). 0 \<le> v \<and> v < 256 \<and> reader_ok mem br'"])
     apply (rule returns_if, rule ret_value, assumption, simp add: take_bit_int_eq_self, simp)
    apply (clarsimp, rule bind_st, simp, simp add: segment_updates, simp add: segment_updates)
    done
  show ?thesis
    unfolding ParseSegmentHeader_def Let_def
    apply (rule ret_get[OF assms(1)])
    apply (unfold prod.case)
    apply (rule returns_bind[where Q = "\<lambda>(h', q', br'). segment_header_ok h' \<and> segment_probas_ok q' \<and>
      bands q' = bands proba \<and> bands_ptr q' = bands_ptr proba \<and> reader_ok mem br'"])
     apply (rule returns_if)
      apply (rule ret_get, assumption, unfold prod.case, rule ret_get, assumption, unfold prod.case)
      apply (rule returns_bind[where Q = "\<lambda>(h', br'). segment_header_ok h' \<and> reader_ok mem br'"])
       apply (rule returns_if)
        apply (rule returns_mono[OF data], assumption)
         apply (use assms in \<open>simp add: segment_header_ok_def\<close>)
        apply clarsimp
       apply (use assms in \<open>simp add: segment_header_ok_def\<close>)
      apply clarsimp
      apply (rule conjI; clarsimp)
       apply (rule returns_bind[OF probas], assumption)
        apply (use assms in simp)
       apply clarsimp
      apply (use assms in simp)
     apply (use assms in \<open>simp add: segment_header_ok_def\<close>)
    apply clarsimp
    done
qed

definition deltas_ok :: "int list \<Rightarrow> bool" where
  "deltas_ok ds \<longleftrightarrow> length ds = 4 \<and> (\<forall>d\<in>set ds. \<bar>d\<bar> < 64)"

definition filter_header_ok :: "VP8FilterHeader \<Rightarrow> bool" where
  "filter_header_ok hdr \<longleftrightarrow> deltas_ok (ref_lf_delta hdr) \<and> deltas_ok (mode_lf_delta hdr) \<and>
     0 \<le> level hdr \<and> level hdr < 64 \<and> 0 \<le> sharpness hdr \<and> sharpness hdr < 8"

lemma deltas_update: "deltas_ok ds \<Longrightarrow> \<bar>v\<bar> < 64 \<Longrightarrow> deltas_ok (ds[i := v])" "deltas_ok ds \<Longrightarrow> length ds = 4"
  unfolding deltas_ok_def by (auto dest!: set_update_subset_insert[THEN subsetD])

lemma returns_lf_deltas:
  assumes "reader_ok mem br" "deltas_ok ds"
  shows "returns (get_lf_deltas mem ds br) (\<lambda>(ds', br'). deltas_ok ds' \<and> reader_ok mem br')"
  unfolding get_lf_deltas_def
  apply (rule returns_for[where I = "\<lambda>_ (ds', br'). deltas_ok ds' \<and> reader_ok mem br'"])
    apply (use assms in simp)
   apply simp
  apply (clarsimp split del: if_split, rule ret_get, assumption, unfold prod.case)
  apply (rule returns_if)
   apply (rule ret_signed_value, assumption, simp, simp, simp, rule bind_st, simp, simp add: deltas_update, simp add: deltas_update)
  apply simp
  done

lemma sint_below: "uint v < 2 ^ n \<Longrightarrow> n < 32 \<Longrightarrow> sint v = uint v" for v :: u32
proof -
  assume v: "uint v < 2 ^ n" and n: "n < 32"
  have "(2 :: int) ^ n \<le> 2 ^ 31" using n by (intro power_increasing) auto
  then show ?thesis using v by (intro sint_small) simp
qed

lemma returns_ParseFilterHeader:
  assumes "reader_ok mem br" "filter_header_ok hdr"
  shows "returns (ParseFilterHeader mem hdr br) (\<lambda>(ok, ft, hdr', br'). filter_header_ok hdr' \<and> reader_ok mem br' \<and>
    ft \<in> {0, 1, 2} \<and> (ok = 1 \<longleftrightarrow> br_eof br' = 0))"
proof -
  have ok: "filter_header_ok (hdr\<lparr>simple := s, level := sint l, sharpness := sint h, use_lf_delta := u\<rparr>)"
    if "uint l < 2 ^ 6" "uint h < 2 ^ 3" for s u and l h :: u32
    using that assms(2) sint_below[OF that(1)] sint_below[OF that(2)] by (simp add: filter_header_ok_def)
  have deltas: "returns (do { (r, br) \<leftarrow> get_lf_deltas mem (ref_lf_delta h) br; (m, br) \<leftarrow> get_lf_deltas mem (mode_lf_delta h) br;
      Some (h\<lparr>ref_lf_delta := r, mode_lf_delta := m\<rparr>, br) }) (\<lambda>(h', br'). filter_header_ok h' \<and> reader_ok mem br')"
    if "reader_ok mem br" "filter_header_ok h" for br h
    apply (rule returns_bind[OF returns_lf_deltas[OF that(1)]])
     apply (use that(2) in \<open>simp add: filter_header_ok_def\<close>)
    apply (clarsimp, rule returns_bind[OF returns_lf_deltas], assumption)
     apply (use that(2) in \<open>simp add: filter_header_ok_def\<close>)
    apply (use that(2) in \<open>auto simp add: filter_header_ok_def\<close>)
    done
  show ?thesis
    unfolding ParseFilterHeader_def Let_def
    apply (rule ret_get[OF assms(1)], unfold prod.case)
    apply (rule ret_value, assumption, unfold prod.case)
    apply (rule ret_value, assumption, unfold prod.case)
    apply (rule ret_get, assumption, unfold prod.case)
    apply (rule returns_bind[where Q = "\<lambda>(h', br'). filter_header_ok h' \<and> reader_ok mem br'"])
     apply (rule returns_if)
      apply (rule ret_get, assumption, unfold prod.case)
      apply (rule returns_if)
       apply (rule deltas, assumption, rule ok, simp, simp)
      apply (simp add: ok)
     apply (simp add: ok)
    apply auto
    done
qed

definition matrix_ok :: "VP8QuantMatrix \<Rightarrow> bool" where
  "matrix_ok m \<longleftrightarrow> (\<forall>q\<in>{y1_mat m, y2_mat m, uv_mat m}. length q = 2 \<and> (\<forall>x\<in>set q. 0 < x \<and> x \<le> 440))"

lemma quantizer_entries:
  "0 \<le> i \<Longrightarrow> i < 128 \<Longrightarrow> returns (ld kDcTable i) (\<lambda>x. 4 \<le> x \<and> x \<le> 157)"
  "0 \<le> i \<Longrightarrow> i < 128 \<Longrightarrow> returns (ld kAcTable i) (\<lambda>x. 4 \<le> x \<and> x \<le> 284)"
proof -
  have "\<forall>x\<in>set kDcTable. 4 \<le> x \<and> x \<le> 157" "\<forall>x\<in>set kAcTable. 4 \<le> x \<and> x \<le> 284"
    by (simp_all add: kDcTable_def kAcTable_def)
  then show "0 \<le> i \<Longrightarrow> i < 128 \<Longrightarrow> returns (ld kDcTable i) (\<lambda>x. 4 \<le> x \<and> x \<le> 157)"
    "0 \<le> i \<Longrightarrow> i < 128 \<Longrightarrow> returns (ld kAcTable i) (\<lambda>x. 4 \<le> x \<and> x \<le> 284)"
    using quantizer_length by (auto intro!: returns_ld)
qed

lemma returns_quant_matrix: "returns (quant_matrix q dq m) matrix_ok"
proof -
  have c: "0 \<le> dec_clip v M" "dec_clip v M < 128" if "0 \<le> M" "M < 128" for v M using clip_range[OF that(1), of v] that(2) by auto
  have y2: "drop_bit 16 (x * 101581) \<le> 440" if "x \<le> 284" for x :: int
    using that by (simp add: drop_bit_eq_div)
  show ?thesis
    unfolding quant_matrix_def Let_def
    by (rule returns_bind[OF quantizer_entries(1)], simp add: c, simp add: c, rule returns_bind[OF quantizer_entries(2)], simp add: c, simp add: c,
        rule returns_bind[OF quantizer_entries(1)], simp add: c, simp add: c, rule returns_bind[OF quantizer_entries(2)], simp add: c, simp add: c,
        rule returns_bind[OF quantizer_entries(1)], simp add: c, simp add: c, rule returns_bind[OF quantizer_entries(2)], simp add: c, simp add: c)
      (auto simp: matrix_ok_def dest: y2)
qed

lemma returns_VP8ParseQuant:
  assumes "reader_ok mem br" "segment_header_ok hdr" "length dqm = 4"
  shows "returns (VP8ParseQuant mem hdr dqm br) (\<lambda>(dqm', br'). length dqm' = 4 \<and> (\<forall>m\<in>set dqm'. matrix_ok m) \<and> reader_ok mem br')"
proof -
  let ?I = "\<lambda>i ms. length ms = 4 \<and> (\<forall>j<i. matrix_ok (ms ! j))"
  have loop: "returns (for_range 0 4
       (\<lambda>i dqm.
          if use_segment hdr \<noteq> 0 then do {
            q \<leftarrow> ld (quantizer hdr) (int i);
            m \<leftarrow> ld dqm (int i);
            m \<leftarrow> quant_matrix (if absolute_delta hdr = 0 then q + b else q) dq m;
            st dqm (int i) m }
          else if i > 0 then do { m \<leftarrow> ld dqm 0; st dqm (int i) m }
          else do {
            m \<leftarrow> ld dqm (int i);
            m \<leftarrow> quant_matrix b dq m;
            st dqm (int i) m }) dqm) (\<lambda>ms. ?I 4 ms)" for b dq
  proof (rule returns_for[where I = ?I])
    fix i ms assume i: "0 \<le> i" "i < (4 :: nat)" and I: "?I i ms"
    have upd: "?I (Suc i) (ms[i := m])" if "matrix_ok m" for m using I i that by (auto simp: nth_list_update less_Suc_eq)
    have st: "returns (st ms (int i) m) (?I (Suc i))" if "matrix_ok m" for m
      using upd[OF that] i I by (simp add: st_def)
    then have st0: "i = 0 \<Longrightarrow> matrix_ok m \<Longrightarrow> returns (st ms 0 m) (?I (Suc 0))" for m by auto
    have q: "int i < int (length (quantizer hdr))" using assms(2) i by (simp add: segment_header_ok_def)
    show "returns (if use_segment hdr \<noteq> 0 then do {
            q \<leftarrow> ld (quantizer hdr) (int i);
            m \<leftarrow> ld ms (int i);
            m \<leftarrow> quant_matrix (if absolute_delta hdr = 0 then q + b else q) dq m;
            st ms (int i) m }
          else if i > 0 then do { m \<leftarrow> ld ms 0; st ms (int i) m }
          else do {
            m \<leftarrow> ld ms (int i);
            m \<leftarrow> quant_matrix b dq m;
            st ms (int i) m }) (?I (Suc i))"
      using i I q
      by (intro returns_if) (auto intro!: bind_ld returns_bind[OF returns_quant_matrix] st st0[simplified])
  qed (use assms in simp_all)
  show ?thesis
    unfolding VP8ParseQuant_def Let_def
    apply (rule ret_value[OF assms(1)], unfold prod.case)
    apply (rule ret_optional, assumption, simp, simp, unfold prod.case)+
    apply (rule returns_bind[OF loop])
    apply (auto simp: in_set_conv_nth)
    done
qed

lemma returns_st4:
  assumes "shape4 a b c d t" "i < a" "j < b" "k < c" "l < d" "0 \<le> v" "v < 256"
  shows "returns (st4 t i j k l v) (shape4 a b c d)"
proof -
  have s: "length t = a" "\<forall>x\<in>set t. length x = b \<and> (\<forall>y\<in>set x. length y = c \<and> (\<forall>z\<in>set y. length z = d \<and> (\<forall>p\<in>set z. 0 \<le> p \<and> p < 256)))"
    using assms(1) by (simp_all add: shape4_def)
  have x: "t ! i \<in> set t" using s(1) assms(2) by simp
  have y: "t ! i ! j \<in> set (t ! i)" using s(2) x assms(3) by simp
  have z: "t ! i ! j ! k \<in> set (t ! i ! j)" using s(2) x y assms(4) by simp
  have len: "length (t ! i) = b" "length (t ! i ! j) = c" "length (t ! i ! j ! k) = d" using s(2) x y z by blast+
  have z': "length ((t ! i ! j ! k)[l := v]) = d \<and> (\<forall>p\<in>set ((t ! i ! j ! k)[l := v]). 0 \<le> p \<and> p < 256)"
    using s(2) x y z len assms(6,7) by (auto dest!: set_update_subset_insert[THEN subsetD])
  have y': "length ((t ! i ! j)[k := (t ! i ! j ! k)[l := v]]) = c \<and>
      (\<forall>z\<in>set ((t ! i ! j)[k := (t ! i ! j ! k)[l := v]]). length z = d \<and> (\<forall>p\<in>set z. 0 \<le> p \<and> p < 256))"
    using all_update[of "t ! i ! j" "\<lambda>z. length z = d \<and> (\<forall>p\<in>set z. 0 \<le> p \<and> p < 256)", OF _ z'] s(2) x y len by auto
  have x': "length ((t ! i)[j := (t ! i ! j)[k := (t ! i ! j ! k)[l := v]]]) = b \<and>
      (\<forall>y\<in>set ((t ! i)[j := (t ! i ! j)[k := (t ! i ! j ! k)[l := v]]]). length y = c \<and> (\<forall>z\<in>set y. length z = d \<and> (\<forall>p\<in>set z. 0 \<le> p \<and> p < 256)))"
    using all_update[of "t ! i" "\<lambda>y. length y = c \<and> (\<forall>z\<in>set y. length z = d \<and> (\<forall>p\<in>set z. 0 \<le> p \<and> p < 256))", OF _ y'] s(2) x len by auto
  have "shape4 a b c d (t[i := (t ! i)[j := (t ! i ! j)[k := (t ! i ! j ! k)[l := v]]]])"
    unfolding shape4_def
    using all_update[of t "\<lambda>x. length x = b \<and> (\<forall>y\<in>set x. length y = c \<and> (\<forall>z\<in>set y. length z = d \<and> (\<forall>p\<in>set z. 0 \<le> p \<and> p < 256)))", OF _ x'] s by auto
  then show ?thesis using s(1) len assms(2-5) by (simp add: st4_def ld_nat st_nat)
qed

definition proba_shape :: "VP8Proba \<Rightarrow> bool" where
  "proba_shape proba \<longleftrightarrow> shape4 4 8 3 11 (bands proba) \<and> length (bands_ptr proba) = 4 \<and> (\<forall>r\<in>set (bands_ptr proba). length r = 17)"

lemma take_bit_byte: "take_bit 8 v < (256 :: int)"
  using take_bit_int_less_exp[of 8 v] by simp

lemma returns_get_proba:
  assumes "reader_ok mem br" "shape4 4 8 3 11 (bands proba)" "t < 4" "b < 8" "c < 3" "p < 11"
  shows "returns (get_proba mem t b c p (proba, br)) (\<lambda>(proba', br'). \<exists>bs. proba' = proba\<lparr>bands := bs\<rparr> \<and> shape4 4 8 3 11 bs \<and> reader_ok mem br')"
proof -
  note l = ld4_shape[OF coefficient_shapes(1) assms(3-6)] ld4_shape[OF coefficient_shapes(2) assms(3-6)]
  have store: "returns (st4 (bands proba) t b c p (take_bit 8 v)) (shape4 4 8 3 11)" for v
    by (rule returns_st4[OF assms(2-6)]) (use take_bit_int_less_exp[of 8 v] in simp_all)
  show ?thesis
    unfolding get_proba_def prod.case l Option.bind.simps
    apply (rule ret_bit[OF assms(1)], rule l, rule l, unfold prod.case)
    apply (rule returns_bind[where Q = "\<lambda>(v, br'). reader_ok mem br'"])
     apply (rule returns_if, rule ret_value, assumption, simp, simp)
    apply clarsimp
    apply (rule returns_bind[OF store])
    apply auto
    done
qed

lemma returns_VP8ParseProba:
  assumes "reader_ok mem br" "proba_shape proba" "0 \<le> skip_p" "skip_p < 256"
  shows "returns (VP8ParseProba mem proba skip_p br) (\<lambda>(proba', use_skip, skip_p', br'). shape4 4 8 3 11 (bands proba') \<and>
    bands_ptr proba' = replicate 4 kBands \<and> segments proba' = segments proba \<and> 0 \<le> skip_p' \<and> skip_p' < 256 \<and> reader_ok mem br')"
proof -
  let ?P = "\<lambda>ptr (proba', br'). \<exists>bs. proba' = proba\<lparr>bands_ptr := ptr, bands := bs\<rparr> \<and> shape4 4 8 3 11 bs \<and> reader_ok mem br'"
  have upd: "p\<lparr>bands_ptr := x, bands := b, bands_ptr := y\<rparr> = p\<lparr>bands_ptr := y, bands := b\<rparr>" for p :: VP8Proba and x y b by simp
  let ?ptr = "\<lambda>t. replicate t kBands @ drop t (bands_ptr proba)"
  have inner: "returns (for_range 0 8 (\<lambda>b. for_range 0 3 (\<lambda>c. for_range 0 11 (\<lambda>p. get_proba mem t b c p))) s) (?P ptr)"
    if "t < 4" "?P ptr s" for t s ptr
  proof -
    have p: "returns (get_proba mem t b c p s) (?P ptr)" if "b < 8" "c < 3" "p < 11" "?P ptr s" for b c p s
    proof -
      obtain br bs where s: "s = (proba\<lparr>bands_ptr := ptr, bands := bs\<rparr>, br)" "shape4 4 8 3 11 bs" "reader_ok mem br"
        using \<open>?P ptr s\<close> by (cases s) auto
      show ?thesis unfolding s(1)
        by (rule returns_mono[OF returns_get_proba[OF s(3)]]) (use s that \<open>t < 4\<close> in auto)
    qed
    show ?thesis
      by (rule returns_for[where I = "\<lambda>_. ?P ptr"], rule that(2), simp, rule returns_for[where I = "\<lambda>_. ?P ptr"], assumption, simp,
          rule returns_for[where I = "\<lambda>_. ?P ptr"], assumption, simp, rule p, simp_all)
  qed
  have ptr: "(?ptr t)[t := kBands] = ?ptr (Suc t)" "length (?ptr t ! t) = 17" "length (?ptr t) = 4" if "t < 4" for t
    using assms(2) that by (auto simp: proba_shape_def list_update_append nth_append replicate_append_same[symmetric] simp flip: Cons_nth_drop_Suc)
  have outer: "returns (for_range 0 4
         (\<lambda>t s. do {
            s \<leftarrow> for_range 0 8 (\<lambda>b. for_range 0 3 (\<lambda>c. for_range 0 11 (\<lambda>p. get_proba mem t b c p))) s;
            for_range 0 (16 + 1) (\<lambda>b. set_bands_ptr t b) s })
         (proba, br)) (?P (?ptr 4))"
  proof (rule returns_for[where I = "\<lambda>t. ?P (?ptr t)"])
    have "proba = proba\<lparr>bands_ptr := bands_ptr proba, bands := bands proba\<rparr>" by simp
    then show "?P (?ptr 0) (proba, br)" using assms by (auto simp: proba_shape_def intro!: exI[of _ "bands proba"])
    fix t s assume t: "0 \<le> t" "t < (4 :: nat)" and s: "?P (?ptr t) s"
    show "returns (do { s \<leftarrow> for_range 0 8 (\<lambda>b. for_range 0 3 (\<lambda>c. for_range 0 11 (\<lambda>p. get_proba mem t b c p))) s;
            for_range 0 (16 + 1) (\<lambda>b. set_bands_ptr t b) s }) (?P (?ptr (Suc t)))"
    proof (rule returns_bind[OF inner[OF t(2) s]])
      fix r assume "?P (?ptr t) r"
      then obtain bs br where r: "r = (proba\<lparr>bands_ptr := ?ptr t, bands := bs\<rparr>, br)" "shape4 4 8 3 11 bs" "reader_ok mem br"
        by (cases r) auto
      show "returns (for_range 0 (16 + 1) (\<lambda>b. set_bands_ptr t b) r) (?P (?ptr (Suc t)))"
        unfolding r(1) by (subst set_bands_ptr_loop) (use t(2) ptr[OF t(2)] r in \<open>auto simp: upd\<close>)
    qed
  qed simp
  have p4: "?ptr 4 = replicate 4 kBands" using assms(2) by (simp add: proba_shape_def)
  show ?thesis
    unfolding VP8ParseProba_def
    apply (rule returns_bind[OF outer])
    apply (unfold p4)
    apply (clarsimp split del: if_split)
    apply (rule ret_get, assumption, unfold prod.case)
    apply (rule returns_if)
     apply (rule ret_value, assumption, simp add: take_bit_byte)
    apply (use assms in simp)
    done
qed

subsection \<open>The tokens\<close>

lemma returns_get_extra_bits:
  assumes "reader_ok mem br" "\<forall>q\<in>set tab. 0 < q \<and> q < 256"
  shows "returns (get_extra_bits mem (tab @ [0]) v br) (\<lambda>(w, br'). reader_ok mem br' \<and>
    v * 2 ^ length tab \<le> w \<and> w < (v + 1) * 2 ^ length tab)"
  using assms
proof (induction tab arbitrary: v br)
  case (Cons q tab)
  then have q: "0 \<le> q" "q < 256" "q \<noteq> 0" "\<forall>q\<in>set tab. 0 < q \<and> q < 256" by auto
  have b: "v * 2 ^ length (q # tab) \<le> w \<and> w < (v + 1) * 2 ^ length (q # tab)"
    if "(v + (v + c)) * 2 ^ length tab \<le> w" "w < (v + (v + c) + 1) * 2 ^ length tab" "c = 0 \<or> c = 1" for w c :: int
    using that by (auto simp: algebra_simps)
  show ?case
    unfolding append_Cons get_extra_bits.simps
    apply (simp only: q(3) not_False_eq_True if_True simp_thms)
    apply (rule ret_bit[OF Cons.prems(1) q(1,2)], unfold prod.case)
    apply (rule returns_mono[OF Cons.IH[OF _ q(4)]], assumption)
    apply (elim case_prodE conjE, simp only: prod.case simp_thms)
    apply (rule b; assumption)
    done
qed simp

lemma returns_GetLargeValue:
  assumes "reader_ok mem br" "probas_ok p"
  shows "returns (GetLargeValue mem p br) (\<lambda>(v, br'). reader_ok mem br' \<and> 2 \<le> v \<and> v < 2115)"
proof -
  note l = probas_lds[OF assms(2)]
  have p9: "ld p (9 + b) = Some (p ! nat (9 + b)) \<and> 0 \<le> p ! nat (9 + b) \<and> p ! nat (9 + b) < 256" if "b = 0 \<or> b = 1" for b :: int
    using that l by auto
  have cat: "\<exists>tab. ld kCat3456 (2 * b1 + b0) = Some (tab @ [0]) \<and> (\<forall>q\<in>set tab. 0 < q \<and> q < 256) \<and>
      (2 :: int) ^ length tab + (3 + push_bit (nat (2 * b1 + b0)) 8) \<le> 2115" if "b1 = 0 \<or> b1 = 1" "b0 = 0 \<or> b0 = 1" for b1 b0 :: int
    using that by (elim disjE; simp add: token_tables ld_def category_tables)
  show ?thesis
    unfolding GetLargeValue_def l Option.bind.simps Let_def
    apply (rule ret_bit[OF assms(1) l(11,12)], unfold prod.case)
    apply (rule returns_if)
     apply (rule ret_bit, assumption, rule l, rule l, unfold prod.case)
     apply (rule returns_if, simp, rule ret_bit, assumption, rule l, rule l, auto)[1]
    apply (rule ret_bit, assumption, rule l, rule l, unfold prod.case)
    apply (rule returns_if)
     apply (rule ret_bit, assumption, rule l, rule l, unfold prod.case)
     apply (rule returns_if)
      apply (rule ret_bit, assumption, simp, simp, auto)[1]
     apply (rule ret_bit, assumption, simp, simp, unfold prod.case)
     apply (rule ret_bit, assumption, simp, simp, auto)[1]
    apply (rule ret_bit, assumption, rule l, rule l, unfold prod.case)
    subgoal for b br1 b' br2 b1 br3
      using p9[of b1]
      apply (simp only: simp_thms Option.bind.simps)
      apply (rule ret_bit, assumption, simp, simp, unfold prod.case)
      subgoal for b0 br4
      proof -
        assume b: "b1 = 0 \<or> b1 = 1" "b0 = 0 \<or> b0 = 1" and br4: "reader_ok mem br4"
        obtain tab where t: "ld kCat3456 (2 * b1 + b0) = Some (tab @ [0])" "\<forall>q\<in>set tab. 0 < q \<and> q < 256"
            "(2 :: int) ^ length tab + (3 + push_bit (nat (2 * b1 + b0)) 8) \<le> 2115"
          using cat[OF b] by blast
        have pos: "0 \<le> push_bit (nat (2 * b1 + b0)) (8 :: int)" by simp
        show ?thesis
          unfolding t(1) Option.bind.simps
          by (rule returns_bind[OF returns_get_extra_bits[OF br4 t(2)]]) (use t(3) pos in auto)
      qed
      done
    done
qed

definition total_get_bit :: "get_bit \<Rightarrow> bool" where
  "total_get_bit gb \<longleftrightarrow> (\<forall>mem br p. reader_ok mem br \<longrightarrow> 0 \<le> p \<longrightarrow> p < 256 \<longrightarrow>
     returns (gb mem br p) (\<lambda>(b, br'). reader_ok mem br' \<and> (b = 0 \<or> b = 1)))"

lemma total_get_bit: "total_get_bit VP8GetBit" "total_get_bit VP8GetBitAlt"
  using returns_GetBit returns_GetBitAlt by (auto simp: total_get_bit_def)

lemma ret_by: "total_get_bit gb \<Longrightarrow> reader_ok mem br \<Longrightarrow> 0 \<le> p \<Longrightarrow> p < 256 \<Longrightarrow>
    (\<And>b br'. reader_ok mem br' \<Longrightarrow> b = 0 \<or> b = 1 \<Longrightarrow> returns (g (b, br')) R) \<Longrightarrow> returns (gb mem br p \<bind> g) R"
  by (rule returns_bind[where Q = "\<lambda>(b, br'). reader_ok mem br' \<and> (b = 0 \<or> b = 1)"]) (auto simp: total_get_bit_def)

lemma returns_get_zeros:
  assumes gb: "total_get_bit gb" and pr: "bands_ok pr"
  shows "reader_ok mem br \<Longrightarrow> probas_ok p \<Longrightarrow> n < 16 \<Longrightarrow>
    returns (get_zeros gb mem pr kBands n p br) (\<lambda>(k, q, br'). reader_ok mem br' \<and> n \<le> k \<and> k \<le> 16 \<and>
      (case q of None \<Rightarrow> k = 16 | Some q \<Rightarrow> k < 16 \<and> probas_ok q))"
proof (induction "16 - n" arbitrary: n p br rule: less_induct)
  case less
  note l = probas_lds[OF less.prems(2)]
  have n: "Suc n \<le> 16" using less.prems(3) by simp
  note b = bands[OF pr n, of 0, simplified]
  have IH: "returns (get_zeros gb mem pr kBands (Suc n) q br) (\<lambda>(k, q, br'). reader_ok mem br' \<and> Suc n \<le> k \<and> k \<le> 16 \<and>
      (case q of None \<Rightarrow> k = 16 | Some q \<Rightarrow> k < 16 \<and> probas_ok q))" if "reader_ok mem br" "probas_ok q" "Suc n < 16" for q br
    using less.hyps[OF _ that] less.prems(3) by simp
  show ?case
    apply (subst get_zeros.simps)
    apply (unfold l Option.bind.simps Let_def)
    apply (rule ret_by[OF gb less.prems(1)], rule l, rule l, unfold prod.case)
    apply (rule returns_if)
     apply (use less.prems in simp)
    apply (unfold b Option.bind.simps)
    apply (rule returns_if)
     apply (use less.prems in simp)
    apply (rule returns_mono[OF IH], assumption, rule b)
     apply (use less.prems in \<open>auto split: option.splits\<close>)
    done
qed

lemma returns_get_coeffs_loop:
  assumes gb: "total_get_bit gb" and pr: "bands_ok pr" and dq: "length dq = 2"
  shows "reader_ok mem br \<Longrightarrow> probas_ok p \<Longrightarrow> length out = 16 \<Longrightarrow> \<forall>v\<in>set out. - (2 ^ 15) \<le> v \<and> v < 2 ^ 15 \<Longrightarrow> n \<le> 16 \<Longrightarrow>
    returns (get_coeffs_loop gb mem pr kBands dq n p out br) (\<lambda>(k, out', br'). reader_ok mem br' \<and> n \<le> k \<and> k \<le> 16 \<and>
      length out' = 16 \<and> (\<forall>v\<in>set out'. - (2 ^ 15) \<le> v \<and> v < 2 ^ 15))"
proof (induction "16 - n" arbitrary: n p out br rule: less_induct)
  case less
  note l = probas_lds[OF less.prems(2)]
  let ?G = "\<lambda>n (k, out', br'). reader_ok mem br' \<and> n \<le> k \<and> k \<le> 16 \<and> length out' = 16 \<and> (\<forall>v\<in>set out'. - (2 ^ 15) \<le> v \<and> v < (2 :: int) ^ 15)"
  have level: "returns (get_level gb mem pr kBands dq out (k, q, br)) (?G n)"
    if q: "reader_ok mem br" "n \<le> k" "k \<le> 16" "case q of None \<Rightarrow> k = 16 | Some q \<Rightarrow> k < 16 \<and> probas_ok q" and n: "n < 16" for k q br
  proof (cases q)
    case None
    then show ?thesis using q n less.prems by (simp add: get_level_def)
  next
    case (Some q')
    then have k: "k < 16" "probas_ok q'" using q(4) by auto
    note lq = probas_lds[OF k(2)]
    have sk: "Suc k \<le> 16" using k by simp
    note b = bands[OF pr sk]
    have b1: "dec_band pr kBands (Suc k) 1 = Some (band_of pr (Suc k) 1)" "probas_ok (band_of pr (Suc k) 1)" by (rule b, simp)+
    have b2: "dec_band pr kBands (Suc k) 2 = Some (band_of pr (Suc k) 2)" "probas_ok (band_of pr (Suc k) 2)" by (rule b, simp)+
    have z: "0 \<le> kZigzag ! k" "kZigzag ! k < 16" using kZigzag_range(2)[OF k(1)] by auto
    have upd: "\<forall>x\<in>set (out[i := signed_take_bit 15 v]). - (2 ^ 15) \<le> x \<and> x < (2 :: int) ^ 15" for i and v :: int
      using less.prems(4) signed_take_bit_int_less_exp[of 15 v] signed_take_bit_int_greater_eq_minus_exp[of 15 v]
      by (intro all_update) auto
    have rest: "returns (do {
          z \<leftarrow> ld kZigzag (int k);
          (s, br) \<leftarrow> VP8GetSigned mem br v;
          q \<leftarrow> ld dq (of_bool (k > 0));
          out \<leftarrow> st out z (signed_take_bit 15 (s * q));
          get_coeffs_loop gb mem pr kBands dq (Suc k) p' out br }) (?G n)" if "reader_ok mem br" "probas_ok p'" for v p' br
      apply (rule bind_ld, simp, use k in \<open>simp add: kZigzag_range\<close>)
      apply (rule ret_signed[OF that(1)], unfold prod.case)
      apply (rule bind_ld, simp, use dq in simp)
      apply (rule bind_st, use z in simp, use z less.prems in simp)
      apply (rule returns_mono[OF less.hyps])
           apply (use n q in simp)
          apply assumption
         apply (rule that)
        apply (use less.prems in simp)
       apply (rule upd)
      apply (use k q in auto)
      done
    show ?thesis
      unfolding get_level_def prod.case Some option.case lq Option.bind.simps
      apply (rule ret_by[OF gb q(1)], rule lq, rule lq, unfold prod.case)
      apply (rule returns_bind[where Q = "\<lambda>(v, p', br'). probas_ok p' \<and> reader_ok mem br'"])
       apply (rule returns_if)
        apply (simp add: b1[simplified])
       apply (rule returns_bind[OF returns_GetLargeValue[OF _ k(2)]], assumption, clarsimp simp: b2)
      apply (elim case_prodE conjE, simp only: prod.case, rule rest; assumption)
      done
  qed
  show ?case
    apply (subst get_coeffs_loop_step)
    apply (rule returns_if)
     apply (unfold l Option.bind.simps)
     apply (rule ret_by[OF gb less.prems(1)], rule l, rule l, unfold prod.case)
     apply (rule returns_if)
      apply (use less.prems in simp)
     apply (rule returns_bind[OF returns_get_zeros[OF gb pr]], assumption, rule less.prems, assumption)
     apply (elim case_prodE conjE, simp only:, rule level; assumption)
    apply (use less.prems in simp)
    done
qed

lemma returns_GetCoeffs:
  assumes gb: "total_get_bit gb" and pr: "bands_ok pr" and dq: "length dq = 2" and ctx: "ctx < 3" and n: "n \<le> 16"
    and br: "reader_ok mem br" and out: "length out = 16" "\<forall>v\<in>set out. - (2 ^ 15) \<le> v \<and> v < 2 ^ 15"
  shows "returns (GetCoeffs_by gb mem pr kBands ctx dq n out br) (\<lambda>(k, out', br'). reader_ok mem br' \<and> n \<le> k \<and> k \<le> 16 \<and>
      length out' = 16 \<and> (\<forall>v\<in>set out'. - (2 ^ 15) \<le> v \<and> v < 2 ^ 15))"
  using returns_get_coeffs_loop[OF gb pr dq br bands(3)[OF pr n ctx] out n] bands(2)[OF pr n ctx] by (simp add: GetCoeffs_by_def)

subsection \<open>Properties\<close>

text \<open>C26. On every content of the data, with every dequantization pair and every probability table, both variants
  of GetCoeffs end after at most 16 coefficients, read only inside the buffer, and leave 16 values that fit into
  \<open>int16_t\<close> and a reader that can be read on.\<close>

theorem GetCoeffs_any_data:
  assumes "reader_ok mem br" "bands_ok pr" "length dq = 2" "ctx < 3" "n \<le> 16" "length out = 16" "\<forall>v\<in>set out. - (2 ^ 15) \<le> v \<and> v < 2 ^ 15"
  shows "(\<exists>k out' br'. GetCoeffsFast mem pr kBands ctx dq n out br = Some (k, out', br') \<and> n \<le> k \<and> k \<le> 16 \<and>
      length out' = 16 \<and> (\<forall>v\<in>set out'. - (2 ^ 15) \<le> v \<and> v < 2 ^ 15) \<and> reader_ok mem br') \<and>
    (\<exists>k out' br'. GetCoeffsAlt mem pr kBands ctx dq n out br = Some (k, out', br') \<and> n \<le> k \<and> k \<le> 16 \<and>
      length out' = 16 \<and> (\<forall>v\<in>set out'. - (2 ^ 15) \<le> v \<and> v < 2 ^ 15) \<and> reader_ok mem br')"
  using returns_GetCoeffs[OF total_get_bit(1) assms(2-5,1,6,7)] returns_GetCoeffs[OF total_get_bit(2) assms(2-5,1,6,7)]
  by (auto simp: returns_def GetCoeffsFast_def GetCoeffsAlt_def)

definition sample_reader :: VP8BitReader where
  "sample_reader = \<lparr>br_value = 0, br_range = 254, br_bits = -8, br_buf = Some 0, br_buf_end = 2, br_buf_max = 0, br_eof = 0\<rparr>"

theorem GetCoeffs_any_data_witness:
  "\<exists>k out' br'. GetCoeffsFast [0xff, 0x13] (CoeffsProba0 ! 0) kBands 1 [10, 12] 1 (replicate 16 0) sample_reader = Some (k, out', br') \<and> 1 \<le> k \<and> k \<le> 16 \<and>
      length out' = 16 \<and> (\<forall>v\<in>set out'. - (2 ^ 15) \<le> v \<and> v < 2 ^ 15) \<and> reader_ok [0xff, 0x13] br'"
proof -
  have r: "reader_ok [0xff, 0x13] sample_reader" by (simp add: reader_ok_def sample_reader_def)
  have a: "(0 :: nat) < 4" "length [10, 12 :: int] = 2" "(1 :: nat) < 3" "(1 :: nat) \<le> 16" "length (replicate 16 (0 :: int)) = 16"
    "\<forall>v\<in>set (replicate 16 (0 :: int)). - (2 ^ 15) \<le> v \<and> v < 2 ^ 15" by simp_all
  from GetCoeffs_any_data[OF r CoeffsProba0_bands[OF a(1)] a(2-6)] show ?thesis by (rule conjunct1)
qed

end
