(* ===== verification/VP8_Frame.thy ===== *)
theory VP8_Frame
  imports Total_Decoder
begin

section \<open>The frame header and the decoder's state\<close>

text \<open>
  The state of the lossy decoder (src/dec/vp8i_dec.h, src/dec/vp8_dec.h) and the parsing of everything that
  precedes the macroblocks: the frame tag, the picture header, the first partition's headers and the table of
  token partitions (src/dec/vp8_dec.c). A pointer into the file is an index into the memory; a pointer argument
  that may be null is an \<open>option\<close>.
\<close>

unbundle bit_operations_syntax

subsection \<open>The state\<close>

datatype VP8StatusCode = VP8_STATUS_OK | VP8_STATUS_OUT_OF_MEMORY | VP8_STATUS_INVALID_PARAM
  | VP8_STATUS_BITSTREAM_ERROR | VP8_STATUS_UNSUPPORTED_FEATURE | VP8_STATUS_SUSPENDED
  | VP8_STATUS_USER_ABORT | VP8_STATUS_NOT_ENOUGH_DATA

record VP8FrameHeader =
  key_frame :: int
  profile :: int
  show_frame :: int
  partition_length :: u32

record VP8PictureHeader =
  pic_width :: int
  pic_height :: int
  xscale :: int
  yscale :: int
  colorspace :: int
  clamp_type :: int

record VP8Io =
  io_width :: int
  io_height :: int
  io_mb_w :: int
  io_mb_h :: int
  io_data :: int
  io_data_size :: u64
  use_cropping :: int
  crop_left :: int
  crop_right :: int
  crop_top :: int
  crop_bottom :: int
  use_scaling :: int
  scaled_width :: int
  scaled_height :: int

text \<open>The contexts and the parsed data of one macroblock.\<close>

record VP8MB =
  nz :: int
  nz_dc :: int

record VP8MBData =
  md_coeffs :: "int list"
  md_is_i4x4 :: int
  md_imodes :: "int list"
  md_uvmode :: int
  non_zero_y :: u32
  non_zero_uv :: u32
  md_dither :: int
  md_skip :: int
  md_segment :: int

text \<open>
  \<open>mb_info\<close> has \<open>mb_w + 1\<close> entries of which the source's pointer \<open>mb_info_\<close> skips the first, so that
  \<open>mb_info_[-1]\<close> is entry 0 here.
\<close>

record VP8FInfo =
  f_limit :: int
  f_ilevel :: int
  f_inner :: int
  hev_thresh :: int

record VP8Decoder =
  status :: VP8StatusCode
  ready :: int
  error_msg :: string
  dec_br :: VP8BitReader
  incremental :: bool
  frm_hdr :: VP8FrameHeader
  pic_hdr :: VP8PictureHeader
  filter_hdr :: VP8FilterHeader
  segment_hdr :: VP8SegmentHeader
  mb_w :: int
  mb_h :: int
  num_parts_minus_one :: u32
  parts :: "VP8BitReader list"
  dqm :: "VP8QuantMatrix list"
  proba :: VP8Proba
  use_skip_proba :: int
  skip_p :: int
  intra_t :: "int list"
  intra_l :: "int list"
  mb_info :: "VP8MB list"
  mb_x :: int
  mb_y :: int
  mb_data :: "VP8MBData list"
  filter_type :: int
  br_mb_y :: int
  fstrengths :: "VP8FInfo list list"
  f_info :: "VP8FInfo list"

definition SetOk :: "VP8Decoder \<Rightarrow> VP8Decoder" where
  "SetOk d = d\<lparr>status := VP8_STATUS_OK, error_msg := ''OK''\<rparr>"

text \<open>The assertion excludes a suspension outside of incremental decoding; the oldest error is kept.\<close>

definition VP8SetError :: "VP8Decoder \<Rightarrow> VP8StatusCode \<Rightarrow> string \<Rightarrow> (int \<times> VP8Decoder) option" where
  "VP8SetError d err msg = do {
     require (incremental d \<or> err \<noteq> VP8_STATUS_SUSPENDED);
     Some (0, if status d = VP8_STATUS_OK then d\<lparr>status := err, error_msg := msg, ready := 0\<rparr> else d) }"

definition VP8Status :: "VP8Decoder option \<Rightarrow> VP8StatusCode" where
  "VP8Status dopt = (case dopt of None \<Rightarrow> VP8_STATUS_INVALID_PARAM | Some d \<Rightarrow> status d)"

subsection \<open>Probing the header\<close>

definition VP8CheckSignature :: "u8 list \<Rightarrow> int \<Rightarrow> u64 \<Rightarrow> int option" where
  "VP8CheckSignature mem data data_size =
     (if data_size < 3 then Some 0
      else do {
        b0 \<leftarrow> ld mem data;
        (if b0 \<noteq> 0x9d then Some 0 else do {
        b1 \<leftarrow> ld mem (data + 1);
        (if b1 \<noteq> 0x01 then Some 0 else do {
        b2 \<leftarrow> ld mem (data + 2);
        Some (of_bool (b2 = 0x2a)) }) }) })"

text \<open>\<open>data[0] | (data[1] << 8) | (data[2] << 16)\<close>, and the two 14-bit dimensions.\<close>

definition frame_tag :: "u8 list \<Rightarrow> int \<Rightarrow> u32 option" where
  "frame_tag mem data = do {
     b0 \<leftarrow> ld mem data;
     b1 \<leftarrow> ld mem (data + 1);
     b2 \<leftarrow> ld mem (data + 2);
     Some (ucast b0 OR push_bit 8 (ucast b1) OR push_bit 16 (ucast b2)) }"

definition dimension :: "u8 list \<Rightarrow> int \<Rightarrow> int option" where
  "dimension mem data = do {
     hi \<leftarrow> ld mem (data + 1);
     lo \<leftarrow> ld mem data;
     Some ((push_bit 8 (uint hi) OR uint lo) AND 0x3fff) }"

text \<open>A null \<open>data\<close> is \<open>None\<close>; the dimensions are returned when the result is 1.\<close>

definition VP8GetInfo :: "u8 list \<Rightarrow> int option \<Rightarrow> u64 \<Rightarrow> u64 \<Rightarrow> (int \<times> int) option option" where
  "VP8GetInfo mem ptr data_size chunk_size =
     (case ptr of
        None \<Rightarrow> Some None
      | Some data \<Rightarrow>
          if data_size < 10 then Some None
          else do {
            sig \<leftarrow> VP8CheckSignature mem (data + 3) (data_size - 3);
            (if sig = 0 then Some None
             else do {
               bits \<leftarrow> frame_tag mem data;
               let key = (bits AND 1 = 0);
               w \<leftarrow> dimension mem (data + 6);
               h \<leftarrow> dimension mem (data + 8);
               Some (if \<not> key then None
                     else if (drop_bit 1 bits AND 7) > 3 then None
                     else if drop_bit 4 bits AND 1 = 0 then None
                     else if (ucast (drop_bit 5 bits) :: u64) \<ge> chunk_size then None
                     else if w = 0 \<or> h = 0 then None
                     else Some (w, h)) }) })"

subsection \<open>The table of token partitions\<close>

definition init_partition :: "u8 list \<Rightarrow> VP8BitReader list \<times> int \<times> u64 \<times> int \<Rightarrow> nat \<Rightarrow> (VP8BitReader list \<times> int \<times> u64 \<times> int) option" where
  "init_partition mem = (\<lambda>(ps, part_start, size_left, sz) p. do {
     psize \<leftarrow> frame_tag mem sz;
     let psize = (ucast psize :: u64);
     let psize = (if psize > size_left then size_left else psize);
     br \<leftarrow> VP8InitBitReader mem part_start psize;
     ps \<leftarrow> st ps (int p) br;
     Some (ps, part_start + uint psize, size_left - psize, sz + 3) })"

definition ParsePartitions :: "u8 list \<Rightarrow> VP8Decoder \<Rightarrow> int \<Rightarrow> u64 \<Rightarrow> (VP8StatusCode \<times> VP8Decoder) option" where
  "ParsePartitions mem d buf sz = do {
     let buf_end = buf + uint sz;
     (n, br) \<leftarrow> VP8GetValue mem (dec_br d) 2;
     let d = d\<lparr>dec_br := br, num_parts_minus_one := push_bit (unat n) 1 - 1\<rparr>;
     let last_part = (ucast (num_parts_minus_one d) :: u64);
     (if sz < 3 * last_part then Some (VP8_STATUS_NOT_ENOUGH_DATA, d)
      else do {
        (ps, part_start, size_left, _) \<leftarrow>
          for_range 0 (unat last_part) (\<lambda>p s. init_partition mem s p)
            (parts d, buf + uint last_part * 3, sz - last_part * 3, buf);
        br \<leftarrow> VP8InitBitReader mem part_start size_left;
        ps \<leftarrow> st ps (uint last_part) br;
        let d = d\<lparr>parts := ps\<rparr>;
        Some (if part_start < buf_end then VP8_STATUS_OK
              else if incremental d then VP8_STATUS_SUSPENDED
              else VP8_STATUS_NOT_ENOUGH_DATA, d) }) }"

subsection \<open>The headers of a frame\<close>

definition header_error :: "VP8Decoder \<Rightarrow> VP8Io \<Rightarrow> VP8StatusCode \<Rightarrow> string \<Rightarrow> (int \<times> VP8Decoder \<times> VP8Io) option" where
  "header_error d io err msg = do {
     (r, d) \<leftarrow> VP8SetError d err msg;
     Some (r, d, io) }"

text \<open>The headers of the first partition, from its bit reader on.\<close>

definition parse_partition0 :: "u8 list \<Rightarrow> VP8Decoder \<Rightarrow> VP8Io \<Rightarrow> int \<Rightarrow> u64 \<Rightarrow> (int \<times> VP8Decoder \<times> VP8Io) option" where
  "parse_partition0 mem d io buf buf_size = do {
     br \<leftarrow> VP8InitBitReader mem buf (ucast (partition_length (frm_hdr d)));
     let buf = buf + uint (partition_length (frm_hdr d));
     let buf_size = buf_size - ucast (partition_length (frm_hdr d));
     (pic, br) \<leftarrow>
       (if key_frame (frm_hdr d) \<noteq> 0 then do {
          (c, br) \<leftarrow> VP8Get mem br;
          (t, br) \<leftarrow> VP8Get mem br;
          Some ((pic_hdr d)\<lparr>colorspace := c, clamp_type := t\<rparr>, br) }
        else Some (pic_hdr d, br));
     (ok, hdr, prob, br) \<leftarrow> ParseSegmentHeader mem (segment_hdr d) (proba d) br;
     let d = d\<lparr>pic_hdr := pic, segment_hdr := hdr, proba := prob, dec_br := br\<rparr>;
     (if ok = 0 then header_error d io VP8_STATUS_BITSTREAM_ERROR ''cannot parse segment header''
      else do {
        (ok, ft, hdr, br) \<leftarrow> ParseFilterHeader mem (filter_hdr d) (dec_br d);
        let d = d\<lparr>filter_hdr := hdr, filter_type := ft, dec_br := br\<rparr>;
        (if ok = 0 then header_error d io VP8_STATUS_BITSTREAM_ERROR ''cannot parse filter header''
         else do {
           (stat, d) \<leftarrow> ParsePartitions mem d buf buf_size;
           (if stat \<noteq> VP8_STATUS_OK then header_error d io stat ''cannot parse partitions''
            else do {
              (ms, br) \<leftarrow> VP8ParseQuant mem (segment_hdr d) (dqm d) (dec_br d);
              let d = d\<lparr>dqm := ms, dec_br := br\<rparr>;
              (if key_frame (frm_hdr d) = 0 then header_error d io VP8_STATUS_UNSUPPORTED_FEATURE ''Not a key frame.''
               else do {
                 (_, br) \<leftarrow> VP8Get mem (dec_br d);
                 (prob, use_skip, skip, br) \<leftarrow> VP8ParseProba mem (proba d) (skip_p d) br;
                 let d = d\<lparr>proba := prob, use_skip_proba := use_skip, skip_p := skip, dec_br := br, ready := 1\<rparr>;
                 Some (1, d, io) }) }) }) }) }"

text \<open>Paragraph 9.2: the picture header of a key frame. The first result is the error, if any.\<close>

definition parse_picture_header :: "u8 list \<Rightarrow> VP8Decoder \<Rightarrow> VP8Io \<Rightarrow> int \<Rightarrow> u64 \<Rightarrow>
    ((VP8StatusCode \<times> string) option \<times> VP8Decoder \<times> VP8Io) option" where
  "parse_picture_header mem d io buf buf_size =
     (if buf_size < 7 then Some (Some (VP8_STATUS_NOT_ENOUGH_DATA, ''cannot parse picture header''), d, io)
      else do {
        sig \<leftarrow> VP8CheckSignature mem buf buf_size;
        (if sig = 0 then Some (Some (VP8_STATUS_BITSTREAM_ERROR, ''Bad code word''), d, io)
         else do {
           w \<leftarrow> dimension mem (buf + 3);
           b4 \<leftarrow> ld mem (buf + 4);
           h \<leftarrow> dimension mem (buf + 5);
           b6 \<leftarrow> ld mem (buf + 6);
           let d = d\<lparr>pic_hdr := (pic_hdr d)\<lparr>pic_width := w, xscale := drop_bit 6 (uint b4),
                 pic_height := h, yscale := drop_bit 6 (uint b6)\<rparr>,
               mb_w := drop_bit 4 (w + 15), mb_h := drop_bit 4 (h + 15)\<rparr>;
           let io = io\<lparr>io_width := w, io_height := h, use_cropping := 0, crop_top := 0, crop_left := 0,
               crop_right := w, crop_bottom := h, use_scaling := 0, scaled_width := w, scaled_height := h,
               io_mb_w := w, io_mb_h := h\<rparr>;
           let d = d\<lparr>proba := VP8ResetProba (proba d), segment_hdr := ResetSegmentHeader (segment_hdr d)\<rparr>;
           Some (None, d, io) }) })"

definition get_headers :: "u8 list \<Rightarrow> VP8Decoder \<Rightarrow> VP8Io \<Rightarrow> (int \<times> VP8Decoder \<times> VP8Io) option" where
  "get_headers mem d io = do {
     let buf = io_data io;
     let buf_size = io_data_size io;
     (if buf_size < 4 then header_error d io VP8_STATUS_NOT_ENOUGH_DATA ''Truncated header.''
      else do {
        bits \<leftarrow> frame_tag mem buf;
        let frm = \<lparr>key_frame = of_bool (bits AND 1 = 0), profile = uint (drop_bit 1 bits AND 7),
          show_frame = uint (drop_bit 4 bits AND 1), partition_length = drop_bit 5 bits\<rparr>;
        let d = d\<lparr>frm_hdr := frm\<rparr>;
        (if profile frm > 3 then header_error d io VP8_STATUS_BITSTREAM_ERROR ''Incorrect keyframe parameters.''
         else if show_frame frm = 0 then header_error d io VP8_STATUS_UNSUPPORTED_FEATURE ''Frame not displayable.''
         else do {
           let buf = buf + 3;
           let buf_size = buf_size - 3;
           (err, d, io) \<leftarrow>
             (if key_frame frm \<noteq> 0 then parse_picture_header mem d io buf buf_size else Some (None, d, io));
           (case err of
              Some (s, msg) \<Rightarrow> header_error d io s msg
            | None \<Rightarrow> do {
                let skip = (if key_frame frm \<noteq> 0 then 7 else 0);
                let buf = buf + skip;
                let buf_size = buf_size - word_of_int skip;
                (if ucast (partition_length frm) > buf_size
                 then header_error d io VP8_STATUS_NOT_ENOUGH_DATA ''bad partition length''
                 else parse_partition0 mem d io buf buf_size) }) }) }) }"

text \<open>A null decoder returns 0 and a null \<open>VP8Io\<close> is an error of the decoder.\<close>

definition VP8GetHeaders :: "u8 list \<Rightarrow> VP8Decoder option \<Rightarrow> VP8Io option \<Rightarrow> (int \<times> VP8Decoder option \<times> VP8Io option) option" where
  "VP8GetHeaders mem dopt iopt =
     (case dopt of
        None \<Rightarrow> Some (0, None, iopt)
      | Some d \<Rightarrow> do {
          let d = SetOk d;
          (case iopt of
             None \<Rightarrow> do {
               (r, d) \<leftarrow> VP8SetError d VP8_STATUS_INVALID_PARAM ''null VP8Io passed to VP8GetHeaders()'';
               Some (r, Some d, None) }
           | Some io \<Rightarrow> do {
               (r, d, io) \<leftarrow> get_headers mem d io;
               Some (r, Some d, Some io) }) })"

subsection \<open>Bytes and bounds\<close>

lemma uint_ucast_push: "uint (push_bit n (ucast b :: u32)) = push_bit n (uint b)" if "n \<le> 24" for b :: u8
proof -
  have "(2 :: int) ^ n \<le> 2 ^ 24" using that by (intro power_increasing) auto
  then have "uint b * 2 ^ n < 2 ^ 8 * 2 ^ 24" using uint_bound(1)[of b] by (intro mult_less_le_imp_less) auto
  then have "take_bit 32 (push_bit n (uint b)) = push_bit n (uint b)" by (simp add: push_bit_eq_mult take_bit_int_eq_self)
  moreover have "uint (push_bit n (ucast b :: u32)) = take_bit 32 (push_bit n (uint b))"
    using unsigned_push_bit_eq[of n "ucast b :: u32"] by (simp add: unsigned_ucast_eq take_bit_push_bit)
  ultimately show ?thesis by simp
qed

lemma uint_ucast_64: "uint (ucast w :: u64) = uint w" for w :: u32
  using uint_bound(3)[of w] by (simp add: unsigned_ucast_eq take_bit_int_eq_self)

lemma and_14: "x AND 0x3fff = x mod 2 ^ 14" for x :: int
proof -
  have "mask 14 = (0x3fff :: int)" by (simp add: mask_eq_exp_minus_1)
  then show ?thesis using take_bit_eq_mask[of 14 x] by (simp add: take_bit_eq_mod)
qed

lemma frame_tag_value:
  assumes "0 \<le> p" "p + 3 \<le> int (length mem)"
  shows "\<exists>t. frame_tag mem p = Some t \<and>
    uint t = uint (mem ! nat p) + uint (mem ! nat (p + 1)) * 2 ^ 8 + uint (mem ! nat (p + 2)) * 2 ^ 16"
proof -
  have "uint (ucast a OR push_bit 8 (ucast b) OR push_bit 16 (ucast c) :: u32) = uint a + uint b * 2 ^ 8 + uint c * 2 ^ 16" for a b c :: u8
  proof -
    have "uint a OR push_bit 8 (uint b) OR push_bit 16 (uint c) = (uint a OR push_bit 8 (uint b)) OR uint c * 2 ^ 16"
      by (simp add: push_bit_eq_mult or.assoc)
    also have "\<dots> = uint a + uint b * 2 ^ 8 + uint c * 2 ^ 16"
      using int_or_shift[of "uint a" 8 "uint b"] int_or_shift[of "uint a + uint b * 2 ^ 8" 16 "uint c"] uint_bound(1)[of a] uint_bound(1)[of b]
      by (simp add: push_bit_eq_mult)
    finally show ?thesis using uint_ucast_push[of 0 a] by (simp add: uint_or uint_ucast_push)
  qed
  then show ?thesis using assms by (simp add: frame_tag_def ld_def)
qed

lemma dimension_value:
  assumes "0 \<le> p" "p + 2 \<le> int (length mem)"
  shows "dimension mem p = Some ((uint (mem ! nat p) + uint (mem ! nat (p + 1)) * 2 ^ 8) mod 2 ^ 14)"
proof -
  have "(push_bit 8 (uint b) OR uint a) AND 0x3fff = (uint a + uint b * 2 ^ 8) mod 2 ^ 14" for a b :: u8
    using int_or_shift[of "uint a" 8 "uint b"] uint_bound(1)[of a] by (simp add: and_14 or.commute)
  then show ?thesis using assms by (simp add: dimension_def ld_def)
qed

lemma CheckSignature_value:
  assumes "0 \<le> p" "p + uint sz \<le> int (length mem)"
  shows "VP8CheckSignature mem p sz =
    Some (of_bool (3 \<le> sz \<and> mem ! nat p = 0x9d \<and> mem ! nat (p + 1) = 1 \<and> mem ! nat (p + 2) = 0x2a))"
proof (cases "sz < 3")
  case False
  then have "3 \<le> uint sz" "3 \<le> sz" by (auto simp: word_less_def word_le_def)
  with assms have "ld mem (p + i) = Some (mem ! nat (p + i))" if "0 \<le> i" "i < 3" for i using that by (simp add: ld_def)
  from this[of 0] this[of 1] this[of 2] \<open>3 \<le> sz\<close> show ?thesis by (simp add: VP8CheckSignature_def)
next
  case True
  then have "\<not> 3 \<le> sz" by (simp add: not_le)
  with True show ?thesis by (simp add: VP8CheckSignature_def)
qed

subsection \<open>The headers of arbitrary data\<close>

text \<open>
  \<open>decoder_ok\<close> is what the decoder's arrays always satisfy, \<open>frame_ok\<close> what the macroblock loop relies on after
  the headers have been parsed.
\<close>

definition decoder_ok :: "VP8Decoder \<Rightarrow> bool" where
  "decoder_ok d \<longleftrightarrow> segment_header_ok (segment_hdr d) \<and> segment_probas_ok (proba d) \<and> proba_shape (proba d) \<and>
     filter_header_ok (filter_hdr d) \<and> length (parts d) = 8 \<and> length (dqm d) = 4 \<and> 0 \<le> skip_p d \<and> skip_p d < 256"

definition picture_ok :: "VP8Decoder \<Rightarrow> VP8Io \<Rightarrow> bool" where
  "picture_ok d io \<longleftrightarrow> profile (frm_hdr d) \<le> 3 \<and> show_frame (frm_hdr d) = 1 \<and>
     0 \<le> pic_width (pic_hdr d) \<and> pic_width (pic_hdr d) < 2 ^ 14 \<and> 0 \<le> pic_height (pic_hdr d) \<and> pic_height (pic_hdr d) < 2 ^ 14 \<and>
     mb_w d = (pic_width (pic_hdr d) + 15) div 16 \<and> mb_h d = (pic_height (pic_hdr d) + 15) div 16 \<and>
     io_width io = pic_width (pic_hdr d) \<and> io_height io = pic_height (pic_hdr d)"

definition frame_ok :: "u8 list \<Rightarrow> VP8Decoder \<Rightarrow> VP8Io \<Rightarrow> bool" where
  "frame_ok mem d io \<longleftrightarrow> status d = VP8_STATUS_OK \<and> ready d = 1 \<and> key_frame (frm_hdr d) \<noteq> 0 \<and> picture_ok d io \<and>
     num_parts_minus_one d \<in> {0, 1, 3, 7} \<and> (\<forall>i \<le> unat (num_parts_minus_one d). reader_ok mem (parts d ! i)) \<and>
     (\<forall>m\<in>set (dqm d). matrix_ok m) \<and> shape4 4 8 3 11 (bands (proba d)) \<and> bands_ptr (proba d) = replicate 4 kBands \<and>
     filter_type d \<in> {0, 1, 2} \<and> reader_ok mem (dec_br d)"

definition headers_result :: "u8 list \<Rightarrow> int \<times> VP8Decoder \<times> VP8Io \<Rightarrow> bool" where
  "headers_result mem = (\<lambda>(r, d, io). decoder_ok d \<and>
     (r = 1 \<and> frame_ok mem d io \<or> r = 0 \<and> status d \<noteq> VP8_STATUS_OK \<and> ready d = 0))"

lemma returns_header_error:
  assumes "status d = VP8_STATUS_OK" "decoder_ok d" "err \<noteq> VP8_STATUS_OK" "err = VP8_STATUS_SUSPENDED \<Longrightarrow> incremental d"
  shows "returns (header_error d io err msg) (headers_result mem)"
  using assms by (auto simp: header_error_def VP8SetError_def require_def headers_result_def decoder_ok_def)

lemma partition_count:
  assumes "uint v < 4"
  shows "push_bit (unat v) 1 - 1 \<in> {0, 1, 3, 7 :: u32}"
proof -
  have "k = 0 \<or> k = 1 \<or> k = 2 \<or> k = 3" if "int k < 4" for k :: nat using that by linarith
  from this[of "unat v"] have "unat v \<in> {0, 1, 2, 3}" using assms by (simp only: uint_nat [symmetric] insert_iff empty_iff) simp
  moreover have "push_bit k 1 - 1 \<in> {0, 1, 3, 7 :: u32}" if "k \<in> {0, 1, 2, 3}" for k :: nat using that by auto
  ultimately show ?thesis by blast
qed

lemma returns_init_partition:
  assumes "0 \<le> sz" "sz + 3 \<le> int (length mem)" "0 \<le> ptr" "ptr + uint left \<le> int (length mem)" "uint left < 2 ^ 31" "p < length ps"
  shows "returns (init_partition mem (ps, ptr, left, sz) p) (\<lambda>(ps', ptr', left', sz'). \<exists>br. ps' = ps[p := br] \<and> reader_ok mem br \<and>
    ptr \<le> ptr' \<and> ptr' + uint left' = ptr + uint left \<and> sz' = sz + 3)"
proof -
  obtain t where t: "frame_tag mem sz = Some t" using frame_tag_value[OF assms(1,2)] by auto
  define psize where "psize = (if (ucast t :: u64) > left then left else ucast t)"
  have le: "uint psize \<le> uint left" by (auto simp: psize_def word_less_def)
  have sub: "uint (left - psize) = uint left - uint psize" using le by (rule uint_sub_small)
  have "returns (VP8InitBitReader mem ptr psize) (reader_ok mem)" using assms le by (intro InitBitReader_reader) auto
  then show ?thesis
    unfolding init_partition_def prod.case t Option.bind.simps Let_def psize_def[symmetric]
    by (rule returns_bind, intro bind_st) (use assms(6) sub le in auto)
qed

lemma all_prefix_update: "\<forall>i<k. P (xs ! i) \<Longrightarrow> P x \<Longrightarrow> k < length xs \<Longrightarrow> \<forall>i\<le>k. P (xs[k := x] ! i)"
  by (auto simp: nth_list_update le_less)

lemma nat_uint: "nat (uint w) = unat w"
  by simp

lemma returns_ParsePartitions:
  assumes "reader_ok mem (dec_br d)" "length (parts d) = 8" "0 \<le> buf" "buf + uint sz \<le> int (length mem)" "uint sz < 2 ^ 31"
  shows "returns (ParsePartitions mem d buf sz) (\<lambda>(st, d'). \<exists>br n ps. d' = d\<lparr>dec_br := br, num_parts_minus_one := n, parts := ps\<rparr> \<and>
    reader_ok mem br \<and> length ps = 8 \<and> (st = VP8_STATUS_SUSPENDED \<longrightarrow> incremental d) \<and>
    (st = VP8_STATUS_OK \<longrightarrow> n \<in> {0, 1, 3, 7} \<and> (\<forall>i \<le> unat n. reader_ok mem (ps ! i))))"
proof -
  let ?Q = "\<lambda>(st, d'). \<exists>br n ps. d' = d\<lparr>dec_br := br, num_parts_minus_one := n, parts := ps\<rparr> \<and>
    reader_ok mem br \<and> length ps = 8 \<and> (st = VP8_STATUS_SUSPENDED \<longrightarrow> incremental d) \<and>
    (st = VP8_STATUS_OK \<longrightarrow> n \<in> {0, 1, 3, 7} \<and> (\<forall>i \<le> unat n. reader_ok mem (ps ! i)))"
  have table: "returns (do {
        (ps, part_start, size_left, _) \<leftarrow> for_range 0 (unat (ucast n :: u64)) (\<lambda>p s. init_partition mem s p)
            (parts d, buf + uint (ucast n :: u64) * 3, sz - ucast n * 3, buf);
        br' \<leftarrow> VP8InitBitReader mem part_start size_left;
        ps \<leftarrow> st ps (uint (ucast n :: u64)) br';
        Some (if part_start < buf + uint sz then VP8_STATUS_OK
              else if incremental d then VP8_STATUS_SUSPENDED
              else VP8_STATUS_NOT_ENOUGH_DATA, d\<lparr>dec_br := br, num_parts_minus_one := n, parts := ps\<rparr>) }) ?Q"
    if br: "reader_ok mem br" and n: "n \<in> {0, 1, 3, 7}" and enough: "3 * uint n \<le> uint sz" for br and n :: u32
  proof -
    have u: "uint (ucast n :: u64) = uint n" "unat (ucast n :: u64) = unat n" "uint n \<le> 7" "int (unat n) = uint n" using n by auto
    have small: "unat n < 8" using n by auto
    have sub: "uint (sz - ucast n * 3) = uint sz - 3 * uint n"
      using n enough by (auto simp: uint_sub_small)
    let ?I = "\<lambda>p (ps, ptr, left, q). length ps = 8 \<and> (\<forall>i<p. reader_ok mem (ps ! i)) \<and> q = buf + 3 * int p \<and>
      buf \<le> ptr \<and> ptr + uint left = buf + uint sz"
    have loop: "returns (for_range 0 (unat n) (\<lambda>p s. init_partition mem s p) (parts d, buf + uint n * 3, sz - ucast n * 3, buf)) (?I (unat n))"
    proof (rule returns_for[where I = ?I])
      fix j and t :: "VP8BitReader list \<times> int \<times> u64 \<times> int"
      assume j: "0 \<le> j" "j < unat n" and I: "?I j t"
      obtain ps ptr left q where t: "t = (ps, ptr, left, q)" by (cases t)
      have "int j < uint n" using j u by linarith
      then show "returns (init_partition mem t j) (?I (Suc j))"
        unfolding t using I[unfolded t] assms u(3) enough uint_ge_0[of left]
        by (intro returns_mono[OF returns_init_partition]) (auto simp: less_Suc_eq nth_list_update)
    qed (use assms sub u in auto)
    show ?thesis
      unfolding u(1,2)
      apply (rule returns_bind[OF loop])
      apply (clarify, rule returns_bind[OF InitBitReader_reader])
         apply (use assms in simp)
        apply (use assms in simp)
       apply (use assms uint_ge_0[of sz] in linarith)
      apply (rule bind_st)
        apply simp
       apply (use u in simp)
      subgoal for ps ptr left q br'
        unfolding returns_Some prod.case
        apply (rule exI[of _ br], rule exI[of _ n], rule exI[of _ "ps[nat (uint n) := br']"])
        using all_prefix_update[of "unat n" "reader_ok mem" ps br'] br n small by (simp add: nat_uint)
      done
  qed
  have upd: "num_parts_minus_one (d\<lparr>dec_br := br, num_parts_minus_one := n\<rparr>) = n" "parts (d\<lparr>dec_br := br, num_parts_minus_one := n\<rparr>) = parts d"
    "incremental (d\<lparr>dec_br := br, num_parts_minus_one := n, parts := ps\<rparr>) = incremental d" for br n ps by simp_all
  show ?thesis
    unfolding ParsePartitions_def Let_def
    apply (rule ret_value[OF assms(1)])
    apply (unfold prod.case upd)
    subgoal for v br
      apply (rule returns_if)
       apply (unfold returns_Some prod.case, rule exI[of _ br], rule exI[of _ "push_bit (unat v) 1 - 1"], rule exI[of _ "parts d"])
       apply (use assms in simp)
      apply (rule table, assumption, rule partition_count, simp)
      using partition_count[of v] by (auto simp: word_less_def word_le_def)
    done
qed

lemma kBands17: "length kBands = 17"
  by (simp add: kBands_def)

lemma returns_parse_partition0:
  assumes d: "decoder_ok d" "status d = VP8_STATUS_OK" and pic: "key_frame (frm_hdr d) \<noteq> 0 \<Longrightarrow> picture_ok d io"
    and buf: "0 \<le> buf" "buf + uint sz \<le> int (length mem)" "uint sz < 2 ^ 31" and len: "ucast (partition_length (frm_hdr d)) \<le> sz"
  shows "returns (parse_partition0 mem d io buf sz) (headers_result mem)"
proof -
  let ?n = "partition_length (frm_hdr d)"
  have n: "uint (ucast ?n :: u64) = uint ?n" by (rule uint_ucast_64)
  have le: "uint ?n \<le> uint sz" using len by (simp add: word_le_def n)
  have sub: "uint (sz - ucast ?n) = uint sz - uint ?n" using le n by (simp add: uint_sub_small)
  have lt: "uint sz - uint ?n < 2 ^ 31" using buf(3) uint_ge_0[of ?n] by linarith
  have rest: "returns (do {
        (stat, d) \<leftarrow> ParsePartitions mem d' (buf + uint ?n) (sz - ucast ?n);
        (if stat \<noteq> VP8_STATUS_OK then header_error d io stat ''cannot parse partitions''
         else do {
           (ms, br) \<leftarrow> VP8ParseQuant mem (segment_hdr d) (dqm d) (dec_br d);
           let d = d\<lparr>dqm := ms, dec_br := br\<rparr>;
           (if key_frame (frm_hdr d) = 0 then header_error d io VP8_STATUS_UNSUPPORTED_FEATURE ''Not a key frame.''
            else do {
              (_, br) \<leftarrow> VP8Get mem (dec_br d);
              (prob, use_skip, skip, br) \<leftarrow> VP8ParseProba mem (proba d) (skip_p d) br;
              let d = d\<lparr>proba := prob, use_skip_proba := use_skip, skip_p := skip, dec_br := br, ready := 1\<rparr>;
              Some (1, d, io) }) }) }) (headers_result mem)"
    if d': "decoder_ok d'" "status d' = VP8_STATUS_OK" "reader_ok mem (dec_br d')" "filter_type d' \<in> {0, 1, 2}"
      "key_frame (frm_hdr d') \<noteq> 0 \<Longrightarrow> picture_ok d' io" for d'
  proof -
    have len8: "length (parts d') = 8" "length (dqm d') = 4" "segment_header_ok (segment_hdr d')" "proba_shape (proba d')"
      "0 \<le> skip_p d'" "skip_p d' < 256" using d'(1) by (auto simp: decoder_ok_def)
    show ?thesis
      apply (rule returns_bind[OF returns_ParsePartitions])
           apply (rule d' len8)+
         apply (use buf uint_ge_0[of ?n] in simp)
        apply (unfold sub, use buf in simp, rule lt)
      apply (elim case_prodE exE conjE, simp only: prod.case)
      subgoal for pr st d2 br n ps
        apply (rule returns_if)
         apply (rule returns_header_error)
            apply (use d' in \<open>simp_all add: decoder_ok_def\<close>)[4]
        apply (rule returns_bind[OF returns_VP8ParseQuant])
           apply (use len8 in simp_all)[3]
        apply (elim case_prodE exE conjE, simp only: prod.case Let_def)
        apply (rule returns_if)
         apply (rule returns_header_error)
            apply (use d' in \<open>simp_all add: decoder_ok_def\<close>)[4]
        apply (rule ret_get)
         apply simp
        apply (unfold prod.case)
        apply (rule returns_bind[OF returns_VP8ParseProba])
            apply (use len8 in simp_all)[4]
        apply (elim case_prodE exE conjE, simp only: prod.case Let_def returns_Some)
        apply (use d' kBands17 in \<open>simp add: headers_result_def decoder_ok_def frame_ok_def picture_ok_def proba_shape_def segment_probas_ok_def\<close>)
        done
      done
  qed
  note ok = d(1)[unfolded decoder_ok_def]
  show ?thesis
    unfolding parse_partition0_def Let_def
    apply (rule returns_bind[OF InitBitReader_reader])
       apply (use buf n le in simp_all)[3]
    apply (rule returns_bind[where Q = "\<lambda>(p, br). pic_width p = pic_width (pic_hdr d) \<and> pic_height p = pic_height (pic_hdr d) \<and> reader_ok mem br"])
     apply (rule returns_if)
      apply (rule ret_get, assumption, unfold prod.case, rule ret_get, assumption, unfold prod.case)
      apply simp_all[2]
    apply (elim case_prodE exE conjE, simp only: prod.case)
    apply (rule returns_bind[OF returns_ParseSegmentHeader])
       apply assumption
      apply (use ok in simp_all)[2]
    apply (elim case_prodE exE conjE, simp only: prod.case)
    apply (rule returns_if)
     apply (rule returns_header_error)
        apply (use d ok in \<open>simp_all add: decoder_ok_def proba_shape_def\<close>)[4]
    apply (rule returns_bind[OF returns_ParseFilterHeader])
      apply (use ok in simp_all)[2]
    apply (elim case_prodE exE conjE, simp only: prod.case)
    apply (rule returns_if)
     apply (rule returns_header_error)
        apply (use d ok in \<open>simp_all add: decoder_ok_def proba_shape_def\<close>)[4]
    apply (rule rest[unfolded Let_def])
        apply (use d ok in \<open>simp_all add: decoder_ok_def proba_shape_def\<close>)[4]
    apply (use pic in \<open>simp add: picture_ok_def\<close>)
    done
qed

lemma returns_get_headers:
  assumes d: "decoder_ok d" "status d = VP8_STATUS_OK"
    and data: "0 \<le> io_data io" "io_data io + uint (io_data_size io) \<le> int (length mem)" "uint (io_data_size io) < 2 ^ 31"
  shows "returns (get_headers mem d io) (headers_result mem)"
proof -
  let ?sz = "io_data_size io"
  note ok = d(1)[unfolded decoder_ok_def]
  have picture: "returns (parse_picture_header mem d' io buf sz) (\<lambda>(err, d'', io'). decoder_ok d'' \<and> status d'' = VP8_STATUS_OK \<and>
      frm_hdr d'' = frm_hdr d' \<and> (case err of None \<Rightarrow> picture_ok d'' io' \<and> 7 \<le> sz
        | Some (s, msg) \<Rightarrow> s \<in> {VP8_STATUS_NOT_ENOUGH_DATA, VP8_STATUS_BITSTREAM_ERROR}))"
    if d': "decoder_ok d'" "status d' = VP8_STATUS_OK" "profile (frm_hdr d') \<le> 3" "show_frame (frm_hdr d') = 1"
      and buf: "0 \<le> buf" "buf + uint sz \<le> int (length mem)" for d' buf and sz :: u64
  proof (cases "sz < 7")
    case False
    then have sz: "7 \<le> uint sz" "7 \<le> sz" "3 \<le> sz" by (auto simp: word_less_def word_le_def)
    have l: "ld mem (buf + i) = Some (mem ! nat (buf + i))" if "0 \<le> i" "i < 7" for i using buf sz that by (simp add: ld_def)
    have w: "\<exists>w. dimension mem (buf + i) = Some w \<and> 0 \<le> w \<and> w < 2 ^ 14" if "0 \<le> i" "i < 6" for i
      using dimension_value[of "buf + i" mem] buf sz that by simp
    obtain w h where wh: "dimension mem (buf + 3) = Some w" "0 \<le> w" "w < 2 ^ 14" "dimension mem (buf + 5) = Some h" "0 \<le> h" "h < 2 ^ 14"
      using w[of 3] w[of 5] by auto
    show ?thesis
      using False d' sz wh l[of 4] l[of 6]
      by (simp add: parse_picture_header_def CheckSignature_value[OF buf] decoder_ok_def picture_ok_def drop_bit_eq_div
        ResetSegmentHeader_def VP8ResetProba_def segment_header_ok_def segment_probas_ok_def proba_shape_def)
  qed (use d' in \<open>simp add: parse_picture_header_def\<close>)
  show ?thesis
  proof (cases "?sz < 4")
    case True
    then show ?thesis using d by (auto simp: get_headers_def intro!: returns_header_error)
  next
    case False
    then have sz: "4 \<le> uint ?sz" by (simp add: word_less_def)
    have s3: "uint (?sz - 3) = uint ?sz - 3" using sz by (simp add: uint_sub_small)
    obtain t where t: "frame_tag mem (io_data io) = Some t" using frame_tag_value[OF data(1), of mem] sz data(2) by fastforce
    define frm where "frm = \<lparr>key_frame = of_bool (t AND 1 = 0), profile = uint (drop_bit 1 t AND 7),
          show_frame = uint (drop_bit 4 t AND 1), partition_length = drop_bit 5 t\<rparr>"
    have "drop_bit 4 t AND 1 = 0 \<or> drop_bit 4 t AND 1 = 1" by (simp add: and_one_eq mod_2_eq_odd)
    then have show1: "show_frame frm = 0 \<or> show_frame frm = 1" by (auto simp: frm_def)
    have nx: "uint (?sz - 3 - word_of_int (if key_frame frm \<noteq> 0 then 7 else 0)) = uint ?sz - 3 - (if key_frame frm \<noteq> 0 then 7 else 0)"
      if "key_frame frm \<noteq> 0 \<longrightarrow> P \<and> 7 \<le> ?sz - 3" for P
      using that s3 by (auto simp: word_le_def uint_sub_small)
    have nz: "uint ?sz - 3 - (if key_frame frm \<noteq> 0 then 7 else 0) < 2 ^ 31" using data(3) by auto
    show ?thesis
      unfolding get_headers_def Let_def if_not_P[OF False] t Option.bind.simps frm_def[symmetric]
      apply (rule returns_if)
       apply (rule returns_header_error; use d in \<open>simp add: decoder_ok_def\<close>)
      apply (rule returns_if)
       apply (rule returns_header_error; use d in \<open>simp add: decoder_ok_def\<close>)
      apply (rule returns_bind[where Q = "\<lambda>(err, d', io'). decoder_ok d' \<and> status d' = VP8_STATUS_OK \<and> frm_hdr d' = frm \<and>
         (case err of None \<Rightarrow> key_frame frm \<noteq> 0 \<longrightarrow> picture_ok d' io' \<and> 7 \<le> ?sz - 3
           | Some (s, msg) \<Rightarrow> s \<in> {VP8_STATUS_NOT_ENOUGH_DATA, VP8_STATUS_BITSTREAM_ERROR})"])
       apply (rule returns_if)
        apply (rule returns_mono[OF picture])
              apply (use d show1 data sz s3 in \<open>simp_all add: decoder_ok_def\<close>)[6]
        apply (auto split: option.splits)[1]
        apply (use d in \<open>simp add: decoder_ok_def\<close>)
      apply (elim case_prodE conjE, simp only: prod.case)
      subgoal for r err q d' io'
        apply (cases err)
         apply (simp only: option.case)
         apply (rule returns_if)
          apply (rule returns_header_error; simp)
         apply (rule returns_parse_partition0)
               apply simp_all[2]
             apply blast
            apply (use data in simp)
           apply (subst nx, blast, use data in simp)
          apply (subst nx, blast, use data in \<open>simp add: nz\<close>)
         apply (simp add: not_less)
        apply (simp only: option.case, elim case_prodE, simp only: prod.case)
        apply (rule returns_header_error; auto)
        done
      done
  qed
qed

lemma returns_VP8GetHeaders:
  assumes d: "decoder_ok d"
    and data: "0 \<le> io_data io" "io_data io + uint (io_data_size io) \<le> int (length mem)" "uint (io_data_size io) < 2 ^ 31"
  shows "\<exists>r d' io'. VP8GetHeaders mem (Some d) (Some io) = Some (r, Some d', Some io') \<and> headers_result mem (r, d', io')"
proof -
  have "decoder_ok (SetOk d)" "status (SetOk d) = VP8_STATUS_OK" using d by (simp_all add: SetOk_def decoder_ok_def)
  from returns_get_headers[OF this data] show ?thesis by (auto simp: returns_def VP8GetHeaders_def)
qed

subsection \<open>What the headers reject\<close>

text \<open>
  The faults that the first bytes of a chunk of \<open>n\<close> bytes show, in the order in which they are reported; \<open>p\<close> is
  the position of the chunk. The tag holds the frame type (1 bit), the profile (3), the visibility (1) and the
  length of the first partition (19).
\<close>

definition byte_at :: "u8 list \<Rightarrow> int \<Rightarrow> int" where
  "byte_at mem p = uint (mem ! nat p)"

definition tag_at :: "u8 list \<Rightarrow> int \<Rightarrow> int" where
  "tag_at mem p = byte_at mem p + byte_at mem (p + 1) * 2 ^ 8 + byte_at mem (p + 2) * 2 ^ 16"

definition header_fault :: "u8 list \<Rightarrow> int \<Rightarrow> int \<Rightarrow> VP8StatusCode option" where
  "header_fault mem p n =
     (if n < 4 then Some VP8_STATUS_NOT_ENOUGH_DATA
      else if tag_at mem p div 2 mod 8 > 3 then Some VP8_STATUS_BITSTREAM_ERROR
      else if tag_at mem p div 16 mod 2 = 0 then Some VP8_STATUS_UNSUPPORTED_FEATURE
      else if tag_at mem p mod 2 = 0 \<and> n < 10 then Some VP8_STATUS_NOT_ENOUGH_DATA
      else if tag_at mem p mod 2 = 0 \<and> \<not> (byte_at mem (p + 3) = 0x9d \<and> byte_at mem (p + 4) = 0x01 \<and> byte_at mem (p + 5) = 0x2a)
        then Some VP8_STATUS_BITSTREAM_ERROR
      else if tag_at mem p div 32 > n - (if tag_at mem p mod 2 = 0 then 10 else 3) then Some VP8_STATUS_NOT_ENOUGH_DATA
      else None)"

lemma tag_fields:
  assumes "frame_tag mem p = Some t" "0 \<le> p" "p + 3 \<le> int (length mem)"
  shows "t AND 1 = 0 \<longleftrightarrow> tag_at mem p mod 2 = 0" "uint (drop_bit 1 t AND 7) = tag_at mem p div 2 mod 8"
    "drop_bit 4 t AND 1 = 0 \<longleftrightarrow> tag_at mem p div 16 mod 2 = 0" "uint (drop_bit 4 t AND 1) = tag_at mem p div 16 mod 2"
    "uint (drop_bit 5 t) = tag_at mem p div 32"
    "uint (ucast (drop_bit 5 t) :: u64) = tag_at mem p div 32"
proof -
  have t: "uint t = tag_at mem p" using frame_tag_value[OF assms(2,3)] assms(1) by (simp add: tag_at_def byte_at_def)
  have m: "mask 3 = (7 :: u32)" by (simp add: mask_eq_exp_minus_1)
  have d: "uint (drop_bit n t) = tag_at mem p div 2 ^ n" for n using t by (simp only: uint_shiftr)
  have o: "uint (w AND 1) = uint w mod 2" for w :: u32 using uint_and[of w 1] by (simp only: uint_1 and_one_eq)
  have z: "w AND 1 = 0 \<longleftrightarrow> uint w mod 2 = 0" for w :: u32 using o[of w] by (metis unsigned_0 uint_0_iff)
  have seven: "uint (w AND 7) = uint w mod 8" for w :: u32
  proof -
    have "uint (w AND 7) = take_bit 3 (uint w)" by (simp only: m[symmetric] take_bit_eq_mask[symmetric] unsigned_take_bit_eq)
    then show ?thesis by (simp add: take_bit_eq_mod)
  qed
  show "t AND 1 = 0 \<longleftrightarrow> tag_at mem p mod 2 = 0" using z[of t] t by simp
  show "uint (drop_bit 1 t AND 7) = tag_at mem p div 2 mod 8"
    using d[of 1] seven[of "drop_bit 1 t"] by simp
  show "drop_bit 4 t AND 1 = 0 \<longleftrightarrow> tag_at mem p div 16 mod 2 = 0" using z[of "drop_bit 4 t"] d[of 4] by simp
  show "uint (drop_bit 4 t AND 1) = tag_at mem p div 16 mod 2" using o[of "drop_bit 4 t"] d[of 4] by simp
  show "uint (drop_bit 5 t) = tag_at mem p div 32" using d[of 5] by simp
  then show "uint (ucast (drop_bit 5 t) :: u64) = tag_at mem p div 32"
    by (simp only: uint_ucast_64)
qed

lemma byte_at_eq: "mem ! nat q = w \<longleftrightarrow> byte_at mem q = uint w"
  by (simp add: byte_at_def word_uint_eq_iff)

text \<open>\<open>yields x Q\<close>: if the computation returns, its result satisfies \<open>Q\<close>.\<close>

definition yields :: "'a option \<Rightarrow> ('a \<Rightarrow> bool) \<Rightarrow> bool" where
  "yields x Q \<longleftrightarrow> (\<forall>r. x = Some r \<longrightarrow> Q r)"

lemma yields_bind: "yields x P \<Longrightarrow> (\<And>r. P r \<Longrightarrow> yields (f r) Q) \<Longrightarrow> yields (x \<bind> f) Q"
  by (auto simp: yields_def bind_eq_Some_conv)

lemma yields_any: "(\<And>r. yields (f r) Q) \<Longrightarrow> yields (x \<bind> f) Q"
  by (auto simp: yields_def bind_eq_Some_conv)

lemma yields_if: "(c \<Longrightarrow> yields x Q) \<Longrightarrow> (\<not> c \<Longrightarrow> yields y Q) \<Longrightarrow> yields (if c then x else y) Q"
  by simp

lemma yields_case: "(\<And>a b. yields (f a b) Q) \<Longrightarrow> yields (case p of (a, b) \<Rightarrow> f a b) Q"
  by (cases p) simp

lemma yields_mono: "yields x P \<Longrightarrow> (\<And>r. P r \<Longrightarrow> Q r) \<Longrightarrow> yields x Q"
  by (auto simp: yields_def)

lemma yields_Some [simp]: "yields (Some r) Q \<longleftrightarrow> Q r"
  by (simp add: yields_def)

lemmas yields_steps = yields_any yields_case yields_if

lemma yields_header_error: "yields (header_error d io s msg) (\<lambda>(r, d', io'). r = 0 \<and> io' = io)"
  by (auto simp: yields_def header_error_def VP8SetError_def require_def split: if_splits)

lemma yields_ParsePartitions: "yields (ParsePartitions mem d b n) (\<lambda>(st, d'). frm_hdr d' = frm_hdr d)"
  unfolding ParsePartitions_def Let_def
  by (rule yields_any, rule yields_case, rule yields_if, simp, rule yields_any, (rule yields_case)+, rule yields_any, rule yields_any, simp)

lemma yields_parse_partition0:
  "yields (parse_partition0 mem d io buf sz) (\<lambda>(r, d', io'). io' = io \<and> (key_frame (frm_hdr d) = 0 \<longrightarrow> r = 0))"
proof -
  have err: "yields (header_error d' io s msg) (\<lambda>(r, d', io'). io' = io \<and> (key_frame (frm_hdr d) = 0 \<longrightarrow> r = 0))" for d' s msg
    by (rule yields_mono[OF yields_header_error]) auto
  show ?thesis
    unfolding parse_partition0_def Let_def
    apply (rule yields_any, rule yields_any, rule yields_case, rule yields_any, (rule yields_case)+)
    apply (rule yields_if, rule err, rule yields_any, (rule yields_case)+)
    apply (rule yields_if, rule err, rule yields_bind[OF yields_ParsePartitions], simp only: split_paired_all prod.case)
    apply (rule yields_if, rule err, rule yields_any, rule yields_case)
    apply (rule yields_if, rule err, rule yields_any, rule yields_case, rule yields_any, (rule yields_case)+)
    apply simp
    done
qed

lemma get_headers_cases:
  fixes io :: VP8Io
  defines "p \<equiv> io_data io" and "n \<equiv> uint (io_data_size io)"
  assumes data: "0 \<le> p" "p + n \<le> int (length mem)" and d: "status d = VP8_STATUS_OK"
  shows "case header_fault mem p n of
      Some s \<Rightarrow> \<exists>d' io'. get_headers mem d io = Some (0, d', io') \<and> status d' = s \<and> ready d' = 0 \<and> dec_br d' = dec_br d \<and> parts d' = parts d
    | None \<Rightarrow> (tag_at mem p mod 2 = 0 \<longrightarrow> (\<exists>d' io'. get_headers mem d io = parse_partition0 mem d' io' (p + 10) (io_data_size io - 10) \<and>
        Some (io_width io') = dimension mem (p + 6) \<and> Some (io_height io') = dimension mem (p + 8))) \<and>
      (tag_at mem p mod 2 \<noteq> 0 \<longrightarrow> (\<exists>d'. get_headers mem d io = parse_partition0 mem d' io (p + 3) (io_data_size io - 3) \<and> key_frame (frm_hdr d') = 0))"
proof (cases "n < 4")
  case True
  then have "io_data_size io < 4" by (simp add: n_def word_less_def)
  then show ?thesis using True d
    by (simp add: header_fault_def get_headers_def p_def header_error_def VP8SetError_def require_def)
next
  case False
  then have sz: "\<not> io_data_size io < 4" by (simp add: n_def word_less_def)
  obtain t where t: "frame_tag mem p = Some t" using frame_tag_value[OF data(1), of mem] False data(2) by fastforce
  note f = tag_fields[OF t data(1)]
  have len3: "p + 3 \<le> int (length mem)" using False data(2) by linarith
  note f = tag_fields[OF t data(1) len3]
  have s3: "uint (io_data_size io - 3) = n - 3" using False by (simp add: n_def uint_sub_small)
  have s7: "io_data_size io - 3 < 7 \<longleftrightarrow> n < 10" "7 \<le> io_data_size io - 3 \<longleftrightarrow> 10 \<le> n" "3 \<le> io_data_size io - 3 \<longleftrightarrow> 6 \<le> n"
    using s3 by (auto simp: word_less_def word_le_def)
  have sub3: "x < word_of_int 7" if "x < 7" for x :: u64 using that by simp
  have s10: "uint (io_data_size io - 3 - 7) = n - 10" if "10 \<le> n" using that s3 uint_sub_small[of 7 "io_data_size io - 3"] by simp
  have pl: "ucast (drop_bit 5 t) > w \<longleftrightarrow> tag_at mem p div 32 > uint w" for w :: u64 by (simp add: word_less_def f)
  have l: "ld mem (p + i) = Some (mem ! nat (p + i))" if "0 \<le> i" "i < n" for i using data that by (simp add: ld_def)
  have sig: "VP8CheckSignature mem (p + 3) (io_data_size io - 3) =
      Some (of_bool (6 \<le> n \<and> byte_at mem (p + 3) = 0x9d \<and> byte_at mem (p + 4) = 1 \<and> byte_at mem (p + 5) = 0x2a))"
    using CheckSignature_value[of "p + 3" "io_data_size io - 3" mem] data s3 by (simp add: s7 byte_at_eq add.assoc)
  note w = dimension_value[of "p + 6" mem] dimension_value[of "p + 8" mem]
  define pr sh key len where "pr = tag_at mem p div 2 mod 8" and "sh = tag_at mem p div 16 mod 2" and "key = tag_at mem p mod 2"
    and "len = tag_at mem p div 32"
  note defs = pr_def[symmetric] sh_def[symmetric] key_def[symmetric] len_def[symmetric]
  have fault: "header_fault mem p n =
     (if pr > 3 then Some VP8_STATUS_BITSTREAM_ERROR
      else if sh = 0 then Some VP8_STATUS_UNSUPPORTED_FEATURE
      else if key = 0 \<and> n < 10 then Some VP8_STATUS_NOT_ENOUGH_DATA
      else if key = 0 \<and> \<not> (byte_at mem (p + 3) = 0x9d \<and> byte_at mem (p + 4) = 0x01 \<and> byte_at mem (p + 5) = 0x2a)
        then Some VP8_STATUS_BITSTREAM_ERROR
      else if len > n - (if key = 0 then 10 else 3) then Some VP8_STATUS_NOT_ENOUGH_DATA
      else None)"
    unfolding header_fault_def if_not_P[OF False] defs by (rule refl)
  note f = f[unfolded defs One_nat_def] and pl = pl[unfolded defs]
  consider "pr > 3" | "\<not> pr > 3" "sh = 0" | "\<not> pr > 3" "sh \<noteq> 0" "key = 0" "n < 10"
    | "\<not> pr > 3" "sh \<noteq> 0" "key = 0" "10 \<le> n" | "\<not> pr > 3" "sh \<noteq> 0" "key \<noteq> 0" by linarith
  then show ?thesis
  proof cases
    case 1
    then show ?thesis using d sz by (simp add: fault get_headers_def p_def[symmetric] t Let_def f header_error_def VP8SetError_def require_def)
  next
    case 2
    then show ?thesis using d sz by (simp add: fault get_headers_def p_def[symmetric] t Let_def f header_error_def VP8SetError_def require_def)
  next
    case 3
    then show ?thesis using d sz
      by (simp add: fault get_headers_def p_def[symmetric] t Let_def f header_error_def VP8SetError_def require_def parse_picture_header_def s7)
  next
    case 4
    show ?thesis 
    proof (cases "byte_at mem (p + 3) = 0x9d \<and> byte_at mem (p + 4) = 0x01 \<and> byte_at mem (p + 5) = 0x2a")
      case False
      then have "VP8CheckSignature mem (p + 3) (io_data_size io - 3) = Some 0" using sig by auto
      then show ?thesis using d sz 4 False s7(1)
        by (simp add: fault get_headers_def p_def[symmetric] t Let_def f header_error_def VP8SetError_def require_def parse_picture_header_def s7)
    next
      case True
      then have "VP8CheckSignature mem (p + 3) (io_data_size io - 3) = Some 1" using sig 4 by auto
      moreover obtain w h b7 b9 where "dimension mem (p + 6) = Some w" "dimension mem (p + 8) = Some h" "ld mem (p + 7) = Some b7" "ld mem (p + 9) = Some b9"
        using w l[of 7] l[of 9] 4 data by auto
      ultimately show ?thesis using d sz 4 True s7(1) s10 pl[of "io_data_size io - 3 - 7"]
        apply (simp add: fault key_def[symmetric] get_headers_def p_def[symmetric] t Let_def f parse_picture_header_def s7 add.commute[of _ p]
          header_error_def VP8SetError_def require_def del: split_paired_Ex)
        apply (intro impI exI conjI, rule refl)
         apply simp_all
        done
    qed
  next
    case 5
    then show ?thesis using d sz pl[of "io_data_size io - 3"] s3
      apply (simp add: fault key_def[symmetric] get_headers_def p_def[symmetric] t Let_def f header_error_def VP8SetError_def require_def)
      apply (intro impI exI conjI, rule refl, simp)
      done
  qed
qed

subsection \<open>Properties\<close>

definition sample_decoder :: VP8Decoder where
  "sample_decoder =
     \<lparr>status = VP8_STATUS_OK, ready = 0, error_msg = ''OK'',
      dec_br = \<lparr>br_value = 0, br_range = 254, br_bits = -8, br_buf = None, br_buf_end = 0, br_buf_max = 0, br_eof = 0\<rparr>,
      incremental = False,
      frm_hdr = \<lparr>key_frame = 0, profile = 0, show_frame = 0, partition_length = 0\<rparr>,
      pic_hdr = \<lparr>pic_width = 0, pic_height = 0, xscale = 0, yscale = 0, colorspace = 0, clamp_type = 0\<rparr>,
      filter_hdr = \<lparr>simple = 0, level = 0, sharpness = 0, use_lf_delta = 0, ref_lf_delta = replicate 4 0, mode_lf_delta = replicate 4 0\<rparr>,
      segment_hdr = sample_segment_header, mb_w = 0, mb_h = 0, num_parts_minus_one = 0,
      parts = replicate 8 \<lparr>br_value = 0, br_range = 254, br_bits = -8, br_buf = None, br_buf_end = 0, br_buf_max = 0, br_eof = 0\<rparr>,
      dqm = replicate 4 \<lparr>y1_mat = [0, 0], y2_mat = [0, 0], uv_mat = [0, 0], uv_quant = 0, q_dither = 0\<rparr>,
      proba = sample_proba, use_skip_proba = 0, skip_p = 0, intra_t = [], intra_l = replicate 4 0, mb_info = [],
      mb_x = 0, mb_y = 0, mb_data = [], filter_type = 0, br_mb_y = 0,
      fstrengths = replicate 4 (replicate 2 \<lparr>f_limit = 0, f_ilevel = 0, f_inner = 0, hev_thresh = 0\<rparr>), f_info = []\<rparr>"

definition sample_io :: "int \<Rightarrow> u64 \<Rightarrow> VP8Io" where
  "sample_io p sz =
     \<lparr>io_width = 0, io_height = 0, io_mb_w = 0, io_mb_h = 0, io_data = p, io_data_size = sz, use_cropping = 0,
      crop_left = 0, crop_right = 0, crop_top = 0, crop_bottom = 0, use_scaling = 0, scaled_width = 0, scaled_height = 0\<rparr>"

lemma sample_decoder_ok: "decoder_ok sample_decoder"
  using coefficient_shapes(1)
  by (simp add: decoder_ok_def sample_decoder_def sample_segment_header_def sample_proba_def ResetSegmentHeader_def VP8ResetProba_def
    segment_header_ok_def segment_probas_ok_def proba_shape_def filter_header_ok_def deltas_ok_def)

text \<open>C24. VP8GetHeaders returns for every content of the data, never reads outside of it, and either reports an
  error with the decoder not ready, or leaves a decoder that satisfies everything the macroblock loop relies on:
  dimensions below \<open>2 ^ 14\<close>, one, two, four or eight partition readers inside the data, positive quantizers and
  complete probability tables.\<close>

theorem VP8GetHeaders_any_data:
  assumes "decoder_ok d" "0 \<le> io_data io" "io_data io + uint (io_data_size io) \<le> int (length mem)" "uint (io_data_size io) < 2 ^ 31"
  shows "\<exists>r d' io'. VP8GetHeaders mem (Some d) (Some io) = Some (r, Some d', Some io') \<and> decoder_ok d' \<and>
    (r = 1 \<and> frame_ok mem d' io' \<or> r = 0 \<and> status d' \<noteq> VP8_STATUS_OK \<and> ready d' = 0)"
  using returns_VP8GetHeaders[OF assms] by (simp add: headers_result_def)

theorem VP8GetHeaders_any_data_witness:
  "\<exists>r d' io'. VP8GetHeaders (replicate 12 0x9d) (Some sample_decoder) (Some (sample_io 0 12)) = Some (r, Some d', Some io') \<and> decoder_ok d' \<and>
    (r = 1 \<and> frame_ok (replicate 12 0x9d) d' io' \<or> r = 0 \<and> status d' \<noteq> VP8_STATUS_OK \<and> ready d' = 0)"
  using VP8GetHeaders_any_data[OF sample_decoder_ok, of "sample_io 0 12" "replicate 12 0x9d"] by (simp add: sample_io_def)

text \<open>C30. A chunk that is too short, has an unknown profile, an invisible frame, a wrong start code or a first
  partition longer than the chunk is rejected with the status of the first of these faults, and no bit reader has
  been set up.\<close>

theorem VP8GetHeaders_rejects:
  assumes "header_fault mem (io_data io) (uint (io_data_size io)) = Some s"
    and "0 \<le> io_data io" "io_data io + uint (io_data_size io) \<le> int (length mem)"
  shows "\<exists>d' io'. VP8GetHeaders mem (Some d) (Some io) = Some (0, Some d', Some io') \<and> status d' = s \<and> ready d' = 0 \<and>
    dec_br d' = dec_br d \<and> parts d' = parts d"
proof -
  have "status (SetOk d) = VP8_STATUS_OK" "dec_br (SetOk d) = dec_br d" "parts (SetOk d) = parts d" by (simp_all add: SetOk_def)
  with get_headers_cases[OF assms(2,3) this(1)] assms(1) show ?thesis by (auto simp: VP8GetHeaders_def)
qed

theorem VP8GetHeaders_rejects_witness:
  "\<exists>d' io'. VP8GetHeaders (0x50 # replicate 11 0x9d) (Some sample_decoder) (Some (sample_io 0 12)) = Some (0, Some d', Some io') \<and>
    status d' = VP8_STATUS_BITSTREAM_ERROR \<and> ready d' = 0 \<and> dec_br d' = dec_br sample_decoder \<and> parts d' = parts sample_decoder"
  using VP8GetHeaders_rejects[of "0x50 # replicate 11 0x9d" "sample_io 0 12" VP8_STATUS_BITSTREAM_ERROR sample_decoder]
  by (simp add: sample_io_def header_fault_def tag_at_def byte_at_def)



end
