(* ===== verification/Container.thy ===== *)
theory Container
  imports VP8_Frame LBits
begin

section \<open>The RIFF container\<close>

text \<open>
  The demultiplexer of single images, src/dec/webp_dec.c: the RIFF header, the extended header, the optional
  chunks before the image chunk and the image chunk's header, with the probes of both image formats. The
  parameters of type \<open>const uint8_t** data\<close> and \<open>size_t* data_size\<close>, which the functions advance, are arguments
  and results; an out-parameter that may be null is an \<open>option\<close>, \<open>None\<close> for a null pointer.
\<close>

unbundle bit_operations_syntax

subsection \<open>Tags\<close>

abbreviation "TAG_SIZE \<equiv> 4"
abbreviation "CHUNK_HEADER_SIZE \<equiv> 8"
abbreviation "RIFF_HEADER_SIZE \<equiv> 12"
abbreviation "VP8X_CHUNK_SIZE \<equiv> 10"
abbreviation "MAX_CHUNK_PAYLOAD \<equiv> 0xfffffff6"

text \<open>\<open>memcmp(mem + p, tag, TAG_SIZE) == 0\<close>; all bytes have to be readable.\<close>

definition has_tag :: "u8 list \<Rightarrow> int \<Rightarrow> string \<Rightarrow> bool option" where
  "has_tag mem p tag = do {
     b0 \<leftarrow> ld mem p;
     b1 \<leftarrow> ld mem (p + 1);
     b2 \<leftarrow> ld mem (p + 2);
     b3 \<leftarrow> ld mem (p + 3);
     Some ([b0, b1, b2, b3] = map of_char tag) }"

subsection \<open>The lossless header\<close>

definition VP8LCheckSignature :: "u8 list \<Rightarrow> int \<Rightarrow> u64 \<Rightarrow> int option" where
  "VP8LCheckSignature mem data sz =
     (if sz \<ge> 5 then do {
        b0 \<leftarrow> ld mem data;
        (if b0 = 0x2f then do {
           b4 \<leftarrow> ld mem (data + 4);
           Some (of_bool (drop_bit 5 b4 = 0)) }
         else Some 0) }
      else Some 0)"

text \<open>Width, height and alpha, or \<open>None\<close> where the source returns 0.\<close>

definition ReadImageInfo :: "u8 list \<Rightarrow> VP8LBitReader \<Rightarrow> ((int \<times> int \<times> int) option \<times> VP8LBitReader) option" where
  "ReadImageInfo mem br = do {
     (magic, br) \<leftarrow> VP8LReadBits mem br 8;
     (if magic \<noteq> 0x2f then Some (None, br)
      else do {
        (w, br) \<leftarrow> VP8LReadBits mem br 14;
        (h, br) \<leftarrow> VP8LReadBits mem br 14;
        (a, br) \<leftarrow> VP8LReadBits mem br 1;
        (v, br) \<leftarrow> VP8LReadBits mem br 3;
        Some (if v \<noteq> 0 \<or> lr_eos br \<noteq> 0 then None else Some (sint (w + 1), sint (h + 1), sint a), br) }) }"

definition VP8LGetInfo :: "u8 list \<Rightarrow> int option \<Rightarrow> u64 \<Rightarrow> (int \<times> int \<times> int) option option" where
  "VP8LGetInfo mem ptr data_size =
     (case ptr of
        None \<Rightarrow> Some None
      | Some data \<Rightarrow>
          if data_size < 5 then Some None
          else do {
            sig \<leftarrow> VP8LCheckSignature mem data data_size;
            (if sig = 0 then Some None
             else do {
               br \<leftarrow> VP8LInitBitReader mem data data_size;
               (info, _) \<leftarrow> ReadImageInfo mem br;
               Some info }) })"

subsection \<open>Chunks\<close>

text \<open>The result is the status, the advanced data and size, and \<open>*riff_size\<close>.\<close>

definition ParseRIFF :: "u8 list \<Rightarrow> int \<Rightarrow> u64 \<Rightarrow> bool \<Rightarrow> (VP8StatusCode \<times> int \<times> u64 \<times> u64) option" where
  "ParseRIFF mem data data_size have_all_data = do {
     is_riff \<leftarrow> (if data_size \<ge> RIFF_HEADER_SIZE then has_tag mem data ''RIFF'' else Some False);
     (if is_riff then do {
        is_webp \<leftarrow> has_tag mem (data + 8) ''WEBP'';
        (if \<not> is_webp then Some (VP8_STATUS_BITSTREAM_ERROR, data, data_size, 0)
         else do {
           sz \<leftarrow> GetLE32 mem (data + TAG_SIZE);
           Some (if sz < TAG_SIZE + CHUNK_HEADER_SIZE then (VP8_STATUS_BITSTREAM_ERROR, data, data_size, 0)
                 else if sz > MAX_CHUNK_PAYLOAD then (VP8_STATUS_BITSTREAM_ERROR, data, data_size, 0)
                 else if have_all_data \<and> ucast sz > data_size - CHUNK_HEADER_SIZE
                   then (VP8_STATUS_NOT_ENOUGH_DATA, data, data_size, 0)
                 else (VP8_STATUS_OK, data + RIFF_HEADER_SIZE, data_size - RIFF_HEADER_SIZE, ucast sz)) }) }
      else Some (VP8_STATUS_OK, data, data_size, 0)) }"

text \<open>The last result is the canvas width, height and the flags, if the chunk was found.\<close>

definition ParseVP8X :: "u8 list \<Rightarrow> int \<Rightarrow> u64 \<Rightarrow> (VP8StatusCode \<times> int \<times> u64 \<times> (int \<times> int \<times> u32) option) option" where
  "ParseVP8X mem data data_size =
     (if data_size < CHUNK_HEADER_SIZE then Some (VP8_STATUS_NOT_ENOUGH_DATA, data, data_size, None)
      else do {
        is_vp8x \<leftarrow> has_tag mem data ''VP8X'';
        (if is_vp8x then do {
           chunk_size \<leftarrow> GetLE32 mem (data + TAG_SIZE);
           (if chunk_size \<noteq> VP8X_CHUNK_SIZE then Some (VP8_STATUS_BITSTREAM_ERROR, data, data_size, None)
            else if data_size < CHUNK_HEADER_SIZE + VP8X_CHUNK_SIZE
              then Some (VP8_STATUS_NOT_ENOUGH_DATA, data, data_size, None)
            else do {
              flags \<leftarrow> GetLE32 mem (data + 8);
              w \<leftarrow> GetLE24 mem (data + 12);
              h \<leftarrow> GetLE24 mem (data + 15);
              let width = 1 + w;
              let height = 1 + h;
              Some (if word_of_int width * word_of_int height \<ge> (0x100000000 :: u64)
                    then (VP8_STATUS_BITSTREAM_ERROR, data, data_size, None)
                    else (VP8_STATUS_OK, data + 18, data_size - (CHUNK_HEADER_SIZE + VP8X_CHUNK_SIZE), Some (width, height, flags))) }) }
         else Some (VP8_STATUS_OK, data, data_size, None)) })"

text \<open>
  The loop of \<open>ParseOptionalChunks\<close>; \<open>total_size\<close> is a 32-bit integer that may wrap. The last results are
  \<open>*alpha_data\<close> and \<open>*alpha_size\<close>.
\<close>

definition padded_size :: "u32 \<Rightarrow> u32" where
  "padded_size chunk_size = (CHUNK_HEADER_SIZE + chunk_size + 1) AND NOT 1"

partial_function (option) optional_chunks ::
    "u8 list \<Rightarrow> u64 \<Rightarrow> int \<Rightarrow> u64 \<Rightarrow> u32 \<Rightarrow> int option \<Rightarrow> u64 \<Rightarrow> (VP8StatusCode \<times> int \<times> u64 \<times> int option \<times> u64) option" where
  "optional_chunks mem riff_size buf buf_size total_size alpha_data alpha_size =
     (if buf_size < CHUNK_HEADER_SIZE then Some (VP8_STATUS_NOT_ENOUGH_DATA, buf, buf_size, alpha_data, alpha_size)
      else Option.bind (GetLE32 mem (buf + TAG_SIZE)) (\<lambda>chunk_size.
        if chunk_size > MAX_CHUNK_PAYLOAD then Some (VP8_STATUS_BITSTREAM_ERROR, buf, buf_size, alpha_data, alpha_size)
        else let disk_chunk_size = padded_size chunk_size;
                 total_size = total_size + disk_chunk_size
             in if riff_size > 0 \<and> ucast total_size > riff_size
                then Some (VP8_STATUS_BITSTREAM_ERROR, buf, buf_size, alpha_data, alpha_size)
                else Option.bind (has_tag mem buf ''VP8 '') (\<lambda>is_vp8.
                     Option.bind (if is_vp8 then Some True else has_tag mem buf ''VP8L'') (\<lambda>is_image.
                       if is_image then Some (VP8_STATUS_OK, buf, buf_size, alpha_data, alpha_size)
                       else if buf_size < ucast disk_chunk_size
                         then Some (VP8_STATUS_NOT_ENOUGH_DATA, buf, buf_size, alpha_data, alpha_size)
                       else Option.bind (has_tag mem buf ''ALPH'') (\<lambda>is_alph.
                         optional_chunks mem riff_size (buf + uint disk_chunk_size) (buf_size - ucast disk_chunk_size) total_size
                           (if is_alph then Some (buf + CHUNK_HEADER_SIZE) else alpha_data)
                           (if is_alph then ucast chunk_size else alpha_size))))))"

definition ParseOptionalChunks :: "u8 list \<Rightarrow> int \<Rightarrow> u64 \<Rightarrow> u64 \<Rightarrow> (VP8StatusCode \<times> int \<times> u64 \<times> int option \<times> u64) option" where
  "ParseOptionalChunks mem data data_size riff_size =
     optional_chunks mem riff_size data data_size (TAG_SIZE + CHUNK_HEADER_SIZE + VP8X_CHUNK_SIZE) None 0"

text \<open>The last result is \<open>*chunk_size\<close> and \<open>*is_lossless\<close>, which errors leave as they were.\<close>

definition ParseVP8Header :: "u8 list \<Rightarrow> int \<Rightarrow> u64 \<Rightarrow> bool \<Rightarrow> u64 \<Rightarrow>
    (VP8StatusCode \<times> int \<times> u64 \<times> (u64 \<times> int) option) option" where
  "ParseVP8Header mem data data_size have_all_data riff_size = do {
     is_vp8 \<leftarrow> has_tag mem data ''VP8 '';
     is_vp8l \<leftarrow> has_tag mem data ''VP8L'';
     let minimal_size = TAG_SIZE + CHUNK_HEADER_SIZE;
     (if data_size < CHUNK_HEADER_SIZE then Some (VP8_STATUS_NOT_ENOUGH_DATA, data, data_size, None)
      else if is_vp8 \<or> is_vp8l then do {
        sz \<leftarrow> GetLE32 mem (data + TAG_SIZE);
        Some (if riff_size \<ge> minimal_size \<and> ucast sz > riff_size - minimal_size
                then (VP8_STATUS_BITSTREAM_ERROR, data, data_size, None)
              else if have_all_data \<and> ucast sz > data_size - CHUNK_HEADER_SIZE
                then (VP8_STATUS_NOT_ENOUGH_DATA, data, data_size, None)
              else (VP8_STATUS_OK, data + CHUNK_HEADER_SIZE, data_size - CHUNK_HEADER_SIZE, Some (ucast sz, of_bool is_vp8l))) }
      else do {
        sig \<leftarrow> VP8LCheckSignature mem data data_size;
        Some (VP8_STATUS_OK, data, data_size, Some (data_size, sig)) }) }"

subsection \<open>All headers\<close>

record WebPHeaderStructure =
  hd_data :: "int option"
  hd_data_size :: u64
  have_all_data :: bool
  hd_offset :: u64
  alpha_data :: "int option"
  alpha_data_size :: u64
  compressed_size :: u64
  riff_size :: u64
  is_lossless :: int

text \<open>The five out-parameters \<open>width\<close>, \<open>height\<close>, \<open>has_alpha\<close>, \<open>has_animation\<close> and \<open>format\<close>.\<close>

record features =
  ft_width :: "int option"
  ft_height :: "int option"
  ft_has_alpha :: "int option"
  ft_has_animation :: "int option"
  ft_format :: "int option"

definition put :: "'a option \<Rightarrow> 'a \<Rightarrow> 'a option" where
  "put ptr v = map_option (\<lambda>_. v) ptr"

text \<open>The code at the label \<open>ReturnWidthHeight\<close>.\<close>

definition ReturnWidthHeight :: "VP8StatusCode \<Rightarrow> bool \<Rightarrow> bool \<Rightarrow> int \<Rightarrow> int \<Rightarrow> features \<Rightarrow> WebPHeaderStructure option \<Rightarrow>
    VP8StatusCode \<times> features \<times> WebPHeaderStructure option" where
  "ReturnWidthHeight stat found_vp8x found_alpha w h ft headers =
     (if stat = VP8_STATUS_OK \<or> (stat = VP8_STATUS_NOT_ENOUGH_DATA \<and> found_vp8x \<and> headers = None)
      then (VP8_STATUS_OK, ft\<lparr>ft_has_alpha := map_option (\<lambda>a. a OR of_bool found_alpha) (ft_has_alpha ft),
              ft_width := put (ft_width ft) w, ft_height := put (ft_height ft) h\<rparr>, headers)
      else (stat, ft, headers))"

text \<open>From the image chunk on; \<open>hdrs\<close> is the local structure and \<open>vp8x\<close> the canvas.\<close>

definition parse_image_chunk :: "u8 list \<Rightarrow> int \<Rightarrow> u64 \<Rightarrow> bool \<Rightarrow> (int \<times> int \<times> u32) option \<Rightarrow> bool \<Rightarrow> WebPHeaderStructure \<Rightarrow>
    features \<Rightarrow> WebPHeaderStructure option \<Rightarrow> (VP8StatusCode \<times> features \<times> WebPHeaderStructure option) option" where
  "parse_image_chunk mem data data_size all_data vp8x animation_present hdrs ft headers = do {
     let found_vp8x = (vp8x \<noteq> None);
     let found_alpha = (alpha_data hdrs \<noteq> None);
     let canvas_width = (case vp8x of None \<Rightarrow> 0 | Some (w, h, _) \<Rightarrow> w);
     let canvas_height = (case vp8x of None \<Rightarrow> 0 | Some (w, h, _) \<Rightarrow> h);
     (stat, data, data_size, chunk) \<leftarrow> ParseVP8Header mem data data_size all_data (riff_size hdrs);
     (case chunk of
        None \<Rightarrow> Some (ReturnWidthHeight stat found_vp8x found_alpha canvas_width canvas_height ft headers)
      | Some (csize, lossless) \<Rightarrow> do {
          let hdrs = hdrs\<lparr>compressed_size := csize, is_lossless := lossless\<rparr>;
          (if csize > MAX_CHUNK_PAYLOAD then Some (VP8_STATUS_BITSTREAM_ERROR, ft, headers)
           else do {
             let ft = (if \<not> animation_present then ft\<lparr>ft_format := put (ft_format ft) (if lossless \<noteq> 0 then 2 else 1)\<rparr> else ft);
             (if data_size < (if lossless = 0 then 10 else 5)
              then Some (ReturnWidthHeight VP8_STATUS_NOT_ENOUGH_DATA found_vp8x found_alpha canvas_width canvas_height ft headers)
              else do {
                info \<leftarrow> (if lossless = 0 then do {
                           wh \<leftarrow> VP8GetInfo mem (Some data) data_size (ucast (ucast csize :: u32));
                           Some (map_option (\<lambda>(w, h). (w, h, None)) wh) }
                         else do {
                           wha \<leftarrow> VP8LGetInfo mem (Some data) data_size;
                           Some (map_option (\<lambda>(w, h, a). (w, h, Some a)) wha) });
                (case info of
                   None \<Rightarrow> Some (VP8_STATUS_BITSTREAM_ERROR, ft, headers)
                 | Some (w, h, a) \<Rightarrow> do {
                     let ft = (case a of None \<Rightarrow> ft | Some a \<Rightarrow> ft\<lparr>ft_has_alpha := put (ft_has_alpha ft) a\<rparr>);
                     (if found_vp8x \<and> (canvas_width \<noteq> w \<or> canvas_height \<noteq> h)
                      then Some (VP8_STATUS_BITSTREAM_ERROR, ft, headers)
                      else do {
                        headers \<leftarrow> (case headers of
                            None \<Rightarrow> Some None
                          | Some _ \<Rightarrow> do {
                              start \<leftarrow> hd_data hdrs;
                              let offset = (word_of_int (data - start) :: u64);
                              require (offset < MAX_CHUNK_PAYLOAD);
                              require (offset = hd_data_size hdrs - data_size);
                              Some (Some (hdrs\<lparr>hd_offset := offset\<rparr>)) });
                        Some (ReturnWidthHeight VP8_STATUS_OK found_vp8x found_alpha w h ft headers) }) }) }) }) }) }"

definition ParseHeadersInternal :: "u8 list \<Rightarrow> int option \<Rightarrow> u64 \<Rightarrow> features \<Rightarrow> WebPHeaderStructure option \<Rightarrow>
    (VP8StatusCode \<times> features \<times> WebPHeaderStructure option) option" where
  "ParseHeadersInternal mem ptr data_size ft headers =
     (case ptr of
        None \<Rightarrow> Some (VP8_STATUS_NOT_ENOUGH_DATA, ft, headers)
      | Some data \<Rightarrow>
          if data_size < RIFF_HEADER_SIZE then Some (VP8_STATUS_NOT_ENOUGH_DATA, ft, headers)
          else do {
            let all_data = (case headers of None \<Rightarrow> False | Some h \<Rightarrow> have_all_data h);
            let hdrs = \<lparr>hd_data = Some data, hd_data_size = data_size, have_all_data = False, hd_offset = 0, alpha_data = None,
                  alpha_data_size = 0, compressed_size = 0, riff_size = 0, is_lossless = 0\<rparr>;
            (stat, data, data_size, riff) \<leftarrow> ParseRIFF mem data data_size all_data;
            let hdrs = hdrs\<lparr>riff_size := riff\<rparr>;
            (if stat \<noteq> VP8_STATUS_OK then Some (stat, ft, headers)
             else do {
               let found_riff = (riff > 0);
               (stat, data, data_size, vp8x) \<leftarrow> ParseVP8X mem data data_size;
               (if stat \<noteq> VP8_STATUS_OK then Some (stat, ft, headers)
                else do {
                  let found_vp8x = (vp8x \<noteq> None);
                  let flags = (case vp8x of None \<Rightarrow> 0 | Some (w, h, flags) \<Rightarrow> flags);
                  let canvas_width = (case vp8x of None \<Rightarrow> 0 | Some (w, h, _) \<Rightarrow> w);
                  let canvas_height = (case vp8x of None \<Rightarrow> 0 | Some (w, h, _) \<Rightarrow> h);
                  let animation_present = (flags AND 0x2 \<noteq> 0);
                  (if \<not> found_riff \<and> found_vp8x then Some (VP8_STATUS_BITSTREAM_ERROR, ft, headers)
                   else do {
                     let ft = ft\<lparr>ft_has_alpha := put (ft_has_alpha ft) (of_bool (flags AND 0x10 \<noteq> 0)),
                       ft_has_animation := put (ft_has_animation ft) (of_bool animation_present), ft_format := put (ft_format ft) 0\<rparr>;
                     (if found_vp8x \<and> animation_present \<and> headers = None
                      then Some (ReturnWidthHeight VP8_STATUS_OK found_vp8x False canvas_width canvas_height ft headers)
                      else if data_size < TAG_SIZE
                      then Some (ReturnWidthHeight VP8_STATUS_NOT_ENOUGH_DATA found_vp8x False canvas_width canvas_height ft headers)
                      else do {
                        is_alph \<leftarrow> (if \<not> found_riff \<and> \<not> found_vp8x then has_tag mem data ''ALPH'' else Some False);
                        (stat, data, data_size, adata, asize) \<leftarrow>
                          (if (found_riff \<and> found_vp8x) \<or> is_alph then ParseOptionalChunks mem data data_size riff
                           else Some (VP8_STATUS_OK, data, data_size, None, 0));
                        let hdrs = hdrs\<lparr>alpha_data := adata, alpha_data_size := asize\<rparr>;
                        (if stat \<noteq> VP8_STATUS_OK
                         then Some (ReturnWidthHeight stat found_vp8x (adata \<noteq> None) canvas_width canvas_height ft headers)
                         else parse_image_chunk mem data data_size all_data vp8x animation_present hdrs ft headers) }) }) }) }) })"

definition WebPParseHeaders :: "u8 list \<Rightarrow> WebPHeaderStructure \<Rightarrow> (VP8StatusCode \<times> WebPHeaderStructure) option" where
  "WebPParseHeaders mem headers = do {
     (stat, ft, h) \<leftarrow> ParseHeadersInternal mem (hd_data headers) (hd_data_size headers)
       \<lparr>ft_width = None, ft_height = None, ft_has_alpha = None, ft_has_animation = Some 0, ft_format = None\<rparr> (Some headers);
     headers \<leftarrow> h;
     has_animation \<leftarrow> ft_has_animation ft;
     Some (if (stat = VP8_STATUS_OK \<or> stat = VP8_STATUS_NOT_ENOUGH_DATA) \<and> has_animation \<noteq> 0
           then VP8_STATUS_UNSUPPORTED_FEATURE else stat, headers) }"

text \<open>A null \<open>features\<close> is \<open>False\<close>; otherwise all five fields of the structure are zeroed and passed on.\<close>

definition GetFeatures :: "u8 list \<Rightarrow> int option \<Rightarrow> u64 \<Rightarrow> bool \<Rightarrow> (VP8StatusCode \<times> features) option" where
  "GetFeatures mem data data_size have_features = do {
     let ft = \<lparr>ft_width = Some 0, ft_height = Some 0, ft_has_alpha = Some 0, ft_has_animation = Some 0, ft_format = Some 0\<rparr>;
     (if \<not> have_features \<or> data = None then Some (VP8_STATUS_INVALID_PARAM, ft)
      else do {
        (stat, ft, _) \<leftarrow> ParseHeadersInternal mem data data_size ft None;
        Some (stat, ft) }) }"

definition WebPGetInfo :: "u8 list \<Rightarrow> int option \<Rightarrow> u64 \<Rightarrow> (int \<times> int) option option" where
  "WebPGetInfo mem data data_size = do {
     (stat, ft) \<leftarrow> GetFeatures mem data data_size True;
     (if stat \<noteq> VP8_STATUS_OK then Some None
      else do {
        w \<leftarrow> ft_width ft;
        h \<leftarrow> ft_height ft;
        Some (Some (w, h)) }) }"

subsection \<open>The container on arbitrary data\<close>

lemma returns_has_tag: "0 \<le> p \<Longrightarrow> p + 4 \<le> int (length mem) \<Longrightarrow> returns (has_tag mem p tag) (\<lambda>_. True)"
  unfolding has_tag_def by (intro bind_ld) auto

lemma returns_GetLE16: "0 \<le> p \<Longrightarrow> p + 2 \<le> int (length mem) \<Longrightarrow> returns (GetLE16 mem p) (\<lambda>v. 0 \<le> v \<and> v < 2 ^ 16)"
proof -
  assume p: "0 \<le> p" "p + 2 \<le> int (length mem)"
  have "uint a OR push_bit 8 (uint b) < 2 ^ 16" for a b :: u8
    using int_or_shift[of "uint a" 8 "uint b"] uint_bound(1)[of a] uint_bound(1)[of b] by simp
  then show ?thesis using p unfolding GetLE16_def by (intro bind_ld) auto
qed

lemma returns_GetLE24: "0 \<le> p \<Longrightarrow> p + 3 \<le> int (length mem) \<Longrightarrow> returns (GetLE24 mem p) (\<lambda>v. 0 \<le> v \<and> v < 2 ^ 24)"
proof -
  assume p: "0 \<le> p" "p + 3 \<le> int (length mem)"
  have "v OR push_bit 16 (uint b) < 2 ^ 24" if "0 \<le> v" "v < 2 ^ 16" for v and b :: u8
    using int_or_shift[of v 16 "uint b"] uint_bound(1)[of b] that by simp
  with p show ?thesis
    unfolding GetLE24_def by (intro returns_bind[OF returns_GetLE16] bind_ld) auto
qed

lemma returns_GetLE32: "0 \<le> p \<Longrightarrow> p + 4 \<le> int (length mem) \<Longrightarrow> returns (GetLE32 mem p) (\<lambda>_. True)"
  unfolding GetLE32_def by (intro returns_bind[OF returns_GetLE16]) auto

lemma even_down: "uint (w AND NOT 1) = 2 * (uint w div 2)" for w :: u32
proof -
  have "w AND NOT 1 = push_bit 1 (drop_bit 1 w)"
    by (rule bit_word_eqI) (simp only: bit_and_iff bit_not_iff bit_push_bit_iff bit_drop_bit_eq bit_1_iff o_def, auto)
  then have "uint (w AND NOT 1) = take_bit 32 (push_bit 1 (uint (drop_bit 1 w)))"
    using unsigned_push_bit_eq[of 1 "drop_bit 1 w"] by (simp add: take_bit_push_bit)
  also have "\<dots> = take_bit 32 (2 * (uint w div 2))" using uint_shiftr[of 1 w] by (simp add: push_bit_eq_mult mult.commute)
  also have "\<dots> = 2 * (uint w div 2)" using uint_bound(3)[of w] by (intro take_bit_int_eq_self) auto
  finally show ?thesis .
qed

lemma disk_size:
  assumes "c \<le> (MAX_CHUNK_PAYLOAD :: u32)"
  shows "uint (padded_size c) = 2 * ((uint c + 9) div 2)" "uint c + 8 \<le> uint (padded_size c)" "uint (padded_size c) \<le> uint c + 9"
proof -
  have "uint c \<le> 0xfffffff6" using assms by (simp add: word_le_def)
  then have "uint (CHUNK_HEADER_SIZE + c + 1) = uint c + 9" by (simp add: uint_word_ariths)
  then show "uint (padded_size c) = 2 * ((uint c + 9) div 2)" "uint c + 8 \<le> uint (padded_size c)" "uint (padded_size c) \<le> uint c + 9"
    using div_mult_mod_eq[of "uint c + 9" 2] pos_mod_bound[of 2 "uint c + 9"] pos_mod_sign[of 2 "uint c + 9"]
    unfolding padded_size_def by (simp_all only: even_down)
qed

text \<open>The alpha chunk, if any, lies between \<open>lo\<close> and \<open>hi\<close>.\<close>

definition inside :: "int \<Rightarrow> int \<Rightarrow> int option \<Rightarrow> u64 \<Rightarrow> bool" where
  "inside lo hi a n = (case a of None \<Rightarrow> True | Some q \<Rightarrow> lo \<le> q \<and> q + uint n \<le> hi)"

lemma returns_optional_chunks:
  assumes "0 \<le> lo"
  shows "lo \<le> buf \<Longrightarrow> buf + uint sz = hi \<Longrightarrow> hi \<le> int (length mem) \<Longrightarrow> inside lo hi a asz \<Longrightarrow>
    returns (optional_chunks mem riff buf sz tot a asz) (\<lambda>(stat, b, n, a', asz'). lo \<le> b \<and> b + uint n = hi \<and> inside lo hi a' asz' \<and>
      (stat = VP8_STATUS_OK \<and> 8 \<le> uint n \<or> stat = VP8_STATUS_NOT_ENOUGH_DATA \<or> stat = VP8_STATUS_BITSTREAM_ERROR))"
proof (induction "nat (uint sz)" arbitrary: buf sz tot a asz rule: less_induct)
  case less
  show ?case
  proof (cases "sz < 8")
    case True
    then show ?thesis using less.prems by (subst optional_chunks.simps) simp
  next
    case False
    then have s8: "8 \<le> uint sz" by (simp add: word_less_def)
    show ?thesis
      apply (subst optional_chunks.simps)
      apply (simp only: False if_False)
      apply (rule returns_bind[OF returns_GetLE32])
        apply (use less.prems s8 assms in simp_all)[2]
      apply (rule returns_if)
       apply (use less.prems s8 in simp)
      apply (unfold Let_def)
      apply (rule returns_if)
       apply (use less.prems s8 in simp)
      apply (rule returns_bind[OF returns_has_tag])
        apply (use less.prems s8 assms in simp_all)[2]
      apply (rule returns_bind[where Q = "\<lambda>_. True"])
       apply (rule returns_if, simp, rule returns_has_tag)
        apply (use less.prems s8 assms in simp_all)[2]
      apply (rule returns_if)
       apply (use less.prems s8 in simp)
      apply (rule returns_if)
       apply (use less.prems s8 in simp)
      apply (rule returns_bind[OF returns_has_tag])
        apply (use less.prems s8 assms in simp_all)[2]
      subgoal premises p for c is_vp8 is_image is_alph
      proof -
        let ?d = "padded_size c"
        have "c \<le> MAX_CHUNK_PAYLOAD" using p by (simp add: not_less)
        note d = disk_size[OF this]
        have d64: "uint (ucast ?d :: u64) = uint ?d" by (rule uint_ucast_64)
        have le: "uint ?d \<le> uint sz" using p d64 by (simp add: word_less_def not_less)
        have sub: "uint (sz - ucast ?d) = uint sz - uint ?d" using le d64 by (simp add: uint_sub_small)
        have c64: "uint (ucast c :: u64) = uint c" by (rule uint_ucast_64)
        show ?thesis
        proof (rule less.hyps)
          have "uint (sz - ucast ?d) < uint sz" using sub d(2) uint_ge_0[of c] by linarith
          then show "nat (uint (sz - ucast ?d)) < nat (uint sz)" by (rule iffD2[OF nat_less_eq_zless[OF uint_ge_0]])
          show "lo \<le> buf + uint ?d" "buf + uint ?d + uint (sz - ucast ?d) = hi" "hi \<le> int (length mem)"
            using less.prems(1,2,3) sub uint_ge_0[of ?d] by linarith+
          show "inside lo hi (if is_alph then Some (buf + CHUNK_HEADER_SIZE) else a) (if is_alph then ucast c else asz)"
            using less.prems le d(2) c64 by (simp add: inside_def)
        qed
      qed
      done
  qed
qed

lemma returns_ParseRIFF:
  assumes "0 \<le> p" "p + uint sz = hi" "hi \<le> int (length mem)"
  shows "returns (ParseRIFF mem p sz all) (\<lambda>(stat, b, n, riff). p \<le> b \<and> b + uint n = hi)"
proof (cases "12 \<le> sz")
  case True
  then have s: "12 \<le> uint sz" "uint (sz - 12) = uint sz - 12" by (auto simp: word_le_def uint_sub_small)
  show ?thesis
    unfolding ParseRIFF_def
    apply (simp only: True if_True)
    apply (rule returns_bind[OF returns_has_tag])
      apply (use assms s in simp_all)[2]
    apply (rule returns_if)
     apply (rule returns_bind[OF returns_has_tag])
       apply (use assms s in simp_all)[2]
     apply (rule returns_if)
      apply (use assms s in simp)
     apply (rule returns_bind[OF returns_GetLE32])
       apply (use assms s in simp_all)
    done
qed (use assms in \<open>simp add: ParseRIFF_def\<close>)

text \<open>Dimensions as they are reported: between 1 and \<open>2 ^ 24\<close>.\<close>

definition dims_ok :: "int \<Rightarrow> int \<Rightarrow> bool" where
  "dims_ok w h \<longleftrightarrow> 1 \<le> w \<and> w \<le> 2 ^ 24 \<and> 1 \<le> h \<and> h \<le> 2 ^ 24"

lemma returns_ParseVP8X:
  assumes "0 \<le> p" "p + uint sz = hi" "hi \<le> int (length mem)"
  shows "returns (ParseVP8X mem p sz) (\<lambda>(stat, b, n, vp8x). p \<le> b \<and> b + uint n = hi \<and>
    (case vp8x of None \<Rightarrow> True | Some (w, h, _) \<Rightarrow> dims_ok w h))"
proof (cases "sz < 8")
  case False
  then have s: "8 \<le> uint sz" by (simp add: word_less_def)
  have big: "18 \<le> uint sz" "uint (sz - (8 + 10)) = uint sz - 18" if "\<not> sz < 8 + 10" using that by (auto simp: word_less_def uint_sub_small)
  show ?thesis
    unfolding ParseVP8X_def if_not_P[OF False]
    apply (rule returns_bind[OF returns_has_tag])
      apply (use assms s in simp_all)[2]
    apply (rule returns_if)
     apply (rule returns_bind[OF returns_GetLE32])
       apply (use assms s in simp_all)[2]
     apply (rule returns_if)
      apply (use assms in simp)
     apply (rule returns_if)
      apply (use assms in simp)
     subgoal premises c
       using big[OF c(5)] assms unfolding Let_def
       by (intro returns_bind[OF returns_GetLE32] returns_bind[OF returns_GetLE24]) (auto simp: dims_ok_def)
    apply (use assms in simp)
    done
qed (use assms in \<open>simp add: ParseVP8X_def\<close>)

lemma returns_VP8LCheckSignature:
  assumes "0 \<le> p" "p + uint sz \<le> int (length mem)"
  shows "returns (VP8LCheckSignature mem p sz) (\<lambda>s. s = 0 \<or> s = 1)"
proof (cases "5 \<le> sz")
  case True
  then have s: "5 \<le> uint sz" by (simp add: word_le_def)
  show ?thesis
    unfolding VP8LCheckSignature_def if_P[OF True]
    by (intro bind_ld returns_if) (use assms s in auto)
qed (simp add: VP8LCheckSignature_def)

lemma returns_ParseVP8Header:
  assumes "0 \<le> p" "p + uint sz = hi" "hi \<le> int (length mem)" "4 \<le> uint sz"
  shows "returns (ParseVP8Header mem p sz all riff) (\<lambda>(stat, b, n, chunk). p \<le> b \<and> b + uint n = hi \<and>
    (case chunk of None \<Rightarrow> stat = VP8_STATUS_NOT_ENOUGH_DATA \<or> stat = VP8_STATUS_BITSTREAM_ERROR
      | Some (c, l) \<Rightarrow> stat = VP8_STATUS_OK \<and> (l = 0 \<or> l = 1) \<and> (all \<longrightarrow> uint c \<le> uint n)))"
proof -
  have sub: "8 \<le> uint sz" "uint (sz - 8) = uint sz - 8" if "\<not> sz < 8" using that by (auto simp: word_less_def uint_sub_small)
  show ?thesis
    unfolding ParseVP8Header_def Let_def
    apply (rule returns_bind[OF returns_has_tag])
      apply (use assms in simp_all)[2]
    apply (rule returns_bind[OF returns_has_tag])
      apply (use assms in simp_all)[2]
    apply (rule returns_if)
     apply (use assms in simp)
    subgoal premises c for is_vp8 is_vp8l
      apply (rule returns_if)
       apply (rule returns_bind[OF returns_GetLE32])
         apply (use assms sub[OF c(3)] in \<open>simp_all add: word_less_def not_less\<close>)[3]
      apply (rule returns_bind[OF returns_VP8LCheckSignature])
        apply (use assms sub[OF c(3)] in \<open>simp_all add: word_less_def\<close>)
      done
    done
qed

lemma returns_VP8GetInfo:
  assumes "0 \<le> p" "p + uint sz = hi" "hi \<le> int (length mem)"
  shows "returns (VP8GetInfo mem (Some p) sz chunk) (\<lambda>i. case i of None \<Rightarrow> True | Some (w, h) \<Rightarrow> 0 < w \<and> w < 2 ^ 14 \<and> 0 < h \<and> h < 2 ^ 14)"
proof (cases "sz < 10")
  case False
  then have s: "10 \<le> uint sz" "uint (sz - 3) = uint sz - 3" by (auto simp: word_less_def uint_sub_small)
  have dim: "returns (dimension mem q) (\<lambda>w. 0 \<le> w \<and> w < 2 ^ 14)" if "p \<le> q" "q + 2 \<le> hi" for q
    using dimension_value[of q mem] assms that by (simp add: returns_def)
  have tag: "returns (frame_tag mem p) (\<lambda>_. True)" using frame_tag_value[of p mem] assms s by (auto simp: returns_def)
  have sig: "returns (VP8CheckSignature mem (p + 3) (sz - 3)) (\<lambda>_. True)"
    using CheckSignature_value[of "p + 3" "sz - 3" mem] assms s by (simp add: returns_def)
  show ?thesis
    unfolding VP8GetInfo_def option.case if_not_P[OF False] Let_def
    apply (rule returns_bind[OF sig])
    apply (rule returns_if, simp)
    apply (rule returns_bind[OF tag], rule returns_bind[OF dim])
      apply (use assms s in simp_all)[2]
    apply (rule returns_bind[OF dim])
      apply (use assms s in simp_all)[2]
    apply auto
    done
qed (simp add: VP8GetInfo_def)

text \<open>The bytes of the header as a number, of which the fields are the bits 8 to 39.\<close>

lemma returns_ReadBits:
  assumes "lreads mem bs br c" "lshifted br" "length bs < 2 ^ 63" "n \<le> 24" "c + n \<le> 8 * max 8 (length bs)" "nb = int n"
  shows "returns (VP8LReadBits mem br nb) (\<lambda>(w, br'). uint w < 2 ^ n \<and> lreads mem bs br' (c + n) \<and> lshifted br')"
  using VP8LReadBits_ok[OF assms(1-5)] assms(6) take_bit_int_less_exp[of n] by (auto simp: returns_def)

lemma sint_dim: "uint w < 2 ^ 14 \<Longrightarrow> 0 < sint (w + 1) \<and> sint (w + 1) \<le> 2 ^ 14" for w :: u32
proof -
  assume w: "uint w < 2 ^ 14"
  then have "uint (w + 1) = uint w + 1" by (simp add: uint_word_ariths)
  then have "sint (w + 1) = uint w + 1" using w by (simp add: sint_small)
  then show ?thesis using w by simp
qed

lemma returns_VP8LGetInfo:
  assumes "0 \<le> p" "p + uint sz = hi" "hi \<le> int (length mem)" "uint sz < 2 ^ 31"
  shows "returns (VP8LGetInfo mem (Some p) sz) (\<lambda>i. case i of None \<Rightarrow> True
    | Some (w, h, a) \<Rightarrow> 0 < w \<and> w \<le> 2 ^ 14 \<and> 0 < h \<and> h \<le> 2 ^ 14 \<and> (a = 0 \<or> a = 1))"
proof (cases "sz < 5")
  case False
  define bs where "bs = take (unat sz) (drop (nat p) mem)"
  have n: "int (unat sz) = uint sz" by simp
  have np: "int (nat p) = p" using assms(1) by simp
  have fit: "nat p + unat sz \<le> length mem" using np assms(2,3) n by linarith
  then have len: "length bs = unat sz" by (simp add: bs_def)
  have bytes: "\<forall>i < length bs. ld mem (p + int i) = Some (bs ! i)"
    using assms(1) fit unfolding len by (auto simp: bs_def ld_def nat_add_distrib)
  have "int (length bs) < int (2 ^ 31)" unfolding len n using assms(4) by simp
  then have small: "length bs < 2 ^ 31" by (simp only: of_nat_less_iff)
  then have big: "length bs < 2 ^ 63" by simp
  have "5 \<le> int (length bs)" unfolding len n using False by (simp add: word_less_def)
  then have r5: "5 \<le> length bs" by linarith
  obtain br where br: "VP8LInitBitReader mem p sz = Some br" "lreads mem bs br 0" "lshifted br"
    using VP8LInitBitReader_ok[OF bytes small] len by auto
  have a01: "sint a = 0 \<or> sint a = 1" if "uint a < 2 ^ 1" for a :: u32
  proof -
    have "uint a = 0 \<or> uint a = 1" using that uint_ge_0[of a] unfolding power_one_right by linarith
    then show ?thesis using sint_below[OF that] by simp
  qed
  have info: "returns (ReadImageInfo mem br) (\<lambda>(i, _). case i of None \<Rightarrow> True
    | Some (w, h, a) \<Rightarrow> 0 < w \<and> w \<le> 2 ^ 14 \<and> 0 < h \<and> h \<le> 2 ^ 14 \<and> (a = 0 \<or> a = 1))"
    unfolding ReadImageInfo_def
    apply (rule returns_bind[OF returns_ReadBits[OF br(2,3) big, where n = 8]], simp, simp, simp)
    apply (elim case_prodE conjE, simp only: prod.case)
    apply (rule returns_if, simp)
    apply (rule returns_bind[OF returns_ReadBits[OF _ _ big, where n = 14]], assumption, assumption, simp, simp, simp)
    apply (elim case_prodE conjE, simp only: prod.case)
    apply (rule returns_bind[OF returns_ReadBits[OF _ _ big, where n = 14]], assumption, assumption, simp, simp, simp)
    apply (elim case_prodE conjE, simp only: prod.case)
    apply (rule returns_bind[OF returns_ReadBits[OF _ _ big, where n = 1]], assumption, assumption, simp, simp, simp)
    apply (elim case_prodE conjE, simp only: prod.case)
    apply (rule returns_bind[OF returns_ReadBits[OF _ _ big, where n = 3]], assumption, assumption, simp, simp, simp)
    apply (elim case_prodE conjE, simp only: prod.case)
    apply (simp add: sint_dim[simplified] a01[simplified])
    done
  have sig: "returns (VP8LCheckSignature mem p sz) (\<lambda>s. s = 0 \<or> s = 1)"
    using returns_VP8LCheckSignature[OF assms(1), of sz mem] assms(2,3) by simp
  show ?thesis
    unfolding VP8LGetInfo_def option.case if_not_P[OF False] br(1) Option.bind.simps
    apply (rule returns_bind[OF sig])
    apply (rule returns_if, simp)
    apply (rule returns_bind[OF info])
    apply (simp only: split_paired_all prod.case returns_Some)
    done
qed (simp add: VP8LGetInfo_def)

definition same_pointers :: "features \<Rightarrow> features \<Rightarrow> bool" where
  "same_pointers f g \<longleftrightarrow> (ft_width g = None \<longleftrightarrow> ft_width f = None) \<and> (ft_height g = None \<longleftrightarrow> ft_height f = None) \<and>
     (ft_has_alpha g = None \<longleftrightarrow> ft_has_alpha f = None) \<and> (ft_has_animation g = None \<longleftrightarrow> ft_has_animation f = None) \<and>
     (ft_format g = None \<longleftrightarrow> ft_format f = None)"

definition image_at :: "int \<Rightarrow> u64 \<Rightarrow> bool \<Rightarrow> WebPHeaderStructure \<Rightarrow> bool" where
  "image_at p n all h \<longleftrightarrow> hd_data h = Some p \<and> hd_data_size h = n \<and> uint (hd_offset h) \<le> uint n \<and>
     inside p (p + uint n) (alpha_data h) (alpha_data_size h) \<and>
     (all \<longrightarrow> uint (hd_offset h) + uint (compressed_size h) \<le> uint n) \<and> (is_lossless h = 0 \<or> is_lossless h = 1)"

definition headers_out :: "int \<Rightarrow> u64 \<Rightarrow> bool \<Rightarrow> WebPHeaderStructure option \<Rightarrow> VP8StatusCode \<Rightarrow> WebPHeaderStructure option \<Rightarrow> bool" where
  "headers_out p n all h0 stat h \<longleftrightarrow>
     (case h0 of None \<Rightarrow> h = None | Some x \<Rightarrow> (\<exists>y. h = Some y \<and> (if stat = VP8_STATUS_OK then image_at p n all y else y = x)))"

definition parsed_ok :: "int \<Rightarrow> u64 \<Rightarrow> bool \<Rightarrow> features \<Rightarrow> WebPHeaderStructure option \<Rightarrow> VP8StatusCode \<times> features \<times> WebPHeaderStructure option \<Rightarrow> bool" where
  "parsed_ok p n all ft0 h0 = (\<lambda>(stat, ft, h). same_pointers ft0 ft \<and> headers_out p n all h0 stat h \<and>
     (stat = VP8_STATUS_OK \<longrightarrow> (\<forall>w. ft_width ft = Some w \<longrightarrow> 1 \<le> w \<and> w \<le> 2 ^ 24) \<and> (\<forall>x. ft_height ft = Some x \<longrightarrow> 1 \<le> x \<and> x \<le> 2 ^ 24)))"

lemma put_None [simp]: "put ptr v = None \<longleftrightarrow> ptr = None" "put ptr v = Some w \<longleftrightarrow> ptr \<noteq> None \<and> w = v"
  by (auto simp: put_def)

lemma parsed_error: "same_pointers ft0 ft \<Longrightarrow> stat \<noteq> VP8_STATUS_OK \<Longrightarrow> parsed_ok p n all ft0 h0 (stat, ft, h0)"
  by (auto simp: parsed_ok_def headers_out_def split: option.splits)

lemma parsed_ReturnWidthHeight:
  assumes "same_pointers ft0 ft"
    and "stat = VP8_STATUS_OK \<or> (stat = VP8_STATUS_NOT_ENOUGH_DATA \<and> found \<and> h0 = None) \<Longrightarrow> dims_ok w x"
    and "headers_out p n all h0 stat h" "h0 = None \<longleftrightarrow> h = None"
  shows "parsed_ok p n all ft0 h0 (ReturnWidthHeight stat found alpha w x ft h)"
  using assms by (auto simp: ReturnWidthHeight_def parsed_ok_def same_pointers_def headers_out_def dims_ok_def split: option.splits)

lemma headers_out_same: "stat \<noteq> VP8_STATUS_OK \<Longrightarrow> headers_out p n all h stat h"
  by (auto simp: headers_out_def split: option.splits)

lemma returns_parse_image_chunk:
  assumes data: "0 \<le> p" "p \<le> b" "b + uint m = p + uint n" "p + uint n \<le> int (length mem)" "uint n < 2 ^ 31" "4 \<le> uint m"
    and hdrs: "hd_data hdrs = Some p" "hd_data_size hdrs = n" "inside p (p + uint n) (alpha_data hdrs) (alpha_data_size hdrs)"
    and vp8x: "\<And>w h f. vp8x = Some (w, h, f) \<Longrightarrow> dims_ok w h" and ft: "same_pointers ft0 ft"
  shows "returns (parse_image_chunk mem b m all vp8x anim hdrs ft h0) (parsed_ok p n all ft0 h0)"
proof -
  have b: "0 \<le> b" "b + uint m \<le> int (length mem)" using data by auto
  have info: "returns (if l = 0 then do {
                           wh \<leftarrow> VP8GetInfo mem (Some b') m' c;
                           Some (map_option (\<lambda>(w, h). (w, h, None)) wh) }
                         else do {
                           wha \<leftarrow> VP8LGetInfo mem (Some b') m';
                           Some (map_option (\<lambda>(w, h, a). (w, h, Some a)) wha) })
      (\<lambda>i. case i of None \<Rightarrow> True | Some (w, h, a) \<Rightarrow> dims_ok w h)"
    if "p \<le> b'" "b' + uint m' = p + uint n" for b' m' c l
  proof -
    have b': "0 \<le> b'" "b' + uint m' = p + uint n" "uint m' < 2 ^ 31" using that data by auto
    have small: "x < 2 ^ 14 \<or> x \<le> 2 ^ 14 \<Longrightarrow> x \<le> (2 :: int) ^ 24" for x by auto
    show ?thesis
      apply (rule returns_if)
       apply (rule returns_bind[OF returns_VP8GetInfo[OF b'(1,2) data(4)]])
       apply (use small in \<open>auto simp: dims_ok_def split: option.splits\<close>)[1]
      apply (rule returns_bind[OF returns_VP8LGetInfo[OF b'(1,2) data(4) b'(3)]])
      apply (use small in \<open>auto simp: dims_ok_def split: option.splits\<close>)[1]
      done
  qed
  show ?thesis
    unfolding parse_image_chunk_def Let_def
    apply (rule returns_bind[OF returns_ParseVP8Header[OF b(1) refl b(2) data(6)]])
    apply (elim case_prodE conjE, simp only: prod.case)
    subgoal for r stat q b' q2 m' chunk
      apply (cases chunk)
       apply (simp only: option.case returns_Some)
       apply (rule parsed_ReturnWidthHeight[OF ft])
         apply (use vp8x in \<open>auto split: option.splits\<close>)[1]
        apply (rule headers_out_same, auto)[2]
      apply (simp only: option.case, elim case_prodE, simp only: prod.case)
      apply (rule returns_if)
       apply (simp add: parsed_error[OF ft])
      apply (rule returns_if)
       apply (simp only: returns_Some)
       apply (rule parsed_ReturnWidthHeight)
          apply (use ft in \<open>simp add: same_pointers_def\<close>)
         apply (use vp8x in \<open>auto split: option.splits\<close>)[1]
        apply (rule headers_out_same, simp, simp)
      apply (rule returns_bind[OF info])
        apply (use data in \<open>simp\<close>)
       apply (use data in \<open>simp\<close>)
      subgoal premises c for cl csize lossless i
      proof (cases i)
        case None
        then show ?thesis using ft by (simp add: parsed_error same_pointers_def)
      next
        case (Some wha)
        then obtain w x a where i: "i = Some (w, x, a)" by (cases wha) auto
        show ?thesis
          unfolding i option.case prod.case
          apply (rule returns_if)
           apply (use ft in \<open>simp add: parsed_error same_pointers_def split: option.splits\<close>)
          apply (rule returns_bind[where Q = "\<lambda>h. headers_out p n all h0 VP8_STATUS_OK h \<and> (h0 = None \<longleftrightarrow> h = None)"])
           subgoal
           proof (cases h0)
             case (Some h)
             have bb: "b \<le> b'" "b' + uint m' = p + uint n" "lossless = 0 \<or> lossless = 1" "all \<longrightarrow> uint csize \<le> uint m'" using c data(3) by auto
             define k where "k = b' - p"
             have le: "0 \<le> k" "k \<le> uint n" using bb(1,2) uint_ge_0[of m'] data(2) unfolding k_def by linarith+
             then have off: "uint (word_of_int k :: u64) = k" using data(5) by (simp add: uint_word_of_int)
             have "uint m' \<le> uint n" using bb(2) le(1) unfolding k_def by linarith
             then have "uint (n - m') = k" using bb(2) by (simp add: uint_sub_small k_def)
             then have "n - m' = word_of_int k" using off by (simp add: word_uint_eq_iff)
             moreover have "(word_of_int k :: u64) < MAX_CHUNK_PAYLOAD" using off le data(5) by (simp add: word_less_def)
             moreover have "all \<longrightarrow> k + uint csize \<le> uint n" using bb(2,4) unfolding k_def by linarith
             moreover have "word_of_int b' - word_of_int p = (word_of_int k :: u64)" by (simp add: k_def)
             ultimately show ?thesis
               using bb(3,4) hdrs off le by (simp add: Some require_def headers_out_def image_at_def k_def[symmetric])
           qed (simp add: headers_out_def)
          apply (simp only: returns_Some)
          apply (rule parsed_ReturnWidthHeight)
             apply (use ft in \<open>simp add: same_pointers_def split: option.splits\<close>)
            apply (use c i in simp)
           apply simp_all
          done
      qed
      done
    done
qed

lemma returns_ParseHeadersInternal:
  assumes "0 \<le> p" "p + uint n \<le> int (length mem)" "uint n < 2 ^ 31"
  shows "returns (ParseHeadersInternal mem (Some p) n ft h0)
    (parsed_ok p n (case h0 of None \<Rightarrow> False | Some h \<Rightarrow> have_all_data h) ft h0)"
proof -
  have same: "same_pointers ft ft" by (simp add: same_pointers_def)
  show ?thesis
    unfolding ParseHeadersInternal_def option.case Let_def
    apply (rule returns_if)
     apply (simp add: parsed_error same)
    apply (rule returns_bind[OF returns_ParseRIFF[OF assms(1) refl assms(2)]])
    apply (elim case_prodE conjE, simp only: prod.case)
    apply (rule returns_if)
     apply (simp add: parsed_error same)
    subgoal for r stat q b1 q1 n1 riff
      apply (rule returns_bind[OF returns_ParseVP8X])
         apply (use assms in simp, rule refl, use assms in simp)
      apply (elim case_prodE conjE, simp only: prod.case)
      apply (rule returns_if)
       apply (simp add: parsed_error same)
      apply (rule returns_if)
       apply (simp add: parsed_error same)
      apply (rule returns_if)
       apply (simp only: returns_Some)
       apply (rule parsed_ReturnWidthHeight)
          apply (simp add: same_pointers_def)
         apply (auto split: option.splits)[1]
        apply (simp add: headers_out_def)
       apply simp
      apply (rule returns_if)
       apply (simp only: returns_Some)
       apply (rule parsed_ReturnWidthHeight)
          apply (simp add: same_pointers_def)
         apply (auto split: option.splits)[1]
        apply (simp add: headers_out_same)
       apply simp
      subgoal premises c for r2 stat2 q2 b2 q3 n2 vp8x
      proof -
        have "\<not> n2 < 4" using c by blast
        then have n4: "4 \<le> uint n2" by (simp add: word_less_def)
        have b2: "p \<le> b2" "b2 + uint n2 = p + uint n" using c by auto
        have dims: "\<And>w h f. vp8x = Some (w, h, f) \<Longrightarrow> dims_ok w h" using c by auto
        show ?thesis
          apply (rule returns_bind[where Q = "\<lambda>_. True"])
           apply (rule returns_if, rule returns_has_tag)
             apply (use assms b2 n4 in simp_all)[3]
          apply (rule returns_bind[where Q = "\<lambda>(stat, b, m, a, asz). p \<le> b \<and> b + uint m = p + uint n \<and> inside p (p + uint n) a asz \<and>
              (stat = VP8_STATUS_OK \<longrightarrow> 4 \<le> uint m)"])
           apply (rule returns_if)
            apply (unfold ParseOptionalChunks_def, rule returns_mono[OF returns_optional_chunks[OF assms(1) b2 assms(2)]])
             apply (simp add: inside_def)
            apply auto[1]
           apply (use b2 n4 in \<open>simp add: inside_def\<close>)
          apply (elim case_prodE conjE, simp only: prod.case)
          apply (rule returns_if)
           apply (simp only: returns_Some)
           apply (rule parsed_ReturnWidthHeight)
              apply (simp add: same_pointers_def)
             apply (use dims in \<open>auto split: option.splits\<close>)[1]
            apply (simp add: headers_out_same)
           apply simp
          apply (rule returns_parse_image_chunk)
                    apply (use assms in simp_all)[5]
               apply simp
              apply simp
             apply simp
            apply simp
           apply (rule dims, assumption)
          apply (simp add: same_pointers_def)
          done
      qed
      done
    done
qed

subsection \<open>Walking over chunks\<close>

text \<open>A chunk as a writer lays it out: tag, little-endian size, payload and padding.\<close>

definition le32 :: "u32 \<Rightarrow> u8 list" where
  "le32 c = [ucast c, ucast (drop_bit 8 c), ucast (drop_bit 16 c), ucast (drop_bit 24 c)]"

definition chunk_bytes :: "u8 list \<times> u8 list \<Rightarrow> u8 list" where
  "chunk_bytes c = fst c @ le32 (of_nat (length (snd c))) @ snd c @ (if odd (length (snd c)) then [0] else [])"

definition tag_bytes :: "string \<Rightarrow> u8 list" where
  "tag_bytes tag = map of_char tag"

fun alpha_chunk :: "int \<Rightarrow> (u8 list \<times> u8 list) list \<Rightarrow> (int \<times> int) option \<Rightarrow> (int \<times> int) option" where
  "alpha_chunk p [] acc = acc"
| "alpha_chunk p (c # cs) acc = alpha_chunk (p + int (length (chunk_bytes c))) cs
     (if fst c = tag_bytes ''ALPH'' then Some (p + 8, int (length (snd c))) else acc)"

lemma has_tag_at: "stored mem p bs \<Longrightarrow> length bs = 4 \<Longrightarrow> has_tag mem p tag = Some (bs = tag_bytes tag)"
proof -
  assume b: "stored mem p bs" and l: "length bs = 4"
  have "bs = [bs ! 0, bs ! 1, bs ! 2, bs ! 3]" using l by (auto simp: numeral_eq_Suc length_Suc_conv)
  moreover have "ld mem p = Some (bs ! 0)" "ld mem (p + 1) = Some (bs ! 1)" "ld mem (p + 2) = Some (bs ! 2)" "ld mem (p + 3) = Some (bs ! 3)"
    using b[unfolded stored_def, rule_format, of 0] b[unfolded stored_def, rule_format, of 1]
      b[unfolded stored_def, rule_format, of 2] b[unfolded stored_def, rule_format, of 3] l by simp_all
  ultimately show ?thesis by (simp add: has_tag_def tag_bytes_def)
qed

lemma GetLE32_at: "stored mem p (le32 c) \<Longrightarrow> GetLE32 mem p = Some c"
proof -
  assume b: "stored mem p (le32 c)"
  have l: "ld mem p = Some (ucast c)" "ld mem (p + 1) = Some (ucast (drop_bit 8 c))" "ld mem (p + 2) = Some (ucast (drop_bit 16 c))"
    "ld mem (p + 3) = Some (ucast (drop_bit 24 c))"
    using b[unfolded stored_def, rule_format, of 0] b[unfolded stored_def, rule_format, of 1]
      b[unfolded stored_def, rule_format, of 2] b[unfolded stored_def, rule_format, of 3] by (simp_all add: le32_def)
  have "word_of_int (uint (ucast c :: u8) OR push_bit 8 (uint (ucast (drop_bit 8 c) :: u8))) OR
      push_bit 16 (word_of_int (uint (ucast (drop_bit 16 c) :: u8) OR push_bit 8 (uint (ucast (drop_bit 24 c) :: u8)))) = c"
  proof (rule bit_word_eqI)
    fix n assume n: "n < LENGTH(32)"
    have idx: "8 \<le> n \<Longrightarrow> 8 + (n - 8) = n" "16 \<le> n \<Longrightarrow> 16 + (n - 16) = n" "24 \<le> n \<Longrightarrow> 24 + (n - 24) = n" "24 \<le> n \<Longrightarrow> 24 + (n - 16 - 8) = n" by simp_all
    consider "n < 8" | "8 \<le> n" "n < 16" | "16 \<le> n" "n < 24" | "24 \<le> n" by linarith
    then show "bit (word_of_int (uint (ucast c :: u8) OR push_bit 8 (uint (ucast (drop_bit 8 c) :: u8))) OR
      push_bit 16 (word_of_int (uint (ucast (drop_bit 16 c) :: u8) OR push_bit 8 (uint (ucast (drop_bit 24 c) :: u8)))) :: u32) n = bit c n"
      using n by cases (simp_all add: bit_or_iff bit_push_bit_iff bit_word_of_int_iff bit_uint_iff bit_ucast_iff bit_drop_bit_eq idx, auto)
  qed
  then show ?thesis using l by (simp add: GetLE32_def GetLE16_def add.assoc)
qed

lemma length_chunk: "length (fst c) = 4 \<Longrightarrow> int (length (chunk_bytes c)) = 2 * ((int (length (snd c)) + 9) div 2)"
  by (auto simp: chunk_bytes_def le32_def odd_iff_mod_2_eq_one elim!: evenE oddE)

text \<open>A chunk that the walk skips, and the room that a sequence of them takes.\<close>

definition skippable :: "u8 list \<times> u8 list \<Rightarrow> bool" where
  "skippable c \<longleftrightarrow> length (fst c) = 4 \<and> fst c \<noteq> tag_bytes ''VP8 '' \<and> fst c \<noteq> tag_bytes ''VP8L'' \<and> length (snd c) \<le> 0xfffffff6"

definition image_tag :: "u8 list \<Rightarrow> bool" where
  "image_tag t \<longleftrightarrow> t = tag_bytes ''VP8 '' \<or> t = tag_bytes ''VP8L''"

lemma total_ok:
  fixes riff :: u64
  assumes "c \<le> MAX_CHUNK_PAYLOAD" "riff = 0 \<or> (uint tot + 2 * ((uint c + 9) div 2) \<le> uint riff \<and> uint riff < 2 ^ 32)"
  shows "\<not> (riff > 0 \<and> ucast (tot + padded_size c) > riff)" "riff \<noteq> 0 \<Longrightarrow> uint (tot + padded_size c) = uint tot + 2 * ((uint c + 9) div 2)"
proof -
  have e: "uint (tot + padded_size c) = uint tot + uint (padded_size c)" if "riff \<noteq> 0"
    using assms that disk_size(1)[OF assms(1)] by (simp add: uint_word_ariths)
  then show "riff \<noteq> 0 \<Longrightarrow> uint (tot + padded_size c) = uint tot + 2 * ((uint c + 9) div 2)"
    using disk_size(1)[OF assms(1)] by simp
  show "\<not> (riff > 0 \<and> ucast (tot + padded_size c) > riff)"
  proof (cases "riff = 0")
    case False
    have "\<not> ucast (tot + padded_size c) > riff"
      unfolding word_less_def uint_ucast_64 using e[OF False] assms(2) False disk_size(1)[OF assms(1)] by simp
    then show ?thesis by simp
  qed simp
qed

lemma walk_chunks:
  assumes "\<forall>c\<in>set cs. skippable c" "image_tag img" "isize \<le> MAX_CHUNK_PAYLOAD"
    and "stored mem p (concat (map chunk_bytes cs) @ img @ le32 isize)"
    and "int (length (concat (map chunk_bytes cs))) + 8 \<le> uint sz"
    and "riff = 0 \<or> (uint tot + int (length (concat (map chunk_bytes cs))) + 2 * ((uint isize + 9) div 2) \<le> uint riff \<and> uint riff < 2 ^ 32)"
    and "case acc of None \<Rightarrow> a = None \<and> n = 0 | Some (q, k) \<Rightarrow> a = Some q \<and> n = word_of_int k"
  shows "\<exists>m. uint m = uint sz - int (length (concat (map chunk_bytes cs))) \<and>
    optional_chunks mem riff p sz tot a n = Some (VP8_STATUS_OK, p + int (length (concat (map chunk_bytes cs))), m,
      map_option fst (alpha_chunk p cs acc), (case alpha_chunk p cs acc of None \<Rightarrow> 0 | Some (q, k) \<Rightarrow> word_of_int k))"
  using assms
proof (induction cs arbitrary: p sz tot a n acc)
  case Nil
  have img: "length img = 4" using Nil.prems(2) by (auto simp: image_tag_def tag_bytes_def)
  have big: "\<not> sz < 8" using Nil.prems(5) by (simp add: word_less_def)
  have b: "stored mem p img" "stored mem (p + 4) (le32 isize)" using Nil.prems(4) img by (simp_all add: stored_append)
  have tot: "\<not> (riff > 0 \<and> ucast (tot + padded_size isize) > riff)"
    by (rule total_ok(1)) (use Nil.prems(3,6) in auto)
  have "optional_chunks mem riff p sz tot a n = Some (VP8_STATUS_OK, p, sz, a, n)"
    apply (subst optional_chunks.simps)
    apply (simp only: if_not_P[OF big] GetLE32_at[OF b(2)] Option.bind.simps Let_def if_not_P[OF tot] has_tag_at[OF b(1) img] not_less[THEN iffD2, OF Nil.prems(3)] if_False)
    using Nil.prems(2) by (auto simp: image_tag_def)
  then show ?case using Nil.prems(7) by (auto split: option.splits)
next
  case (Cons c cs)
  define k where "k = (of_nat (length (snd c)) :: u32)"
  have c: "length (fst c) = 4" "fst c \<noteq> tag_bytes ''VP8 ''" "fst c \<noteq> tag_bytes ''VP8L''" "length (snd c) \<le> 0xfffffff6"
    using Cons.prems(1) by (auto simp: skippable_def)
  have k: "uint k = int (length (snd c))" using c(4) by (simp add: k_def unsigned_of_nat take_bit_nat_eq_self)
  then have km: "k \<le> MAX_CHUNK_PAYLOAD" using c(4) by (simp add: word_le_def)
  note d = disk_size[OF km] and len = length_chunk[OF c(1)]
  have dl: "uint (padded_size k) = int (length (chunk_bytes c))" using d(1) len k by simp
  have d64: "uint (ucast (padded_size k) :: u64) = int (length (chunk_bytes c))" using dl by (simp only: uint_ucast_64)
  have big: "\<not> sz < 8" "\<not> sz < ucast (padded_size k)" using Cons.prems(5) d64 by (auto simp: word_less_def)
  have b: "stored mem p (fst c)" "stored mem (p + 4) (le32 k)"
    using Cons.prems(4) c(1) by (simp_all add: stored_append chunk_bytes_def k_def)
  have next_bytes: "stored mem (p + uint (padded_size k)) (concat (map chunk_bytes cs) @ img @ le32 isize)"
    using Cons.prems(4) by (simp add: stored_append dl add.assoc)
  have sub: "uint (sz - ucast (padded_size k)) = uint sz - int (length (chunk_bytes c))"
    using Cons.prems(5) d64 by (simp add: uint_sub_small)
  have room: "riff = 0 \<or> (uint tot + 2 * ((uint k + 9) div 2) \<le> uint riff \<and> uint riff < 2 ^ 32)"
  proof -
    have "0 \<le> (uint isize + 9) div 2" by (simp add: pos_imp_zdiv_nonneg_iff)
    moreover have "0 \<le> int (length (concat (map chunk_bytes cs)))" by simp
    moreover have "int (length (concat (map chunk_bytes (c # cs)))) = int (length (chunk_bytes c)) + int (length (concat (map chunk_bytes cs)))" by simp
    ultimately show ?thesis using Cons.prems(6) len unfolding k by (elim disjE conjE) (simp, intro disjI2 conjI, linarith, simp)
  qed
  note tot = total_ok[OF km room]
  let ?alph = "fst c = tag_bytes ''ALPH''"
  have step: "optional_chunks mem riff p sz tot a n = optional_chunks mem riff (p + uint (padded_size k)) (sz - ucast (padded_size k)) (tot + padded_size k)
      (if ?alph then Some (p + 8) else a) (if ?alph then ucast k else n)"
    apply (subst optional_chunks.simps)
    apply (simp only: if_not_P[OF big(1)] if_not_P[OF big(2)] GetLE32_at[OF b(2)] Option.bind.simps Let_def if_not_P[OF tot(1)]
      has_tag_at[OF b(1) c(1)] not_less[THEN iffD2, OF km] if_False c(2,3))
    done
  let ?acc = "if ?alph then Some (p + 8, int (length (snd c))) else acc"
  have "uint (ucast k :: u64) = uint (word_of_int (int (length (snd c))) :: u64)"
    unfolding uint_ucast_64 k using c(4) by (simp add: unsigned_of_nat take_bit_nat_eq_self)
  then have ku: "ucast k = (word_of_int (int (length (snd c))) :: u64)" by (simp only: word_uint_eq_iff)
  have acc: "case ?acc of None \<Rightarrow> (if ?alph then Some (p + 8) else a) = None \<and> (if ?alph then ucast k else n) = 0
      | Some (q, m) \<Rightarrow> (if ?alph then Some (p + 8) else a) = Some q \<and> (if ?alph then ucast k else n) = word_of_int m"
    using Cons.prems(7) ku by (auto split: option.splits)
  have rest: "riff = 0 \<or> (uint (tot + padded_size k) + int (length (concat (map chunk_bytes cs))) + 2 * ((uint isize + 9) div 2) \<le> uint riff \<and> uint riff < 2 ^ 32)"
    using Cons.prems(6) tot(2) len k by (cases "riff = 0") auto
  have sz: "int (length (concat (map chunk_bytes cs))) + 8 \<le> uint (sz - ucast (padded_size k))" using sub Cons.prems(5) by simp
  have sk: "\<forall>c\<in>set cs. skippable c" using Cons.prems(1) by simp
  from Cons.IH[OF sk Cons.prems(2,3) next_bytes sz rest acc] show ?case
    unfolding step sub dl by (cases ?alph) (simp_all add: add.assoc diff_diff_eq)
qed

subsection \<open>Properties\<close>

text \<open>C27. WebPParseHeaders returns for every content of a file below 2 GB, never reads outside of it, and when it
  accepts, the image data starts inside the file, the alpha chunk lies inside the file, and, if the file is
  complete, the image chunk ends inside it; the assertions on the offset hold.\<close>

theorem WebPParseHeaders_any_data:
  assumes "hd_data h = Some p" "0 \<le> p" "p + uint (hd_data_size h) \<le> int (length mem)" "uint (hd_data_size h) < 2 ^ 31"
  shows "\<exists>stat h'. WebPParseHeaders mem h = Some (stat, h') \<and> (stat = VP8_STATUS_OK \<longrightarrow>
    hd_data h' = Some p \<and> hd_data_size h' = hd_data_size h \<and> uint (hd_offset h') \<le> uint (hd_data_size h) \<and>
    (case alpha_data h' of None \<Rightarrow> True | Some a \<Rightarrow> p \<le> a \<and> a + uint (alpha_data_size h') \<le> p + uint (hd_data_size h)) \<and>
    (have_all_data h \<longrightarrow> uint (hd_offset h') + uint (compressed_size h') \<le> uint (hd_data_size h)))"
proof -
  let ?ft = "\<lparr>ft_width = None, ft_height = None, ft_has_alpha = None, ft_has_animation = Some 0, ft_format = None\<rparr> :: features"
  obtain stat ft h1 where r: "ParseHeadersInternal mem (Some p) (hd_data_size h) ?ft (Some h) = Some (stat, ft, h1)"
    and ok: "parsed_ok p (hd_data_size h) (have_all_data h) ?ft (Some h) (stat, ft, h1)"
    using returns_ParseHeadersInternal[OF assms(2-4), of ?ft "Some h"] by (auto simp: returns_def)
  obtain h' where h': "h1 = Some h'" "stat = VP8_STATUS_OK \<Longrightarrow> image_at p (hd_data_size h) (have_all_data h) h'"
    using ok by (auto simp: parsed_ok_def headers_out_def split: if_splits)
  obtain anim where anim: "ft_has_animation ft = Some anim" using ok by (auto simp: parsed_ok_def same_pointers_def)
  let ?stat = "if (stat = VP8_STATUS_OK \<or> stat = VP8_STATUS_NOT_ENOUGH_DATA) \<and> anim \<noteq> 0 then VP8_STATUS_UNSUPPORTED_FEATURE else stat"
  have "WebPParseHeaders mem h = Some (?stat, h')" using r h'(1) anim assms(1) by (simp add: WebPParseHeaders_def)
  moreover have "?stat = VP8_STATUS_OK \<longrightarrow> image_at p (hd_data_size h) (have_all_data h) h'" using h'(2) by simp
  ultimately show ?thesis unfolding image_at_def inside_def by blast
qed

text \<open>C28. WebPGetInfo returns for every content of a file below 2 GB and reports only dimensions from 1 to
  \<open>2 ^ 24\<close>.\<close>

theorem WebPGetInfo_dimensions:
  assumes "0 \<le> p" "p + uint n \<le> int (length mem)" "uint n < 2 ^ 31"
  shows "\<exists>info. WebPGetInfo mem (Some p) n = Some info \<and>
    (\<forall>w h. info = Some (w, h) \<longrightarrow> 1 \<le> w \<and> w \<le> 2 ^ 24 \<and> 1 \<le> h \<and> h \<le> 2 ^ 24)"
  using returns_ParseHeadersInternal[OF assms, of "\<lparr>ft_width = Some 0, ft_height = Some 0, ft_has_alpha = Some 0, ft_has_animation = Some 0, ft_format = Some 0\<rparr>" None]
  by (auto simp: WebPGetInfo_def GetFeatures_def returns_def parsed_ok_def same_pointers_def)

text \<open>C29. ParseOptionalChunks skips every chunk before the image chunk, whatever its tag and payload, stops at the
  image chunk, and remembers the payload of the last alpha chunk; the sizes in the chunks may be as large as the
  RIFF size allows.\<close>

theorem ParseOptionalChunks_skips:
  assumes "\<forall>c\<in>set cs. length (fst c) = 4 \<and> fst c \<noteq> tag_bytes ''VP8 '' \<and> fst c \<noteq> tag_bytes ''VP8L'' \<and> length (snd c) \<le> 0xfffffff6"
    and "img = tag_bytes ''VP8 '' \<or> img = tag_bytes ''VP8L''" "isize \<le> MAX_CHUNK_PAYLOAD"
    and "mem = pre @ concat (map chunk_bytes cs) @ img @ le32 isize @ post"
    and "int (length (concat (map chunk_bytes cs))) + 8 \<le> uint sz"
    and "riff = 0 \<or> (22 + int (length (concat (map chunk_bytes cs))) + 2 * ((uint isize + 9) div 2) \<le> uint riff \<and> uint riff < 2 ^ 32)"
  shows "\<exists>m. uint m = uint sz - int (length (concat (map chunk_bytes cs))) \<and>
    ParseOptionalChunks mem (int (length pre)) sz riff =
      Some (VP8_STATUS_OK, int (length pre) + int (length (concat (map chunk_bytes cs))), m,
        map_option fst (alpha_chunk (int (length pre)) cs None), (case alpha_chunk (int (length pre)) cs None of None \<Rightarrow> 0 | Some (q, k) \<Rightarrow> word_of_int k))"
proof -
  have b: "stored mem (int (length pre)) (concat (map chunk_bytes cs) @ img @ le32 isize)"
    using stored_middle[of pre "concat (map chunk_bytes cs) @ img @ le32 isize" post] assms(4) by simp
  have sk: "\<forall>c\<in>set cs. skippable c" using assms(1) by (simp add: skippable_def)
  have im: "image_tag img" using assms(2) by (simp add: image_tag_def)
  have r: "riff = 0 \<or> (uint (22 :: u32) + int (length (concat (map chunk_bytes cs))) + 2 * ((uint isize + 9) div 2) \<le> uint riff \<and> uint riff < 2 ^ 32)"
    using assms(6) by simp
  from walk_chunks[OF sk im assms(3) b assms(5) r, where acc = None and a = None and n = 0] show ?thesis
    by (simp add: ParseOptionalChunks_def add.commute)
qed

definition sample_file :: "u8 list" where
  "sample_file = tag_bytes ''RIFF'' @ le32 30 @ tag_bytes ''WEBP'' @ tag_bytes ''VP8L'' @ le32 18 @ [0x2f, 0, 0, 0, 0] @ replicate 13 0"

definition sample_headers :: WebPHeaderStructure where
  "sample_headers = \<lparr>hd_data = Some 0, hd_data_size = 38, have_all_data = True, hd_offset = 0, alpha_data = None, alpha_data_size = 0,
     compressed_size = 0, riff_size = 0, is_lossless = 0\<rparr>"

theorem WebPParseHeaders_any_data_witness:
  "\<exists>stat h'. WebPParseHeaders sample_file sample_headers = Some (stat, h') \<and> (stat = VP8_STATUS_OK \<longrightarrow>
    hd_data h' = Some 0 \<and> hd_data_size h' = 38 \<and> uint (hd_offset h') \<le> 38 \<and>
    (case alpha_data h' of None \<Rightarrow> True | Some a \<Rightarrow> 0 \<le> a \<and> a + uint (alpha_data_size h') \<le> 38) \<and>
    uint (hd_offset h') + uint (compressed_size h') \<le> 38)"
proof -
  have f: "hd_data sample_headers = Some 0" "hd_data_size sample_headers = 38" "have_all_data sample_headers" "int (length sample_file) = 38" "uint (38 :: u64) = 38"
    by (simp_all add: sample_headers_def sample_file_def tag_bytes_def le32_def)
  have "0 \<le> (0 :: int)" "0 + uint (hd_data_size sample_headers) \<le> int (length sample_file)" "uint (hd_data_size sample_headers) < 2 ^ 31"
    unfolding f by simp_all
  from WebPParseHeaders_any_data[OF f(1) this] f(3) show ?thesis unfolding f by (simp only: simp_thms add_0)
qed

theorem WebPGetInfo_dimensions_witness:
  "\<exists>info. WebPGetInfo sample_file (Some 0) 38 = Some info \<and>
    (\<forall>w h. info = Some (w, h) \<longrightarrow> 1 \<le> w \<and> w \<le> 2 ^ 24 \<and> 1 \<le> h \<and> h \<le> 2 ^ 24)"
  using WebPGetInfo_dimensions[of 0 38 sample_file] by (simp add: sample_file_def tag_bytes_def le32_def)

theorem ParseOptionalChunks_skips_witness:
  "\<exists>m. uint m = 28 - 20 \<and> ParseOptionalChunks (tag_bytes ''ALPH'' @ le32 3 @ [7, 8, 9, 0] @ tag_bytes ''EXIF'' @ le32 0 @ tag_bytes ''VP8 '' @ le32 10) 0 28 100 =
    Some (VP8_STATUS_OK, 20, m, Some 8, 3)"
  using ParseOptionalChunks_skips[of "[(tag_bytes ''ALPH'', [7, 8, 9]), (tag_bytes ''EXIF'', [])]" "tag_bytes ''VP8 ''" 10
      "tag_bytes ''ALPH'' @ le32 3 @ [7, 8, 9, 0] @ tag_bytes ''EXIF'' @ le32 0 @ tag_bytes ''VP8 '' @ le32 10" "[]" "[]" 28 100]
  by (simp add: chunk_bytes_def tag_bytes_def le32_def)

text \<open>
  The 32-bit sum of the chunk sizes wraps: a chunk that claims 0xfffffff0 bytes in a RIFF of 100 bytes is not
  reported as too large, and a reader of an incomplete file waits for data that cannot come.
\<close>

lemma chunk_sum_wraps:
  "ParseOptionalChunks (tag_bytes ''EXIF'' @ le32 0xfffffff0) 0 8 100 = Some (VP8_STATUS_NOT_ENOUGH_DATA, 0, 8, None, 0)"
  "ParseOptionalChunks (tag_bytes ''EXIF'' @ le32 0xf0000000) 0 8 100 = Some (VP8_STATUS_BITSTREAM_ERROR, 0, 8, None, 0)"
  by (simp_all add: ParseOptionalChunks_def optional_chunks.simps GetLE32_def GetLE16_def has_tag_def tag_bytes_def le32_def ld_def padded_size_def)

end
