(* ===== verification/VP8_Modes.thy ===== *)
theory VP8_Modes
  imports VP8_Frame
begin

section \<open>The modes of the macroblocks\<close>

text \<open>
  The second part of the first partition: segment, skip flag and prediction modes of every macroblock in scan
  order. The encoder walks with its iterator over the array of 4x4 modes (VP8CodeIntraModes of
  src/enc/tree_enc.c, src/enc/iterator_enc.c); the decoder reads row by row and keeps only the modes above and to
  the left (VP8ParseIntraModeRow of src/dec/tree_dec.c, VP8InitScanline of src/dec/vp8_dec.c). The modes are the
  numbers of the enumeration in src/dec/common_dec.h.
\<close>

unbundle bit_operations_syntax

abbreviation (input) "B_DC_PRED \<equiv> (0 :: int)"
abbreviation (input) "B_TM_PRED \<equiv> (1 :: int)"
abbreviation (input) "B_VE_PRED \<equiv> (2 :: int)"
abbreviation (input) "B_HE_PRED \<equiv> (3 :: int)"
abbreviation (input) "B_RD_PRED \<equiv> (4 :: int)"
abbreviation (input) "B_VR_PRED \<equiv> (5 :: int)"
abbreviation (input) "B_LD_PRED \<equiv> (6 :: int)"
abbreviation (input) "B_VL_PRED \<equiv> (7 :: int)"
abbreviation (input) "B_HD_PRED \<equiv> (8 :: int)"
abbreviation (input) "B_HU_PRED \<equiv> (9 :: int)"
abbreviation (input) "DC_PRED \<equiv> B_DC_PRED"
abbreviation (input) "V_PRED \<equiv> B_VE_PRED"
abbreviation (input) "H_PRED \<equiv> B_HE_PRED"
abbreviation (input) "TM_PRED \<equiv> B_TM_PRED"

text \<open>\<open>memset\<close> and \<open>memcpy\<close> on arrays.\<close>

definition memset :: "'a list \<Rightarrow> int \<Rightarrow> 'a \<Rightarrow> nat \<Rightarrow> 'a list option" where
  "memset xs p v n = for_range 0 n (\<lambda>i xs. st xs (p + int i) v) xs"

definition memcpy :: "'a list \<Rightarrow> int \<Rightarrow> 'a list \<Rightarrow> int \<Rightarrow> nat \<Rightarrow> 'a list option" where
  "memcpy dst p src q n = for_range 0 n (\<lambda>i dst. do { v \<leftarrow> ld src (q + int i); st dst (p + int i) v }) dst"

subsection \<open>The decoder\<close>

partial_function (option) mode_tree :: "u8 list \<Rightarrow> int list \<Rightarrow> int \<Rightarrow> VP8BitReader \<Rightarrow> (int \<times> VP8BitReader) option" where
  "mode_tree mem pb i br =
     (if i > 0 then
        Option.bind (ld pb i) (\<lambda>p.
        Option.bind (VP8GetBit mem br p) (\<lambda>(b, br).
        Option.bind (ld kYModesIntra4 (2 * i + b)) (\<lambda>i. mode_tree mem pb i br)))
      else Some (- i, br))"

definition get_i4_mode :: "u8 list \<Rightarrow> int list \<Rightarrow> VP8BitReader \<Rightarrow> (int \<times> VP8BitReader) option" where
  "get_i4_mode mem pb br = do {
     p \<leftarrow> ld pb 0;
     (b, br) \<leftarrow> VP8GetBit mem br p;
     i \<leftarrow> ld kYModesIntra4 b;
     mode_tree mem pb i br }"

text \<open>The 16 modes of a macroblock; \<open>tp\<close> is \<open>intra_t_\<close> and \<open>base\<close> the offset of the macroblock in it.\<close>

definition get_i4_modes :: "u8 list \<Rightarrow> int \<Rightarrow> int list \<times> int list \<times> int list \<times> VP8BitReader \<Rightarrow>
    (int list \<times> int list \<times> int list \<times> VP8BitReader) option" where
  "get_i4_modes mem base =
     for_range 0 4
       (\<lambda>y (tp, lft, modes, br). do {
          ymode \<leftarrow> ld lft (int y);
          (ymode, tp, br) \<leftarrow> for_range 0 4
            (\<lambda>x (ymode, tp, br). do {
               t \<leftarrow> ld tp (base + int x);
               rows \<leftarrow> ld dec_kBModesProba t;
               pb \<leftarrow> ld rows ymode;
               (ymode, br) \<leftarrow> get_i4_mode mem pb br;
               tp \<leftarrow> st tp (base + int x) ymode;
               Some (ymode, tp, br) }) (ymode, tp, br);
          modes \<leftarrow> memcpy modes (4 * int y) tp base 4;
          lft \<leftarrow> st lft (int y) ymode;
          Some (tp, lft, modes, br) })"

definition get_segment :: "u8 list \<Rightarrow> int list \<Rightarrow> VP8BitReader \<Rightarrow> (int \<times> VP8BitReader) option" where
  "get_segment mem segs br = do {
     p0 \<leftarrow> ld segs 0;
     (b, br) \<leftarrow> VP8GetBit mem br p0;
     (if b = 0 then do { p1 \<leftarrow> ld segs 1; VP8GetBit mem br p1 }
      else do { p2 \<leftarrow> ld segs 2; (s, br) \<leftarrow> VP8GetBit mem br p2; Some (s + 2, br) }) }"

definition get_i16_mode :: "u8 list \<Rightarrow> VP8BitReader \<Rightarrow> (int \<times> VP8BitReader) option" where
  "get_i16_mode mem br = do {
     (b, br) \<leftarrow> VP8GetBit mem br 156;
     (if b \<noteq> 0 then do { (b, br) \<leftarrow> VP8GetBit mem br 128; Some (if b \<noteq> 0 then TM_PRED else H_PRED, br) }
      else do { (b, br) \<leftarrow> VP8GetBit mem br 163; Some (if b \<noteq> 0 then V_PRED else DC_PRED, br) }) }"

definition get_uv_mode :: "u8 list \<Rightarrow> VP8BitReader \<Rightarrow> (int \<times> VP8BitReader) option" where
  "get_uv_mode mem br = do {
     (b, br) \<leftarrow> VP8GetBit mem br 142;
     (if b = 0 then Some (DC_PRED, br)
      else do {
        (b, br) \<leftarrow> VP8GetBit mem br 114;
        (if b = 0 then Some (V_PRED, br)
         else do { (b, br) \<leftarrow> VP8GetBit mem br 183; Some (if b \<noteq> 0 then TM_PRED else H_PRED, br) }) }) }"

definition ParseIntraMode :: "u8 list \<Rightarrow> nat \<Rightarrow> VP8Decoder \<times> VP8BitReader \<Rightarrow> (VP8Decoder \<times> VP8BitReader) option" where
  "ParseIntraMode mem x = (\<lambda>(d, br). do {
     let base = 4 * int x;
     block \<leftarrow> ld (mb_data d) (int x);
     (segment, br) \<leftarrow> (if update_map (segment_hdr d) \<noteq> 0 then get_segment mem (segments (proba d)) br else Some (0, br));
     (skip, br) \<leftarrow> (if use_skip_proba d \<noteq> 0 then VP8GetBit mem br (skip_p d) else Some (md_skip block, br));
     (b, br) \<leftarrow> VP8GetBit mem br 145;
     let is_i4x4 = (of_bool (b = 0) :: int);
     (tp, lft, modes, br) \<leftarrow>
       (if is_i4x4 = 0 then do {
          (ymode, br) \<leftarrow> get_i16_mode mem br;
          modes \<leftarrow> st (md_imodes block) 0 ymode;
          tp \<leftarrow> memset (intra_t d) base ymode 4;
          lft \<leftarrow> memset (intra_l d) 0 ymode 4;
          Some (tp, lft, modes, br) }
        else get_i4_modes mem base (intra_t d, intra_l d, md_imodes block, br));
     (uv, br) \<leftarrow> get_uv_mode mem br;
     let block = block\<lparr>md_segment := segment, md_skip := skip, md_is_i4x4 := is_i4x4, md_imodes := modes, md_uvmode := uv\<rparr>;
     blocks \<leftarrow> st (mb_data d) (int x) block;
     Some (d\<lparr>intra_t := tp, intra_l := lft, mb_data := blocks\<rparr>, br) })"

text \<open>The bit reader is the decoder's own; the loop leaves it there.\<close>

definition VP8ParseIntraModeRow :: "u8 list \<Rightarrow> VP8Decoder \<Rightarrow> (int \<times> VP8Decoder) option" where
  "VP8ParseIntraModeRow mem d = do {
     (d, br) \<leftarrow> for_range 0 (nat (mb_w d)) (ParseIntraMode mem) (d, dec_br d);
     Some (of_bool (br_eof br = 0), d\<lparr>dec_br := br\<rparr>) }"

definition VP8InitScanline :: "VP8Decoder \<Rightarrow> VP8Decoder option" where
  "VP8InitScanline d = do {
     lft \<leftarrow> ld (mb_info d) 0;
     mbs \<leftarrow> st (mb_info d) 0 (lft\<lparr>nz := 0, nz_dc := 0\<rparr>);
     l \<leftarrow> memset (intra_l d) 0 B_DC_PRED 4;
     Some (d\<lparr>mb_info := mbs, intra_l := l, mb_x := 0\<rparr>) }"

subsection \<open>The encoder\<close>

record VP8MBInfo =
  mb_type :: int
  uv_mode :: int
  mb_skip :: int
  mb_segment :: int

text \<open>
  The fields of the encoder that describe the macroblocks. \<open>em_preds\<close> is the array of modes with its border,
  and \<open>em_preds_base\<close> the index that the pointer \<open>preds_\<close> stands for; \<open>em_nz\<close> has \<open>mb_w + 1\<close> entries of which
  the pointer \<open>nz_\<close> skips the first.
\<close>

record EncModes =
  em_mb_w :: int
  em_mb_h :: int
  em_preds_w :: int
  em_preds :: "int list"
  em_preds_base :: int
  em_mb_info :: "VP8MBInfo list"
  em_nz :: "u32 list"

text \<open>
  The iterator's position. \<open>it_preds\<close>, \<open>it_nz\<close> and \<open>it_mb\<close> are indices into \<open>em_preds\<close>, \<open>em_nz\<close> and
  \<open>em_mb_info\<close>; the nine contexts above and to the left are 4 for luma, 2 and 2 for chroma and one for DC.
\<close>

record VP8EncIterator =
  it_x :: int
  it_y :: int
  it_preds :: int
  it_nz :: int
  it_mb :: int
  it_count_down :: int
  it_top_nz :: "int list"
  it_left_nz :: "int list"

definition InitLeft :: "VP8EncIterator \<Rightarrow> VP8EncIterator option" where
  "InitLeft it = do {
     l \<leftarrow> st (it_left_nz it) 8 0;
     Some (it\<lparr>it_left_nz := l\<rparr>) }"

definition InitTop :: "EncModes \<Rightarrow> EncModes option" where
  "InitTop em = do {
     n \<leftarrow> memset (em_nz em) 1 0 (nat (em_mb_w em));
     Some (em\<lparr>em_nz := n\<rparr>) }"

definition VP8IteratorSetRow :: "EncModes \<Rightarrow> int \<Rightarrow> VP8EncIterator \<Rightarrow> VP8EncIterator option" where
  "VP8IteratorSetRow em y it =
     InitLeft (it\<lparr>it_x := 0, it_y := y, it_preds := em_preds_base em + y * 4 * em_preds_w em, it_nz := 1, it_mb := 0 + y * em_mb_w em\<rparr>)"

definition VP8IteratorSetCountDown :: "int \<Rightarrow> VP8EncIterator \<Rightarrow> VP8EncIterator" where
  "VP8IteratorSetCountDown count_down it = it\<lparr>it_count_down := count_down\<rparr>"

definition VP8IteratorReset :: "EncModes \<Rightarrow> VP8EncIterator \<Rightarrow> (EncModes \<times> VP8EncIterator) option" where
  "VP8IteratorReset em it = do {
     it \<leftarrow> VP8IteratorSetRow em 0 it;
     let it = VP8IteratorSetCountDown (em_mb_w em * em_mb_h em) it;
     em \<leftarrow> InitTop em;
     Some (em, it) }"

text \<open>The iterator is a local variable of its callers; what it holds before is not read.\<close>

definition VP8IteratorInit :: "EncModes \<Rightarrow> VP8EncIterator \<Rightarrow> (EncModes \<times> VP8EncIterator) option" where
  "VP8IteratorInit em it = VP8IteratorReset em it"

definition VP8IteratorIsDone :: "VP8EncIterator \<Rightarrow> bool" where
  "VP8IteratorIsDone it \<longleftrightarrow> it_count_down it \<le> 0"

definition VP8IteratorNext :: "EncModes \<Rightarrow> VP8EncIterator \<Rightarrow> (bool \<times> VP8EncIterator) option" where
  "VP8IteratorNext em it = do {
     let it = it\<lparr>it_x := it_x it + 1\<rparr>;
     it \<leftarrow> (if it_x it = em_mb_w em then VP8IteratorSetRow em (it_y it + 1) it
            else Some (it\<lparr>it_preds := it_preds it + 4, it_mb := it_mb it + 1, it_nz := it_nz it + 1\<rparr>));
     let it = it\<lparr>it_count_down := it_count_down it - 1\<rparr>;
     Some (0 < it_count_down it, it) }"

text \<open>ResetBoundaryPredictions of src/enc/webp_enc.c: the modes of the border and the context left of the first column.\<close>

definition ResetBoundaryPredictions :: "EncModes \<Rightarrow> EncModes option" where
  "ResetBoundaryPredictions em = do {
     preds \<leftarrow> memset (em_preds em) (em_preds_base em - em_preds_w em - 1) B_DC_PRED (nat (4 * em_mb_w em + 1));
     preds \<leftarrow> for_range 0 (nat (4 * em_mb_h em)) (\<lambda>i preds. st preds (em_preds_base em - 1 + int i * em_preds_w em) B_DC_PRED) preds;
     n \<leftarrow> st (em_nz em) 0 0;
     Some (em\<lparr>em_preds := preds, em_nz := n\<rparr>) }"

definition VP8SetIntra16Mode :: "VP8EncIterator \<Rightarrow> int \<Rightarrow> EncModes \<Rightarrow> EncModes option" where
  "VP8SetIntra16Mode it mode em = do {
     (preds, _) \<leftarrow> for_range 0 4
       (\<lambda>y (preds, p). do { preds \<leftarrow> memset preds p mode 4; Some (preds, p + em_preds_w em) }) (em_preds em, it_preds it);
     mb \<leftarrow> ld (em_mb_info em) (it_mb it);
     mbs \<leftarrow> st (em_mb_info em) (it_mb it) (mb\<lparr>mb_type := 1\<rparr>);
     Some (em\<lparr>em_preds := preds, em_mb_info := mbs\<rparr>) }"

definition VP8SetIntra4Mode :: "VP8EncIterator \<Rightarrow> int list \<Rightarrow> EncModes \<Rightarrow> EncModes option" where
  "VP8SetIntra4Mode it modes em = do {
     (preds, _) \<leftarrow> for_range 0 4
       (\<lambda>y (preds, p). do { preds \<leftarrow> memcpy preds p modes (4 * int y) 4; Some (preds, p + em_preds_w em) }) (em_preds em, it_preds it);
     mb \<leftarrow> ld (em_mb_info em) (it_mb it);
     mbs \<leftarrow> st (em_mb_info em) (it_mb it) (mb\<lparr>mb_type := 0\<rparr>);
     Some (em\<lparr>em_preds := preds, em_mb_info := mbs\<rparr>) }"

text \<open>The fields of \<open>VP8MBInfo\<close> are bit fields of 2, 1 and 2 bits.\<close>

definition VP8SetIntraUVMode :: "VP8EncIterator \<Rightarrow> int \<Rightarrow> EncModes \<Rightarrow> EncModes option" where
  "VP8SetIntraUVMode it mode em = do {
     mb \<leftarrow> ld (em_mb_info em) (it_mb it);
     mbs \<leftarrow> st (em_mb_info em) (it_mb it) (mb\<lparr>uv_mode := mode mod 4\<rparr>);
     Some (em\<lparr>em_mb_info := mbs\<rparr>) }"

definition VP8SetSkip :: "VP8EncIterator \<Rightarrow> int \<Rightarrow> EncModes \<Rightarrow> EncModes option" where
  "VP8SetSkip it skip em = do {
     mb \<leftarrow> ld (em_mb_info em) (it_mb it);
     mbs \<leftarrow> st (em_mb_info em) (it_mb it) (mb\<lparr>mb_skip := skip mod 2\<rparr>);
     Some (em\<lparr>em_mb_info := mbs\<rparr>) }"

definition VP8SetSegment :: "VP8EncIterator \<Rightarrow> int \<Rightarrow> EncModes \<Rightarrow> EncModes option" where
  "VP8SetSegment it segment em = do {
     mb \<leftarrow> ld (em_mb_info em) (it_mb it);
     mbs \<leftarrow> st (em_mb_info em) (it_mb it) (mb\<lparr>mb_segment := segment mod 4\<rparr>);
     Some (em\<lparr>em_mb_info := mbs\<rparr>) }"

definition PutI4Mode :: "allocator \<Rightarrow> int \<Rightarrow> int list \<Rightarrow> VP8BitWriter \<Rightarrow> (int \<times> VP8BitWriter) option" where
  "PutI4Mode malloc mode pb bw = do {
     p0 \<leftarrow> ld pb 0;
     (b, bw) \<leftarrow> VP8PutBit malloc bw (of_bool (mode \<noteq> B_DC_PRED)) p0;
     (if b = 0 then Some (mode, bw) else do {
     p1 \<leftarrow> ld pb 1;
     (b, bw) \<leftarrow> VP8PutBit malloc bw (of_bool (mode \<noteq> B_TM_PRED)) p1;
     (if b = 0 then Some (mode, bw) else do {
     p2 \<leftarrow> ld pb 2;
     (b, bw) \<leftarrow> VP8PutBit malloc bw (of_bool (mode \<noteq> B_VE_PRED)) p2;
     (if b = 0 then Some (mode, bw) else do {
     p3 \<leftarrow> ld pb 3;
     (b, bw) \<leftarrow> VP8PutBit malloc bw (of_bool (mode \<ge> B_LD_PRED)) p3;
     (if b = 0 then do {
        p4 \<leftarrow> ld pb 4;
        (b, bw) \<leftarrow> VP8PutBit malloc bw (of_bool (mode \<noteq> B_HE_PRED)) p4;
        (if b = 0 then Some (mode, bw) else do {
        p5 \<leftarrow> ld pb 5;
        (_, bw) \<leftarrow> VP8PutBit malloc bw (of_bool (mode \<noteq> B_RD_PRED)) p5;
        Some (mode, bw) }) }
      else do {
        p6 \<leftarrow> ld pb 6;
        (b, bw) \<leftarrow> VP8PutBit malloc bw (of_bool (mode \<noteq> B_LD_PRED)) p6;
        (if b = 0 then Some (mode, bw) else do {
        p7 \<leftarrow> ld pb 7;
        (b, bw) \<leftarrow> VP8PutBit malloc bw (of_bool (mode \<noteq> B_VL_PRED)) p7;
        (if b = 0 then Some (mode, bw) else do {
        p8 \<leftarrow> ld pb 8;
        (_, bw) \<leftarrow> VP8PutBit malloc bw (of_bool (mode \<noteq> B_HD_PRED)) p8;
        Some (mode, bw) }) }) }) }) }) }) }"

definition PutI16Mode :: "allocator \<Rightarrow> int \<Rightarrow> VP8BitWriter \<Rightarrow> VP8BitWriter option" where
  "PutI16Mode malloc mode bw = do {
     (b, bw) \<leftarrow> VP8PutBit malloc bw (of_bool (mode = TM_PRED \<or> mode = H_PRED)) 156;
     (if b \<noteq> 0 then do { (_, bw) \<leftarrow> VP8PutBit malloc bw (of_bool (mode = TM_PRED)) 128; Some bw }
      else do { (_, bw) \<leftarrow> VP8PutBit malloc bw (of_bool (mode = V_PRED)) 163; Some bw }) }"

definition PutUVMode :: "allocator \<Rightarrow> int \<Rightarrow> VP8BitWriter \<Rightarrow> VP8BitWriter option" where
  "PutUVMode malloc uv bw = do {
     (b, bw) \<leftarrow> VP8PutBit malloc bw (of_bool (uv \<noteq> DC_PRED)) 142;
     (if b = 0 then Some bw else do {
        (b, bw) \<leftarrow> VP8PutBit malloc bw (of_bool (uv \<noteq> V_PRED)) 114;
        (if b = 0 then Some bw else do { (_, bw) \<leftarrow> VP8PutBit malloc bw (of_bool (uv \<noteq> H_PRED)) 183; Some bw }) }) }"

definition PutSegment :: "allocator \<Rightarrow> int \<Rightarrow> int list \<Rightarrow> VP8BitWriter \<Rightarrow> VP8BitWriter option" where
  "PutSegment malloc s p bw = do {
     p0 \<leftarrow> ld p 0;
     (b, bw) \<leftarrow> VP8PutBit malloc bw (of_bool (s \<ge> 2)) p0;
     p1 \<leftarrow> ld p (if b \<noteq> 0 then 1 + 1 else 1);
     (_, bw) \<leftarrow> VP8PutBit malloc bw (s AND 1) p1;
     Some bw }"

text \<open>The 16 modes of a macroblock; \<open>preds\<close> is the position of the current row of 4x4 blocks.\<close>

definition put_i4_modes :: "allocator \<Rightarrow> EncModes \<Rightarrow> int \<Rightarrow> VP8BitWriter \<Rightarrow> VP8BitWriter option" where
  "put_i4_modes malloc em preds bw = do {
     (_, _, bw) \<leftarrow> for_range 0 4
       (\<lambda>y (top_pred, preds, bw). do {
          lft \<leftarrow> ld (em_preds em) (preds - 1);
          (_, bw) \<leftarrow> for_range 0 4
            (\<lambda>x (lft, bw). do {
               t \<leftarrow> ld (em_preds em) (top_pred + int x);
               rows \<leftarrow> ld enc_kBModesProba t;
               probas \<leftarrow> ld rows lft;
               m \<leftarrow> ld (em_preds em) (preds + int x);
               PutI4Mode malloc m probas bw }) (lft, bw);
          Some (preds, preds + em_preds_w em, bw) }) (preds - em_preds_w em, preds, bw);
     Some bw }"

definition code_intra_mode :: "allocator \<Rightarrow> VP8Encoder \<Rightarrow> EncModes \<Rightarrow> VP8EncIterator \<Rightarrow> VP8BitWriter \<Rightarrow> VP8BitWriter option" where
  "code_intra_mode malloc enc em it bw = do {
     mb \<leftarrow> ld (em_mb_info em) (it_mb it);
     bw \<leftarrow> (if e_update_map (e_segment_hdr enc) \<noteq> 0 then PutSegment malloc (mb_segment mb) (e_segments (e_proba enc)) bw else Some bw);
     bw \<leftarrow> (if e_use_skip_proba (e_proba enc) \<noteq> 0
            then do { (_, bw) \<leftarrow> VP8PutBit malloc bw (mb_skip mb) (e_skip_proba (e_proba enc)); Some bw } else Some bw);
     (b, bw) \<leftarrow> VP8PutBit malloc bw (of_bool (mb_type mb \<noteq> 0)) 145;
     bw \<leftarrow> (if b \<noteq> 0 then do { m \<leftarrow> ld (em_preds em) (it_preds it); PutI16Mode malloc m bw }
            else put_i4_modes malloc em (it_preds it) bw);
     PutUVMode malloc (uv_mode mb) bw }"

partial_function (option) code_intra_modes :: "allocator \<Rightarrow> VP8Encoder \<Rightarrow> EncModes \<Rightarrow> VP8EncIterator \<Rightarrow> VP8BitWriter \<Rightarrow> VP8BitWriter option" where
  "code_intra_modes malloc enc em it bw =
     Option.bind (code_intra_mode malloc enc em it bw) (\<lambda>bw.
     Option.bind (VP8IteratorNext em it) (\<lambda>(more, it).
       if more then code_intra_modes malloc enc em it bw else Some bw))"

definition VP8CodeIntraModes :: "allocator \<Rightarrow> VP8Encoder \<Rightarrow> VP8EncIterator \<Rightarrow> EncModes \<Rightarrow> VP8BitWriter \<Rightarrow> (EncModes \<times> VP8BitWriter) option" where
  "VP8CodeIntraModes malloc enc it em bw = do {
     (em, it) \<leftarrow> VP8IteratorInit em it;
     bw \<leftarrow> code_intra_modes malloc enc em it bw;
     Some (em, bw) }"

subsection \<open>One mode\<close>

text \<open>The path of each 4x4 mode in the tree: the index of the probability and the bit.\<close>

definition i4_path :: "int \<Rightarrow> (nat \<times> bool) list" where
  "i4_path m =
     (if m = B_DC_PRED then [(0, False)]
      else if m = B_TM_PRED then [(0, True), (1, False)]
      else if m = B_VE_PRED then [(0, True), (1, True), (2, False)]
      else [(0, True), (1, True), (2, True)] @
        (if m = B_HE_PRED then [(3, False), (4, False)]
         else if m = B_RD_PRED then [(3, False), (4, True), (5, False)]
         else if m = B_VR_PRED then [(3, False), (4, True), (5, True)]
         else if m = B_LD_PRED then [(3, True), (6, False)]
         else if m = B_VL_PRED then [(3, True), (6, True), (7, False)]
         else if m = B_HD_PRED then [(3, True), (6, True), (7, True), (8, False)]
         else [(3, True), (6, True), (7, True), (8, True)]))"

definition i4_symbols :: "int list \<Rightarrow> int \<Rightarrow> symbol list" where
  "i4_symbols pb m = map (\<lambda>(i, b). (b, pb ! i)) (i4_path m)"

definition mode_probas :: "int list \<Rightarrow> bool" where
  "mode_probas pb \<longleftrightarrow> length pb = 9 \<and> (\<forall>p\<in>set pb. 0 \<le> p \<and> p < 256)"

lemma mode_probas_nth: "mode_probas pb \<Longrightarrow> i < 9 \<Longrightarrow> 0 \<le> pb ! i \<and> pb ! i < 256"
  by (simp add: mode_probas_def)

lemma mode_probas_ld: "mode_probas pb \<Longrightarrow> 0 \<le> i \<Longrightarrow> i < 9 \<Longrightarrow> ld pb i = Some (pb ! nat i)"
  by (simp add: mode_probas_def ld_def)

lemma mode_cases:
  "0 \<le> m \<Longrightarrow> m < 10 \<Longrightarrow> m = 0 \<or> m = 1 \<or> m = 2 \<or> m = 3 \<or> m = 4 \<or> m = 5 \<or> m = 6 \<or> m = 7 \<or> m = 8 \<or> m = 9" for m :: int
  by presburger

lemma emits_PutI4Mode:
  assumes pb: "mode_probas pb" and m: "0 \<le> m" "m < 10"
  shows "emits malloc e (PutI4Mode malloc m pb) (i4_symbols pb m) (Pair m)"
  unfolding PutI4Mode_def i4_symbols_def i4_path_def
  using mode_cases[OF m]
  by (elim disjE; simp add: mode_probas_ld[OF pb])
    (intro emits_bit emits_Some; (simp add: mode_probas_nth[OF pb] mode_probas_ld[OF pb])?)+

lemma parses_tree_leaf: "i \<le> 0 \<Longrightarrow> m = - i \<Longrightarrow> parses w mem bs (mode_tree mem pb i) [] (Pair m)"
  by (subst mode_tree.simps [THEN eq_reflection, abs_def]) (simp add: parses_Some)

lemma parses_tree_node:
  assumes "i > 0" "ld pb i = Some p" "ld kYModesIntra4 (2 * i + of_bool b) = Some j" "parses True mem bs (mode_tree mem pb j) ys r"
  shows "parses w mem bs (mode_tree mem pb i) ((b, p) # ys) r"
  using assms by (subst mode_tree.simps [THEN eq_reflection, abs_def]) (auto intro: parses_bit)

lemma parses_get_i4_mode:
  assumes pb: "mode_probas pb" and m: "0 \<le> m" "m < 10"
  shows "parses w mem bs (get_i4_mode mem pb) (i4_symbols pb m) (Pair m)"
proof -
  have root: "parses w mem bs (get_i4_mode mem pb) ((b, pb ! 0) # ys) r"
    if "ld kYModesIntra4 (of_bool b) = Some j" "parses True mem bs (mode_tree mem pb j) ys r" for b j ys r
    unfolding get_i4_mode_def mode_probas_ld[OF pb order_refl zero_less_numeral] Option.bind.simps nat_0
    using that by (intro parses_bit) simp
  show ?thesis
    unfolding i4_symbols_def i4_path_def
    using mode_cases[OF m]
    by (elim disjE; simp)
      (rule root, simp add: kYModesIntra4_def ld_def, ((rule parses_tree_node, simp, simp add: mode_probas_ld[OF pb], simp add: kYModesIntra4_def ld_def)+)?, rule parses_tree_leaf, simp, simp)+
qed

subsection \<open>The sixteen modes of a macroblock\<close>

lemma emits_last: "emits malloc e f xs r \<Longrightarrow> (\<And>bw. g (r bw) = Some (r' bw)) \<Longrightarrow> emits malloc e (\<lambda>bw. f bw \<bind> g) xs r'"
  using emits_bind[of malloc e f xs r g "[]" r'] by (simp add: emits_Some)

lemma parses_last: "parses w mem bs f xs r \<Longrightarrow> (\<And>br. g (r br) = Some (r' br)) \<Longrightarrow> parses w mem bs (\<lambda>br. f br \<bind> g) xs r'"
  using parses_then[of w mem bs f xs r g "[]" r'] by (simp add: parses_Some)

text \<open>Loops of the reader whose result is described by an invariant; \<open>c\<close> puts the reader into the loop's state.\<close>

lemma parses_for_inv:
  assumes "\<And>w i v. a \<le> i \<Longrightarrow> i < b \<Longrightarrow> I i v \<Longrightarrow> \<exists>v'. I (Suc i) v' \<and> parses w mem bs (\<lambda>br. body i (c i v br)) (xs i) (c (Suc i) v')"
    and "I a v" "a \<le> b"
  shows "\<exists>v'. I b v' \<and> parses w mem bs (\<lambda>br. for_range a b body (c a v br)) (concat (map xs [a..<b])) (c b v')"
  using assms
proof (induction "b - a" arbitrary: a v w)
  case 0
  then show ?case by (auto intro: parses_Some exI[of _ v])
next
  case (Suc d)
  then have "a < b" by simp
  with Suc.prems(1)[of a v] Suc.prems(2) obtain v1 where v1: "I (Suc a) v1" "parses w mem bs (\<lambda>br. body a (c a v br)) (xs a) (c (Suc a) v1)"
    by blast
  have "\<exists>v'. I b v' \<and> parses (w \<or> xs a \<noteq> []) mem bs (\<lambda>br. for_range (Suc a) b body (c (Suc a) v1 br)) (concat (map xs [Suc a..<b])) (c b v')"
    using Suc.hyps(2) \<open>a < b\<close> v1(1) Suc.prems(1) by (intro Suc.hyps(1)) auto
  then obtain v' where "I b v'" "parses (w \<or> xs a \<noteq> []) mem bs (\<lambda>br. for_range (Suc a) b body (c (Suc a) v1 br)) (concat (map xs [Suc a..<b])) (c b v')"
    by blast
  with parses_bind[OF v1(2) this(2)] \<open>a < b\<close> show ?case by (auto simp: for_range_step upt_conv_Cons)
qed

text \<open>The modes above, to the left and inside of a macroblock as functions of row and column.\<close>

definition i4_probas :: "int \<Rightarrow> int \<Rightarrow> int list" where
  "i4_probas t l = dec_kBModesProba ! nat t ! nat l"

definition i4_symbols_at :: "(nat \<Rightarrow> int) \<Rightarrow> (nat \<Rightarrow> int) \<Rightarrow> (nat \<Rightarrow> nat \<Rightarrow> int) \<Rightarrow> nat \<Rightarrow> nat \<Rightarrow> symbol list" where
  "i4_symbols_at T L G y x =
     i4_symbols (i4_probas (if y = 0 then T x else G (y - 1) x) (if x = 0 then L y else G y (x - 1))) (G y x)"

definition i4_block_symbols :: "(nat \<Rightarrow> int) \<Rightarrow> (nat \<Rightarrow> int) \<Rightarrow> (nat \<Rightarrow> nat \<Rightarrow> int) \<Rightarrow> symbol list" where
  "i4_block_symbols T L G = concat (map (\<lambda>y. concat (map (i4_symbols_at T L G y) [0..<4])) [0..<4])"

abbreviation mode_ok :: "int \<Rightarrow> bool" where
  "mode_ok m \<equiv> 0 \<le> m \<and> m < 10"

lemma mode_rows: "mode_ok t \<Longrightarrow> ld dec_kBModesProba t = Some (dec_kBModesProba ! nat t)" "length dec_kBModesProba = 10"
  "mode_ok t \<Longrightarrow> length (dec_kBModesProba ! nat t) = 10"
  "mode_ok t \<Longrightarrow> mode_ok l \<Longrightarrow> ld (dec_kBModesProba ! nat t) l = Some (i4_probas t l)"
  "mode_ok t \<Longrightarrow> mode_ok l \<Longrightarrow> mode_probas (i4_probas t l)"
proof -
  show l: "length dec_kBModesProba = 10" using mode_shape by (simp add: shape4_def)
  have r: "length (dec_kBModesProba ! nat t) = 10 \<and> (\<forall>pb\<in>set (dec_kBModesProba ! nat t). mode_probas pb)" if "mode_ok t" for t
  proof -
    have "dec_kBModesProba ! nat t \<in> set dec_kBModesProba" using that l by (intro nth_mem) linarith
    then show ?thesis using mode_shape unfolding shape4_def mode_probas_def by simp
  qed
  show "mode_ok t \<Longrightarrow> length (dec_kBModesProba ! nat t) = 10" using r by blast
  show "mode_ok t \<Longrightarrow> ld dec_kBModesProba t = Some (dec_kBModesProba ! nat t)" using l by (simp add: ld_def)
  show "mode_ok t \<Longrightarrow> mode_ok l \<Longrightarrow> ld (dec_kBModesProba ! nat t) l = Some (i4_probas t l)"
    using r[of t] by (simp add: ld_def i4_probas_def)
  show "mode_probas (i4_probas t l)" if "mode_ok t" "mode_ok l"
  proof -
    have "nat l < length (dec_kBModesProba ! nat t)" using r[OF that(1)] that(2) by linarith
    then show ?thesis using r[OF that(1)] by (simp add: i4_probas_def)
  qed
qed

text \<open>The modes around position \<open>p\<close> of the encoder's array.\<close>

definition mode_at :: "EncModes \<Rightarrow> int \<Rightarrow> nat \<Rightarrow> nat \<Rightarrow> int" where
  "mode_at em p y x = em_preds em ! nat (p + int y * em_preds_w em + int x)"

definition mode_above :: "EncModes \<Rightarrow> int \<Rightarrow> nat \<Rightarrow> int" where
  "mode_above em p x = em_preds em ! nat (p - em_preds_w em + int x)"

definition mode_beside :: "EncModes \<Rightarrow> int \<Rightarrow> nat \<Rightarrow> int" where
  "mode_beside em p y = em_preds em ! nat (p + int y * em_preds_w em - 1)"

definition around_ok :: "EncModes \<Rightarrow> int \<Rightarrow> bool" where
  "around_ok em p \<longleftrightarrow> 1 \<le> em_preds_w em \<and> em_preds_w em \<le> p \<and> p + 3 * em_preds_w em + 3 < int (length (em_preds em)) \<and>
     (\<forall>m\<in>set (em_preds em). mode_ok m)"

lemma around_lds:
  assumes "around_ok em p" "y < 4" "x < 4"
  shows "ld (em_preds em) (p + int y * em_preds_w em + int x) = Some (mode_at em p y x)" "mode_ok (mode_at em p y x)"
    "ld (em_preds em) (p - em_preds_w em + int x) = Some (mode_above em p x)" "mode_ok (mode_above em p x)"
    "ld (em_preds em) (p + int y * em_preds_w em - 1) = Some (mode_beside em p y)" "mode_ok (mode_beside em p y)"
proof -
  define k where "k = int y * em_preds_w em"
  have "int y \<le> 3" using assms(2) by simp
  then have k: "k \<le> 3 * em_preds_w em" "0 \<le> k"
    unfolding k_def using assms(1) unfolding around_ok_def by (intro mult_right_mono mult_nonneg_nonneg, auto)+
  from assms(1,3) k have "0 \<le> p + int y * em_preds_w em + int x" "p + int y * em_preds_w em + int x < int (length (em_preds em))"
    "0 \<le> p - em_preds_w em + int x" "p - em_preds_w em + int x < int (length (em_preds em))"
    "0 \<le> p + int y * em_preds_w em - 1" "p + int y * em_preds_w em - 1 < int (length (em_preds em))"
    unfolding k_def [symmetric] around_ok_def by linarith+
  moreover have "mode_ok (em_preds em ! nat k)" if "0 \<le> k" "k < int (length (em_preds em))" for k
    using assms(1) that unfolding around_ok_def by simp
  ultimately show "ld (em_preds em) (p + int y * em_preds_w em + int x) = Some (mode_at em p y x)" "mode_ok (mode_at em p y x)"
    "ld (em_preds em) (p - em_preds_w em + int x) = Some (mode_above em p x)" "mode_ok (mode_above em p x)"
    "ld (em_preds em) (p + int y * em_preds_w em - 1) = Some (mode_beside em p y)" "mode_ok (mode_beside em p y)"
    by (auto simp: ld_def mode_at_def mode_above_def mode_beside_def)
qed

lemma emits_put_i4_modes:
  assumes ok: "around_ok em p"
  shows "emits malloc e (put_i4_modes malloc em p) (i4_block_symbols (mode_above em p) (mode_beside em p) (mode_at em p)) (\<lambda>bw. bw)"
proof -
  let ?T = "mode_above em p" and ?L = "mode_beside em p" and ?G = "mode_at em p" and ?w = "em_preds_w em"
  let ?lft = "\<lambda>y x. if x = 0 then ?L y else ?G y (x - 1)"
  let ?tp = "\<lambda>y x. if y = 0 then ?T x else ?G (y - 1) x"
  note l = around_lds[OF ok]
  have step: "emits malloc e (\<lambda>bw. do {
               t \<leftarrow> ld (em_preds em) (p + (int y - 1) * ?w + int x);
               rows \<leftarrow> ld enc_kBModesProba t;
               probas \<leftarrow> ld rows (?lft y x);
               m \<leftarrow> ld (em_preds em) (p + int y * ?w + int x);
               PutI4Mode malloc m probas bw }) (i4_symbols_at ?T ?L ?G y x) (Pair (?lft y (Suc x)))" if "y < 4" "x < 4" for y x
  proof -
    have t: "ld (em_preds em) (p + (int y - 1) * ?w + int x) = Some (?tp y x)"
    proof (cases y)
      case (Suc y')
      then show ?thesis using l(1)[of y' x] that by simp
    qed (use l(3)[of y x] that in \<open>simp add: algebra_simps\<close>)
    have m: "mode_ok (?tp y x)" "mode_ok (?lft y x)" "mode_ok (?G y x)" using l(2,4,6) that by auto
    show ?thesis
      unfolding t l(1)[OF that] Option.bind.simps mode_tables mode_rows(1)[OF m(1)] mode_rows(4)[OF m(1,2)] i4_symbols_at_def
      using emits_PutI4Mode[OF mode_rows(5)[OF m(1,2)]] m(3) by simp
  qed
  have row: "emits malloc e (\<lambda>bw. do {
          lft \<leftarrow> ld (em_preds em) (p + int y * ?w - 1);
          (_, bw) \<leftarrow> for_range 0 4
            (\<lambda>x (lft, bw). do {
               t \<leftarrow> ld (em_preds em) (p + (int y - 1) * ?w + int x);
               rows \<leftarrow> ld enc_kBModesProba t;
               probas \<leftarrow> ld rows lft;
               m \<leftarrow> ld (em_preds em) (p + int y * ?w + int x);
               PutI4Mode malloc m probas bw }) (lft, bw);
          Some (p + int y * ?w, p + int y * ?w + ?w, bw) })
      (concat (map (i4_symbols_at ?T ?L ?G y) [0..<4])) (\<lambda>bw. (p + (int (Suc y) - 1) * ?w, p + int (Suc y) * ?w, bw))" if "y < 4" for y
  proof -
    have nx: "(p + (int (Suc y) - 1) * ?w, p + int (Suc y) * ?w, bw) = (p + int y * ?w, p + int y * ?w + ?w, bw)" for bw :: VP8BitWriter
      by (simp add: algebra_simps)
    have "emits malloc e (\<lambda>bw. for_range 0 4
            (\<lambda>x (lft, bw). do {
               t \<leftarrow> ld (em_preds em) (p + (int y - 1) * ?w + int x);
               rows \<leftarrow> ld enc_kBModesProba t;
               probas \<leftarrow> ld rows lft;
               m \<leftarrow> ld (em_preds em) (p + int y * ?w + int x);
               PutI4Mode malloc m probas bw }) (?L y, bw)) (concat (map (i4_symbols_at ?T ?L ?G y) [0..<4])) (Pair (?lft y 4))"
      using emits_for[where r = "\<lambda>x. Pair (?lft y x)" and a = 0 and b = 4] step[OF that] by simp
    then show ?thesis
      unfolding l(5)[OF that that] Option.bind.simps nx by (rule emits_last) simp
  qed
  have "emits malloc e (\<lambda>bw. for_range 0 4
       (\<lambda>y (top_pred, preds, bw). do {
          lft \<leftarrow> ld (em_preds em) (preds - 1);
          (_, bw) \<leftarrow> for_range 0 4
            (\<lambda>x (lft, bw). do {
               t \<leftarrow> ld (em_preds em) (top_pred + int x);
               rows \<leftarrow> ld enc_kBModesProba t;
               probas \<leftarrow> ld rows lft;
               m \<leftarrow> ld (em_preds em) (preds + int x);
               PutI4Mode malloc m probas bw }) (lft, bw);
          Some (preds, preds + em_preds_w em, bw) }) (p - em_preds_w em, p, bw))
    (i4_block_symbols ?T ?L ?G) (\<lambda>bw. (p + (int 4 - 1) * ?w, p + int 4 * ?w, bw))"
    unfolding i4_block_symbols_def
    using emits_for[where r = "\<lambda>y bw. (p + (int y - 1) * ?w, p + int y * ?w, bw)" and a = 0 and b = 4] row by simp
  then show ?thesis unfolding put_i4_modes_def by (rule emits_last) simp
qed

text \<open>The reader's side: the row above is a segment of \<open>intra_t_\<close>.\<close>

lemma memcpy_ok:
  assumes "inb dst p n" "inb src q n"
  shows "memcpy dst p src q n = Some (blit dst p n (\<lambda>j. src ! nat (q + int j)))"
  unfolding memcpy_def by (rule for_range_blit) (use assms in \<open>simp add: ld_inb st_blit\<close>)

lemma memset_ok: "inb xs p n \<Longrightarrow> memset xs p v n = Some (blit xs p n (\<lambda>_. v))"
  unfolding memset_def by (rule for_range_blit) (simp add: st_blit)

lemma parses_get_i4_modes:
  assumes base: "0 \<le> base" "base + 4 \<le> int (length tp)" and len: "length lft = 4" "length modes = 16"
    and G: "\<And>y x. y < 4 \<Longrightarrow> x < 4 \<Longrightarrow> mode_ok (G y x)"
    and T: "\<And>x. x < 4 \<Longrightarrow> tp ! nat (base + int x) = T x \<and> mode_ok (T x)" and L: "\<And>y. y < 4 \<Longrightarrow> lft ! y = L y \<and> mode_ok (L y)"
  shows "\<exists>modes'. length modes' = 16 \<and> (\<forall>y<4. \<forall>x<4. modes' ! (4 * y + x) = G y x) \<and>
    parses w mem bs (\<lambda>br. get_i4_modes mem base (tp, lft, modes, br)) (i4_block_symbols T L G)
      (\<lambda>br. (blit tp base 4 (G 3), map (\<lambda>y. G y 3) [0..<4], modes', br))"
proof -
  let ?tp = "\<lambda>y. if y = 0 then tp else blit tp base 4 (G (y - 1))"
  let ?l = "\<lambda>y x. if x = 0 then L y else G y (x - 1)"
  have inb: "inb tp base 4" using base by (simp add: inb_def)
  have top: "(?tp y) ! nat (base + int x) = (if y = 0 then T x else G (y - 1) x)" if "x < 4" for y x
    using T[OF that] inb that by (auto simp: blit_nth inb_def)
  have t_ok: "mode_ok (if y = 0 then T x else G (y - 1) x)" "mode_ok (?l y x)" if "y < 4" "x < 4" for y x
    using T[of x] L[of y] G[of "y - 1" x] G[of y "x - 1"] that by auto
  have step: "parses w mem bs (\<lambda>br. do {
               t \<leftarrow> ld (blit (?tp y) base x (G y)) (base + int x);
               rows \<leftarrow> ld dec_kBModesProba t;
               pb \<leftarrow> ld rows (?l y x);
               (ymode, br) \<leftarrow> get_i4_mode mem pb br;
               tp \<leftarrow> st (blit (?tp y) base x (G y)) (base + int x) ymode;
               Some (ymode, tp, br) }) (i4_symbols_at T L G y x) (\<lambda>br. (?l y (Suc x), blit (?tp y) base (Suc x) (G y), br))"
    if "y < 4" "x < 4" for w y x
  proof -
    have t: "ld (blit (?tp y) base x (G y)) (base + int x) = Some (if y = 0 then T x else G (y - 1) x)"
      using top[of x y] that inb by (auto simp: ld_blit_out ld_inb)
    have s: "st (blit (?tp y) base x (G y)) (base + int x) (G y x) = Some (blit (?tp y) base (Suc x) (G y))"
      using inb that by (intro st_blit[where n = 4]) auto
    have "parses w mem bs (get_i4_mode mem (i4_probas (if y = 0 then T x else G (y - 1) x) (?l y x))) (i4_symbols_at T L G y x) (Pair (G y x))"
      unfolding i4_symbols_at_def using G[OF that] by (intro parses_get_i4_mode mode_rows(5) t_ok that) auto
    then show ?thesis
      unfolding t Option.bind.simps mode_rows(1)[OF t_ok(1)[OF that]] mode_rows(4)[OF t_ok[OF that]]
      by (rule parses_last) (simp add: s)
  qed
  have row: "\<exists>modes'. (length modes' = 16 \<and> (\<forall>y'<Suc y. \<forall>x<4. modes' ! (4 * y' + x) = G y' x)) \<and>
      parses w mem bs (\<lambda>br. do {
          ymode \<leftarrow> ld (map (\<lambda>y'. if y' < y then G y' 3 else L y') [0..<4]) (int y);
          (ymode, tp, br) \<leftarrow> for_range 0 4
            (\<lambda>x (ymode, tp, br). do {
               t \<leftarrow> ld tp (base + int x);
               rows \<leftarrow> ld dec_kBModesProba t;
               pb \<leftarrow> ld rows ymode;
               (ymode, br) \<leftarrow> get_i4_mode mem pb br;
               tp \<leftarrow> st tp (base + int x) ymode;
               Some (ymode, tp, br) }) (ymode, ?tp y, br);
          modes \<leftarrow> memcpy modes (4 * int y) tp base 4;
          lft \<leftarrow> st (map (\<lambda>y'. if y' < y then G y' 3 else L y') [0..<4]) (int y) ymode;
          Some (tp, lft, modes, br) })
       (concat (map (i4_symbols_at T L G y) [0..<4]))
       (\<lambda>br. (?tp (Suc y), map (\<lambda>y'. if y' < Suc y then G y' 3 else L y') [0..<4], modes', br))"
    if y: "y < 4" and m: "length modes = 16 \<and> (\<forall>y'<y. \<forall>x<4. modes ! (4 * y' + x) = G y' x)" for w y modes
  proof -
    have bb: "blit (?tp y) base 4 (G y) = ?tp (Suc y)" by (rule nth_equalityI) (auto simp: blit_nth)
    let ?m = "blit modes (4 * int y) 4 (\<lambda>j. ?tp (Suc y) ! nat (base + int j))"
    have "inb modes (4 * int y) 4" "inb (?tp (Suc y)) base 4" using m y inb by (auto simp: inb_def)
    then have cp: "memcpy modes (4 * int y) (?tp (Suc y)) base 4 = Some ?m" by (rule memcpy_ok)
    have ll: "ld (map (\<lambda>y'. if y' < y then G y' 3 else L y') [0..<4]) (int y) = Some (L y)" using y by (simp add: ld_nat del: upt_Suc)
    have sl: "st (map (\<lambda>y'. if y' < y then G y' 3 else L y') [0..<4]) (int y) (G y 3) = Some (map (\<lambda>y'. if y' < Suc y then G y' 3 else L y') [0..<4])"
      using y by (auto simp: st_nat less_Suc_eq intro!: nth_equalityI simp del: upt_Suc simp: nth_list_update)
    have "parses w mem bs (\<lambda>br. for_range 0 4
            (\<lambda>x (ymode, tp, br). do {
               t \<leftarrow> ld tp (base + int x);
               rows \<leftarrow> ld dec_kBModesProba t;
               pb \<leftarrow> ld rows ymode;
               (ymode, br) \<leftarrow> get_i4_mode mem pb br;
               tp \<leftarrow> st tp (base + int x) ymode;
               Some (ymode, tp, br) }) (L y, ?tp y, br)) (concat (map (i4_symbols_at T L G y) [0..<4])) (\<lambda>br. (G y 3, ?tp (Suc y), br))"
      using parses_for[where r = "\<lambda>x br. (?l y x, blit (?tp y) base x (G y), br)" and a = 0 and b = 4] step[OF y]
      by (simp add: bb)
    then have "parses w mem bs (\<lambda>br. do {
          ymode \<leftarrow> ld (map (\<lambda>y'. if y' < y then G y' 3 else L y') [0..<4]) (int y);
          (ymode, tp, br) \<leftarrow> for_range 0 4
            (\<lambda>x (ymode, tp, br). do {
               t \<leftarrow> ld tp (base + int x);
               rows \<leftarrow> ld dec_kBModesProba t;
               pb \<leftarrow> ld rows ymode;
               (ymode, br) \<leftarrow> get_i4_mode mem pb br;
               tp \<leftarrow> st tp (base + int x) ymode;
               Some (ymode, tp, br) }) (ymode, ?tp y, br);
          modes \<leftarrow> memcpy modes (4 * int y) tp base 4;
          lft \<leftarrow> st (map (\<lambda>y'. if y' < y then G y' 3 else L y') [0..<4]) (int y) ymode;
          Some (tp, lft, modes, br) })
       (concat (map (i4_symbols_at T L G y) [0..<4]))
       (\<lambda>br. (?tp (Suc y), map (\<lambda>y'. if y' < Suc y then G y' 3 else L y') [0..<4], ?m, br))"
      unfolding ll Option.bind.simps by (rule parses_last) (simp only: prod.case cp sl Option.bind.simps)
    moreover have "length ?m = 16 \<and> (\<forall>y'<Suc y. \<forall>x<4. ?m ! (4 * y' + x) = G y' x)"
      using m y top[of _ "Suc y"] by (auto simp: blit_nth less_Suc_eq)
    ultimately show ?thesis by blast
  qed
  have l0: "map (\<lambda>y'. if y' < 0 then G y' 3 else L y') [0..<4] = lft"
    using len(1) L by (intro nth_equalityI) auto
  have l4: "map (\<lambda>y'. if y' < 4 then G y' 3 else L y') [0..<4] = map (\<lambda>y. G y 3) [0..<4]" by (simp add: upt_conv_Cons)
  have "\<exists>modes'. (length modes' = 16 \<and> (\<forall>y'<4. \<forall>x<4. modes' ! (4 * y' + x) = G y' x)) \<and>
      parses w mem bs (\<lambda>br. get_i4_modes mem base (?tp 0, map (\<lambda>y'. if y' < 0 then G y' 3 else L y') [0..<4], modes, br)) (i4_block_symbols T L G)
        (\<lambda>br. (?tp 4, map (\<lambda>y'. if y' < 4 then G y' 3 else L y') [0..<4], modes', br))"
    unfolding i4_block_symbols_def get_i4_modes_def
    by (rule parses_for_inv[where I = "\<lambda>y modes. length modes = 16 \<and> (\<forall>y'<y. \<forall>x<4. modes ! (4 * y' + x) = G y' x)"
        and c = "\<lambda>y modes br. (?tp y, map (\<lambda>y'. if y' < y then G y' 3 else L y') [0..<4], modes, br)"])
      (use row len(2) in \<open>auto simp only: prod.case\<close>)
  then show ?thesis unfolding l0 l4 by simp
qed

subsection \<open>The other elements of a macroblock\<close>

definition segment_id_symbols :: "int list \<Rightarrow> int \<Rightarrow> symbol list" where
  "segment_id_symbols ps s = [(s \<ge> 2, ps ! 0), (odd s, ps ! (if s \<ge> 2 then 2 else 1))]"

definition i16_symbols :: "int \<Rightarrow> symbol list" where
  "i16_symbols m = (m = TM_PRED \<or> m = H_PRED, 156) # (if m = TM_PRED \<or> m = H_PRED then [(m = TM_PRED, 128)] else [(m = V_PRED, 163)])"

definition uv_symbols :: "int \<Rightarrow> symbol list" where
  "uv_symbols m = (m \<noteq> DC_PRED, 142) # (if m \<noteq> DC_PRED then (m \<noteq> V_PRED, 114) # (if m \<noteq> V_PRED then [(m \<noteq> H_PRED, 183)] else []) else [])"

lemma four_cases: "0 \<le> m \<Longrightarrow> m < 4 \<Longrightarrow> m = 0 \<or> m = 1 \<or> m = 2 \<or> m = 3" for m :: int
  by presburger

lemma emits_PutSegment:
  assumes "length ps = 3" "\<forall>p\<in>set ps. 0 \<le> p \<and> p < 256" "0 \<le> s" "s < 4"
  shows "emits malloc e (PutSegment malloc s ps) (segment_id_symbols ps s) (\<lambda>bw. bw)"
proof -
  have ps: "0 \<le> ps ! i \<and> ps ! i < 256" if "i < 3" for i using assms(1,2) that by simp
  note l = ps[of 0] ps[of 1] ps[of 2]
  show ?thesis
    unfolding PutSegment_def segment_id_symbols_def using four_cases[OF assms(3,4)] assms(1) l
    by (elim disjE; simp add: ld_def) (intro emits_bit emits_Some; simp add: ld_def)+
qed

lemma parses_get_segment:
  assumes "length ps = 3" "0 \<le> s" "s < 4"
  shows "parses w mem bs (get_segment mem ps) (segment_id_symbols ps s) (Pair s)"
proof -
  have l: "ld ps 0 = Some (ps ! 0)" "ld ps 1 = Some (ps ! 1)" "ld ps 2 = Some (ps ! 2)" using assms(1) by (simp_all add: ld_def)
  have bit: "of_bool (odd s) = (if s \<ge> 2 then s - 2 else s)" using four_cases[OF assms(2,3)] by auto
  show ?thesis
  proof (cases "s \<ge> 2")
    case True
    have "parses True mem bs (\<lambda>br. VP8GetBit mem br (ps ! 2) \<bind> (\<lambda>(s, br). Some (s + 2, br))) [(odd s, ps ! 2)] (Pair s)"
      by (rule parses_last[OF parses_GetBit]) (use True bit in simp)
    with True show ?thesis unfolding get_segment_def segment_id_symbols_def l Option.bind.simps by (intro parses_bit) simp
  next
    case False
    have "parses True mem bs (\<lambda>br. VP8GetBit mem br (ps ! 1)) [(odd s, ps ! 1)] (Pair s)"
      using parses_GetBit[of True mem bs "ps ! 1" "odd s"] bit False by simp
    with False show ?thesis unfolding get_segment_def segment_id_symbols_def l Option.bind.simps by (intro parses_bit) simp
  qed
qed

lemma emits_PutI16Mode: "0 \<le> m \<Longrightarrow> m < 4 \<Longrightarrow> emits malloc e (PutI16Mode malloc m) (i16_symbols m) (\<lambda>bw. bw)"
  unfolding PutI16Mode_def i16_symbols_def by (drule (1) four_cases, elim disjE; simp) (intro emits_bit emits_Some; simp)+

lemma parses_get_i16_mode: "0 \<le> m \<Longrightarrow> m < 4 \<Longrightarrow> parses w mem bs (get_i16_mode mem) (i16_symbols m) (Pair m)"
  unfolding get_i16_mode_def i16_symbols_def by (drule (1) four_cases, elim disjE; simp) (rule parses_bit, simp, rule parses_last[OF parses_GetBit]; simp)+

lemma emits_PutUVMode: "0 \<le> m \<Longrightarrow> m < 4 \<Longrightarrow> emits malloc e (PutUVMode malloc m) (uv_symbols m) (\<lambda>bw. bw)"
  unfolding PutUVMode_def uv_symbols_def by (drule (1) four_cases, elim disjE; simp) (intro emits_bit emits_Some; simp?)+

lemma parses_get_uv_mode: "0 \<le> m \<Longrightarrow> m < 4 \<Longrightarrow> parses w mem bs (get_uv_mode mem) (uv_symbols m) (Pair m)"
  unfolding get_uv_mode_def uv_symbols_def
  by (drule (1) four_cases, elim disjE; simp) ((rule parses_bit, simp)+, (rule parses_Some | rule parses_last[OF parses_GetBit], simp))+

subsection \<open>The array of modes\<close>

text \<open>
  What the encoder keeps about the modes: the array has a border of DC modes above and to the left, and a
  macroblock predicted as a whole has its mode in all of its sixteen places.
\<close>

definition mb_pos :: "EncModes \<Rightarrow> nat \<Rightarrow> nat \<Rightarrow> int" where
  "mb_pos em Y X = em_preds_base em + int Y * 4 * em_preds_w em + int X * 4"

definition mb_fields_ok :: "VP8MBInfo \<Rightarrow> bool" where
  "mb_fields_ok mb \<longleftrightarrow> (mb_type mb = 0 \<or> mb_type mb = 1) \<and> 0 \<le> uv_mode mb \<and> uv_mode mb < 4 \<and>
     (mb_skip mb = 0 \<or> mb_skip mb = 1) \<and> 0 \<le> mb_segment mb \<and> mb_segment mb < 4"

definition modes_ok :: "EncModes \<Rightarrow> bool" where
  "modes_ok em \<longleftrightarrow> 0 < em_mb_w em \<and> 0 < em_mb_h em \<and> em_preds_w em = 4 * em_mb_w em + 1 \<and>
     em_preds_base em = em_preds_w em + 1 \<and> int (length (em_preds em)) = em_preds_w em * (4 * em_mb_h em + 1) \<and>
     int (length (em_mb_info em)) = em_mb_w em * em_mb_h em \<and> int (length (em_nz em)) = em_mb_w em + 1 \<and>
     (\<forall>m\<in>set (em_preds em). mode_ok m) \<and> (\<forall>mb\<in>set (em_mb_info em). mb_fields_ok mb) \<and>
     (\<forall>x<nat (em_mb_w em) * 4. mode_above em (em_preds_base em) x = B_DC_PRED) \<and>
     (\<forall>y<nat (em_mb_h em) * 4. mode_beside em (em_preds_base em) y = B_DC_PRED) \<and>
     (\<forall>Y X. Y < nat (em_mb_h em) \<longrightarrow> X < nat (em_mb_w em) \<longrightarrow> mb_type (em_mb_info em ! (Y * nat (em_mb_w em) + X)) = 1 \<longrightarrow>
        (\<exists>m<4. \<forall>y<4. \<forall>x<4. mode_at em (mb_pos em Y X) y x = m))"

lemma modes_okD:
  assumes "modes_ok em" "Y < nat (em_mb_h em)" "X < nat (em_mb_w em)"
  shows "around_ok em (mb_pos em Y X)"
    "ld (em_mb_info em) (int (Y * nat (em_mb_w em) + X)) = Some (em_mb_info em ! (Y * nat (em_mb_w em) + X))"
    "mb_fields_ok (em_mb_info em ! (Y * nat (em_mb_w em) + X))"
    "mb_type (em_mb_info em ! (Y * nat (em_mb_w em) + X)) = 1 \<Longrightarrow>
       mode_at em (mb_pos em Y X) 0 0 < 4 \<and> (\<forall>y<4. \<forall>x<4. mode_at em (mb_pos em Y X) y x = mode_at em (mb_pos em Y X) 0 0)"
proof -
  define W H where "W = nat (em_mb_w em)" and "H = nat (em_mb_h em)"
  have W: "em_mb_w em = int W" "em_mb_h em = int H" "0 < W" "0 < H" using assms(1) by (auto simp: modes_ok_def W_def H_def)
  have YX: "Y < H" "X < W" using assms by (simp_all add: W_def H_def)
  have pw: "em_preds_w em = 4 * int W + 1" "em_preds_base em = em_preds_w em + 1" "int (length (em_preds em)) = (4 * int W + 1) * (4 * int H + 1)"
    using assms(1) W by (auto simp: modes_ok_def)
  have "4 * int W + 1 + 1 + int Y * 4 * (4 * int W + 1) + int X * 4 + 3 * (4 * int W + 1) + 3 < (4 * int W + 1) * (4 * int H + 1)"
  proof -
    have "(int Y + 1) * (4 * (4 * int W + 1)) \<le> int H * (4 * (4 * int W + 1))" using YX by (intro mult_right_mono) auto
    moreover have "int X + 1 \<le> int W" using YX by simp
    ultimately show ?thesis by (simp add: algebra_simps)
  qed
  moreover have "0 \<le> int Y * 4 * (4 * int W + 1)" by simp
  moreover have "\<forall>m\<in>set (em_preds em). mode_ok m" using assms(1) by (simp add: modes_ok_def)
  ultimately show "around_ok em (mb_pos em Y X)"
    unfolding around_ok_def mb_pos_def pw(2,3) pw(1) by (intro conjI) (linarith | assumption)+
  have "int (length (em_mb_info em)) = int (W * H)" using assms(1) W by (simp add: modes_ok_def)
  then have l: "length (em_mb_info em) = W * H" by linarith
  have "Y * W + X < W * H"
  proof -
    have "Y * W + W \<le> H * W" using YX mult_le_mono1[of "Suc Y" H W] by simp
    then show ?thesis using YX by (simp add: mult.commute)
  qed
  then show "ld (em_mb_info em) (int (Y * nat (em_mb_w em) + X)) = Some (em_mb_info em ! (Y * nat (em_mb_w em) + X))"
    "mb_fields_ok (em_mb_info em ! (Y * nat (em_mb_w em) + X))"
    using l assms(1) unfolding W_def[symmetric] by (simp_all add: ld_nat modes_ok_def del: of_nat_add of_nat_mult)
  show "mb_type (em_mb_info em ! (Y * nat (em_mb_w em) + X)) = 1 \<Longrightarrow>
       mode_at em (mb_pos em Y X) 0 0 < 4 \<and> (\<forall>y<4. \<forall>x<4. mode_at em (mb_pos em Y X) y x = mode_at em (mb_pos em Y X) 0 0)"
    using assms unfolding modes_ok_def by fastforce
qed

text \<open>The neighbours of a macroblock are places of other macroblocks, or of the border.\<close>

lemma neighbours:
  assumes "modes_ok em" "Y < nat (em_mb_h em)" "X < nat (em_mb_w em)"
  shows "x < 4 \<Longrightarrow> mode_above em (mb_pos em Y X) x = (if Y = 0 then B_DC_PRED else mode_at em (mb_pos em (Y - 1) X) 3 x)"
    "y < 4 \<Longrightarrow> mode_beside em (mb_pos em Y X) y = (if X = 0 then B_DC_PRED else mode_at em (mb_pos em Y (X - 1)) y 3)"
proof -
  show "mode_above em (mb_pos em Y X) x = (if Y = 0 then B_DC_PRED else mode_at em (mb_pos em (Y - 1) X) 3 x)" if "x < 4"
  proof (cases Y)
    case 0
    have "X * 4 + x < nat (em_mb_w em) * 4" using that assms(3) by simp
    then have "mode_above em (em_preds_base em) (X * 4 + x) = B_DC_PRED" using assms(1) unfolding modes_ok_def by blast
    then show ?thesis using 0 by (simp add: mode_above_def mb_pos_def algebra_simps)
  qed (simp add: mode_above_def mode_at_def mb_pos_def algebra_simps)
  show "mode_beside em (mb_pos em Y X) y = (if X = 0 then B_DC_PRED else mode_at em (mb_pos em Y (X - 1)) y 3)" if "y < 4"
  proof (cases X)
    case 0
    have "Y * 4 + y < nat (em_mb_h em) * 4" using that assms(2) by simp
    then have "mode_beside em (em_preds_base em) (Y * 4 + y) = B_DC_PRED" using assms(1) unfolding modes_ok_def by blast
    then show ?thesis using 0 by (simp add: mode_beside_def mb_pos_def algebra_simps)
  qed (simp add: mode_beside_def mode_at_def mb_pos_def algebra_simps)
qed

subsection \<open>Writing the modes of a macroblock\<close>

definition mode_symbols :: "VP8Encoder \<Rightarrow> EncModes \<Rightarrow> nat \<Rightarrow> nat \<Rightarrow> symbol list" where
  "mode_symbols enc em Y X =
     (let mb = em_mb_info em ! (Y * nat (em_mb_w em) + X); p = mb_pos em Y X
      in (if e_update_map (e_segment_hdr enc) \<noteq> 0 then segment_id_symbols (e_segments (e_proba enc)) (mb_segment mb) else []) @
         (if e_use_skip_proba (e_proba enc) \<noteq> 0 then [(mb_skip mb \<noteq> 0, e_skip_proba (e_proba enc))] else []) @
         (mb_type mb \<noteq> 0, 145) #
         (if mb_type mb \<noteq> 0 then i16_symbols (mode_at em p 0 0) else i4_block_symbols (mode_above em p) (mode_beside em p) (mode_at em p)) @
         uv_symbols (uv_mode mb))"

definition mode_probas_ok :: "VP8Encoder \<Rightarrow> bool" where
  "mode_probas_ok enc \<longleftrightarrow> length (e_segments (e_proba enc)) = 3 \<and> (\<forall>p\<in>set (e_segments (e_proba enc)). 0 \<le> p \<and> p < 256) \<and>
     0 \<le> e_skip_proba (e_proba enc) \<and> e_skip_proba (e_proba enc) < 256"

text \<open>The iterator at a macroblock.\<close>

definition it_at :: "EncModes \<Rightarrow> nat \<Rightarrow> nat \<Rightarrow> VP8EncIterator \<Rightarrow> bool" where
  "it_at em Y X it \<longleftrightarrow> it_x it = int X \<and> it_y it = int Y \<and> it_preds it = mb_pos em Y X \<and> it_nz it = 1 + int X \<and>
     it_mb it = int (Y * nat (em_mb_w em) + X) \<and>
     it_count_down it = int (nat (em_mb_w em) * nat (em_mb_h em)) - int (Y * nat (em_mb_w em) + X) \<and>
     length (it_top_nz it) = 9 \<and> length (it_left_nz it) = 9"

lemma emits_code_intra_mode:
  assumes ok: "modes_ok em" "mode_probas_ok enc" and YX: "Y < nat (em_mb_h em)" "X < nat (em_mb_w em)" and it: "it_at em Y X it"
  shows "emits malloc e (code_intra_mode malloc enc em it) (mode_symbols enc em Y X) (\<lambda>bw. bw)"
proof -
  let ?mb = "em_mb_info em ! (Y * nat (em_mb_w em) + X)" and ?p = "mb_pos em Y X"
  have l: "ld (em_mb_info em) (it_mb it) = Some ?mb" using modes_okD(2)[OF ok(1) YX] it by (simp add: it_at_def)
  have mb: "mb_type ?mb = 0 \<or> mb_type ?mb = 1" "0 \<le> uv_mode ?mb" "uv_mode ?mb < 4" "0 \<le> mb_segment ?mb" "mb_segment ?mb < 4"
    using modes_okD(3)[OF ok(1) YX] by (auto simp: mb_fields_ok_def)
  have pr: "length (e_segments (e_proba enc)) = 3" "\<forall>p\<in>set (e_segments (e_proba enc)). 0 \<le> p \<and> p < 256"
    "0 \<le> e_skip_proba (e_proba enc)" "e_skip_proba (e_proba enc) < 256" using ok(2) by (auto simp: mode_probas_ok_def)
  note ar = modes_okD(1)[OF ok(1) YX]
  have p: "it_preds it = ?p" using it by (simp add: it_at_def)
  have m: "ld (em_preds em) ?p = Some (mode_at em ?p 0 0)" "mode_ok (mode_at em ?p 0 0)" using around_lds(1,2)[OF ar, of 0 0] by simp_all
  have modes: "emits malloc e (\<lambda>bw. if (if mb_type ?mb \<noteq> 0 then (1 :: int) else 0) \<noteq> 0 then ld (em_preds em) ?p \<bind> (\<lambda>m. PutI16Mode malloc m bw)
         else put_i4_modes malloc em ?p bw)
       (if mb_type ?mb \<noteq> 0 then i16_symbols (mode_at em ?p 0 0) else i4_block_symbols (mode_above em ?p) (mode_beside em ?p) (mode_at em ?p)) (\<lambda>bw. bw)"
  proof (cases "mb_type ?mb = 0")
    case True
    then show ?thesis using emits_put_i4_modes[OF ar] by simp
  next
    case False
    then have "mode_at em ?p 0 0 < 4" using modes_okD(4)[OF ok(1) YX] mb(1) by blast
    then show ?thesis using False emits_PutI16Mode[of "mode_at em ?p 0 0"] m by simp
  qed
  have skip: "emits malloc e (\<lambda>bw. if e_use_skip_proba (e_proba enc) \<noteq> 0
            then do { (_, bw) \<leftarrow> VP8PutBit malloc bw (mb_skip ?mb) (e_skip_proba (e_proba enc)); Some bw } else Some bw)
      (if e_use_skip_proba (e_proba enc) \<noteq> 0 then [(mb_skip ?mb \<noteq> 0, e_skip_proba (e_proba enc))] else []) (\<lambda>bw. bw)"
    by (intro emits_if emits_bit emits_Some) (use pr emits_Some[of malloc e "\<lambda>bw. bw"] in simp_all)
  have seg: "emits malloc e (\<lambda>bw. if e_update_map (e_segment_hdr enc) \<noteq> 0 then PutSegment malloc (mb_segment ?mb) (e_segments (e_proba enc)) bw else Some bw)
      (if e_update_map (e_segment_hdr enc) \<noteq> 0 then segment_id_symbols (e_segments (e_proba enc)) (mb_segment ?mb) else []) (\<lambda>bw. bw)"
    by (intro emits_if emits_PutSegment emits_Some pr mb)
  have t: "(of_bool (mb_type ?mb \<noteq> 0) :: int) = (if mb_type ?mb \<noteq> 0 then 1 else 0)" by simp
  show ?thesis
    unfolding code_intra_mode_def mode_symbols_def Let_def l Option.bind.simps p
    apply (rule emits_bind[OF seg])
    apply (rule emits_bind[OF skip])
    apply (rule emits_bit, simp, simp, simp)
    apply (simp only: prod.case t)
    apply (rule emits_bind[OF modes])
    by (rule emits_PutUVMode[OF mb(2,3)])
qed

text \<open>The iterator visits the macroblocks in raster order.\<close>

lemma VP8IteratorInit_at:
  assumes "modes_ok em" "length (it_top_nz it) = 9" "length (it_left_nz it) = 9"
  shows "\<exists>it'. VP8IteratorInit em it = Some (em\<lparr>em_nz := blit (em_nz em) 1 (nat (em_mb_w em)) (\<lambda>_. 0)\<rparr>, it') \<and> it_at em 0 0 it'"
proof -
  have "inb (em_nz em) 1 (nat (em_mb_w em))" "0 < em_mb_w em" "0 < em_mb_h em" using assms(1) by (auto simp: inb_def modes_ok_def)
  with assms(2,3) show ?thesis
    by (simp add: VP8IteratorInit_def VP8IteratorReset_def VP8IteratorSetRow_def InitLeft_def InitTop_def memset_ok st_def
        VP8IteratorSetCountDown_def it_at_def mb_pos_def)
qed

lemma VP8IteratorNext_at:
  assumes "modes_ok em" "X < nat (em_mb_w em)" "it_at em Y X it"
  shows "\<exists>it'. VP8IteratorNext em it = Some (Suc (Y * nat (em_mb_w em) + X) < nat (em_mb_w em) * nat (em_mb_h em), it') \<and>
    (if Suc X = nat (em_mb_w em) then it_at em (Suc Y) 0 it' else it_at em Y (Suc X) it')"
proof -
  have W: "em_mb_w em = int (nat (em_mb_w em))" "em_mb_h em = int (nat (em_mb_h em))" using assms(1) by (auto simp: modes_ok_def)
  define k where "k = it_count_down it - 1"
  have k: "0 < k \<longleftrightarrow> Suc (Y * nat (em_mb_w em) + X) < nat (em_mb_w em) * nat (em_mb_h em)"
    using assms(3) unfolding k_def it_at_def by linarith
  have kv: "k = int (nat (em_mb_w em) * nat (em_mb_h em)) - (int (Y * nat (em_mb_w em) + X) + 1)"
    using assms(3) unfolding k_def it_at_def by linarith
  show ?thesis
  proof (cases "Suc X = nat (em_mb_w em)")
    case True
    then have "it_x it + 1 = em_mb_w em" using assms(3) by (simp add: it_at_def)
    then show ?thesis
      using assms(3) True k kv by (auto simp: VP8IteratorNext_def VP8IteratorSetRow_def InitLeft_def st_def it_at_def mb_pos_def k_def algebra_simps)
  next
    case False
    then have "it_x it + 1 \<noteq> em_mb_w em" using assms(2,3) by (auto simp: it_at_def)
    then show ?thesis
      using assms(3) False k kv by (auto simp: VP8IteratorNext_def it_at_def mb_pos_def k_def algebra_simps)
  qed
qed

definition all_mode_symbols :: "VP8Encoder \<Rightarrow> EncModes \<Rightarrow> nat \<Rightarrow> symbol list" where
  "all_mode_symbols enc em n = concat (map (\<lambda>k. mode_symbols enc em (k div nat (em_mb_w em)) (k mod nat (em_mb_w em))) [n..<nat (em_mb_w em) * nat (em_mb_h em)])"

lemma raster:
  assumes "X < (W :: nat)" "Y < H"
  shows "(Y * W + X) div W = Y" "(Y * W + X) mod W = X" "Y * W + X < W * H" "Suc X = W \<Longrightarrow> Suc (Y * W + X) = Suc Y * W"
proof -
  have "Y * W + W \<le> H * W" using assms mult_le_mono1[of "Suc Y" H W] by simp
  then show "Y * W + X < W * H" using assms(1) by (simp add: mult.commute)
qed (use assms in simp_all)

lemma emits_code_intra_modes:
  assumes "modes_ok em" "mode_probas_ok enc" "Y < nat (em_mb_h em)" "X < nat (em_mb_w em)" "it_at em Y X it"
  shows "emits malloc e (code_intra_modes malloc enc em it) (all_mode_symbols enc em (Y * nat (em_mb_w em) + X)) (\<lambda>bw. bw)"
  using assms
proof (induction "nat (em_mb_w em) * nat (em_mb_h em) - (Y * nat (em_mb_w em) + X)" arbitrary: Y X it)
  case 0
  then show ?case using raster(3)[OF 0(5,4)] by simp
next
  case (Suc k)
  let ?W = "nat (em_mb_w em)" and ?H = "nat (em_mb_h em)"
  note r = raster[OF Suc.prems(4,3)]
  obtain it' where n: "VP8IteratorNext em it = Some (Suc (Y * ?W + X) < ?W * ?H, it')"
    "if Suc X = ?W then it_at em (Suc Y) 0 it' else it_at em Y (Suc X) it'"
    using VP8IteratorNext_at[OF Suc.prems(1,4,5)] by blast
  have rest: "emits malloc e (\<lambda>bw. if Suc (Y * ?W + X) < ?W * ?H then code_intra_modes malloc enc em it' bw else Some bw)
    (all_mode_symbols enc em (Suc (Y * ?W + X))) (\<lambda>bw. bw)"
  proof (cases "Suc (Y * ?W + X) < ?W * ?H")
    case True
    show ?thesis
    proof (cases "Suc X = ?W")
      case w: True
      have "Suc Y * ?W < ?H * ?W" using True r(4)[OF w] by (simp add: mult.commute)
      then have "Suc Y < ?H" unfolding mult_less_cancel2 by blast
      moreover have "k = ?W * ?H - (Suc Y * ?W + 0)" using Suc.hyps(2) unfolding r(4)[OF w, symmetric] by simp
      moreover have "0 < ?W" "it_at em (Suc Y) 0 it'" using Suc.prems(4) n(2) w by simp_all
      ultimately have "emits malloc e (code_intra_modes malloc enc em it') (all_mode_symbols enc em (Suc Y * ?W + 0)) (\<lambda>bw. bw)"
        using Suc.prems(1,2) by (intro Suc.hyps(1))
      with True show ?thesis by (simp only: r(4)[OF w] add_0_right if_True)
    next
      case False
      have "k = ?W * ?H - (Y * ?W + Suc X)" using Suc.hyps(2) by simp
      moreover have "Suc X < ?W" "it_at em Y (Suc X) it'" using Suc.prems(4) n(2) False by simp_all
      ultimately have "emits malloc e (code_intra_modes malloc enc em it') (all_mode_symbols enc em (Y * ?W + Suc X)) (\<lambda>bw. bw)"
        using Suc.prems(1-3) by (intro Suc.hyps(1))
      with True show ?thesis by simp
    qed
  next
    case False
    then show ?thesis using emits_Some[of malloc e "\<lambda>bw. bw"] by (simp add: all_mode_symbols_def)
  qed
  have split: "all_mode_symbols enc em (Y * ?W + X) = mode_symbols enc em Y X @ all_mode_symbols enc em (Suc (Y * ?W + X))"
    using r(1-3) by (simp add: all_mode_symbols_def upt_conv_Cons)
  show ?case
    unfolding split
    apply (subst code_intra_modes.simps [THEN eq_reflection, abs_def])
    apply (rule emits_bind[OF emits_code_intra_mode[OF Suc.prems]])
    using rest by (simp only: n(1) Option.bind.simps prod.case)
qed

lemma emits_VP8CodeIntraModes:
  assumes "modes_ok em" "mode_probas_ok enc" "length (it_top_nz it) = 9" "length (it_left_nz it) = 9"
  shows "emits malloc e (VP8CodeIntraModes malloc enc it em) (all_mode_symbols enc em 0)
    (Pair (em\<lparr>em_nz := blit (em_nz em) 1 (nat (em_mb_w em)) (\<lambda>_. 0)\<rparr>))"
proof -
  let ?em = "em\<lparr>em_nz := blit (em_nz em) 1 (nat (em_mb_w em)) (\<lambda>_. 0)\<rparr>"
  have WH: "0 < nat (em_mb_h em)" "0 < nat (em_mb_w em)" using assms(1) by (auto simp: modes_ok_def)
  have at: "mode_above ?em = mode_above em" "mode_beside ?em = mode_beside em" "mode_at ?em = mode_at em" "mb_pos ?em = mb_pos em"
    by (simp_all add: fun_eq_iff mode_above_def mode_beside_def mode_at_def mb_pos_def)
  have same: "modes_ok ?em = modes_ok em" "all_mode_symbols enc ?em = all_mode_symbols enc em" "it_at ?em = it_at em"
    by (simp_all add: at Let_def modes_ok_def all_mode_symbols_def[abs_def] mode_symbols_def[abs_def] it_at_def[abs_def] cong: if_cong)
  from VP8IteratorInit_at[OF assms(1,3,4)] obtain it' where
    i: "VP8IteratorInit em it = Some (?em, it')" "it_at em 0 0 it'" by blast
  have "emits malloc e (code_intra_modes malloc enc ?em it') (all_mode_symbols enc em 0) (\<lambda>bw. bw)"
    using emits_code_intra_modes[of ?em enc 0 0 it' malloc e] assms(1,2) WH i(2) unfolding same by simp
  then show ?thesis unfolding VP8CodeIntraModes_def i(1) Option.bind.simps prod.case by (rule emits_last) simp
qed

subsection \<open>Reading the modes of a macroblock\<close>

text \<open>What the reader of the headers and the encoder agree on.\<close>

definition same_modes_header :: "VP8Encoder \<Rightarrow> VP8Decoder \<Rightarrow> bool" where
  "same_modes_header enc d \<longleftrightarrow> (update_map (segment_hdr d) \<noteq> 0 \<longleftrightarrow> e_update_map (e_segment_hdr enc) \<noteq> 0) \<and>
     (use_skip_proba d \<noteq> 0 \<longleftrightarrow> e_use_skip_proba (e_proba enc) \<noteq> 0) \<and>
     (e_update_map (e_segment_hdr enc) \<noteq> 0 \<longrightarrow> segments (proba d) = e_segments (e_proba enc)) \<and>
     (e_use_skip_proba (e_proba enc) \<noteq> 0 \<longrightarrow> skip_p d = e_skip_proba (e_proba enc))"

text \<open>The decoder's data of a macroblock are the encoder's.\<close>

definition same_modes :: "VP8Encoder \<Rightarrow> EncModes \<Rightarrow> nat \<Rightarrow> nat \<Rightarrow> VP8MBData \<Rightarrow> bool" where
  "same_modes enc em Y X b \<longleftrightarrow> (let mb = em_mb_info em ! (Y * nat (em_mb_w em) + X); p = mb_pos em Y X in
     md_segment b = (if e_update_map (e_segment_hdr enc) \<noteq> 0 then mb_segment mb else 0) \<and>
     (e_use_skip_proba (e_proba enc) \<noteq> 0 \<longrightarrow> md_skip b = mb_skip mb) \<and>
     md_is_i4x4 b = 1 - mb_type mb \<and> md_uvmode b = uv_mode mb \<and>
     (if mb_type mb = 1 then md_imodes b ! 0 = mode_at em p 0 0
      else \<forall>y<4. \<forall>x<4. md_imodes b ! (4 * y + x) = mode_at em p y x))"

text \<open>The contexts above and to the left before macroblock \<open>X\<close> of row \<open>Y\<close>.\<close>

definition context_ok :: "EncModes \<Rightarrow> nat \<Rightarrow> nat \<Rightarrow> int list \<Rightarrow> int list \<Rightarrow> bool" where
  "context_ok em Y X tp lft \<longleftrightarrow> length tp = 4 * nat (em_mb_w em) \<and> length lft = 4 \<and>
     (\<forall>i<nat (em_mb_w em). \<forall>x<4. tp ! (4 * i + x) = (if i < X then mode_at em (mb_pos em Y i) 3 x else mode_above em (mb_pos em Y i) x)) \<and>
     (\<forall>y<4. lft ! y = (if X = 0 then B_DC_PRED else mode_at em (mb_pos em Y (X - 1)) y 3))"

lemma context_ok_Suc:
  assumes ok: "modes_ok em" "Y < nat (em_mb_h em)" "X < nat (em_mb_w em)" and c: "context_ok em Y X tp lft"
    and len: "length lft' = 4"
    and t: "\<And>x. x < 4 \<Longrightarrow> t x = mode_at em (mb_pos em Y X) 3 x" and l: "\<And>y. y < 4 \<Longrightarrow> lft' ! y = mode_at em (mb_pos em Y X) y 3"
  shows "context_ok em Y (Suc X) (blit tp (4 * int X) 4 t) lft'"
proof -
  have lt: "length tp = 4 * nat (em_mb_w em)" using c by (simp add: context_ok_def)
  have "blit tp (4 * int X) 4 t ! (4 * i + x) = (if i < Suc X then mode_at em (mb_pos em Y i) 3 x else mode_above em (mb_pos em Y i) x)"
    if "i < nat (em_mb_w em)" "x < 4" for i x
  proof (cases "i = X")
    case True
    then show ?thesis using lt that t by (simp add: blit_nth)
  next
    case False
    then have "\<not> (4 * int X \<le> int (4 * i + x) \<and> int (4 * i + x) < 4 * int X + int 4)" using that(2) by linarith
    moreover have "4 * i + x < length tp" using lt that by linarith
    ultimately have "blit tp (4 * int X) 4 t ! (4 * i + x) = tp ! (4 * i + x)" by (simp only: blit_nth if_False)
    then show ?thesis using c that False by (auto simp: context_ok_def)
  qed
  then show ?thesis using lt len l by (simp add: context_ok_def)
qed

lemma parses_ParseIntraMode:
  assumes ok: "modes_ok em" "mode_probas_ok enc" and YX: "Y < nat (em_mb_h em)" "X < nat (em_mb_w em)"
    and h: "same_modes_header enc d" and c: "context_ok em Y X (intra_t d) (intra_l d)"
    and md: "length (mb_data d) = nat (em_mb_w em)" "length (md_imodes (mb_data d ! X)) = 16"
  shows "\<exists>tp lft b. context_ok em Y (Suc X) tp lft \<and> same_modes enc em Y X b \<and> length (md_imodes b) = 16 \<and>
    parses w mem bs (\<lambda>br. ParseIntraMode mem X (d, br)) (mode_symbols enc em Y X)
      (\<lambda>br. (d\<lparr>intra_t := tp, intra_l := lft, mb_data := (mb_data d)[X := b]\<rparr>, br))"
proof -
  let ?mb = "em_mb_info em ! (Y * nat (em_mb_w em) + X)" and ?p = "mb_pos em Y X" and ?blk = "mb_data d ! X"
  have mb: "mb_type ?mb = 0 \<or> mb_type ?mb = 1" "0 \<le> uv_mode ?mb" "uv_mode ?mb < 4" "0 \<le> mb_segment ?mb" "mb_segment ?mb < 4"
    "mb_skip ?mb = 0 \<or> mb_skip ?mb = 1"
    using modes_okD(3)[OF ok(1) YX] by (auto simp: mb_fields_ok_def)
  have pr: "length (e_segments (e_proba enc)) = 3" using ok(2) by (auto simp: mode_probas_ok_def)
  note ar = modes_okD(1)[OF ok(1) YX]
  have hd: "update_map (segment_hdr d) \<noteq> 0 \<longleftrightarrow> e_update_map (e_segment_hdr enc) \<noteq> 0" "use_skip_proba d \<noteq> 0 \<longleftrightarrow> e_use_skip_proba (e_proba enc) \<noteq> 0"
     "e_update_map (e_segment_hdr enc) \<noteq> 0 \<Longrightarrow> segments (proba d) = e_segments (e_proba enc)"
     "e_use_skip_proba (e_proba enc) \<noteq> 0 \<Longrightarrow> skip_p d = e_skip_proba (e_proba enc)" using h by (simp_all add: same_modes_header_def)
  have len: "length (intra_t d) = 4 * nat (em_mb_w em)" "length (intra_l d) = 4" using c by (simp_all add: context_ok_def)
  have base: "0 \<le> 4 * int X" "4 * int X + 4 \<le> int (length (intra_t d))" using len YX by linarith+
  have inb: "inb (intra_t d) (4 * int X) 4" "inb (intra_l d) 0 4" using base len by (simp_all add: inb_def)
  have blk: "ld (mb_data d) (int X) = Some ?blk" using YX md(1) by (simp add: ld_nat)
  let ?seg = "if e_update_map (e_segment_hdr enc) \<noteq> 0 then mb_segment ?mb else 0"
  let ?skip = "if e_use_skip_proba (e_proba enc) \<noteq> 0 then mb_skip ?mb else md_skip ?blk"
  have seg: "parses w mem bs (\<lambda>br. if update_map (segment_hdr d) \<noteq> 0 then get_segment mem (segments (proba d)) br else Some (0, br))
      (if e_update_map (e_segment_hdr enc) \<noteq> 0 then segment_id_symbols (e_segments (e_proba enc)) (mb_segment ?mb) else []) (Pair ?seg)" for w
    using parses_get_segment[OF pr mb(4,5)] hd(1,3) by (cases "e_update_map (e_segment_hdr enc) = 0") (simp_all add: parses_Some)
  have skip: "parses w mem bs (\<lambda>br. if use_skip_proba d \<noteq> 0 then VP8GetBit mem br (skip_p d) else Some (md_skip ?blk, br))
      (if e_use_skip_proba (e_proba enc) \<noteq> 0 then [(mb_skip ?mb \<noteq> 0, e_skip_proba (e_proba enc))] else []) (Pair ?skip)" for w
  proof -
    have "of_bool (mb_skip ?mb \<noteq> 0) = mb_skip ?mb" using mb(6) by auto
    with parses_GetBit[of w mem bs "e_skip_proba (e_proba enc)" "mb_skip ?mb \<noteq> 0"] show ?thesis
      using hd(2,4) by (cases "e_use_skip_proba (e_proba enc) = 0") (simp_all add: parses_Some)
  qed
  have ty: "of_bool ((of_bool (mb_type ?mb \<noteq> 0) :: int) = 0) = 1 - mb_type ?mb" using mb(1) by auto
  have modes: "\<exists>tp lft modes. context_ok em Y (Suc X) tp lft \<and> length modes = 16 \<and>
      (if mb_type ?mb = 1 then modes ! 0 = mode_at em ?p 0 0 else \<forall>y<4. \<forall>x<4. modes ! (4 * y + x) = mode_at em ?p y x) \<and>
      parses True mem bs (\<lambda>br. if 1 - mb_type ?mb = 0 then do {
          (ymode, br) \<leftarrow> get_i16_mode mem br;
          modes \<leftarrow> st (md_imodes ?blk) 0 ymode;
          tp \<leftarrow> memset (intra_t d) (4 * int X) ymode 4;
          lft \<leftarrow> memset (intra_l d) 0 ymode 4;
          Some (tp, lft, modes, br) }
        else get_i4_modes mem (4 * int X) (intra_t d, intra_l d, md_imodes ?blk, br))
       (if mb_type ?mb \<noteq> 0 then i16_symbols (mode_at em ?p 0 0) else i4_block_symbols (mode_above em ?p) (mode_beside em ?p) (mode_at em ?p))
       (\<lambda>br. (tp, lft, modes, br))"
  proof (cases "mb_type ?mb = 1")
    case True
    let ?m = "mode_at em ?p 0 0"
    have m: "0 \<le> ?m" "?m < 4" and all: "\<forall>y<4. \<forall>x<4. mode_at em ?p y x = ?m"
      using around_lds(2)[OF ar, of 0 0, simplified] modes_okD(4)[OF ok(1) YX True] by blast+
    have "context_ok em Y (Suc X) (blit (intra_t d) (4 * int X) 4 (\<lambda>_. ?m)) (blit (intra_l d) 0 4 (\<lambda>_. ?m))"
    proof (rule context_ok_Suc[OF ok(1) YX c])
      show "?m = mode_at em ?p 3 x" if "x < 4" for x using all[rule_format, of 3 x] that by simp
      show "blit (intra_l d) 0 4 (\<lambda>_. ?m) ! y = mode_at em ?p y 3" if "y < 4" for y
      proof -
        have "mode_at em ?p y 3 = ?m" using all[rule_format, of y 3] that by simp
        then show ?thesis using that len(2) by (simp add: blit_nth)
      qed
    qed (use len in simp)
    moreover have "parses True mem bs (\<lambda>br. do {
          (ymode, br) \<leftarrow> get_i16_mode mem br;
          modes \<leftarrow> st (md_imodes ?blk) 0 ymode;
          tp \<leftarrow> memset (intra_t d) (4 * int X) ymode 4;
          lft \<leftarrow> memset (intra_l d) 0 ymode 4;
          Some (tp, lft, modes, br) }) (i16_symbols ?m)
       (\<lambda>br. (blit (intra_t d) (4 * int X) 4 (\<lambda>_. ?m), blit (intra_l d) 0 4 (\<lambda>_. ?m), (md_imodes ?blk)[0 := ?m], br))"
      by (rule parses_last[OF parses_get_i16_mode[OF m]]) (simp add: memset_ok[OF inb(1)] memset_ok[OF inb(2)] st_def md(2))
    ultimately show ?thesis
      using True md(2) by (intro exI[of _ "blit (intra_t d) (4 * int X) 4 (\<lambda>_. ?m)"] exI[of _ "blit (intra_l d) 0 4 (\<lambda>_. ?m)"] exI[of _ "(md_imodes ?blk)[0 := ?m]"]) simp
  next
    case False
    then have t: "mb_type ?mb = 0" using mb(1) by simp
    have T: "intra_t d ! nat (4 * int X + int x) = mode_above em ?p x \<and> mode_ok (mode_above em ?p x)" if "x < 4" for x
    proof -
      have "nat (4 * int X + int x) = 4 * X + x" by simp
      then show ?thesis using c that YX(2) around_lds(4)[OF ar that that] by (simp add: context_ok_def)
    qed
    have L: "intra_l d ! y = mode_beside em ?p y \<and> mode_ok (mode_beside em ?p y)" if "y < 4" for y
      using c that neighbours(2)[OF ok(1) YX that] around_lds(6)[OF ar that that] by (simp add: context_ok_def)
    from parses_get_i4_modes[where G = "mode_at em ?p" and w = True and mem = mem and bs = bs, OF base len(2) md(2) around_lds(2)[OF ar] T L] obtain modes' where
      m: "length modes' = 16" "\<forall>y<4. \<forall>x<4. modes' ! (4 * y + x) = mode_at em ?p y x"
      "parses True mem bs (\<lambda>br. get_i4_modes mem (4 * int X) (intra_t d, intra_l d, md_imodes ?blk, br))
        (i4_block_symbols (mode_above em ?p) (mode_beside em ?p) (mode_at em ?p))
        (\<lambda>br. (blit (intra_t d) (4 * int X) 4 (mode_at em ?p 3), map (\<lambda>y. mode_at em ?p y 3) [0..<4], modes', br))" by blast
    have "context_ok em Y (Suc X) (blit (intra_t d) (4 * int X) 4 (mode_at em ?p 3)) (map (\<lambda>y. mode_at em ?p y 3) [0..<4])"
      by (intro context_ok_Suc[OF ok(1) YX c]) simp_all
    with m show ?thesis by (auto simp only: t zero_neq_one diff_0_right one_neq_zero if_False simp_thms)
  qed
  then obtain tp lft modes where m: "context_ok em Y (Suc X) tp lft" "length modes = 16"
      "if mb_type ?mb = 1 then modes ! 0 = mode_at em ?p 0 0 else \<forall>y<4. \<forall>x<4. modes ! (4 * y + x) = mode_at em ?p y x"
    and pm: "parses True mem bs (\<lambda>br. if 1 - mb_type ?mb = 0 then do {
          (ymode, br) \<leftarrow> get_i16_mode mem br;
          modes \<leftarrow> st (md_imodes ?blk) 0 ymode;
          tp \<leftarrow> memset (intra_t d) (4 * int X) ymode 4;
          lft \<leftarrow> memset (intra_l d) 0 ymode 4;
          Some (tp, lft, modes, br) }
        else get_i4_modes mem (4 * int X) (intra_t d, intra_l d, md_imodes ?blk, br))
       (if mb_type ?mb \<noteq> 0 then i16_symbols (mode_at em ?p 0 0) else i4_block_symbols (mode_above em ?p) (mode_beside em ?p) (mode_at em ?p))
       (\<lambda>br. (tp, lft, modes, br))" by blast
  let ?b = "?blk\<lparr>md_segment := ?seg, md_skip := ?skip, md_is_i4x4 := 1 - mb_type ?mb, md_imodes := modes, md_uvmode := uv_mode ?mb\<rparr>"
  have "same_modes enc em Y X ?b" "length (md_imodes ?b) = 16" using m by (simp_all add: same_modes_def Let_def)
  moreover have "parses w mem bs (\<lambda>br. ParseIntraMode mem X (d, br)) (mode_symbols enc em Y X)
      (\<lambda>br. (d\<lparr>intra_t := tp, intra_l := lft, mb_data := (mb_data d)[X := ?b]\<rparr>, br))"
    unfolding ParseIntraMode_def mode_symbols_def Let_def prod.case blk Option.bind.simps
    apply (rule parses_then[OF seg])
    apply (simp only: prod.case)
    apply (rule parses_then[OF skip])
    apply (simp only: prod.case)
    apply (rule parses_bit)
    apply (simp only: prod.case ty)
    apply (rule parses_then[OF pm])
    apply (simp only: prod.case)
    apply (rule parses_last[OF parses_get_uv_mode[OF mb(2,3)]])
    using YX(2) md(1) by (simp add: st_nat)
  ultimately show ?thesis using m(1) by blast
qed

subsection \<open>Rows\<close>

definition row_symbols :: "VP8Encoder \<Rightarrow> EncModes \<Rightarrow> nat \<Rightarrow> symbol list" where
  "row_symbols enc em Y = concat (map (mode_symbols enc em Y) [0..<nat (em_mb_w em)])"

text \<open>The part of the decoder that the modes use.\<close>

definition modes_ready :: "VP8Encoder \<Rightarrow> EncModes \<Rightarrow> nat \<Rightarrow> VP8Decoder \<Rightarrow> bool" where
  "modes_ready enc em Y d \<longleftrightarrow> mb_w d = em_mb_w em \<and> same_modes_header enc d \<and> context_ok em Y 0 (intra_t d) (intra_l d) \<and>
     length (mb_data d) = nat (em_mb_w em) \<and> (\<forall>b\<in>set (mb_data d). length (md_imodes b) = 16)"

text \<open>After a row the line above holds its last modes, and only the modes have changed.\<close>

definition row_read :: "VP8Encoder \<Rightarrow> EncModes \<Rightarrow> nat \<Rightarrow> VP8Decoder \<Rightarrow> VP8Decoder \<Rightarrow> bool" where
  "row_read enc em Y d d' \<longleftrightarrow> (\<exists>tp lft mds. context_ok em Y (nat (em_mb_w em)) tp lft \<and>
     d' = d\<lparr>intra_t := tp, intra_l := lft, mb_data := mds\<rparr> \<and> length mds = nat (em_mb_w em) \<and>
     (\<forall>b\<in>set mds. length (md_imodes b) = 16) \<and> (\<forall>X<nat (em_mb_w em). same_modes enc em Y X (mds ! X)))"

lemma parses_row:
  assumes ok: "modes_ok em" "mode_probas_ok enc" and Y: "Y < nat (em_mb_h em)" and rd: "modes_ready enc em Y d"
  shows "\<exists>d'. row_read enc em Y d d' \<and>
    parses w mem bs (\<lambda>br. for_range 0 (nat (mb_w d)) (ParseIntraMode mem) (d, br)) (row_symbols enc em Y) (Pair d')"
proof -
  let ?I = "\<lambda>X v. (case v of (tp, lft, mds) \<Rightarrow> context_ok em Y X tp lft \<and> length mds = nat (em_mb_w em) \<and>
     (\<forall>b\<in>set mds. length (md_imodes b) = 16) \<and> (\<forall>i<X. same_modes enc em Y i (mds ! i)))"
  let ?c = "\<lambda>X v br. (case v of (tp, lft, mds) \<Rightarrow> (d\<lparr>intra_t := tp, intra_l := lft, mb_data := mds\<rparr>, br))"
  have "\<exists>v'. ?I (nat (mb_w d)) v' \<and> parses w mem bs (\<lambda>br. for_range 0 (nat (mb_w d)) (ParseIntraMode mem) (?c 0 (intra_t d, intra_l d, mb_data d) br))
      (concat (map (mode_symbols enc em Y) [0..<nat (mb_w d)])) (?c (nat (mb_w d)) v')"
  proof (rule parses_for_inv[where I = ?I and c = ?c])
    fix w X v assume X: "X < nat (mb_w d)" and v: "?I X v"
    obtain tp lft mds where vv: "v = (tp, lft, mds)" by (cases v)
    let ?d = "d\<lparr>intra_t := tp, intra_l := lft, mb_data := mds\<rparr>"
    have f: "X < nat (em_mb_w em)" "same_modes_header enc ?d" "context_ok em Y X (intra_t ?d) (intra_l ?d)" "length (mb_data ?d) = nat (em_mb_w em)"
      "length (md_imodes (mb_data ?d ! X)) = 16"
      using X v rd by (simp_all add: vv modes_ready_def same_modes_header_def)
    from parses_ParseIntraMode[OF ok Y f, of w mem bs] obtain tp' lft' b where
      n: "context_ok em Y (Suc X) tp' lft'" "same_modes enc em Y X b" "length (md_imodes b) = 16"
      and p: "parses w mem bs (\<lambda>br. ParseIntraMode mem X (?d, br)) (mode_symbols enc em Y X)
        (\<lambda>br. (?d\<lparr>intra_t := tp', intra_l := lft', mb_data := (mb_data ?d)[X := b]\<rparr>, br))" by blast
    have "?I (Suc X) (tp', lft', mds[X := b])"
      using v n f(1) by (auto simp: vv nth_list_update less_Suc_eq dest!: set_update_subset_insert[THEN subsetD])
    moreover have "parses w mem bs (\<lambda>br. ParseIntraMode mem X (?c X v br)) (mode_symbols enc em Y X) (?c (Suc X) (tp', lft', mds[X := b]))"
      using p by (simp add: vv)
    ultimately show "\<exists>v'. ?I (Suc X) v' \<and> parses w mem bs (\<lambda>br. ParseIntraMode mem X (?c X v br)) (mode_symbols enc em Y X) (?c (Suc X) v')"
      by blast
  qed (use rd in \<open>simp_all add: modes_ready_def\<close>)
  then obtain tp lft mds where v: "?I (nat (mb_w d)) (tp, lft, mds)" and
    p: "parses w mem bs (\<lambda>br. for_range 0 (nat (mb_w d)) (ParseIntraMode mem) (?c 0 (intra_t d, intra_l d, mb_data d) br))
      (concat (map (mode_symbols enc em Y) [0..<nat (mb_w d)])) (?c (nat (mb_w d)) (tp, lft, mds))" by fast
  have w: "nat (mb_w d) = nat (em_mb_w em)" using rd by (simp add: modes_ready_def)
  have "row_read enc em Y d (d\<lparr>intra_t := tp, intra_l := lft, mb_data := mds\<rparr>)"
    using v unfolding row_read_def w prod.case by blast
  then show ?thesis using p unfolding row_symbols_def w prod.case by (intro exI[of _ "d\<lparr>intra_t := tp, intra_l := lft, mb_data := mds\<rparr>"]) simp
qed

text \<open>The end of a row, and the next row's start.\<close>

lemma InitScanline_ready:
  assumes ok: "modes_ok em" and Y: "Suc Y < nat (em_mb_h em)" and rd: "modes_ready enc em Y d" "row_read enc em Y d d'"
    and f: "intra_t d'' = intra_t d'" "length (intra_l d'') = 4" "mb_data d'' = mb_data d'" "mb_info d'' \<noteq> []"
      "same_modes_header enc d''" "mb_w d'' = mb_w d"
  shows "\<exists>d3. VP8InitScanline d'' = Some d3 \<and> modes_ready enc em (Suc Y) d3"
proof -
  obtain tp lft mds where r: "context_ok em Y (nat (em_mb_w em)) tp lft"
     "d' = d\<lparr>intra_t := tp, intra_l := lft, mb_data := mds\<rparr>" "length mds = nat (em_mb_w em)"
     "\<forall>b\<in>set mds. length (md_imodes b) = 16" using rd(2) unfolding row_read_def by blast
  have inb: "inb (intra_l d'') 0 4" using f(2) by (simp add: inb_def)
  obtain b bs where mi: "mb_info d'' = b # bs" using f(4) by (cases "mb_info d''") auto
  have t: "tp ! (4 * i + x) = mode_above em (mb_pos em (Suc Y) i) x" if "i < nat (em_mb_w em)" "x < 4" for i x
    using r(1) that neighbours(1)[OF ok Y that(1) that(2)] by (simp add: context_ok_def)
  have z: "blit (intra_l d'') 0 4 (\<lambda>_. 0) ! y = 0" if "y < 4" for y using that f(2) by (simp add: blit_nth)
  have "context_ok em (Suc Y) 0 tp (blit (intra_l d'') 0 4 (\<lambda>_. 0))"
    using r(1) f(2) t z by (simp add: context_ok_def)
  then show ?thesis
    using r(2-4) f rd(1) by (simp add: VP8InitScanline_def memset_ok[OF inb] ld_def st_def mi modes_ready_def same_modes_header_def)
qed

lemma all_mode_symbols_rows: "modes_ok em \<Longrightarrow> all_mode_symbols enc em 0 = concat (map (row_symbols enc em) [0..<nat (em_mb_h em)])"
proof -
  have "concat (map (\<lambda>k. f (k div W) (k mod W)) [0..<W * H]) = concat (map (\<lambda>y. concat (map (f y) [0..<W])) [0..<H])"
    if "0 < W" for f :: "nat \<Rightarrow> nat \<Rightarrow> symbol list" and W H :: nat
  proof (induction H)
    case (Suc H)
    have "map (\<lambda>k. f (k div W) (k mod W)) [W * H..<W * H + W] = map (f H) [0..<W]"
      by (rule nth_equalityI) (use that in simp_all)
    moreover have "[0..<W * Suc H] = [0..<W * H] @ [W * H..<W * H + W]"
      using upt_add_eq_append[of 0 "W * H" W] by (simp only: mult_Suc_right add.commute[of W] le0 simp_thms)
    ultimately show ?case using Suc by simp
  qed simp
  then show "modes_ok em \<Longrightarrow> all_mode_symbols enc em 0 = concat (map (row_symbols enc em) [0..<nat (em_mb_h em)])"
    by (simp add: modes_ok_def all_mode_symbols_def row_symbols_def[abs_def])
qed

subsection \<open>Reading the modes of any data\<close>

lemma tree_step:
  "0 < i \<Longrightarrow> i < 9 \<Longrightarrow> b = 0 \<or> b = 1 \<Longrightarrow>
    \<exists>j. ld kYModesIntra4 (2 * i + b) = Some j \<and> - 9 \<le> j \<and> j < 9 \<and> (j \<le> 0 \<or> i < j)" for i b :: int
proof -
  assume i: "0 < i" "i < 9" and b: "b = 0 \<or> b = 1"
  from i have "i = 1 \<or> i = 2 \<or> i = 3 \<or> i = 4 \<or> i = 5 \<or> i = 6 \<or> i = 7 \<or> i = 8" by presburger
  with b show ?thesis by (elim disjE) (simp_all add: kYModesIntra4_def ld_def)
qed

lemma returns_mode_tree:
  assumes "mode_probas pb"
  shows "reader_ok mem br \<Longrightarrow> - 9 \<le> i \<Longrightarrow> i < 9 \<Longrightarrow> returns (mode_tree mem pb i br) (\<lambda>(m, br'). mode_ok m \<and> reader_ok mem br')"
proof (induction "nat (9 - i)" arbitrary: i br rule: less_induct)
  case less
  show ?case
  proof (cases "i > 0")
    case False
    then show ?thesis using less.prems by (subst mode_tree.simps) simp
  next
    case True
    have p: "ld pb i = Some (pb ! nat i)" "0 \<le> pb ! nat i \<and> pb ! nat i < 256"
      using True less.prems mode_probas_ld[OF assms, of i] mode_probas_nth[OF assms, of "nat i"] by simp_all
    show ?thesis
      apply (subst mode_tree.simps)
      apply (simp only: True if_True p Option.bind.simps)
      apply (rule ret_bit[OF less.prems(1)], simp add: p, simp add: p)
      subgoal premises q for b br'
      proof -
        obtain j where j: "ld kYModesIntra4 (2 * i + b) = Some j" "- 9 \<le> j" "j < 9" "j \<le> 0 \<or> i < j"
          using tree_step[OF True less.prems(3) q(2)] by blast
        have "returns (mode_tree mem pb j br') (\<lambda>(m, br'). mode_ok m \<and> reader_ok mem br')"
        proof (cases "j \<le> 0")
          case t: True
          then show ?thesis using q(1) j(2) by (subst mode_tree.simps) simp
        next
          case False
          then show ?thesis using less.hyps[of j br'] j q(1) True by simp
        qed
        then show ?thesis by (simp only: prod.case j(1) Option.bind.simps)
      qed
      done
  qed
qed

lemma returns_get_i4_mode:
  assumes "mode_probas pb" "reader_ok mem br"
  shows "returns (get_i4_mode mem pb br) (\<lambda>(m, br'). mode_ok m \<and> reader_ok mem br')"
proof -
  have p: "ld pb 0 = Some (pb ! 0)" "0 \<le> pb ! 0 \<and> pb ! 0 < 256"
    using mode_probas_ld[OF assms(1), of 0] mode_probas_nth[OF assms(1), of 0] by simp_all
  have t: "returns (ld kYModesIntra4 b \<bind> (\<lambda>i. mode_tree mem pb i br')) (\<lambda>(m, br'). mode_ok m \<and> reader_ok mem br')"
    if "reader_ok mem br'" "b = 0 \<or> b = 1" for b br'
    using that(2) returns_mode_tree[OF assms(1) that(1), of 0] returns_mode_tree[OF assms(1) that(1), of 1]
    by (elim disjE) (simp_all add: kYModesIntra4_def ld_def)
  show ?thesis
    unfolding get_i4_mode_def p(1) Option.bind.simps by (rule ret_bit[OF assms(2)]) (use p(2) t in simp_all)
qed

definition all_modes :: "int list \<Rightarrow> bool" where
  "all_modes xs \<longleftrightarrow> (\<forall>m\<in>set xs. mode_ok m)"

lemma all_modes_simps: "all_modes xs \<Longrightarrow> i < length xs \<Longrightarrow> mode_ok (xs ! i)" "all_modes xs \<Longrightarrow> mode_ok m \<Longrightarrow> all_modes (xs[k := m])"
  unfolding all_modes_def by simp (rule all_update)

lemma all_modes_blit: "all_modes xs \<Longrightarrow> (\<And>j. j < n \<Longrightarrow> mode_ok (f j)) \<Longrightarrow> all_modes (blit xs p n f)"
  unfolding all_modes_def all_set_conv_all_nth
  by (intro allI impI) (auto simp: blit_nth nat_less_iff)

lemma returns_get_i4_modes:
  assumes "0 \<le> base" "base + 4 \<le> int (length tp)" "length lft = 4" "length modes = 16" "all_modes tp" "all_modes lft" "reader_ok mem br"
  shows "returns (get_i4_modes mem base (tp, lft, modes, br)) (\<lambda>(tp', lft', modes', br'). length tp' = length tp \<and> length lft' = 4 \<and>
    length modes' = 16 \<and> all_modes tp' \<and> all_modes lft' \<and> all_modes modes' \<and> reader_ok mem br')"
proof -
  have inner: "returns (for_range 0 4
            (\<lambda>x (ymode, tp, br). do {
               t \<leftarrow> ld tp (base + int x);
               rows \<leftarrow> ld dec_kBModesProba t;
               pb \<leftarrow> ld rows ymode;
               (ymode, br) \<leftarrow> get_i4_mode mem pb br;
               tp \<leftarrow> st tp (base + int x) ymode;
               Some (ymode, tp, br) }) (ymode, tp', br'))
      (\<lambda>(ymode, tp', br'). mode_ok ymode \<and> length tp' = length tp \<and> all_modes tp' \<and> reader_ok mem br')"
    if "mode_ok ymode" "length tp' = length tp" "all_modes tp'" "reader_ok mem br'" for ymode tp' br'
  proof (rule returns_for[where I = "\<lambda>_ (ymode, tp', br'). mode_ok ymode \<and> length tp' = length tp \<and> all_modes tp' \<and> reader_ok mem br'"], goal_cases)
    case (3 x s)
    obtain ym tq bq where s: "s = (ym, tq, bq)" by (cases s)
    have q: "mode_ok ym" "length tq = length tp" "all_modes tq" "reader_ok mem bq" using 3(3) by (simp_all add: s)
    have i: "0 \<le> base + int x" "base + int x < int (length tq)" using 3(2) assms(1,2) q(2) by simp_all
    then have t: "mode_ok (tq ! nat (base + int x))" using q(3) by (intro all_modes_simps(1)) simp_all
    show ?case
      unfolding s prod.case
      apply (rule bind_ld[OF i])
      apply (simp only: mode_rows(1)[OF t] mode_rows(4)[OF t q(1)] Option.bind.simps)
      apply (rule returns_bind[OF returns_get_i4_mode[OF mode_rows(5)[OF t q(1)] q(4)]])
      subgoal for r
        using i q by (cases r) (auto intro!: bind_st simp: all_modes_simps(2))
      done
  qed (use that in simp_all)
  show ?thesis
    unfolding get_i4_modes_def
  proof (rule returns_mono, rule returns_for[where I = "\<lambda>y (tp', lft', modes', br'). length tp' = length tp \<and> length lft' = 4 \<and>
      length modes' = 16 \<and> all_modes tp' \<and> all_modes lft' \<and> (\<forall>k<4 * y. mode_ok (modes' ! k)) \<and> reader_ok mem br'"], goal_cases)
    case (3 y s)
    obtain tq lq mq bq where s: "s = (tq, lq, mq, bq)" by (cases s)
    have q: "length tq = length tp" "length lq = 4" "length mq = 16" "all_modes tq" "all_modes lq" "\<forall>k<4 * y. mode_ok (mq ! k)" "reader_ok mem bq"
      using 3(3) by (simp_all add: s)
    have i: "0 \<le> int y" "int y < int (length lq)" using 3(2) q(2) by simp_all
    then have m: "mode_ok (lq ! nat (int y))" using q(5) by (intro all_modes_simps(1)) simp_all
    show ?case
      unfolding s prod.case
      apply (rule bind_ld[OF i])
      apply (rule returns_bind[OF inner[OF m q(1,4,7)]])
      subgoal premises c for r
      proof -
        obtain ym tr br' where r: "r = (ym, tr, br')" by (cases r)
        have c': "mode_ok ym" "length tr = length tp" "all_modes tr" "reader_ok mem br'" using c by (simp_all add: r)
        have inb: "inb mq (4 * int y) 4" "inb tr base 4" using q(3) 3(2) c'(2) assms(1,2) by (simp_all add: inb_def)
        have n: "mode_ok (tr ! nat (base + int j))" if "j < 4" for j
          using c'(2,3) assms(1,2) that by (intro all_modes_simps(1)) linarith+
        have "mode_ok (blit mq (4 * int y) 4 (\<lambda>j. tr ! nat (base + int j)) ! k)" if "k < 4 * Suc y" for k
        proof -
          have k: "k < length mq" using that q(3) 3(2) by simp
          show ?thesis
          proof (cases "4 * y \<le> k")
            case True
            then have "nat (int k - 4 * int y) < 4" using that by simp
            with n[OF this] show ?thesis using True k that by (simp add: blit_nth)
          qed (use q(6) k in \<open>simp add: blit_nth\<close>)
        qed
        then show ?thesis
          unfolding r prod.case memcpy_ok[OF inb] Option.bind.simps
          using i q c' by (intro bind_st) (simp_all add: all_modes_simps(2))
      qed
      done
  next
    case (4 r)
    then show ?case by (auto simp: all_modes_def in_set_conv_nth)
  qed (use assms in simp_all)
qed

text \<open>What the parser of a row needs, and what it leaves in every macroblock.\<close>

definition row_ok :: "u8 list \<Rightarrow> VP8Decoder \<Rightarrow> bool" where
  "row_ok mem d \<longleftrightarrow> 0 \<le> mb_w d \<and> length (intra_t d) = 4 * nat (mb_w d) \<and> length (intra_l d) = 4 \<and> all_modes (intra_t d) \<and> all_modes (intra_l d) \<and>
     length (mb_data d) = nat (mb_w d) \<and> (\<forall>b\<in>set (mb_data d). length (md_imodes b) = 16) \<and> segment_probas_ok (proba d) \<and>
     0 \<le> skip_p d \<and> skip_p d < 256 \<and> reader_ok mem (dec_br d)"

definition block_modes_ok :: "VP8MBData \<Rightarrow> bool" where
  "block_modes_ok b \<longleftrightarrow> md_segment b \<in> {0..3} \<and> md_uvmode b \<in> {0..3} \<and> length (md_imodes b) = 16 \<and>
     (md_is_i4x4 b = 0 \<and> md_imodes b ! 0 \<in> {0..3} \<or> md_is_i4x4 b = 1 \<and> all_modes (md_imodes b))"

text \<open>The state of the loop over the macroblocks of a row.\<close>

definition row_step :: "u8 list \<Rightarrow> VP8Decoder \<Rightarrow> nat \<Rightarrow> VP8Decoder \<times> VP8BitReader \<Rightarrow> bool" where
  "row_step mem d X = (\<lambda>(d', br). reader_ok mem br \<and> row_ok mem d' \<and>
     d' = d\<lparr>intra_t := intra_t d', intra_l := intra_l d', mb_data := mb_data d'\<rparr> \<and> (\<forall>i<X. block_modes_ok (mb_data d' ! i)))"

lemma returns_get_segment:
  assumes "segment_probas_ok q" "reader_ok mem br"
  shows "returns (get_segment mem (segments q) br) (\<lambda>(s, br'). 0 \<le> s \<and> s \<le> 3 \<and> reader_ok mem br')"
proof -
  have l: "length (segments q) = 3" "0 \<le> segments q ! 0 \<and> segments q ! 0 < 256" "0 \<le> segments q ! 1 \<and> segments q ! 1 < 256"
    "0 \<le> segments q ! 2 \<and> segments q ! 2 < 256" using assms(1) by (simp_all add: segment_probas_ok_def)
  show ?thesis
    unfolding get_segment_def
    apply (rule bind_ld, simp, simp add: l, rule ret_bit[OF assms(2)], use l in simp, use l in simp)
    apply (simp only: prod.case)
    apply (rule returns_if)
     apply (rule bind_ld, simp, simp add: l, rule returns_mono, rule returns_GetBit, assumption, use l in simp, use l in simp)
     apply clarsimp
     apply auto[1]
    apply (rule bind_ld, simp, simp add: l, rule ret_bit, assumption, use l in simp, use l in simp)
    by auto
qed

lemma returns_get_i16_mode: "reader_ok mem br \<Longrightarrow> returns (get_i16_mode mem br) (\<lambda>(m, br'). 0 \<le> m \<and> m \<le> 3 \<and> reader_ok mem br')"
  unfolding get_i16_mode_def
  apply (rule ret_bit, assumption, simp, simp, simp only: prod.case)
  apply (rule returns_if; rule ret_bit, assumption, simp, simp)
  by auto

lemma returns_get_uv_mode: "reader_ok mem br \<Longrightarrow> returns (get_uv_mode mem br) (\<lambda>(m, br'). 0 \<le> m \<and> m \<le> 3 \<and> reader_ok mem br')"
  unfolding get_uv_mode_def
  apply (rule ret_bit, assumption, simp, simp, simp only: prod.case)
  apply (rule returns_if, simp)
  apply (rule ret_bit, assumption, simp, simp, simp only: prod.case)
  apply (rule returns_if, simp)
  apply (rule ret_bit, assumption, simp, simp)
  by auto

lemma returns_ParseIntraMode:
  assumes "row_step mem d X (d', br)" "X < nat (mb_w d)"
  shows "returns (ParseIntraMode mem X (d', br)) (row_step mem d (Suc X))"
proof -
  have br: "reader_ok mem br" and d: "row_ok mem d'" "d' = d\<lparr>intra_t := intra_t d', intra_l := intra_l d', mb_data := mb_data d'\<rparr>"
    "\<forall>i<X. block_modes_ok (mb_data d' ! i)" using assms(1) unfolding row_step_def prod.case by blast+
  have w: "mb_w d' = mb_w d" by (subst d(2)) simp
  have X: "X < nat (mb_w d')" using assms(2) w by simp
  have q: "length (intra_t d') = 4 * nat (mb_w d')" "length (intra_l d') = 4" "all_modes (intra_t d')" "all_modes (intra_l d')"
     "length (mb_data d') = nat (mb_w d')" "\<forall>b\<in>set (mb_data d'). length (md_imodes b) = 16" "segment_probas_ok (proba d')"
     "0 \<le> skip_p d'" "skip_p d' < 256" using d(1) by (simp_all add: row_ok_def)
  let ?blk = "mb_data d' ! X"
  have i: "0 \<le> int X" "int X < int (length (mb_data d'))" using X q(5) by linarith+
  have blk: "length (md_imodes ?blk) = 16" using q(5,6) X by simp
  have base: "0 \<le> 4 * int X" "4 * int X + 4 \<le> int (length (intra_t d'))" using q(1) X by linarith+
  have inb: "inb (intra_t d') (4 * int X) 4" "inb (intra_l d') 0 4" using base q(2) by (simp_all add: inb_def)
  have seg: "returns (if update_map (segment_hdr d') \<noteq> 0 then get_segment mem (segments (proba d')) br else Some (0, br))
      (\<lambda>(s, br'). 0 \<le> s \<and> s \<le> 3 \<and> reader_ok mem br')" using returns_get_segment[OF q(7) br] br by simp
  have skip: "returns (if use_skip_proba d' \<noteq> 0 then VP8GetBit mem br (skip_p d') else Some (md_skip ?blk, br)) (\<lambda>(_, br'). reader_ok mem br')"
    if "reader_ok mem br" for br
    by (rule returns_if, rule returns_mono, rule returns_GetBit[OF that q(8,9)]) (use that in auto)
  have modes: "returns (if t = 0 then do {
          (ymode, br) \<leftarrow> get_i16_mode mem br;
          modes \<leftarrow> st (md_imodes ?blk) 0 ymode;
          tp \<leftarrow> memset (intra_t d') (4 * int X) ymode 4;
          lft \<leftarrow> memset (intra_l d') 0 ymode 4;
          Some (tp, lft, modes, br) }
        else get_i4_modes mem (4 * int X) (intra_t d', intra_l d', md_imodes ?blk, br))
      (\<lambda>(tp, lft, modes, br'). length tp = length (intra_t d') \<and> length lft = 4 \<and> length modes = 16 \<and> all_modes tp \<and> all_modes lft \<and>
         (if t = 0 then modes ! 0 \<in> {0..3} else all_modes modes) \<and> reader_ok mem br')"
    if br: "reader_ok mem br" for br and t :: int
  proof (cases "t = 0")
    case True
    show ?thesis
      unfolding True if_True simp_thms
      apply (rule returns_bind[OF returns_get_i16_mode[OF br]])
      subgoal for r
        using blk q(2-4)
        by (cases r) (simp add: memset_ok[OF inb(1)] memset_ok[OF inb(2)] st_def all_modes_blit)
      done
  next
    case False
    then show ?thesis
      using returns_get_i4_modes[OF base q(2) blk q(3,4) br] by (simp only: if_False)
  qed
  show ?thesis
    unfolding ParseIntraMode_def Let_def prod.case
    apply (rule bind_ld[OF i], simp only: nat_int)
    apply (rule returns_bind[OF seg])
    apply (simp only: split_paired_all prod.case, elim conjE)
    apply (rule returns_bind[OF skip], assumption)
    apply (simp only: split_paired_all prod.case)
    apply (rule ret_bit, assumption, simp, simp)
    apply (simp only: prod.case)
    apply (rule returns_bind[OF modes], assumption)
    apply (simp only: split_paired_all prod.case, elim conjE)
    apply (rule returns_bind[OF returns_get_uv_mode], assumption)
    subgoal premises c for s br1 sk br2 b br3 tp lft modes br4 r
    proof -
      obtain uv br5 where r: "r = (uv, br5)" by (cases r)
      let ?b = "?blk\<lparr>md_segment := s, md_skip := sk, md_is_i4x4 := of_bool (b = 0), md_imodes := modes, md_uvmode := uv\<rparr>"
      let ?d = "d'\<lparr>intra_t := tp, intra_l := lft, mb_data := (mb_data d')[X := ?b]\<rparr>"
      have ok: "block_modes_ok ?b" using c unfolding r by (auto simp: block_modes_ok_def split: if_splits)
      have "block_modes_ok ((mb_data d')[X := ?b] ! k)" if "k < Suc X" for k
        using that ok d(3) i(2) by (cases "k = X") auto
      moreover have "row_ok mem ?d" using d(1) c q(6) blk unfolding r by (auto simp: row_ok_def dest!: set_update_subset_insert[THEN subsetD])
      moreover have "?d = d\<lparr>intra_t := intra_t ?d, intra_l := intra_l ?d, mb_data := mb_data ?d\<rparr>" by (subst d(2)) simp
      moreover have "reader_ok mem br5" using c unfolding r by simp
      ultimately have "row_step mem d (Suc X) (?d, br5)" unfolding row_step_def by simp
      then show ?thesis using i unfolding r by (simp add: st_def)
    qed
    done
qed

lemma returns_VP8ParseIntraModeRow:
  assumes "row_ok mem d"
  shows "returns (VP8ParseIntraModeRow mem d) (\<lambda>(r, d'). (r = 0 \<or> r = 1) \<and> row_ok mem d' \<and>
    d' = d\<lparr>intra_t := intra_t d', intra_l := intra_l d', mb_data := mb_data d', dec_br := dec_br d'\<rparr> \<and> (\<forall>b\<in>set (mb_data d'). block_modes_ok b))"
proof -
  have "row_step mem d 0 (d, dec_br d)" using assms by (simp add: row_step_def row_ok_def)
  then have "returns (for_range 0 (nat (mb_w d)) (ParseIntraMode mem) (d, dec_br d)) (row_step mem d (nat (mb_w d)))"
    by (rule returns_for) (auto intro: returns_ParseIntraMode)
  then show ?thesis
    unfolding VP8ParseIntraModeRow_def
    apply (rule returns_bind)
    subgoal premises c for r
    proof -
      obtain d' br where r: "r = (d', br)" by (cases r)
      have s: "reader_ok mem br" "row_ok mem d'" "d' = d\<lparr>intra_t := intra_t d', intra_l := intra_l d', mb_data := mb_data d'\<rparr>"
        "\<forall>i<nat (mb_w d). block_modes_ok (mb_data d' ! i)" using c unfolding r row_step_def prod.case by blast+
      have "mb_w d' = mb_w d" by (subst s(3)) simp
      then have "\<forall>b\<in>set (mb_data d'). block_modes_ok b" using s(2,4) by (auto simp: row_ok_def in_set_conv_nth)
      moreover have "d'\<lparr>dec_br := br\<rparr> = d\<lparr>intra_t := intra_t d', intra_l := intra_l d', mb_data := mb_data d', dec_br := br\<rparr>" by (subst s(3)) simp
      moreover have "row_ok mem (d'\<lparr>dec_br := br\<rparr>)" using s(1,2) by (simp add: row_ok_def)
      ultimately show ?thesis unfolding r prod.case returns_Some by simp
    qed
    done
qed

end
