(* ===== verification/Mode_Roundtrip.thy ===== *)
theory Mode_Roundtrip
  imports VP8_Modes
begin

section \<open>The round trip of the modes of a frame\<close>

text \<open>
  The rows of a frame one after the other, as the main loop of the decoder reads them, against the single pass of
  the encoder's iterator.
\<close>

unbundle bit_operations_syntax

lemma ParseIntraMode_reader:
  "ParseIntraMode mem X (d\<lparr>dec_br := b\<rparr>, br) = map_option (map_prod (\<lambda>d. d\<lparr>dec_br := b\<rparr>) id) (ParseIntraMode mem X (d, br))"
  apply (simp add: ParseIntraMode_def Let_def map_conv_bind_option Option.bind_assoc case_prod_beta comp_def cong: Option.bind_cong if_cong)
  by (intro conjI impI Option.bind_cong refl; simp)

lemma for_range_map:
  assumes "\<And>i s. body i (f s) = map_option f (body i s)"
  shows "for_range a b body (f s) = map_option f (for_range a b body s)"
proof (induction "b - a" arbitrary: a s)
  case (Suc n)
  then have "a < b" by simp
  have IH: "for_range (Suc a) b body (f t) = map_option f (for_range (Suc a) b body t)" for t
    using Suc.hyps(2) by (intro Suc.hyps(1)) simp
  show ?case using \<open>a < b\<close> IH by (cases "body a s") (simp_all add: for_range_step assms)
qed simp

text \<open>All rows of a frame, each followed by the start of the next one; the macroblocks of every row are kept.\<close>

definition read_modes :: "u8 list \<Rightarrow> VP8Decoder \<Rightarrow> (VP8MBData list list \<times> VP8Decoder) option" where
  "read_modes mem d = for_range 0 (nat (mb_h d))
     (\<lambda>_ (rows, d). do {
        (ok, d) \<leftarrow> VP8ParseIntraModeRow mem d;
        _ \<leftarrow> require (ok \<noteq> 0);
        let row = mb_data d;
        d \<leftarrow> VP8InitScanline d;
        Some (rows @ [row], d) }) ([], d)"

lemma parses_VP8ParseIntraModeRow:
  assumes "modes_ok em" "mode_probas_ok enc" "Y < nat (em_mb_h em)" "modes_ready enc em Y d"
  shows "\<exists>d'. row_read enc em Y d d' \<and>
    parses w mem bs (\<lambda>br. VP8ParseIntraModeRow mem (d\<lparr>dec_br := br\<rparr>)) (row_symbols enc em Y) (\<lambda>br. (1, d'\<lparr>dec_br := br\<rparr>))"
proof -
  let ?f = "\<lambda>b. map_prod (\<lambda>d. d\<lparr>dec_br := b\<rparr>) id"
  obtain d' where d': "row_read enc em Y d d'"
    "parses w mem bs (\<lambda>br. for_range 0 (nat (mb_w d)) (ParseIntraMode mem) (d, br)) (row_symbols enc em Y) (Pair d')"
    using parses_row[OF assms, of w mem bs] by blast
  have c: "for_range 0 (nat (mb_w d)) (ParseIntraMode mem) (d\<lparr>dec_br := b\<rparr>, br) =
      map_option (?f b) (for_range 0 (nat (mb_w d)) (ParseIntraMode mem) (d, br))" for b br
    using for_range_map[where f = "?f b" and body = "ParseIntraMode mem" and s = "(d, br)"] by (simp add: ParseIntraMode_reader split_paired_all)
  have "parses w mem bs (\<lambda>br. VP8ParseIntraModeRow mem (d\<lparr>dec_br := br\<rparr>)) (row_symbols enc em Y) (\<lambda>br. (1, d'\<lparr>dec_br := br\<rparr>))"
    unfolding parses_def
  proof (intro allI impI)
    fix br s ys assume "dec mem bs br s (row_symbols enc em Y @ ys)" "w \<longrightarrow> warm s"
    with d'(2) obtain br' where br': "for_range 0 (nat (mb_w d)) (ParseIntraMode mem) (d, br) = Some (d', br')"
      "dec mem bs br' (code_steps s (row_symbols enc em Y)) ys" unfolding parses_def by blast
    then show "\<exists>br'. VP8ParseIntraModeRow mem (d\<lparr>dec_br := br\<rparr>) = Some (1, d'\<lparr>dec_br := br'\<rparr>) \<and>
        dec mem bs br' (code_steps s (row_symbols enc em Y)) ys"
      using dec_eof[OF br'(2)] by (intro exI[of _ br']) (simp add: VP8ParseIntraModeRow_def c)
  qed
  with d'(1) show ?thesis by blast
qed

lemma InitScanline_reader: "VP8InitScanline (d\<lparr>dec_br := b\<rparr>) = map_option (\<lambda>d. d\<lparr>dec_br := b\<rparr>) (VP8InitScanline d)"
  unfolding VP8InitScanline_def map_conv_bind_option Option.bind_assoc by (simp add: comp_def) (intro Option.bind_cong refl; simp)

lemma InitScanline_ok:
  assumes "length (intra_l d) = 4" "mb_info d \<noteq> []"
  shows "\<exists>mi. VP8InitScanline d = Some (d\<lparr>mb_info := mi, intra_l := blit (intra_l d) 0 4 (\<lambda>_. 0), mb_x := 0\<rparr>) \<and> mi \<noteq> []"
proof -
  have "inb (intra_l d) 0 4" using assms(1) by (simp add: inb_def)
  from memset_ok[OF this, of 0] have m: "memset (intra_l d) 0 0 4 = Some (blit (intra_l d) 0 4 (\<lambda>_. 0))" .
  obtain b bs where mi: "mb_info d = b # bs" using assms(2) by (cases "mb_info d") auto
  show ?thesis unfolding VP8InitScanline_def m by (intro exI[of _ "b\<lparr>nz := 0, nz_dc := 0\<rparr> # bs"]) (simp add: mi ld_def st_def)
qed

definition rows_match :: "VP8Encoder \<Rightarrow> EncModes \<Rightarrow> VP8MBData list list \<Rightarrow> bool" where
  "rows_match enc em rows \<longleftrightarrow> (\<forall>Y<length rows. length (rows ! Y) = nat (em_mb_w em) \<and>
     (\<forall>X<nat (em_mb_w em). same_modes enc em Y X (rows ! Y ! X)))"

lemma rows_match_snoc: "rows_match enc em (rows @ [row]) \<longleftrightarrow> rows_match enc em rows \<and> length row = nat (em_mb_w em) \<and>
     (\<forall>X<nat (em_mb_w em). same_modes enc em (length rows) X (row ! X))"
  by (auto simp: rows_match_def less_Suc_eq nth_append)

lemma parses_read_modes:
  assumes ok: "modes_ok em" "mode_probas_ok enc" and rd: "modes_ready enc em 0 d" "mb_info d \<noteq> []" "mb_h d = em_mb_h em"
  shows "\<exists>rows d'. length rows = nat (em_mb_h em) \<and> rows_match enc em rows \<and>
    parses w mem bs (\<lambda>br. read_modes mem (d\<lparr>dec_br := br\<rparr>)) (all_mode_symbols enc em 0) (\<lambda>br. (rows, d'\<lparr>dec_br := br\<rparr>))"
proof -
  let ?H = "nat (em_mb_h em)"
  let ?I = "\<lambda>Y v. (case v of (rows, d) \<Rightarrow> length rows = Y \<and> rows_match enc em rows \<and> mb_info d \<noteq> [] \<and> (Y < ?H \<longrightarrow> modes_ready enc em Y d))"
  let ?c = "\<lambda>(Y :: nat) v br. (case v of (rows, d) \<Rightarrow> (rows, d\<lparr>dec_br := br\<rparr>))"
  let ?body = "\<lambda>(_ :: nat) (rows, d). do {
        (ok, d) \<leftarrow> VP8ParseIntraModeRow mem d;
        _ \<leftarrow> require (ok \<noteq> 0);
        let row = mb_data d;
        d \<leftarrow> VP8InitScanline d;
        Some (rows @ [row], d) }"
  have "\<exists>v. ?I ?H v \<and> parses w mem bs (\<lambda>br. for_range 0 ?H ?body (?c 0 ([], d) br)) (concat (map (row_symbols enc em) [0..<?H])) (?c ?H v)"
  proof (rule parses_for_inv[where I = ?I and c = ?c])
    fix w Y v assume Y: "Y < ?H" and v: "?I Y v"
    obtain rows d where vv: "v = (rows, d)" by (cases v)
    have q: "length rows = Y" "rows_match enc em rows" "mb_info d \<noteq> []" "modes_ready enc em Y d" using v Y by (simp_all add: vv)
    obtain d1 where d1: "row_read enc em Y d d1"
      "parses w mem bs (\<lambda>br. VP8ParseIntraModeRow mem (d\<lparr>dec_br := br\<rparr>)) (row_symbols enc em Y) (\<lambda>br. (1, d1\<lparr>dec_br := br\<rparr>))"
      using parses_VP8ParseIntraModeRow[OF ok Y q(4)] by blast
    obtain tp lft mds where r: "context_ok em Y (nat (em_mb_w em)) tp lft" "d1 = d\<lparr>intra_t := tp, intra_l := lft, mb_data := mds\<rparr>"
      "length mds = nat (em_mb_w em)" "\<forall>X<nat (em_mb_w em). same_modes enc em Y X (mds ! X)"
      using d1(1) unfolding row_read_def by blast
    have l: "length (intra_l d1) = 4" "mb_info d1 \<noteq> []" using r(1,2) q(3) by (simp_all add: context_ok_def)
    obtain mi where s: "VP8InitScanline d1 = Some (d1\<lparr>mb_info := mi, intra_l := blit (intra_l d1) 0 4 (\<lambda>_. 0), mb_x := 0\<rparr>)" "mi \<noteq> []"
      using InitScanline_ok[OF l] by blast
    let ?d3 = "d1\<lparr>mb_info := mi, intra_l := blit (intra_l d1) 0 4 (\<lambda>_. 0), mb_x := 0\<rparr>"
    have "same_modes_header enc d1" "mb_w d1 = mb_w d" using q(4) r(2) by (simp_all add: modes_ready_def same_modes_header_def)
    then have "modes_ready enc em (Suc Y) ?d3" if "Suc Y < ?H"
      using InitScanline_ready[OF ok(1) that q(4) d1(1) refl l(1) refl l(2)] s(1) by simp
    then have "?I (Suc Y) (rows @ [mds], ?d3)" using q r(3,4) s(2) by (simp add: rows_match_snoc)
    moreover have "parses w mem bs (\<lambda>br. ?body Y (?c Y v br)) (row_symbols enc em Y) (?c (Suc Y) (rows @ [mds], ?d3))"
      unfolding vv prod.case by (rule parses_last[OF d1(2)]) (simp add: InitScanline_reader s(1), simp add: r(2))
    ultimately show "\<exists>v'. ?I (Suc Y) v' \<and> parses w mem bs (\<lambda>br. ?body Y (?c Y v br)) (row_symbols enc em Y) (?c (Suc Y) v')" by blast
  qed (use rd in \<open>simp_all add: rows_match_def\<close>)
  then obtain rows d' where "?I ?H (rows, d')" and p: "parses w mem bs (\<lambda>br. for_range 0 ?H ?body (?c 0 ([], d) br))
     (concat (map (row_symbols enc em) [0..<?H])) (?c ?H (rows, d'))" by fast
  then have "length rows = ?H" "rows_match enc em rows" by simp_all
  moreover have "parses w mem bs (\<lambda>br. read_modes mem (d\<lparr>dec_br := br\<rparr>)) (all_mode_symbols enc em 0) (\<lambda>br. (rows, d'\<lparr>dec_br := br\<rparr>))"
    using p rd(3) by (simp add: read_modes_def all_mode_symbols_rows[OF ok(1)])
  ultimately show ?thesis by blast
qed

text \<open>The modes of a frame as a syntax element.\<close>

interpretation frame_modes: syntax_relation
  "\<lambda>malloc (enc, it, em, d). VP8CodeIntraModes malloc enc it em"
  "\<lambda>(enc, it, em, d). Pair (em\<lparr>em_nz := blit (em_nz em) 1 (nat (em_mb_w em)) (\<lambda>_. 0)\<rparr>)"
  "\<lambda>d mem br. read_modes mem (d\<lparr>dec_br := br\<rparr>)"
  "\<lambda>(enc, it, em, d) r. \<exists>rows d'. length rows = nat (em_mb_h em) \<and> rows_match enc em rows \<and> r = (\<lambda>br. (rows, d'\<lparr>dec_br := br\<rparr>))"
  "\<lambda>(enc, it, em, d). d"
  "\<lambda>(enc, it, em, d). all_mode_symbols enc em 0"
  "\<lambda>(enc, it, em, d). modes_ok em \<and> mode_probas_ok enc \<and> length (it_top_nz it) = 9 \<and> length (it_left_nz it) = 9 \<and>
     modes_ready enc em 0 d \<and> mb_info d \<noteq> [] \<and> mb_h d = em_mb_h em"
proof (unfold_locales, goal_cases)
  case (1 x malloc e)
  then show ?case by (auto intro: emits_VP8CodeIntraModes)
next
  case (2 x mem bs)
  obtain enc it em d where x: "x = (enc, it, em, d)" by (cases x)
  have "modes_ok em" "mode_probas_ok enc" "modes_ready enc em 0 d" "mb_info d \<noteq> []" "mb_h d = em_mb_h em"
    using 2 unfolding x prod.case by blast+
  from parses_read_modes[OF this, of False mem bs] obtain rows d' where r: "length rows = nat (em_mb_h em)" "rows_match enc em rows"
    "parses False mem bs (\<lambda>br. read_modes mem (d\<lparr>dec_br := br\<rparr>)) (all_mode_symbols enc em 0) (\<lambda>br. (rows, d'\<lparr>dec_br := br\<rparr>))" by blast
  show ?case unfolding x prod.case using r by (intro exI[of _ "\<lambda>br. (rows, d'\<lparr>dec_br := br\<rparr>)"] conjI exI[of _ rows] exI[of _ d'] refl)
qed

lemma i4_symbols_length: "length (i4_symbols pb m) \<le> 9"
  by (simp add: i4_symbols_def i4_path_def)

lemma mode_symbols_length: "length (mode_symbols enc em Y X) \<le> 151"
proof -
  have "length (concat (map (i4_symbols_at T L G y) [0..<4])) \<le> 36" for T L G y
    using concat_map_length[of 4 "i4_symbols_at T L G y" 9] by (simp add: i4_symbols_at_def i4_symbols_length)
  then have "length (i4_block_symbols T L G) \<le> 144" for T L G
    using concat_map_length[of 4 "\<lambda>y. concat (map (i4_symbols_at T L G y) [0..<4])" 36] by (simp add: i4_block_symbols_def)
  then have t: "length (if c then i16_symbols m else i4_block_symbols T L G) \<le> 144" for c m T L G
    by (simp add: i16_symbols_def)
  have "length (uv_symbols m) \<le> 3" "length (if c then segment_id_symbols ps m else []) \<le> 2" "length (if c then [x] else []) \<le> 1"
    for c m ps and x :: symbol
    by (simp_all add: uv_symbols_def segment_id_symbols_def)
  note u = this
  show ?thesis
    unfolding mode_symbols_def Let_def length_append length_Cons
    by (rule order_trans[OF add_mono[OF u(2) add_mono[OF u(3) Suc_le_mono[THEN iffD2, OF add_mono[OF t u(1)]]]]]) simp
qed

subsection \<open>Properties\<close>

text \<open>C31. The prediction modes of a frame survive the boolean coder. What VP8CodeIntraModes writes for the
  macroblocks in raster order, each 4x4 mode in the context of the modes above and to the left, segments and skip
  flags included, is read row by row with VP8ParseIntraModeRow and VP8InitScanline, which keep only one line of
  modes, as the same segment, skip flag, block type, luma modes and chroma mode of every macroblock.\<close>

theorem modes_roundtrip:
  assumes "modes_ok em" "mode_probas_ok enc" "length (it_top_nz it) = 9" "length (it_left_nz it) = 9"
    and "modes_ready enc em 0 d" "mb_info d \<noteq> []" "mb_h d = em_mb_h em" "em_mb_w em * em_mb_h em \<le> 2 ^ 20"
    and "malloc_ok malloc" "uint sz < 2 ^ 33"
  shows "\<exists>em' bw bw1 bw'. VP8BitWriterInit malloc sz = Some (1, bw) \<and> VP8CodeIntraModes malloc enc it em bw = Some (em', bw1) \<and>
    VP8BitWriterFinish malloc bw1 = Some bw' \<and> bw_error bw' = 0 \<and>
    (\<forall>pre post. \<exists>br rows d'. VP8InitBitReader (pre @ written bw' @ post) (int (length pre)) (of_nat (length (written bw'))) = Some br \<and>
       read_modes (pre @ written bw' @ post) (d\<lparr>dec_br := br\<rparr>) = Some (rows, d') \<and>
       length rows = nat (em_mb_h em) \<and> rows_match enc em rows)"
proof -
  let ?x = "(enc, it, em, d)"
  let ?W = "nat (em_mb_w em)" and ?H = "nat (em_mb_h em)"
  have W: "0 < ?W" "0 < ?H" "int (?W * ?H) \<le> 2 ^ 20" using assms(1,8) by (simp_all add: modes_ok_def)
  then have n: "?W * ?H \<le> 2 ^ 20" by (metis of_nat_le_iff of_nat_numeral of_nat_power)
  have "length (all_mode_symbols enc em 0) \<le> ?W * ?H * 151"
    unfolding all_mode_symbols_def by (rule concat_map_length) (rule mode_symbols_length)
  also have "\<dots> \<le> 2 ^ 20 * 151" by (rule mult_right_mono[OF n]) simp
  also have "\<dots> < 2 ^ 31" by simp
  finally have len: "length (all_mode_symbols enc em 0) < 2 ^ 31" .
  have "[0..<?W * ?H] = 0 # [1..<?W * ?H]" using W by (simp add: upt_conv_Cons)
  then have ne: "all_mode_symbols enc em 0 \<noteq> []" by (simp add: all_mode_symbols_def mode_symbols_def Let_def)
  have ok: "modes_ok em \<and> mode_probas_ok enc \<and> length (it_top_nz it) = 9 \<and> length (it_left_nz it) = 9 \<and>
     modes_ready enc em 0 d \<and> mb_info d \<noteq> [] \<and> mb_h d = em_mb_h em" using assms by blast
  from frame_modes.relation_roundtrip[of ?x malloc sz, unfolded prod.case, OF ok ne len assms(9,10)]
  obtain bw bw1 bw' where w: "VP8BitWriterInit malloc sz = Some (1, bw)"
      "VP8CodeIntraModes malloc enc it em bw = Some (em\<lparr>em_nz := blit (em_nz em) 1 (nat (em_mb_w em)) (\<lambda>_. 0)\<rparr>, bw1)"
      "VP8BitWriterFinish malloc bw1 = Some bw'" "bw_error bw' = 0"
    and r: "\<And>pre rest. \<exists>r br br'. (\<exists>rows d'. length rows = ?H \<and> rows_match enc em rows \<and> r = (\<lambda>br. (rows, d'\<lparr>dec_br := br\<rparr>))) \<and>
        VP8InitBitReader (pre @ written bw' @ rest) (int (length pre)) (of_nat (length (written bw'))) = Some br \<and>
        read_modes (pre @ written bw' @ rest) (d\<lparr>dec_br := br\<rparr>) = Some (r br')"
    by (elim exE conjE) (rule that, assumption+, blast)
  have "\<exists>br rows d'. VP8InitBitReader (pre @ written bw' @ post) (int (length pre)) (of_nat (length (written bw'))) = Some br \<and>
       read_modes (pre @ written bw' @ post) (d\<lparr>dec_br := br\<rparr>) = Some (rows, d') \<and> length rows = ?H \<and> rows_match enc em rows" for pre post
  proof -
    from r[of pre post] obtain q br br' rows d' where "length rows = ?H" "rows_match enc em rows" "q = (\<lambda>br. (rows, d'\<lparr>dec_br := br\<rparr>))"
        "VP8InitBitReader (pre @ written bw' @ post) (int (length pre)) (of_nat (length (written bw'))) = Some br"
        "read_modes (pre @ written bw' @ post) (d\<lparr>dec_br := br\<rparr>) = Some (q br')" by blast
    then show ?thesis by (intro exI[of _ br] exI[of _ rows] exI[of _ "d'\<lparr>dec_br := br'\<rparr>"]) simp
  qed
  with w show ?thesis by blast
qed

text \<open>A frame of two macroblocks, the second one with 4x4 modes.\<close>

definition sample_modes :: EncModes where
  "sample_modes =
     \<lparr>em_mb_w = 2, em_mb_h = 1, em_preds_w = 9,
      em_preds =
        [0, 0, 0, 0, 0, 0, 0, 0, 0,
         0, 1, 1, 1, 1, 0, 1, 2, 3,
         0, 1, 1, 1, 1, 4, 5, 6, 7,
         0, 1, 1, 1, 1, 8, 9, 0, 9,
         0, 1, 1, 1, 1, 7, 6, 5, 4],
      em_preds_base = 10,
      em_mb_info = [\<lparr>mb_type = 1, uv_mode = 2, mb_skip = 1, mb_segment = 3\<rparr>, \<lparr>mb_type = 0, uv_mode = 1, mb_skip = 0, mb_segment = 0\<rparr>],
      em_nz = [0, 0, 0]\<rparr>"

definition sample_iterator :: VP8EncIterator where
  "sample_iterator = \<lparr>it_x = 0, it_y = 0, it_preds = 0, it_nz = 0, it_mb = 0, it_count_down = 0, it_top_nz = replicate 9 0, it_left_nz = replicate 9 0\<rparr>"

definition sample_row_decoder :: VP8Decoder where
  "sample_row_decoder = sample_decoder\<lparr>mb_w := 2, mb_h := 1, use_skip_proba := 1, skip_p := 99,
     proba := sample_proba\<lparr>segments := [200, 255, 17]\<rparr>, segment_hdr := sample_segment_header\<lparr>update_map := 1\<rparr>,
     intra_t := replicate 8 0, intra_l := replicate 4 0, mb_info := replicate 3 \<lparr>nz = 0, nz_dc = 0\<rparr>,
     mb_data := replicate 2 \<lparr>md_coeffs = replicate 384 0, md_is_i4x4 = 0, md_imodes = replicate 16 0, md_uvmode = 0, non_zero_y = 0,
       non_zero_uv = 0, md_dither = 0, md_skip = 0, md_segment = 0\<rparr>\<rparr>"

lemma less_4_cases: "(\<forall>y<4. P y) \<longleftrightarrow> P 0 \<and> P 1 \<and> P 2 \<and> P (3 :: nat)"
  by (auto simp: less_Suc_eq numeral_eq_Suc)

lemma sample_modes_ok: "modes_ok sample_modes" "modes_ready sample_encoder sample_modes 0 sample_row_decoder" "mode_probas_ok sample_encoder"
proof -
  have p: "em_mb_w sample_modes = 2" "em_mb_h sample_modes = 1" "nat (em_mb_w sample_modes) = 2" "nat (em_mb_h sample_modes) = 1"
    by (simp_all add: sample_modes_def)
  have m0: "mode_at sample_modes (mb_pos sample_modes 0 0) y x = 1" if "y < 4" "x < 4" for y x
  proof -
    have "\<forall>y<4. \<forall>x<4. mode_at sample_modes (mb_pos sample_modes 0 0) y x = 1"
      unfolding less_4_cases by (simp add: sample_modes_def mode_at_def mb_pos_def)
    with that show ?thesis by blast
  qed
  have b: "\<forall>x<2 * 4. mode_above sample_modes (em_preds_base sample_modes) x = 0" "\<forall>y<1 * 4. mode_beside sample_modes (em_preds_base sample_modes) y = 0"
    by (auto simp: sample_modes_def mode_above_def mode_beside_def numeral_eq_Suc less_Suc_eq)
  have t: "mb_type (em_mb_info sample_modes ! (0 * 2 + 1)) = 0" by (simp add: sample_modes_def)
  show "modes_ok sample_modes"
    unfolding modes_ok_def p
  proof (intro conjI, goal_cases)
    case 11
    show ?case using b(2) by simp
  next
    case 12
    have "\<exists>m<4. \<forall>y<4. \<forall>x<4. mode_at sample_modes (mb_pos sample_modes Y X) y x = m"
      if "Y < nat 1" "X < nat 2" "mb_type (em_mb_info sample_modes ! (Y * nat 2 + X)) = 1" for Y X
    proof -
      have "Y = 0" "X = 0" using that t by (auto simp: less_Suc_eq numeral_2_eq_2)
      with m0 show ?thesis by (intro exI[of _ 1]) simp
    qed
    then show ?case by blast
  qed (use b in \<open>simp_all add: sample_modes_def mb_fields_ok_def\<close>)
  have c: "context_ok sample_modes 0 0 (replicate 8 0) (replicate 4 0)"
    unfolding context_ok_def p less_4_cases
    by (simp add: less_Suc_eq numeral_2_eq_2) (simp add: sample_modes_def mode_above_def mb_pos_def)
  show "modes_ready sample_encoder sample_modes 0 sample_row_decoder"
    using c by (simp add: modes_ready_def same_modes_header_def sample_row_decoder_def sample_encoder_def sample_modes_def sample_decoder_def sample_proba_def VP8ResetProba_def)
  show "mode_probas_ok sample_encoder" by (simp add: mode_probas_ok_def sample_encoder_def)
qed

lemma modes_roundtrip_witness:
  "\<exists>em' bw bw1 bw'. VP8BitWriterInit (\<lambda>n. Some (replicate n 0)) 16 = Some (1, bw) \<and>
    VP8CodeIntraModes (\<lambda>n. Some (replicate n 0)) sample_encoder sample_iterator sample_modes bw = Some (em', bw1) \<and>
    VP8BitWriterFinish (\<lambda>n. Some (replicate n 0)) bw1 = Some bw' \<and> bw_error bw' = 0 \<and>
    (\<forall>pre post. \<exists>br rows d'. VP8InitBitReader (pre @ written bw' @ post) (int (length pre)) (of_nat (length (written bw'))) = Some br \<and>
       read_modes (pre @ written bw' @ post) (sample_row_decoder\<lparr>dec_br := br\<rparr>) = Some (rows, d') \<and>
       length rows = nat (em_mb_h sample_modes) \<and> rows_match sample_encoder sample_modes rows)"
proof -
  have f: "length (it_top_nz sample_iterator) = 9" "length (it_left_nz sample_iterator) = 9" "mb_info sample_row_decoder \<noteq> []"
    "mb_h sample_row_decoder = em_mb_h sample_modes" "em_mb_w sample_modes * em_mb_h sample_modes \<le> 2 ^ 20" "uint (16 :: u64) < 2 ^ 33"
    by (simp_all add: sample_iterator_def sample_row_decoder_def sample_modes_def)
  show ?thesis by (rule modes_roundtrip[OF sample_modes_ok(1,3) f(1,2) sample_modes_ok(2) f(3-5) sample_malloc(1) f(6)])
qed

end
