(* ===== verification/Inverse_Transforms.thy ===== *)
theory Inverse_Transforms
  imports Bool_Writer VP8_Tables
begin

section \<open>Inverse transforms\<close>

text \<open>
  The transforms that turn dequantized coefficients into samples: src/dsp/dec.c in the portable version, and their
  selection in src/dec/frame_dec.c from the codes that the parser keeps for each block. A block is 16 integers
  of \<open>int16_t\<close> range at an offset of \<open>src\<close>; the samples are bytes with the stride BPS. Products of \<open>int\<close> are
  checked: \<open>None\<close> stands for a signed overflow, which is undefined in C. The sums are far from an overflow whenever
  the products do not overflow.
\<close>

unbundle bit_operations_syntax

abbreviation (input) "BPS \<equiv> (32 :: int)"

definition mul32 :: "int \<Rightarrow> int \<Rightarrow> int option" where
  "mul32 a b = (if - (2 ^ 31) \<le> a * b \<and> a * b < 2 ^ 31 then Some (a * b) else None)"

definition WEBP_TRANSFORM_AC3_MUL1 :: "int \<Rightarrow> int option" where
  "WEBP_TRANSFORM_AC3_MUL1 a = do { m \<leftarrow> mul32 a 20091; Some (drop_bit 16 m + a) }"

definition WEBP_TRANSFORM_AC3_MUL2 :: "int \<Rightarrow> int option" where
  "WEBP_TRANSFORM_AC3_MUL2 a = do { m \<leftarrow> mul32 a 35468; Some (drop_bit 16 m) }"

definition clip_8b :: "int \<Rightarrow> u8" where
  "clip_8b v = (if v AND NOT 0xff = 0 then word_of_int v else if v < 0 then 0 else 255)"

definition STORE :: "u8 list \<Rightarrow> int \<Rightarrow> int \<Rightarrow> int \<Rightarrow> int \<Rightarrow> u8 list option" where
  "STORE dst p x y v = do {
     o1 \<leftarrow> ld dst (p + x + y * BPS);
     st dst (p + x + y * BPS) (clip_8b (uint o1 + drop_bit 3 v)) }"

definition STORE2 :: "u8 list \<Rightarrow> int \<Rightarrow> int \<Rightarrow> int \<Rightarrow> int \<Rightarrow> int \<Rightarrow> u8 list option" where
  "STORE2 dst p y dc d c = do {
     dst \<leftarrow> STORE dst p 0 y (dc + d);
     dst \<leftarrow> STORE dst p 1 y (dc + c);
     dst \<leftarrow> STORE dst p 2 y (dc - c);
     STORE dst p 3 y (dc - d) }"

definition vertical_pass :: "int list \<Rightarrow> int \<Rightarrow> nat \<Rightarrow> int list \<Rightarrow> int list option" where
  "vertical_pass src s i C = do {
     in0 \<leftarrow> ld src (s + int i);
     in4 \<leftarrow> ld src (s + int i + 4);
     in8 \<leftarrow> ld src (s + int i + 8);
     in12 \<leftarrow> ld src (s + int i + 12);
     let a = in0 + in8;
     let b = in0 - in8;
     c1 \<leftarrow> WEBP_TRANSFORM_AC3_MUL2 in4;
     c2 \<leftarrow> WEBP_TRANSFORM_AC3_MUL1 in12;
     d1 \<leftarrow> WEBP_TRANSFORM_AC3_MUL1 in4;
     d2 \<leftarrow> WEBP_TRANSFORM_AC3_MUL2 in12;
     let c = c1 - c2;
     let d = d1 + d2;
     C \<leftarrow> st C (4 * int i) (a + d);
     C \<leftarrow> st C (4 * int i + 1) (b + c);
     C \<leftarrow> st C (4 * int i + 2) (b - c);
     st C (4 * int i + 3) (a - d) }"

definition horizontal_pass :: "int list \<Rightarrow> int \<Rightarrow> nat \<Rightarrow> u8 list \<Rightarrow> u8 list option" where
  "horizontal_pass C p i dst = do {
     tmp0 \<leftarrow> ld C (int i);
     tmp4 \<leftarrow> ld C (int i + 4);
     tmp8 \<leftarrow> ld C (int i + 8);
     tmp12 \<leftarrow> ld C (int i + 12);
     let dc = tmp0 + 4;
     let a = dc + tmp8;
     let b = dc - tmp8;
     c1 \<leftarrow> WEBP_TRANSFORM_AC3_MUL2 tmp4;
     c2 \<leftarrow> WEBP_TRANSFORM_AC3_MUL1 tmp12;
     d1 \<leftarrow> WEBP_TRANSFORM_AC3_MUL1 tmp4;
     d2 \<leftarrow> WEBP_TRANSFORM_AC3_MUL2 tmp12;
     let c = c1 - c2;
     let d = d1 + d2;
     dst \<leftarrow> STORE dst (p + int i * BPS) 0 0 (a + d);
     dst \<leftarrow> STORE dst (p + int i * BPS) 1 0 (b + c);
     dst \<leftarrow> STORE dst (p + int i * BPS) 2 0 (b - c);
     STORE dst (p + int i * BPS) 3 0 (a - d) }"

text \<open>The local array \<open>C\<close> is written before it is read.\<close>

definition TransformOne :: "int list \<Rightarrow> int \<Rightarrow> u8 list \<Rightarrow> int \<Rightarrow> u8 list option" where
  "TransformOne src s dst p = do {
     C \<leftarrow> for_range 0 4 (vertical_pass src s) (replicate 16 0);
     for_range 0 4 (horizontal_pass C p) dst }"

definition TransformAC3 :: "int list \<Rightarrow> int \<Rightarrow> u8 list \<Rightarrow> int \<Rightarrow> u8 list option" where
  "TransformAC3 src s dst p = do {
     in0 \<leftarrow> ld src s;
     in4 \<leftarrow> ld src (s + 4);
     in1 \<leftarrow> ld src (s + 1);
     let a = in0 + 4;
     c4 \<leftarrow> WEBP_TRANSFORM_AC3_MUL2 in4;
     d4 \<leftarrow> WEBP_TRANSFORM_AC3_MUL1 in4;
     c1 \<leftarrow> WEBP_TRANSFORM_AC3_MUL2 in1;
     d1 \<leftarrow> WEBP_TRANSFORM_AC3_MUL1 in1;
     dst \<leftarrow> STORE2 dst p 0 (a + d4) d1 c1;
     dst \<leftarrow> STORE2 dst p 1 (a + c4) d1 c1;
     dst \<leftarrow> STORE2 dst p 2 (a - c4) d1 c1;
     STORE2 dst p 3 (a - d4) d1 c1 }"

definition TransformTwo :: "int list \<Rightarrow> int \<Rightarrow> u8 list \<Rightarrow> int \<Rightarrow> bool \<Rightarrow> u8 list option" where
  "TransformTwo src s dst p do_two = do {
     dst \<leftarrow> TransformOne src s dst p;
     (if do_two then TransformOne src (s + 16) dst (p + 4) else Some dst) }"

definition TransformUV :: "int list \<Rightarrow> int \<Rightarrow> u8 list \<Rightarrow> int \<Rightarrow> u8 list option" where
  "TransformUV src s dst p = do {
     dst \<leftarrow> TransformTwo src (s + 0 * 16) dst p True;
     TransformTwo src (s + 2 * 16) dst (p + 4 * BPS) True }"

definition TransformDC :: "int list \<Rightarrow> int \<Rightarrow> u8 list \<Rightarrow> int \<Rightarrow> u8 list option" where
  "TransformDC src s dst p = do {
     in0 \<leftarrow> ld src s;
     let DC = in0 + 4;
     for_range 0 4 (\<lambda>j dst. for_range 0 4 (\<lambda>i dst. STORE dst p (int i) (int j) DC) dst) dst }"

definition TransformDCUV :: "int list \<Rightarrow> int \<Rightarrow> u8 list \<Rightarrow> int \<Rightarrow> u8 list option" where
  "TransformDCUV src s dst p = do {
     v0 \<leftarrow> ld src (s + 0 * 16);
     dst \<leftarrow> (if v0 \<noteq> 0 then TransformDC src (s + 0 * 16) dst p else Some dst);
     v1 \<leftarrow> ld src (s + 1 * 16);
     dst \<leftarrow> (if v1 \<noteq> 0 then TransformDC src (s + 1 * 16) dst (p + 4) else Some dst);
     v2 \<leftarrow> ld src (s + 2 * 16);
     dst \<leftarrow> (if v2 \<noteq> 0 then TransformDC src (s + 2 * 16) dst (p + 4 * BPS) else Some dst);
     v3 \<leftarrow> ld src (s + 3 * 16);
     (if v3 \<noteq> 0 then TransformDC src (s + 3 * 16) dst (p + 4 * BPS + 4) else Some dst) }"

definition DoTransform :: "u32 \<Rightarrow> int list \<Rightarrow> int \<Rightarrow> u8 list \<Rightarrow> int \<Rightarrow> u8 list option" where
  "DoTransform bits src s dst p =
     (let k = uint (drop_bit 30 bits)
      in if k = 3 then TransformTwo src s dst p False
         else if k = 2 then TransformAC3 src s dst p
         else if k = 1 then TransformDC src s dst p
         else Some dst)"

definition DoUVTransform :: "u32 \<Rightarrow> int list \<Rightarrow> int \<Rightarrow> u8 list \<Rightarrow> int \<Rightarrow> u8 list option" where
  "DoUVTransform bits src s dst p =
     (if bits AND 0xff \<noteq> 0
      then if bits AND 0xaa \<noteq> 0 then TransformUV src s dst p else TransformDCUV src s dst p
      else Some dst)"

text \<open>The inverse Walsh-Hadamard transform: the DC coefficients of the 16 luma blocks, 16 apart in \<open>out\<close>.\<close>

definition wht_column :: "int list \<Rightarrow> nat \<Rightarrow> int list \<Rightarrow> int list option" where
  "wht_column src i tmp = do {
     in0 \<leftarrow> ld src (0 + int i);
     in12 \<leftarrow> ld src (12 + int i);
     in4 \<leftarrow> ld src (4 + int i);
     in8 \<leftarrow> ld src (8 + int i);
     let a0 = in0 + in12;
     let a1 = in4 + in8;
     let a2 = in4 - in8;
     let a3 = in0 - in12;
     tmp \<leftarrow> st tmp (0 + int i) (a0 + a1);
     tmp \<leftarrow> st tmp (8 + int i) (a0 - a1);
     tmp \<leftarrow> st tmp (4 + int i) (a3 + a2);
     st tmp (12 + int i) (a3 - a2) }"

definition wht_row :: "int list \<Rightarrow> nat \<Rightarrow> int list \<Rightarrow> int list option" where
  "wht_row tmp i out = do {
     t0 \<leftarrow> ld tmp (0 + int i * 4);
     t3 \<leftarrow> ld tmp (3 + int i * 4);
     t1 \<leftarrow> ld tmp (1 + int i * 4);
     t2 \<leftarrow> ld tmp (2 + int i * 4);
     let dc = t0 + 3;
     let a0 = dc + t3;
     let a1 = t1 + t2;
     let a2 = t1 - t2;
     let a3 = dc - t3;
     out \<leftarrow> st out (0 + int i * 64) (signed_take_bit 15 (drop_bit 3 (a0 + a1)));
     out \<leftarrow> st out (16 + int i * 64) (signed_take_bit 15 (drop_bit 3 (a3 + a2)));
     out \<leftarrow> st out (32 + int i * 64) (signed_take_bit 15 (drop_bit 3 (a0 - a1)));
     st out (48 + int i * 64) (signed_take_bit 15 (drop_bit 3 (a3 - a2))) }"

definition TransformWHT :: "int list \<Rightarrow> int list \<Rightarrow> int list option" where
  "TransformWHT src out = do {
     tmp \<leftarrow> for_range 0 4 (wht_column src) (replicate 16 0);
     for_range 0 4 (wht_row tmp) out }"

subsection \<open>Blocks of samples\<close>


text \<open>The first \<open>n\<close> rows of the 4x4 block at \<open>p\<close> with \<open>f y x\<close> added.\<close>

definition add_rows :: "u8 list \<Rightarrow> int \<Rightarrow> (nat \<Rightarrow> nat \<Rightarrow> int) \<Rightarrow> nat \<Rightarrow> u8 list" where
  "add_rows dst p f n = map (\<lambda>k. let q = int k - p; y = q div BPS; x = q mod BPS
     in if 0 \<le> q \<and> y < int n \<and> x < 4 then clip_8b (uint (dst ! k) + drop_bit 3 (f (nat y) (nat x))) else dst ! k) [0..<length dst]"

abbreviation add_block :: "u8 list \<Rightarrow> int \<Rightarrow> (nat \<Rightarrow> nat \<Rightarrow> int) \<Rightarrow> u8 list" where
  "add_block dst p f \<equiv> add_rows dst p f 4"

definition inside_block :: "u8 list \<Rightarrow> int \<Rightarrow> bool" where
  "inside_block dst p \<longleftrightarrow> 0 \<le> p \<and> p + 3 * BPS + 4 \<le> int (length dst)"

lemma add_rows_0 [simp]: "add_rows dst p f 0 = dst"
proof (rule nth_equalityI)
  show "add_rows dst p f 0 ! k = dst ! k" if "k < length (add_rows dst p f 0)" for k
    using that by (auto simp: add_rows_def Let_def pos_imp_zdiv_neg_iff)
qed (simp add: add_rows_def)

lemma length_add_rows [simp]: "length (add_rows dst p f n) = length dst"
  by (simp add: add_rows_def)

lemma add_rows_nth: "k < length dst \<Longrightarrow> add_rows dst p f n ! k =
    (if p \<le> int k \<and> (int k - p) div 32 < int n \<and> (int k - p) mod 32 < 4
     then clip_8b (uint (dst ! k) + drop_bit 3 (f (nat ((int k - p) div 32)) (nat ((int k - p) mod 32)))) else dst ! k)"
  by (simp add: add_rows_def Let_def)

lemma add_rows_cong: "(\<And>y x. y < n \<Longrightarrow> x < 4 \<Longrightarrow> f y x = g y x) \<Longrightarrow> add_rows dst p f n = add_rows dst p g n"
proof (rule nth_equalityI)
  fix k assume eq: "\<And>y x. y < n \<Longrightarrow> x < 4 \<Longrightarrow> f y x = g y x" and k: "k < length (add_rows dst p f n)"
  define y x where "y = (int k - p) div 32" and "x = (int k - p) mod 32"
  have "0 \<le> x" "p \<le> int k \<Longrightarrow> 0 \<le> y" by (simp_all add: x_def y_def pos_imp_zdiv_nonneg_iff)
  then have "p \<le> int k \<and> y < int n \<and> x < 4 \<Longrightarrow> f (nat y) (nat x) = g (nat y) (nat x)" by (intro eq) auto
  with k show "add_rows dst p f n ! k = add_rows dst p g n ! k"
    unfolding y_def x_def by (simp add: add_rows_nth)
qed simp

lemma add_rows_Suc:
  assumes "0 \<le> p"
  shows "blit (add_rows dst p f i) (p + int i * BPS) 4 (\<lambda>x. clip_8b (uint (add_rows dst p f i ! nat (p + int i * BPS + int x)) + drop_bit 3 (f i x)))
    = add_rows dst p f (Suc i)"
proof (rule nth_equalityI)
  fix k assume "k < length (blit (add_rows dst p f i) (p + int i * BPS) 4 (\<lambda>x. clip_8b (uint (add_rows dst p f i ! nat (p + int i * BPS + int x)) + drop_bit 3 (f i x))))"
  then have k: "k < length dst" by simp
  define y x where "y = (int k - p) div 32" and "x = (int k - p) mod 32"
  have yx: "int k = p + 32 * y + x" "0 \<le> x" "x < 32" unfolding y_def x_def by simp_all
  show "blit (add_rows dst p f i) (p + int i * BPS) 4 (\<lambda>x. clip_8b (uint (add_rows dst p f i ! nat (p + int i * BPS + int x)) + drop_bit 3 (f i x))) ! k
    = add_rows dst p f (Suc i) ! k"
  proof (cases "y = int i \<and> x < 4")
    case True
    then have "p + int i * 32 \<le> int k" "int k < p + int i * 32 + int 4" "nat (int k - (p + int i * 32)) = nat x" using yx by auto
    moreover have "nat (p + int i * 32 + int (nat x)) = k" using True yx by simp
    moreover have "add_rows dst p f i ! k = dst ! k" using True k by (simp add: add_rows_nth y_def)
    moreover have "add_rows dst p f (Suc i) ! k = clip_8b (uint (dst ! k) + drop_bit 3 (f i (nat x)))"
      using True k yx unfolding add_rows_nth[OF k] y_def [symmetric] x_def [symmetric] by simp
    ultimately show ?thesis using k by (simp add: blit_nth)
  next
    case False
    have "\<not> (p + int i * 32 \<le> int k \<and> int k < p + int i * 32 + int 4)"
    proof
      assume a: "p + int i * 32 \<le> int k \<and> int k < p + int i * 32 + int 4"
      then have "32 * int i \<le> 32 * y + x" "32 * y + x < 32 * int i + 4" using yx(1) by linarith+
      moreover from this have "y < int i + 1" "int i < y + 1" using yx(2,3) by linarith+
      ultimately show False using False by linarith
    qed
    moreover have "add_rows dst p f (Suc i) ! k = add_rows dst p f i ! k"
      unfolding add_rows_nth[OF k] y_def [symmetric] x_def [symmetric] using False by (auto simp: less_Suc_eq)
    ultimately show ?thesis using k by (auto simp: blit_nth)
  qed
qed simp

text \<open>Four stores into one row.\<close>

definition store4 :: "u8 list \<Rightarrow> int \<Rightarrow> int \<Rightarrow> int \<Rightarrow> int \<Rightarrow> int \<Rightarrow> u8 list option" where
  "store4 dst q v0 v1 v2 v3 = do {
     dst \<leftarrow> STORE dst q 0 0 v0;
     dst \<leftarrow> STORE dst q 1 0 v1;
     dst \<leftarrow> STORE dst q 2 0 v2;
     STORE dst q 3 0 v3 }"

lemma STORE_blit:
  assumes "inb dst q 4" "j < 4"
  shows "STORE (blit dst q j (\<lambda>x. clip_8b (uint (dst ! nat (q + int x)) + drop_bit 3 (v x)))) q (int j) 0 (v j) =
    Some (blit dst q (Suc j) (\<lambda>x. clip_8b (uint (dst ! nat (q + int x)) + drop_bit 3 (v x))))"
proof -
  have "ld (blit dst q j (\<lambda>x. clip_8b (uint (dst ! nat (q + int x)) + drop_bit 3 (v x)))) (q + int j) = Some (dst ! nat (q + int j))"
    by (subst ld_blit_out) (simp_all add: ld_inb[OF assms])
  then show ?thesis using st_blit[OF assms refl] by (simp add: STORE_def)
qed

lemma store4_blit:
  assumes "inb dst q 4"
  shows "store4 dst q (v 0) (v 1) (v 2) (v 3) = Some (blit dst q 4 (\<lambda>x. clip_8b (uint (dst ! nat (q + int x)) + drop_bit 3 (v x))))"
  using STORE_blit[OF assms, of 0 v] STORE_blit[OF assms, of 1 v] STORE_blit[OF assms, of 2 v] STORE_blit[OF assms, of 3 v]
  by (simp add: store4_def numeral_eq_Suc)

lemma store4_row:
  assumes "inside_block dst p" "i < 4"
  shows "store4 (add_rows dst p f i) (p + int i * BPS) (f i 0) (f i 1) (f i 2) (f i 3) = Some (add_rows dst p f (Suc i))"
proof -
  have "inb (add_rows dst p f i) (p + int i * 32) 4" "0 \<le> p" using assms by (auto simp: inb_def inside_block_def)
  then show ?thesis using store4_blit[of "add_rows dst p f i" "p + int i * 32" "f i"] add_rows_Suc[of p dst f i] by simp
qed

lemma rows_loop:
  assumes "inside_block dst p" "\<And>i dst. i < 4 \<Longrightarrow> body i dst = store4 dst (p + int i * BPS) (f i 0) (f i 1) (f i 2) (f i 3)"
  shows "for_range 0 4 body dst = Some (add_block dst p f)"
proof -
  have "\<exists>t. for_range 0 4 body dst = Some t \<and> t = add_block dst p f"
    by (rule for_range_inv[where I = "\<lambda>i t. t = add_rows dst p f i"]) (use assms(2) store4_row[OF assms(1)] in \<open>simp_all only: add_rows_0 Suc_leI simp_thms ex_simps, auto\<close>)
  then show ?thesis by simp
qed

subsection \<open>What each transform adds\<close>

definition mul1 :: "int \<Rightarrow> int" where "mul1 a = drop_bit 16 (a * 20091) + a"
definition mul2 :: "int \<Rightarrow> int" where "mul2 a = drop_bit 16 (a * 35468)"

definition fits :: "int \<Rightarrow> bool" where
  "fits a \<longleftrightarrow> - 60547 \<le> a \<and> a \<le> 60547"

lemma MUL_fits: "fits a \<Longrightarrow> WEBP_TRANSFORM_AC3_MUL1 a = Some (mul1 a)" "fits a \<Longrightarrow> WEBP_TRANSFORM_AC3_MUL2 a = Some (mul2 a)"
  by (simp_all add: WEBP_TRANSFORM_AC3_MUL1_def WEBP_TRANSFORM_AC3_MUL2_def mul1_def mul2_def mul32_def fits_def)

lemma MUL2_overflow: "\<not> fits a \<Longrightarrow> WEBP_TRANSFORM_AC3_MUL2 a = None"
  by (auto simp: WEBP_TRANSFORM_AC3_MUL2_def mul32_def fits_def)

text \<open>The one-dimensional transform of four values.\<close>

definition butterfly :: "int \<Rightarrow> int \<Rightarrow> int \<Rightarrow> int \<Rightarrow> nat \<Rightarrow> int" where
  "butterfly x0 x4 x8 x12 k =
     (if k = 0 then x0 + x8 + (mul1 x4 + mul2 x12)
      else if k = 1 then x0 - x8 + (mul2 x4 - mul1 x12)
      else if k = 2 then x0 - x8 - (mul2 x4 - mul1 x12)
      else x0 + x8 - (mul1 x4 + mul2 x12))"

definition one_column :: "int list \<Rightarrow> int \<Rightarrow> nat \<Rightarrow> nat \<Rightarrow> int" where
  "one_column src s i = butterfly (src ! nat (s + int i)) (src ! nat (s + int i + 4)) (src ! nat (s + int i + 8)) (src ! nat (s + int i + 12))"

definition one_res :: "int list \<Rightarrow> int \<Rightarrow> nat \<Rightarrow> nat \<Rightarrow> int" where
  "one_res src s y = butterfly (one_column src s 0 y + 4) (one_column src s 1 y) (one_column src s 2 y) (one_column src s 3 y)"

text \<open>No product of the transform overflows.\<close>

definition one_fits :: "int list \<Rightarrow> int \<Rightarrow> bool" where
  "one_fits src s \<longleftrightarrow> inb src s 16 \<and> (\<forall>i<4. fits (src ! nat (s + int i + 4)) \<and> fits (src ! nat (s + int i + 12))) \<and>
     (\<forall>y<4. fits (one_column src s 1 y) \<and> fits (one_column src s 3 y))"

lemma vertical_eq:
  assumes b: "inb src s 16" and fit: "\<forall>i<4. fits (src ! nat (s + int i + 4)) \<and> fits (src ! nat (s + int i + 12))"
  shows "\<exists>C. for_range 0 4 (vertical_pass src s) (replicate 16 0) = Some C \<and> (\<forall>i<4. ld C (int i) = Some (one_column src s 0 i) \<and>
    ld C (int i + 4) = Some (one_column src s 1 i) \<and> ld C (int i + 8) = Some (one_column src s 2 i) \<and> ld C (int i + 12) = Some (one_column src s 3 i))"
proof -
  let ?C = "\<lambda>i. map (\<lambda>k. if k < 4 * i then one_column src s (k div 4) (k mod 4) else 0) [0..<16]"
  have lds: "ld src (s + int i) = Some (src ! nat (s + int i))" "ld src (s + int i + 4) = Some (src ! nat (s + int i + 4))"
    "ld src (s + int i + 8) = Some (src ! nat (s + int i + 8))" "ld src (s + int i + 12) = Some (src ! nat (s + int i + 12))"
    "fits (src ! nat (s + int i + 4))" "fits (src ! nat (s + int i + 12))" if "i < 4" for i
    using b fit that by (simp_all add: inb_def ld_def)
  have loop: "\<exists>C. for_range 0 4 (vertical_pass src s) (replicate 16 0) = Some C \<and> C = ?C 4"
  proof (rule for_range_inv[where I = "\<lambda>i C. C = ?C i"])
    show "replicate 16 0 = ?C 0" by (rule nth_equalityI) auto
    fix i C assume i: "i < 4" and C: "C = ?C i"
    have len: "length C = 16" unfolding C by simp
    have "vertical_pass src s i C = Some (C[4 * i := one_column src s i 0, 4 * i + 1 := one_column src s i 1,
        4 * i + 2 := one_column src s i 2, 4 * i + 3 := one_column src s i 3])"
      using i len by (simp add: vertical_pass_def lds MUL_fits Let_def st_def one_column_def butterfly_def nat_add_distrib nat_mult_distrib)
    moreover have "C[4 * i := one_column src s i 0, 4 * i + 1 := one_column src s i 1, 4 * i + 2 := one_column src s i 2, 4 * i + 3 := one_column src s i 3] = ?C (Suc i)"
    proof (rule nth_equalityI)
      fix k assume "k < length (C[4 * i := one_column src s i 0, 4 * i + 1 := one_column src s i 1, 4 * i + 2 := one_column src s i 2, 4 * i + 3 := one_column src s i 3])"
      then have k: "k < 16" using len by simp
      have m: "(4 * i) div 4 = i" "(4 * i + 1) div 4 = i" "(4 * i + 2) div 4 = i" "(4 * i + 3) div 4 = i"
        "(4 * i) mod 4 = 0" "(4 * i + 1) mod 4 = 1" "(4 * i + 2) mod 4 = 2" "(4 * i + 3) mod 4 = 3"
        "Suc (4 * i) div 4 = i" "Suc (4 * i) mod 4 = 1" "Suc (Suc (4 * i)) div 4 = i" "Suc (Suc (4 * i)) mod 4 = 2" by presburger+
      consider "k < 4 * i" | "k = 4 * i" | "k = 4 * i + 1" | "k = 4 * i + 2" | "k = 4 * i + 3" | "4 * Suc i \<le> k" by fastforce
      then show "C[4 * i := one_column src s i 0, 4 * i + 1 := one_column src s i 1, 4 * i + 2 := one_column src s i 2, 4 * i + 3 := one_column src s i 3] ! k = ?C (Suc i) ! k"
        using k len by cases (simp_all add: C nth_list_update m)
    qed (simp add: len)
    ultimately show "\<exists>t'. vertical_pass src s i C = Some t' \<and> t' = ?C (Suc i)" by simp
  qed simp
  define C where "C = ?C 4"
  have v: "for_range 0 4 (vertical_pass src s) (replicate 16 0) = Some C" unfolding C_def using loop by simp
  have C: "ld C (int i) = Some (one_column src s 0 i)" "ld C (int i + 4) = Some (one_column src s 1 i)"
    "ld C (int i + 8) = Some (one_column src s 2 i)" "ld C (int i + 12) = Some (one_column src s 3 i)" if "i < 4" for i
  proof -
    have "ld C (int (i + 4 * j)) = Some (one_column src s j i)" if "j < 4" for j
      using that \<open>i < 4\<close> unfolding C_def by (subst ld_nat) (simp_all del: upt_Suc)
    from this[of 0] this[of 1] this[of 2] this[of 3]
    show "ld C (int i) = Some (one_column src s 0 i)" "ld C (int i + 4) = Some (one_column src s 1 i)"
      "ld C (int i + 8) = Some (one_column src s 2 i)" "ld C (int i + 12) = Some (one_column src s 3 i)"
      by (simp_all only: of_nat_add of_nat_mult of_nat_numeral mult_0_right mult_1_right add_0_right, simp_all)
  qed
  with v show ?thesis by blast
qed

lemma TransformOne_eq:
  assumes fit: "one_fits src s" and p: "inside_block dst p"
  shows "TransformOne src s dst p = Some (add_block dst p (one_res src s))"
proof -
  have "inb src s 16" "\<forall>i<4. fits (src ! nat (s + int i + 4)) \<and> fits (src ! nat (s + int i + 12))" using fit by (simp_all add: one_fits_def)
  then obtain C where v: "for_range 0 4 (vertical_pass src s) (replicate 16 0) = Some C"
    and CC: "\<forall>i<4. ld C (int i) = Some (one_column src s 0 i) \<and> ld C (int i + 4) = Some (one_column src s 1 i) \<and>
      ld C (int i + 8) = Some (one_column src s 2 i) \<and> ld C (int i + 12) = Some (one_column src s 3 i)"
    using vertical_eq by blast
  have C: "ld C (int i) = Some (one_column src s 0 i)" "ld C (int i + 4) = Some (one_column src s 1 i)"
      "ld C (int i + 8) = Some (one_column src s 2 i)" "ld C (int i + 12) = Some (one_column src s 3 i)" if "i < 4" for i
    using CC that by blast+
  have "for_range 0 4 (horizontal_pass C p) dst = Some (add_block dst p (one_res src s))"
  proof (rule rows_loop[OF p])
    fix i dst assume i: "i < (4 :: nat)"
    have f: "fits (one_column src s 1 i)" "fits (one_column src s 3 i)" using fit i by (simp_all add: one_fits_def)
    show "horizontal_pass C p i dst = store4 dst (p + int i * 32) (one_res src s i 0) (one_res src s i 1) (one_res src s i 2) (one_res src s i 3)"
      by (simp add: horizontal_pass_def C[OF i] MUL_fits[OF f(1)] MUL_fits[OF f(2)] Let_def store4_def one_res_def butterfly_def del: One_nat_def)
  qed
  with v show ?thesis by (simp add: TransformOne_def)
qed

lemma mul_zero [simp]: "mul1 0 = 0" "mul2 0 = 0" "fits 0"
  by (simp_all add: mul1_def mul2_def fits_def)

definition ac3_res :: "int list \<Rightarrow> int \<Rightarrow> nat \<Rightarrow> nat \<Rightarrow> int" where
  "ac3_res src s y x =
     butterfly (src ! nat s + 4) (src ! nat (s + 4)) 0 0 y +
     (if x = 0 then mul1 (src ! nat (s + 1)) else if x = 1 then mul2 (src ! nat (s + 1))
      else if x = 2 then - mul2 (src ! nat (s + 1)) else - mul1 (src ! nat (s + 1)))"

lemma STORE2_store4: "STORE2 dst p y dc d c = store4 dst (p + y * BPS) (dc + d) (dc + c) (dc - c) (dc - d)"
  by (simp add: STORE2_def store4_def STORE_def add.assoc add.commute[of "y * 32"])

lemma TransformAC3_eq:
  assumes "inb src s 16" "fits (src ! nat (s + 4))" "fits (src ! nat (s + 1))" and p: "inside_block dst p"
  shows "TransformAC3 src s dst p = Some (add_block dst p (ac3_res src s))"
proof -
  let ?f = "ac3_res src s"
  have l: "ld src s = Some (src ! nat s)" "ld src (s + 4) = Some (src ! nat (s + 4))" "ld src (s + 1) = Some (src ! nat (s + 1))"
    using assms(1) by (simp_all add: inb_def ld_def)
  have r: "STORE2 (add_rows dst p ?f i) p (int i) v d c = Some (add_rows dst p ?f (Suc i))"
    if "i < 4" "?f i 0 = v + d" "?f i 1 = v + c" "?f i 2 = v - c" "?f i 3 = v - d" for i v d c
    unfolding STORE2_store4 that(2-5)[symmetric] by (rule store4_row[OF p that(1)])
  have v: "?f i 0 = v + mul1 (src ! nat (s + 1)) \<and> ?f i 1 = v + mul2 (src ! nat (s + 1)) \<and> ?f i 2 = v - mul2 (src ! nat (s + 1)) \<and>
      ?f i 3 = v - mul1 (src ! nat (s + 1))" if "v = butterfly (src ! nat s + 4) (src ! nat (s + 4)) 0 0 i" for i v
    using that by (simp add: ac3_res_def)
  have b: "src ! nat s + 4 + mul1 (src ! nat (s + 4)) = butterfly (src ! nat s + 4) (src ! nat (s + 4)) 0 0 0"
    "src ! nat s + 4 + mul2 (src ! nat (s + 4)) = butterfly (src ! nat s + 4) (src ! nat (s + 4)) 0 0 1"
    "src ! nat s + 4 - mul2 (src ! nat (s + 4)) = butterfly (src ! nat s + 4) (src ! nat (s + 4)) 0 0 2"
    "src ! nat s + 4 - mul1 (src ! nat (s + 4)) = butterfly (src ! nat s + 4) (src ! nat (s + 4)) 0 0 3"
    by (simp_all add: butterfly_def)
  have n: "(0 :: int) = int 0" "(1 :: int) = int 1" "(2 :: int) = int 2" "(3 :: int) = int 3" by simp_all
  have k: "(4 :: nat) = Suc 3" "Suc 2 = 3" "Suc 1 = 2" "Suc 0 = 1" by simp_all
  show ?thesis
    unfolding TransformAC3_def l Option.bind.simps Let_def MUL_fits[OF assms(2)] MUL_fits[OF assms(3)]
    using r[of 0] r[of 1] r[of 2] r[of 3] v[OF b(1)] v[OF b(2)] v[OF b(3)] v[OF b(4)]
    by (simp add: numeral_eq_Suc)
qed

definition dc_res :: "int list \<Rightarrow> int \<Rightarrow> nat \<Rightarrow> nat \<Rightarrow> int" where
  "dc_res src s y x = src ! nat s + 4"

lemma loop4: "for_range 0 4 body s = do { s \<leftarrow> body 0 s; s \<leftarrow> body 1 s; s \<leftarrow> body 2 s; body 3 s }"
proof -
  have f: "a < b \<Longrightarrow> for_range a b body = (\<lambda>s. body a s \<bind> for_range (Suc a) b body)" for a b
    by (rule ext) (simp add: for_range_step)
  have e: "for_range 4 4 body = Some" by (rule ext) simp
  show ?thesis using e by (simp add: f numeral_eq_Suc)
qed

lemma TransformDC_eq:
  assumes "inb src s 16" and p: "inside_block dst p"
  shows "TransformDC src s dst p = Some (add_block dst p (dc_res src s))"
proof -
  have l: "ld src s = Some (src ! nat s)" using assms(1) by (simp add: inb_def ld_def)
  have "for_range 0 4 (\<lambda>i dst. STORE dst p (int i) (int j) v) dst = store4 dst (p + int j * 32) v v v v" for dst j v
    unfolding loop4 by (simp add: store4_def STORE_def add.assoc add.commute[of "int j * _"])
  then show ?thesis
    unfolding TransformDC_def l Option.bind.simps Let_def by (intro rows_loop[OF p]) (simp add: dc_res_def)
qed

subsection \<open>The simplified transforms\<close>

text \<open>Only the entries in \<open>ks\<close> of the block may differ from 0.\<close>

definition only :: "nat set \<Rightarrow> int list \<Rightarrow> int \<Rightarrow> bool" where
  "only ks src s \<longleftrightarrow> (\<forall>k<16. k \<notin> ks \<longrightarrow> src ! nat (s + int k) = 0)"

lemma one_res_only:
  assumes "inb src s 16" "only {0, 1, 4} src s" "y < 4" "x < 4"
  shows "one_res src s y x = ac3_res src s y x"
proof -
  have z: "src ! nat (s + int k) = 0" if "k < 16" "k \<noteq> 0" "k \<noteq> 1" "k \<noteq> 4" for k using assms(2) that by (auto simp: only_def)
  have c: "one_column src s 0 y = butterfly (src ! nat s) (src ! nat (s + 4)) 0 0 y" "one_column src s 1 y = src ! nat (s + 1)"
    "one_column src s 2 y = 0" "one_column src s 3 y = 0"
    using z[of 8] z[of 12] z[of 5] z[of 9] z[of 13] z[of 2] z[of 6] z[of 10] z[of 14] z[of 3] z[of 7] z[of 11] z[of 15]
    by (simp_all add: one_column_def butterfly_def add.assoc)
  have "butterfly (v + 4) b 0 0 y = butterfly v b 0 0 y + 4" for v b by (simp add: butterfly_def)
  then show ?thesis unfolding one_res_def c ac3_res_def by (simp add: butterfly_def)
qed

lemma one_fits_only:
  assumes "inb src s 16" "only {0, 1, 4} src s" "fits (src ! nat (s + 4))" "fits (src ! nat (s + 1))"
  shows "one_fits src s"
proof -
  have z: "src ! nat (s + int k) = 0" if "k < 16" "k \<noteq> 0" "k \<noteq> 1" "k \<noteq> 4" for k using assms(2) that by (auto simp: only_def)
  have c: "one_column src s 1 y = src ! nat (s + 1)" "one_column src s 3 y = 0" for y
    using z[of 5] z[of 9] z[of 13] z[of 3] z[of 7] z[of 11] z[of 15] by (simp_all add: one_column_def butterfly_def add.assoc)
  have "fits (src ! nat (s + int i + 4)) \<and> fits (src ! nat (s + int i + 12))" if "i < 4" for i
    using that z[of "i + 4"] z[of "i + 12"] assms(3) by (cases "i = 0") (simp_all add: add.assoc)
  then show ?thesis using assms unfolding one_fits_def c by simp
qed

lemma clip_8b_same: "clip_8b (uint b) = b" for b :: u8
proof -
  have m: "(NOT 0xff :: int) = NOT (mask 8)" by (simp add: mask_numeral)
  have "uint b AND NOT (mask 8) = 0"
    using bit_int_bound[of "uint b" 8] uint_bound(1)[of b]
    by (intro bit_eqI) (auto simp: bit_and_iff bit_not_iff bit_mask_iff simp flip: not_le)
  then show ?thesis unfolding clip_8b_def m by simp
qed

lemma add_block_id: "add_block dst p (\<lambda>_ _. 4) = dst"
  by (rule nth_equalityI) (simp_all add: add_rows_nth clip_8b_same)

text \<open>What the two-bit code of a block says about its coefficients.\<close>

definition code_ok :: "int \<Rightarrow> int list \<Rightarrow> int \<Rightarrow> bool" where
  "code_ok c src s \<longleftrightarrow> 0 \<le> c \<and> c \<le> 3 \<and> (c = 2 \<longrightarrow> only {0, 1, 4} src s) \<and> (c = 1 \<longrightarrow> only {0} src s) \<and> (c = 0 \<longrightarrow> only {} src s)"

lemma only_mono: "only ks src s \<Longrightarrow> ks \<subseteq> ls \<Longrightarrow> only ls src s"
  by (auto simp: only_def)

lemma one_res_dc:
  assumes "inb src s 16" "only {0} src s" "y < 4" "x < 4"
  shows "one_res src s y x = src ! nat s + 4"
proof -
  have "src ! nat (s + 1) = 0" "src ! nat (s + 4) = 0" using assms(2) by (auto simp: only_def dest: spec[of _ 1] spec[of _ 4])
  then show ?thesis
    using one_res_only[OF assms(1) only_mono[OF assms(2)] assms(3,4)] by (simp add: ac3_res_def butterfly_def)
qed

lemma only_dc_block: "only {} src s \<Longrightarrow> src ! nat s = 0"
  by (auto simp: only_def dest: spec[of _ 0])

lemma DoTransform_full:
  assumes fit: "one_fits src s" and p: "inside_block dst p" and c: "code_ok (uint (drop_bit 30 bits)) src s"
  shows "DoTransform bits src s dst p = TransformOne src s dst p"
proof -
  let ?c = "uint (drop_bit 30 bits)"
  have i: "inb src s 16" "fits (src ! nat (s + 4))" using fit by (auto simp: one_fits_def dest: spec[of _ 0])
  consider "?c = 3" | "?c = 2" "only {0, 1, 4} src s" | "?c = 1" "only {0} src s" | "?c = 0" "only {} src s"
    using c unfolding code_ok_def by linarith
  then show ?thesis
  proof cases
    case 1
    then show ?thesis by (simp add: DoTransform_def TransformTwo_def)
  next
    case 2
    have z: "src ! nat (s + int k) = 0" if "k < 16" "k \<noteq> 0" "k \<noteq> 1" "k \<noteq> 4" for k using 2(2) that by (auto simp: only_def)
    have "one_column src s 1 0 = src ! nat (s + 1)"
      using z[of 5] z[of 9] z[of 13] by (simp add: one_column_def butterfly_def add.assoc)
    then have "fits (src ! nat (s + 1))" using fit by (auto simp: one_fits_def dest: spec[of _ 0])
    with 2 show ?thesis
      using TransformAC3_eq[OF i(1,2) _ p] TransformOne_eq[OF fit p] add_rows_cong[OF one_res_only[OF i(1) 2(2)]] by (simp add: DoTransform_def)
  next
    case 3
    with TransformDC_eq[OF i(1) p] TransformOne_eq[OF fit p] add_rows_cong[of 4 "one_res src s" "dc_res src s" dst p] one_res_dc[OF i(1) 3(2)]
    show ?thesis by (simp add: DoTransform_def dc_res_def)
  next
    case 4
    have "one_res src s y x = 4" if "y < 4" "x < 4" for y x
      using one_res_dc[OF i(1) only_mono[OF 4(2)] that] only_dc_block[OF 4(2)] by simp
    then have "add_block dst p (one_res src s) = dst" using add_rows_cong[of 4 "one_res src s" "\<lambda>_ _. 4" dst p] add_block_id by simp
    with 4(1) TransformOne_eq[OF fit p] show ?thesis by (simp add: DoTransform_def)
  qed
qed


subsection \<open>Chroma\<close>

text \<open>The two-bit codes of the four chroma blocks are packed with the first block on top.\<close>

lemma two_bits: "uint (drop_bit k w AND 3) = of_bool (bit w k) + 2 * of_bool (bit w (Suc k))" for w :: u32
proof -
  have "drop_bit k w AND 3 = take_bit (Suc (Suc 0)) (drop_bit k w)" by (simp add: take_bit_eq_mask mask_eq_decr_exp)
  also have "\<dots> = of_bool (bit w k) + 2 * of_bool (bit w (Suc k))"
    by (simp only: take_bit_Suc) (simp add: bit_iff_odd_drop_bit drop_bit_Suc mod_2_eq_odd of_bool_def flip: drop_bit_half)
  finally show ?thesis by (simp split: if_splits)
qed

definition uv_code :: "u32 \<Rightarrow> nat \<Rightarrow> int" where
  "uv_code bits j = uint (drop_bit (6 - 2 * j) bits AND 3)"

lemma uv_code_ac:
  assumes "bits AND 0xaa = 0" "j < 4" shows "uv_code bits j < 2"
proof -
  have "\<not> bit (bits AND 0xaa) n" for n using assms(1) by simp
  from this[of "Suc (6 - 2 * j)"] have "\<not> bit bits (Suc (6 - 2 * j))"
    using assms(2) by (auto simp: bit_and_iff less_Suc_eq numeral_eq_Suc)
  then show ?thesis by (simp add: uv_code_def two_bits)
qed

lemma uv_code_any:
  assumes "bits AND 0xff = 0" "j < 4" shows "uv_code bits j = 0"
proof -
  have "\<not> bit (bits AND 0xff) n" for n using assms(1) by simp
  from this[of "Suc (6 - 2 * j)"] this[of "6 - 2 * j"] have "\<not> bit bits (Suc (6 - 2 * j))" "\<not> bit bits (6 - 2 * j)"
    using assms(2) by (auto simp: bit_and_iff less_Suc_eq numeral_eq_Suc)
  then show ?thesis by (simp add: uv_code_def two_bits)
qed

lemma TransformOne_dc:
  assumes fit: "one_fits src s" and p: "inside_block dst p" and o: "only {0} src s"
  shows "TransformOne src s dst p = (if src ! nat s \<noteq> 0 then TransformDC src s dst p else Some dst)"
proof -
  have i: "inb src s 16" using fit by (simp add: one_fits_def)
  have e: "one_res src s y x = dc_res src s y x" if "y < 4" "x < 4" for y x
    using one_res_dc[OF i o that] by (simp add: dc_res_def)
  have "add_block dst p (dc_res src s) = dst" if "src ! nat s = 0"
    using add_block_id that unfolding dc_res_def by simp
  then show ?thesis
    using TransformOne_eq[OF fit p] TransformDC_eq[OF i p] add_rows_cong[of 4 "one_res src s" "dc_res src s" dst p] e by simp
qed

definition inside_chroma :: "u8 list \<Rightarrow> int \<Rightarrow> bool" where
  "inside_chroma dst p \<longleftrightarrow> 0 \<le> p \<and> p + 7 * BPS + 8 \<le> int (length dst)"

lemma DoUVTransform_full:
  assumes fit: "\<And>j. j < 4 \<Longrightarrow> one_fits src (s + 16 * int j)" and p: "inside_chroma dst p"
    and c: "\<And>j. j < 4 \<Longrightarrow> code_ok (uv_code bits j) src (s + 16 * int j)"
  shows "DoUVTransform bits src s dst p = TransformUV src s dst p"
proof -
  have ins: "inside_block d p" "inside_block d (p + 4)" "inside_block d (p + 128)" "inside_block d (p + 128 + 4)"
    if "length d = length dst" for d using p that by (simp_all add: inside_chroma_def inside_block_def)
  have f: "one_fits src s" "one_fits src (s + 16)" "one_fits src (s + 32)" "one_fits src (s + 48)"
    using fit[of 0] fit[of 1] fit[of 2] fit[of 3] by simp_all
  have l: "ld src s = Some (src ! nat s)" "ld src (s + 16) = Some (src ! nat (s + 16))" "ld src (s + 32) = Some (src ! nat (s + 32))"
    "ld src (s + 48) = Some (src ! nat (s + 48))" using f by (simp_all add: one_fits_def inb_def ld_def)
  have le: "length d' = length d" if "TransformOne src t d q = Some d'" "one_fits src t" "inside_block d q" for t d q d'
    using TransformOne_eq[OF that(2,3)] that(1) by auto
  have ex: "\<exists>d'. TransformOne src t d q = Some d' \<and> length d' = length d" if "one_fits src t" "inside_block d q" for t d q
    using TransformOne_eq[OF that] by simp
  obtain d1 where d1: "TransformOne src s dst p = Some d1" "length d1 = length dst" using ex f ins by blast
  obtain d2 where d2: "TransformOne src (s + 16) d1 (p + 4) = Some d2" "length d2 = length dst" using ex[OF f(2) ins(2)[OF d1(2)]] d1(2) by auto
  obtain d3 where d3: "TransformOne src (s + 32) d2 (p + 128) = Some d3" "length d3 = length dst" using ex[OF f(3) ins(3)[OF d2(2)]] d2(2) by auto
  have full: "TransformUV src s dst p = TransformOne src (s + 48) d3 (p + 128 + 4)"
    using d1 d2 d3 by (simp add: TransformUV_def TransformTwo_def add.assoc)
  show ?thesis
  proof (cases "bits AND 0xaa = 0")
    case True
    have o: "only {0} src (s + 16 * int j)" if "j < 4" for j
    proof -
      have "uv_code bits j = 0 \<or> uv_code bits j = 1" using c[OF that] uv_code_ac[OF True that] by (auto simp: code_ok_def)
      then show ?thesis using c[OF that] by (auto simp: code_ok_def intro: only_mono)
    qed
    have t: "TransformOne src s dst p = (if src ! nat s \<noteq> 0 then TransformDC src s dst p else Some dst)"
      "TransformOne src (s + 16) d1 (p + 4) = (if src ! nat (s + 16) \<noteq> 0 then TransformDC src (s + 16) d1 (p + 4) else Some d1)"
      "TransformOne src (s + 32) d2 (p + 128) = (if src ! nat (s + 32) \<noteq> 0 then TransformDC src (s + 32) d2 (p + 128) else Some d2)"
      "TransformOne src (s + 48) d3 (p + 128 + 4) = (if src ! nat (s + 48) \<noteq> 0 then TransformDC src (s + 48) d3 (p + 128 + 4) else Some d3)"
      using TransformOne_dc[OF f(1) ins(1)] TransformOne_dc[OF f(2) ins(2)[OF d1(2)]] TransformOne_dc[OF f(3) ins(3)[OF d2(2)]]
        TransformOne_dc[OF f(4) ins(4)[OF d3(2)]] o[of 0] o[of 1] o[of 2] o[of 3] by simp_all
    have dcuv: "TransformDCUV src s dst p = TransformUV src s dst p"
      using d1(1) d2(1) d3(1) unfolding t(1-3) by (simp add: TransformDCUV_def l full[unfolded t(4)] cong: if_cong)
    show ?thesis
    proof (cases "bits AND 0xff = 0")
      case True
      have "src ! nat (s + 16 * int j) = 0" if "j < 4" for j
        using c[OF that] uv_code_any[OF True that] by (simp add: code_ok_def only_dc_block)
      from this[of 0] this[of 1] this[of 2] this[of 3] have "TransformUV src s dst p = Some dst"
        using full t d1 d2 d3 by simp
      with True show ?thesis by (simp add: DoUVTransform_def)
    qed (simp add: DoUVTransform_def True dcuv)
  next
    case False
    have "bits AND 0xff \<noteq> 0"
    proof
      assume "bits AND 0xff = 0"
      then have "(bits AND 0xff) AND 0xaa = 0" by simp
      then have "bits AND (0xff AND 0xaa) = 0" by (simp only: and.assoc)
      then show False using False by simp
    qed
    with False show ?thesis by (simp add: DoUVTransform_def)
  qed
qed


subsection \<open>Ranges\<close>

lemma mul_mono: "a \<le> b \<Longrightarrow> mul1 a \<le> mul1 b" "a \<le> b \<Longrightarrow> mul2 a \<le> mul2 b"
  unfolding mul1_def mul2_def drop_bit_eq_div by (intro add_mono zdiv_mono1; simp)+

lemma mul_ranges:
  "- 2048 \<le> a \<Longrightarrow> a \<le> 2047 \<Longrightarrow> - 2676 \<le> mul1 a \<and> mul1 a \<le> 2674 \<and> - 1109 \<le> mul2 a \<and> mul2 a \<le> 1107"
  "- 7881 \<le> a \<Longrightarrow> a \<le> 7879 \<Longrightarrow> - 10298 \<le> mul1 a \<and> mul1 a \<le> 10294 \<and> - 4266 \<le> mul2 a \<and> mul2 a \<le> 4264"
  using mul_mono[of "- 2048" a] mul_mono[of a 2047] mul_mono[of "- 7881" a] mul_mono[of a 7879] by (simp_all add: mul1_def mul2_def)

text \<open>The coefficients of a block in the range that the comments of the code assume.\<close>

definition coefficients_in_range :: "int list \<Rightarrow> int \<Rightarrow> bool" where
  "coefficients_in_range src s \<longleftrightarrow> inb src s 16 \<and> (\<forall>k<16. - 2048 \<le> src ! nat (s + int k) \<and> src ! nat (s + int k) \<le> 2047)"

lemma one_column_range:
  assumes "coefficients_in_range src s" "i < 4"
  shows "- 7881 \<le> one_column src s i k \<and> one_column src s i k \<le> 7879"
proof -
  have r: "- 2048 \<le> src ! nat (s + int i + 4 * int j) \<and> src ! nat (s + int i + 4 * int j) \<le> 2047" if "j < 4" for j
  proof -
    have "nat (s + int i + 4 * int j) = nat (s + int (i + 4 * j))" by (simp add: add.assoc)
    moreover have "i + 4 * j < 16" using assms(2) that by linarith
    ultimately show ?thesis using assms(1) unfolding coefficients_in_range_def by metis
  qed
  show ?thesis using r[of 0] r[of 1] r[of 2] r[of 3]
      mul_ranges(1)[of "src ! nat (s + int i + 4)"] mul_ranges(1)[of "src ! nat (s + int i + 12)"]
    unfolding one_column_def butterfly_def by simp
qed

lemma one_fits_range:
  assumes "coefficients_in_range src s" shows "one_fits src s"
proof -
  have r: "fits (src ! nat (s + int i + 4 * int j))" if "j < 4" "i < 4" for i j
  proof -
    have "nat (s + int i + 4 * int j) = nat (s + int (i + 4 * j))" by (simp add: add.assoc)
    moreover have "i + 4 * j < 16" using that by linarith
    ultimately have "- 2048 \<le> src ! nat (s + int i + 4 * int j) \<and> src ! nat (s + int i + 4 * int j) \<le> 2047"
      using assms unfolding coefficients_in_range_def by metis
    then show ?thesis by (simp add: fits_def)
  qed
  have "fits (one_column src s i k)" if "i < 4" for i k using one_column_range[OF assms that, of k] by (simp add: fits_def)
  with r[of 1] r[of 3] assms show ?thesis by (simp add: one_fits_def coefficients_in_range_def)
qed

lemma one_res_range:
  assumes "coefficients_in_range src s" "y < 4"
  shows "- 3794 \<le> drop_bit 3 (one_res src s y x) \<and> drop_bit 3 (one_res src s y x) \<le> 3794"
proof -
  have r: "- 7881 \<le> one_column src s i y \<and> one_column src s i y \<le> 7879" if "i < 4" for i by (rule one_column_range[OF assms(1) that])
  have "- 30352 \<le> one_res src s y x \<and> one_res src s y x \<le> 30352"
    using r[of 0] r[of 1] r[of 2] r[of 3] mul_ranges(2)[of "one_column src s 1 y"] mul_ranges(2)[of "one_column src s 3 y"]
    unfolding one_res_def butterfly_def by (simp del: One_nat_def)
  then have "- 30352 div 8 \<le> one_res src s y x div 8 \<and> one_res src s y x div 8 \<le> 30352 div 8" by (auto intro: zdiv_mono1)
  then show ?thesis by (simp add: drop_bit_eq_div)
qed

subsection \<open>The Walsh-Hadamard transform\<close>

definition wht4 :: "int \<Rightarrow> int \<Rightarrow> int \<Rightarrow> int \<Rightarrow> nat \<Rightarrow> int" where
  "wht4 x0 x1 x2 x3 k =
     (if k = 0 then x0 + x3 + (x1 + x2) else if k = 1 then x0 - x3 + (x1 - x2)
      else if k = 2 then x0 + x3 - (x1 + x2) else x0 - x3 - (x1 - x2))"

definition wht_col :: "int list \<Rightarrow> nat \<Rightarrow> nat \<Rightarrow> int" where
  "wht_col src i = wht4 (src ! i) (src ! (4 + i)) (src ! (8 + i)) (src ! (12 + i))"

definition wht_res :: "int list \<Rightarrow> nat \<Rightarrow> nat \<Rightarrow> int" where
  "wht_res src y x = signed_take_bit 15 (drop_bit 3 (wht4 (wht_col src 0 y + 3) (wht_col src 1 y) (wht_col src 2 y) (wht_col src 3 y) x))"

definition wht_out :: "int list \<Rightarrow> int list \<Rightarrow> nat \<Rightarrow> int list" where
  "wht_out src out n = map (\<lambda>k. if k < 64 * n \<and> k mod 16 = 0 then wht_res src (k div 64) (k mod 64 div 16) else out ! k) [0..<length out]"

lemma length_wht_out [simp]: "length (wht_out src out n) = length out" by (simp add: wht_out_def)

lemma wht_out_nth: "length out = 256 \<Longrightarrow> k < 256 \<Longrightarrow>
    wht_out src out n ! k = (if k < 64 * n \<and> k mod 16 = 0 then wht_res src (k div 64) (k mod 64 div 16) else out ! k)"
  by (simp add: wht_out_def del: upt_Suc)

lemma wht_out_Suc:
  assumes "length out = 256" "i < 4"
  shows "(wht_out src out i)[64 * i := wht_res src i 0, 64 * i + 16 := wht_res src i 1, 64 * i + 32 := wht_res src i 2, 64 * i + 48 := wht_res src i 3]
    = wht_out src out (Suc i)"
proof (rule nth_equalityI)
  fix k assume "k < length ((wht_out src out i)[64 * i := wht_res src i 0, 64 * i + 16 := wht_res src i 1, 64 * i + 32 := wht_res src i 2, 64 * i + 48 := wht_res src i 3])"
  then have k: "k < 256" using assms(1) by simp
  have m: "(64 * i) div 64 = i" "(64 * i + 16) div 64 = i" "(64 * i + 32) div 64 = i" "(64 * i + 48) div 64 = i"
    "(64 * i) mod 64 = 0" "(64 * i + 16) mod 64 = 16" "(64 * i + 32) mod 64 = 32" "(64 * i + 48) mod 64 = 48"
    "(64 * i) mod 16 = 0" "(64 * i + 16) mod 16 = 0" "(64 * i + 32) mod 16 = 0" "(64 * i + 48) mod 16 = 0"
    by (simp_all add: mod_eq_0_iff_dvd)
  have "64 * i \<le> k \<and> k < 64 * Suc i \<and> k mod 16 = 0 \<Longrightarrow> k = 64 * i \<or> k = 64 * i + 16 \<or> k = 64 * i + 32 \<or> k = 64 * i + 48"
  proof -
    assume a: "64 * i \<le> k \<and> k < 64 * Suc i \<and> k mod 16 = 0"
    then obtain q where "k = 16 * q" by (auto simp: mod_eq_0_iff_dvd dvd_def)
    moreover from a this have "q = 4 * i \<or> q = 4 * i + 1 \<or> q = 4 * i + 2 \<or> q = 4 * i + 3" by simp linarith
    ultimately show ?thesis by auto
  qed
  then consider "k < 64 * i" | "k = 64 * i" | "k = 64 * i + 16" | "k = 64 * i + 32" | "k = 64 * i + 48" | "64 * Suc i \<le> k"
    | "64 * i < k" "k < 64 * Suc i" "k mod 16 \<noteq> 0" by linarith
  then show "(wht_out src out i)[64 * i := wht_res src i 0, 64 * i + 16 := wht_res src i 1, 64 * i + 32 := wht_res src i 2, 64 * i + 48 := wht_res src i 3] ! k
      = wht_out src out (Suc i) ! k"
  proof cases
    case 7
    then show ?thesis using k assms by (auto simp: wht_out_nth nth_list_update m)
  qed (use k assms in \<open>simp_all add: wht_out_nth nth_list_update m del: One_nat_def\<close>)
qed simp

lemma TransformWHT_eq:
  assumes "16 \<le> length src" "length out = 256"
  shows "TransformWHT src out = Some (wht_out src out 4)"
proof -
  let ?t = "\<lambda>i. map (\<lambda>k. if k mod 4 < i then wht_col src (k mod 4) (k div 4) else 0) [0..<16]"
  have lds: "ld src (int k) = Some (src ! k)" if "k < 16" for k using that assms(1) by (simp add: ld_nat)
  have "\<exists>t. for_range 0 4 (wht_column src) (replicate 16 0) = Some t \<and> t = ?t 4"
  proof (rule for_range_inv[where I = "\<lambda>i t. t = ?t i"])
    show "replicate 16 0 = ?t 0" by (rule nth_equalityI) auto
    fix i t assume i: "i < (4 :: nat)" and t: "t = ?t i"
    have len: "length t = 16" unfolding t by simp
    have "wht_column src i t = Some (t[i := wht_col src i 0, 8 + i := wht_col src i 2, 4 + i := wht_col src i 1, 12 + i := wht_col src i 3])"
      using i len lds[of i] lds[of "12 + i"] lds[of "4 + i"] lds[of "8 + i"]
      by (simp add: wht_column_def Let_def st_def wht_col_def wht4_def nat_add_distrib)
    moreover have "t[i := wht_col src i 0, 8 + i := wht_col src i 2, 4 + i := wht_col src i 1, 12 + i := wht_col src i 3] = ?t (Suc i)"
    proof (rule nth_equalityI)
      fix k assume "k < length (t[i := wht_col src i 0, 8 + i := wht_col src i 2, 4 + i := wht_col src i 1, 12 + i := wht_col src i 3])"
      then have k: "k < 16" using len by simp
      have m: "i mod 4 = i" "(8 + i) mod 4 = i" "(4 + i) mod 4 = i" "(12 + i) mod 4 = i"
        "i div 4 = 0" "(8 + i) div 4 = 2" "(4 + i) div 4 = 1" "(12 + i) div 4 = 3"
      proof -
        have "i = 0 \<or> i = 1 \<or> i = 2 \<or> i = 3" using i by linarith
        then show "i mod 4 = i" "(8 + i) mod 4 = i" "(4 + i) mod 4 = i" "(12 + i) mod 4 = i"
          "i div 4 = 0" "(8 + i) div 4 = 2" "(4 + i) div 4 = 1" "(12 + i) div 4 = 3" by (elim disjE; simp)+
      qed
      have "k mod 4 = i \<Longrightarrow> k = i \<or> k = 8 + i \<or> k = 4 + i \<or> k = 12 + i" using k by presburger
      then consider "k = i" | "k = 8 + i" | "k = 4 + i" | "k = 12 + i" | "k mod 4 \<noteq> i" "k \<noteq> i" "k \<noteq> 8 + i" "k \<noteq> 4 + i" "k \<noteq> 12 + i" using m by metis
      then show "t[i := wht_col src i 0, 8 + i := wht_col src i 2, 4 + i := wht_col src i 1, 12 + i := wht_col src i 3] ! k = ?t (Suc i) ! k"
        by cases (use k len i in \<open>simp_all add: t nth_list_update m less_Suc_eq del: upt_Suc\<close>)
    qed (simp add: len)
    ultimately show "\<exists>t'. wht_column src i t = Some t' \<and> t' = ?t (Suc i)" by simp
  qed simp
  then have c: "for_range 0 4 (wht_column src) (replicate 16 0) = Some (?t 4)" by simp
  define t where "t = ?t 4"
  have l: "ld t (int (4 * i + j)) = Some (wht_col src j i)" if "i < 4" "j < 4" for i j
  proof -
    have "(4 * i + j) mod 4 = j" "(4 * i + j) div 4 = i" using that by presburger+
    then show ?thesis using that unfolding t_def by (subst ld_nat) (simp_all del: upt_Suc)
  qed
  have "\<exists>r. for_range 0 4 (wht_row t) out = Some r \<and> r = wht_out src out 4"
  proof (rule for_range_inv[where I = "\<lambda>i r. r = wht_out src out i"])
    show "out = wht_out src out 0" by (rule nth_equalityI) (simp_all add: wht_out_def)
    fix i r assume i: "i < (4 :: nat)" and r: "r = wht_out src out i"
    have "wht_row t i r = Some (r[64 * i := wht_res src i 0, 64 * i + 16 := wht_res src i 1, 64 * i + 32 := wht_res src i 2, 64 * i + 48 := wht_res src i 3])"
      using l[OF i, of 0] l[OF i, of 1] l[OF i, of 2] l[OF i, of 3] i assms(2)
      by (simp add: wht_row_def Let_def st_def r wht_res_def wht4_def nat_add_distrib nat_mult_distrib algebra_simps)
    then show "\<exists>r'. wht_row t i r = Some r' \<and> r' = wht_out src out (Suc i)" using wht_out_Suc[OF assms(2) i] r by simp
  qed simp
  then show ?thesis using c by (simp add: TransformWHT_def t_def)
qed


lemma horizontal_overflow:
  assumes "ld C 0 = Some x0" "ld C 4 = Some x4" "ld C 8 = Some x8" "ld C 12 = Some x12" "\<not> fits x4"
  shows "for_range 0 4 (horizontal_pass C p) dst = None"
  unfolding loop4 using assms by (simp add: horizontal_pass_def MUL2_overflow)

subsection \<open>The properties\<close>

text \<open>C32. The selection by codes is an optimisation only: for a luma block whose two-bit code bounds its coefficients as
  the parser promises, DoTransform gives the samples of the full transform TransformOne, and for four chroma blocks with
  such codes DoUVTransform gives those of TransformUV, also where it calls the DC transforms or nothing at all.\<close>

theorem transforms_by_code:
  assumes "one_fits src s" "inside_block dst p" "code_ok (uint (drop_bit 30 bits)) src s"
    and "\<And>j. j < 4 \<Longrightarrow> one_fits uv (t + 16 * int j)" "inside_chroma udst q"
    and "\<And>j. j < 4 \<Longrightarrow> code_ok (uv_code bits_uv j) uv (t + 16 * int j)"
  shows "DoTransform bits src s dst p = TransformOne src s dst p \<and> DoUVTransform bits_uv uv t udst q = TransformUV uv t udst q"
  using DoTransform_full[OF assms(1-3)] DoUVTransform_full[OF assms(4,5,6)] by blast

definition sample_luma :: "int list" where "sample_luma = [40, - 9, 0, 0, 7] @ replicate 11 0"
definition sample_chroma :: "int list" where "sample_chroma = (replicate 64 0)[0 := - 30, 32 := 12]"

lemma only_in_range: "inb src s 16 \<Longrightarrow> (\<forall>k<16. \<bar>src ! nat (s + int k)\<bar> \<le> 2047) \<Longrightarrow> coefficients_in_range src s"
  by (auto simp: coefficients_in_range_def)

lemma sample_luma_range: "coefficients_in_range sample_luma 0"
  by (rule only_in_range) (auto simp: sample_luma_def inb_def less_Suc_eq numeral_eq_Suc)

lemma sample_chroma_range: "j < 4 \<Longrightarrow> coefficients_in_range sample_chroma (0 + 16 * int j)"
proof (rule only_in_range)
  show "\<forall>k<16. \<bar>sample_chroma ! nat (0 + 16 * int j + int k)\<bar> \<le> 2047" if "j < 4"
  proof (intro allI impI)
    fix k :: nat assume "k < 16"
    with that have "16 * j + k < 64" by linarith
    then show "\<bar>sample_chroma ! nat (0 + 16 * int j + int k)\<bar> \<le> 2047"
      by (simp add: sample_chroma_def nth_list_update nat_add_distrib nat_mult_distrib)
  qed
qed (simp add: sample_chroma_def inb_def)

lemma sample_chroma_dc: "j < 4 \<Longrightarrow> only {0} sample_chroma (0 + 16 * int j)"
  unfolding only_def
proof (intro allI impI)
  fix k :: nat assume "j < 4" "k < 16" "k \<notin> {0}"
  then have "16 * j + k < 64" "16 * j + k \<noteq> 0" "16 * j + k \<noteq> 32" by simp_all presburger+
  then show "sample_chroma ! nat (0 + 16 * int j + int k) = 0"
    by (simp add: sample_chroma_def nth_list_update nat_add_distrib nat_mult_distrib)
qed

theorem transforms_by_code_witness:
  "DoTransform 0x80000000 sample_luma 0 (replicate 256 100) 33 = TransformOne sample_luma 0 (replicate 256 100) 33 \<and>
   DoUVTransform 0x55 sample_chroma 0 (replicate 512 100) 33 = TransformUV sample_chroma 0 (replicate 512 100) 33"
proof (rule transforms_by_code)
  show "one_fits sample_luma 0" by (rule one_fits_range[OF sample_luma_range])
  have "only {0, 1, 4} sample_luma 0" by (auto simp: only_def sample_luma_def less_Suc_eq numeral_eq_Suc)
  then show "code_ok (uint (drop_bit 30 (0x80000000 :: u32))) sample_luma 0" by (simp add: code_ok_def)
  fix j :: nat assume j: "j < 4"
  show "one_fits sample_chroma (0 + 16 * int j)" by (rule one_fits_range[OF sample_chroma_range[OF j]])
  have "j = 0 \<or> j = 1 \<or> j = 2 \<or> j = 3" using j by linarith
  then have "uv_code 0x55 j = 1" by (elim disjE) (simp_all add: uv_code_def)
  then show "code_ok (uv_code 0x55 j) sample_chroma (0 + 16 * int j)"
    using sample_chroma_dc[OF j] by (simp add: code_ok_def)
qed (simp_all add: inside_block_def inside_chroma_def)

text \<open>C33. In the range [-2048, 2047] that the comments of the code assume, TransformOne does not overflow and writes the
  4x4 block at dst only; the values of the first pass lie in [-7881, 7879] and what the second pass adds to a sample
  lies in [-3794, 3794].\<close>

theorem TransformOne_in_range:
  assumes "coefficients_in_range src s" "inside_block dst p"
  shows "TransformOne src s dst p = Some (add_block dst p (one_res src s)) \<and>
    (\<forall>y x. y < 4 \<longrightarrow> x < 4 \<longrightarrow> \<bar>drop_bit 3 (one_res src s y x)\<bar> \<le> 3794 \<and> - 7881 \<le> one_column src s x y \<and> one_column src s x y \<le> 7879)"
  using TransformOne_eq[OF one_fits_range[OF assms(1)] assms(2)] one_res_range[OF assms(1)] one_column_range[OF assms(1)]
  unfolding abs_le_iff minus_le_iff[of "drop_bit 3 _"] by blast

theorem TransformOne_in_range_witness:
  "TransformOne sample_luma 0 (replicate 128 100) 4 = Some (add_block (replicate 128 100) 4 (one_res sample_luma 0)) \<and>
    \<bar>drop_bit 3 (one_res sample_luma 0 2 3)\<bar> \<le> 3794 \<and> - 7881 \<le> one_column sample_luma 0 3 2 \<and> one_column sample_luma 0 3 2 \<le> 7879"
proof -
  have "inside_block (replicate 128 100) 4" by (simp add: inside_block_def)
  from TransformOne_in_range[OF sample_luma_range this] show ?thesis by simp
qed

text \<open>C34. Outside of that range the transform can overflow: if only the coefficients 1 and 9 of a block differ from 0 and
  their sum exceeds 60547, a product of the second pass does not fit an int. Two coefficients of the largest level 2114
  with the quantizer step 15 of the AC table are such coefficients, and both fit an int16_t.\<close>

theorem TransformOne_overflow:
  assumes "inb src s 16" "only {1, 9} src s" "60547 < src ! nat (s + 1) + src ! nat (s + 9)"
  shows "TransformOne src s dst p = None"
proof -
  have z: "src ! nat (s + int k) = 0" if "k < 16" "k \<noteq> 1" "k \<noteq> 9" for k using assms(2) that by (auto simp: only_def)
  have "fits (src ! nat (s + int i + 4)) \<and> fits (src ! nat (s + int i + 12))" if "i < 4" for i
    using that z[of "i + 4"] z[of "i + 12"] by (simp add: add.assoc)
  then obtain C where v: "for_range 0 4 (vertical_pass src s) (replicate 16 0) = Some C"
    and CC: "\<forall>i<4. ld C (int i) = Some (one_column src s 0 i) \<and> ld C (int i + 4) = Some (one_column src s 1 i) \<and>
      ld C (int i + 8) = Some (one_column src s 2 i) \<and> ld C (int i + 12) = Some (one_column src s 3 i)"
    using vertical_eq[OF assms(1)] by blast
  have C: "ld C 0 = Some (one_column src s 0 0)" "ld C 4 = Some (one_column src s 1 0)" "ld C 8 = Some (one_column src s 2 0)"
      "ld C 12 = Some (one_column src s 3 0)" using CC[rule_format, of 0] by simp_all
  have "\<not> fits (one_column src s 1 0)"
    using z[of 5] z[of 13] assms(3) by (simp add: one_column_def butterfly_def add.assoc fits_def)
  from horizontal_overflow[OF C this] v show ?thesis by (simp add: TransformOne_def)
qed

definition sample_loud :: "int list" where
  "sample_loud = (replicate 16 0)[1 := 2114 * kAcTable ! 11, 9 := 2114 * kAcTable ! 11]"

theorem TransformOne_overflow_witness:
  "sample_loud ! 1 = 31710 \<and> TransformOne sample_loud 0 (replicate 128 100) 0 = None"
proof -
  have e: "sample_loud = (replicate 16 0)[1 := 31710, 9 := 31710]" by (simp add: sample_loud_def kAcTable_def)
  show ?thesis
    using TransformOne_overflow[of sample_loud 0 "replicate 128 100" 0]
    by (auto simp: e inb_def only_def nth_list_update)
qed

end
