(* ===== verification/VP8_Residuals.thy ===== *)
theory VP8_Residuals
  imports VP8_Modes Inverse_Transforms
begin

section \<open>The coefficients of a macroblock\<close>

text \<open>
  The token partitions of a lossy frame: CodeResiduals and ResetAfterSkip of src/enc/frame_enc.c with the packed
  contexts of src/enc/iterator_enc.c, against ParseResiduals and VP8DecodeMB of src/dec/vp8_dec.c. The encoder packs
  the 24 flags of non-zero blocks of a macroblock into one word, the decoder keeps eight flags above and eight to the
  left. The statistics of the encoder (bit counts per macroblock) are left out.
\<close>

unbundle bit_operations_syntax

subsection \<open>The encoder\<close>

record VP8ModeScore =
  y_dc_levels :: "int list"
  y_ac_levels :: "int list list"
  uv_levels :: "int list list"

definition BIT :: "u32 \<Rightarrow> nat \<Rightarrow> int" where
  "BIT w n = of_bool (w AND push_bit n 1 \<noteq> 0)"

definition VP8IteratorNzToBytes :: "EncModes \<Rightarrow> VP8EncIterator \<Rightarrow> VP8EncIterator option" where
  "VP8IteratorNzToBytes em it = do {
     tnz \<leftarrow> ld (em_nz em) (it_nz it);
     lnz \<leftarrow> ld (em_nz em) (it_nz it - 1);
     t \<leftarrow> st (it_top_nz it) 0 (BIT tnz 12);
     t \<leftarrow> st t 1 (BIT tnz 13);
     t \<leftarrow> st t 2 (BIT tnz 14);
     t \<leftarrow> st t 3 (BIT tnz 15);
     t \<leftarrow> st t 4 (BIT tnz 18);
     t \<leftarrow> st t 5 (BIT tnz 19);
     t \<leftarrow> st t 6 (BIT tnz 22);
     t \<leftarrow> st t 7 (BIT tnz 23);
     t \<leftarrow> st t 8 (BIT tnz 24);
     l \<leftarrow> st (it_left_nz it) 0 (BIT lnz 3);
     l \<leftarrow> st l 1 (BIT lnz 7);
     l \<leftarrow> st l 2 (BIT lnz 11);
     l \<leftarrow> st l 3 (BIT lnz 15);
     l \<leftarrow> st l 4 (BIT lnz 17);
     l \<leftarrow> st l 5 (BIT lnz 19);
     l \<leftarrow> st l 6 (BIT lnz 21);
     l \<leftarrow> st l 7 (BIT lnz 23);
     Some (it\<lparr>it_top_nz := t, it_left_nz := l\<rparr>) }"

definition VP8IteratorBytesToNz :: "VP8EncIterator \<Rightarrow> EncModes \<Rightarrow> EncModes option" where
  "VP8IteratorBytesToNz it em = do {
     let top_nz = it_top_nz it;
     let left_nz = it_left_nz it;
     require (length top_nz = 9 \<and> length left_nz = 9);
     let bit_at = (\<lambda>v n. push_bit n (word_of_int v) :: u32);
     let w = 0;
     let w = w OR (bit_at (top_nz ! 0) 12 OR bit_at (top_nz ! 1) 13);
     let w = w OR (bit_at (top_nz ! 2) 14 OR bit_at (top_nz ! 3) 15);
     let w = w OR (bit_at (top_nz ! 4) 18 OR bit_at (top_nz ! 5) 19);
     let w = w OR (bit_at (top_nz ! 6) 22 OR bit_at (top_nz ! 7) 23);
     let w = w OR bit_at (top_nz ! 8) 24;
     let w = w OR (bit_at (left_nz ! 0) 3 OR bit_at (left_nz ! 1) 7);
     let w = w OR bit_at (left_nz ! 2) 11;
     let w = w OR (bit_at (left_nz ! 4) 17 OR bit_at (left_nz ! 6) 21);
     ws \<leftarrow> st (em_nz em) (it_nz it) w;
     Some (em\<lparr>em_nz := ws\<rparr>) }"

text \<open>One block: its context, its tokens, and the flag that it leaves above at \<open>t\<close> and to the left at \<open>l\<close>.\<close>

definition code_block :: "allocator \<Rightarrow> int \<Rightarrow> int \<Rightarrow> int list \<Rightarrow> VP8EncIterator \<times> VP8Residual \<times> VP8BitWriter \<Rightarrow>
    (VP8EncIterator \<times> VP8Residual \<times> VP8BitWriter) option" where
  "code_block malloc t l levels = (\<lambda>(it, res, bw). do {
     a \<leftarrow> ld (it_top_nz it) t;
     b \<leftarrow> ld (it_left_nz it) l;
     res \<leftarrow> SetResidualCoeffs levels res;
     (v, bw) \<leftarrow> PutCoeffs malloc (nat (a + b)) res bw;
     ls \<leftarrow> st (it_left_nz it) l v;
     ts \<leftarrow> st (it_top_nz it) t v;
     Some (it\<lparr>it_top_nz := ts, it_left_nz := ls\<rparr>, res, bw) })"

definition code_luma :: "allocator \<Rightarrow> VP8ModeScore \<Rightarrow> VP8EncIterator \<times> VP8Residual \<times> VP8BitWriter \<Rightarrow>
    (VP8EncIterator \<times> VP8Residual \<times> VP8BitWriter) option" where
  "code_luma malloc rd =
     for_range 0 4 (\<lambda>y. for_range 0 4 (\<lambda>x s. do {
       levels \<leftarrow> ld (y_ac_levels rd) (int x + int y * 4);
       code_block malloc (int x) (int y) levels s }))"

definition code_chroma :: "allocator \<Rightarrow> VP8ModeScore \<Rightarrow> VP8EncIterator \<times> VP8Residual \<times> VP8BitWriter \<Rightarrow>
    (VP8EncIterator \<times> VP8Residual \<times> VP8BitWriter) option" where
  "code_chroma malloc rd =
     for_range 0 2 (\<lambda>k. let ch = 2 * int k in for_range 0 2 (\<lambda>y. for_range 0 2 (\<lambda>x s. do {
       levels \<leftarrow> ld (uv_levels rd) (ch * 2 + int x + int y * 2);
       code_block malloc (4 + ch + int x) (4 + ch + int y) levels s })))"

text \<open>The residual object is a local variable that VP8InitResidual and VP8SetResidualCoeffs fill before it is read.\<close>

definition no_residual :: VP8Residual where
  "no_residual = \<lparr>first = 0, last_nz = 0, coeffs = [], prob = []\<rparr>"

definition CodeResiduals :: "allocator \<Rightarrow> VP8Encoder \<Rightarrow> VP8ModeScore \<Rightarrow> EncModes \<times> VP8EncIterator \<times> VP8BitWriter \<Rightarrow>
    (EncModes \<times> VP8EncIterator \<times> VP8BitWriter) option" where
  "CodeResiduals malloc enc rd = (\<lambda>(em, it, bw). do {
     mb \<leftarrow> ld (em_mb_info em) (it_mb it);
     it \<leftarrow> VP8IteratorNzToBytes em it;
     (it, res, bw) \<leftarrow>
       (if mb_type mb = 1 then do {
          res \<leftarrow> VP8InitResidual 0 1 enc no_residual;
          (it, res, bw) \<leftarrow> code_block malloc 8 8 (y_dc_levels rd) (it, res, bw);
          res \<leftarrow> VP8InitResidual 1 0 enc res;
          Some (it, res, bw) }
        else do {
          res \<leftarrow> VP8InitResidual 0 3 enc no_residual;
          Some (it, res, bw) });
     (it, res, bw) \<leftarrow> code_luma malloc rd (it, res, bw);
     res \<leftarrow> VP8InitResidual 0 2 enc res;
     (it, res, bw) \<leftarrow> code_chroma malloc rd (it, res, bw);
     em \<leftarrow> VP8IteratorBytesToNz it em;
     Some (em, it, bw) })"

definition ResetAfterSkip :: "EncModes \<Rightarrow> VP8EncIterator \<Rightarrow> (EncModes \<times> VP8EncIterator) option" where
  "ResetAfterSkip em it = do {
     mb \<leftarrow> ld (em_mb_info em) (it_mb it);
     (if mb_type mb = 1 then do {
        ws \<leftarrow> st (em_nz em) (it_nz it) 0;
        l \<leftarrow> st (it_left_nz it) 8 0;
        Some (em\<lparr>em_nz := ws\<rparr>, it\<lparr>it_left_nz := l\<rparr>) }
      else do {
        w \<leftarrow> ld (em_nz em) (it_nz it);
        ws \<leftarrow> st (em_nz em) (it_nz it) (w AND push_bit 24 1);
        Some (em\<lparr>em_nz := ws\<rparr>, it) }) }"

text \<open>
  The body of VP8EncLoop after VP8Decimate has chosen the levels \<open>rd\<close> and whether the macroblock can be skipped.
\<close>

definition code_macroblock :: "allocator \<Rightarrow> VP8Encoder \<Rightarrow> VP8ModeScore \<Rightarrow> bool \<Rightarrow> EncModes \<times> VP8EncIterator \<times> VP8BitWriter \<Rightarrow>
    (EncModes \<times> VP8EncIterator \<times> VP8BitWriter) option" where
  "code_macroblock malloc enc rd skipped = (\<lambda>(em, it, bw).
     let dont_use_skip = e_use_skip_proba (e_proba enc) = 0
     in if \<not> skipped \<or> dont_use_skip then CodeResiduals malloc enc rd (em, it, bw)
        else do { (em, it) \<leftarrow> ResetAfterSkip em it; Some (em, it, bw) })"

subsection \<open>The decoder\<close>

definition NzCodeBits :: "u32 \<Rightarrow> nat \<Rightarrow> bool \<Rightarrow> u32" where
  "NzCodeBits nz_coeffs k dc_nz = push_bit 2 nz_coeffs OR (if k > 3 then 3 else if k > 1 then 2 else of_bool dc_nz)"

text \<open>GetCoeffs points to one of two functions; the choice is a parameter.\<close>

definition GetCoeffs :: "bool \<Rightarrow> u8 list \<Rightarrow> int list list list \<Rightarrow> int list \<Rightarrow> nat \<Rightarrow> int list \<Rightarrow> nat \<Rightarrow> int list \<Rightarrow> VP8BitReader \<Rightarrow>
    (nat \<times> int list \<times> VP8BitReader) option" where
  "GetCoeffs alt = (if alt then GetCoeffsAlt else GetCoeffsFast)"

text \<open>The 16 coefficients at \<open>dst\<close>.\<close>

definition get_block :: "bool \<Rightarrow> u8 list \<Rightarrow> VP8Proba \<Rightarrow> nat \<Rightarrow> int \<Rightarrow> int list \<Rightarrow> nat \<Rightarrow> int list \<Rightarrow> nat \<Rightarrow> VP8BitReader \<Rightarrow>
    (nat \<times> int list \<times> VP8BitReader) option" where
  "get_block alt mem pb type ctx dq n0 cs dst br = do {
     bt \<leftarrow> ld (bands pb) (int type);
     ptr \<leftarrow> ld (bands_ptr pb) (int type);
     require (dst + 16 \<le> length cs);
     (n, out, br) \<leftarrow> GetCoeffs alt mem bt ptr (nat ctx) dq n0 (take 16 (drop dst cs)) br;
     Some (n, take dst cs @ out @ drop (dst + 16) cs, br) }"

text \<open>
  One block: the context of the flag to the left and of the lowest bit of the register of the flags above, which is
  shifted and receives the new flag at the bit \<open>sh\<close>.
\<close>

definition residual_block :: "bool \<Rightarrow> u8 list \<Rightarrow> VP8Proba \<Rightarrow> nat \<Rightarrow> int list \<Rightarrow> nat \<Rightarrow> nat \<Rightarrow> nat \<Rightarrow> int \<times> int \<times> u32 \<times> int list \<times> VP8BitReader \<Rightarrow>
    (int \<times> int \<times> u32 \<times> int list \<times> VP8BitReader) option" where
  "residual_block alt mem pb type dq n0 sh dst = (\<lambda>(l, tnz, nz_coeffs, cs, br). do {
     let ctx = l + (tnz AND 1);
     (n, cs, br) \<leftarrow> get_block alt mem pb type ctx dq n0 cs dst br;
     let l = of_bool (n > n0);
     let tnz = take_bit 8 (drop_bit 1 tnz OR push_bit sh l);
     c0 \<leftarrow> ld cs (int dst);
     Some (l, tnz, NzCodeBits nz_coeffs n (c0 \<noteq> 0), cs, br) })"

definition luma_row :: "bool \<Rightarrow> u8 list \<Rightarrow> VP8Proba \<Rightarrow> nat \<Rightarrow> int list \<Rightarrow> nat \<Rightarrow> nat \<Rightarrow> int \<times> int \<times> u32 \<times> int list \<times> VP8BitReader \<Rightarrow>
    (int \<times> int \<times> u32 \<times> int list \<times> VP8BitReader) option" where
  "luma_row alt mem pb ac_proba dq n0 y = (\<lambda>(tnz, lnz, nzy, cs, br). do {
     let l = lnz AND 1;
     (l, tnz, nz_coeffs, cs, br) \<leftarrow>
       for_range 0 4 (\<lambda>x. residual_block alt mem pb ac_proba dq n0 7 (16 * (4 * y + x))) (l, tnz, 0, cs, br);
     Some (drop_bit 4 tnz, take_bit 8 (drop_bit 1 lnz OR push_bit 7 l), push_bit 8 nzy OR nz_coeffs, cs, br) })"

definition chroma_row :: "bool \<Rightarrow> u8 list \<Rightarrow> VP8Proba \<Rightarrow> int list \<Rightarrow> nat \<Rightarrow> nat \<Rightarrow> int \<times> int \<times> u32 \<times> int list \<times> VP8BitReader \<Rightarrow>
    (int \<times> int \<times> u32 \<times> int list \<times> VP8BitReader) option" where
  "chroma_row alt mem pb dq ch y = (\<lambda>(tnz, lnz, nz_coeffs, cs, br). do {
     let l = lnz AND 1;
     (l, tnz, nz_coeffs, cs, br) \<leftarrow>
       for_range 0 2 (\<lambda>x. residual_block alt mem pb 2 dq 0 3 (16 * (16 + 2 * ch + 2 * y + x))) (l, tnz, nz_coeffs, cs, br);
     Some (drop_bit 2 tnz, take_bit 8 (drop_bit 1 lnz OR push_bit 5 l), nz_coeffs, cs, br) })"

text \<open>The two planes of chroma, \<open>ch = 0\<close> and \<open>ch = 2\<close>; the contexts are those of the macroblock above and to the left.\<close>

definition chroma_plane :: "bool \<Rightarrow> u8 list \<Rightarrow> VP8Proba \<Rightarrow> int list \<Rightarrow> int \<Rightarrow> int \<Rightarrow> nat \<Rightarrow> u32 \<times> int \<times> int \<times> int list \<times> VP8BitReader \<Rightarrow>
    (u32 \<times> int \<times> int \<times> int list \<times> VP8BitReader) option" where
  "chroma_plane alt mem pb dq top_nz left_nz k = (\<lambda>(nzuv, out_t, out_l, cs, br). do {
     let ch = 2 * k;
     (tnz, lnz, nz_coeffs, cs, br) \<leftarrow>
       for_range 0 2 (chroma_row alt mem pb dq ch) (drop_bit (4 + ch) top_nz, drop_bit (4 + ch) left_nz, 0, cs, br);
     Some (nzuv OR push_bit (4 * ch) nz_coeffs, out_t OR push_bit ch (push_bit 4 tnz), out_l OR push_bit ch (lnz AND 0xf0), cs, br) })"

text \<open>The DC coefficients of the luma blocks of a 16x16 macroblock.\<close>

definition parse_dc :: "bool \<Rightarrow> u8 list \<Rightarrow> VP8Proba \<Rightarrow> int list \<Rightarrow> int \<Rightarrow> int list \<Rightarrow> VP8BitReader \<Rightarrow> (nat \<times> int list \<times> VP8BitReader) option" where
  "parse_dc alt mem pb dq ctx cs br = do {
     (n, dc, br) \<leftarrow> get_block alt mem pb 1 ctx dq 0 (replicate 16 0) 0 br;
     (if n > 1 then do {
        out \<leftarrow> TransformWHT dc (take 256 cs);
        Some (n, out @ drop 256 cs, br) }
      else do {
        dc_value \<leftarrow> ld dc 0;
        let dc0 = drop_bit 3 (dc_value + 3);
        cs \<leftarrow> for_range 0 16 (\<lambda>i cs. st cs (16 * int i) dc0) cs;
        Some (n, cs, br) }) }"

definition ParseResiduals :: "bool \<Rightarrow> u8 list \<Rightarrow> VP8Decoder \<Rightarrow> VP8BitReader \<Rightarrow> (bool \<times> VP8Decoder \<times> VP8BitReader) option" where
  "ParseResiduals alt mem d br = do {
     block \<leftarrow> ld (mb_data d) (mb_x d);
     q \<leftarrow> ld (dqm d) (md_segment block);
     left_mb \<leftarrow> ld (mb_info d) 0;
     mb \<leftarrow> ld (mb_info d) (1 + mb_x d);
     let cs = replicate 384 0;
     (nz_dc_t, nz_dc_l, n0, ac_proba, cs, br) \<leftarrow>
       (if md_is_i4x4 block = 0 then do {
          let ctx = nz_dc mb + nz_dc left_mb;
          (n, cs, br) \<leftarrow> parse_dc alt mem (proba d) (y2_mat q) ctx cs br;
          Some (of_bool (n > 0), of_bool (n > 0), 1, 0, cs, br) }
        else Some (nz_dc mb, nz_dc left_mb, 0, 3, cs, br));
     (tnz, lnz, nzy, cs, br) \<leftarrow>
       for_range 0 4 (luma_row alt mem (proba d) ac_proba (y1_mat q) n0) (nz mb AND 0x0f, nz left_mb AND 0x0f, 0, cs, br);
     (nzuv, out_t, out_l, cs, br) \<leftarrow>
       for_range 0 2 (chroma_plane alt mem (proba d) (uv_mat q) (nz mb) (nz left_mb)) (0, tnz, drop_bit 4 lnz, cs, br);
     mbs \<leftarrow> st (mb_info d) (1 + mb_x d) (mb\<lparr>nz := take_bit 8 out_t, nz_dc := nz_dc_t\<rparr>);
     mbs \<leftarrow> st mbs 0 (left_mb\<lparr>nz := take_bit 8 out_l, nz_dc := nz_dc_l\<rparr>);
     let dither = (if nzuv AND 0xaaaa \<noteq> 0 then 0 else take_bit 8 (q_dither q));
     blocks \<leftarrow> st (mb_data d) (mb_x d) (block\<lparr>md_coeffs := cs, non_zero_y := nzy, non_zero_uv := nzuv, md_dither := dither\<rparr>);
     Some (nzy OR nzuv = 0, d\<lparr>mb_info := mbs, mb_data := blocks\<rparr>, br) }"

definition store_filter_info :: "bool \<Rightarrow> VP8Decoder \<Rightarrow> VP8Decoder option" where
  "store_filter_info skip d =
     (if filter_type d > 0 then do {
        block \<leftarrow> ld (mb_data d) (mb_x d);
        fs \<leftarrow> ld (fstrengths d) (md_segment block);
        finfo \<leftarrow> ld fs (md_is_i4x4 block);
        infos \<leftarrow> st (f_info d) (mb_x d) (finfo\<lparr>f_inner := f_inner finfo OR of_bool (\<not> skip)\<rparr>);
        Some (d\<lparr>f_info := infos\<rparr>) }
      else Some d)"

definition VP8DecodeMB :: "bool \<Rightarrow> u8 list \<Rightarrow> VP8Decoder \<Rightarrow> VP8BitReader \<Rightarrow> (int \<times> VP8Decoder \<times> VP8BitReader) option" where
  "VP8DecodeMB alt mem d br = do {
     block \<leftarrow> ld (mb_data d) (mb_x d);
     let skip = (if use_skip_proba d \<noteq> 0 then md_skip block else 0);
     (skipped, d, br) \<leftarrow>
       (if skip = 0 then ParseResiduals alt mem d br
        else do {
          lft \<leftarrow> ld (mb_info d) 0;
          mb \<leftarrow> ld (mb_info d) (1 + mb_x d);
          let lft = lft\<lparr>nz := 0\<rparr>;
          let mb = mb\<lparr>nz := 0\<rparr>;
          let lft = (if md_is_i4x4 block = 0 then lft\<lparr>nz_dc := 0\<rparr> else lft);
          let mb = (if md_is_i4x4 block = 0 then mb\<lparr>nz_dc := 0\<rparr> else mb);
          mbs \<leftarrow> st (mb_info d) 0 lft;
          mbs \<leftarrow> st mbs (1 + mb_x d) mb;
          blocks \<leftarrow> st (mb_data d) (mb_x d) (block\<lparr>non_zero_y := 0, non_zero_uv := 0, md_dither := 0\<rparr>);
          Some (True, d\<lparr>mb_info := mbs, mb_data := blocks\<rparr>, br) });
     d \<leftarrow> store_filter_info skipped d;
     Some (of_bool (br_eof br = 0), d, br) }"


subsection \<open>Flags as bits\<close>

definition flags :: "bool list \<Rightarrow> int" where "flags bs = horner_sum of_bool 2 bs"

lemma flags_Cons: "flags (b # bs) = of_bool b + 2 * flags bs" by (simp add: flags_def)
lemma flags_Nil [simp]: "flags [] = 0" by (simp add: flags_def)

lemma bit_flags: "bit (flags bs) n \<longleftrightarrow> n < length bs \<and> bs ! n"
  by (simp add: flags_def bit_horner_sum_bit_iff)

lemma flags_even: "flags (b # bs) AND 1 = of_bool b"
  by (rule bit_eqI) (auto simp: bit_and_iff bit_flags bit_1_iff nth_Cons split: nat.splits)

lemma flags_drop: "drop_bit k (flags bs) = flags (drop k bs)"
  by (rule bit_eqI) (auto simp: bit_drop_bit_eq bit_flags less_diff_conv)

lemma flags_or: "length bs = k \<Longrightarrow> flags bs OR push_bit k (of_bool b) = flags (bs @ [b])"
  by (rule bit_eqI) (auto simp: bit_or_iff bit_push_bit_iff bit_flags nth_append bit_1_iff less_Suc_eq)

lemma flags_take: "length bs \<le> n \<Longrightarrow> take_bit n (flags bs) = flags bs"
  by (rule bit_eqI) (auto simp: bit_take_bit_iff bit_flags)

lemma flags_zeros: "flags (bs @ replicate n False) = flags bs"
  by (rule bit_eqI) (auto simp: bit_flags nth_append)

text \<open>A register that is shifted down and receives a flag on top.\<close>

lemma flags_shift: "length bs = Suc k \<Longrightarrow> k < 8 \<Longrightarrow> take_bit 8 (drop_bit 1 (flags bs) OR push_bit k (of_bool b)) = flags (tl bs @ [b])"
  using flags_or[of "tl bs" k b] by (simp add: flags_drop drop_Suc flags_take)

subsection \<open>The contexts of the encoder\<close>

text \<open>
  \<open>T\<close> and \<open>L\<close> are the nine flags above and to the left of a macroblock: four of luma, two of each chroma plane, and
  that of the DC block. \<open>nz_word\<close> is the packed word after a macroblock whose lower border leaves \<open>T\<close> and whose right border
  leaves \<open>L\<close>.
\<close>

definition top_of :: "u32 \<Rightarrow> bool list" where
  "top_of w = map (bit w) [12, 13, 14, 15, 18, 19, 22, 23, 24]"

definition left_of :: "u32 \<Rightarrow> bool list" where
  "left_of w = map (bit w) [3, 7, 11, 15, 17, 19, 21, 23]"

lemma BIT_bit: "n < 32 \<Longrightarrow> BIT w n = of_bool (bit w n)"
proof -
  assume n: "n < 32"
  have "w AND push_bit n 1 = 0" if "\<not> bit w n"
    using that by (intro bit_eqI) (auto simp: bit_and_iff bit_exp_iff)
  moreover have "bit (w AND push_bit n 1) n" if "bit w n"
    using that n by (simp add: bit_and_iff bit_exp_iff possible_bit_word)
  ultimately show ?thesis by (fastforce simp: BIT_def)
qed

lemma list9: "length (xs :: 'a list) = 9 \<Longrightarrow> \<exists>a b c d e f g h i. xs = [a, b, c, d, e, f, g, h, i]"
  by (auto simp: numeral_eq_Suc length_Suc_conv)

lemma NzToBytes_ok:
  assumes "ld (em_nz em) (it_nz it) = Some tw" "ld (em_nz em) (it_nz it - 1) = Some lw"
    "length (it_top_nz it) = 9" "length (it_left_nz it) = 9"
  shows "VP8IteratorNzToBytes em it = Some (it\<lparr>it_top_nz := map of_bool (top_of tw), it_left_nz := map of_bool (left_of lw) @ [it_left_nz it ! 8]\<rparr>)"
proof -
  obtain a b c d e f g h i where t: "it_top_nz it = [a, b, c, d, e, f, g, h, i]" using list9[OF assms(3)] by blast
  obtain a' b' c' d' e' f' g' h' i' where l: "it_left_nz it = [a', b', c', d', e', f', g', h', i']" using list9[OF assms(4)] by blast
  have b: "BIT w n = of_bool (bit w n)" if "n \<in> {3, 7, 11, 12, 13, 14, 15, 17, 18, 19, 21, 22, 23, 24}" for w n
    using that by (auto simp: BIT_bit)
  show ?thesis
    unfolding VP8IteratorNzToBytes_def assms(1,2) Option.bind.simps Let_def t l
    by (simp add: b st_def top_of_def left_of_def del: bit_numeral_word_iff)
qed

definition nz_word :: "bool list \<Rightarrow> bool list \<Rightarrow> u32" where
  "nz_word T L = (let b = (\<lambda>v n. push_bit n (of_bool v) :: u32) in
     b (T ! 0) 12 OR b (T ! 1) 13 OR b (T ! 2) 14 OR b (T ! 3) 15 OR b (T ! 4) 18 OR b (T ! 5) 19 OR b (T ! 6) 22 OR b (T ! 7) 23 OR
     b (T ! 8) 24 OR b (L ! 0) 3 OR b (L ! 1) 7 OR b (L ! 2) 11 OR b (L ! 4) 17 OR b (L ! 6) 21)"

lemma BytesToNz_ok:
  assumes "length T = 9" "length L = 9" "it_top_nz it = map of_bool T" "it_left_nz it = map of_bool L" "0 \<le> it_nz it" "it_nz it < int (length (em_nz em))"
  shows "VP8IteratorBytesToNz it em = Some (em\<lparr>em_nz := (em_nz em)[nat (it_nz it) := nz_word T L]\<rparr>)"
  using assms by (simp add: VP8IteratorBytesToNz_def Let_def st_def nz_word_def or.assoc)

lemma nz_word_bits:
  assumes "length T = 9" "length L = 9" "L ! 3 = T ! 3" "L ! 5 = T ! 5" "L ! 7 = T ! 7"
  shows "top_of (nz_word T L) = T" "left_of (nz_word T L) = take 8 L"
proof -
  obtain a b c d e f g h i where t: "T = [a, b, c, d, e, f, g, h, i]" using list9[OF assms(1)] by blast
  obtain a' b' c' d' e' f' g' h' i' where l: "L = [a', b', c', d', e', f', g', h', i']" using list9[OF assms(2)] by blast
  have pb: "bit (push_bit n (of_bool v) :: u32) m = (v \<and> m = n)" if "m < 32" for n m v
    using that by (auto simp: bit_push_bit_iff bit_1_iff)
  show "top_of (nz_word T L) = T" "left_of (nz_word T L) = take 8 L"
    using assms(3-5) unfolding t l by (simp_all add: top_of_def left_of_def nz_word_def bit_or_iff pb nth_Cons' cong: conj_cong)
qed

lemma zero_word: "top_of 0 = replicate 9 False" "left_of 0 = replicate 8 False"
  by (simp_all add: top_of_def left_of_def numeral_eq_Suc)

lemma skip_word: "top_of (w AND push_bit 24 1) = replicate 8 False @ [bit w 24]" "left_of (w AND push_bit 24 1) = replicate 8 False"
  by (simp_all add: top_of_def left_of_def bit_and_iff bit_push_bit_iff bit_1_iff) (simp_all add: numeral_eq_Suc)


subsection \<open>Blocks\<close>

text \<open>The index of the last level that is not 0, and the flag of a block.\<close>

definition last_of :: "int list \<Rightarrow> int" where
  "last_of cs = the (find_last cs 16)"

definition flag_of :: "int list \<Rightarrow> bool" where
  "flag_of cs \<longleftrightarrow> 0 \<le> last_of cs"

lemma last_of_ok:
  assumes "length cs = 16" "first res = 0 \<or> cs ! 0 = 0"
  shows "SetResidualCoeffs cs res = Some (res\<lparr>last_nz := last_of cs, coeffs := cs\<rparr>)" "last_ok cs (last_of cs)"
proof -
  from find_last_ok[of 16 cs] assms(1) obtain l where l: "find_last cs 16 = Some l" "last_ok cs l" by (auto simp: last_ok_def)
  moreover have "ld cs 0 = Some (cs ! 0)" using assms(1) by (simp add: ld_def)
  ultimately show "SetResidualCoeffs cs res = Some (res\<lparr>last_nz := last_of cs, coeffs := cs\<rparr>)" "last_ok cs (last_of cs)"
    using assms(2) by (auto simp: SetResidualCoeffs_def last_of_def)
qed

lemma flag_of_iff: "length cs = 16 \<Longrightarrow> flag_of cs \<longleftrightarrow> (\<exists>c\<in>set cs. c \<noteq> 0)"
proof -
  assume l: "length cs = 16"
  have "last_ok cs (last_of cs)" using last_of_ok(2)[of cs no_residual] l by (simp add: no_residual_def)
  then show ?thesis unfolding flag_of_def last_ok_def using l by (auto simp: in_set_conv_nth Bex_def not_le) (metis nat_less_iff nth_mem zero_le_numeral of_nat_numeral)
qed

definition blk_symbols :: "int list list list \<Rightarrow> nat \<Rightarrow> nat \<Rightarrow> int list \<Rightarrow> symbol list" where
  "blk_symbols pr n ctx cs = block_symbols pr n ctx cs (last_of cs)"

lemma emits_code_block:
  assumes res: "prob res = pr" "first res = n" and pr: "bands_ok pr" and cs: "levels_ok n cs"
    and t: "t < length T" "it_top_nz it = map of_bool T" and l: "l < length L" "it_left_nz it = map of_bool L"
  shows "emits malloc e (\<lambda>bw. code_block malloc (int t) (int l) cs (it, res, bw))
    (blk_symbols pr n (of_bool (T ! t) + of_bool (L ! l)) cs)
    (\<lambda>bw. (it\<lparr>it_top_nz := map of_bool (T[t := flag_of cs]), it_left_nz := map of_bool (L[l := flag_of cs])\<rparr>,
       res\<lparr>last_nz := last_of cs, coeffs := cs\<rparr>, bw))"
proof -
  have c: "length cs = 16" "n = 0 \<or> cs ! 0 = 0" using cs by (auto simp: levels_ok_def)
  let ?ctx = "of_bool (T ! t) + of_bool (L ! l) :: nat"
  have r: "res\<lparr>last_nz := last_of cs, coeffs := cs\<rparr> = \<lparr>first = n, last_nz = last_of cs, coeffs = cs, prob = pr\<rparr>"
    using res by (cases res) simp
  have ctx: "nat (of_bool (T ! t) + of_bool (L ! l)) = ?ctx" by simp
  have "emits malloc e (PutCoeffs malloc ?ctx (res\<lparr>last_nz := last_of cs, coeffs := cs\<rparr>)) (blk_symbols pr n ?ctx cs) (Pair (of_bool (flag_of cs)))"
    unfolding r blk_symbols_def flag_of_def by (rule emits_block[OF pr cs]) simp
  note put = this
  have a: "ld (it_top_nz it) (int t) = Some (of_bool (T ! t))" "ld (it_left_nz it) (int l) = Some (of_bool (L ! l))"
    using t l by (simp_all add: ld_nat)
  show ?thesis
    unfolding code_block_def prod.case a Option.bind.simps last_of_ok(1)[OF c(1), of res, unfolded res(2), OF c(2)] ctx
    by (rule emits_last[OF put]) (use t l in \<open>simp add: st_nat map_update\<close>)
qed

text \<open>
  A plane of \<open>k * k\<close> blocks between the flags \<open>T\<close> above and \<open>L\<close> to the left: the context of each block is given by the flags
  of its neighbours.
\<close>

definition ctx_at :: "(nat \<Rightarrow> bool) \<Rightarrow> (nat \<Rightarrow> bool) \<Rightarrow> (nat \<Rightarrow> nat \<Rightarrow> int list) \<Rightarrow> nat \<Rightarrow> nat \<Rightarrow> nat" where
  "ctx_at T L B y x = of_bool (if y = 0 then T x else flag_of (B (y - 1) x)) + of_bool (if x = 0 then L y else flag_of (B y (x - 1)))"

definition plane_symbols :: "int list list list \<Rightarrow> nat \<Rightarrow> nat \<Rightarrow> (nat \<Rightarrow> bool) \<Rightarrow> (nat \<Rightarrow> bool) \<Rightarrow> (nat \<Rightarrow> nat \<Rightarrow> int list) \<Rightarrow> symbol list" where
  "plane_symbols pr n k T L B =
     concat (map (\<lambda>y. concat (map (\<lambda>x. blk_symbols pr n (ctx_at T L B y x) (B y x)) [0..<k])) [0..<k])"

lemma plane_symbols_cong:
  assumes "\<And>i. i < k \<Longrightarrow> T i = T' i" "\<And>i. i < k \<Longrightarrow> L i = L' i"
  shows "plane_symbols pr n k T L B = plane_symbols pr n k T' L' B"
proof -
  have "ctx_at T L B y x = ctx_at T' L' B y x" if "y < k" "x < k" for y x
    using assms(1)[OF that(2)] assms(2)[OF that(1)] by (cases "y = 0"; cases "x = 0"; simp add: ctx_at_def)
  then show ?thesis unfolding plane_symbols_def by (intro arg_cong[where f = concat] map_cong refl) simp
qed

text \<open>The flags of the encoder in the middle of a plane whose flags are kept from index \<open>b\<close>.\<close>

definition top_mid :: "nat \<Rightarrow> nat \<Rightarrow> bool list \<Rightarrow> (nat \<Rightarrow> nat \<Rightarrow> int list) \<Rightarrow> nat \<Rightarrow> nat \<Rightarrow> bool list" where
  "top_mid b k T B y x = map (\<lambda>i. if b \<le> i \<and> i < b + x then flag_of (B y (i - b))
     else if b \<le> i \<and> i < b + k \<and> 0 < y then flag_of (B (y - 1) (i - b)) else T ! i) [0..<length T]"

definition left_mid :: "nat \<Rightarrow> nat \<Rightarrow> bool list \<Rightarrow> (nat \<Rightarrow> nat \<Rightarrow> int list) \<Rightarrow> nat \<Rightarrow> nat \<Rightarrow> bool list" where
  "left_mid b k L B y x = map (\<lambda>i. if b \<le> i \<and> i < b + y then flag_of (B (i - b) (k - 1))
     else if i = b + y \<and> 0 < x then flag_of (B y (x - 1)) else L ! i) [0..<length L]"

lemma mid_length [simp]: "length (top_mid b k T B y x) = length T" "length (left_mid b k L B y x) = length L"
  by (simp_all add: top_mid_def left_mid_def)

lemma mid_start: "top_mid b k T B 0 0 = T" "left_mid b k L B 0 0 = L"
  by (intro nth_equalityI; auto simp: top_mid_def left_mid_def)+

lemma mid_ctx:
  assumes "b + k \<le> length T" "b + k \<le> length L" "x < k" "y < k"
  shows "of_bool (top_mid b k T B y x ! (b + x)) + of_bool (left_mid b k L B y x ! (b + y)) = ctx_at (\<lambda>i. T ! (b + i)) (\<lambda>i. L ! (b + i)) B y x"
  using assms by (auto simp: top_mid_def left_mid_def ctx_at_def)

lemma mid_step:
  assumes "b + k \<le> length T" "b + k \<le> length L" "x < k" "y < k"
  shows "(top_mid b k T B y x)[b + x := flag_of (B y x)] = top_mid b k T B y (Suc x)"
    "(left_mid b k L B y x)[b + y := flag_of (B y x)] = left_mid b k L B y (Suc x)"
  using assms by (intro nth_equalityI; auto simp: top_mid_def left_mid_def nth_list_update)+

lemma mid_row:
  assumes "b + k \<le> length T" "b + k \<le> length L" "0 < k" "y < k"
  shows "top_mid b k T B y k = top_mid b k T B (Suc y) 0" "left_mid b k L B y k = left_mid b k L B (Suc y) 0"
  using assms by (intro nth_equalityI; auto simp: top_mid_def left_mid_def less_Suc_eq)+

lemma emits_plane:
  assumes pr: "bands_ok pr" and n: "first res = n" "prob res = pr" and B: "\<And>y x. y < k \<Longrightarrow> x < k \<Longrightarrow> levels_ok n (B y x)" and k: "0 < k"
    and T: "b + k \<le> length T" "it_top_nz it = map of_bool T" and L: "b + k \<le> length L" "it_left_nz it = map of_bool L"
    and body: "\<And>y x s. y < k \<Longrightarrow> x < k \<Longrightarrow> body y x s = code_block malloc (int (b + x)) (int (b + y)) (B y x) s"
  shows "\<exists>res'. first res' = n \<and> prob res' = pr \<and> emits malloc e (\<lambda>bw. for_range 0 k (\<lambda>y. for_range 0 k (body y)) (it, res, bw))
    (plane_symbols pr n k (\<lambda>i. T ! (b + i)) (\<lambda>i. L ! (b + i)) B)
    (\<lambda>bw. (it\<lparr>it_top_nz := map of_bool (top_mid b k T B k 0), it_left_nz := map of_bool (left_mid b k L B k 0)\<rparr>, res', bw))"
proof -
  let ?it = "\<lambda>y x. it\<lparr>it_top_nz := map of_bool (top_mid b k T B y x), it_left_nz := map of_bool (left_mid b k L B y x)\<rparr>"
  let ?set = "\<lambda>cs. res\<lparr>last_nz := last_of cs, coeffs := cs\<rparr>"
  let ?res = "\<lambda>y x. if 0 < x then ?set (B y (x - 1)) else if 0 < y then ?set (B (y - 1) (k - 1)) else res"
  have f: "first (?res y x) = n" "prob (?res y x) = pr" for y x using n by simp_all
  have inner: "emits malloc e (\<lambda>bw. for_range 0 k (body y) (?it y 0, ?res y 0, bw))
      (concat (map (\<lambda>x. blk_symbols pr n (ctx_at (\<lambda>i. T ! (b + i)) (\<lambda>i. L ! (b + i)) B y x) (B y x)) [0..<k])) (\<lambda>bw. (?it y k, ?res y k, bw))"
    if y: "y < k" for y
  proof (rule emits_for)
    fix x assume x: "x < k"
    have "emits malloc e (\<lambda>bw. code_block malloc (int (b + x)) (int (b + y)) (B y x) (?it y x, ?res y x, bw))
      (blk_symbols pr n (of_bool (top_mid b k T B y x ! (b + x)) + of_bool (left_mid b k L B y x ! (b + y))) (B y x))
      (\<lambda>bw. ((?it y x)\<lparr>it_top_nz := map of_bool ((top_mid b k T B y x)[b + x := flag_of (B y x)]),
         it_left_nz := map of_bool ((left_mid b k L B y x)[b + y := flag_of (B y x)])\<rparr>, (?res y x)\<lparr>last_nz := last_of (B y x), coeffs := B y x\<rparr>, bw))"
      by (rule emits_code_block[OF f(2,1) pr B[OF y x]]) (use T L x y in simp_all)
    moreover have "(?res y x)\<lparr>last_nz := last_of (B y x), coeffs := B y x\<rparr> = ?res y (Suc x)" by simp
    moreover have "(?it y x)\<lparr>it_top_nz := map of_bool ((top_mid b k T B y x)[b + x := flag_of (B y x)]),
         it_left_nz := map of_bool ((left_mid b k L B y x)[b + y := flag_of (B y x)])\<rparr> = ?it y (Suc x)"
      unfolding mid_step[OF T(1) L(1) x y] by simp
    ultimately show "emits malloc e (\<lambda>bw. body y x (?it y x, ?res y x, bw)) (blk_symbols pr n (ctx_at (\<lambda>i. T ! (b + i)) (\<lambda>i. L ! (b + i)) B y x) (B y x))
      (\<lambda>bw. (?it y (Suc x), ?res y (Suc x), bw))"
      unfolding body[OF y x] mid_ctx[OF T(1) L(1) x y] by (simp only:)
  qed simp
  have "emits malloc e (\<lambda>bw. for_range 0 k (\<lambda>y. for_range 0 k (body y)) (?it 0 0, ?res 0 0, bw))
    (plane_symbols pr n k (\<lambda>i. T ! (b + i)) (\<lambda>i. L ! (b + i)) B) (\<lambda>bw. (?it k 0, ?res k 0, bw))"
    unfolding plane_symbols_def
  proof (rule emits_for)
    fix y assume y: "y < k"
    from inner[OF y] show "emits malloc e (\<lambda>bw. for_range 0 k (body y) (?it y 0, ?res y 0, bw))
      (concat (map (\<lambda>x. blk_symbols pr n (ctx_at (\<lambda>i. T ! (b + i)) (\<lambda>i. L ! (b + i)) B y x) (B y x)) [0..<k])) (\<lambda>bw. (?it (Suc y) 0, ?res (Suc y) 0, bw))"
      unfolding mid_row[OF T(1) L(1) k y] using k by simp
  qed simp
  then have e: "emits malloc e (\<lambda>bw. for_range 0 k (\<lambda>y. for_range 0 k (body y)) (it, res, bw))
    (plane_symbols pr n k (\<lambda>i. T ! (b + i)) (\<lambda>i. L ! (b + i)) B) (\<lambda>bw. (?it k 0, ?res k 0, bw))"
  proof -
    have "?it 0 0 = it" unfolding mid_start using T(2) L(2) by (cases it) simp
    moreover have "?res 0 0 = res" by simp
    ultimately show ?thesis using \<open>emits malloc e (\<lambda>bw. for_range 0 k (\<lambda>y. for_range 0 k (body y)) (?it 0 0, ?res 0 0, bw)) _ _\<close> by (simp only:)
  qed
  show ?thesis by (intro exI[of _ "?res k 0"] conjI f e)
qed


subsection \<open>The residuals of a macroblock\<close>

definition luma_of :: "VP8ModeScore \<Rightarrow> nat \<Rightarrow> nat \<Rightarrow> int list" where
  "luma_of rd y x = y_ac_levels rd ! (x + y * 4)"

definition chroma_of :: "VP8ModeScore \<Rightarrow> nat \<Rightarrow> nat \<Rightarrow> nat \<Rightarrow> int list" where
  "chroma_of rd k y x = uv_levels rd ! (4 * k + x + y * 2)"

definition levels_of_ok :: "bool \<Rightarrow> VP8ModeScore \<Rightarrow> bool" where
  "levels_of_ok i16 rd \<longleftrightarrow> length (y_ac_levels rd) = 16 \<and> length (uv_levels rd) = 8 \<and>
     (\<forall>cs\<in>set (y_ac_levels rd). levels_ok (of_bool i16) cs) \<and> (\<forall>cs\<in>set (uv_levels rd). levels_ok 0 cs) \<and>
     (i16 \<longrightarrow> levels_ok 0 (y_dc_levels rd))"

definition coder_probas_ok :: "VP8Encoder \<Rightarrow> bool" where
  "coder_probas_ok enc \<longleftrightarrow> length (e_coeffs (e_proba enc)) = 4 \<and> (\<forall>pr\<in>set (e_coeffs (e_proba enc)). bands_ok pr)"

abbreviation coder_probas :: "VP8Encoder \<Rightarrow> nat \<Rightarrow> int list list list" where
  "coder_probas enc t \<equiv> e_coeffs (e_proba enc) ! t"

definition residual_symbols :: "VP8Encoder \<Rightarrow> bool \<Rightarrow> bool list \<Rightarrow> bool list \<Rightarrow> VP8ModeScore \<Rightarrow> symbol list" where
  "residual_symbols enc i16 T L rd =
     (if i16 then blk_symbols (coder_probas enc 1) 0 (of_bool (T ! 8) + of_bool (L ! 8)) (y_dc_levels rd) else []) @
     plane_symbols (coder_probas enc (if i16 then 0 else 3)) (of_bool i16) 4 (\<lambda>i. T ! i) (\<lambda>i. L ! i) (luma_of rd) @
     plane_symbols (coder_probas enc 2) 0 2 (\<lambda>i. T ! (4 + i)) (\<lambda>i. L ! (4 + i)) (chroma_of rd 0) @
     plane_symbols (coder_probas enc 2) 0 2 (\<lambda>i. T ! (6 + i)) (\<lambda>i. L ! (6 + i)) (chroma_of rd 1)"

text \<open>The flags that a macroblock leaves below and to the right; \<open>d\<close> is the one of the DC block.\<close>

definition top_flags :: "VP8ModeScore \<Rightarrow> bool \<Rightarrow> bool list" where
  "top_flags rd d = map flag_of [luma_of rd 3 0, luma_of rd 3 1, luma_of rd 3 2, luma_of rd 3 3,
     chroma_of rd 0 1 0, chroma_of rd 0 1 1, chroma_of rd 1 1 0, chroma_of rd 1 1 1] @ [d]"

definition left_flags :: "VP8ModeScore \<Rightarrow> bool \<Rightarrow> bool list" where
  "left_flags rd d = map flag_of [luma_of rd 0 3, luma_of rd 1 3, luma_of rd 2 3, luma_of rd 3 3,
     chroma_of rd 0 0 1, chroma_of rd 0 1 1, chroma_of rd 1 0 1, chroma_of rd 1 1 1] @ [d]"

lemma mid_flags:
  assumes "length T = 9"
  shows "top_mid 6 2 (top_mid 4 2 (top_mid 0 4 T (luma_of rd) 4 0) (chroma_of rd 0) 2 0) (chroma_of rd 1) 2 0 = top_flags rd (T ! 8)"
    "left_mid 6 2 (left_mid 4 2 (left_mid 0 4 T (luma_of rd) 4 0) (chroma_of rd 0) 2 0) (chroma_of rd 1) 2 0 = left_flags rd (T ! 8)"
proof -
  obtain a b c d e f g h i where t: "T = [a, b, c, d, e, f, g, h, i]" using list9[OF assms] by blast
  have u: "[0..<9] = [0, 1, 2, 3, 4, 5, 6, 7, 8]" by (simp add: upt_rec)
  show "top_mid 6 2 (top_mid 4 2 (top_mid 0 4 T (luma_of rd) 4 0) (chroma_of rd 0) 2 0) (chroma_of rd 1) 2 0 = top_flags rd (T ! 8)"
    "left_mid 6 2 (left_mid 4 2 (left_mid 0 4 T (luma_of rd) 4 0) (chroma_of rd 0) 2 0) (chroma_of rd 1) 2 0 = left_flags rd (T ! 8)"
    unfolding t by (simp_all add: top_mid_def left_mid_def u top_flags_def left_flags_def flip: numeral_2_eq_2 numeral_3_eq_3)
qed

lemma flags_length [simp]: "length (top_flags rd d) = 9" "length (left_flags rd d) = 9"
  by (simp_all add: top_flags_def left_flags_def)

lemma loop2: "for_range 0 2 body s = do { s \<leftarrow> body 0 s; body 1 s }"
proof -
  have f: "a < b \<Longrightarrow> for_range a b body = (\<lambda>s. body a s \<bind> for_range (Suc a) b body)" for a b
    by (rule ext) (simp add: for_range_step)
  have e: "for_range 2 2 body = Some" by (rule ext) simp
  show ?thesis using e by (simp add: f numeral_2_eq_2)
qed

lemma emits_loop2:
  assumes "emits malloc e (\<lambda>bw. body 0 (r0 bw)) xs r1" "emits malloc e (\<lambda>bw. body 1 (r1 bw)) ys r2"
  shows "emits malloc e (\<lambda>bw. for_range 0 2 body (r0 bw)) (xs @ ys) r2"
  unfolding loop2 by (rule emits_bind[OF assms])

lemma emits_CodeResiduals:
  assumes pr: "coder_probas_ok enc" and rd: "levels_of_ok i16 rd"
    and mb: "ld (em_mb_info em) (it_mb it) = Some mb" "i16 \<longleftrightarrow> mb_type mb = 1"
    and w: "ld (em_nz em) (it_nz it) = Some tw" "ld (em_nz em) (it_nz it - 1) = Some lw"
    and len: "length (it_top_nz it) = 9" "length (it_left_nz it) = 9" "it_left_nz it ! 8 = of_bool l8"
    and TL: "T = top_of tw" "L = left_of lw @ [l8]" "d = flag_of (y_dc_levels rd)"
      "T' = top_flags rd (if i16 then d else T ! 8)" "L' = left_flags rd (if i16 then d else L ! 8)"
  shows "emits malloc e (\<lambda>bw. CodeResiduals malloc enc rd (em, it, bw)) (residual_symbols enc i16 T L rd)
    (\<lambda>bw. (em\<lparr>em_nz := (em_nz em)[nat (it_nz it) := nz_word T' L']\<rparr>, it\<lparr>it_top_nz := map of_bool T', it_left_nz := map of_bool L'\<rparr>, bw))"
proof -
  have p4: "length (e_coeffs (e_proba enc)) = 4" using pr by (simp add: coder_probas_ok_def)
  have pb: "bands_ok (coder_probas enc t)" if "t < 4" for t using pr that by (simp add: coder_probas_ok_def)
  have ini: "VP8InitResidual n t enc r = Some (r\<lparr>prob := coder_probas enc t, first := n\<rparr>)" if "t < 4" for n t r
    using p4 that by (simp add: VP8InitResidual_def ld_nat)
  have T9: "length T = 9" "length L = 9" by (simp_all add: TL top_of_def left_of_def)
  let ?it0 = "it\<lparr>it_top_nz := map of_bool T, it_left_nz := map of_bool L\<rparr>"
  have n: "VP8IteratorNzToBytes em it = Some ?it0"
    using NzToBytes_ok[OF w len(1,2)] len(3) by (simp add: TL)
  let ?T1 = "if i16 then T[8 := d] else T" and ?L1 = "if i16 then L[8 := d] else L"
  let ?n = "of_bool i16 :: nat"
  let ?it1 = "it\<lparr>it_top_nz := map of_bool ?T1, it_left_nz := map of_bool ?L1\<rparr>"
  have "\<exists>res1. first res1 = ?n \<and> prob res1 = coder_probas enc (if i16 then 0 else 3) \<and>
    emits malloc e (\<lambda>bw. if mb_type mb = 1 then do {
          res \<leftarrow> VP8InitResidual 0 1 enc no_residual;
          (it, res, bw) \<leftarrow> code_block malloc 8 8 (y_dc_levels rd) (?it0, res, bw);
          res \<leftarrow> VP8InitResidual 1 0 enc res;
          Some (it, res, bw) }
        else do {
          res \<leftarrow> VP8InitResidual 0 3 enc no_residual;
          Some (?it0, res, bw) })
      (if i16 then blk_symbols (coder_probas enc 1) 0 (of_bool (T ! 8) + of_bool (L ! 8)) (y_dc_levels rd) else []) (\<lambda>bw. (?it1, res1, bw))"
  proof (cases i16)
    case True
    let ?r = "no_residual\<lparr>prob := coder_probas enc 1, first := 0\<rparr>"
    have cs: "levels_ok 0 (y_dc_levels rd)" using rd True by (simp add: levels_of_ok_def)
    have "emits malloc e (\<lambda>bw. code_block malloc (int 8) (int 8) (y_dc_levels rd) (?it0, ?r, bw))
      (blk_symbols (coder_probas enc 1) 0 (of_bool (T ! 8) + of_bool (L ! 8)) (y_dc_levels rd))
      (\<lambda>bw. (?it0\<lparr>it_top_nz := map of_bool (T[8 := flag_of (y_dc_levels rd)]), it_left_nz := map of_bool (L[8 := flag_of (y_dc_levels rd)])\<rparr>,
       ?r\<lparr>last_nz := last_of (y_dc_levels rd), coeffs := y_dc_levels rd\<rparr>, bw))"
      by (rule emits_code_block) (use cs pb T9 in simp_all)
    then show ?thesis
      using True mb(2) TL(3)
      by (intro exI[of _ "?r\<lparr>last_nz := last_of (y_dc_levels rd), coeffs := y_dc_levels rd, prob := coder_probas enc 0, first := 1\<rparr>"])
         (auto simp: ini intro!: emits_last)
  next
    case False
    then show ?thesis
      using mb(2) by (intro exI[of _ "no_residual\<lparr>prob := coder_probas enc 3, first := 0\<rparr>"]) (simp add: ini emits_Some[where r = "\<lambda>bw. (_, _, bw)"])
  qed
  then obtain res1 where r1: "first res1 = ?n" "prob res1 = coder_probas enc (if i16 then 0 else 3)"
    and e1: "emits malloc e (\<lambda>bw. if mb_type mb = 1 then do {
          res \<leftarrow> VP8InitResidual 0 1 enc no_residual;
          (it, res, bw) \<leftarrow> code_block malloc 8 8 (y_dc_levels rd) (?it0, res, bw);
          res \<leftarrow> VP8InitResidual 1 0 enc res;
          Some (it, res, bw) }
        else do {
          res \<leftarrow> VP8InitResidual 0 3 enc no_residual;
          Some (?it0, res, bw) })
      (if i16 then blk_symbols (coder_probas enc 1) 0 (of_bool (T ! 8) + of_bool (L ! 8)) (y_dc_levels rd) else []) (\<lambda>bw. (?it1, res1, bw))"
    by blast
  have lev: "levels_ok ?n (luma_of rd y x)" if "y < 4" "x < 4" for y x
  proof -
    have "x + y * 4 < 16" using that by linarith
    then show ?thesis using rd by (simp add: levels_of_ok_def luma_of_def)
  qed
  have lev2: "levels_ok 0 (chroma_of rd k y x)" if "k < 2" "y < 2" "x < 2" for k y x
  proof -
    have "4 * k + x + y * 2 < 8" using that by linarith
    then show ?thesis using rd by (simp add: levels_of_ok_def chroma_of_def)
  qed
  have ldl: "ld (y_ac_levels rd) (int x + int y * 4) = Some (luma_of rd y x)" if "y < 4" "x < 4" for y x
  proof -
    have "int x + int y * 4 = int (x + y * 4)" "x + y * 4 < 16" using that by simp_all
    then show ?thesis using rd by (simp only: ld_nat levels_of_ok_def luma_of_def)
  qed
  have ldc: "ld (uv_levels rd) (2 * int k * 2 + int x + int y * 2) = Some (chroma_of rd k y x)" if "k < 2" "y < 2" "x < 2" for k y x
  proof -
    have "2 * int k * 2 + int x + int y * 2 = int (4 * k + x + y * 2)" "4 * k + x + y * 2 < 8" using that by simp_all
    then show ?thesis using rd by (simp only: ld_nat levels_of_ok_def chroma_of_def)
  qed
  have T1: "length ?T1 = 9" "length ?L1 = 9" "i < 8 \<Longrightarrow> ?T1 ! i = T ! i" "i < 8 \<Longrightarrow> ?L1 ! i = L ! i" for i using T9 by auto
  let ?T2 = "top_mid 0 4 ?T1 (luma_of rd) 4 0" and ?L2 = "left_mid 0 4 ?L1 (luma_of rd) 4 0"
  let ?T3 = "top_mid 4 2 ?T2 (chroma_of rd 0) 2 0" and ?L3 = "left_mid 4 2 ?L2 (chroma_of rd 0) 2 0"
  let ?T4 = "top_mid 6 2 ?T3 (chroma_of rd 1) 2 0" and ?L4 = "left_mid 6 2 ?L3 (chroma_of rd 1) 2 0"
  let ?at = "\<lambda>T L. it\<lparr>it_top_nz := map of_bool T, it_left_nz := map of_bool L\<rparr>"
  from pb have pbs: "bands_ok (coder_probas enc (if i16 then 0 else 3))" "bands_ok (coder_probas enc 2)" by simp_all
  obtain res2 where e2: "emits malloc e (\<lambda>bw. code_luma malloc rd (?it1, res1, bw))
      (plane_symbols (coder_probas enc (if i16 then 0 else 3)) ?n 4 (\<lambda>i. ?T1 ! (0 + i)) (\<lambda>i. ?L1 ! (0 + i)) (luma_of rd)) (\<lambda>bw. (?at ?T2 ?L2, res2, bw))"
    using emits_plane[OF pbs(1) r1, of 4 "luma_of rd" 0 ?T1 ?it1 ?L1
        "\<lambda>y x s. do { levels \<leftarrow> ld (y_ac_levels rd) (int x + int y * 4); code_block malloc (int x) (int y) levels s }" malloc e] lev T1
    unfolding code_luma_def by (auto simp: ldl)
  let ?res3 = "res2\<lparr>prob := coder_probas enc 2, first := 0\<rparr>"
  have plane: "\<exists>r'. first r' = 0 \<and> prob r' = coder_probas enc 2 \<and> emits malloc e (\<lambda>bw. (let ch = 2 * int k in for_range 0 2 (\<lambda>y. for_range 0 2 (\<lambda>x s. do {
       levels \<leftarrow> ld (uv_levels rd) (ch * 2 + int x + int y * 2);
       code_block malloc (4 + ch + int x) (4 + ch + int y) levels s }))) (?at T0 L0, r, bw))
      (plane_symbols (coder_probas enc 2) 0 2 (\<lambda>i. T0 ! (4 + 2 * k + i)) (\<lambda>i. L0 ! (4 + 2 * k + i)) (chroma_of rd k))
      (\<lambda>bw. (?at (top_mid (4 + 2 * k) 2 T0 (chroma_of rd k) 2 0) (left_mid (4 + 2 * k) 2 L0 (chroma_of rd k) 2 0), r', bw))"
    if "k < 2" "length T0 = 9" "length L0 = 9" "first r = 0" "prob r = coder_probas enc 2" for k T0 L0 r
  proof -
    have at: "(?at T L)\<lparr>it_top_nz := u, it_left_nz := v\<rparr> = it\<lparr>it_top_nz := u, it_left_nz := v\<rparr>" for T L u v by simp
    have bd: "do { levels \<leftarrow> ld (uv_levels rd) (2 * int k * 2 + int x + int y * 2); code_block malloc (4 + 2 * int k + int x) (4 + 2 * int k + int y) levels s } =
        code_block malloc (int (4 + 2 * k + x)) (int (4 + 2 * k + y)) (chroma_of rd k y x) s" if "y < 2" "x < 2" for y x s
      unfolding ldc[OF \<open>k < 2\<close> that] by simp
    show ?thesis unfolding Let_def
      by (rule emits_plane[OF pbs(2) that(4,5), where it = "?at T0 L0", unfolded at]) (use lev2 that bd in simp_all)
  qed
  obtain res4 where r4: "first res4 = 0" "prob res4 = coder_probas enc 2" and
    e3: "emits malloc e (\<lambda>bw. (let ch = 2 * int 0 in for_range 0 2 (\<lambda>y. for_range 0 2 (\<lambda>x s. do {
       levels \<leftarrow> ld (uv_levels rd) (ch * 2 + int x + int y * 2);
       code_block malloc (4 + ch + int x) (4 + ch + int y) levels s }))) (?at ?T2 ?L2, ?res3, bw))
      (plane_symbols (coder_probas enc 2) 0 2 (\<lambda>i. ?T2 ! (4 + 2 * 0 + i)) (\<lambda>i. ?L2 ! (4 + 2 * 0 + i)) (chroma_of rd 0))
      (\<lambda>bw. (?at (top_mid (4 + 2 * 0) 2 ?T2 (chroma_of rd 0) 2 0) (left_mid (4 + 2 * 0) 2 ?L2 (chroma_of rd 0) 2 0), res4, bw))"
    using plane[of 0 ?T2 ?L2 ?res3] T1 by auto
  obtain res5 where 
    e4: "emits malloc e (\<lambda>bw. (let ch = 2 * int 1 in for_range 0 2 (\<lambda>y. for_range 0 2 (\<lambda>x s. do {
       levels \<leftarrow> ld (uv_levels rd) (ch * 2 + int x + int y * 2);
       code_block malloc (4 + ch + int x) (4 + ch + int y) levels s }))) (?at ?T3 ?L3, res4, bw))
      (plane_symbols (coder_probas enc 2) 0 2 (\<lambda>i. ?T3 ! (4 + 2 * 1 + i)) (\<lambda>i. ?L3 ! (4 + 2 * 1 + i)) (chroma_of rd 1))
      (\<lambda>bw. (?at (top_mid (4 + 2 * 1) 2 ?T3 (chroma_of rd 1) 2 0) (left_mid (4 + 2 * 1) 2 ?L3 (chroma_of rd 1) 2 0), res5, bw))"
    using plane[of 1 ?T3 ?L3 res4] T1 r4 by auto
  have T2: "?T2 ! (4 + i) = T ! (4 + i)" "?L2 ! (4 + i) = L ! (4 + i)" if "i < 2" for i
    using T1 that by (simp_all add: top_mid_def left_mid_def)
  have T3: "?T3 ! (6 + i) = T ! (6 + i)" "?L3 ! (6 + i) = L ! (6 + i)" if "i < 2" for i
    using T1 that by (simp_all add: top_mid_def left_mid_def)
  have fin: "?T4 = T'" "?L4 = L'" using mid_flags[OF T1(1)] mid_flags[OF T1(2)] T9 by (simp_all add: TL)
  have s2: "plane_symbols pr n 4 (\<lambda>i. ?T1 ! (0 + i)) (\<lambda>i. ?L1 ! (0 + i)) B = plane_symbols pr n 4 (\<lambda>i. T ! (0 + i)) (\<lambda>i. L ! (0 + i)) B" for pr n B
    by (rule plane_symbols_cong) (use T1 in auto)
  have s3: "plane_symbols pr n 2 (\<lambda>i. ?T2 ! (4 + i)) (\<lambda>i. ?L2 ! (4 + i)) B = plane_symbols pr n 2 (\<lambda>i. T ! (4 + i)) (\<lambda>i. L ! (4 + i)) B" for pr n B
    by (rule plane_symbols_cong) (use T2 in auto)
  have s4: "plane_symbols pr n 2 (\<lambda>i. ?T3 ! (6 + i)) (\<lambda>i. ?L3 ! (6 + i)) B = plane_symbols pr n 2 (\<lambda>i. T ! (6 + i)) (\<lambda>i. L ! (6 + i)) B" for pr n B
    by (rule plane_symbols_cong) (use T3 in auto)
  have nzi: "0 \<le> it_nz it" "it_nz it < int (length (em_nz em))" using w(1) by (auto simp: ld_def split: if_splits)
  have last: "VP8IteratorBytesToNz (?at T' L') em = Some (em\<lparr>em_nz := (em_nz em)[nat (it_nz it) := nz_word T' L']\<rparr>)"
    using BytesToNz_ok[of T' L' "?at T' L'" em] nzi by (simp add: TL)
  note e4' = e4[unfolded mult_1_right numeral_plus_numeral add_num_simps s4 fin]
  note e3' = e3[unfolded mult_0_right add_0_right s3]
  have ch: "emits malloc e (\<lambda>bw. code_chroma malloc rd (?at ?T2 ?L2, ?res3, bw))
     (plane_symbols (coder_probas enc 2) 0 2 (\<lambda>i. T ! (4 + i)) (\<lambda>i. L ! (4 + i)) (chroma_of rd 0) @
      plane_symbols (coder_probas enc 2) 0 2 (\<lambda>i. T ! (6 + i)) (\<lambda>i. L ! (6 + i)) (chroma_of rd 1)) (\<lambda>bw. (?at T' L', res5, bw))"
    unfolding code_chroma_def by (rule emits_loop2[OF e3' e4'])
  show ?thesis
    unfolding CodeResiduals_def prod.case mb(1) n Option.bind.simps residual_symbols_def
    apply (rule emits_bind[OF e1])
    apply (simp only: prod.case)
    apply (rule emits_bind[OF e2[unfolded s2, unfolded add_0]])
    apply (simp only: prod.case ini Option.bind.simps)
    apply (rule emits_last[OF ch])
    apply (simp only: prod.case last Option.bind.simps)
    done
qed


subsection \<open>Reading blocks\<close>

text \<open>What GetCoeffs returns, and the two-bit code of a block with the samples \<open>out\<close>.\<close>

definition block_count :: "nat \<Rightarrow> int list \<Rightarrow> nat" where
  "block_count n cs = (if flag_of cs then nat (last_of cs) + 1 else n)"

definition block_code :: "nat \<Rightarrow> int list \<Rightarrow> int list \<Rightarrow> u32" where
  "block_code n cs out = (if block_count n cs > 3 then 3 else if block_count n cs > 1 then 2 else of_bool (out ! 0 \<noteq> 0))"

lemma block_count_flag: "levels_ok n cs \<Longrightarrow> n < block_count n cs \<longleftrightarrow> flag_of cs"
proof -
  assume cs: "levels_ok n cs"
  then have c: "length cs = 16" "n \<le> 1" "n = 1 \<longrightarrow> cs ! 0 = 0" by (simp_all add: levels_ok_def)
  have l: "last_ok cs (last_of cs)" using last_of_ok(2)[of cs no_residual] c(1) by (simp add: no_residual_def)
  show ?thesis
  proof (cases "flag_of cs")
    case True
    have "n \<le> nat (last_of cs)"
    proof (rule ccontr)
      assume "\<not> n \<le> nat (last_of cs)"
      then have "n = 1" "nat (last_of cs) = 0" using c(2) by simp_all
      then show False using l True c(3) by (simp add: last_ok_def flag_of_def)
    qed
    then show ?thesis using True by (simp add: block_count_def)
  qed (simp add: block_count_def)
qed

definition pack_codes :: "u32 list \<Rightarrow> u32" where
  "pack_codes cs = foldl (\<lambda>w c. push_bit 2 w OR c) 0 cs"

lemma pack_codes_simps: "pack_codes [] = 0" "pack_codes (cs @ [c]) = push_bit 2 (pack_codes cs) OR c"
  by (simp_all add: pack_codes_def)

lemma pack_codes_append: "pack_codes (xs @ ys) = push_bit (2 * length ys) (pack_codes xs) OR pack_codes ys"
proof (induction ys rule: rev_induct)
  case (snoc y ys)
  have "pack_codes (xs @ ys @ [y]) = push_bit 2 (push_bit (2 * length ys) (pack_codes xs) OR pack_codes ys) OR y"
    using pack_codes_simps(2)[of "xs @ ys" y] snoc.IH by simp
  then show ?case by (simp add: pack_codes_simps or.assoc add.commute[of 2])
qed (simp add: pack_codes_simps)

lemma NzCodeBits_pack: "NzCodeBits (pack_codes cds) (block_count n cs) (out ! 0 \<noteq> 0) = pack_codes (cds @ [block_code n cs out])"
  by (simp add: NzCodeBits_def pack_codes_simps block_code_def)

lemma parses_get_block:
  assumes pb: "ld (bands pb) (int t) = Some pr" "ld (bands_ptr pb) (int t) = Some kBands" and pr: "bands_ok pr"
    and lv: "levels_ok n lv" and dq: "length dq = 2" and ctx: "ctx = int c" "c < 3" and dst: "dst + 16 \<le> length cs"
  shows "parses w mem bs (get_block alt mem pb t ctx dq n cs dst) (blk_symbols pr n c lv)
    (\<lambda>br. (block_count n lv, take dst cs @ dequantized dq n (drop n lv) (take 16 (drop dst cs)) @ drop (dst + 16) cs, br))"
proof -
  have "last_ok lv (last_of lv)" using last_of_ok(2)[of lv no_residual] lv by (simp add: no_residual_def levels_ok_def)
  note g = parses_GetCoeffs[OF pr lv this ctx(2) dq, of "take 16 (drop dst cs)" w mem bs alt]
  have len: "length (take 16 (drop dst cs)) = 16" using dst by simp
  show ?thesis
    unfolding get_block_def pb Option.bind.simps GetCoeffs_def blk_symbols_def ctx(1) nat_int
    using dst by (simp add: parses_last[OF g[OF len]] block_count_def flag_of_def)
qed

lemma ctx_two: "of_bool a + (of_bool b :: int) = int (of_bool b + of_bool a)" "(of_bool b + of_bool a :: nat) < 3"
  by simp_all

lemma parses_residual_block:
  assumes pb: "ld (bands pb) (int t) = Some pr" "ld (bands_ptr pb) (int t) = Some kBands" and pr: "bands_ok pr"
    and lv: "levels_ok n lv" and dq: "length dq = 2" and dst: "dst + 16 \<le> length cs"
    and T: "length ts = Suc sh" "sh < 8" and out: "out = dequantized dq n (drop n lv) (take 16 (drop dst cs))"
  shows "parses w mem bs (\<lambda>br. residual_block alt mem pb t dq n sh dst (of_bool l, flags ts, pack_codes cds, cs, br))
    (blk_symbols pr n (of_bool (hd ts) + of_bool l) lv)
    (\<lambda>br. (of_bool (flag_of lv), flags (tl ts @ [flag_of lv]), pack_codes (cds @ [block_code n lv out]), take dst cs @ out @ drop (dst + 16) cs, br))"
proof -
  obtain b bs' where ts: "ts = b # bs'" using T(1) by (cases ts) auto
  have c: "of_bool l + (flags ts AND 1) = int (of_bool (hd ts) + of_bool l)" by (simp add: ts flags_even)
  have lo: "length out = 16" using dst by (simp add: out)
  have "ld (take dst cs @ out @ drop (dst + 16) cs) (int dst) = Some (out ! 0)"
    using dst lo by (subst ld_nat) (simp_all add: nth_append)
  then show ?thesis
    unfolding residual_block_def Let_def prod.case
    by (intro parses_last[OF parses_get_block[OF pb pr lv dq c ctx_two(2) dst]])
       (simp only: prod.case block_count_flag[OF lv] flags_shift[OF T] NzCodeBits_pack out[symmetric] Option.bind.simps)
qed


subsection \<open>Reading planes\<close>

text \<open>The blocks of a macroblock in the order of the decoder, their start index and their samples after reading.\<close>

definition levels_at :: "VP8ModeScore \<Rightarrow> nat \<Rightarrow> int list" where
  "levels_at rd j = (if j < 16 then y_ac_levels rd ! j else uv_levels rd ! (j - 16))"

definition start_at :: "bool \<Rightarrow> nat \<Rightarrow> nat" where
  "start_at i16 j = of_bool (i16 \<and> j < 16)"

definition steps_at :: "VP8QuantMatrix \<Rightarrow> nat \<Rightarrow> int list" where
  "steps_at q j = (if j < 16 then y1_mat q else uv_mat q)"

definition block_at :: "VP8QuantMatrix \<Rightarrow> bool \<Rightarrow> int list \<Rightarrow> VP8ModeScore \<Rightarrow> nat \<Rightarrow> int list" where
  "block_at q i16 cs0 rd j = dequantized (steps_at q j) (start_at i16 j) (drop (start_at i16 j) (levels_at rd j)) (take 16 (drop (16 * j) cs0))"

definition code_at :: "VP8QuantMatrix \<Rightarrow> bool \<Rightarrow> int list \<Rightarrow> VP8ModeScore \<Rightarrow> nat \<Rightarrow> u32" where
  "code_at q i16 cs0 rd j = block_code (start_at i16 j) (levels_at rd j) (block_at q i16 cs0 rd j)"

text \<open>The coefficients when the first \<open>j\<close> blocks have been read.\<close>

definition read_upto :: "VP8QuantMatrix \<Rightarrow> bool \<Rightarrow> int list \<Rightarrow> VP8ModeScore \<Rightarrow> nat \<Rightarrow> int list" where
  "read_upto q i16 cs0 rd j = concat (map (block_at q i16 cs0 rd) [0..<j]) @ drop (16 * j) cs0"

lemma length_block_at: "16 * j + 16 \<le> length cs0 \<Longrightarrow> length (block_at q i16 cs0 rd j) = 16"
  by (simp add: block_at_def)

lemma length_blocks: "16 * j \<le> length cs0 \<Longrightarrow> length (concat (map (block_at q i16 cs0 rd) [0..<j])) = 16 * j"
  by (induction j) (simp_all add: length_block_at)

lemma length_read_upto: "16 * j \<le> length cs0 \<Longrightarrow> length (read_upto q i16 cs0 rd j) = length cs0"
  by (simp add: read_upto_def length_blocks)

lemma read_upto_rest: "16 * j \<le> length cs0 \<Longrightarrow> drop (16 * j) (read_upto q i16 cs0 rd j) = drop (16 * j) cs0"
  by (simp add: read_upto_def length_blocks)

lemma read_upto_Suc:
  assumes "16 * j + 16 \<le> length cs0"
  shows "take (16 * j) (read_upto q i16 cs0 rd j) @ block_at q i16 cs0 rd j @ drop (16 * j + 16) (read_upto q i16 cs0 rd j) = read_upto q i16 cs0 rd (Suc j)"
  using assms by (simp add: read_upto_def length_blocks)

lemma parses_blocks:
  assumes pb: "ld (bands pb) (int t) = Some pr" "ld (bands_ptr pb) (int t) = Some kBands" and pr: "bands_ok pr"
    and lv: "\<And>x. x < k \<Longrightarrow> levels_ok (start_at i16 (j + x)) (levels_at rd (j + x)) \<and> start_at i16 (j + x) = n \<and> steps_at q (j + x) = dq"
    and dq: "length dq = 2" and cs: "16 * (j + k) \<le> length cs0" and k: "0 < k" "k \<le> 4" and J: "Suc sh = k + length J" "sh < 8"
  shows "parses w mem bs (\<lambda>br. for_range 0 k (\<lambda>x. residual_block alt mem pb t dq n sh (16 * (j + x)))
       (of_bool l, flags (map f [0..<k] @ J), pack_codes cds, read_upto q i16 cs0 rd j, br))
    (concat (map (\<lambda>x. blk_symbols pr n (of_bool (f x) + of_bool (if x = 0 then l else flag_of (levels_at rd (j + (x - 1))))) (levels_at rd (j + x))) [0..<k]))
    (\<lambda>br. (of_bool (flag_of (levels_at rd (j + (k - 1)))), flags (J @ map (\<lambda>x. flag_of (levels_at rd (j + x))) [0..<k]),
       pack_codes (cds @ map (\<lambda>x. code_at q i16 cs0 rd (j + x)) [0..<k]), read_upto q i16 cs0 rd (j + k), br))"
proof -
  let ?F = "\<lambda>x. flag_of (levels_at rd (j + x))"
  let ?ts = "\<lambda>x. map f [x..<k] @ J @ map ?F [0..<x]"
  let ?r = "\<lambda>x br. (of_bool (if x = 0 then l else ?F (x - 1)) :: int, flags (?ts x),
       pack_codes (cds @ map (\<lambda>x. code_at q i16 cs0 rd (j + x)) [0..<x]), read_upto q i16 cs0 rd (j + x), br :: VP8BitReader)"
  have "parses w mem bs (\<lambda>br. for_range 0 k (\<lambda>x. residual_block alt mem pb t dq n sh (16 * (j + x))) (?r 0 br))
    (concat (map (\<lambda>x. blk_symbols pr n (of_bool (f x) + of_bool (if x = 0 then l else ?F (x - 1))) (levels_at rd (j + x))) [0..<k])) (?r k)"
  proof (rule parses_for)
    fix x assume x: "x < k"
    have j: "16 * (j + x) + 16 \<le> length cs0" "16 * (j + x) \<le> length cs0" using cs x by simp_all
    have ts: "length (?ts x) = Suc sh" using J x by simp
    have hd: "hd (?ts x) = f x" "tl (?ts x) @ [?F x] = ?ts (Suc x)" using x by (simp_all add: upt_conv_Cons)
    note v = lv[OF x]
    have st: "start_at i16 (j + x) = n" "steps_at q (j + x) = dq" using v by simp_all
    have o: "block_at q i16 cs0 rd (j + x) = dequantized dq n (drop n (levels_at rd (j + x))) (take 16 (drop (16 * (j + x)) (read_upto q i16 cs0 rd (j + x))))"
      unfolding block_at_def read_upto_rest[OF j(2)] st by simp
    have len: "16 * (j + x) + 16 \<le> length (read_upto q i16 cs0 rd (j + x))" using j by (simp add: length_read_upto)
    have lvx: "levels_ok n (levels_at rd (j + x))" using v by metis
    let ?C = "\<lambda>x. code_at q i16 cs0 rd (j + x)"
    have e: "(cds @ map ?C [0..<x]) @ [block_code n (levels_at rd (j + x)) (block_at q i16 cs0 rd (j + x))] = cds @ map ?C [0..<Suc x]"
      "(if Suc x = 0 then l else ?F (Suc x - 1)) = ?F x" "j + Suc x = Suc (j + x)" by (simp_all add: code_at_def st)
    show "parses w mem bs (\<lambda>br. residual_block alt mem pb t dq n sh (16 * (j + x)) (?r x br))
      (blk_symbols pr n (of_bool (f x) + of_bool (if x = 0 then l else ?F (x - 1))) (levels_at rd (j + x))) (?r (Suc x))"
      using parses_residual_block[OF pb pr lvx dq len ts J(2) o, of w mem bs alt "if x = 0 then l else ?F (x - 1)" "cds @ map ?C [0..<x]"]
      unfolding hd read_upto_Suc[OF j(1)] e by (simp only:)
  qed simp
  then show ?thesis using k(1) by simp
qed


definition flag_at :: "VP8ModeScore \<Rightarrow> nat \<Rightarrow> bool" where "flag_at rd j = flag_of (levels_at rd j)"

lemma flags_append: "length bs = k \<Longrightarrow> flags bs OR push_bit k (flags cs) = flags (bs @ cs)"
  by (rule bit_eqI) (auto simp: bit_or_iff bit_push_bit_iff bit_flags nth_append)

lemma flags_high: "length bs = 4 \<Longrightarrow> length cs \<le> 4 \<Longrightarrow> flags (bs @ cs) AND 0xf0 = push_bit 4 (flags cs)"
proof (rule bit_eqI)
  fix n assume l: "length bs = 4" "length cs \<le> 4"
  have e: "(0xf0 :: int) = push_bit 4 (mask 4)" by (simp add: mask_numeral push_bit_eq_mult)
  have "bit (0xf0 :: int) n \<longleftrightarrow> 4 \<le> n \<and> n < 8" unfolding e by (auto simp: bit_push_bit_iff bit_mask_iff)
  then show "bit (flags (bs @ cs) AND 0xf0) n = bit (push_bit 4 (flags cs)) n"
    using l by (auto simp: bit_and_iff bit_push_bit_iff bit_flags nth_append)
qed

lemma flags_low: "flags bs AND 0x0f = flags (take 4 bs)"
proof -
  have e: "(0x0f :: int) = mask 4" by (simp add: mask_numeral)
  show ?thesis unfolding e by (rule bit_eqI) (auto simp: bit_and_iff bit_mask_iff bit_flags)
qed

lemma upt_block: "[0..<n + k] = [0..<n] @ map (\<lambda>x. n + x) [0..<k]"
  using map_add_upt[of n k] by (simp add: upt_add_eq_append[of 0 n k] add.commute[of _ n] add.commute[of k])

lemma parses_luma:
  assumes pb: "ld (bands pb) (int t) = Some pr" "ld (bands_ptr pb) (int t) = Some kBands" and pr: "bands_ok pr"
    and lv: "\<And>j. j < 16 \<Longrightarrow> levels_ok n (levels_at rd j)" and n: "n = of_bool i16"
    and dq: "length (y1_mat q) = 2" and cs: "length cs0 = 384"
  shows "parses w mem bs (\<lambda>br. for_range 0 4 (luma_row alt mem pb t (y1_mat q) n) (flags (map T [0..<4]), flags (map L [0..<4]), 0, cs0, br))
    (plane_symbols pr n 4 T L (luma_of rd))
    (\<lambda>br. (flags (map (\<lambda>x. flag_at rd (12 + x)) [0..<4]), flags (replicate 4 False @ map (\<lambda>y. flag_at rd (4 * y + 3)) [0..<4]),
       pack_codes (map (code_at q i16 cs0 rd) [0..<16]), read_upto q i16 cs0 rd 16, br))"
proof -
  let ?F = "\<lambda>y x. flag_at rd (4 * y + x)"
  let ?t = "\<lambda>y x. if y = 0 then T x else ?F (y - 1) x"
  let ?L = "\<lambda>y. map L [y..<4] @ replicate 4 False @ map (\<lambda>y. ?F y 3) [0..<y]"
  let ?r = "\<lambda>y br. (flags (map (?t y) [0..<4]), flags (?L y), pack_codes (map (code_at q i16 cs0 rd) [0..<4 * y]), read_upto q i16 cs0 rd (4 * y), br :: VP8BitReader)"
  let ?s = "\<lambda>y. concat (map (\<lambda>x. blk_symbols pr n (of_bool (?t y x) + of_bool (if x = 0 then L y else ?F y (x - 1))) (levels_at rd (4 * y + x))) [0..<4])"
  have row: "parses w mem bs (\<lambda>br. luma_row alt mem pb t (y1_mat q) n y (?r y br)) (?s y) (?r (Suc y))" if y: "y < 4" for w y
  proof -
    have l: "flags (?L y) AND 1 = of_bool (L y)" using y by (simp add: upt_conv_Cons flags_even)
    have ls: "take_bit 8 (drop_bit 1 (flags (?L y)) OR push_bit 7 (of_bool (?F y 3))) = flags (?L (Suc y))"
      using y by (subst flags_shift) (simp_all add: upt_conv_Cons)
    have lvj: "levels_ok (start_at i16 (4 * y + x)) (levels_at rd (4 * y + x)) \<and> start_at i16 (4 * y + x) = n \<and> steps_at q (4 * y + x) = y1_mat q" if "x < 4" for x
    proof -
      have "4 * y + x < 16" using y that by linarith
      with lv[OF this] show ?thesis by (simp add: start_at_def steps_at_def n)
    qed
    have c: "pack_codes [] = 0" "push_bit 8 (pack_codes (map (code_at q i16 cs0 rd) [0..<4 * y])) OR
        pack_codes ([] @ map (\<lambda>x. code_at q i16 cs0 rd (4 * y + x)) [0..<4]) = pack_codes (map (code_at q i16 cs0 rd) [0..<4 * Suc y])"
    proof -
      have "[0..<4 * Suc y] = [0..<4 * y] @ map (\<lambda>x. 4 * y + x) [0..<4]" using upt_block[of "4 * y" 4] by (simp only: mult_Suc_right add.commute[of 4])
      then show "push_bit 8 (pack_codes (map (code_at q i16 cs0 rd) [0..<4 * y])) OR
        pack_codes ([] @ map (\<lambda>x. code_at q i16 cs0 rd (4 * y + x)) [0..<4]) = pack_codes (map (code_at q i16 cs0 rd) [0..<4 * Suc y])"
        by (simp only: map_append pack_codes_append map_map comp_def append_Nil length_map length_upt) simp
    qed (simp add: pack_codes_simps)
    have k: "16 * (4 * y + 4) \<le> length cs0" using y cs by simp
    have tz: "flags (map (?t y) [0..<4]) = flags (map (?t y) [0..<4] @ replicate 4 False)" by (simp only: flags_zeros)
    have td: "drop_bit 4 (flags (replicate 4 False @ map (\<lambda>x. flag_of (levels_at rd (4 * y + x))) [0..<4])) = flags (map (?t (Suc y)) [0..<4])"
      by (simp add: flags_drop flag_at_def)
    have d3: "flag_of (levels_at rd (4 * y + (4 - 1))) = ?F y 3" "4 * y + 4 = 4 * Suc y" by (simp_all add: flag_at_def)
    note p = parses_blocks[OF pb pr lvj dq k, where J = "replicate 4 False" and sh = 7 and f = "?t y" and cds = "[]" and l = "L y", folded flag_at_def]
    show ?thesis
      unfolding luma_row_def prod.case Let_def l tz c(1)[symmetric]
      apply (rule parses_last)
       apply (rule p; simp)
      unfolding prod.case c(2) td[folded flag_at_def] d3[folded flag_at_def] ls
      by (simp only:)
  qed
  have "parses w mem bs (\<lambda>br. for_range 0 4 (luma_row alt mem pb t (y1_mat q) n) (?r 0 br)) (concat (map ?s [0..<4])) (?r 4)"
    by (rule parses_for) (use row in auto)
  moreover have "concat (map ?s [0..<4]) = plane_symbols pr n 4 T L (luma_of rd)"
  proof -
    have B: "luma_of rd y x = levels_at rd (4 * y + x)" if "y < 4" "x < 4" for y x using that by (simp add: luma_of_def levels_at_def algebra_simps)
    then have "ctx_at T L (luma_of rd) y x = of_bool (?t y x) + of_bool (if x = 0 then L y else ?F y (x - 1))" if "y < 4" "x < 4" for y x
      unfolding ctx_at_def flag_at_def using that by (cases "y = 0"; cases "x = 0"; simp)
    with B show ?thesis unfolding plane_symbols_def by (intro arg_cong[where f = concat] map_cong refl) simp
  qed
  ultimately show ?thesis by (simp add: pack_codes_simps read_upto_def flags_zeros del: upt_Suc)
qed


lemma parses_chroma_rows:
  assumes pb: "ld (bands pb) 2 = Some pr" "ld (bands_ptr pb) 2 = Some kBands" and pr: "bands_ok pr"
    and lv: "\<And>j. 16 \<le> j \<Longrightarrow> j < 24 \<Longrightarrow> levels_ok 0 (levels_at rd j)"
    and dq: "length (uv_mat q) = 2" and cs: "length cs0 = 384" and k: "k < 2" and J: "length JT = 2" "length JL = 4"
  shows "parses w mem bs (\<lambda>br. for_range 0 2 (chroma_row alt mem pb (uv_mat q) (2 * k))
      (flags (map T [0..<2] @ JT), flags (map L [0..<2] @ JL), 0, read_upto q i16 cs0 rd (16 + 4 * k), br))
    (plane_symbols pr 0 2 T L (chroma_of rd k))
    (\<lambda>br. (flags (map (\<lambda>x. flag_at rd (16 + 4 * k + 2 + x)) [0..<2]), flags (JL @ map (\<lambda>y. flag_at rd (16 + 4 * k + 2 * y + 1)) [0..<2]),
       pack_codes (map (\<lambda>i. code_at q i16 cs0 rd (16 + 4 * k + i)) [0..<4]), read_upto q i16 cs0 rd (16 + 4 * k + 4), br))"
proof -
  let ?b = "16 + 4 * k"
  let ?F = "\<lambda>y x. flag_at rd (?b + 2 * y + x)"
  let ?t = "\<lambda>y x. if y = 0 then T x else ?F (y - 1) x"
  let ?JT = "\<lambda>y. if y = 0 then JT else replicate 2 False"
  let ?L = "\<lambda>y. map L [y..<2] @ JL @ map (\<lambda>y. ?F y 1) [0..<y]"
  let ?c = "\<lambda>i. code_at q i16 cs0 rd (?b + i)"
  let ?r = "\<lambda>y br. (flags (map (?t y) [0..<2] @ ?JT y), flags (?L y), pack_codes (map ?c [0..<2 * y]), read_upto q i16 cs0 rd (?b + 2 * y), br :: VP8BitReader)"
  let ?s = "\<lambda>y. concat (map (\<lambda>x. blk_symbols pr 0 (of_bool (?t y x) + of_bool (if x = 0 then L y else ?F y (x - 1))) (levels_at rd (?b + 2 * y + x))) [0..<2])"
  have row: "parses w mem bs (\<lambda>br. chroma_row alt mem pb (uv_mat q) (2 * k) y (?r y br)) (?s y) (?r (Suc y))" if y: "y < 2" for w y
  proof -
    have l: "flags (?L y) AND 1 = of_bool (L y)" using y by (simp add: upt_conv_Cons flags_even)
    have ls: "take_bit 8 (drop_bit 1 (flags (?L y)) OR push_bit 5 (of_bool (?F y 1))) = flags (?L (Suc y))"
      using y J by (subst flags_shift) (simp_all add: upt_conv_Cons)
    have lvj: "levels_ok (start_at i16 (?b + 2 * y + x)) (levels_at rd (?b + 2 * y + x)) \<and> start_at i16 (?b + 2 * y + x) = 0 \<and> steps_at q (?b + 2 * y + x) = uv_mat q" if "x < 2" for x
    proof -
      have "16 \<le> ?b + 2 * y + x" "?b + 2 * y + x < 24" using y k that by linarith+
      with lv[OF this] show ?thesis by (simp add: start_at_def steps_at_def)
    qed
    have c: "map ?c [0..<2 * y] @ map (\<lambda>x. code_at q i16 cs0 rd (?b + 2 * y + x)) [0..<2] = map ?c [0..<2 * Suc y]"
    proof -
      have "[0..<2 * Suc y] = [0..<2 * y] @ map (\<lambda>x. 2 * y + x) [0..<2]" using upt_block[of "2 * y" 2] by (simp only: mult_Suc_right add.commute[of 2])
      then show ?thesis by (simp only: map_append map_map comp_def add.assoc)
    qed
    have len: "16 * (?b + 2 * y + 2) \<le> length cs0" using y k cs by simp
    have td: "drop_bit 2 (flags (?JT y @ map (\<lambda>x. flag_at rd (?b + 2 * y + x)) [0..<2])) = flags (map (?t (Suc y)) [0..<2] @ ?JT (Suc y))"
      using J by (simp add: flags_drop flags_zeros flag_at_def)
    have d3: "flag_at rd (?b + 2 * y + (2 - 1)) = ?F y 1" "?b + 2 * y + 2 = ?b + 2 * Suc y" by (simp_all add: flag_at_def)
    have dd: "2 * (2 * k) = 4 * k" by simp
    have jt: "Suc 3 = 2 + length (?JT y)" using J by simp
    note p = parses_blocks[where t = 2, unfolded of_nat_numeral, OF pb pr lvj dq len _ _ jt, where f = "?t y" and cds = "map ?c [0..<2 * y]" and l = "L y", folded flag_at_def]
    show ?thesis
      unfolding chroma_row_def prod.case Let_def l dd
      apply (rule parses_last)
       apply (rule p; simp)
      unfolding prod.case c td d3 ls
      by (simp only:)
  qed
  have "parses w mem bs (\<lambda>br. for_range 0 2 (chroma_row alt mem pb (uv_mat q) (2 * k)) (?r 0 br)) (concat (map ?s [0..<2])) (?r 2)"
    by (rule parses_for) (use row in auto)
  moreover have "concat (map ?s [0..<2]) = plane_symbols pr 0 2 T L (chroma_of rd k)"
  proof -
    have B: "chroma_of rd k y x = levels_at rd (?b + 2 * y + x)" if "y < 2" "x < 2" for y x
      using that by (simp add: chroma_of_def levels_at_def algebra_simps)
    then have "ctx_at T L (chroma_of rd k) y x = of_bool (?t y x) + of_bool (if x = 0 then L y else ?F y (x - 1))" if "y < 2" "x < 2" for y x
      unfolding ctx_at_def flag_at_def using that by (cases "y = 0"; cases "x = 0"; simp)
    with B show ?thesis unfolding plane_symbols_def by (intro arg_cong[where f = concat] map_cong refl) simp
  qed
  ultimately show ?thesis by (simp add: pack_codes_simps flags_zeros del: upt_Suc)
qed


lemma parses_chroma_plane:
  assumes pb: "ld (bands pb) 2 = Some pr" "ld (bands_ptr pb) 2 = Some kBands" and pr: "bands_ok pr"
    and lv: "\<And>j. 16 \<le> j \<Longrightarrow> j < 24 \<Longrightarrow> levels_ok 0 (levels_at rd j)"
    and dq: "length (uv_mat q) = 2" and cs: "length cs0 = 384" and k: "k < 2" and TL: "length T = 8" "length L = 8"
  shows "parses w mem bs (\<lambda>br. chroma_plane alt mem pb (uv_mat q) (flags T) (flags L) k (nzuv, ot, ol, read_upto q i16 cs0 rd (16 + 4 * k), br))
    (plane_symbols pr 0 2 (\<lambda>i. T ! (4 + 2 * k + i)) (\<lambda>i. L ! (4 + 2 * k + i)) (chroma_of rd k))
    (\<lambda>br. (nzuv OR push_bit (8 * k) (pack_codes (map (\<lambda>i. code_at q i16 cs0 rd (16 + 4 * k + i)) [0..<4])),
       ot OR push_bit (4 + 2 * k) (flags (map (\<lambda>x. flag_at rd (16 + 4 * k + 2 + x)) [0..<2])),
       ol OR push_bit (4 + 2 * k) (flags (map (\<lambda>y. flag_at rd (16 + 4 * k + 2 * y + 1)) [0..<2])),
       read_upto q i16 cs0 rd (16 + 4 * k + 4), br))"
proof -
  let ?T = "\<lambda>i. T ! (4 + 2 * k + i)" and ?L = "\<lambda>i. L ! (4 + 2 * k + i)"
  have k01: "k = 0 \<or> k = 1" using k by linarith
  have "flags (drop (4 + 2 * k) B) = flags (map (\<lambda>i. B ! (4 + 2 * k + i)) [0..<2] @ take (2 - 2 * k) (drop 6 B) @ replicate n False)" if "length B = 8" for B n
  proof -
    have "drop (4 + 2 * k) B = map (\<lambda>i. B ! (4 + 2 * k + i)) [0..<2] @ take (2 - 2 * k) (drop 6 B)"
      by (rule nth_equalityI) (use that k01 in \<open>auto simp: nth_append less_Suc_eq numeral_eq_Suc\<close>)
    then show ?thesis using flags_zeros[of "drop (4 + 2 * k) B" n] by simp
  qed
  note pad = this
  have t: "drop_bit (4 + 2 * k) (flags T) = flags (map ?T [0..<2] @ take (2 - 2 * k) (drop 6 T) @ replicate (2 * k) False)"
    "drop_bit (4 + 2 * k) (flags L) = flags (map ?L [0..<2] @ take (2 - 2 * k) (drop 6 L) @ replicate (2 + 2 * k) False)"
    unfolding flags_drop by (rule pad[OF TL(1)], rule pad[OF TL(2)])
  have len: "length (take (2 - 2 * k) (drop 6 T) @ replicate (2 * k) False) = 2" "length (take (2 - 2 * k) (drop 6 L) @ replicate (2 + 2 * k) False) = 4"
    using k01 TL by auto
  note p = parses_chroma_rows[OF pb pr lv dq cs k len, where T = ?T and L = ?L]
  have s: "4 * (2 * k) = 8 * k" "push_bit (2 * k) (push_bit 4 (flags v)) = push_bit (4 + 2 * k) (flags v)" for v
    by (simp_all add: add.commute)
  have h: "flags ((take (2 - 2 * k) (drop 6 L) @ replicate (2 + 2 * k) False) @ map (\<lambda>y. flag_at rd (16 + 4 * k + 2 * y + 1)) [0..<2]) AND 0xf0
      = push_bit 4 (flags (map (\<lambda>y. flag_at rd (16 + 4 * k + 2 * y + 1)) [0..<2]))"
    by (rule flags_high[OF len(2)]) simp
  show ?thesis
    unfolding chroma_plane_def prod.case Let_def t
    by (rule parses_last[OF p]) (assumption, assumption, simp only: prod.case h s)
qed

lemma parses_loop2:
  assumes "parses w mem bs (\<lambda>br. body 0 (r0 br)) xs r1" "\<And>w. parses w mem bs (\<lambda>br. body 1 (r1 br)) ys r2"
  shows "parses w mem bs (\<lambda>br. for_range 0 2 body (r0 br)) (xs @ ys) r2"
  unfolding loop2 by (rule parses_then[OF assms])

lemma parses_chroma:
  assumes pb: "ld (bands pb) 2 = Some pr" "ld (bands_ptr pb) 2 = Some kBands" and pr: "bands_ok pr"
    and lv: "\<And>j. 16 \<le> j \<Longrightarrow> j < 24 \<Longrightarrow> levels_ok 0 (levels_at rd j)"
    and dq: "length (uv_mat q) = 2" and cs: "length cs0 = 384" and TL: "length T = 8" "length L = 8" and o: "length ot = 4" "length ol = 4"
  shows "parses w mem bs (\<lambda>br. for_range 0 2 (chroma_plane alt mem pb (uv_mat q) (flags T) (flags L)) (0, flags ot, flags ol, read_upto q i16 cs0 rd 16, br))
    (plane_symbols pr 0 2 (\<lambda>i. T ! (4 + i)) (\<lambda>i. L ! (4 + i)) (chroma_of rd 0) @ plane_symbols pr 0 2 (\<lambda>i. T ! (6 + i)) (\<lambda>i. L ! (6 + i)) (chroma_of rd 1))
    (\<lambda>br. (pack_codes (map (code_at q i16 cs0 rd) [20..<24] @ map (code_at q i16 cs0 rd) [16..<20]),
       flags (ot @ [flag_at rd 18, flag_at rd 19, flag_at rd 22, flag_at rd 23]), flags (ol @ [flag_at rd 17, flag_at rd 19, flag_at rd 21, flag_at rd 23]),
       read_upto q i16 cs0 rd 24, br))"
proof -
  let ?c = "code_at q i16 cs0 rd"
  let ?plane = "chroma_plane alt mem pb (uv_mat q) (flags T) (flags L)"
  have u: "[0..<2] = [0, 1]" "[0..<4] = [0, 1, 2, 3]" "[16..<20] = [16, 17, 18, 19]" "[20..<24] = [20, 21, 22, 23]" by (simp_all add: upt_rec)
  have m: "map (\<lambda>i. ?c (16 + i)) [0..<4] = map ?c [16..<20]" "map (\<lambda>i. ?c (20 + i)) [0..<4] = map ?c [20..<24]" "length (map ?c [16..<20]) = 4" by (simp_all add: u)
  have c: "pack_codes (map ?c [16..<20]) OR push_bit 8 (pack_codes (map ?c [20..<24])) = pack_codes (map ?c [20..<24] @ map ?c [16..<20])"
    using pack_codes_append[of "map ?c [20..<24]" "map ?c [16..<20]"] m by (simp only: or.commute) simp
  have o6: "length (ot @ [a, b]) = 6" "length (ol @ [a, b]) = 6" for a b using o by simp_all
  have p: "parses w mem bs (\<lambda>br. ?plane k (nzuv, fot, fol, read_upto q i16 cs0 rd (16 + 4 * k), br))
    (plane_symbols pr 0 2 (\<lambda>i. T ! (4 + 2 * k + i)) (\<lambda>i. L ! (4 + 2 * k + i)) (chroma_of rd k))
    (\<lambda>br. (nzuv OR push_bit (8 * k) (pack_codes (map (\<lambda>i. ?c (16 + 4 * k + i)) [0..<4])),
       fot OR push_bit (4 + 2 * k) (flags (map (\<lambda>x. flag_at rd (16 + 4 * k + 2 + x)) [0..<2])),
       fol OR push_bit (4 + 2 * k) (flags (map (\<lambda>y. flag_at rd (16 + 4 * k + 2 * y + 1)) [0..<2])),
       read_upto q i16 cs0 rd (16 + 4 * k + 4), br))" if "k < 2" for w k nzuv fot fol
    by (rule parses_chroma_plane[OF pb pr lv dq cs that TL])
  have p0: "parses w mem bs (\<lambda>br. ?plane 0 (0, flags ot, flags ol, read_upto q i16 cs0 rd 16, br))
    (plane_symbols pr 0 2 (\<lambda>i. T ! (4 + i)) (\<lambda>i. L ! (4 + i)) (chroma_of rd 0))
    (\<lambda>br. (pack_codes (map ?c [16..<20]), flags (ot @ [flag_at rd 18, flag_at rd 19]), flags (ol @ [flag_at rd 17, flag_at rd 19]), read_upto q i16 cs0 rd 20, br))" for w
    using p[of 0 w 0 "flags ot" "flags ol"] by (simp add: m(1) u(1) flags_append o)
  have p1: "parses w mem bs (\<lambda>br. ?plane 1 (pack_codes (map ?c [16..<20]), flags (ot @ [flag_at rd 18, flag_at rd 19]), flags (ol @ [flag_at rd 17, flag_at rd 19]),
      read_upto q i16 cs0 rd 20, br))
    (plane_symbols pr 0 2 (\<lambda>i. T ! (6 + i)) (\<lambda>i. L ! (6 + i)) (chroma_of rd 1))
    (\<lambda>br. (pack_codes (map ?c [20..<24] @ map ?c [16..<20]),
       flags (ot @ [flag_at rd 18, flag_at rd 19, flag_at rd 22, flag_at rd 23]), flags (ol @ [flag_at rd 17, flag_at rd 19, flag_at rd 21, flag_at rd 23]),
       read_upto q i16 cs0 rd 24, br))" for w
    using p[of 1 w "pack_codes (map ?c [16..<20])" "flags (ot @ [flag_at rd 18, flag_at rd 19])" "flags (ol @ [flag_at rd 17, flag_at rd 19])"]
    by (simp add: m(2) c[simplified] u(1) flags_append[OF o6(1)] flags_append[OF o6(2)])
  show ?thesis by (rule parses_loop2[OF p0 p1])
qed

lemma kZigzag_onto: "j < 16 \<Longrightarrow> \<exists>i<16. nat (kZigzag ! i) = j"
proof -
  assume "j < 16"
  then have "j = 0 \<or> j = 1 \<or> j = 2 \<or> j = 3 \<or> j = 4 \<or> j = 5 \<or> j = 6 \<or> j = 7 \<or> j = 8 \<or> j = 9 \<or> j = 10 \<or> j = 11 \<or> j = 12 \<or> j = 13 \<or> j = 14 \<or> j = 15"
    by presburger
  then have "int j \<in> set kZigzag" by (elim disjE) (simp_all add: kZigzag_def)
  then show "\<exists>i<16. nat (kZigzag ! i) = j" using kZigzag_range(1) by (auto simp: in_set_conv_nth)
qed

lemma int16_dequantized:
  assumes "\<forall>v\<in>set out. - (2 ^ 15) \<le> v \<and> v < 2 ^ 15"
  shows "\<forall>v\<in>set (dequantized dq n cs out). - (2 ^ 15) \<le> v \<and> v < 2 ^ 15"
  using assms
proof (induction cs arbitrary: n out)
  case (Cons c cs)
  have "- (2 ^ 15) \<le> dequant dq n c \<and> dequant dq n c < 2 ^ 15"
    unfolding dequant_def by (intro conjI signed_take_bit_int_greater_eq_minus_exp signed_take_bit_int_less_exp)
  then have "\<forall>v\<in>set (out[k := dequant dq n c]). - (2 ^ 15) \<le> v \<and> v < 2 ^ 15" for k
    using Cons.prems set_update_subset_insert[of out k "dequant dq n c"] by blast
  from Cons.IH[OF this, of "Suc n"] Cons.IH[OF Cons.prems, of "Suc n"] show ?case by (cases "c = 0") (simp_all only: dequantized.simps if_True if_False simp_thms)
qed simp


subsection \<open>The DC block\<close>

text \<open>When only the DC of the DC block differs from 0, its transform gives the same value to all luma blocks.\<close>

lemma dc_only:
  assumes "length cs = 16" "block_count 0 cs \<le> 1" "0 < j" "j < 16"
  shows "dequantized dq 0 cs (replicate 16 0) ! j = 0"
proof -
  have l: "last_ok cs (last_of cs)" using last_of_ok(2)[of cs no_residual] assms(1) by (simp add: no_residual_def)
  obtain i where i: "i < 16" "nat (kZigzag ! i) = j" using kZigzag_onto[OF assms(4)] by blast
  have "i \<noteq> 0" using i(2) assms(3) by (intro notI) (simp add: kZigzag_def)
  moreover have "last_of cs \<le> 0" using assms(2) by (auto simp: block_count_def flag_of_def split: if_splits)
  ultimately have "cs ! i = 0" using l i(1) by (auto simp: last_ok_def)
  then show ?thesis using dequantized_nth[of 0 cs "replicate 16 0" i dq] assms(1,4) i by simp
qed

lemma wht_res_dc:
  assumes "\<And>j. 0 < j \<Longrightarrow> j < 16 \<Longrightarrow> src ! j = 0" "y < 4" "x < 4" "- (2 ^ 15) \<le> src ! 0" "src ! 0 < 2 ^ 15"
  shows "wht_res src y x = drop_bit 3 (src ! 0 + 3)"
proof -
  have z: "src ! Suc 0 = 0" "src ! 2 = 0" "src ! 3 = 0" "src ! 4 = 0" "src ! 5 = 0" "src ! 6 = 0" "src ! 7 = 0" "src ! 8 = 0" "src ! 9 = 0"
    "src ! 10 = 0" "src ! 11 = 0" "src ! 12 = 0" "src ! 13 = 0" "src ! 14 = 0" "src ! 15 = 0"
    by (rule assms(1); simp)+
  have c: "wht_col src 0 y = src ! 0" "wht_col src 1 y = 0" "wht_col src 2 y = 0" "wht_col src 3 y = 0"
    by (simp_all add: wht_col_def wht4_def z)
  have "- (2 ^ 15) \<le> drop_bit 3 (src ! 0 + 3) \<and> drop_bit 3 (src ! 0 + 3) < 2 ^ 15"
    using assms(4,5) by (simp add: drop_bit_eq_div) linarith
  then have "signed_take_bit 15 (drop_bit 3 (src ! 0 + 3)) = drop_bit 3 (src ! 0 + 3)"
    by (intro signed_take_bit_int_eq_self) simp_all
  then show ?thesis unfolding wht_res_def c by (simp add: wht4_def)
qed

lemma fill_dc:
  assumes "length cs = 384"
  shows "for_range 0 16 (\<lambda>i cs. st cs (16 * int i) v) cs = Some (map (\<lambda>k. if k < 256 \<and> k mod 16 = 0 then v else cs ! k) [0..<384])"
proof -
  let ?I = "\<lambda>i t. t = map (\<lambda>k. if k < 16 * i \<and> k mod 16 = 0 then v else cs ! k) [0..<384]"
  have "\<exists>t. for_range 0 16 (\<lambda>i cs. st cs (16 * int i) v) cs = Some t \<and> ?I 16 t"
  proof (rule for_range_inv[where I = ?I])
    show "cs = map (\<lambda>k. if k < 16 * 0 \<and> k mod 16 = 0 then v else cs ! k) [0..<384]"
      by (rule nth_equalityI) (simp_all add: assms)
    fix i t assume i: "i < (16 :: nat)" and t: "t = map (\<lambda>k. if k < 16 * i \<and> k mod 16 = 0 then v else cs ! k) [0..<384]"
    have "t[16 * i := v] = map (\<lambda>k. if k < 16 * Suc i \<and> k mod 16 = 0 then v else cs ! k) [0..<384]"
    proof (rule nth_equalityI)
      fix k assume "k < length (t[16 * i := v])"
      then have k: "k < 384" by (simp add: t)
      have "k mod 16 = 0 \<Longrightarrow> k < 16 * Suc i \<Longrightarrow> \<not> k < 16 * i \<Longrightarrow> k = 16 * i" by presburger
      then show "t[16 * i := v] ! k = map (\<lambda>k. if k < 16 * Suc i \<and> k mod 16 = 0 then v else cs ! k) [0..<384] ! k"
        using k i by (auto simp: t nth_list_update)
    qed (simp add: t)
    moreover have "st t (16 * int i) v = Some (t[16 * i := v])"
      using i by (simp add: st_def t nat_mult_distrib)
    ultimately show "\<exists>t'. st t (16 * int i) v = Some t' \<and> ?I (Suc i) t'" by blast
  qed simp
  then show ?thesis by simp
qed

definition dc_of :: "VP8QuantMatrix \<Rightarrow> VP8ModeScore \<Rightarrow> int list" where
  "dc_of q rd = dequantized (y2_mat q) 0 (y_dc_levels rd) (replicate 16 0)"

lemma int16_dc: "j < 16 \<Longrightarrow> - (2 ^ 15) \<le> dc_of q rd ! j \<and> dc_of q rd ! j < 2 ^ 15"
proof -
  assume "j < 16"
  have "\<forall>v\<in>set (replicate 16 (0 :: int)). - (2 ^ 15) \<le> v \<and> v < 2 ^ 15" by simp
  from int16_dequantized[OF this, of "y2_mat q" 0 "y_dc_levels rd"] show ?thesis
    using \<open>j < 16\<close> unfolding dc_of_def by (metis dequantized_length length_replicate nth_mem)
qed

definition dc_base :: "int list \<Rightarrow> int list" where
  "dc_base dc = wht_out dc (replicate 256 0) 4 @ replicate 128 0"

lemma parses_parse_dc:
  assumes pb: "ld (bands pb) 1 = Some pr" "ld (bands_ptr pb) 1 = Some kBands" and pr: "bands_ok pr"
    and lv: "levels_ok 0 (y_dc_levels rd)" and dq: "length (y2_mat q) = 2" and ctx: "ctx = int c" "c < 3"
  shows "parses w mem bs (parse_dc alt mem pb (y2_mat q) ctx (replicate 384 0)) (blk_symbols pr 0 c (y_dc_levels rd))
    (\<lambda>br. (block_count 0 (y_dc_levels rd), dc_base (dc_of q rd), br))"
proof -
  let ?lv = "y_dc_levels rd"
  have len: "length ?lv = 16" using lv by (simp add: levels_ok_def)
  have l16: "length (dc_of q rd) = 16" by (simp add: dc_of_def)
  note g = parses_get_block[where t = 1 and n = 0 and dst = 0 and cs = "replicate 16 0", unfolded of_nat_1, OF pb pr lv dq ctx, of w mem bs alt]
  have d: "take 0 (replicate 16 (0 :: int)) @ dequantized (y2_mat q) 0 (drop 0 ?lv) (take 16 (drop 0 (replicate 16 0))) @ drop (0 + 16) (replicate 16 0) = dc_of q rd"
    by (simp add: dc_of_def)
  have out: "(if block_count 0 ?lv > 1 then do {
        out \<leftarrow> TransformWHT (dc_of q rd) (take 256 (replicate 384 0));
        Some (block_count 0 ?lv, out @ drop 256 (replicate 384 0), br) }
      else do {
        dc_value \<leftarrow> ld (dc_of q rd) 0;
        let dc0 = drop_bit 3 (dc_value + 3);
        cs \<leftarrow> for_range 0 16 (\<lambda>i cs. st cs (16 * int i) dc0) (replicate 384 0);
        Some (block_count 0 ?lv, cs, br) }) = Some (block_count 0 ?lv, dc_base (dc_of q rd), br)" for br :: VP8BitReader
  proof (cases "block_count 0 ?lv > 1")
    case True
    have "TransformWHT (dc_of q rd) (take 256 (replicate 384 0)) = Some (wht_out (dc_of q rd) (replicate 256 0) 4)"
      by (subst TransformWHT_eq) (simp_all add: l16)
    with True show ?thesis by (simp add: dc_base_def)
  next
    case False
    have z: "dc_of q rd ! j = 0" if "0 < j" "j < 16" for j unfolding dc_of_def by (rule dc_only[OF len _ that]) (use False in simp)
    have w: "wht_res (dc_of q rd) y x = drop_bit 3 (dc_of q rd ! 0 + 3)" if "y < 4" "x < 4" for y x
      by (rule wht_res_dc[OF z that]) (use int16_dc[of 0 q rd] in simp_all)
    have "map (\<lambda>k. if k < 256 \<and> k mod 16 = 0 then drop_bit 3 (dc_of q rd ! 0 + 3) else replicate 384 0 ! k) [0..<384] = dc_base (dc_of q rd)"
    proof (rule nth_equalityI)
      fix k assume "k < length (map (\<lambda>k. if k < 256 \<and> k mod 16 = 0 then drop_bit 3 (dc_of q rd ! 0 + 3) else replicate 384 0 ! k) [0..<384])"
      then have k: "k < 384" by simp
      have "k < 256 \<Longrightarrow> k div 64 < 4" "k mod 64 div 16 < 4" by (simp_all add: less_mult_imp_div_less)
      then show "map (\<lambda>k. if k < 256 \<and> k mod 16 = 0 then drop_bit 3 (dc_of q rd ! 0 + 3) else replicate 384 0 ! k) [0..<384] ! k = dc_base (dc_of q rd) ! k"
        using k w by (simp add: dc_base_def nth_append wht_out_nth)
    qed (simp add: dc_base_def)
    moreover have "ld (dc_of q rd) 0 = Some (dc_of q rd ! 0)" using l16 by (simp add: ld_def)
    ultimately show ?thesis using False by (simp add: fill_dc Let_def del: upt_Suc)
  qed
  show ?thesis
    unfolding parse_dc_def by (rule parses_last[OF g]) (simp, simp only: prod.case d out)
qed


subsection \<open>Reading a macroblock\<close>

definition same_probas :: "VP8Encoder \<Rightarrow> VP8Proba \<Rightarrow> bool" where
  "same_probas enc pb \<longleftrightarrow> bands pb = e_coeffs (e_proba enc) \<and> bands_ptr pb = replicate 4 kBands"

definition steps_ok :: "VP8QuantMatrix \<Rightarrow> bool" where
  "steps_ok q \<longleftrightarrow> length (y1_mat q) = 2 \<and> length (y2_mat q) = 2 \<and> length (uv_mat q) = 2"

text \<open>The flags of the decoder's context of a macroblock.\<close>

definition holds_flags :: "VP8MB \<Rightarrow> bool list \<Rightarrow> bool" where
  "holds_flags mb B \<longleftrightarrow> length B = 9 \<and> nz mb = flags (take 8 B) \<and> nz_dc mb = of_bool (B ! 8)"

definition with_flags :: "bool list \<Rightarrow> VP8MB \<Rightarrow> VP8MB" where
  "with_flags B mb = mb\<lparr>nz := flags (take 8 B), nz_dc := of_bool (B ! 8)\<rparr>"

lemma holds_with_flags: "length B = 9 \<Longrightarrow> holds_flags (with_flags B mb) B"
  by (simp add: holds_flags_def with_flags_def)

definition base_of :: "VP8QuantMatrix \<Rightarrow> bool \<Rightarrow> VP8ModeScore \<Rightarrow> int list" where
  "base_of q i16 rd = (if i16 then dc_base (dc_of q rd) else replicate 384 0)"

text \<open>The decoder's data of a macroblock after its residuals have been read.\<close>

definition with_residuals :: "VP8QuantMatrix \<Rightarrow> bool \<Rightarrow> VP8ModeScore \<Rightarrow> VP8MBData \<Rightarrow> VP8MBData" where
  "with_residuals q i16 rd b = (let c = code_at q i16 (base_of q i16 rd) rd; uv = pack_codes (map c [20..<24] @ map c [16..<20]) in
     b\<lparr>md_coeffs := read_upto q i16 (base_of q i16 rd) rd 24, non_zero_y := pack_codes (map c [0..<16]), non_zero_uv := uv,
       md_dither := (if uv AND 0xaaaa \<noteq> 0 then 0 else take_bit 8 (q_dither q))\<rparr>)"

lemma flags_at_top: "top_flags rd d = map (flag_at rd) [12, 13, 14, 15, 18, 19, 22, 23] @ [d]"
  and flags_at_left: "left_flags rd d = map (flag_at rd) [3, 7, 11, 15, 17, 19, 21, 23] @ [d]"
  by (simp_all add: top_flags_def left_flags_def flag_at_def levels_at_def luma_of_def chroma_of_def flip: numeral_2_eq_2 numeral_3_eq_3)

lemma parses_ParseResiduals:
  assumes pr: "coder_probas_ok enc" "same_probas enc (proba d)" and rd: "levels_of_ok i16 rd"
    and X: "mb_x d = int X" "X < length (mb_data d)" "Suc X < length (mb_info d)"
    and b: "md_is_i4x4 (mb_data d ! X) = of_bool (\<not> i16)" "ld (dqm d) (md_segment (mb_data d ! X)) = Some q" "steps_ok q"
    and T: "holds_flags (mb_info d ! Suc X) T" and L: "holds_flags (mb_info d ! 0) L"
    and dc: "dc = flag_of (y_dc_levels rd)" "T' = top_flags rd (if i16 then dc else T ! 8)" "L' = left_flags rd (if i16 then dc else L ! 8)"
  shows "parses w mem bs (ParseResiduals alt mem d) (residual_symbols enc i16 T L rd)
    (\<lambda>br. (non_zero_y (with_residuals q i16 rd (mb_data d ! X)) OR non_zero_uv (with_residuals q i16 rd (mb_data d ! X)) = 0,
      d\<lparr>mb_info := (mb_info d)[Suc X := with_flags T' (mb_info d ! Suc X), 0 := with_flags L' (mb_info d ! 0)],
        mb_data := (mb_data d)[X := with_residuals q i16 rd (mb_data d ! X)]\<rparr>, br))"
proof -
  let ?blk = "mb_data d ! X" and ?mb = "mb_info d ! Suc X" and ?lft = "mb_info d ! 0"
  have lds: "ld (mb_data d) (mb_x d) = Some ?blk" "ld (mb_info d) 0 = Some ?lft" "ld (mb_info d) (1 + mb_x d) = Some ?mb"
  proof -
    have "0 < length (mb_info d)" using X(3) by linarith
    then show "ld (mb_info d) 0 = Some ?lft" by (simp add: ld_def)
    show "ld (mb_info d) (1 + mb_x d) = Some ?mb" using X ld_nat[of "Suc X" "mb_info d"] by simp
  qed (simp add: X ld_nat)
  have ptr: "ld (bands (proba d)) (int t) = Some (coder_probas enc t)" "ld (bands_ptr (proba d)) (int t) = Some kBands" if "t < 4" for t
    using pr that by (simp_all add: same_probas_def coder_probas_ok_def ld_nat)
  have pb: "bands_ok (coder_probas enc t)" if "t < 4" for t using pr(1) that by (simp add: coder_probas_ok_def)
  have q: "length (y1_mat q) = 2" "length (y2_mat q) = 2" "length (uv_mat q) = 2" using b(3) by (simp_all add: steps_ok_def)
  have fT: "length T = 9" "nz ?mb = flags (take 8 T)" "nz_dc ?mb = of_bool (T ! 8)" using T by (simp_all add: holds_flags_def)
  have fL: "length L = 9" "nz ?lft = flags (take 8 L)" "nz_dc ?lft = of_bool (L ! 8)" using L by (simp_all add: holds_flags_def)
  let ?n = "of_bool i16 :: nat" and ?t = "if i16 then 0 else 3 :: nat" and ?cs = "base_of q i16 rd"
  have lv: "levels_ok ?n (levels_at rd j)" if "j < 16" for j using rd that by (simp add: levels_of_ok_def levels_at_def)
  have lv2: "levels_ok 0 (levels_at rd j)" if "16 \<le> j" "j < 24" for j using rd that by (simp add: levels_of_ok_def levels_at_def)
  have len: "length ?cs = 384" by (simp add: base_of_def dc_base_def)
  have c: "nz_dc ?mb + nz_dc ?lft = int (of_bool (T ! 8) + of_bool (L ! 8))" "(of_bool (T ! 8) + of_bool (L ! 8) :: nat) < 3"
    unfolding fT fL by simp_all
  have e1: "parses w mem bs (\<lambda>br. if md_is_i4x4 ?blk = 0 then do {
          let ctx = nz_dc ?mb + nz_dc ?lft;
          (n, cs, br) \<leftarrow> parse_dc alt mem (proba d) (y2_mat q) ctx (replicate 384 0) br;
          Some (of_bool (n > 0), of_bool (n > 0), 1, 0, cs, br) }
        else Some (nz_dc ?mb, nz_dc ?lft, 0, 3, replicate 384 0, br))
      (if i16 then blk_symbols (coder_probas enc 1) 0 (of_bool (T ! 8) + of_bool (L ! 8)) (y_dc_levels rd) else [])
      (\<lambda>br. (of_bool (T' ! 8) :: int, of_bool (L' ! 8) :: int, ?n, ?t, ?cs, br))" for w
  proof (cases i16)
    case True
    have lv0: "levels_ok 0 (y_dc_levels rd)" using rd True by (simp add: levels_of_ok_def)
    have p1: "ld (bands (proba d)) 1 = Some (coder_probas enc 1)" "ld (bands_ptr (proba d)) 1 = Some kBands" "bands_ok (coder_probas enc 1)"
      using ptr[of 1] pb[of 1] by simp_all
    have t8: "T' ! 8 = dc" "L' ! 8 = dc" using True dc by (simp_all add: top_flags_def left_flags_def)
    have "parses w mem bs (\<lambda>br. parse_dc alt mem (proba d) (y2_mat q) (nz_dc ?mb + nz_dc ?lft) (replicate 384 0) br \<bind>
          (\<lambda>(n, cs, br). Some (of_bool (n > 0), of_bool (n > 0), 1, 0, cs, br)))
        (blk_symbols (coder_probas enc 1) 0 (of_bool (T ! 8) + of_bool (L ! 8)) (y_dc_levels rd))
        (\<lambda>br. (of_bool (T' ! 8) :: int, of_bool (L' ! 8) :: int, 1 :: nat, 0 :: nat, dc_base (dc_of q rd), br))"
      by (rule parses_last[OF parses_parse_dc[OF p1 lv0 q(2) c]]) (simp only: prod.case t8 dc(1) block_count_flag[OF lv0])
    then show ?thesis
      by (simp only: b(1) Let_def base_of_def True of_bool_eq not_True_eq_False if_True simp_thms)
  next
    case False
    then have "T' ! 8 = T ! 8" "L' ! 8 = L ! 8" using dc by (simp_all add: top_flags_def left_flags_def)
    then show ?thesis using False parses_Some[of w mem bs "\<lambda>br. (of_bool (T ! 8), of_bool (L ! 8), 0, 3, replicate 384 0, br)"]
      by (simp add: b(1) fT(3) fL(3) base_of_def)
  qed
  have t4: "nz ?mb AND 0x0f = flags (map (\<lambda>i. T ! i) [0..<4])" "nz ?lft AND 0x0f = flags (map (\<lambda>i. L ! i) [0..<4])"
  proof -
    have "take 4 (take 8 B) = map ((!) B) [0..<4]" if "length B = 9" for B :: "bool list"
      using that by (intro nth_equalityI) simp_all
    then show "nz ?mb AND 0x0f = flags (map (\<lambda>i. T ! i) [0..<4])" "nz ?lft AND 0x0f = flags (map (\<lambda>i. L ! i) [0..<4])"
      unfolding fT(2) fL(2) flags_low using fT(1) fL(1) by simp_all
  qed
  have tt: "?t < 4" by simp
  note e2 = parses_luma[OF ptr[OF tt] pb[OF tt] lv refl q(1) len, where T = "\<lambda>i. T ! i" and L = "\<lambda>i. L ! i", folded t4]
  have p2: "ld (bands (proba d)) 2 = Some (coder_probas enc 2)" "ld (bands_ptr (proba d)) 2 = Some kBands" "bands_ok (coder_probas enc 2)"
    using ptr[of 2] pb[of 2] by simp_all
  let ?ot = "map (\<lambda>x. flag_at rd (12 + x)) [0..<4]" and ?ol = "map (\<lambda>y. flag_at rd (4 * y + 3)) [0..<4]"
  have s: "plane_symbols pr 0 2 (\<lambda>i. take 8 B ! (4 + i)) (\<lambda>i. take 8 C ! (4 + i)) v = plane_symbols pr 0 2 (\<lambda>i. B ! (4 + i)) (\<lambda>i. C ! (4 + i)) v"
    "plane_symbols pr 0 2 (\<lambda>i. take 8 B ! (6 + i)) (\<lambda>i. take 8 C ! (6 + i)) v = plane_symbols pr 0 2 (\<lambda>i. B ! (6 + i)) (\<lambda>i. C ! (6 + i)) v" for pr B C v
    by (rule plane_symbols_cong; simp)+
  have e3: "parses w mem bs (\<lambda>br. for_range 0 2 (chroma_plane alt mem (proba d) (uv_mat q) (nz ?mb) (nz ?lft)) (0, flags ?ot, flags ?ol, read_upto q i16 ?cs rd 16, br))
    (plane_symbols (coder_probas enc 2) 0 2 (\<lambda>i. T ! (4 + i)) (\<lambda>i. L ! (4 + i)) (chroma_of rd 0) @
     plane_symbols (coder_probas enc 2) 0 2 (\<lambda>i. T ! (6 + i)) (\<lambda>i. L ! (6 + i)) (chroma_of rd 1))
    (\<lambda>br. (pack_codes (map (code_at q i16 ?cs rd) [20..<24] @ map (code_at q i16 ?cs rd) [16..<20]),
       flags (?ot @ [flag_at rd 18, flag_at rd 19, flag_at rd 22, flag_at rd 23]), flags (?ol @ [flag_at rd 17, flag_at rd 19, flag_at rd 21, flag_at rd 23]),
       read_upto q i16 ?cs rd 24, br))" for w
  proof -
    have l8: "length (take 8 T) = 8" "length (take 8 L) = 8" "length ?ot = 4" "length ?ol = 4" using fT(1) fL(1) by simp_all
    show ?thesis unfolding fT(2) fL(2) by (rule parses_chroma[OF p2 lv2 q(3) len l8, unfolded s])
  qed
  have T': "take 8 T' = ?ot @ [flag_at rd 18, flag_at rd 19, flag_at rd 22, flag_at rd 23]"
    "take 8 L' = ?ol @ [flag_at rd 17, flag_at rd 19, flag_at rd 21, flag_at rd 23]"
    unfolding dc(2,3) flags_at_top flags_at_left by (simp_all add: upt_rec)
  have l8: "length (take 8 T') \<le> 8" "length (take 8 L') \<le> 8" by simp_all
  have st1: "st (mb_info d) (1 + mb_x d) v = Some ((mb_info d)[Suc X := v])" for v using X st_nat[of "Suc X" "mb_info d" v] by simp
  have st2: "st ((mb_info d)[Suc X := v]) 0 u = Some ((mb_info d)[Suc X := v, 0 := u])" for u v
    using less_trans[OF zero_less_Suc X(3)] st_nat[of 0 "(mb_info d)[Suc X := v]" u] by simp
  have st3: "st (mb_data d) (mb_x d) v = Some ((mb_data d)[X := v])" for v using X by (simp add: st_nat)
  have dr: "drop_bit 4 (flags (replicate 4 False @ ?ol)) = flags ?ol" by (simp add: flags_drop)
  show ?thesis
    unfolding ParseResiduals_def lds b(2) Option.bind.simps residual_symbols_def Let_def
    apply (rule parses_then[OF e1[unfolded Let_def]])
    apply (simp only: prod.case)
    apply (rule parses_then[OF e2])
     apply assumption
    apply (simp only: prod.case dr)
    apply (rule parses_last[OF e3])
    apply (simp only: prod.case st1 Option.bind.simps st2 st3)
    apply (subst (1 2) flags_take, simp, simp)
    apply (simp add: with_flags_def with_residuals_def T' Let_def)
    done
qed


subsection \<open>What the decoder holds after a macroblock\<close>

lemma small_code: "uint c < 4 \<Longrightarrow> bit c n \<Longrightarrow> n < 2" for c :: u32
  using bit_int_bound[of "uint c" 2 n] bit_imp_le_length[of c n] by (simp add: bit_uint_iff)

lemma two_parts: "i < 2 \<Longrightarrow> (2 * a + i) div 2 = a" "i < 2 \<Longrightarrow> (2 * a + i) mod 2 = i" for a i :: nat
  by simp_all

lemma bit_pack:
  assumes "\<forall>c\<in>set cs. uint c < 4" "n < 32"
  shows "bit (pack_codes cs) n \<longleftrightarrow> n div 2 < length cs \<and> bit (cs ! (length cs - 1 - n div 2)) (n mod 2)"
  using assms
proof (induction cs arbitrary: n rule: rev_induct)
  case Nil
  then show ?case by (simp add: pack_codes_simps)
next
  case (snoc c cs)
  have small: "n < 2" if "bit c n" for n using small_code[OF _ that] snoc.prems(1) by simp
  show ?case
  proof (cases "n < 2")
    case True
    then have "n div 2 = 0" "n mod 2 = n" by simp_all
    then show ?thesis using True snoc.prems(2) by (simp add: pack_codes_simps bit_or_iff bit_push_bit_iff nth_append)
  next
    case False
    have d: "(n - 2) div 2 = n div 2 - 1" "(n - 2) mod 2 = n mod 2" "0 < n div 2" using False by presburger+
    have "bit (pack_codes (cs @ [c])) n \<longleftrightarrow> bit (pack_codes cs) (n - 2)"
      using False small[of n] snoc.prems(2) by (auto simp: pack_codes_simps bit_or_iff bit_push_bit_iff)
    also have "\<dots> \<longleftrightarrow> (n - 2) div 2 < length cs \<and> bit (cs ! (length cs - 1 - (n - 2) div 2)) ((n - 2) mod 2)"
      using snoc.prems by (intro snoc.IH) simp_all
    also have "\<dots> \<longleftrightarrow> n div 2 < length (cs @ [c]) \<and> bit ((cs @ [c]) ! (length (cs @ [c]) - 1 - n div 2)) (n mod 2)"
    proof -
      have "length (cs @ [c]) - 1 - n div 2 = length cs - n div 2" by simp
      moreover have "n div 2 - 1 < length cs \<longleftrightarrow> n div 2 < length (cs @ [c])" using d(3) by auto
      ultimately show ?thesis using d by (auto simp: nth_append)
    qed
    finally show ?thesis .
  qed
qed

lemma pack_top:
  assumes "\<forall>c\<in>set cs. uint c < 4" "length cs = 16" "j < 16"
  shows "drop_bit 30 (push_bit (2 * j) (pack_codes cs)) = cs ! j"
proof (rule bit_eqI)
  fix n assume "possible_bit TYPE(u32) n"
  then have n: "n < 32" by simp
  have c: "uint (cs ! j) < 4" using assms by simp
  show "bit (drop_bit 30 (push_bit (2 * j) (pack_codes cs))) n = bit (cs ! j) n"
  proof (cases "n < 2")
    case True
    have "30 + n - 2 * j = 2 * (15 - j) + n" using assms(3) by simp
    then have d: "(30 + n - 2 * j) div 2 = 15 - j" "(30 + n - 2 * j) mod 2 = n" using True by (simp_all del: diff_mult_distrib2)
    have "bit (drop_bit 30 (push_bit (2 * j) (pack_codes cs))) n = bit (pack_codes cs) (30 + n - 2 * j)"
      using True assms(3) by (auto simp: bit_drop_bit_eq bit_push_bit_iff)
    also have "\<dots> = bit (cs ! (16 - 1 - (15 - j))) n"
      using bit_pack[OF assms(1), of "30 + n - 2 * j"] True assms(2) less_le_trans[of "15 - j" 16 16] unfolding d by auto
    finally show ?thesis using assms(3) by simp
  next
    case False
    then have "\<not> bit (cs ! j) n" using small_code[OF c] by blast
    moreover have "\<not> bit (push_bit (2 * j) (pack_codes cs)) (30 + n)" using False by (auto dest: bit_imp_le_length)
    ultimately show ?thesis by (simp add: bit_drop_bit_eq)
  qed
qed

lemma pack_uv:
  assumes "\<forall>c\<in>set us. uint c < 4" "\<forall>c\<in>set vs. uint c < 4" "length us = 4" "length vs = 4" "j < 4" "k < 2"
  shows "uv_code (drop_bit (8 * k) (pack_codes (vs @ us))) j = uint ((if k = 0 then us else vs) ! j)"
proof -
  let ?c = "(if k = 0 then us else vs) ! j"
  have c: "uint ?c < 4" using assms by auto
  have b: "bit (pack_codes (vs @ us)) (8 * k + (6 - 2 * j) + i) = bit ?c i" if "i < 2" for i
  proof -
    have e: "8 * k + (6 - 2 * j) + i = 2 * (4 * k + (3 - j)) + i" using assms(5) by simp
    have d: "(8 * k + (6 - 2 * j) + i) div 2 = 4 * k + (3 - j)" "(8 * k + (6 - 2 * j) + i) mod 2 = i"
      unfolding e using two_parts[OF that] by blast+
    have k: "k = 0 \<or> k = 1" using assms(6) by linarith
    have ix: "(vs @ us) ! (8 - 1 - (4 * k + (3 - j))) = ?c"
    proof (rule disjE[OF k])
      assume "k = 1"
      moreover have "8 - 1 - (4 * 1 + (3 - j)) = j" using assms(5) by simp
      ultimately show ?thesis using assms(4,5) by (simp add: nth_append)
    next
      assume "k = 0"
      moreover have "8 - 1 - (4 * 0 + (3 - j)) = 4 + j" using assms(5) by simp
      ultimately show ?thesis using assms(3-5) by (simp add: nth_append)
    qed
    have "\<forall>c\<in>set (vs @ us). uint c < 4" "8 * k + (6 - 2 * j) + i < 32" using assms that by auto
    note bp = bit_pack[OF this, unfolded d]
    have l8: "length (vs @ us) = 8" "4 * k + (3 - j) < 8" using assms(3-6) by auto
    show ?thesis by (simp only: bp[unfolded l8(1)] l8(2) ix simp_thms)
  qed
  have "drop_bit (6 - 2 * j) (drop_bit (8 * k) (pack_codes (vs @ us))) AND 3 = ?c"
  proof (rule bit_eqI)
    fix n assume "possible_bit TYPE(u32) n"
    have e: "(3 :: u32) = mask 2" by (simp add: mask_eq_decr_exp)
    have "bit (drop_bit (6 - 2 * j) (drop_bit (8 * k) (pack_codes (vs @ us))) AND 3) n \<longleftrightarrow> n < 2 \<and> bit (pack_codes (vs @ us)) (8 * k + (6 - 2 * j) + n)"
      unfolding e by (auto simp: bit_and_iff bit_mask_iff bit_drop_bit_eq ac_simps)
    then show "bit (drop_bit (6 - 2 * j) (drop_bit (8 * k) (pack_codes (vs @ us))) AND 3) n = bit ?c n"
      using b[of n] small_code[OF c, of n] by blast
  qed
  then show ?thesis by (simp add: uv_code_def)
qed

lemma block_code_less: "uint (block_code n cs out) < 4"
  by (simp add: block_code_def)

lemma code_at_less: "\<forall>c\<in>set (map (code_at q i16 cs0 rd) js). uint c < 4"
  by (auto simp: code_at_def block_code_less)

lemma read_upto_nth:
  "j < n \<Longrightarrow> r < 16 \<Longrightarrow> 16 * n \<le> length cs0 \<Longrightarrow> read_upto q i16 cs0 rd n ! (16 * j + r) = block_at q i16 cs0 rd j ! r"
proof (induction n)
  case (Suc n)
  have l: "length (concat (map (block_at q i16 cs0 rd) [0..<n])) = 16 * n" "length (block_at q i16 cs0 rd n) = 16"
    using Suc.prems(3) length_block_at[of n cs0 q i16 rd] by (simp_all add: length_blocks)
  show ?case
  proof (cases "j = n")
    case True
    then show ?thesis using Suc.prems l by (simp add: read_upto_def nth_append)
  next
    case False
    then have "j < n" "16 * j + r < 16 * n" using Suc.prems by linarith+
    then show ?thesis using Suc l by (simp add: read_upto_def nth_append)
  qed
qed simp

end
