(* ===== verification/Partitions.thy ===== *)
theory Partitions
  imports Syntax_Elements
begin

section \<open>Several buffers of boolean code\<close>

text \<open>
  A frame has one buffer for the headers and the modes and up to eight for the tokens, which encoder and decoder fill and
  empty row by row. \<open>writing\<close> says what a buffer holds so far and \<open>reading\<close> what is left in it; both follow a piece
  of code that \<open>emits\<close> or \<open>parses\<close> symbols. A partition may also stay empty.
\<close>

unbundle bit_operations_syntax

subsection \<open>The end of a buffer to which nothing was written\<close>

lemma writes_zero:
  assumes "writes e bw (t, 0, r)"
  shows "be (written bw) = 0" "bw_run bw = 0" "bw_value bw = 0"
proof -
  let ?w = "nat (16 + bw_nb_bits bw)"
  have w: "0 = ((be (written bw) + 1) * 256 ^ nat (bw_run bw) - 1) * 2 ^ ?w + bw_value bw" "0 \<le> bw_value bw" "0 \<le> bw_run bw"
    using assms by (auto simp: writes_def Let_def buffer_ok_def)
  have b: "0 \<le> be (written bw)" by (rule be_bounds(1))
  have p: "1 \<le> (256 :: int) ^ nat (bw_run bw)" by simp
  have m: "1 * 1 \<le> (be (written bw) + 1) * 256 ^ nat (bw_run bw)" using b p by (intro mult_mono) auto
  have "0 \<le> ((be (written bw) + 1) * 256 ^ nat (bw_run bw) - 1) * 2 ^ ?w" using m by simp
  then have v: "bw_value bw = 0" "((be (written bw) + 1) * 256 ^ nat (bw_run bw) - 1) * 2 ^ ?w = 0" using w by linarith+
  then have e: "(be (written bw) + 1) * 256 ^ nat (bw_run bw) = 1" by simp
  have "be (written bw) + 1 \<le> (be (written bw) + 1) * 256 ^ nat (bw_run bw)" using b p mult_left_mono[OF p, of "be (written bw) + 1"] by simp
  then show z: "be (written bw) = 0" using e b by linarith
  then have "(256 :: int) ^ nat (bw_run bw) = 1" using e by simp
  then have "nat (bw_run bw) = 0" using power_inject_exp[of "256 :: int" "nat (bw_run bw)" 0] by simp
  then show "bw_run bw = 0" using w(3) by simp
  show "bw_value bw = 0" by (rule v(1))
qed

lemma VP8BitWriterFinish_empty:
  assumes w: "put_state e bw (0, 0, 254)" and m: "malloc_ok malloc"
  shows "\<exists>bw'. VP8BitWriterFinish malloc bw = Some bw' \<and> bw_error bw' = 0 \<and> length (written bw') = unat (bw_pos bw') \<and>
    be (written bw') = 0 \<and> 16 \<le> 8 * length (written bw') \<and> 8 * length (written bw') \<le> 24"
proof -
  have nb: "bw_nb_bits bw = -8" using w by (auto simp: put_state_def writes_def Let_def)
  have one: "code_step (0, 0, 254) (False, 128) = (0, 0, 127)" by (simp add: code_step.simps scale.simps narrow.simps split_at_def norm_shift_def Let_def)
  from put_state_PutBitUniform[OF w m, of 0] one obtain bw1 where
    1: "VP8PutBitUniform malloc bw 0 = Some (0, bw1)" "put_state e bw1 (0, 0, 127)" by auto
  have nb1: "bw_nb_bits bw1 = -8" using 1(2) by (auto simp: put_state_def writes_def Let_def)
  have "(0 :: nat) + 7 + 16 < 2 ^ 35" "- bw_nb_bits bw1 < int 16" using nb1 by simp_all
  from pad_bits[OF 1(2) _ m this(1) _ _ this(2)] obtain bw2 r2 where
    2: "VP8PutBits malloc bw1 0 16 = Some bw2" "put_state e bw2 (16, 0, r2)" by auto
  have w17: "VP8PutBits malloc bw 0 17 = VP8PutBits malloc bw1 0 16"
  proof -
    have e: "push_bit 16 1 = (65536 :: u32)" "push_bit 15 1 = (32768 :: u32)" "drop_bit 1 65536 = (32768 :: u32)" "(65536 :: u32) \<noteq> 0" by simp_all
    have "put_bits_loop malloc 0 65536 bw = put_bits_loop malloc 0 32768 bw1"
      using e(3,4) 1(1) by (subst put_bits_loop.simps) simp
    then have "put_bits_loop malloc 0 (push_bit 16 1) bw = put_bits_loop malloc 0 (push_bit 15 1) bw1" unfolding e(1,2) .
    then show ?thesis by (simp add: VP8PutBits_def)
  qed
  have w2: "writes e bw2 (16, 0, r2)" and nb2: "-8 \<le> bw_nb_bits bw2" "bw_nb_bits bw2 \<le> 0" using 2(2) by (auto simp: put_state_def writes_def Let_def)
  note z = writes_zero[OF w2]
  have k: "8 * unat (bw_pos bw2) + nat (16 + bw_nb_bits bw2) = 24" using w2 z(2) by (auto simp: writes_def Let_def)
  have "y = 0 \<or> y = -8" if "8 * n + nat (16 + y) = 24" "-8 \<le> y" "y \<le> 0" for n :: nat and y :: int
  proof -
    have "8 * int n + (16 + y) = 24" using that by linarith
    with that(2,3) show ?thesis by presburger
  qed
  from this[OF k nb2] have nb3: "bw_nb_bits bw2 = 0 \<or> bw_nb_bits bw2 = -8" .
  let ?bw = "bw2\<lparr>bw_nb_bits := 0\<rparr>" and ?t = "if bw_nb_bits bw2 = 0 then 16 else 24 :: nat"
  have wr: "written ?bw = written bw2" by (simp add: written_def cong: option.case_cong)
  have iv: "interval_ok (16, 0, r2)" "buffer_ok e bw2" "bw_range bw2 = r2" "0 < bw_pos bw2 \<longrightarrow> last (written bw2) \<noteq> 255"
    using w2 by (auto simp: writes_def Let_def)
  have iv2: "interval_ok (?t, 0, r2)" "r2 \<le> 254" using iv(1) by auto
  have w3: "writes e ?bw (?t, 0, r2)"
  proof -
    have b: "buffer_ok e ?bw" using iv(2) by (simp add: buffer_ok_def cong: option.case_cong)
    show ?thesis using b iv iv2 z k nb3 by (auto simp: writes_def Let_def wr)
  qed
  have t35: "?t < 2 ^ 35" by simp
  from Flush_out[OF w3 _ m t35] obtain bw3 where
    3: "Flush malloc ?bw = Some bw3" "writes e bw3 (?t, 0, r2)" "bw_nb_bits bw3 = -8" "bw_run bw3 = 0" using z(3) by auto
  have p: "8 * unat (bw_pos bw3) = ?t" "bw_error bw3 = 0" "buffer_ok e bw3"
    using 3 by (auto simp: writes_def Let_def buffer_ok_def)
  have len: "length (written bw3) = unat (bw_pos bw3)"
    using p by (auto simp: buffer_ok_def written_def word_le_nat_alt split: option.splits if_splits)
  show ?thesis
    using 2(1) 3(1) writes_zero(1)[OF 3(2)] p len unfolding VP8BitWriterFinish_def nb
    by (intro exI[of _ bw3]) (auto simp: w17)
qed


subsection \<open>A buffer while it is written and read\<close>

definition writing :: "nat \<Rightarrow> VP8BitWriter \<Rightarrow> symbol list \<Rightarrow> bool" where
  "writing e bw xs \<longleftrightarrow> put_state e bw (code_steps (0, 0, 254) xs) \<and> valid_symbols xs"

definition reading :: "u8 list \<Rightarrow> u8 list \<Rightarrow> VP8BitReader \<Rightarrow> symbol list \<Rightarrow> bool" where
  "reading mem bs br xs \<longleftrightarrow> (\<exists>s. dec mem bs br s xs)"

lemma writing_ok: "writing e bw xs \<Longrightarrow> bw_error bw = 0"
  by (auto simp: writing_def put_state_def writes_def buffer_ok_def Let_def split: prod.splits)

lemma reading_ok: "reading mem bs br xs \<Longrightarrow> br_eof br = 0"
  by (auto simp: reading_def dec_eof)

lemma writing_init: "malloc_ok malloc \<Longrightarrow> uint sz < 2 ^ 33 \<Longrightarrow>
    \<exists>bw. VP8BitWriterInit malloc sz = Some (1, bw) \<and> writing (2 * unat sz) bw []"
  using VP8BitWriterInit_ok[of malloc sz] by (auto simp: writing_def)

lemma writing_step:
  assumes "emits malloc e f xs r" "writing e bw ws" "malloc_ok malloc" "length (ws @ xs) < 2 ^ 31"
  shows "\<exists>bw'. f bw = Some (r bw') \<and> writing e bw' (ws @ xs)"
proof -
  have iv: "interval_ok (0, 0, 254)" by simp
  have v: "\<forall>x\<in>set ws. 0 \<le> snd x \<and> snd x < 256" using assms(2) by (simp add: writing_def valid_symbols_def)
  have "fst (code_steps (0, 0, 254) ws) \<le> 7 * length ws"
    using code_steps_time[OF iv v] by simp
  then have t: "fst (code_steps (0, 0, 254) ws) + 7 * length xs + 7 * 32 < 2 ^ 35" using assms(4) by simp
  have xs: "valid_symbols xs" using assms(1) by (simp add: emits_def)
  from assms(1-3) t obtain bw' where "f bw = Some (r bw')" "put_state e bw' (code_steps (code_steps (0, 0, 254) ws) xs)"
    unfolding emits_def writing_def by meson
  then show ?thesis using assms(2) xs by (auto simp: writing_def)
qed

lemma reading_step:
  assumes "parses False mem bs g xs r" "reading mem bs br (xs @ ys)"
  shows "\<exists>br'. g br = Some (r br') \<and> reading mem bs br' ys"
  using assms unfolding parses_def reading_def by blast

text \<open>The code may be followed by other bytes: they only refine a number at the lower end of the interval.\<close>

lemma code_in_tail:
  assumes e: "be bs * 2 ^ (t + 8) = l * 2 ^ (8 * length bs)" and t: "t + 8 \<le> 8 * length bs" and q: "0 \<le> q"
  shows "code_in (bs @ rest) (t, l, q)"
proof -
  let ?n = "length rest" and ?m = "2 ^ (8 * length bs) :: int"
  have be: "be (bs @ rest) = be bs * 2 ^ (8 * ?n) + be rest" by (simp add: be_append power_mult)
  have m: "2 ^ (8 * length (bs @ rest)) = ?m * 2 ^ (8 * ?n)" by (simp add: power_add distrib_left)
  have b: "0 \<le> be rest" "be rest < 2 ^ (8 * ?n)" using be_bounds[of rest] by (simp_all add: power_mult)
  have v: "be (bs @ rest) * 2 ^ (t + 8) = l * 2 ^ (8 * length (bs @ rest)) + be rest * 2 ^ (t + 8)"
    using e unfolding be m by (simp add: algebra_simps)
  have "be rest * 2 ^ (t + 8) < 2 ^ (8 * ?n) * 2 ^ (t + 8)" using b by (intro mult_strict_right_mono) auto
  also have "\<dots> \<le> 2 ^ (8 * ?n) * ?m" using t by (intro mult_left_mono power_increasing) auto
  also have "\<dots> \<le> (q + 1) * 2 ^ (8 * length (bs @ rest))" using q unfolding m by (simp add: mult.commute)
  finally show ?thesis using v b by (simp add: code_in_def distrib_right)
qed

lemma writing_finish:
  assumes w: "writing e bw xs" and m: "malloc_ok malloc" and n: "length xs < 2 ^ 31"
  shows "\<exists>bw'. VP8BitWriterFinish malloc bw = Some bw' \<and> bw_error bw' = 0 \<and> length (written bw') = unat (bw_pos bw') \<and>
    1 \<le> length (written bw') \<and> 8 * length (written bw') \<le> 7 * length xs + 24 \<and>
    (\<forall>mem start rest. length (written bw' @ rest) < 2 ^ 31 \<longrightarrow> stored mem start (written bw' @ rest) \<longrightarrow>
       (\<exists>br. VP8InitBitReader mem start (of_nat (length (written bw' @ rest))) = Some br \<and> reading mem (written bw' @ rest) br xs))"
proof -
  have val: "\<forall>x\<in>set xs. 0 \<le> snd x \<and> snd x < 256" using w by (simp add: writing_def valid_symbols_def)
  obtain t l q where s: "code_steps (0, 0, 254) xs = (t, l, q)" by (cases "code_steps (0, 0, 254) xs")
  have iv: "interval_ok (0, 0, 254)" by simp
  have t: "t \<le> 7 * length xs" "0 \<le> q" using code_steps_time[OF iv val] s by simp_all
  then have t35: "t + 32 < 2 ^ 35" using n by simp
  have p: "put_state e bw (t, l, q)" using w s by (simp add: writing_def)
  obtain bw' where f: "VP8BitWriterFinish malloc bw = Some bw'" "bw_error bw' = 0" "length (written bw') = unat (bw_pos bw')"
      "be (written bw') * 2 ^ (t + 8) = l * 2 ^ (8 * length (written bw'))" "t + 16 \<le> 8 * length (written bw')"
      "8 * length (written bw') \<le> t + 24"
  proof (cases "xs = []")
    case True
    then have "(t, l, q) = (0, 0, 254)" using s by simp
    with VP8BitWriterFinish_empty[of e bw malloc] p m that show ?thesis by auto
  next
    case False
    have "q \<le> 253" using code_steps_range[OF iv val False] s by simp
    from VP8BitWriterFinish_ok[OF p this m t35] that show ?thesis by blast
  qed
  have c: "code_in (written bw' @ rest) (t, l, q)" for rest using code_in_tail[OF f(4) _ t(2)] f(5) by simp
  have len: "1 \<le> length (written bw')" "8 * length (written bw') \<le> 7 * length xs + 24" using f(5,6) t by simp_all
  have "\<exists>br. VP8InitBitReader mem start (of_nat (length (written bw' @ rest))) = Some br \<and> reading mem (written bw' @ rest) br xs"
    if "length (written bw' @ rest) < 2 ^ 31" "stored mem start (written bw' @ rest)" for mem start rest
    using VP8InitBitReader_ok[OF that(2)[unfolded stored_def] that(1) _ _ val, unfolded s, OF _ c] f(5) len(1) by (auto simp: reading_def)
  with f(1-3) len show ?thesis by blast
qed

end
