(* ===== verification/Residual_Roundtrip.thy ===== *)
theory Residual_Roundtrip
  imports VP8_Residuals Mode_Roundtrip Partitions
begin

section \<open>The round trip of the residuals\<close>

text \<open>
  What the decoder's data of a macroblock say about the encoder's levels, and the composition over the macroblocks,
  the rows and the token partitions of a frame.
\<close>

unbundle bit_operations_syntax

subsection \<open>The coefficients that the decoder reconstructs\<close>

text \<open>
  The coefficient \<open>i\<close> (in zigzag order) of the block \<open>j\<close>: the level times the quantizer step in 16 bits, or the
  output of the transform of the DC block.
\<close>

definition coeff_of :: "VP8QuantMatrix \<Rightarrow> bool \<Rightarrow> VP8ModeScore \<Rightarrow> nat \<Rightarrow> nat \<Rightarrow> int" where
  "coeff_of q i16 rd j i =
     (if i16 \<and> j < 16 \<and> i = 0 then wht_res (dc_of q rd) (j div 4) (j mod 4) else dequant (steps_at q j) i (levels_at rd j ! i))"

text \<open>The coefficients, and the codes of the blocks that choose their transforms.\<close>

definition decoded_residuals :: "VP8QuantMatrix \<Rightarrow> bool \<Rightarrow> VP8ModeScore \<Rightarrow> VP8MBData \<Rightarrow> bool" where
  "decoded_residuals q i16 rd b \<longleftrightarrow> length (md_coeffs b) = 384 \<and>
     (\<forall>j<24. \<forall>i<16. md_coeffs b ! (16 * j + nat (kZigzag ! i)) = coeff_of q i16 rd j i) \<and>
     (\<forall>j<16. code_ok (uint (drop_bit 30 (push_bit (2 * j) (non_zero_y b)))) (md_coeffs b) (int (16 * j))) \<and>
     (\<forall>k<2. \<forall>j<4. code_ok (uv_code (drop_bit (8 * k) (non_zero_uv b)) j) (md_coeffs b) (int (16 * (16 + 4 * k + j))))"

lemma length_base_of: "length (base_of q i16 rd) = 384"
  by (simp add: base_of_def dc_base_def)

lemma base_of_nth: "k < 384 \<Longrightarrow> base_of q i16 rd ! k =
    (if i16 \<and> k < 256 \<and> k mod 16 = 0 then wht_res (dc_of q rd) (k div 64) (k mod 64 div 16) else 0)"
  by (auto simp: base_of_def dc_base_def nth_append wht_out_nth)

lemma dequant_0: "dequant dq i 0 = 0" by (simp add: dequant_def)

lemma levels_at_ok: "levels_of_ok i16 rd \<Longrightarrow> j < 24 \<Longrightarrow> levels_ok (start_at i16 j) (levels_at rd j)"
  by (auto simp: levels_of_ok_def levels_at_def start_at_def)

lemma block_at_nth:
  assumes rd: "levels_of_ok i16 rd" and j: "j < 24" "i < 16"
  shows "block_at q i16 (base_of q i16 rd) rd j ! nat (kZigzag ! i) = coeff_of q i16 rd j i"
proof -
  let ?n = "start_at i16 j" and ?cs = "levels_at rd j" and ?z = "nat (kZigzag ! i)"
  have lv: "?n \<le> 1" "length ?cs = 16" using levels_at_ok[OF rd j(1)] by (simp_all add: levels_ok_def)
  have z: "?z < 16" "?z = 0 \<longleftrightarrow> i = 0" using kZigzag_range(2)[OF j(2)] kZigzag_distinct[OF j(2), of 0] by (auto simp: kZigzag_def)
  have pos: "16 * j + ?z < 384" "(16 * j + ?z) mod 16 = ?z" "16 * j + ?z < 256 \<longleftrightarrow> j < 16" using z(1) j(1) by auto
  have b: "take 16 (drop (16 * j) (base_of q i16 rd)) ! ?z = (if i16 \<and> j < 16 \<and> i = 0 then wht_res (dc_of q rd) (j div 4) (j mod 4) else 0)"
  proof -
    have "take 16 (drop (16 * j) (base_of q i16 rd)) ! ?z = base_of q i16 rd ! (16 * j + ?z)" using z(1) j(1) by (simp add: length_base_of)
    also have "\<dots> = (if i16 \<and> j < 16 \<and> i = 0 then wht_res (dc_of q rd) (j div 4) (j mod 4) else 0)"
      unfolding base_of_nth[OF pos(1)] pos(2,3) z(2)
    proof (cases "i = 0")
      case True
      then have z0: "?z = 0" using z(2) by simp
      have "16 * j div 64 = j div 4" "16 * j mod 64 div 16 = j mod 4"
        using div_mult_mult1[of 16 j 4] mult_mod_right[of 16 j 4] by simp_all
      then show "(if i16 \<and> j < 16 \<and> i = 0 then wht_res (dc_of q rd) ((16 * j + ?z) div 64) ((16 * j + ?z) mod 64 div 16) else 0) =
        (if i16 \<and> j < 16 \<and> i = 0 then wht_res (dc_of q rd) (j div 4) (j mod 4) else 0)" unfolding z0 add_0_right by (simp only: True simp_thms)
    qed simp
    finally show ?thesis .
  qed
  have len: "length (take 16 (drop (16 * j) (base_of q i16 rd))) = 16" using j(1) by (simp add: length_base_of)
  have n: "?n + length (drop ?n ?cs) = 16" using lv by simp
  have nd: "?n + length (drop ?n ?cs) \<le> 16" using n by simp
  have d: "?n \<le> i \<Longrightarrow> drop ?n ?cs ! (i - ?n) = ?cs ! i" using lv j(2) by simp
  have s: "?n \<le> i \<longleftrightarrow> \<not> (i16 \<and> j < 16 \<and> i = 0)" by (auto simp: start_at_def)
  show ?thesis
    unfolding block_at_def dequantized_nth[OF nd len j(2)] b n coeff_of_def
    using d j(2) by (auto simp: s dequant_0)
qed

lemma coeffs_nth:
  assumes "levels_of_ok i16 rd" "j < 24" "i < 16"
  shows "md_coeffs (with_residuals q i16 rd b) ! (16 * j + nat (kZigzag ! i)) = coeff_of q i16 rd j i"
proof -
  have "nat (kZigzag ! i) < 16" using kZigzag_range(2)[OF assms(3)] by auto
  then show ?thesis
    using read_upto_nth[of j 24 "nat (kZigzag ! i)" "base_of q i16 rd" q i16 rd] block_at_nth[OF assms] assms(2)
    by (simp add: with_residuals_def Let_def length_base_of)
qed

text \<open>A block whose count is small has only low coefficients.\<close>

lemma count_zero:
  assumes "levels_ok n cs" "block_count n cs \<le> i" "i < 16"
  shows "cs ! i = 0"
proof -
  have c: "length cs = 16" using assms(1) by (simp add: levels_ok_def)
  have l: "last_ok cs (last_of cs)" using last_of_ok(2)[of cs no_residual] c by (simp add: no_residual_def)
  have "last_of cs < int i" using assms(2) by (auto simp: block_count_def flag_of_def split: if_splits)
  then show ?thesis using l assms(3) by (simp add: last_ok_def)
qed

lemma code_ok_block:
  assumes rd: "levels_of_ok i16 rd" and j: "j < 24"
  shows "code_ok (uint (code_at q i16 (base_of q i16 rd) rd j)) (md_coeffs (with_residuals q i16 rd b)) (int (16 * j))"
proof -
  let ?c = "block_count (start_at i16 j) (levels_at rd j)" and ?cs = "md_coeffs (with_residuals q i16 rd b)"
  note lv = levels_at_ok[OF rd j]
  have zero: "?cs ! (16 * j + k) = 0" if k: "k < 16" "\<forall>i<?c. nat (kZigzag ! i) \<noteq> k" "k \<noteq> 0" for k
  proof -
    obtain i where i: "i < 16" "nat (kZigzag ! i) = k" using kZigzag_onto[OF k(1)] by blast
    have "i \<noteq> 0" using i(2) k(3) by (intro notI) (simp add: kZigzag_def)
    moreover have "?c \<le> i" using k(2) i(2) by (intro leI notI) blast
    ultimately show ?thesis using coeffs_nth[OF rd j i(1), of q b] count_zero[OF lv _ i(1)] i(2) by (simp add: coeff_of_def dequant_0)
  qed
  have z: "nat (kZigzag ! 0) = 0" "nat (kZigzag ! 1) = 1" "nat (kZigzag ! 2) = 4" by (simp_all add: kZigzag_def)
  have at: "nat (int (16 * j) + int k) = 16 * j + k" for k by simp
  have o2: "only {0, 1, 4} ?cs (int (16 * j))" if "\<not> ?c > 3"
    unfolding only_def at
  proof (intro allI impI)
    fix k :: nat assume k: "k < 16" "k \<notin> {0, 1, 4}"
    have "nat (kZigzag ! i) \<noteq> k" if "i < ?c" for i
    proof -
      have "i = 0 \<or> i = 1 \<or> i = 2" using that \<open>\<not> ?c > 3\<close> by linarith
      then show ?thesis using z k(2) by auto
    qed
    with zero[of k] k show "?cs ! (16 * j + k) = 0" by simp
  qed
  have o1: "only {0} ?cs (int (16 * j))" if "\<not> ?c > 1"
    unfolding only_def at
  proof (intro allI impI)
    fix k :: nat assume k: "k < 16" "k \<notin> {0}"
    have "nat (kZigzag ! i) \<noteq> k" if "i < ?c" for i
    proof -
      have "i = 0" using that \<open>\<not> ?c > 1\<close> by linarith
      then show ?thesis using z k(2) by auto
    qed
    with zero[of k] k show "?cs ! (16 * j + k) = 0" by simp
  qed
  have o0: "only {} ?cs (int (16 * j))" if "\<not> ?c > 1" "block_at q i16 (base_of q i16 rd) rd j ! 0 = 0"
    unfolding only_def at
  proof (intro allI impI)
    fix k :: nat assume k: "k < 16"
    have "?cs ! (16 * j) = 0" using that(2) block_at_nth[OF rd j, of 0 q] coeffs_nth[OF rd j, of 0 q b] z(1) by simp
    then show "?cs ! (16 * j + k) = 0" using o1[OF that(1)] k unfolding only_def at by (cases "k = 0") simp_all
  qed
  show ?thesis
    unfolding code_ok_def code_at_def block_code_def using o0 o1 o2 by auto
qed

lemma decoded_with_residuals:
  assumes rd: "levels_of_ok i16 rd"
  shows "decoded_residuals q i16 rd (with_residuals q i16 rd b)"
proof -
  let ?b = "with_residuals q i16 rd b" and ?c = "code_at q i16 (base_of q i16 rd) rd"
  have y: "non_zero_y ?b = pack_codes (map ?c [0..<16])" "non_zero_uv ?b = pack_codes (map ?c [20..<24] @ map ?c [16..<20])"
    by (simp_all add: with_residuals_def Let_def)
  have "length (md_coeffs ?b) = 384" by (simp add: with_residuals_def Let_def length_read_upto length_base_of)
  moreover have "drop_bit 30 (push_bit (2 * j) (non_zero_y ?b)) = ?c j" if "j < 16" for j
    unfolding y using pack_top[OF code_at_less _ that, of q i16 "base_of q i16 rd" rd "[0..<16]"] that by simp
  moreover have "uv_code (drop_bit (8 * k) (non_zero_uv ?b)) j = uint (?c (16 + 4 * k + j))" if "k < 2" "j < 4" for k j
  proof -
    have l: "length (map ?c [16..<20]) = 4" "length (map ?c [20..<24]) = 4" by simp_all
    have "k = 0 \<or> k = 1" using that(1) by linarith
    then show ?thesis unfolding y pack_uv[OF code_at_less code_at_less l that(2,1)] using that(2) by (auto simp del: upt_rec_numeral)
  qed
  moreover have "16 + 4 * k + j < 24" if "k < 2" "j < 4" for k j :: nat using that by linarith
  moreover have "j < 24" if "j < 16" for j :: nat using that by linarith
  ultimately show ?thesis
    unfolding decoded_residuals_def using coeffs_nth[OF rd] code_ok_block[OF rd] by metis
qed


subsection \<open>The macroblocks of a frame\<close>

text \<open>
  The loop of VP8EncLoop over the macroblocks. \<open>infos\<close> are the levels that VP8Decimate chooses, which also has stored the
  modes and the skip flag; the writer of a row is the partition \<open>y & (num_parts - 1)\<close>, as VP8IteratorSetRow sets it.
\<close>

partial_function (option) code_macroblocks :: "allocator \<Rightarrow> VP8Encoder \<Rightarrow> int \<Rightarrow> VP8ModeScore list \<Rightarrow> EncModes \<Rightarrow> VP8EncIterator \<Rightarrow>
    VP8BitWriter list \<Rightarrow> (bool \<times> EncModes \<times> VP8BitWriter list) option" where
  "code_macroblocks malloc enc num_parts infos em it ps =
     Option.bind (ld infos (it_mb it)) (\<lambda>info.
     Option.bind (ld (em_mb_info em) (it_mb it)) (\<lambda>mb.
     Option.bind (ld ps (it_y it AND (num_parts - 1))) (\<lambda>bw.
     Option.bind (code_macroblock malloc enc info (mb_skip mb \<noteq> 0) (em, it, bw)) (\<lambda>(em, it, bw).
     Option.bind (st ps (it_y it AND (num_parts - 1)) bw) (\<lambda>ps.
       if (mb_skip mb = 0 \<or> e_use_skip_proba (e_proba enc) = 0) \<and> bw_error bw \<noteq> 0 then Some (False, em, ps)
       else Option.bind (VP8IteratorNext em it) (\<lambda>(more, it).
         if more then code_macroblocks malloc enc num_parts infos em it ps else Some (True, em, ps)))))))"

text \<open>
  What the syntax of a macroblock depends on: whether it is a 16x16 block, whether its residuals are skipped, its
  levels. The flags that it leaves below and to the right follow from those above and to the left.
\<close>

type_synonym mb_code = "bool \<times> bool \<times> VP8ModeScore"

definition mb_code_of :: "VP8Encoder \<Rightarrow> EncModes \<Rightarrow> VP8ModeScore list \<Rightarrow> nat \<Rightarrow> nat \<Rightarrow> mb_code" where
  "mb_code_of enc em infos Y X = (let k = Y * nat (em_mb_w em) + X; mb = em_mb_info em ! k in
     (mb_type mb = 1, mb_skip mb \<noteq> 0 \<and> e_use_skip_proba (e_proba enc) \<noteq> 0, infos ! k))"

definition flags_below :: "mb_code \<Rightarrow> bool list \<Rightarrow> bool list" where
  "flags_below = (\<lambda>(i16, skipped, rd) T. if skipped then replicate 8 False @ [\<not> i16 \<and> T ! 8]
     else top_flags rd (if i16 then flag_of (y_dc_levels rd) else T ! 8))"

definition flags_right :: "mb_code \<Rightarrow> bool list \<Rightarrow> bool list" where
  "flags_right = (\<lambda>(i16, skipped, rd) L. if skipped then replicate 8 False @ [\<not> i16 \<and> L ! 8]
     else left_flags rd (if i16 then flag_of (y_dc_levels rd) else L ! 8))"

primrec flags_above :: "(nat \<Rightarrow> nat \<Rightarrow> mb_code) \<Rightarrow> nat \<Rightarrow> nat \<Rightarrow> bool list" where
  "flags_above D 0 X = replicate 9 False"
| "flags_above D (Suc Y) X = flags_below (D Y X) (flags_above D Y X)"

primrec flags_beside :: "(nat \<Rightarrow> nat \<Rightarrow> mb_code) \<Rightarrow> nat \<Rightarrow> nat \<Rightarrow> bool list" where
  "flags_beside D Y 0 = replicate 9 False"
| "flags_beside D Y (Suc X) = flags_right (D Y X) (flags_beside D Y X)"

lemma flags_len [simp]: "length (flags_below c T) = 9" "length (flags_right c L) = 9"
  by (cases c; simp add: flags_below_def flags_right_def)+

lemma flags_above_len [simp]: "length (flags_above D Y X) = 9" by (cases Y) simp_all
lemma flags_beside_len [simp]: "length (flags_beside D Y X) = 9" by (cases X) simp_all

definition mb_tokens :: "VP8Encoder \<Rightarrow> (nat \<Rightarrow> nat \<Rightarrow> mb_code) \<Rightarrow> nat \<Rightarrow> nat \<Rightarrow> symbol list" where
  "mb_tokens enc D Y X = (case D Y X of (i16, skipped, rd) \<Rightarrow>
     if skipped then [] else residual_symbols enc i16 (flags_above D Y X) (flags_beside D Y X) rd)"

definition code_ready :: "mb_code \<Rightarrow> bool" where
  "code_ready = (\<lambda>(i16, skipped, rd). \<not> skipped \<longrightarrow> levels_of_ok i16 rd)"

lemma last8: "length L = 9 \<Longrightarrow> take 8 L @ [L ! 8] = L"
  using take_Suc_conv_app_nth[of 8 L] by simp

lemma shared_flags: "left_flags rd d' ! 3 = top_flags rd d ! 3" "left_flags rd d' ! 5 = top_flags rd d ! 5" "left_flags rd d' ! 7 = top_flags rd d ! 7"
  by (simp_all add: top_flags_def left_flags_def)

lemma emits_code_macroblock:
  assumes pr: "coder_probas_ok enc" and c: "code_ready (i16, sk, rd)"
    and mb: "ld (em_mb_info em) (it_mb it) = Some mb" "i16 \<longleftrightarrow> mb_type mb = 1" "sk \<longleftrightarrow> skipped \<and> e_use_skip_proba (e_proba enc) \<noteq> 0"
    and w: "ld (em_nz em) (it_nz it) = Some tw" "ld (em_nz em) (it_nz it - 1) = Some lw"
    and len: "length (it_top_nz it) = 9" "length (it_left_nz it) = 9"
    and TL: "T = top_of tw" "length L = 9" "left_of lw = take 8 L" "it_left_nz it ! 8 = of_bool (L ! 8)"
  shows "\<exists>w' t l. emits malloc e (\<lambda>bw. code_macroblock malloc enc rd skipped (em, it, bw)) (if sk then [] else residual_symbols enc i16 T L rd)
      (\<lambda>bw. (em\<lparr>em_nz := (em_nz em)[nat (it_nz it) := w']\<rparr>, it\<lparr>it_top_nz := t, it_left_nz := l\<rparr>, bw)) \<and>
    top_of w' = flags_below (i16, sk, rd) T \<and> left_of w' = take 8 (flags_right (i16, sk, rd) L) \<and>
    length t = 9 \<and> length l = 9 \<and> l ! 8 = of_bool (flags_right (i16, sk, rd) L ! 8)"
proof (cases sk)
  case False
  let ?T' = "flags_below (i16, sk, rd) T" and ?L' = "flags_right (i16, sk, rd) L"
  have rd: "levels_of_ok i16 rd" using c False by (simp add: code_ready_def)
  have TL': "?T' = top_flags rd (if i16 then flag_of (y_dc_levels rd) else T ! 8)" "?L' = left_flags rd (if i16 then flag_of (y_dc_levels rd) else L ! 8)"
    using False by (simp_all add: flags_below_def flags_right_def)
  have L: "L = left_of lw @ [L ! 8]" using TL(2,3) last8 by metis
  have e: "emits malloc e (\<lambda>bw. CodeResiduals malloc enc rd (em, it, bw)) (residual_symbols enc i16 T L rd)
    (\<lambda>bw. (em\<lparr>em_nz := (em_nz em)[nat (it_nz it) := nz_word ?T' ?L']\<rparr>, it\<lparr>it_top_nz := map of_bool ?T', it_left_nz := map of_bool ?L'\<rparr>, bw))"
    by (rule emits_CodeResiduals[OF pr rd mb(1,2) w len TL(4,1) L refl TL'])
  have "top_of (nz_word ?T' ?L') = ?T'" "left_of (nz_word ?T' ?L') = take 8 ?L'"
    using nz_word_bits[of ?T' ?L'] TL' shared_flags by simp_all
  moreover have "code_macroblock malloc enc rd skipped = CodeResiduals malloc enc rd"
    using False mb(3) by (auto simp: code_macroblock_def Let_def)
  ultimately show ?thesis using e False
    by (intro exI[of _ "nz_word ?T' ?L'"] exI[of _ "map of_bool ?T'"] exI[of _ "map of_bool ?L'"]) simp
next
  case True
  have nzi: "0 \<le> it_nz it" "it_nz it < int (length (em_nz em))" "tw = em_nz em ! nat (it_nz it)" using w(1) by (auto simp: ld_def split: if_splits)
  have st: "st (em_nz em) (it_nz it) v = Some ((em_nz em)[nat (it_nz it) := v])" for v using nzi by (simp add: st_def)
  have cm: "code_macroblock malloc enc rd skipped = (\<lambda>(em, it, bw). do { (em, it) \<leftarrow> ResetAfterSkip em it; Some (em, it, bw) })"
    using True mb(3) by (auto simp: code_macroblock_def Let_def fun_eq_iff)
  let ?w = "if i16 then 0 else tw AND push_bit 24 1" and ?l = "if i16 then (it_left_nz it)[8 := 0] else it_left_nz it"
  have "ResetAfterSkip em it = Some (em\<lparr>em_nz := (em_nz em)[nat (it_nz it) := ?w]\<rparr>, it\<lparr>it_top_nz := it_top_nz it, it_left_nz := ?l\<rparr>)"
    using mb(1,2) len w(1) st by (auto simp: ResetAfterSkip_def st_def)
  then have "emits malloc e (\<lambda>bw. code_macroblock malloc enc rd skipped (em, it, bw)) []
      (\<lambda>bw. (em\<lparr>em_nz := (em_nz em)[nat (it_nz it) := ?w]\<rparr>, it\<lparr>it_top_nz := it_top_nz it, it_left_nz := ?l\<rparr>, bw))"
    unfolding cm prod.case by (simp add: emits_Some)
  moreover have "top_of ?w = flags_below (i16, sk, rd) T" "left_of ?w = take 8 (flags_right (i16, sk, rd) L)"
  proof -
    have "T ! 8 = bit tw 24" by (simp add: TL(1) top_of_def)
    moreover have "replicate 9 False = replicate 8 False @ [False]" by (simp add: numeral_eq_Suc)
    moreover have "flags_below (i16, sk, rd) T = replicate 8 False @ [\<not> i16 \<and> T ! 8]" "take 8 (flags_right (i16, sk, rd) L) = replicate 8 False"
      using True by (simp_all add: flags_below_def flags_right_def)
    moreover have "top_of ?w = (if i16 then replicate 9 False else replicate 8 False @ [bit tw 24])" "left_of ?w = replicate 8 False"
      by (cases i16; simp only: if_True if_False zero_word skip_word)+
    ultimately show "top_of ?w = flags_below (i16, sk, rd) T" "left_of ?w = take 8 (flags_right (i16, sk, rd) L)" by simp_all
  qed
  moreover have "length ?l = 9" "?l ! 8 = of_bool (flags_right (i16, sk, rd) L ! 8)" using len TL(4) True by (auto simp: flags_right_def nth_append)
  ultimately show ?thesis using True len(1)
    by (intro exI[of _ ?w] exI[of _ "it_top_nz it"] exI[of _ ?l]) simp
qed


text \<open>The contexts that the encoder holds at a macroblock.\<close>

definition contexts_at :: "(nat \<Rightarrow> nat \<Rightarrow> mb_code) \<Rightarrow> EncModes \<Rightarrow> nat \<Rightarrow> nat \<Rightarrow> VP8EncIterator \<Rightarrow> bool" where
  "contexts_at D em Y X it \<longleftrightarrow> it_at em Y X it \<and> em_nz em ! 0 = 0 \<and>
     (\<forall>i<nat (em_mb_w em). top_of (em_nz em ! Suc i) = flags_above D (if i < X then Suc Y else Y) i) \<and>
     left_of (em_nz em ! X) = take 8 (flags_beside D Y X) \<and> it_left_nz it ! 8 = of_bool (flags_beside D Y X ! 8)"

text \<open>The tokens of the first \<open>n\<close> macroblocks that go to the partition \<open>p\<close>.\<close>

definition part_tokens :: "VP8Encoder \<Rightarrow> (nat \<Rightarrow> nat \<Rightarrow> mb_code) \<Rightarrow> nat \<Rightarrow> nat \<Rightarrow> nat \<Rightarrow> nat \<Rightarrow> symbol list" where
  "part_tokens enc D W P p n = concat (map (\<lambda>k. mb_tokens enc D (k div W) (k mod W)) (filter (\<lambda>k. k div W mod P = p) [0..<n]))"

lemma part_tokens_Suc:
  "part_tokens enc D W P p (Suc n) = part_tokens enc D W P p n @ (if n div W mod P = p then mb_tokens enc D (n div W) (n mod W) else [])"
  by (simp add: part_tokens_def)

lemma part_tokens_mono: "n \<le> m \<Longrightarrow> length (part_tokens enc D W P p n) \<le> length (part_tokens enc D W P p m)"
  by (induction m rule: nat_induct_at_least[of n]; simp add: part_tokens_Suc)

lemma VP8IteratorNext_left:
  assumes "VP8IteratorNext em it = Some (m, it')" "length (it_left_nz it) = 9"
  shows "it_left_nz it' = (if it_x it + 1 = em_mb_w em then (it_left_nz it)[8 := 0] else it_left_nz it)"
  using assms by (auto simp: VP8IteratorNext_def VP8IteratorSetRow_def InitLeft_def st_def Let_def split: if_splits option.splits)

definition part_count :: "nat \<Rightarrow> bool" where
  "part_count P \<longleftrightarrow> P = 1 \<or> P = 2 \<or> P = 4 \<or> P = 8"

lemma part_of_row: "part_count P \<Longrightarrow> int Y AND (int P - 1) = int (Y mod P)"
proof -
  have "int Y AND mask n = int (Y mod 2 ^ n)" for n by (simp add: take_bit_eq_mod zmod_int flip: take_bit_eq_mask)
  from this[of 0] this[of 1] this[of 2] this[of 3] show "part_count P \<Longrightarrow> int Y AND (int P - 1) = int (Y mod P)"
    by (auto simp: part_count_def mask_numeral)
qed

lemma modes_ok_nz: "modes_ok em \<Longrightarrow> length (em_nz em) = Suc (nat (em_mb_w em))" "modes_ok em \<Longrightarrow> 0 < em_mb_w em"
proof -
  assume "modes_ok em"
  then have "int (length (em_nz em)) = em_mb_w em + 1" "0 < em_mb_w em" by (simp_all add: modes_ok_def)
  then show "length (em_nz em) = Suc (nat (em_mb_w em))" "0 < em_mb_w em" by linarith+
qed

text \<open>The modes do not depend on the flags.\<close>

lemma modes_ok_em_nz:
  assumes "modes_ok em" "length n = length (em_nz em)"
  shows "modes_ok (em\<lparr>em_nz := n\<rparr>)" "mb_code_of enc (em\<lparr>em_nz := n\<rparr>) infos = mb_code_of enc em infos"
    "it_at (em\<lparr>em_nz := n\<rparr>) Y X = it_at em Y X"
proof -
  let ?em = "em\<lparr>em_nz := n\<rparr>"
  have at: "mode_above ?em = mode_above em" "mode_beside ?em = mode_beside em" "mode_at ?em = mode_at em" "mb_pos ?em = mb_pos em"
    by (simp_all add: fun_eq_iff mode_above_def mode_beside_def mode_at_def mb_pos_def)
  have "modes_ok ?em = modes_ok em" by (simp add: at modes_ok_def assms(2))
  with assms(1) show "modes_ok ?em" by simp
  show "mb_code_of enc ?em infos = mb_code_of enc em infos" by (simp add: fun_eq_iff mb_code_of_def)
  show "it_at ?em Y X = it_at em Y X" by (simp add: fun_eq_iff it_at_def at)
qed

lemma contexts_step:
  assumes ok: "modes_ok em" "Y < nat (em_mb_h em)" "X < nat (em_mb_w em)" and at: "contexts_at D em Y X it"
    and w: "top_of w = flags_below (D Y X) (flags_above D Y X)" "left_of w = take 8 (flags_right (D Y X) (flags_beside D Y X))"
    and l: "length t = 9" "length l = 9" "l ! 8 = of_bool (flags_right (D Y X) (flags_beside D Y X) ! 8)"
    and em': "em' = em\<lparr>em_nz := (em_nz em)[nat (it_nz it) := w]\<rparr>" and it': "it' = it\<lparr>it_top_nz := t, it_left_nz := l\<rparr>"
  shows "\<exists>it''. VP8IteratorNext em' it' = Some (Suc (Y * nat (em_mb_w em) + X) < nat (em_mb_w em) * nat (em_mb_h em), it'') \<and>
    (if Suc X = nat (em_mb_w em) then contexts_at D em' (Suc Y) 0 it'' else contexts_at D em' Y (Suc X) it'')"
proof -
  let ?W = "nat (em_mb_w em)"
  have nz: "length (em_nz em) = Suc ?W" "0 < em_mb_w em" using modes_ok_nz[OF ok(1)] by simp_all
  have x: "it_x it = int X" "nat (it_nz it) = Suc X" using at by (simp_all add: contexts_at_def it_at_def)
  have ok': "modes_ok em'" "em_mb_w em' = em_mb_w em" "em_mb_h em' = em_mb_h em" "it_at em' Y X = it_at em Y X"
    using modes_ok_em_nz(1,3)[OF ok(1)] unfolding em' by simp_all
  have at': "it_at em' Y X it'" using at l unfolding ok'(4) it' by (simp add: contexts_at_def it_at_def)
  have "X < nat (em_mb_w em')" using ok(3) ok'(2) by simp
  from VP8IteratorNext_at[OF ok'(1) this at'] obtain it'' where
    n: "VP8IteratorNext em' it' = Some (Suc (Y * ?W + X) < ?W * nat (em_mb_h em), it'')"
      "if Suc X = ?W then it_at em' (Suc Y) 0 it'' else it_at em' Y (Suc X) it''"
    unfolding ok'(2,3) by blast
  have lft: "it_left_nz it'' = (if Suc X = ?W then l[8 := 0] else l)"
    using VP8IteratorNext_left[OF n(1)] l(2) x(1) nz(2) ok'(2) by (auto simp: it')
  have e0: "em_nz em' ! 0 = 0" using at x(2) by (simp add: em' contexts_at_def)
  have new: "em_nz em' ! Suc X = w" using nz(1) ok(3) x(2) by (simp add: em')
  have tops: "top_of (em_nz em' ! Suc i) = flags_above D (if i < Suc X then Suc Y else Y) i" if "i < ?W" for i
  proof (cases "i = X")
    case True
    then show ?thesis using new w(1) by simp
  next
    case False
    then have "em_nz em' ! Suc i = em_nz em ! Suc i" using x(2) by (simp add: em')
    then show ?thesis using at that False by (simp add: contexts_at_def less_Suc_eq)
  qed
  have "contexts_at D em' (Suc Y) 0 it''" if "Suc X = ?W"
    using n(2) that e0 tops lft l(2) zero_word(2) by (auto simp: contexts_at_def ok'(2))
  moreover have "contexts_at D em' Y (Suc X) it''" if "Suc X \<noteq> ?W"
    using n(2) that e0 tops lft w(2) l new by (auto simp: contexts_at_def ok'(2))
  ultimately show ?thesis using n(1) by auto
qed

text \<open>The loop writes the tokens of every macroblock to the partition of its row.\<close>

lemma code_macroblocks_ok:
  assumes ok: "modes_ok em" "coder_probas_ok enc" "part_count P" "length infos = nat (em_mb_w em) * nat (em_mb_h em)" "malloc_ok malloc"
    and D: "D = mb_code_of enc em infos" "\<And>Y X. Y < nat (em_mb_h em) \<Longrightarrow> X < nat (em_mb_w em) \<Longrightarrow> code_ready (D Y X)"
    and len: "\<And>p. p < P \<Longrightarrow> length (part_tokens enc D (nat (em_mb_w em)) P p (nat (em_mb_w em) * nat (em_mb_h em))) < 2 ^ 31"
    and YX: "Y < nat (em_mb_h em)" "X < nat (em_mb_w em)" and at: "contexts_at D em Y X it"
    and ps: "length ps = P" "\<And>p. p < P \<Longrightarrow> writing e (ps ! p) (part_tokens enc D (nat (em_mb_w em)) P p (Y * nat (em_mb_w em) + X))"
  shows "\<exists>nz ps'. code_macroblocks malloc enc (int P) infos em it ps = Some (True, em\<lparr>em_nz := nz\<rparr>, ps') \<and> length ps' = P \<and> length nz = length (em_nz em) \<and>
    (\<forall>p<P. writing e (ps' ! p) (part_tokens enc D (nat (em_mb_w em)) P p (nat (em_mb_w em) * nat (em_mb_h em))))"
  using assms
proof (induction "nat (em_mb_w em) * nat (em_mb_h em) - (Y * nat (em_mb_w em) + X)" arbitrary: em Y X it ps)
  case 0
  then show ?case using raster(3)[OF "0.prems"(10,9)] by simp
next
  case (Suc n)
  let ?W = "nat (em_mb_w em)" and ?H = "nat (em_mb_h em)"
  let ?k = "Y * ?W + X" and ?p = "Y mod P"
  let ?mb = "em_mb_info em ! ?k" and ?toks = "\<lambda>p n. part_tokens enc D ?W P p n"
  note r = raster[OF Suc.prems(10,9)]
  have P: "0 < P" "?p < P" using Suc.prems(3) by (auto simp: part_count_def)
  have it: "it_y it = int Y" "it_mb it = int ?k" "it_nz it = 1 + int X" "length (it_top_nz it) = 9" "length (it_left_nz it) = 9"
    using Suc.prems(11) by (simp_all add: contexts_at_def it_at_def)
  have nz: "length (em_nz em) = Suc ?W" by (rule modes_ok_nz(1)[OF Suc.prems(1)])
  obtain i16 sk rd where c: "D Y X = (i16, sk, rd)" by (cases "D Y X")
  have c': "i16 = (mb_type ?mb = 1)" "sk = (mb_skip ?mb \<noteq> 0 \<and> e_use_skip_proba (e_proba enc) \<noteq> 0)" "rd = infos ! ?k"
    using c unfolding Suc.prems(6) mb_code_of_def by (simp_all add: Let_def)
  have li: "ld infos (it_mb it) = Some rd" using Suc.prems(4) r(3) it(2) c'(3) by (simp add: ld_nat del: of_nat_add of_nat_mult)
  have lm: "ld (em_mb_info em) (it_mb it) = Some ?mb" using modes_okD(2)[OF Suc.prems(1,9,10)] it(2) by simp
  have pk: "it_y it AND (int P - 1) = int ?p" using part_of_row[OF Suc.prems(3)] it(1) by simp
  have lp: "ld ps (it_y it AND (int P - 1)) = Some (ps ! ?p)" using P(2) Suc.prems(12) pk by (simp add: ld_nat del: zmod_int)
  have lw: "ld (em_nz em) (it_nz it) = Some (em_nz em ! Suc X)" "ld (em_nz em) (it_nz it - 1) = Some (em_nz em ! X)"
    using nz Suc.prems(10) it(3) ld_nat[of "Suc X" "em_nz em"] ld_nat[of X "em_nz em"] by simp_all
  have ctx: "flags_above D Y X = top_of (em_nz em ! Suc X)" "left_of (em_nz em ! X) = take 8 (flags_beside D Y X)"
    "it_left_nz it ! 8 = of_bool (flags_beside D Y X ! 8)" using Suc.prems(10,11) by (simp_all add: contexts_at_def)
  have rdy: "code_ready (i16, sk, rd)" using Suc.prems(7)[OF Suc.prems(9,10)] c by simp
  from emits_code_macroblock[OF Suc.prems(2) rdy lm c'(1,2) lw it(4,5) ctx(1) flags_beside_len ctx(2,3), of malloc e]
  obtain w' t l where
    em: "emits malloc e (\<lambda>bw. code_macroblock malloc enc rd (mb_skip ?mb \<noteq> 0) (em, it, bw)) (mb_tokens enc D Y X)
      (\<lambda>bw. (em\<lparr>em_nz := (em_nz em)[nat (it_nz it) := w']\<rparr>, it\<lparr>it_top_nz := t, it_left_nz := l\<rparr>, bw))"
    and w': "top_of w' = flags_below (D Y X) (flags_above D Y X)" "left_of w' = take 8 (flags_right (D Y X) (flags_beside D Y X))"
    and l: "length t = 9" "length l = 9" "l ! 8 = of_bool (flags_right (D Y X) (flags_beside D Y X) ! 8)"
    unfolding c mb_tokens_def prod.case by blast
  let ?em = "em\<lparr>em_nz := (em_nz em)[nat (it_nz it) := w']\<rparr>" and ?it = "it\<lparr>it_top_nz := t, it_left_nz := l\<rparr>"
  from contexts_step[OF Suc.prems(1,9,10,11) w' l refl refl] obtain it'' where
    nx: "VP8IteratorNext ?em ?it = Some (Suc ?k < ?W * ?H, it'')"
      "if Suc X = ?W then contexts_at D ?em (Suc Y) 0 it'' else contexts_at D ?em Y (Suc X) it''" by blast
  have suc: "?toks p (Suc ?k) = ?toks p ?k @ (if p = ?p then mb_tokens enc D Y X else [])" for p
    unfolding part_tokens_Suc r(1,2) by auto
  have "length (?toks ?p (Suc ?k)) < 2 ^ 31"
  proof (rule order_le_less_trans)
    show "length (?toks ?p (Suc ?k)) \<le> length (?toks ?p (?W * ?H))" by (rule part_tokens_mono) (use r(3) in simp)
  qed (rule Suc.prems(8)[OF P(2)])
  then have "length (?toks ?p ?k @ mb_tokens enc D Y X) < 2 ^ 31" unfolding suc by simp
  from writing_step[OF em Suc.prems(13)[OF P(2)] Suc.prems(5) this] obtain bw' where
    wr: "code_macroblock malloc enc rd (mb_skip ?mb \<noteq> 0) (em, it, ps ! ?p) = Some (?em, ?it, bw')" "writing e bw' (?toks ?p (Suc ?k))"
    unfolding suc by auto
  have sp: "st ps (it_y it AND (int P - 1)) bw' = Some (ps[?p := bw'])" using P(2) Suc.prems(12) pk by (simp add: st_nat del: zmod_int)
  have all: "writing e (ps[?p := bw'] ! p) (?toks p (Suc ?k))" if "p < P" for p
    using wr(2) Suc.prems(13)[OF that] Suc.prems(12) that by (cases "p = ?p") (simp_all add: suc)
  have step: "code_macroblocks malloc enc (int P) infos em it ps =
      (if Suc ?k < ?W * ?H then code_macroblocks malloc enc (int P) infos ?em it'' (ps[?p := bw']) else Some (True, ?em, ps[?p := bw']))"
    by (subst code_macroblocks.simps) (simp add: li lm lp wr(1) sp nx(1) writing_ok[OF wr(2)])
  have ok': "modes_ok ?em" "em_mb_w ?em = em_mb_w em" "em_mb_h ?em = em_mb_h em" "mb_code_of enc ?em infos = mb_code_of enc em infos"
    using modes_ok_em_nz(1,2)[OF Suc.prems(1)] by simp_all
  have lps: "length (ps[?p := bw']) = P" using Suc.prems(12) by simp
  show ?case
  proof (cases "Suc ?k < ?W * ?H")
    case False
    have "?k < ?W * ?H" by (rule r(3))
    then have "Suc ?k = ?W * ?H" using False by linarith
    then show ?thesis using step False all lps by (intro exI[of _ "(em_nz em)[nat (it_nz it) := w']"] exI[of _ "ps[?p := bw']"]) simp
  next
    case True
    obtain Y' X' where YX': "Y' < ?H" "X' < ?W" "Y' * ?W + X' = Suc ?k" "contexts_at D ?em Y' X' it''"
    proof (cases "Suc X = ?W")
      case True
      have "Suc Y * ?W < ?H * ?W" using \<open>Suc ?k < ?W * ?H\<close> r(4)[OF True] by (simp add: mult.commute)
      then have "Suc Y < ?H" unfolding mult_less_cancel2 by blast
      then show ?thesis using that[of "Suc Y" 0] nx(2) True r(4)[OF True] Suc.prems(10) by simp
    next
      case False
      then show ?thesis using that[of Y "Suc X"] nx(2) Suc.prems(9,10) by simp
    qed
    have "\<exists>nz ps'. code_macroblocks malloc enc (int P) infos ?em it'' (ps[?p := bw']) = Some (True, ?em\<lparr>em_nz := nz\<rparr>, ps') \<and> length ps' = P \<and>
        length nz = length (em_nz ?em) \<and> (\<forall>p<P. writing e (ps' ! p) (part_tokens enc D (nat (em_mb_w ?em)) P p (nat (em_mb_w ?em) * nat (em_mb_h ?em))))"
    proof (rule Suc.hyps(1)[of ?em Y' X' it'' "ps[?p := bw']"])
      show "n = nat (em_mb_w ?em) * nat (em_mb_h ?em) - (Y' * nat (em_mb_w ?em) + X')" using Suc.hyps(2) unfolding ok'(2,3) YX'(3) by linarith
      show "D = mb_code_of enc ?em infos" using ok'(4) Suc.prems(6) by simp
    qed (use Suc.prems ok' YX' all lps in simp_all)
    then show ?thesis using step True by auto
  qed
qed


subsection \<open>Reading a macroblock and a row\<close>

text \<open>The decoder's data of a macroblock after VP8DecodeMB.\<close>

definition with_code :: "VP8QuantMatrix \<Rightarrow> mb_code \<Rightarrow> VP8MBData \<Rightarrow> VP8MBData" where
  "with_code q = (\<lambda>(i16, skipped, rd) b. if skipped then b\<lparr>non_zero_y := 0, non_zero_uv := 0, md_dither := 0\<rparr> else with_residuals q i16 rd b)"

text \<open>The tables of the loop filter are present.\<close>

definition filters_ready :: "VP8Decoder \<Rightarrow> bool" where
  "filters_ready d \<longleftrightarrow> (filter_type d > 0 \<longrightarrow> length (fstrengths d) = 4 \<and> (\<forall>fs\<in>set (fstrengths d). length fs = 2) \<and> mb_w d \<le> int (length (f_info d)))"

lemma store_filter_info_ok:
  assumes "filters_ready d" "mb_x d = int X" "X < length (mb_data d)" "int X < mb_w d"
    and "0 \<le> md_segment (mb_data d ! X)" "md_segment (mb_data d ! X) < 4" "md_is_i4x4 (mb_data d ! X) \<in> {0, 1}"
  shows "\<exists>fi. store_filter_info s d = Some (d\<lparr>f_info := fi\<rparr>) \<and> length fi = length (f_info d)"
proof (cases "filter_type d > 0")
  case True
  let ?b = "mb_data d ! X"
  have f: "length (fstrengths d) = 4" "\<forall>fs\<in>set (fstrengths d). length fs = 2" "X < length (f_info d)" using assms(1,4) True by (auto simp: filters_ready_def)
  have l1: "ld (fstrengths d) (md_segment ?b) = Some (fstrengths d ! nat (md_segment ?b))" using assms(5,6) f(1) by (simp add: ld_def)
  have "nat (md_segment ?b) < length (fstrengths d)" using assms(5,6) f(1) by linarith
  then have "length (fstrengths d ! nat (md_segment ?b)) = 2" using f(2) by simp
  then have l2: "ld (fstrengths d ! nat (md_segment ?b)) (md_is_i4x4 ?b) = Some (fstrengths d ! nat (md_segment ?b) ! nat (md_is_i4x4 ?b))"
    using assms(7) by (auto simp: ld_def)
  let ?fi = "fstrengths d ! nat (md_segment ?b) ! nat (md_is_i4x4 ?b)"
  have "store_filter_info s d = Some (d\<lparr>f_info := (f_info d)[X := ?fi\<lparr>f_inner := f_inner ?fi OR of_bool (\<not> s)\<rparr>]\<rparr>)"
    using True f(3) assms(2,3) l1 l2 by (simp add: store_filter_info_def ld_nat st_nat)
  then show ?thesis by (intro exI[of _ "(f_info d)[X := ?fi\<lparr>f_inner := f_inner ?fi OR of_bool (\<not> s)\<rparr>]"] conjI) simp_all
next
  case False
  have "d = d\<lparr>f_info := f_info d\<rparr>" by simp
  then show ?thesis using False by (intro exI[of _ "f_info d"]) (simp add: store_filter_info_def)
qed

text \<open>What the decoder knows about a macroblock before its residuals are read.\<close>

definition mb_ready :: "VP8Decoder \<Rightarrow> mb_code \<Rightarrow> VP8QuantMatrix \<Rightarrow> VP8MBData \<Rightarrow> bool" where
  "mb_ready d = (\<lambda>(i16, sk, rd) q b. code_ready (i16, sk, rd) \<and> md_is_i4x4 b = of_bool (\<not> i16) \<and> (sk \<longleftrightarrow> use_skip_proba d \<noteq> 0 \<and> md_skip b \<noteq> 0) \<and>
     0 \<le> md_segment b \<and> md_segment b < 4 \<and> ld (dqm d) (md_segment b) = Some q \<and> steps_ok q)"

lemma parses_VP8DecodeMB:
  assumes pr: "coder_probas_ok enc" "same_probas enc (proba d)" "filters_ready d"
    and X: "mb_x d = int X" "X < length (mb_data d)" "Suc X < length (mb_info d)" "int X < mb_w d"
    and b: "mb_ready d c q (mb_data d ! X)" and c: "c = (i16, sk, rd)"
    and T: "holds_flags (mb_info d ! Suc X) T" and L: "holds_flags (mb_info d ! 0) L"
  shows "\<exists>fi. length fi = length (f_info d) \<and>
    parses w mem bs (VP8DecodeMB alt mem d) (if sk then [] else residual_symbols enc i16 T L rd)
      (\<lambda>br. (1, d\<lparr>mb_info := (mb_info d)[Suc X := with_flags (flags_below c T) (mb_info d ! Suc X), 0 := with_flags (flags_right c L) (mb_info d ! 0)],
        mb_data := (mb_data d)[X := with_code q c (mb_data d ! X)], f_info := fi\<rparr>, br))"
proof -
  let ?b = "mb_data d ! X" and ?mb = "mb_info d ! Suc X" and ?lft = "mb_info d ! 0"
  let ?d = "d\<lparr>mb_info := (mb_info d)[Suc X := with_flags (flags_below c T) ?mb, 0 := with_flags (flags_right c L) ?lft],
        mb_data := (mb_data d)[X := with_code q c ?b]\<rparr>"
  have b': "code_ready (i16, sk, rd)" "md_is_i4x4 ?b = of_bool (\<not> i16)" "sk \<longleftrightarrow> use_skip_proba d \<noteq> 0 \<and> md_skip ?b \<noteq> 0"
    "0 \<le> md_segment ?b" "md_segment ?b < 4" "ld (dqm d) (md_segment ?b) = Some q" "steps_ok q" using b unfolding c mb_ready_def prod.case by blast+
  have lb: "ld (mb_data d) (mb_x d) = Some ?b" using X by (simp add: ld_nat)
  have skip: "(if use_skip_proba d \<noteq> 0 then md_skip ?b else 0) = 0 \<longleftrightarrow> \<not> sk" using b'(3) by auto
  have seg: "md_segment (with_code q c ?b) = md_segment ?b" "md_is_i4x4 (with_code q c ?b) = md_is_i4x4 ?b"
    by (simp_all add: c with_code_def with_residuals_def Let_def)
  have fil: "\<exists>fi. store_filter_info s ?d = Some (?d\<lparr>f_info := fi\<rparr>) \<and> length fi = length (f_info d)" for s
    using store_filter_info_ok[of ?d X s] pr(3) X b'(2,4,5) seg by (simp add: filters_ready_def)
  have tail: "\<exists>fi. length fi = length (f_info d) \<and> parses w mem bs (VP8DecodeMB alt mem d) xs (\<lambda>br. (1, ?d\<lparr>f_info := fi\<rparr>, br))"
    if p: "parses w mem bs (\<lambda>br. if (if use_skip_proba d \<noteq> 0 then md_skip ?b else 0) = 0 then ParseResiduals alt mem d br
        else do {
          lft \<leftarrow> ld (mb_info d) 0;
          mb \<leftarrow> ld (mb_info d) (1 + mb_x d);
          let lft = lft\<lparr>nz := 0\<rparr>;
          let mb = mb\<lparr>nz := 0\<rparr>;
          let lft = (if md_is_i4x4 ?b = 0 then lft\<lparr>nz_dc := 0\<rparr> else lft);
          let mb = (if md_is_i4x4 ?b = 0 then mb\<lparr>nz_dc := 0\<rparr> else mb);
          mbs \<leftarrow> st (mb_info d) 0 lft;
          mbs \<leftarrow> st mbs (1 + mb_x d) mb;
          blocks \<leftarrow> st (mb_data d) (mb_x d) (?b\<lparr>non_zero_y := 0, non_zero_uv := 0, md_dither := 0\<rparr>);
          Some (True, d\<lparr>mb_info := mbs, mb_data := blocks\<rparr>, br) }) xs (\<lambda>br. (s, ?d, br))" for s xs
  proof -
    obtain fi where fi: "store_filter_info s ?d = Some (?d\<lparr>f_info := fi\<rparr>)" "length fi = length (f_info d)" using fil by blast
    have "parses w mem bs (VP8DecodeMB alt mem d) (xs @ []) (\<lambda>br. (1, ?d\<lparr>f_info := fi\<rparr>, br))"
      unfolding VP8DecodeMB_def lb Option.bind.simps
      by (subst Let_def, rule parses_then[OF p], rule parses_final) (simp only: prod.case fi(1) Option.bind.simps, simp)
    then show ?thesis using fi(2) by auto
  qed
  show ?thesis
  proof (cases sk)
    case False
    have rd: "levels_of_ok i16 rd" using b'(1) False by (simp add: code_ready_def)
    have fl: "flags_below c T = top_flags rd (if i16 then flag_of (y_dc_levels rd) else T ! 8)" "flags_right c L = left_flags rd (if i16 then flag_of (y_dc_levels rd) else L ! 8)"
      "with_code q c ?b = with_residuals q i16 rd ?b"
      using False by (simp_all add: c flags_below_def flags_right_def with_code_def)
    have "parses w mem bs (ParseResiduals alt mem d) (residual_symbols enc i16 T L rd)
      (\<lambda>br. (non_zero_y (with_residuals q i16 rd ?b) OR non_zero_uv (with_residuals q i16 rd ?b) = 0, ?d, br))"
      unfolding fl(3) by (rule parses_ParseResiduals[OF pr(1,2) rd X(1-3) b'(2,6,7) T L refl fl(1,2)])
    then show ?thesis using False skip by (intro tail[where s = "non_zero_y (with_residuals q i16 rd ?b) OR non_zero_uv (with_residuals q i16 rd ?b) = 0"]) simp
  next
    case True
    have "0 < length (mb_info d)" using X(3) by linarith
    then have mi: "ld (mb_info d) 0 = Some ?lft" "ld (mb_info d) (1 + mb_x d) = Some ?mb"
      using X ld_nat[of 0 "mb_info d"] ld_nat[of "Suc X" "mb_info d"] by auto
    have s: "st (mb_info d) 0 u = Some ((mb_info d)[0 := u])" "st ((mb_info d)[0 := u]) (1 + mb_x d) v = Some ((mb_info d)[Suc X := v, 0 := u])"
      "st (mb_data d) (mb_x d) z = Some ((mb_data d)[X := z])" for u v z
      using X \<open>0 < length (mb_info d)\<close> st_nat[of 0 "mb_info d" u] st_nat[of "Suc X" "(mb_info d)[0 := u]" v] list_update_swap[of 0 "Suc X" "mb_info d" u v] st_nat[of X "mb_data d" z] by auto
    have f: "(if md_is_i4x4 ?b = 0 then ?lft\<lparr>nz := 0\<rparr>\<lparr>nz_dc := 0\<rparr> else ?lft\<lparr>nz := 0\<rparr>) = with_flags (flags_right c L) ?lft"
      "(if md_is_i4x4 ?b = 0 then ?mb\<lparr>nz := 0\<rparr>\<lparr>nz_dc := 0\<rparr> else ?mb\<lparr>nz := 0\<rparr>) = with_flags (flags_below c T) ?mb"
      using True T L flags_zeros[of "[]" 8] b'(2) by (auto simp: c with_flags_def flags_right_def flags_below_def holds_flags_def nth_append)
    have w: "with_code q c ?b = ?b\<lparr>non_zero_y := 0, non_zero_uv := 0, md_dither := 0\<rparr>" using True by (simp add: c with_code_def)
    show ?thesis using True skip
      by (intro tail[where s = True]) (simp add: mi s f w parses_Some Let_def)
  qed
qed


text \<open>The macroblocks of a row; the loop ends early when the data end.\<close>

partial_function (option) decode_mbs :: "bool \<Rightarrow> u8 list \<Rightarrow> VP8Decoder \<Rightarrow> VP8BitReader \<Rightarrow> (bool \<times> VP8Decoder \<times> VP8BitReader) option" where
  "decode_mbs alt mem d br =
     (if mb_x d < mb_w d then
        Option.bind (VP8DecodeMB alt mem d br) (\<lambda>(ok, d, br).
          if ok = 0 then Some (False, d, br) else decode_mbs alt mem (d\<lparr>mb_x := mb_x d + 1\<rparr>) br)
      else Some (True, d, br))"

text \<open>The contexts of the decoder at a macroblock; \<open>with_codes\<close> are the data of a row whose first \<open>X\<close> macroblocks are read.\<close>

definition flags_at :: "(nat \<Rightarrow> nat \<Rightarrow> mb_code) \<Rightarrow> nat \<Rightarrow> nat \<Rightarrow> nat \<Rightarrow> VP8MB list \<Rightarrow> bool" where
  "flags_at D W Y X mbs \<longleftrightarrow> length mbs = Suc W \<and> holds_flags (mbs ! 0) (flags_beside D Y X) \<and>
     (\<forall>i<W. holds_flags (mbs ! Suc i) (flags_above D (if i < X then Suc Y else Y) i))"

definition with_codes :: "(nat \<Rightarrow> VP8QuantMatrix) \<Rightarrow> (nat \<Rightarrow> mb_code) \<Rightarrow> nat \<Rightarrow> VP8MBData list \<Rightarrow> VP8MBData list" where
  "with_codes q C X bs = map (\<lambda>i. if i < X then with_code (q i) (C i) (bs ! i) else bs ! i) [0..<length bs]"

lemma with_codes_simps: "length (with_codes q C X bs) = length bs" "i < length bs \<Longrightarrow> with_codes q C X bs ! i = (if i < X then with_code (q i) (C i) (bs ! i) else bs ! i)"
  "with_codes q C 0 bs = bs" "X < length bs \<Longrightarrow> (with_codes q C X bs)[X := with_code (q X) (C X) (bs ! X)] = with_codes q C (Suc X) bs"
proof -
  show "length (with_codes q C X bs) = length bs" by (simp add: with_codes_def)
  show n: "i < length bs \<Longrightarrow> with_codes q C X bs ! i = (if i < X then with_code (q i) (C i) (bs ! i) else bs ! i)" for i X by (simp add: with_codes_def)
  show "with_codes q C 0 bs = bs" by (simp add: with_codes_def map_nth)
  show "(with_codes q C X bs)[X := with_code (q X) (C X) (bs ! X)] = with_codes q C (Suc X) bs" if "X < length bs"
    by (rule nth_equalityI) (use that n in \<open>auto simp: with_codes_def nth_list_update less_Suc_eq\<close>)
qed

lemma flags_at_Suc:
  assumes "flags_at D W Y X mbs" "X < W"
  shows "flags_at D W Y (Suc X) (mbs[Suc X := with_flags (flags_below (D Y X) (flags_above D Y X)) a, 0 := with_flags (flags_right (D Y X) (flags_beside D Y X)) b])"
proof -
  let ?m = "mbs[Suc X := with_flags (flags_below (D Y X) (flags_above D Y X)) a, 0 := with_flags (flags_right (D Y X) (flags_beside D Y X)) b]"
  have l: "length mbs = Suc W" and h: "\<And>i. i < W \<Longrightarrow> holds_flags (mbs ! Suc i) (flags_above D (if i < X then Suc Y else Y) i)"
    using assms(1) by (simp_all add: flags_at_def)
  have "holds_flags (?m ! Suc i) (flags_above D (if i < Suc X then Suc Y else Y) i)" if "i < W" for i
  proof (cases "i = X")
    case True
    then show ?thesis using l assms(2) by (simp add: holds_with_flags)
  next
    case False
    then have "i < Suc X \<longleftrightarrow> i < X" by linarith
    then show ?thesis using h[OF that] False by simp
  qed
  moreover have "holds_flags (?m ! 0) (flags_beside D Y (Suc X))" using l by (simp add: holds_with_flags)
  ultimately show ?thesis using l by (simp add: flags_at_def)
qed

lemma parses_decode_mbs:
  assumes pr: "coder_probas_ok enc" "same_probas enc (proba d)" "filters_ready d" "mb_w d = int W"
    and b: "\<And>i. i < W \<Longrightarrow> mb_ready d (D Y i) (q i) (bs0 ! i)" "length bs0 = W"
    and X: "mb_x d = int X" "X \<le> W" "mb_data d = with_codes q (D Y) X bs0" and f: "flags_at D W Y X (mb_info d)"
  shows "\<exists>mi fi. flags_at D W Y W mi \<and> length fi = length (f_info d) \<and>
    parses w mem bs (decode_mbs alt mem d) (concat (map (mb_tokens enc D Y) [X..<W]))
      (\<lambda>br. (True, d\<lparr>mb_x := int W, mb_info := mi, mb_data := with_codes q (D Y) W bs0, f_info := fi\<rparr>, br))"
  using assms
proof (induction "W - X" arbitrary: X d w)
  case 0
  then have "X = W" by simp
  then have e: "decode_mbs alt mem d = (\<lambda>br. Some (True, d\<lparr>mb_x := int W, mb_info := mb_info d, mb_data := with_codes q (D Y) W bs0, f_info := f_info d\<rparr>, br))"
    using 0(5,8,10) by (subst decode_mbs.simps [THEN eq_reflection, abs_def]) (simp add: fun_eq_iff)
  show ?case using 0(11) \<open>X = W\<close> unfolding e by (intro exI[of _ "mb_info d"] exI[of _ "f_info d"]) (simp add: parses_Some)
next
  case (Suc n)
  have XW: "X < W" using Suc.hyps(2) by simp
  obtain i16 sk rd where c: "D Y X = (i16, sk, rd)" by (cases "D Y X")
  let ?T = "flags_above D Y X" and ?L = "flags_beside D Y X"
  have ln: "X < length (mb_data d)" "Suc X < length (mb_info d)" "int X < mb_w d" "mb_data d ! X = bs0 ! X"
    using XW Suc.prems(4,6,9,10) by (simp_all add: with_codes_simps flags_at_def)
  have h: "holds_flags (mb_info d ! Suc X) ?T" "holds_flags (mb_info d ! 0) ?L" using Suc.prems(10) XW by (auto simp: flags_at_def)
  have rb: "mb_ready d (D Y X) (q X) (mb_data d ! X)" using Suc.prems(5)[OF XW] ln(4) by simp
  from parses_VP8DecodeMB[OF Suc.prems(1-3,7) ln(1-3) rb c h, of w mem bs alt] obtain fi where
    fi: "length fi = length (f_info d)"
    "parses w mem bs (VP8DecodeMB alt mem d) (mb_tokens enc D Y X)
      (\<lambda>br. (1, d\<lparr>mb_info := (mb_info d)[Suc X := with_flags (flags_below (D Y X) ?T) (mb_info d ! Suc X), 0 := with_flags (flags_right (D Y X) ?L) (mb_info d ! 0)],
        mb_data := (mb_data d)[X := with_code (q X) (D Y X) (mb_data d ! X)], f_info := fi\<rparr>, br))"
    unfolding mb_tokens_def c prod.case by blast
  let ?mi = "(mb_info d)[Suc X := with_flags (flags_below (D Y X) ?T) (mb_info d ! Suc X), 0 := with_flags (flags_right (D Y X) ?L) (mb_info d ! 0)]"
  let ?d = "d\<lparr>mb_x := int (Suc X), mb_info := ?mi, mb_data := with_codes q (D Y) (Suc X) bs0, f_info := fi\<rparr>"
  have md: "(mb_data d)[X := with_code (q X) (D Y X) (mb_data d ! X)] = with_codes q (D Y) (Suc X) bs0"
    using XW Suc.prems(6,9) ln(4) by (simp add: with_codes_simps)
  have r: "mb_ready ?d = mb_ready d" by (simp add: mb_ready_def fun_eq_iff)
  have rec: "\<exists>mi fi'. flags_at D W Y W mi \<and> length fi' = length (f_info ?d) \<and>
    parses w mem bs (decode_mbs alt mem ?d) (concat (map (mb_tokens enc D Y) [Suc X..<W]))
      (\<lambda>br. (True, ?d\<lparr>mb_x := int W, mb_info := mi, mb_data := with_codes q (D Y) W bs0, f_info := fi'\<rparr>, br))" for w
  proof (rule Suc.hyps(1))
    show "n = W - Suc X" using Suc.hyps(2) by simp
    show "flags_at D W Y (Suc X) (mb_info ?d)" using flags_at_Suc[OF Suc.prems(10) XW] by simp
    show "filters_ready ?d" using Suc.prems(3) fi(1) by (simp add: filters_ready_def)
  qed (use Suc.prems(1-9) XW r in \<open>simp_all\<close>)
  have "f_info ?d = fi" "?d\<lparr>mb_x := int W, mb_info := mi, mb_data := with_codes q (D Y) W bs0, f_info := fi'\<rparr> =
      d\<lparr>mb_x := int W, mb_info := mi, mb_data := with_codes q (D Y) W bs0, f_info := fi'\<rparr>" for mi fi' by simp_all
  from rec[of "w \<or> mb_tokens enc D Y X \<noteq> []", unfolded this] obtain mi fi' where rest: "flags_at D W Y W mi" "length fi' = length fi"
    "parses (w \<or> mb_tokens enc D Y X \<noteq> []) mem bs (decode_mbs alt mem ?d) (concat (map (mb_tokens enc D Y) [Suc X..<W]))
      (\<lambda>br. (True, d\<lparr>mb_x := int W, mb_info := mi, mb_data := with_codes q (D Y) W bs0, f_info := fi'\<rparr>, br))" by blast
  have step: "decode_mbs alt mem d = (\<lambda>br. VP8DecodeMB alt mem d br \<bind> (\<lambda>(ok, d, br).
      if ok = 0 then Some (False, d, br) else decode_mbs alt mem (d\<lparr>mb_x := mb_x d + 1\<rparr>) br))"
    using ln(3) Suc.prems(7) by (subst decode_mbs.simps [THEN eq_reflection, abs_def]) (simp add: fun_eq_iff)
  have nx: "(d\<lparr>mb_info := ?mi, mb_data := with_codes q (D Y) (Suc X) bs0, f_info := fi\<rparr>)
      \<lparr>mb_x := mb_x (d\<lparr>mb_info := ?mi, mb_data := with_codes q (D Y) (Suc X) bs0, f_info := fi\<rparr>) + 1\<rparr> = ?d"
    using Suc.prems(7) by simp
  have "parses w mem bs (decode_mbs alt mem d) (mb_tokens enc D Y X @ concat (map (mb_tokens enc D Y) [Suc X..<W]))
      (\<lambda>br. (True, d\<lparr>mb_x := int W, mb_info := mi, mb_data := with_codes q (D Y) W bs0, f_info := fi'\<rparr>, br))"
    unfolding step
    apply (rule parses_bind[OF fi(2)[unfolded md]])
    using rest(3) by (simp only: prod.case nx if_False one_neq_zero)
  then show ?case using rest(1,2) fi(1) XW
    by (intro exI[of _ mi] exI[of _ fi']) (simp add: upt_conv_Cons)
qed


subsection \<open>Reading a frame\<close>

text \<open>
  The loop of ParseFrame over the rows. A row is handed to VP8ProcessRow, which is not modelled; the rows are kept in the
  order in which it receives them. \<open>token_br\<close> points into \<open>parts_\<close>, so the reader is put back after its row.
\<close>

definition frame_error :: "VP8Decoder \<Rightarrow> VP8MBData list list \<Rightarrow> string \<Rightarrow> (int \<times> VP8MBData list list \<times> VP8Decoder) option" where
  "frame_error d rows msg = do {
     (r, d) \<leftarrow> VP8SetError d VP8_STATUS_NOT_ENOUGH_DATA msg;
     Some (r, rows, d) }"

partial_function (option) parse_rows :: "bool \<Rightarrow> u8 list \<Rightarrow> VP8MBData list list \<Rightarrow> VP8Decoder \<Rightarrow> (int \<times> VP8MBData list list \<times> VP8Decoder) option" where
  "parse_rows alt mem rows d =
     (if mb_y d < br_mb_y d then
        let k = uint ((word_of_int (mb_y d) :: u32) AND num_parts_minus_one d) in
        Option.bind (VP8ParseIntraModeRow mem d) (\<lambda>(ok, d).
          if ok = 0 then frame_error d rows ''Premature end-of-partition0 encountered.''
          else
            Option.bind (ld (parts d) k) (\<lambda>br.
            Option.bind (decode_mbs alt mem d br) (\<lambda>(ok, d, br).
            Option.bind (st (parts d) k br) (\<lambda>ps.
              let d = d\<lparr>parts := ps\<rparr> in
              if \<not> ok then frame_error d rows ''Premature end-of-file encountered.''
              else let row = mb_data d in
                Option.bind (VP8InitScanline d) (\<lambda>d.
                  parse_rows alt mem (rows @ [row]) (d\<lparr>mb_y := mb_y d + 1\<rparr>))))))
      else Some (1, rows, d))"

definition ParseFrame :: "bool \<Rightarrow> u8 list \<Rightarrow> VP8Decoder \<Rightarrow> (int \<times> VP8MBData list list \<times> VP8Decoder) option" where
  "ParseFrame alt mem d = parse_rows alt mem [] (d\<lparr>mb_y := 0\<rparr>)"

text \<open>What the rows hold afterwards; \<open>Q\<close> are the quantizers of the segments.\<close>

definition same_residuals :: "VP8QuantMatrix list \<Rightarrow> mb_code \<Rightarrow> VP8MBData \<Rightarrow> bool" where
  "same_residuals Q = (\<lambda>(i16, sk, rd) b. if sk then non_zero_y b = 0 \<and> non_zero_uv b = 0
     else decoded_residuals (Q ! nat (md_segment b)) i16 rd b)"

definition same_row :: "VP8Encoder \<Rightarrow> EncModes \<Rightarrow> (nat \<Rightarrow> nat \<Rightarrow> mb_code) \<Rightarrow> VP8QuantMatrix list \<Rightarrow> nat \<Rightarrow> VP8MBData list \<Rightarrow> bool" where
  "same_row enc em D Q Y row \<longleftrightarrow> length row = nat (em_mb_w em) \<and>
     (\<forall>X<nat (em_mb_w em). same_modes enc em Y X (row ! X) \<and> same_residuals Q (D Y X) (row ! X))"

definition row_tokens :: "VP8Encoder \<Rightarrow> (nat \<Rightarrow> nat \<Rightarrow> mb_code) \<Rightarrow> nat \<Rightarrow> nat \<Rightarrow> symbol list" where
  "row_tokens enc D W Y = concat (map (mb_tokens enc D Y) [0..<W])"

text \<open>The tokens that the partition \<open>p\<close> still holds before row \<open>Y\<close>.\<close>

definition tokens_from :: "VP8Encoder \<Rightarrow> (nat \<Rightarrow> nat \<Rightarrow> mb_code) \<Rightarrow> nat \<Rightarrow> nat \<Rightarrow> nat \<Rightarrow> nat \<Rightarrow> nat \<Rightarrow> symbol list" where
  "tokens_from enc D W H P p Y = concat (map (row_tokens enc D W) (filter (\<lambda>y. y mod P = p) [Y..<H]))"

lemma tokens_from_step: "Y < H \<Longrightarrow> tokens_from enc D W H P p Y = (if Y mod P = p then row_tokens enc D W Y else []) @ tokens_from enc D W H P p (Suc Y)"
  by (simp add: tokens_from_def upt_conv_Cons)

lemma InitScanline_eq:
  assumes "length (intra_l d) = 4" "mb_info d \<noteq> []"
  shows "VP8InitScanline d = Some (d\<lparr>mb_info := (mb_info d)[0 := (mb_info d ! 0)\<lparr>nz := 0, nz_dc := 0\<rparr>], intra_l := blit (intra_l d) 0 4 (\<lambda>_. 0), mb_x := 0\<rparr>)"
proof -
  have "inb (intra_l d) 0 4" using assms(1) by (simp add: inb_def)
  from memset_ok[OF this, of 0] have m: "memset (intra_l d) 0 0 4 = Some (blit (intra_l d) 0 4 (\<lambda>_. 0))" .
  obtain b bs where mi: "mb_info d = b # bs" using assms(2) by (cases "mb_info d") auto
  show ?thesis unfolding VP8InitScanline_def m by (simp add: mi ld_def st_def)
qed

text \<open>The state of the decoder between two rows.\<close>

definition rows_ready :: "VP8Encoder \<Rightarrow> EncModes \<Rightarrow> (nat \<Rightarrow> nat \<Rightarrow> mb_code) \<Rightarrow> nat \<Rightarrow> nat \<Rightarrow> VP8QuantMatrix list \<Rightarrow> VP8Decoder \<Rightarrow> bool" where
  "rows_ready enc em D P Y Q d \<longleftrightarrow> modes_ready enc em Y d \<and> flags_at D (nat (em_mb_w em)) Y 0 (mb_info d) \<and> mb_x d = 0 \<and>
     same_probas enc (proba d) \<and> filters_ready d \<and> dqm d = Q \<and> num_parts_minus_one d = of_nat (P - 1) \<and> P \<le> length (parts d)"

definition frame_coded :: "VP8Encoder \<Rightarrow> EncModes \<Rightarrow> (nat \<Rightarrow> nat \<Rightarrow> mb_code) \<Rightarrow> nat \<Rightarrow> VP8QuantMatrix list \<Rightarrow> bool" where
  "frame_coded enc em D P Q \<longleftrightarrow> modes_ok em \<and> mode_probas_ok enc \<and> coder_probas_ok enc \<and> part_count P \<and> length Q = 4 \<and> (\<forall>q\<in>set Q. steps_ok q) \<and>
     (\<exists>infos. D = mb_code_of enc em infos \<and> (\<forall>Y<nat (em_mb_h em). \<forall>X<nat (em_mb_w em). code_ready (D Y X)))"

lemma mb_ready_modes:
  assumes "frame_coded enc em D P Q" "Y < nat (em_mb_h em)" "X < nat (em_mb_w em)" "same_modes_header enc d" "dqm d = Q" "same_modes enc em Y X b"
  shows "mb_ready d (D Y X) (Q ! nat (md_segment b)) b"
proof -
  obtain infos where D: "D = mb_code_of enc em infos" "code_ready (D Y X)" using assms(1-3) by (auto simp: frame_coded_def)
  obtain i16 sk rd where c: "D Y X = (i16, sk, rd)" by (cases "D Y X")
  let ?mb = "em_mb_info em ! (Y * nat (em_mb_w em) + X)"
  have i: "i16 = (mb_type ?mb = 1)" "sk = (mb_skip ?mb \<noteq> 0 \<and> e_use_skip_proba (e_proba enc) \<noteq> 0)"
    using c unfolding D(1) mb_code_of_def by (simp_all add: Let_def)
  have "modes_ok em" using assms(1) by (simp add: frame_coded_def)
  from modes_okD(3)[OF this assms(2,3)] have f: "mb_type ?mb = 0 \<or> mb_type ?mb = 1" "0 \<le> mb_segment ?mb" "mb_segment ?mb < 4"
    by (auto simp: mb_fields_ok_def)
  have s: "md_segment b = (if e_update_map (e_segment_hdr enc) \<noteq> 0 then mb_segment ?mb else 0)" "md_is_i4x4 b = 1 - mb_type ?mb"
    "e_use_skip_proba (e_proba enc) \<noteq> 0 \<longrightarrow> md_skip b = mb_skip ?mb" using assms(6) by (auto simp: same_modes_def Let_def)
  have h: "use_skip_proba d \<noteq> 0 \<longleftrightarrow> e_use_skip_proba (e_proba enc) \<noteq> 0" using assms(4) by (simp add: same_modes_header_def)
  have seg: "0 \<le> md_segment b" "md_segment b < 4" using s(1) f by simp_all
  have Q: "length Q = 4" "\<forall>q\<in>set Q. steps_ok q" using assms(1) by (simp_all add: frame_coded_def)
  have "nat (md_segment b) < length Q" using seg Q(1) by linarith
  then have q: "ld Q (md_segment b) = Some (Q ! nat (md_segment b))" "steps_ok (Q ! nat (md_segment b))" using seg Q by (simp_all add: ld_def)
  have "md_is_i4x4 b = of_bool (\<not> i16)" using s(2) f(1) i(1) by auto
  moreover have "sk \<longleftrightarrow> use_skip_proba d \<noteq> 0 \<and> md_skip b \<noteq> 0" using i(2) s(3) h by auto
  ultimately show ?thesis using D(2) seg q assms(5) unfolding c mb_ready_def by simp
qed

lemma with_residuals_fields:
  "md_segment (with_residuals q i16 rd b) = md_segment b" "md_imodes (with_residuals q i16 rd b) = md_imodes b"
  "md_is_i4x4 (with_residuals q i16 rd b) = md_is_i4x4 b" "md_skip (with_residuals q i16 rd b) = md_skip b" "md_uvmode (with_residuals q i16 rd b) = md_uvmode b"
  unfolding with_residuals_def Let_def by simp_all

lemma with_code_fields:
  "md_segment (with_code q c b) = md_segment b" "md_imodes (with_code q c b) = md_imodes b"
  "md_is_i4x4 (with_code q c b) = md_is_i4x4 b" "md_skip (with_code q c b) = md_skip b" "md_uvmode (with_code q c b) = md_uvmode b"
  by (cases c; simp add: with_code_def with_residuals_fields)+

lemma same_modes_with_code: "same_modes enc em Y X (with_code q c b) = same_modes enc em Y X b"
  by (simp only: same_modes_def with_code_fields)

lemma same_residuals_with_code:
  assumes "code_ready c" "q = Q ! nat (md_segment b)"
  shows "same_residuals Q c (with_code q c b)"
proof -
  obtain i16 sk rd where c: "c = (i16, sk, rd)" by (cases c)
  show ?thesis
  proof (cases sk)
    case True
    then show ?thesis by (simp add: c same_residuals_def with_code_def)
  next
    case False
    then have "levels_of_ok i16 rd" using assms(1) by (simp add: c code_ready_def)
    from decoded_with_residuals[OF this, of q b] False assms(2) show ?thesis
      unfolding c same_residuals_def with_code_def prod.case by (simp only: if_False with_residuals_fields)
  qed
qed


lemma part_index: "part_count P \<Longrightarrow> uint ((word_of_int (int Y) :: u32) AND of_nat (P - 1)) = int (Y mod P)"
proof -
  have "uint ((word_of_int (int Y) :: u32) AND mask n) = int (Y mod 2 ^ n)" if "n < 32" for n
  proof -
    have "uint ((word_of_int (int Y) :: u32) AND mask n) = take_bit n (take_bit 32 (int Y))"
      by (simp add: unsigned_take_bit_eq unsigned_of_nat of_nat_take_bit flip: take_bit_eq_mask)
    also have "\<dots> = take_bit n (int Y)" using that by (simp add: take_bit_take_bit)
    finally show ?thesis by (simp add: take_bit_eq_mod zmod_int)
  qed
  from this[of 0] this[of 1] this[of 2] this[of 3] show "part_count P \<Longrightarrow> uint ((word_of_int (int Y) :: u32) AND of_nat (P - 1)) = int (Y mod P)"
    by (auto simp: part_count_def mask_numeral)
qed

lemma flags_at_next_row:
  assumes "flags_at D W Y W mi"
  shows "flags_at D W (Suc Y) 0 (mi[0 := (mi ! 0)\<lparr>nz := 0, nz_dc := 0\<rparr>])"
proof -
  have "holds_flags (b\<lparr>nz := 0, nz_dc := 0\<rparr>) (replicate 9 False)" for b
    using flags_zeros[of "[]" 8] by (simp add: holds_flags_def)
  then show ?thesis using assms by (simp add: flags_at_def)
qed

lemma parse_row_step:
  assumes fc: "frame_coded enc em D P Q" and Y: "Y < nat (em_mb_h em)" and rr: "rows_ready enc em D P Y Q d"
    and y: "mb_y d = int Y" "br_mb_y d = em_mb_h em"
    and r0: "reading mem bs0 (dec_br d) (row_symbols enc em Y @ xs0)"
    and rp: "reading mem bs1 (parts d ! (Y mod P)) (row_tokens enc D (nat (em_mb_w em)) Y @ xs1)"
  shows "\<exists>row br1 d'. parse_rows alt mem rows d = parse_rows alt mem (rows @ [row]) d' \<and> same_row enc em D Q Y row \<and>
    mb_y d' = int (Suc Y) \<and> br_mb_y d' = em_mb_h em \<and> reading mem bs0 (dec_br d') xs0 \<and>
    parts d' = (parts d)[Y mod P := br1] \<and> reading mem bs1 br1 xs1 \<and> (Suc Y < nat (em_mb_h em) \<longrightarrow> rows_ready enc em D P (Suc Y) Q d')"
proof -
  let ?W = "nat (em_mb_w em)" and ?p = "Y mod P"
  have ok: "modes_ok em" "mode_probas_ok enc" "coder_probas_ok enc" "part_count P" using fc by (simp_all add: frame_coded_def)
  have P: "0 < P" "?p < P" using ok(4) by (auto simp: part_count_def)
  have rd: "modes_ready enc em Y d" "flags_at D ?W Y 0 (mb_info d)" "mb_x d = 0" "same_probas enc (proba d)" "filters_ready d" "dqm d = Q"
    "num_parts_minus_one d = of_nat (P - 1)" "P \<le> length (parts d)" using rr by (simp_all add: rows_ready_def)
  have w: "mb_w d = em_mb_w em" "same_modes_header enc d" using rd(1) by (simp_all add: modes_ready_def)
  have W: "em_mb_w em = int ?W" using modes_ok_nz(2)[OF ok(1)] by simp
  have k: "uint ((word_of_int (mb_y d) :: u32) AND num_parts_minus_one d) = int ?p"
    unfolding y(1) rd(7) by (rule part_index[OF ok(4)])
  obtain d1 where d1: "row_read enc em Y d d1"
    "parses False mem bs0 (\<lambda>br. VP8ParseIntraModeRow mem (d\<lparr>dec_br := br\<rparr>)) (row_symbols enc em Y) (\<lambda>br. (1, d1\<lparr>dec_br := br\<rparr>))"
    using parses_VP8ParseIntraModeRow[OF ok(1,2) Y rd(1)] by blast
  from reading_step[OF d1(2) r0] obtain br0 where
    m: "VP8ParseIntraModeRow mem d = Some (1, d1\<lparr>dec_br := br0\<rparr>)" "reading mem bs0 br0 xs0" by auto
  from d1(1) obtain tp lft bs where cx: "context_ok em Y ?W tp lft" "d1 = d\<lparr>intra_t := tp, intra_l := lft, mb_data := bs\<rparr>"
    "length bs = ?W" "\<forall>b\<in>set bs. length (md_imodes b) = 16" "\<forall>X<?W. same_modes enc em Y X (bs ! X)"
    unfolding row_read_def by blast
  let ?d1 = "d1\<lparr>dec_br := br0\<rparr>" and ?q = "\<lambda>i. Q ! nat (md_segment (bs ! i))"
  have h1: "same_modes_header enc ?d1" "dqm ?d1 = Q" using w(2) rd(6) by (simp_all add: cx(2) same_modes_header_def)
  have b: "mb_ready ?d1 (D Y i) (?q i) (bs ! i)" if "i < ?W" for i
    using mb_ready_modes[OF fc Y that h1] cx(5) that by blast
  have s1: "same_probas enc (proba ?d1)" "filters_ready ?d1" "mb_w ?d1 = int ?W" "mb_x ?d1 = int 0" "mb_data ?d1 = with_codes ?q (D Y) 0 bs"
    "flags_at D ?W Y 0 (mb_info ?d1)"
    using rd w W by (simp_all add: cx(2) with_codes_simps filters_ready_def)
  from parses_decode_mbs[OF ok(3) s1(1-3) b cx(3) s1(4) le0 s1(5,6), of False mem bs1 alt] obtain mi fi where
    mb: "flags_at D ?W Y ?W mi" "length fi = length (f_info ?d1)"
    "parses False mem bs1 (decode_mbs alt mem ?d1) (row_tokens enc D ?W Y)
      (\<lambda>br. (True, ?d1\<lparr>mb_x := int ?W, mb_info := mi, mb_data := with_codes ?q (D Y) ?W bs, f_info := fi\<rparr>, br))"
    unfolding row_tokens_def by blast
  from reading_step[OF mb(3) rp] obtain br1 where
    t: "decode_mbs alt mem ?d1 (parts d ! ?p) = Some (True, ?d1\<lparr>mb_x := int ?W, mb_info := mi, mb_data := with_codes ?q (D Y) ?W bs, f_info := fi\<rparr>, br1)"
      "reading mem bs1 br1 xs1" by blast
  let ?row = "with_codes ?q (D Y) ?W bs"
  let ?d2 = "?d1\<lparr>mb_x := int ?W, mb_info := mi, mb_data := ?row, f_info := fi, parts := (parts d)[?p := br1]\<rparr>"
  have l: "length (intra_l ?d2) = 4" "mb_info ?d2 \<noteq> []" using cx(1,2) mb(1) by (auto simp: context_ok_def flags_at_def)
  let ?d3 = "?d2\<lparr>mb_info := mi[0 := (mi ! 0)\<lparr>nz := 0, nz_dc := 0\<rparr>], intra_l := blit lft 0 4 (\<lambda>_. 0), mb_x := 0\<rparr>"
  have sc: "VP8InitScanline ?d2 = Some ?d3" using InitScanline_eq[OF l] by (simp add: cx(2))
  have lp: "ld (parts ?d1) (int ?p) = Some (parts d ! ?p)" "st (parts d) (int ?p) br1 = Some ((parts d)[?p := br1])"
    using P(2) rd(8) by (simp_all add: cx(2) ld_nat st_nat del: zmod_int)
  have lt: "mb_y d < br_mb_y d" using y Y by simp
  have step: "parse_rows alt mem rows d = parse_rows alt mem (rows @ [?row]) (?d3\<lparr>mb_y := int (Suc Y)\<rparr>)"
  proof -
    have "(?d1\<lparr>mb_x := int ?W, mb_info := mi, mb_data := ?row, f_info := fi\<rparr>)\<lparr>parts := (parts d)[?p := br1]\<rparr> = ?d2" by simp
    moreover have "?d3\<lparr>mb_y := mb_y ?d3 + 1\<rparr> = ?d3\<lparr>mb_y := int (Suc Y)\<rparr>" using y(1) by (simp add: cx(2))
    moreover have "parts (?d1\<lparr>mb_x := int ?W, mb_info := mi, mb_data := ?row, f_info := fi\<rparr>) = parts d" "mb_data ?d2 = ?row" by (simp_all add: cx(2))
    ultimately show ?thesis
      by (subst parse_rows.simps) (simp only: lt if_True k Let_def m(1) Option.bind.simps prod.case one_neq_zero if_False lp t(1) not_True_eq_False sc)
  qed
  have sr: "same_row enc em D Q Y ?row"
    unfolding same_row_def
  proof (intro conjI allI impI)
    fix X assume X: "X < ?W"
    have r: "?row ! X = with_code (?q X) (D Y X) (bs ! X)" using X cx(3) by (simp add: with_codes_simps)
    show "same_modes enc em Y X (?row ! X)" using cx(5) X by (simp add: r same_modes_with_code)
    have "code_ready (D Y X)" using fc X Y by (auto simp: frame_coded_def)
    then show "same_residuals Q (D Y X) (?row ! X)" unfolding r by (rule same_residuals_with_code) simp
  qed (simp add: with_codes_simps cx(3))
  have nx: "rows_ready enc em D P (Suc Y) Q (?d3\<lparr>mb_y := int (Suc Y)\<rparr>)" if "Suc Y < nat (em_mb_h em)"
  proof -
    let ?e = "d\<lparr>intra_t := tp, intra_l := lft, mb_data := ?row\<rparr>"
    have im: "\<forall>b\<in>set ?row. length (md_imodes b) = 16" using cx(3,4) by (auto simp: with_codes_def with_code_fields)
    have r1: "row_read enc em Y d ?e"
      unfolding row_read_def using cx(1,3) im sr by (intro exI[of _ tp] exI[of _ lft] exI[of _ ?row]) (simp add: with_codes_simps same_row_def)
    have r2: "intra_t ?d2 = intra_t ?e" "mb_data ?d2 = mb_data ?e" "same_modes_header enc ?d2" "mb_w ?d2 = mb_w d"
      using w(2) by (simp_all add: cx(2) same_modes_header_def)
    from InitScanline_ready[OF ok(1) that rd(1) r1 r2(1) l(1) r2(2) l(2) r2(3,4), unfolded sc] have "modes_ready enc em (Suc Y) ?d3" by blast
    then have "modes_ready enc em (Suc Y) (?d3\<lparr>mb_y := int (Suc Y)\<rparr>)" by (simp add: modes_ready_def same_modes_header_def)
    then show ?thesis using rd(4-8) flags_at_next_row[OF mb(1)] mb(2) by (simp add: rows_ready_def cx(2) filters_ready_def)
  qed
  show ?thesis
    by (intro exI[of _ ?row] exI[of _ br1] exI[of _ "?d3\<lparr>mb_y := int (Suc Y)\<rparr>"] conjI step sr impI nx t(2)) (simp_all add: cx(2) y(2) m(2))
qed


lemma parse_rows_ok:
  assumes fc: "frame_coded enc em D P Q" and "Y \<le> nat (em_mb_h em)" "Y < nat (em_mb_h em) \<Longrightarrow> rows_ready enc em D P Y Q d"
    and "mb_y d = int Y" "br_mb_y d = em_mb_h em" "P \<le> length (parts d)"
    and "reading mem bs0 (dec_br d) (concat (map (row_symbols enc em) [Y..<nat (em_mb_h em)]))"
    and "\<And>p. p < P \<Longrightarrow> reading mem (bss p) (parts d ! p) (tokens_from enc D (nat (em_mb_w em)) (nat (em_mb_h em)) P p Y)"
  shows "\<exists>rs d'. parse_rows alt mem rows d = Some (1, rows @ rs, d') \<and> length rs = nat (em_mb_h em) - Y \<and>
    (\<forall>i<nat (em_mb_h em) - Y. same_row enc em D Q (Y + i) (rs ! i))"
  using assms(2-)
proof (induction "nat (em_mb_h em) - Y" arbitrary: Y d rows)
  case 0
  then have "\<not> mb_y d < br_mb_y d" by linarith
  then show ?case using 0 by (subst parse_rows.simps) simp
next
  case (Suc n)
  let ?W = "nat (em_mb_w em)" and ?H = "nat (em_mb_h em)"
  have Y: "Y < ?H" using Suc.hyps(2) by simp
  have "part_count P" using fc by (simp add: frame_coded_def)
  then have P: "Y mod P < P" by (auto simp: part_count_def)
  have r0: "reading mem bs0 (dec_br d) (row_symbols enc em Y @ concat (map (row_symbols enc em) [Suc Y..<?H]))"
    using Suc.prems(6) Y by (simp add: upt_conv_Cons)
  have rp: "reading mem (bss (Y mod P)) (parts d ! (Y mod P)) (row_tokens enc D ?W Y @ tokens_from enc D ?W ?H P (Y mod P) (Suc Y))"
    using Suc.prems(7)[OF P] tokens_from_step[OF Y, of enc D ?W P "Y mod P"] by simp
  from parse_row_step[OF fc Y Suc.prems(2)[OF Y] Suc.prems(3,4) r0 rp, of alt rows] obtain row br1 d' where
    s: "parse_rows alt mem rows d = parse_rows alt mem (rows @ [row]) d'" "same_row enc em D Q Y row" "mb_y d' = int (Suc Y)" "br_mb_y d' = em_mb_h em"
      "reading mem bs0 (dec_br d') (concat (map (row_symbols enc em) [Suc Y..<?H]))" "parts d' = (parts d)[Y mod P := br1]"
      "reading mem (bss (Y mod P)) br1 (tokens_from enc D ?W ?H P (Y mod P) (Suc Y))" "Suc Y < ?H \<longrightarrow> rows_ready enc em D P (Suc Y) Q d'"
    by blast
  have parts: "reading mem (bss p) (parts d' ! p) (tokens_from enc D ?W ?H P p (Suc Y))" if "p < P" for p
    using Suc.prems(7)[OF that] tokens_from_step[OF Y, of enc D ?W P p] s(6,7) Suc.prems(5) that by (cases "p = Y mod P") simp_all
  have "\<exists>rs d''. parse_rows alt mem (rows @ [row]) d' = Some (1, (rows @ [row]) @ rs, d'') \<and> length rs = ?H - Suc Y \<and>
      (\<forall>i<?H - Suc Y. same_row enc em D Q (Suc Y + i) (rs ! i))"
    by (rule Suc.hyps(1)) (use Suc.hyps(2) Y Suc.prems(5) s parts in \<open>simp_all\<close>)
  then obtain rs d'' where r: "parse_rows alt mem (rows @ [row]) d' = Some (1, (rows @ [row]) @ rs, d'')" "length rs = ?H - Suc Y"
    "\<forall>i<?H - Suc Y. same_row enc em D Q (Suc Y + i) (rs ! i)" by blast
  have "same_row enc em D Q (Y + i) ((row # rs) ! i)" if "i < ?H - Y" for i
    using s(2) r(3) that by (cases i) simp_all
  then show ?case using s(1) r(1,2) Y by (intro exI[of _ "row # rs"] exI[of _ d'']) simp
qed

lemma part_tokens_rows: "0 < W \<Longrightarrow> part_tokens enc D W P p (W * H) = tokens_from enc D W H P p 0"
proof (induction H)
  case (Suc H)
  have r: "concat (map (\<lambda>k. mb_tokens enc D (k div W) (k mod W)) (filter (\<lambda>k. k div W mod P = p) [W * H..<W * H + n])) =
      (if H mod P = p then concat (map (mb_tokens enc D H) [0..<n]) else [])" if "n \<le> W" for n
    using that
  proof (induction n)
    case (Suc n)
    then have "(W * H + n) div W = H" "(W * H + n) mod W = n" by simp_all
    then show ?case using Suc by simp
  qed simp
  have "[0..<W * Suc H] = [0..<W * H] @ [W * H..<W * H + W]"
    using upt_add_eq_append[of 0 "W * H" W] by (simp only: mult_Suc_right add.commute[of W] le0 simp_thms)
  then have "part_tokens enc D W P p (W * Suc H) = part_tokens enc D W P p (W * H) @ (if H mod P = p then row_tokens enc D W H else [])"
    using r[of W] by (simp add: part_tokens_def row_tokens_def)
  moreover have "tokens_from enc D W (Suc H) P p 0 = tokens_from enc D W H P p 0 @ (if H mod P = p then row_tokens enc D W H else [])"
    by (simp add: tokens_from_def)
  ultimately show ?case using Suc by simp
qed (simp add: part_tokens_def tokens_from_def)

end
