(* ===== verification/Picture.thy ===== *)
theory Picture
  imports Bool_Writer
begin

section \<open>The picture of the encoder and its writers\<close>

text \<open>
  What the encoder needs of a WebPPicture (src/webp/encode.h, src/enc/webp_enc.c, src/enc/picture_enc.c): the dimensions,
  the error code and the function through which the bytes of the file leave. The functions of the user are arguments; the
  locale \<open>picture_writer\<close> is their contract, and WebPMemoryWrite satisfies it.
\<close>

unbundle bit_operations_syntax

datatype WebPEncodingError = VP8_ENC_OK | VP8_ENC_ERROR_OUT_OF_MEMORY | VP8_ENC_ERROR_BITSTREAM_OUT_OF_MEMORY
  | VP8_ENC_ERROR_NULL_PARAMETER | VP8_ENC_ERROR_INVALID_CONFIGURATION | VP8_ENC_ERROR_BAD_DIMENSION
  | VP8_ENC_ERROR_PARTITION0_OVERFLOW | VP8_ENC_ERROR_PARTITION_OVERFLOW | VP8_ENC_ERROR_BAD_WRITE
  | VP8_ENC_ERROR_FILE_TOO_BIG | VP8_ENC_ERROR_USER_ABORT | VP8_ENC_ERROR_LAST

text \<open>\<open>p_custom\<close> is the object behind \<open>custom_ptr\<close>, which the functions of the user may change.\<close>

record 'o WebPPicture =
  p_width :: int
  p_height :: int
  p_error_code :: WebPEncodingError
  p_custom :: 'o

type_synonym 'o WebPWriterFunction = "u8 list \<Rightarrow> 'o \<Rightarrow> (int \<times> 'o) option"

type_synonym 'o WebPProgressHook = "int \<Rightarrow> 'o \<Rightarrow> (int \<times> 'o) option"

definition WebPEncodingSetError :: "'o WebPPicture \<Rightarrow> WebPEncodingError \<Rightarrow> (int \<times> 'o WebPPicture) option" where
  "WebPEncodingSetError pic err = do {
     require (err \<noteq> VP8_ENC_ERROR_LAST);
     Some (0, if p_error_code pic = VP8_ENC_OK then pic\<lparr>p_error_code := err\<rparr> else pic) }"

text \<open>The results are the value, the picture and \<open>*percent_store\<close>; a missing hook or store is \<open>None\<close>.\<close>

definition WebPReportProgress :: "'o WebPProgressHook option \<Rightarrow> 'o WebPPicture \<Rightarrow> int \<Rightarrow> int option \<Rightarrow> (int \<times> 'o WebPPicture \<times> int option) option" where
  "WebPReportProgress hook pic percent store =
     (if store \<noteq> None \<and> store \<noteq> Some percent then
        (case hook of
           None \<Rightarrow> Some (1, pic, Some percent)
         | Some f \<Rightarrow> do {
             (r, c) \<leftarrow> f percent (p_custom pic);
             let pic = pic\<lparr>p_custom := c\<rparr>;
             (if r = 0 then do {
                (r, pic) \<leftarrow> WebPEncodingSetError pic VP8_ENC_ERROR_USER_ABORT;
                Some (r, pic, Some percent) }
              else Some (1, pic, Some percent)) })
      else Some (1, pic, store))"

definition pic_write :: "'o WebPWriterFunction \<Rightarrow> u8 list \<Rightarrow> 'o WebPPicture \<Rightarrow> (int \<times> 'o WebPPicture) option" where
  "pic_write writer data pic = do {
     (r, c) \<leftarrow> writer data (p_custom pic);
     Some (r, pic\<lparr>p_custom := c\<rparr>) }"

subsection \<open>Writing to memory\<close>

text \<open>\<open>None\<close> is a null pointer.\<close>

record WebPMemoryWriter =
  mw_mem :: "u8 list option"
  mw_size :: u64
  mw_max_size :: u64

definition WebPMemoryWriterInit :: "WebPMemoryWriter \<Rightarrow> WebPMemoryWriter" where
  "WebPMemoryWriterInit w = w\<lparr>mw_mem := None, mw_size := 0, mw_max_size := 0\<rparr>"

definition WebPMemoryWriterClear :: "WebPMemoryWriter option \<Rightarrow> WebPMemoryWriter option" where
  "WebPMemoryWriterClear = map_option (\<lambda>w. w\<lparr>mw_mem := None, mw_size := 0, mw_max_size := 0\<rparr>)"

text \<open>\<open>memcpy\<close> of \<open>data\<close> to the position \<open>p\<close> of a buffer.\<close>

definition copy_to :: "u8 list option \<Rightarrow> int \<Rightarrow> u8 list \<Rightarrow> u8 list option" where
  "copy_to buf p data = do {
     m \<leftarrow> buf;
     for_range 0 (length data) (\<lambda>i m. do { v \<leftarrow> ld data (int i); st m (p + int i) v }) m }"

text \<open>The part of WebPMemoryWrite that makes room.\<close>

definition mw_grow :: "allocator \<Rightarrow> WebPMemoryWriter \<Rightarrow> u64 \<Rightarrow> (int \<times> WebPMemoryWriter) option" where
  "mw_grow malloc w next_size =
     (if next_size > mw_max_size w then do {
        let next_max_size = 2 * mw_max_size w;
        let next_max_size = (if next_max_size < next_size then next_size else next_max_size);
        let next_max_size = (if next_max_size < 8192 then 8192 else next_max_size);
        new_mem \<leftarrow> WebPSafeMalloc malloc next_max_size 1;
        (case new_mem of
           None \<Rightarrow> Some (0, w)
         | Some _ \<Rightarrow> do {
             mem \<leftarrow> (if mw_size w > 0 then do {
                       m \<leftarrow> mw_mem w;
                       m \<leftarrow> (if unat (mw_size w) \<le> length m then Some (take (unat (mw_size w)) m) else None);
                       copy_to new_mem 0 m }
                     else new_mem);
             Some (1, w\<lparr>mw_mem := Some mem, mw_max_size := next_max_size\<rparr>) }) }
      else Some (1, w))"

definition WebPMemoryWrite :: "allocator \<Rightarrow> u8 list \<Rightarrow> WebPMemoryWriter option \<Rightarrow> (int \<times> WebPMemoryWriter option) option" where
  "WebPMemoryWrite malloc data custom =
     (case custom of
        None \<Rightarrow> Some (1, None)
      | Some w \<Rightarrow> do {
          let data_size = (of_nat (length data) :: u64);
          (ok, w) \<leftarrow> mw_grow malloc w (mw_size w + data_size);
          (if ok = 0 then Some (0, Some w)
           else if data_size > 0 then do {
             mem \<leftarrow> copy_to (mw_mem w) (uint (mw_size w)) data;
             Some (1, Some (w\<lparr>mw_mem := Some mem, mw_size := mw_size w + data_size\<rparr>)) }
           else Some (1, Some w)) })"

subsection \<open>The contract of a writer\<close>

text \<open>
  \<open>content\<close> is what has been written so far, and \<open>room c n\<close> says that \<open>n\<close> more bytes can be written. A writer appends
  its data and reports success as long as there is room.
\<close>

locale picture_writer =
  fixes writer :: "'o WebPWriterFunction" and content :: "'o \<Rightarrow> u8 list" and room :: "'o \<Rightarrow> nat \<Rightarrow> bool"
  assumes appends: "room c n \<Longrightarrow> length data \<le> n \<Longrightarrow>
      \<exists>r c'. writer data c = Some (r, c') \<and> r \<noteq> 0 \<and> content c' = content c @ data \<and> room c' (n - length data)"
begin

text \<open>The contract for a picture: only the object behind \<open>custom_ptr\<close> changes.\<close>

lemma write_ok:
  assumes "room (p_custom pic) n" "length data \<le> n"
  shows "\<exists>r c. pic_write writer data pic = Some (r, pic\<lparr>p_custom := c\<rparr>) \<and> r \<noteq> 0 \<and> content c = content (p_custom pic) @ data \<and>
    room c (n - length data)"
  using appends[OF assms] by (auto simp: pic_write_def)

end

lemma copy_to_ok:
  assumes "0 \<le> p" "nat p + length data \<le> length m"
  shows "copy_to (Some m) p data = Some (take (nat p) m @ data @ drop (nat p + length data) m)"
proof -
  let ?I = "\<lambda>i t. t = take (nat p) m @ take i data @ drop (nat p + i) m"
  have "\<exists>t. for_range 0 (length data) (\<lambda>i m. do { v \<leftarrow> ld data (int i); st m (p + int i) v }) m = Some t \<and> ?I (length data) t"
  proof (rule for_range_inv[where I = ?I])
    fix i t assume i: "i < length data" and t: "?I i t"
    have "nat p + i < length m" using i assms(2) by simp
    then have d: "drop (nat p + i) m = m ! (nat p + i) # drop (Suc (nat p + i)) m" by (rule Cons_nth_drop_Suc[symmetric])
    have l: "length (take (nat p) m @ take i data) = nat p + i" using i assms(2) by simp
    have n: "nat (p + int i) = nat p + i" "p + int i < int (length m)" using assms i by (simp_all add: nat_add_distrib)
    have "st t (p + int i) (data ! i) = Some (t[nat p + i := data ! i])"
      using t n(2) assms i by (simp add: st_def n(1))
    moreover have "t[nat p + i := data ! i] = take (nat p) m @ take (Suc i) data @ drop (nat p + Suc i) m"
      using l i by (simp add: t d list_update_append take_Suc_conv_app_nth flip: append_assoc)
    ultimately show "\<exists>t'. do { v \<leftarrow> ld data (int i); st t (p + int i) v } = Some t' \<and> ?I (Suc i) t'"
      using i by (simp add: ld_nat)
  qed simp_all
  then show ?thesis by (simp add: copy_to_def)
qed

definition mw_ok :: "WebPMemoryWriter \<Rightarrow> bool" where
  "mw_ok w \<longleftrightarrow> (case mw_mem w of Some m \<Rightarrow> length m = unat (mw_max_size w) | None \<Rightarrow> mw_max_size w = 0) \<and>
     mw_size w \<le> mw_max_size w \<and> uint (mw_max_size w) \<le> 2 ^ 33"

definition mw_content :: "WebPMemoryWriter option \<Rightarrow> u8 list" where
  "mw_content c = (case c of None \<Rightarrow> [] | Some w \<Rightarrow> (case mw_mem w of None \<Rightarrow> [] | Some m \<Rightarrow> take (unat (mw_size w)) m))"

definition mw_room :: "WebPMemoryWriter option \<Rightarrow> nat \<Rightarrow> bool" where
  "mw_room c n \<longleftrightarrow> (\<exists>w. c = Some w \<and> mw_ok w \<and> unat (mw_size w) + n \<le> 2 ^ 32)"

lemma mw_init: "mw_room (Some (WebPMemoryWriterInit w)) n \<longleftrightarrow> n \<le> 2 ^ 32" "mw_content (Some (WebPMemoryWriterInit w)) = []"
  by (auto simp: mw_room_def mw_ok_def mw_content_def WebPMemoryWriterInit_def)

lemma WebPSafeMalloc_bytes:
  assumes "malloc_ok malloc" "0 < n" "uint n \<le> 2 ^ 34"
  shows "\<exists>bs. WebPSafeMalloc malloc n 1 = Some (Some bs) \<and> length bs = unat n"
proof -
  have p: "0 < uint n" using assms(2) by (simp add: word_less_def)
  have "uint n div uint n \<le> 2 ^ 34 div uint n" using assms(3) p by (rule zdiv_mono1)
  then have "1 \<le> (2 ^ 34 :: int) div uint n" using p by simp
  then have "\<not> 1 > WEBP_MAX_ALLOCABLE_MEMORY div n" 
    unfolding word_less_def uint_div_distrib by (simp add: WEBP_MAX_ALLOCABLE_MEMORY_def)
  then have "CheckSizeArgumentsOverflow n 1" by (simp add: CheckSizeArgumentsOverflow_def CheckSizeOverflow_def)
  moreover have "0 < unat n" "unat n \<le> 2 ^ 34" using p assms(3) by (simp_all flip: nat_uint_eq)
  ultimately show ?thesis using assms(1,2) unfolding malloc_ok_def WebPSafeMalloc_def by auto
qed

text \<open>The buffer that a write copies to: the old contents, with space for the new data behind it.\<close>

lemma grow_ok:
  assumes m: "malloc_ok malloc" and w: "mw_ok w" and n: "unat (mw_size w) + k \<le> 2 ^ 32"
  shows "\<exists>w' mem. mw_grow malloc w (mw_size w + of_nat k) = Some (1, w') \<and> mw_size w' = mw_size w \<and> mw_content (Some w') = mw_content (Some w) \<and>
      mw_ok w' \<and> unat (mw_size w) + k \<le> unat (mw_max_size w') \<and> (0 < k \<longrightarrow> mw_mem w' = Some mem \<and> length mem = unat (mw_max_size w'))"
proof -
  let ?s = "unat (mw_size w)" and ?x = "unat (mw_max_size w)"
  have ks: "unat (of_nat k :: u64) = k" using n by (simp add: unsigned_of_nat take_bit_nat_eq_self)
  have ns: "unat (mw_size w + of_nat k) = ?s + k" using n ks by (simp add: unat_word_ariths)
  have sx: "?s \<le> ?x" "int ?x \<le> 2 ^ 33" using w by (auto simp: mw_ok_def word_le_nat_alt)
  show ?thesis
  proof (cases "mw_size w + of_nat k > mw_max_size w")
    case False
    then have "?s + k \<le> ?x" using ns by (simp add: word_less_nat_alt)
    moreover from this have "0 < k \<Longrightarrow> mw_mem w \<noteq> None" using w by (auto simp: mw_ok_def split: option.splits)
    ultimately show ?thesis using False w by (intro exI[of _ w] exI[of _ "the (mw_mem w)"]) (auto simp: mw_grow_def mw_ok_def)
  next
    case True
    then have x: "?x < ?s + k" using ns by (simp add: word_less_nat_alt)
    define a where "a = (if 2 * mw_max_size w < mw_size w + of_nat k then mw_size w + of_nat k else 2 * mw_max_size w)"
    define N where "N = (if a < 8192 then 8192 else a)"
    have "unat (2 * mw_max_size w) = 2 * ?x" using x n by (simp add: unat_word_ariths)
    then have a: "?s + k \<le> unat a" "unat a \<le> 2 ^ 33" using ns x n by (simp_all add: a_def word_less_nat_alt)
    have N: "?s + k \<le> unat N" "unat N \<le> 2 ^ 33" "0 < unat N"
      using a by (simp_all add: N_def word_less_nat_alt)
    have "int (unat N) \<le> int (2 ^ 33)" using N(2) by (simp only: of_nat_le_iff)
    then have uN: "0 < N" "uint N \<le> 2 ^ 33" "uint N \<le> 2 ^ 34" using N(3) by (simp_all add: word_less_nat_alt)
    from WebPSafeMalloc_bytes[OF m uN(1,3)] obtain bs where bs: "WebPSafeMalloc malloc N 1 = Some (Some bs)" "length bs = unat N" by blast
    obtain mem where mem: "(if mw_size w > 0 then do {
                              m \<leftarrow> mw_mem w;
                              m \<leftarrow> (if unat (mw_size w) \<le> length m then Some (take (unat (mw_size w)) m) else None);
                              copy_to (Some bs) 0 m }
                            else Some bs) = Some mem" "length mem = unat N" "take ?s mem = mw_content (Some w)"
    proof (cases "mw_size w > 0")
      case True
      then have "0 < ?s" by (simp add: word_less_nat_alt)
      then obtain b where b: "mw_mem w = Some b" "length b = ?x" using w sx by (cases "mw_mem w") (auto simp: mw_ok_def)
      have l: "length (take ?s b) = ?s" using b(2) sx by simp
      have "copy_to (Some bs) 0 (take ?s b) = Some (take ?s b @ drop ?s bs)" using copy_to_ok[of 0 "take ?s b" bs] N(1) bs(2) l by simp
      then show ?thesis using True b sx N(1) bs(2) l by (intro that[of "take ?s b @ drop ?s bs"]) (simp_all add: mw_content_def)
    next
      case False
      then have "?s = 0" by (simp add: word_less_nat_alt)
      with False bs show ?thesis by (intro that[of bs]) (simp_all add: mw_content_def split: option.splits)
    qed
    let ?w = "w\<lparr>mw_mem := Some mem, mw_max_size := N\<rparr>"
    have "mw_ok ?w" using mem(2) N(1) uN(2) by (simp add: mw_ok_def word_le_nat_alt)
    then show ?thesis
      using True bs mem N(1) unfolding mw_grow_def Let_def a_def[symmetric] N_def[symmetric]
      by (intro exI[of _ ?w] exI[of _ mem]) (simp add: mw_content_def)
  qed
qed

lemma WebPMemoryWrite_appends:
  assumes m: "malloc_ok malloc" and r: "mw_room c n" "length data \<le> n"
  shows "\<exists>r c'. WebPMemoryWrite malloc data c = Some (r, c') \<and> r \<noteq> 0 \<and> mw_content c' = mw_content c @ data \<and> mw_room c' (n - length data)"
proof -
  obtain w where w: "c = Some w" "mw_ok w" "unat (mw_size w) + n \<le> 2 ^ 32" using r(1) by (auto simp: mw_room_def)
  let ?k = "length data" and ?s = "unat (mw_size w)"
  have n: "?s + ?k \<le> 2 ^ 32" using w(3) r(2) by simp
  from grow_ok[OF m w(2) n] obtain w' mem where g: "mw_grow malloc w (mw_size w + of_nat ?k) = Some (1, w')" "mw_size w' = mw_size w" "mw_content (Some w') = mw_content (Some w)" "mw_ok w'"
      "?s + ?k \<le> unat (mw_max_size w')" "0 < ?k \<longrightarrow> mw_mem w' = Some mem \<and> length mem = unat (mw_max_size w')" by blast
  have ks: "unat (of_nat ?k :: u64) = ?k" using n by (simp add: unsigned_of_nat take_bit_nat_eq_self)
  have ns: "unat (mw_size w + of_nat ?k) = ?s + ?k" using n ks by (simp add: unat_word_ariths)
  show ?thesis
  proof (cases "?k = 0")
    case True
    then have "WebPMemoryWrite malloc data c = Some (1, Some w')" using g(1) by (simp add: WebPMemoryWrite_def w(1) Let_def)
    then show ?thesis using True g(2-4) w by (simp add: mw_room_def)
  next
    case False
    then have mem: "mw_mem w' = Some mem" "length mem = unat (mw_max_size w')" using g(6) by simp_all
    have c: "copy_to (Some mem) (uint (mw_size w)) data = Some (take ?s mem @ data @ drop (?s + ?k) mem)"
      using copy_to_ok[of "uint (mw_size w)" data mem] g(5) mem(2) by simp
    have pos: "(of_nat ?k :: u64) > 0" using False ks by (simp add: word_less_nat_alt)
    let ?w = "w'\<lparr>mw_mem := Some (take ?s mem @ data @ drop (?s + ?k) mem), mw_size := mw_size w + of_nat ?k\<rparr>"
    have e: "WebPMemoryWrite malloc data c = Some (1, Some ?w)"
      using g(1) c pos by (simp add: WebPMemoryWrite_def w(1) Let_def g(2) mem(1))
    have l: "length (take ?s mem) = ?s" using g(5) mem(2) by simp
    have "mw_content (Some ?w) = mw_content c @ data"
      using g(2,3) mem(1) l by (simp add: mw_content_def ns w(1))
    moreover have "mw_ok ?w" using g(4,5) mem l by (simp add: mw_ok_def word_le_nat_alt ns)
    ultimately show ?thesis using e r(2) w(3) by (simp add: mw_room_def ns)
  qed
qed

text \<open>As long as the allocator provides the memory the contract holds for WebPMemoryWrite.\<close>

interpretation memory_writer: picture_writer "WebPMemoryWrite malloc" mw_content "\<lambda>c n. malloc_ok malloc \<and> mw_room c n" for malloc
  by unfold_locales (use WebPMemoryWrite_appends in blast)

end
