(* ===== verification/Frame_Roundtrip.thy ===== *)
theory Frame_Roundtrip
  imports Residual_Roundtrip Picture
begin

section \<open>The round trip of a frame\<close>

unbundle bit_operations_syntax

subsection \<open>The writers of the partitions\<close>

definition kAverageBytesPerMB :: "int list" where
  "kAverageBytesPerMB = [50, 24, 16, 9, 7, 5, 3, 2]"

definition PreLoopInitialize :: "allocator \<Rightarrow> VP8Encoder \<Rightarrow> EncModes \<Rightarrow> int \<Rightarrow> 'o WebPPicture \<Rightarrow>
    (int \<times> VP8BitWriter list \<times> 'o WebPPicture) option" where
  "PreLoopInitialize malloc enc em num_parts pic = do {
     average_bytes_per_MB \<leftarrow> ld kAverageBytesPerMB (drop_bit 4 (base_quant enc));
     let bytes_per_parts = em_mb_w em * em_mb_h em * average_bytes_per_MB div num_parts;
     (ok, ps) \<leftarrow> for_range 0 (nat num_parts)
       (\<lambda>_ (ok, ps). if ok \<noteq> 0 then do { (ok, bw) \<leftarrow> VP8BitWriterInit malloc (word_of_int bytes_per_parts); Some (ok, ps @ [bw]) }
                   else Some (ok, ps)) (1, []);
     (if ok = 0 then do {
        (r, pic) \<leftarrow> WebPEncodingSetError pic VP8_ENC_ERROR_OUT_OF_MEMORY;
        Some (r, map VP8BitWriterWipeOut ps, pic) }
      else Some (ok, ps, pic)) }"

definition PostLoopFinalize :: "allocator \<Rightarrow> bool \<Rightarrow> VP8BitWriter list \<Rightarrow> 'o WebPPicture \<Rightarrow>
    (int \<times> VP8BitWriter list \<times> 'o WebPPicture) option" where
  "PostLoopFinalize malloc ok ps pic = do {
     (ok, ps) \<leftarrow>
       (if ok then for_range 0 (length ps) (\<lambda>p (ok, ps). do {
          bw \<leftarrow> ld ps (int p);
          bw \<leftarrow> VP8BitWriterFinish malloc bw;
          ps \<leftarrow> st ps (int p) bw;
          Some (ok \<and> bw_error bw = 0, ps) }) (ok, ps)
        else Some (ok, ps));
     (if ok then Some (1, ps, pic)
      else do {
        (r, pic) \<leftarrow> WebPEncodingSetError pic VP8_ENC_ERROR_OUT_OF_MEMORY;
        Some (r, map VP8BitWriterWipeOut ps, pic) }) }"

text \<open>
  VP8EncLoop, after StatLoop has fixed the probabilities of \<open>enc\<close> and VP8Decimate the modes and the levels \<open>infos\<close>;
  the progress report and the statistics of the loop filter are left out.
\<close>

definition VP8EncLoop :: "allocator \<Rightarrow> VP8Encoder \<Rightarrow> int \<Rightarrow> VP8ModeScore list \<Rightarrow> EncModes \<Rightarrow> VP8EncIterator \<Rightarrow> 'o WebPPicture \<Rightarrow>
    (int \<times> EncModes \<times> VP8BitWriter list \<times> 'o WebPPicture) option" where
  "VP8EncLoop malloc enc num_parts infos em it pic = do {
     (ok, ps, pic) \<leftarrow> PreLoopInitialize malloc enc em num_parts pic;
     (if ok = 0 then Some (0, em, ps, pic)
      else do {
        (em, it) \<leftarrow> VP8IteratorInit em it;
        (ok, em, ps) \<leftarrow> code_macroblocks malloc enc num_parts infos em it ps;
        (ok, ps, pic) \<leftarrow> PostLoopFinalize malloc ok ps pic;
        Some (ok, em, ps, pic) }) }"

text \<open>A finished buffer from which a reader takes the symbols \<open>xs\<close>, whatever bytes follow it.\<close>

definition finished :: "VP8BitWriter \<Rightarrow> symbol list \<Rightarrow> bool" where
  "finished bw xs \<longleftrightarrow> bw_error bw = 0 \<and> length (written bw) = unat (bw_pos bw) \<and> 1 \<le> length (written bw) \<and>
    8 * length (written bw) \<le> 7 * length xs + 24 \<and>
    (\<forall>mem start rest. length (written bw @ rest) < 2 ^ 31 \<longrightarrow> stored mem start (written bw @ rest) \<longrightarrow>
       (\<exists>br. VP8InitBitReader mem start (of_nat (length (written bw @ rest))) = Some br \<and> reading mem (written bw @ rest) br xs))"

lemma finish_finished: "writing e bw xs \<Longrightarrow> malloc_ok malloc \<Longrightarrow> length xs < 2 ^ 31 \<Longrightarrow> \<exists>bw'. VP8BitWriterFinish malloc bw = Some bw' \<and> finished bw' xs"
  unfolding finished_def using writing_finish[of e bw xs malloc] by blast

lemma PreLoopInitialize_ok:
  assumes m: "malloc_ok malloc" and q: "0 \<le> base_quant enc" "base_quant enc < 128" and P: "0 < P"
    and s: "0 \<le> em_mb_w em * em_mb_h em" "em_mb_w em * em_mb_h em \<le> 2 ^ 18"
  shows "\<exists>ps e. PreLoopInitialize malloc enc em (int P) pic = Some (1, ps, pic) \<and> length ps = P \<and> (\<forall>p<P. writing e (ps ! p) [])"
proof -
  let ?i = "drop_bit 4 (base_quant enc)" and ?n = "em_mb_w em * em_mb_h em"
  have i: "0 \<le> ?i" "?i < 8" using q by (simp_all add: drop_bit_eq_div) 
  have k: "length kAverageBytesPerMB = 8" "\<forall>v\<in>set kAverageBytesPerMB. 0 \<le> v \<and> v \<le> 50" by (simp_all add: kAverageBytesPerMB_def)
  let ?a = "kAverageBytesPerMB ! nat ?i"
  have a: "ld kAverageBytesPerMB ?i = Some ?a" "0 \<le> ?a" "?a \<le> 50" using i k by (simp_all add: ld_def)
  let ?b = "?n * ?a div int P"
  have "?n * ?a \<le> 2 ^ 18 * 50" using s a by (intro mult_mono) auto
  moreover have "0 \<le> ?n * ?a" using s a by simp
  moreover have "?b \<le> ?n * ?a" using \<open>0 \<le> ?n * ?a\<close> P zdiv_mono2[of "?n * ?a" 1 "int P"] by simp
  ultimately have b: "0 \<le> ?b" "?b < 2 ^ 33" using P by (simp_all add: pos_imp_zdiv_nonneg_iff)
  have "take_bit 64 ?b = ?b" using b by (intro take_bit_int_eq_self) auto
  then have sz: "uint (word_of_int ?b :: u64) < 2 ^ 33" using b by (simp add: uint_word_of_int_eq)
  obtain bw where bw: "VP8BitWriterInit malloc (word_of_int ?b) = Some (1, bw)" "writing (2 * unat (word_of_int ?b :: u64)) bw []"
    using writing_init[OF m sz] by blast
  have "\<exists>t. for_range 0 P (\<lambda>_ (ok, ps). if ok \<noteq> 0 then do { (ok, bw) \<leftarrow> VP8BitWriterInit malloc (word_of_int ?b); Some (ok, ps @ [bw]) }
                   else Some (ok, ps)) (1, []) = Some t \<and> t = (1, replicate P bw)"
    by (rule for_range_inv[where I = "\<lambda>i t. t = (1, replicate i bw)"]) (simp_all add: bw(1) replicate_append_same)
  then have "PreLoopInitialize malloc enc em (int P) pic = Some (1, replicate P bw, pic)" using a(1) by (simp add: PreLoopInitialize_def)
  then show ?thesis using bw(2) by (intro exI[of _ "replicate P bw"]) auto
qed

lemma PostLoopFinalize_ok:
  assumes m: "malloc_ok malloc" and w: "\<And>p. p < length ps \<Longrightarrow> writing e (ps ! p) (xs p) \<and> length (xs p) < 2 ^ 31"
  shows "\<exists>ps'. PostLoopFinalize malloc True ps pic = Some (1, ps', pic) \<and> length ps' = length ps \<and> (\<forall>p<length ps. finished (ps' ! p) (xs p))"
proof -
  let ?I = "\<lambda>n t. \<exists>qs. t = (True, qs) \<and> length qs = length ps \<and> (\<forall>p<n. finished (qs ! p) (xs p)) \<and> (\<forall>p<length ps. n \<le> p \<longrightarrow> qs ! p = ps ! p)"
  have "\<exists>t. for_range 0 (length ps) (\<lambda>p (ok, ps). do {
          bw \<leftarrow> ld ps (int p);
          bw \<leftarrow> VP8BitWriterFinish malloc bw;
          ps \<leftarrow> st ps (int p) bw;
          Some (ok \<and> bw_error bw = 0, ps) }) (True, ps) = Some t \<and> ?I (length ps) t"
  proof (rule for_range_inv[where I = ?I])
    fix n t assume n: "n < length ps" and I: "?I n t"
    then obtain qs where q: "t = (True, qs)" "length qs = length ps" "\<forall>p<n. finished (qs ! p) (xs p)" "\<forall>p<length ps. n \<le> p \<longrightarrow> qs ! p = ps ! p" by blast
    from w[OF n] finish_finished[OF _ m] obtain bw where bw: "VP8BitWriterFinish malloc (ps ! n) = Some bw" "finished bw (xs n)" by blast
    have e: "bw_error bw = 0" using bw(2) by (simp add: finished_def)
    have "\<forall>p<Suc n. finished (qs[n := bw] ! p) (xs p)" using q(2,3) n bw(2) by (auto simp: nth_list_update less_Suc_eq)
    then show "\<exists>t'. (case t of (ok, ps) \<Rightarrow> do {
          bw \<leftarrow> ld ps (int n);
          bw \<leftarrow> VP8BitWriterFinish malloc bw;
          ps \<leftarrow> st ps (int n) bw;
          Some (ok \<and> bw_error bw = 0, ps) }) = Some t' \<and> ?I (Suc n) t'"
      using q n bw(1) e by (intro exI[of _ "(True, qs[n := bw])"]) (auto simp: ld_nat st_nat)
  qed simp_all
  then show ?thesis by (auto simp: PostLoopFinalize_def)
qed

subsection \<open>The sizes\<close>

lemma blk_symbols_length: "levels_ok n cs \<Longrightarrow> length (blk_symbols pr n ctx cs) \<le> 305"
  by (simp add: blk_symbols_def block_symbols_length)

lemma plane_symbols_length:
  assumes "\<And>y x. y < k \<Longrightarrow> x < k \<Longrightarrow> levels_ok n (B y x)"
  shows "length (plane_symbols pr n k T L B) \<le> k * (k * 305)"
proof -
  have l: "length (concat (map f [0..<m])) \<le> m * c" if "\<And>i. i < m \<Longrightarrow> length (f i) \<le> c" for f :: "nat \<Rightarrow> symbol list" and m c
    using that by (induction m) (simp_all add: add_mono add.commute)
  show ?thesis unfolding plane_symbols_def by (intro l blk_symbols_length assms)
qed

lemma mb_tokens_length: "code_ready (D Y X) \<Longrightarrow> length (mb_tokens enc D Y X) \<le> 7625"
proof -
  assume c: "code_ready (D Y X)"
  obtain i16 sk rd where d: "D Y X = (i16, sk, rd)" by (cases "D Y X")
  show ?thesis
  proof (cases sk)
    case False
    then have rd: "levels_of_ok i16 rd" using c d by (simp add: code_ready_def)
    have l: "levels_ok (of_bool i16) (luma_of rd y x)" if "y < 4" "x < 4" for y x using rd that by (simp add: levels_of_ok_def luma_of_def)
    have u: "levels_ok 0 (chroma_of rd k y x)" if "y < 2" "x < 2" "k < 2" for k y x using rd that by (simp add: levels_of_ok_def chroma_of_def)
    have dc: "length (if i16 then blk_symbols pr 0 ctx (y_dc_levels rd) else []) \<le> 305" for pr ctx
      using rd blk_symbols_length[of 0 "y_dc_levels rd" pr ctx] by (simp add: levels_of_ok_def)
    note p4 = plane_symbols_length[of 4 "of_bool i16" "luma_of rd", OF l] and p2 = plane_symbols_length[of 2 0 "chroma_of rd k" for k, OF u]
    have p20: "length (plane_symbols pr 0 2 T L (chroma_of rd 0)) \<le> 2 * (2 * 305)" "length (plane_symbols pr 0 2 T L (chroma_of rd 1)) \<le> 2 * (2 * 305)" for pr T L
      using p2 by simp_all
    have "length (residual_symbols enc i16 T L rd) \<le> 305 + (4 * (4 * 305) + (2 * (2 * 305) + 2 * (2 * 305)))" for T L
      unfolding residual_symbols_def length_append by (intro add_mono dc p4 p20)
    then show ?thesis using False by (simp add: mb_tokens_def d)
  qed (simp add: mb_tokens_def d)
qed

lemma part_tokens_length:
  assumes "\<And>k. k < n \<Longrightarrow> code_ready (D (k div W) (k mod W))"
  shows "length (part_tokens enc D W P p n) \<le> n * 7625"
  using assms
proof (induction n)
  case (Suc n)
  have "length (mb_tokens enc D (n div W) (n mod W)) \<le> 7625" using Suc.prems by (intro mb_tokens_length) simp
  then have "length (if n div W mod P = p then mb_tokens enc D (n div W) (n mod W) else []) \<le> 7625" by simp
  then show ?case using Suc unfolding part_tokens_Suc length_append by (simp add: add_mono add.commute)
qed (simp add: part_tokens_def)


subsection \<open>The main loop of the encoder\<close>

lemma VP8IteratorInit_contexts:
  assumes "modes_ok em" "em_nz em ! 0 = 0" "length (it_top_nz it) = 9" "length (it_left_nz it) = 9"
  shows "\<exists>it'. VP8IteratorInit em it = Some (em\<lparr>em_nz := blit (em_nz em) 1 (nat (em_mb_w em)) (\<lambda>_. 0)\<rparr>, it') \<and>
    contexts_at D (em\<lparr>em_nz := blit (em_nz em) 1 (nat (em_mb_w em)) (\<lambda>_. 0)\<rparr>) 0 0 it'"
proof -
  let ?nz = "blit (em_nz em) 1 (nat (em_mb_w em)) (\<lambda>_. 0)"
  obtain it' where i: "VP8IteratorInit em it = Some (em\<lparr>em_nz := ?nz\<rparr>, it')" "it_at em 0 0 it'"
    using VP8IteratorInit_at[OF assms(1,3,4)] by blast
  have l: "length (em_nz em) = Suc (nat (em_mb_w em))" "0 < em_mb_w em" using modes_ok_nz[OF assms(1)] by simp_all
  have n: "?nz ! 0 = 0" "?nz ! Suc i = 0" if "i < nat (em_mb_w em)" for i using l assms(2) that by (auto simp: blit_nth)
  have n0: "?nz ! 0 = 0" using n(1)[of 0] l(2) by simp
  have z: "it_left_nz it' ! 8 = 0"
    using i(1) assms(4) by (auto simp: VP8IteratorInit_def VP8IteratorReset_def VP8IteratorSetRow_def InitLeft_def st_def
        VP8IteratorSetCountDown_def Let_def split: option.splits elim!: bind_eq_Some_conv[THEN iffD1, elim_format])
  have "it_at (em\<lparr>em_nz := ?nz\<rparr>) 0 0 it'" using i(2) modes_ok_em_nz(3)[OF assms(1), of ?nz 0 0] by simp
  then show ?thesis using i(1) n n0 z by (simp add: contexts_at_def zero_word)
qed

lemma VP8EncLoop_ok:
  assumes ok: "modes_ok em" "coder_probas_ok enc" "part_count P" "length infos = nat (em_mb_w em) * nat (em_mb_h em)" "malloc_ok malloc"
    and D: "D = mb_code_of enc em infos" "\<And>Y X. Y < nat (em_mb_h em) \<Longrightarrow> X < nat (em_mb_w em) \<Longrightarrow> code_ready (D Y X)"
    and nz: "em_nz em ! 0 = 0" "length (it_top_nz it) = 9" "length (it_left_nz it) = 9"
    and q: "0 \<le> base_quant enc" "base_quant enc < 128" and s: "em_mb_w em * em_mb_h em \<le> 2 ^ 18"
  shows "\<exists>n ps. VP8EncLoop malloc enc (int P) infos em it pic = Some (1, em\<lparr>em_nz := n\<rparr>, ps, pic) \<and> length n = length (em_nz em) \<and> length ps = P \<and>
    (\<forall>p<P. finished (ps ! p) (tokens_from enc D (nat (em_mb_w em)) (nat (em_mb_h em)) P p 0))"
proof -
  let ?W = "nat (em_mb_w em)" and ?H = "nat (em_mb_h em)"
  have W: "0 < em_mb_w em" "0 < em_mb_h em" "0 < ?W" "0 < ?H" using ok(1) by (auto simp: modes_ok_def)
  have P: "0 < P" using ok(3) by (auto simp: part_count_def)
  have n: "?W * ?H \<le> 2 ^ 18"
  proof -
    have "int (?W * ?H) \<le> 2 ^ 18" using s W by simp
    then show ?thesis by (metis of_nat_le_iff of_nat_numeral of_nat_power)
  qed
  have sz: "0 \<le> em_mb_w em * em_mb_h em" using W by simp
  obtain ps e where p: "PreLoopInitialize malloc enc em (int P) pic = Some (1, ps, pic)" "length ps = P" "\<forall>p<P. writing e (ps ! p) []"
    using PreLoopInitialize_ok[OF ok(5) q P sz s, of pic] by blast
  let ?nz = "blit (em_nz em) 1 (nat (em_mb_w em)) (\<lambda>_. 0)"
  let ?em = "em\<lparr>em_nz := ?nz\<rparr>"
  obtain it' where i: "VP8IteratorInit em it = Some (?em, it')" "contexts_at D ?em 0 0 it'"
    using VP8IteratorInit_contexts[OF ok(1) nz] by blast
  have em: "modes_ok ?em" "D = mb_code_of enc ?em infos" using modes_ok_em_nz(1,2)[OF ok(1), of ?nz] D(1) by simp_all
  have len: "length (part_tokens enc D ?W P p (?W * ?H)) < 2 ^ 31" for p
  proof -
    have "code_ready (D (k div ?W) (k mod ?W))" if "k < ?W * ?H" for k
      using that W(3) by (intro D(2)) (simp_all add: less_mult_imp_div_less mult.commute)
    then have "length (part_tokens enc D ?W P p (?W * ?H)) \<le> ?W * ?H * 7625" by (intro part_tokens_length) simp
    also have "\<dots> \<le> 2 ^ 18 * 7625" using n by (intro mult_right_mono) auto
    finally show ?thesis by simp
  qed
  have "\<exists>nz ps'. code_macroblocks malloc enc (int P) infos ?em it' ps = Some (True, ?em\<lparr>em_nz := nz\<rparr>, ps') \<and> length ps' = P \<and> length nz = length (em_nz ?em) \<and>
    (\<forall>p<P. writing e (ps' ! p) (part_tokens enc D (nat (em_mb_w ?em)) P p (nat (em_mb_w ?em) * nat (em_mb_h ?em))))"
    by (rule code_macroblocks_ok[where Y = 0 and X = 0])
      (use em ok D(2) len W i(2) p(2,3) in \<open>simp_all add: part_tokens_def\<close>)
  then obtain n ps' where c: "code_macroblocks malloc enc (int P) infos ?em it' ps = Some (True, em\<lparr>em_nz := n\<rparr>, ps')" "length ps' = P"
    "length n = length (em_nz em)" "\<And>p. p < P \<Longrightarrow> writing e (ps' ! p) (part_tokens enc D ?W P p (?W * ?H))" by auto
  from PostLoopFinalize_ok[OF ok(5), of ps' e "\<lambda>p. part_tokens enc D ?W P p (?W * ?H)" pic] obtain ps'' where
    f: "PostLoopFinalize malloc True ps' pic = Some (1, ps'', pic)" "length ps'' = P" "\<forall>p<P. finished (ps'' ! p) (part_tokens enc D ?W P p (?W * ?H))"
    using c len by auto
  then show ?thesis
    using p(1) i(1) c by (intro exI[of _ n] exI[of _ ps'']) (simp add: VP8EncLoop_def part_tokens_rows[OF W(3)])
qed

subsection \<open>Encoder and decoder\<close>

text \<open>A decoder that has read the headers of the frame reads the modes and the tokens of all macroblocks.\<close>

lemma ParseFrame_ok:
  assumes fc: "frame_coded enc em D P Q" and rr: "rows_ready enc em D P 0 Q d" and H: "br_mb_y d = em_mb_h em"
    and r0: "reading mem bs0 (dec_br d) (all_mode_symbols enc em 0)"
    and rp: "\<And>p. p < P \<Longrightarrow> reading mem (bss p) (parts d ! p) (tokens_from enc D (nat (em_mb_w em)) (nat (em_mb_h em)) P p 0)"
  shows "\<exists>rows d'. ParseFrame alt mem d = Some (1, rows, d') \<and> length rows = nat (em_mb_h em) \<and>
    (\<forall>Y<nat (em_mb_h em). same_row enc em D Q Y (rows ! Y))"
proof -
  let ?d = "d\<lparr>mb_y := 0\<rparr>"
  have ok: "modes_ok em" using fc by (simp add: frame_coded_def)
  have "rows_ready enc em D P 0 Q ?d" using rr by (auto simp: rows_ready_def modes_ready_def same_modes_header_def filters_ready_def)
  moreover have "P \<le> length (parts d)" using rr by (simp add: rows_ready_def)
  ultimately show ?thesis
    using parse_rows_ok[OF fc, of 0 ?d mem bs0 bss alt "[]"] H r0 rp
    by (auto simp: ParseFrame_def all_mode_symbols_rows[OF ok])
qed

end
