(* ===== verification/First_Partition.thy ===== *)
theory First_Partition
  imports Frame_Roundtrip
begin

section \<open>The first partition and the table of partitions\<close>

text \<open>
  GeneratePartition0 and EmitPartitionsSize (src/enc/syntax_enc.c) against the parsing of the first partition and of
  the partition table in VP8GetHeaders (src/dec/vp8_dec.c).
\<close>

unbundle bit_operations_syntax

subsection \<open>Writing the first partition\<close>

text \<open>Everything between the initialisation of the buffer and its end.\<close>

definition put_partition0 :: "allocator \<Rightarrow> VP8Encoder \<Rightarrow> int \<Rightarrow> VP8EncIterator \<Rightarrow> EncModes \<Rightarrow> VP8BitWriter \<Rightarrow> (EncModes \<times> VP8BitWriter) option" where
  "put_partition0 malloc enc num_parts it em bw = do {
     (_, bw) \<leftarrow> VP8PutBitUniform malloc bw 0;
     (_, bw) \<leftarrow> VP8PutBitUniform malloc bw 0;
     bw \<leftarrow> PutSegmentHeader malloc enc bw;
     bw \<leftarrow> PutFilterHeader malloc (e_filter_hdr enc) bw;
     bw \<leftarrow> VP8PutBits malloc bw (if num_parts = 8 then 3 else if num_parts = 4 then 2 else if num_parts = 2 then 1 else 0) 2;
     bw \<leftarrow> PutQuant malloc enc bw;
     (_, bw) \<leftarrow> VP8PutBitUniform malloc bw 0;
     bw \<leftarrow> VP8WriteProbas malloc (e_proba enc) bw;
     VP8CodeIntraModes malloc enc it em bw }"

text \<open>The statistics for the caller are left out; \<open>it\<close> is the iterator's uninitialised memory in VP8CodeIntraModes.\<close>

definition GeneratePartition0 :: "allocator \<Rightarrow> VP8Encoder \<Rightarrow> int \<Rightarrow> VP8EncIterator \<Rightarrow> EncModes \<Rightarrow> 'o WebPPicture \<Rightarrow>
    (int \<times> EncModes \<times> VP8BitWriter \<times> 'o WebPPicture) option" where
  "GeneratePartition0 malloc enc num_parts it em pic = do {
     let mb_size = em_mb_w em * em_mb_h em;
     (ok, bw) \<leftarrow> VP8BitWriterInit malloc (word_of_int (mb_size * 7 div 8));
     (if ok = 0 then do {
        (r, pic) \<leftarrow> WebPEncodingSetError pic VP8_ENC_ERROR_OUT_OF_MEMORY;
        Some (r, em, bw, pic) }
      else do {
        (em, bw) \<leftarrow> put_partition0 malloc enc num_parts it em bw;
        bw \<leftarrow> VP8BitWriterFinish malloc bw;
        (if bw_error bw \<noteq> 0 then do {
           (r, pic) \<leftarrow> WebPEncodingSetError pic VP8_ENC_ERROR_OUT_OF_MEMORY;
           Some (r, em, bw, pic) }
         else Some (1, em, bw, pic)) }) }"

text \<open>What the encoder's headers have to satisfy, and the symbols they put.\<close>

definition headers_ok :: "VP8Encoder \<Rightarrow> bool" where
  "headers_ok enc \<longleftrightarrow> segment_ok enc \<and> filter_ok (e_filter_hdr enc) \<and> quant_ok enc \<and> proba_ok (e_proba enc) \<and> mode_probas_ok enc \<and>
     (e_update_map (e_segment_hdr enc) \<noteq> 0 \<longrightarrow> num_segments (e_segment_hdr enc) > 1)"

definition parts_log2 :: "nat \<Rightarrow> u32" where
  "parts_log2 P = (if P = 8 then 3 else if P = 4 then 2 else if P = 2 then 1 else 0)"

lemma parts_log2: "part_count P \<Longrightarrow> push_bit (unat (parts_log2 P)) 1 - 1 = (of_nat (P - 1) :: u32)" "uint (parts_log2 P) < 4"
  by (auto simp: part_count_def parts_log2_def)

definition partition0_symbols :: "VP8Encoder \<Rightarrow> EncModes \<Rightarrow> nat \<Rightarrow> symbol list" where
  "partition0_symbols enc em P = (False, 128) # (False, 128) # segment_symbols enc @ filter_symbols (e_filter_hdr enc) @
     bits_of 2 (parts_log2 P) @ quant_symbols enc @ (False, 128) # proba_symbols (e_proba enc) @ all_mode_symbols enc em 0"

lemma emits_put_partition0:
  assumes ok: "headers_ok enc" "modes_ok em" "length (it_top_nz it) = 9" "length (it_left_nz it) = 9"
  shows "emits malloc e (put_partition0 malloc enc (int P) it em) (partition0_symbols enc em P)
    (Pair (em\<lparr>em_nz := blit (em_nz em) 1 (nat (em_mb_w em)) (\<lambda>_. 0)\<rparr>))"
proof -
  have h: "segment_ok enc" "filter_ok (e_filter_hdr enc)" "quant_ok enc" "proba_ok (e_proba enc)" "mode_probas_ok enc"
    using ok(1) by (simp_all add: headers_ok_def)
  have l: "(if int P = 8 then 3 else if int P = 4 then 2 else if int P = 2 then 1 else 0) = parts_log2 P" by (auto simp: parts_log2_def)
  show ?thesis
    unfolding put_partition0_def partition0_symbols_def l
    apply (rule emits_uniform, simp, unfold prod.case)
    apply (rule emits_uniform, simp, unfold prod.case)
    apply (rule emits_bind[OF emits_PutSegmentHeader[OF h(1)]])
    apply (rule emits_bind[OF emits_PutFilterHeader[OF h(2)]])
    apply (rule emits_bits, simp, simp, simp)
    apply (rule emits_bind[OF emits_PutQuant[OF h(3)]])
    apply (rule emits_uniform, simp, unfold prod.case)
    apply (rule emits_bind[OF emits_VP8WriteProbas[OF h(4)]])
    by (rule emits_VP8CodeIntraModes[OF ok(2) h(5) ok(3,4)])
qed

lemma all_mode_symbols_length: "length (all_mode_symbols enc em 0) \<le> nat (em_mb_w em) * nat (em_mb_h em) * 151"
  unfolding all_mode_symbols_def by (rule concat_map_length) (rule mode_symbols_length)

lemma mb_count:
  assumes "modes_ok em" "em_mb_w em * em_mb_h em \<le> 2 ^ k"
  shows "nat (em_mb_w em) * nat (em_mb_h em) \<le> 2 ^ k" "0 < nat (em_mb_w em)" "0 < nat (em_mb_h em)"
proof -
  have W: "0 < em_mb_w em" "0 < em_mb_h em" using assms(1) by (auto simp: modes_ok_def)
  have "int (nat (em_mb_w em) * nat (em_mb_h em)) \<le> int (2 ^ k)" using assms(2) W by simp
  then show "nat (em_mb_w em) * nat (em_mb_h em) \<le> 2 ^ k" by (simp only: of_nat_le_iff)
qed (use assms(1) in \<open>auto simp: modes_ok_def\<close>)

lemma partition0_symbols_length:
  assumes "nat (em_mb_w em) * nat (em_mb_h em) \<le> n"
  shows "length (partition0_symbols enc em P) \<le> 10400 + n * 151"
proof -
  have "length (all_mode_symbols enc em 0) \<le> n * 151"
    using all_mode_symbols_length[of enc em] mult_le_mono1[OF assms, of 151] by linarith
  then show ?thesis
    using header_lengths(1,3)[of enc] header_lengths(2)[of "e_filter_hdr enc"] header_lengths(4)[of "e_proba enc"]
    by (simp add: partition0_symbols_def)
qed

lemma GeneratePartition0_ok:
  assumes ok: "headers_ok enc" "modes_ok em" "length (it_top_nz it) = 9" "length (it_left_nz it) = 9" and m: "malloc_ok malloc"
    and s: "em_mb_w em * em_mb_h em \<le> 2 ^ 18"
  shows "\<exists>em' bw. GeneratePartition0 malloc enc (int P) it em pic = Some (1, em', bw, pic) \<and> finished bw (partition0_symbols enc em P)"
proof -
  let ?n = "em_mb_w em * em_mb_h em"
  have n: "nat (em_mb_w em) * nat (em_mb_h em) \<le> 2 ^ 18" using mb_count[OF ok(2) s] by blast
  have len: "length (partition0_symbols enc em P) < 2 ^ 31" using partition0_symbols_length[OF n, of enc P] by simp
  have "0 \<le> ?n" using ok(2) by (simp add: modes_ok_def)
  then have b: "0 \<le> ?n * 7 div 8" "?n * 7 div 8 < 2 ^ 33" using s by (simp_all add: pos_imp_zdiv_nonneg_iff)
  have "take_bit 64 (?n * 7 div 8) = ?n * 7 div 8" using b by (intro take_bit_int_eq_self) auto
  then have sz: "uint (word_of_int (?n * 7 div 8) :: u64) < 2 ^ 33" using b by (simp add: uint_word_of_int_eq)
  obtain e bw where i: "VP8BitWriterInit malloc (word_of_int (?n * 7 div 8)) = Some (1, bw)" "writing e bw []" using writing_init[OF m sz] by blast
  from writing_step[OF emits_put_partition0[OF ok, of malloc e P] i(2) m] len obtain bw1 where
    p: "put_partition0 malloc enc (int P) it em bw = Some (em\<lparr>em_nz := blit (em_nz em) 1 (nat (em_mb_w em)) (\<lambda>_. 0)\<rparr>, bw1)"
       "writing e bw1 (partition0_symbols enc em P)" by auto
  from finish_finished[OF p(2) m len] obtain bw2 where f: "VP8BitWriterFinish malloc bw1 = Some bw2" "finished bw2 (partition0_symbols enc em P)" by blast
  then have "bw_error bw2 = 0" by (simp add: finished_def)
  with f i(1) p(1) show ?thesis by (simp add: GeneratePartition0_def)
qed

subsection \<open>The table of partitions\<close>

text \<open>A size as three bytes, and the sizes of all partitions but the last.\<close>

definition le24 :: "nat \<Rightarrow> u8 list" where
  "le24 n = [of_nat n, of_nat (n div 2 ^ 8), of_nat (n div 2 ^ 16)]"

definition size_table :: "u8 list list \<Rightarrow> u8 list" where
  "size_table bss = concat (map (\<lambda>bs. le24 (length bs)) (butlast bss))"

lemma le24_length [simp]: "length (le24 n) = 3"
  by (simp add: le24_def)

lemma concat_le24: "length (concat (map (\<lambda>x. le24 (f x)) xs)) = 3 * length xs"
  by (induction xs) simp_all

lemma size_table_length [simp]: "length (size_table bss) = 3 * (length bss - 1)"
  by (simp add: size_table_def concat_le24)

lemma size_table_nth:
  assumes "Suc p < length bss" "k < 3"
  shows "size_table bss ! (3 * p + k) = le24 (length (bss ! p)) ! k"
proof -
  have "concat (map (\<lambda>x. le24 (f x)) xs) ! (3 * p + k) = le24 (f (xs ! p)) ! k" if "p < length xs" for f :: "u8 list \<Rightarrow> nat" and xs p
    using that
  proof (induction xs arbitrary: p)
    case (Cons x xs)
    then show ?case using assms(2) by (cases p) (simp_all add: nth_append)
  qed simp
  then show ?thesis using assms by (simp add: size_table_def nth_butlast)
qed

lemma bytes_of: "n < 2 ^ 24 \<Longrightarrow> n mod 2 ^ 8 + (n div 2 ^ 8) mod 2 ^ 8 * 2 ^ 8 + (n div 2 ^ 16) mod 2 ^ 8 * 2 ^ 16 = n" for n :: nat
proof -
  assume n: "n < 2 ^ 24"
  have 1: "n = n div 256 * 256 + n mod 256" by simp
  have 2: "n div 256 = n div 65536 * 256 + (n div 256) mod 256" using div_mult_mod_eq[of "n div 256" 256] by (simp add: div_mult2_eq[symmetric])
  have 3: "(n div 65536) mod 256 = n div 65536" using n by (simp add: less_mult_imp_div_less)
  have "n mod 256 + (n div 256) mod 256 * 256 + (n div 65536) mod 256 * 65536 = n" unfolding 3 using 1 2 by linarith
  then show ?thesis using 3 by simp
qed

lemma frame_tag_le24:
  assumes "stored mem ptr (le24 n)" "n < 2 ^ 24"
  shows "\<exists>t. frame_tag mem ptr = Some t \<and> uint t = int n"
proof -
  have b: "0 \<le> ptr + int i \<and> ptr + int i < int (length mem) \<and> mem ! nat (ptr + int i) = le24 n ! i" if "i < 3" for i
    using stored_nth[OF assms(1), of i] that by (simp only: le24_length)
  have "0 \<le> ptr" "ptr + 3 \<le> int (length mem)" using b[of 0] b[of 2] by simp_all
  from frame_tag_value[OF this] obtain t where t: "frame_tag mem ptr = Some t"
    "uint t = uint (mem ! nat ptr) + uint (mem ! nat (ptr + 1)) * 2 ^ 8 + uint (mem ! nat (ptr + 2)) * 2 ^ 16" by blast
  have v: "mem ! nat ptr = of_nat n" "mem ! nat (ptr + 1) = of_nat (n div 2 ^ 8)" "mem ! nat (ptr + 2) = of_nat (n div 2 ^ 16)"
    using b[of 0] b[of 1] b[of 2] by (simp_all add: le24_def)
  have u: "uint (of_nat m :: u8) = int (m mod 2 ^ 8)" for m
    by (simp add: unsigned_of_nat take_bit_nat_eq_self take_bit_eq_mod zmod_int)
  have "n mod 2 ^ 8 + (n div 2 ^ 8) mod 2 ^ 8 * 2 ^ 8 + (n div 2 ^ 16) mod 2 ^ 8 * 2 ^ 16 = n" using assms(2) by (rule bytes_of)
  moreover have "int a + int b * 2 ^ 8 + int c * 2 ^ 16 = int n" if "a + b * 2 ^ 8 + c * 2 ^ 16 = n" for a b c
    unfolding that [symmetric] by simp
  ultimately have "uint t = int n" unfolding t(2) v u by blast
  with t(1) show ?thesis by blast
qed

text \<open>Where a partition starts behind the table, and its bytes: the last one takes what follows the partitions.\<close>

definition offset :: "u8 list list \<Rightarrow> nat \<Rightarrow> nat" where
  "offset bss p = 3 * (length bss - 1) + length (concat (take p bss))"

definition piece :: "u8 list list \<Rightarrow> u8 list \<Rightarrow> nat \<Rightarrow> u8 list" where
  "piece bss pad p = bss ! p @ (if Suc p = length bss then pad else [])"

definition partitions :: "u8 list list \<Rightarrow> u8 list \<Rightarrow> u8 list" where
  "partitions bss pad = size_table bss @ concat bss @ pad"

lemma concat_split: "p < length bss \<Longrightarrow> concat bss = concat (take p bss) @ bss ! p @ concat (drop (Suc p) bss)"
  by (metis concat.simps(2) concat_append id_take_nth_drop)

lemma offset_Suc: "p < length bss \<Longrightarrow> offset bss (Suc p) = offset bss p + length (bss ! p)"
  by (simp add: offset_def take_Suc_conv_app_nth)

lemma partitions_length:
  assumes "p < length bss"
  shows "offset bss p + length (piece bss pad p) \<le> length (partitions bss pad)"
    "Suc p = length bss \<Longrightarrow> offset bss p + length (piece bss pad p) = length (partitions bss pad)"
  using arg_cong[OF concat_split[OF assms], of length] by (auto simp: offset_def piece_def partitions_def)

lemma partitions_stored:
  assumes "stored mem buf (partitions bss pad)" "p < length bss"
  shows "stored mem (buf + int (offset bss p)) (piece bss pad p)"
proof -
  have "stored mem (buf + int (3 * (length bss - 1))) (concat bss @ pad)"
    using assms(1) by (simp add: partitions_def stored_append)
  then have "stored mem (buf + int (3 * (length bss - 1)) + int (length (concat (take p bss)))) (bss ! p @ concat (drop (Suc p) bss) @ pad)"
    using concat_split[OF assms(2)] stored_append[of mem "buf + int (3 * (length bss - 1))" "concat (take p bss)"] by simp
  then show ?thesis using assms(2) by (auto simp: piece_def offset_def stored_append add.assoc)
qed

lemma size_stored:
  assumes "stored mem buf (partitions bss pad)" "Suc p < length bss"
  shows "stored mem (buf + int (3 * p)) (le24 (length (bss ! p)))"
  unfolding stored_def
proof (intro allI impI)
  fix k assume k: "k < length (le24 (length (bss ! p)))"
  then have "3 * p + k < length (size_table bss)" using assms(2) by simp
  moreover have "stored mem buf (size_table bss)" using assms(1) by (simp add: partitions_def stored_append)
  ultimately have "ld mem (buf + int (3 * p + k)) = Some (size_table bss ! (3 * p + k))" unfolding stored_def by blast
  then show "ld mem (buf + int (3 * p) + int k) = Some (le24 (length (bss ! p)) ! k)"
    using size_table_nth[OF assms(2), of k] k by (simp add: add.assoc)
qed

text \<open>\<open>R\<close> is what the caller wants of the reader of each partition.\<close>

lemma ParsePartitions_ok:
  assumes P: "part_count (length bss)" and m: "\<And>p. Suc p < length bss \<Longrightarrow> length (bss ! p) < 2 ^ 24" and ne: "bss ! (length bss - 1) \<noteq> []"
    and st: "stored mem buf (partitions bss pad)" and n: "length (partitions bss pad) < 2 ^ 31" and l: "length bss \<le> length (parts d)"
    and r: "reading mem bs (dec_br d) (bits_of 2 (parts_log2 (length bss)) @ ys)"
    and init: "\<And>p. p < length bss \<Longrightarrow> \<exists>br. VP8InitBitReader mem (buf + int (offset bss p)) (of_nat (length (piece bss pad p))) = Some br \<and> R p br"
  shows "\<exists>br ps. ParsePartitions mem d buf (of_nat (length (partitions bss pad))) =
      Some (VP8_STATUS_OK, d\<lparr>dec_br := br, num_parts_minus_one := of_nat (length bss - 1), parts := ps\<rparr>) \<and>
    reading mem bs br ys \<and> length ps = length (parts d) \<and> (\<forall>p<length bss. R p (ps ! p))"
proof -
  let ?n = "length (partitions bss pad)" and ?l = "length bss - 1"
  have L: "?l < 8" "0 < length bss" "Suc ?l = length bss" using P by (auto simp: part_count_def)
  obtain br where br: "VP8GetValue mem (dec_br d) 2 = Some (parts_log2 (length bss), br)" "reading mem bs br ys"
    using reading_step[OF parses_GetValue[of 2] r] parts_log2(2) by auto
  let ?d = "d\<lparr>dec_br := br, num_parts_minus_one := of_nat ?l\<rparr>"
  have u: "uint (of_nat k :: u64) = int k" if "k \<le> ?n" for k
    using that n by (simp add: unsigned_of_nat take_bit_nat_eq_self)
  have c: "(ucast (of_nat ?l :: u32) :: u64) = of_nat ?l" "uint (of_nat ?l :: u64) = int ?l" "unat (of_nat ?l :: u64) = ?l"
    using L(1) by (simp_all only: word_uint_eq_iff uint_ucast_64) (simp_all add: unsigned_of_nat take_bit_nat_eq_self)
  have tb: "3 * ?l \<le> ?n" by (simp add: partitions_def)
  have sub: "of_nat a - of_nat b = (of_nat (a - b) :: u64)" if "b \<le> a" for a b using that by (simp add: of_nat_diff)
  let ?I = "\<lambda>p (ps, start, left :: u64, sz). length ps = length (parts d) \<and> start = buf + int (offset bss p) \<and> left = of_nat (?n - offset bss p) \<and>
     sz = buf + int (3 * p) \<and> (\<forall>i<p. R i (ps ! i))"
  have o0: "offset bss 0 = 3 * ?l" by (simp add: offset_def)
  have "\<exists>t. for_range 0 ?l (\<lambda>p s. init_partition mem s p) (parts d, buf + int (3 * ?l), of_nat (?n - 3 * ?l), buf) = Some t \<and> ?I ?l t"
  proof (rule for_range_inv[where I = ?I])
    fix p s assume p: "p < ?l" and s: "?I p s"
    obtain ps start left sz where e: "s = (ps, start, left, sz)" by (cases s)
    have i: "length ps = length (parts d)" "start = buf + int (offset bss p)" "left = of_nat (?n - offset bss p)" "sz = buf + int (3 * p)" "\<forall>i<p. R i (ps ! i)"
      using s by (simp_all add: e)
    have pl: "Suc p < length bss" "p < length bss" using p by simp_all
    let ?k = "length (bss ! p)"
    from frame_tag_le24[OF size_stored[OF st pl(1)] m[OF pl(1)]] obtain t where t: "frame_tag mem sz = Some t" "uint t = int ?k" using i(4) by blast
    have k: "offset bss p + ?k \<le> ?n" using partitions_length(1)[OF pl(2), of pad] by (simp add: piece_def)
    have tt: "(ucast t :: u64) = of_nat ?k" "uint (of_nat ?k :: u64) = int ?k" using t(2) u[of ?k] k by (simp_all add: word_uint_eq_iff uint_ucast_64)
    have le: "\<not> (of_nat ?k > left)" using u[of ?k] u[of "?n - offset bss p"] k by (simp add: i(3) word_less_def)
    have "left - of_nat ?k = of_nat (?n - offset bss (Suc p))" using k sub[of ?k "?n - offset bss p"] by (simp add: i(3) offset_Suc[OF pl(2)])
    moreover from init[OF pl(2)] obtain b where b: "VP8InitBitReader mem start (of_nat ?k) = Some b" "R p b" using pl(1) by (auto simp: i(2) piece_def)
    moreover have "st ps (int p) b = Some (ps[p := b])" using pl l i(1) by (simp add: st_nat)
    ultimately have "init_partition mem s p = Some (ps[p := b], buf + int (offset bss (Suc p)), of_nat (?n - offset bss (Suc p)), buf + int (3 * Suc p))"
      using t(1) le by (simp add: init_partition_def e tt i(2,4) offset_Suc[OF pl(2)] Let_def)
    moreover have "\<forall>j<Suc p. R j (ps[p := b] ! j)" using i(1,5) b(2) pl l by (auto simp: nth_list_update less_Suc_eq)
    ultimately show "\<exists>t'. init_partition mem s p = Some t' \<and> ?I (Suc p) t'" using i(1) by auto
  qed (simp_all add: o0)
  then obtain ps where f: "for_range 0 ?l (\<lambda>p s. init_partition mem s p) (parts d, buf + int (3 * ?l), of_nat (?n - 3 * ?l), buf) =
      Some (ps, buf + int (offset bss ?l), of_nat (?n - offset bss ?l), buf + int (3 * ?l))" "length ps = length (parts d)" "\<forall>i<?l. R i (ps ! i)" by auto
  have ll: "?l < length bss" using L by simp
  have "0 < length (piece bss pad ?l)" using ne by (simp add: piece_def)
  then have pn: "?n - offset bss ?l = length (piece bss pad ?l)" "offset bss ?l < ?n"
    using partitions_length(2)[OF ll L(3), of pad] by linarith+
  obtain b where b: "VP8InitBitReader mem (buf + int (offset bss ?l)) (of_nat (?n - offset bss ?l)) = Some b" "R ?l b" using init[OF ll] unfolding pn(1) by blast
  have sm: "\<not> (of_nat ?n :: u64) < 3 * of_nat ?l"
  proof -
    have "3 * of_nat ?l = (of_nat (3 * ?l) :: u64)" by simp
    then show ?thesis using u[of "3 * ?l"] u[of ?n] tb by (simp only: word_less_def)
  qed
  have s2: "of_nat ?n - of_nat ?l * 3 = (of_nat (?n - 3 * ?l) :: u64)" using sub[OF tb] by (simp add: mult.commute)
  have un: "uint (of_nat ?n :: u64) = int ?n" using u[of ?n] by simp
  have stl: "st ps (int ?l) b = Some (ps[?l := b])" using f(2) l ll by (simp add: st_nat del: of_nat_diff)
  have R: "\<forall>p<length bss. R p (ps[?l := b] ! p)" using f(2,3) b(2) l ll L(3) by (auto simp: nth_list_update)
  have "ParsePartitions mem d buf (of_nat ?n) = Some (VP8_STATUS_OK, ?d\<lparr>parts := ps[?l := b]\<rparr>)"
    using br(1) f(1) b(1) stl pn(2) sm s2 parts_log2(1)[OF P]
    by (simp add: ParsePartitions_def Let_def c[unfolded One_nat_def] un mult.commute)
  then show ?thesis using br(2) f(2) R by (intro exI[of _ br] exI[of _ "ps[?l := b]"]) simp
qed

subsection \<open>The headers of the decoder\<close>

definition filter_code :: "VP8EncFilterHeader \<Rightarrow> int" where
  "filter_code h = (if e_level h = 0 then 0 else if e_simple h \<noteq> 0 then 1 else 2)"

text \<open>The decoder behind the headers of the first partition.\<close>

definition headers_read :: "VP8Encoder \<Rightarrow> nat \<Rightarrow> VP8Decoder \<Rightarrow> VP8BitReader \<Rightarrow> VP8BitReader list \<Rightarrow> VP8Decoder" where
  "headers_read enc P d br ps =
     d\<lparr>ready := 1, dec_br := br, pic_hdr := (pic_hdr d)\<lparr>colorspace := 0, clamp_type := 0\<rparr>,
       filter_hdr := filter_result (e_filter_hdr enc) (filter_hdr d), segment_hdr := segment_result enc (segment_hdr d),
       num_parts_minus_one := of_nat (P - 1), parts := ps, dqm := quant_result enc (segment_result enc (segment_hdr d)) (dqm d),
       proba := proba_result (e_proba enc) (segment_probas enc (proba d)), use_skip_proba := e_use_skip_proba (e_proba enc),
       skip_p := (if e_use_skip_proba (e_proba enc) \<noteq> 0 then e_skip_proba (e_proba enc) else skip_p d),
       filter_type := filter_code (e_filter_hdr enc)\<rparr>"

lemma decoder_lengths:
  assumes "decoder_ok d"
  shows "length (quantizer (segment_hdr d)) = 4" "length (filter_strength (segment_hdr d)) = 4" "length (segments (proba d)) = 3"
    "length (mode_lf_delta (filter_hdr d)) = 4" "length (dqm d) = 4" "length (parts d) = 8" "proba_dims (proba d)"
    "length (quantizer (segment_result enc (segment_hdr d))) = length (quantizer (segment_hdr d)) \<or> length (quantizer (segment_result enc (segment_hdr d))) = length (e_dqm enc)"
  using assms by (auto simp: decoder_ok_def segment_header_ok_def segment_probas_ok_def filter_header_ok_def deltas_ok_def proba_shape_def proba_dims_def segment_result_def intro: shape4_dims)

lemma proba_dims_segments: "proba_dims (segment_probas enc p) = proba_dims p"
  by (simp add: segment_probas_def proba_dims_def)

lemma parse_partition0_ok:
  assumes h: "headers_ok enc" and d: "decoder_ok d" and P: "part_count (length bss)"
    and k: "key_frame (frm_hdr d) \<noteq> 0" "partition_length (frm_hdr d) = of_nat (length bs0)" "length bs0 < 2 ^ 31"
    and i: "VP8InitBitReader mem buf (of_nat (length bs0)) = Some br0" "reading mem bs0 br0 (partition0_symbols enc em (length bss))"
    and m: "\<And>p. Suc p < length bss \<Longrightarrow> length (bss ! p) < 2 ^ 24" and ne: "bss ! (length bss - 1) \<noteq> []"
    and st: "stored mem (buf + int (length bs0)) (partitions bss pad)" and n: "length (partitions bss pad) < 2 ^ 31"
    and init: "\<And>p. p < length bss \<Longrightarrow>
      \<exists>br. VP8InitBitReader mem (buf + int (length bs0) + int (offset bss p)) (of_nat (length (piece bss pad p))) = Some br \<and> R p br"
  shows "\<exists>br ps. parse_partition0 mem d io buf (of_nat (length bs0 + length (partitions bss pad))) = Some (1, headers_read enc (length bss) d br ps, io) \<and>
    reading mem bs0 br (all_mode_symbols enc em 0) \<and> length ps = 8 \<and> (\<forall>p<length bss. R p (ps ! p))"
proof -
  note l = decoder_lengths[OF d]
  have hs: "segment_ok enc" "filter_ok (e_filter_hdr enc)" "quant_ok enc" "proba_ok (e_proba enc)" using h by (simp_all add: headers_ok_def)
  have le: "length bss \<le> length (parts d)" using P l(6) by (auto simp: part_count_def)
  obtain br1 where 1: "VP8Get mem br0 = Some (0, br1)" "reading mem bs0 br1 ((False, 128) # segment_symbols enc @ filter_symbols (e_filter_hdr enc) @
     bits_of 2 (parts_log2 (length bss)) @ quant_symbols enc @ (False, 128) # proba_symbols (e_proba enc) @ all_mode_symbols enc em 0)"
    using reading_step[OF parses_Get[of False mem bs0 False]] i(2) by (fastforce simp: partition0_symbols_def)
  obtain br2 where 2: "VP8Get mem br1 = Some (0, br2)" "reading mem bs0 br2 (segment_symbols enc @ filter_symbols (e_filter_hdr enc) @
     bits_of 2 (parts_log2 (length bss)) @ quant_symbols enc @ (False, 128) # proba_symbols (e_proba enc) @ all_mode_symbols enc em 0)"
    using reading_step[OF parses_Get[of False mem bs0 False]] 1(2) by fastforce
  let ?sh = "segment_result enc (segment_hdr d)" and ?sp = "segment_probas enc (proba d)"
  obtain br3 where 3: "ParseSegmentHeader mem (segment_hdr d) (proba d) br2 = Some (1, ?sh, ?sp, br3)" "reading mem bs0 br3 (filter_symbols (e_filter_hdr enc) @
     bits_of 2 (parts_log2 (length bss)) @ quant_symbols enc @ (False, 128) # proba_symbols (e_proba enc) @ all_mode_symbols enc em 0)"
    using reading_step[OF parses_ParseSegmentHeader[OF hs(1) l(1-3)] 2(2)] by blast
  let ?fh = "filter_result (e_filter_hdr enc) (filter_hdr d)" and ?ft = "filter_code (e_filter_hdr enc)"
  obtain br4 where 4: "ParseFilterHeader mem (filter_hdr d) br3 = Some (1, ?ft, ?fh, br4)" "reading mem bs0 br4 (
     bits_of 2 (parts_log2 (length bss)) @ quant_symbols enc @ (False, 128) # proba_symbols (e_proba enc) @ all_mode_symbols enc em 0)"
    using reading_step[OF parses_ParseFilterHeader[OF hs(2) l(4)] 3(2)] unfolding filter_code_def by blast
  let ?d4 = "d\<lparr>pic_hdr := (pic_hdr d)\<lparr>colorspace := 0, clamp_type := 0\<rparr>, segment_hdr := ?sh, proba := ?sp, filter_hdr := ?fh, filter_type := ?ft, dec_br := br4\<rparr>"
  have r4: "reading mem bs0 (dec_br ?d4) (bits_of 2 (parts_log2 (length bss)) @ quant_symbols enc @ (False, 128) # proba_symbols (e_proba enc) @ all_mode_symbols enc em 0)"
    "length bss \<le> length (parts ?d4)" using 4(2) le by simp_all
  from ParsePartitions_ok[OF P m ne st n r4(2,1) init] obtain br5 ps where
    5: "ParsePartitions mem ?d4 (buf + int (length bs0)) (of_nat (length (partitions bss pad))) =
      Some (VP8_STATUS_OK, ?d4\<lparr>dec_br := br5, num_parts_minus_one := of_nat (length bss - 1), parts := ps\<rparr>)"
      "reading mem bs0 br5 (quant_symbols enc @ (False, 128) # proba_symbols (e_proba enc) @ all_mode_symbols enc em 0)"
      "length ps = 8" "\<forall>p<length bss. R p (ps ! p)" using l(6) by auto
  let ?dq = "quant_result enc ?sh (dqm d)"
  have "length (e_dqm enc) = 4" using hs(1) by (simp add: segment_ok_def)
  then have q: "length (quantizer ?sh) = 4" using l(1) l(8)[of enc] by metis
  obtain br6 where 6: "VP8ParseQuant mem ?sh (dqm d) br5 = Some (?dq, br6)" "reading mem bs0 br6 ((False, 128) # proba_symbols (e_proba enc) @ all_mode_symbols enc em 0)"
    using reading_step[OF parses_VP8ParseQuant[OF hs(3) q l(5)] 5(2)] by blast
  obtain br7 where 7: "VP8Get mem br6 = Some (0, br7)" "reading mem bs0 br7 (proba_symbols (e_proba enc) @ all_mode_symbols enc em 0)"
    using reading_step[OF parses_Get[of False mem bs0 False]] 6(2) by fastforce
  let ?pr = "proba_result (e_proba enc) ?sp"
  have pd: "proba_dims ?sp" using l(7) by (simp add: proba_dims_segments)
  obtain br8 where 8: "VP8ParseProba mem ?sp (skip_p d) br7 = Some (?pr, e_use_skip_proba (e_proba enc),
      (if e_use_skip_proba (e_proba enc) \<noteq> 0 then e_skip_proba (e_proba enc) else skip_p d), br8)" "reading mem bs0 br8 (all_mode_symbols enc em 0)"
    using reading_step[OF parses_VP8ParseProba[OF hs(4) pd] 7(2)] by blast
  have u: "uint (of_nat (length bs0) :: u32) = int (length bs0)" "(ucast (of_nat (length bs0) :: u32) :: u64) = of_nat (length bs0)"
    using k(3) by (simp_all only: word_uint_eq_iff uint_ucast_64) (simp_all add: unsigned_of_nat take_bit_nat_eq_self)
  have "parse_partition0 mem d io buf (of_nat (length bs0 + length (partitions bss pad))) = Some (1, headers_read enc (length bss) d br8 ps, io)"
    using k(1) i(1) 1(1) 2(1) 3(1) 4(1) 5(1) 6(1) 7(1) 8(1)
    by (simp add: parse_partition0_def Let_def k(2) u headers_read_def)
  then show ?thesis using 5(3,4) 8(2) by blast
qed

end
