(* ===== verification/Spec2Isabelle.thy ===== *)
theory Spec2Isabelle
  imports Prelude Color_Cache Transforms Bool_Coder LBits Filters VP8_Tokens Total_Decoder VP8_Frame Container
    VP8_Modes Mode_Roundtrip Inverse_Transforms VP8_Residuals Partitions Residual_Roundtrip
    Picture Frame_Roundtrip First_Partition
begin

text \<open>
  A verification library for the C code of libwebp in this repository (src/libwebp), the image codec that
  the client ships. Of the C code that is the largest part with logic of its own; SQLCipher is a generated
  amalgamation of a third-party engine, and the headers of SignalFfi declare code that is not in the
  repository.

  \<^bold>\<open>The program.\<close> WebP has a lossless format (VP8L) and a lossy one (VP8). A lossless encoder applies
  reversible transforms to the pixels (predictors, cross-color, subtract-green, palette bundling), replaces
  colors by indices of a hash-indexed color cache, and writes everything with an LSB-first bit writer; the
  decoder reads the fields with a 64-bit window and undoes the transforms in reverse order. A lossy frame is
  a sequence of binary decisions, each coded with a probability by a boolean entropy coder: headers
  (segments, filter, quantizers, probabilities), modes, and the quantized coefficients of each 4x4 block as
  tokens. A lossy image carries transparency in a plane of bytes that is filtered before compression.

  \<^bold>\<open>The theories.\<close>
  \<^item> Prelude: memory as a list with checked access (\<open>ld\<close>, \<open>st\<close>; \<open>None\<close> is an access out of range), \<open>blit\<close>, the
    loop combinator \<open>for_range\<close> with its invariant rule, and lemmas on words.
  \<^item> Utils: src/utils/utils.h, endian_inl_utils.h, utils.c: little-endian access, the integer logarithm, size
    checks and allocation. The allocator is a parameter of the model; \<open>malloc_ok\<close> says that it grants requests
    of up to \<open>2 ^ 34\<close> bytes with blocks of the requested length.
  \<^item> Pixels, Predictors, Transforms: src/dsp/lossless.c, lossless_enc.c, lossless_common.h and
    src/enc/predictor_enc.c. Pixels are 32-bit words; the fourteen predictors and their Add and Sub forms, the
    inverse predictor transform over rows and tiles, the color transforms, bundling of palette indices, and the
    dispatcher VP8LInverseTransform including its in-place path.
  \<^item> Color_Cache: src/utils/color_cache_utils.c and .h, with a locale for the contract of a cache.
  \<^item> Bool_Writer, Bool_Reader, Bool_Coder: src/utils/bit_writer_utils.c and bit_reader_utils.c, bit_reader_inl_utils.h.
    The abstract machine is a pair of exact integers, the interval of the arithmetic coder; the writer with its
    pending run of 0xff bytes and its carries, and the reader with its 56-bit window, refine it.
  \<^item> LBits: the lossless bit writer and reader of the same files, against the stream of bits that they hold.
  \<^item> Filters: src/dsp/filters.c, src/utils/filters_utils.c and the row loop of src/dec/alpha_dec.c.
  \<^item> Syntax_Elements: the calculus in which the syntax of a lossy frame is verified: \<open>emits\<close> for a piece of the
    encoder, \<open>parses\<close> for a piece of the decoder, one rule per operation of the coder, and the locale
    \<open>syntax_element\<close>, whose facts carry an element through a complete buffer.
  \<^item> VP8_Tables: the probability, token and quantizer tables of src/dec/tree_dec.c, vp8_dec.c, quant_dec.c and of
    src/enc/tree_enc.c, frame_enc.c, quant_enc.c, and the proofs that the two sides agree.
  \<^item> VP8_Headers: src/enc/syntax_enc.c, tree_enc.c and SetupMatrices against the parsers of src/dec/vp8_dec.c,
    quant_dec.c and tree_dec.c.
  \<^item> VP8_Tokens: PutCoeffs of src/enc/frame_enc.c against GetCoeffsFast and GetCoeffsAlt of src/dec/vp8_dec.c.
  \<^item> Total_Decoder: the same parsers on arbitrary data. \<open>returns\<close> says that a piece of the decoder ends, reads
    inside its buffer and establishes a condition; one rule per operation of the reader carries it through the
    headers and the coefficients.
  \<^item> VP8_Frame: VP8GetInfo, ParsePartitions and VP8GetHeaders of src/dec/vp8_dec.c with the status codes and the
    error path of VP8SetError.
  \<^item> VP8_Modes, Mode_Roundtrip: the segment, skip flag and intra modes of each macroblock, with the iterator of
    src/enc/iterator_enc.c, VP8CodeIntraModes of src/enc/tree_enc.c and VP8ParseIntraModeRow of src/dec/tree_dec.c.
    The decoder keeps one row and one column of modes where the encoder keeps the whole plane; the proof relates the two.
  \<^item> Inverse_Transforms: the inverse transforms of src/dsp/dec.c and their selection in src/dec/frame_dec.c.
  \<^item> Container: the RIFF file of src/dec/webp_dec.c, from ParseRIFF to WebPParseHeaders and WebPGetInfo, with the
    image header of the lossless format (src/dec/vp8l_dec.c).

  \<^bold>\<open>Conventions.\<close> A \<open>struct\<close> is a record, a pointer is an index into a list, a null pointer is \<open>None\<close>, an
  out-parameter is part of the result, and a call through a table of functions is a call through a list. An
  unsigned machine integer is a word; a signed \<open>int\<close> is an integer where the proofs bound it. A result
  \<open>None\<close> stands for undefined behaviour (an access outside of an object), so that a theorem with \<open>Some\<close> in its
  conclusion also shows that the code stays inside its buffers. Loops with a fixed bound are \<open>for_range\<close>;
  loops whose end depends on the data are \<open>partial_function\<close>s into \<open>option\<close>, and the theorems show that they
  end. There is no fuel. The configuration is the portable one: little-endian, 64 bits, no vector
  instructions, \<open>USE_GENERIC_TREE\<close> set.

  \<^bold>\<open>The properties.\<close> Round trips carry data through the encoder's and the decoder's own code: bits through
  the boolean coder and the lossless coder, pixels through every transform, alpha planes through the filters,
  headers, probabilities, modes and coefficients through the lossy syntax. Refinement and equivalence theorems relate
  optimised code to its specification: the coder to exact interval arithmetic, table-driven readers to the plain ones,
  in-place unpacking to unpacking elsewhere, the decoder's quantizer steps to the encoder's, the transforms that are
  selected for sparse blocks to the full transform. Error and invariant
  theorems cover the end of a stream and the position of the reader. The decoder's parsers are total: on every
  content of the file they end, stay inside it, and leave either an error status or a state that the later stages
  rely on.

  \<^bold>\<open>Bounds.\<close> A boolean-coded buffer has fewer than \<open>2 ^ 31\<close> symbols in the round trips, which the writer's
  64-bit positions and the allocator's limit allow. Coefficients are below 2115, the largest level that the
  token alphabet can express. The theorems on arbitrary data assume a file below 2 GB, which the reader asserts
  of every buffer that it is given.

  \<^bold>\<open>Not modelled.\<close> The search heuristics of the encoders, intra prediction and loop filtering, Huffman coding and
  LZ77 of the lossless format, color conversion and rescaling, incremental decoding, muxing and animation, threads and the vector
  variants.
\<close>

end
